(* ===== verification/Prelude.thy ===== *)
theory Prelude
  imports Main "HOL-Library.Word"
begin

unbundle bit_operations_syntax

section \<open>Prelude: bytes, C strings, little-endian integers\<close>

text \<open>
  What every component of the development shares.

  \<^item> A byte (a C \<^verbatim>\<open>char\<close> or \<^verbatim>\<open>uint8_t\<close>) is a HOL \<^typ>\<open>char\<close>, which has exactly 256 values.
  \<^item> A C character array is the list of its bytes; the string it holds is its prefix before the
    first NUL byte (\<open>cstr\<close>), and reading past the end of a literal string gives its NUL (\<open>chr_at\<close>).
  \<^item> A pointer argument that the code compares with \<^verbatim>\<open>NULL\<close> is an \<^typ>\<open>'a option\<close>.
  \<^item> A \<^verbatim>\<open>uint32_t\<close> is a natural number, reduced with \<open>u32\<close> wherever the code can wrap around;
    a C \<^verbatim>\<open>int\<close> is an \<^typ>\<open>int\<close>.
  \<^item> Little-endian 32-bit and 16-bit words are read and written as the code does it, byte by byte.
\<close>

subsection \<open>Types and collections of facts\<close>

type_synonym byte = char
type_synonym bytes = "char list"
type_synonym cptr = "char list option"

named_theorems cstr_simps \<open>facts on the string held by a character buffer\<close>
named_theorems mem_simps \<open>facts on loads and stores of little-endian words\<close>

abbreviation NUL :: byte where
  "NUL \<equiv> CHR 0x00"

abbreviation SLASH :: byte where
  "SLASH \<equiv> CHR ''/''"

abbreviation NEWLINE :: byte where
  "NEWLINE \<equiv> CHR 0x0A"

subsection \<open>C strings\<close>

definition cstr :: "bytes \<Rightarrow> bytes" where
  "cstr b = takeWhile (\<lambda>c. c \<noteq> NUL) b"

definition chr_at :: "bytes \<Rightarrow> nat \<Rightarrow> byte" where
  "chr_at s i = (if i < length s then s ! i else NUL)"

definition is_cstring :: "bytes \<Rightarrow> bool" where
  "is_cstring s \<longleftrightarrow> NUL \<notin> set s"

lemma cstr_Nil [simp, cstr_simps]: "cstr [] = []"
  by (simp add: cstr_def)

lemma cstr_Cons [simp, cstr_simps]: "cstr (c # s) = (if c = NUL then [] else c # cstr s)"
  by (simp add: cstr_def)

lemma cstr_append_NUL [simp, cstr_simps]:
  "is_cstring s \<Longrightarrow> cstr (s @ NUL # t) = s"
  unfolding cstr_def is_cstring_def by (subst takeWhile_append2) auto

lemma cstr_is_cstring [simp, cstr_simps]: "is_cstring (cstr b)"
  unfolding cstr_def is_cstring_def by (auto dest: set_takeWhileD)

lemma cstr_id [simp, cstr_simps]: "is_cstring s \<Longrightarrow> cstr s = s"
  unfolding cstr_def is_cstring_def by (auto simp: takeWhile_eq_all_conv)

lemma cstr_cstr [simp, cstr_simps]: "cstr (cstr b) = cstr b"
  by simp

lemma length_cstr_le: "length (cstr b) \<le> length b"
  unfolding cstr_def by (rule length_takeWhile_le)

lemma length_cstr_less: "NUL \<in> set b \<Longrightarrow> length (cstr b) < length b"
  unfolding cstr_def by (induction b) auto

lemma is_cstring_simps [simp, cstr_simps]:
  "is_cstring []"
  "is_cstring (c # s) \<longleftrightarrow> c \<noteq> NUL \<and> is_cstring s"
  "is_cstring (s @ t) \<longleftrightarrow> is_cstring s \<and> is_cstring t"
  by (auto simp: is_cstring_def)

lemma is_cstring_take [simp, cstr_simps]: "is_cstring s \<Longrightarrow> is_cstring (take n s)"
  unfolding is_cstring_def by (meson in_set_takeD)

lemma is_cstring_drop [simp, cstr_simps]: "is_cstring s \<Longrightarrow> is_cstring (drop n s)"
  unfolding is_cstring_def by (meson in_set_dropD)

lemma is_cstring_subset: "set s \<subseteq> set t \<Longrightarrow> is_cstring t \<Longrightarrow> is_cstring s"
  by (auto simp: is_cstring_def)

lemma chr_at_simps [simp]:
  "chr_at [] i = NUL" "chr_at (c # s) 0 = c" "chr_at (c # s) (Suc i) = chr_at s i"
  by (simp_all add: chr_at_def)

lemma chr_at_0_NUL_iff: "chr_at s 0 = NUL \<longleftrightarrow> cstr s = []"
  by (cases s) auto

subsection \<open>Machine integers\<close>

definition u32 :: "nat \<Rightarrow> nat" where
  "u32 n = n mod 4294967296"

lemma u32_less [simp]: "u32 n < 4294967296"
  by (simp add: u32_def)

lemma u32_id [simp]: "n < 4294967296 \<Longrightarrow> u32 n = n"
  by (simp add: u32_def)

lemma u32_u32 [simp]: "u32 (u32 n) = u32 n"
  by simp

text \<open>Rounding down and up to a multiple, as \<^verbatim>\<open>x & ~(a-1)\<close> and \<^verbatim>\<open>(x + a-1) & ~(a-1)\<close> do for a
  power of two \<open>a\<close>.\<close>

definition align_down :: "nat \<Rightarrow> nat \<Rightarrow> nat" where
  "align_down a n = n - n mod a"

definition round_up :: "nat \<Rightarrow> nat \<Rightarrow> nat" where
  "round_up a n = align_down a (n + (a - 1))"

lemma align_down_dvd [simp]: "a dvd align_down a n"
  unfolding align_down_def by (rule dvd_minus_mod)

lemma align_down_le [simp]: "align_down a n \<le> n"
  by (simp add: align_down_def)

lemma round_up_dvd [simp]: "a dvd round_up a n"
  by (simp add: round_up_def)

lemma round_up_ge: "0 < a \<Longrightarrow> n \<le> round_up a n"
proof -
  assume "0 < a"
  then have "(n + (a - 1)) mod a < a" by simp
  then have "(n + (a - 1)) mod a \<le> a - 1" by linarith
  then show ?thesis by (simp add: round_up_def align_down_def)
qed

lemma round_up_less: "0 < a \<Longrightarrow> round_up a n < n + a"
proof -
  assume "0 < a"
  moreover have "round_up a n \<le> n + (a - 1)"
    by (simp add: round_up_def)
  ultimately show ?thesis by linarith
qed

subsection \<open>Little-endian words in memory\<close>

type_synonym mem = "nat \<Rightarrow> byte"

definition le32_bytes :: "nat \<Rightarrow> bytes" where
  "le32_bytes v =
     [char_of v, char_of (v div 256), char_of (v div 65536), char_of (v div 16777216)]"

definition le32_val :: "byte \<Rightarrow> byte \<Rightarrow> byte \<Rightarrow> byte \<Rightarrow> nat" where
  "le32_val a b c d =
     of_char a + 256 * of_char b + 65536 * of_char c + 16777216 * of_char d"

definition ld32 :: "mem \<Rightarrow> nat \<Rightarrow> nat" where
  "ld32 m p = le32_val (m p) (m (p + 1)) (m (p + 2)) (m (p + 3))"

definition st32 :: "mem \<Rightarrow> nat \<Rightarrow> nat \<Rightarrow> mem" where
  "st32 m p v = m(p := char_of v, p + 1 := char_of (v div 256),
     p + 2 := char_of (v div 65536), p + 3 := char_of (v div 16777216))"

lemma of_char_less [simp]: "(of_char c :: nat) < 256"
  by (rule nat_of_char_less_256)

lemma le32_split:
  fixes v :: nat
  assumes "v < 4294967296"
  shows "v mod 256 + 256 * (v div 256 mod 256) + 65536 * (v div 65536 mod 256)
    + 16777216 * (v div 16777216 mod 256) = v"
proof -
  define q1 q2 q3 where "q1 = v div 256" and "q2 = q1 div 256" and "q3 = q2 div 256"
  have e: "v div 65536 = q2" "v div 16777216 = q3"
    by (simp_all add: q1_def q2_def q3_def div_mult2_eq [symmetric])
  have "q3 < 256"
    using assms e by (simp add: less_mult_imp_div_less)
  moreover have "v mod 256 + 256 * q1 = v" "q1 mod 256 + 256 * q2 = q1" "q2 mod 256 + 256 * q3 = q2"
    unfolding q1_def q2_def q3_def by (simp_all only: mod_mult_div_eq)
  ultimately show ?thesis unfolding e q1_def [symmetric] by simp
qed

lemma le32_val_bytes [simp, mem_simps]:
  "v < 4294967296 \<Longrightarrow> le32_val (char_of v) (char_of (v div 256))
     (char_of (v div 65536)) (char_of (v div 16777216)) = v"
  using le32_split [of v] by (simp only: le32_val_def of_char_of)

lemma ld32_st32_same [simp, mem_simps]: "v < 4294967296 \<Longrightarrow> ld32 (st32 m p v) p = v"
  by (simp add: ld32_def st32_def)

lemma ld32_st32_other [mem_simps]:
  "p + 4 \<le> q \<or> q + 4 \<le> p \<Longrightarrow> ld32 (st32 m p v) q = ld32 m q"
  by (auto simp: ld32_def st32_def)

lemma st32_outside [mem_simps]: "q < p \<or> p + 4 \<le> q \<Longrightarrow> st32 m p v q = m q"
  by (auto simp: st32_def)

lemma ld32_less [simp]: "ld32 m p < 4294967296"
proof -
  have "of_char (m p) \<le> (255::nat)" "of_char (m (p+1)) \<le> (255::nat)"
    "of_char (m (p+2)) \<le> (255::nat)" "of_char (m (p+3)) \<le> (255::nat)"
    by (simp_all add: less_Suc_eq_le [symmetric] del: One_nat_def)
  then show ?thesis unfolding ld32_def le32_val_def by linarith
qed

lemma ld32_cong: "(\<And>i. p \<le> i \<Longrightarrow> i < p + 4 \<Longrightarrow> m i = m' i) \<Longrightarrow> ld32 m p = ld32 m' p"
  by (simp add: ld32_def)

lemma length_le32_bytes [simp]: "length (le32_bytes v) = 4"
  by (simp add: le32_bytes_def)

end
