(* ===== verification/Utf8.thy ===== *)
theory Utf8
  imports Prelude
begin

section \<open>UTF-8 decoding (include/utf8.h)\<close>

text \<open>
  The console and the editor share the decoder of \<^verbatim>\<open>include/utf8.h\<close>: \<open>utf8_decode\<close> reads one
  sequence from a buffer, \<open>utf8_feed\<close> is the byte-at-a-time state machine of the console, and
  \<open>utf8_to_cell\<close> chooses the glyph. The reference is the encoder of the Unicode standard,
  \<open>utf8_encode\<close>: the decoder inverts it on every scalar value, and what it accepts is an encoding
  of a scalar value, so overlong forms, surrogates and values above U+10FFFF are refused.
\<close>

subsection \<open>The decoder\<close>

definition UTF8_INVALID :: nat where
  "UTF8_INVALID = 0xFFFFFFFF"

fun utf8_cont :: "bytes \<Rightarrow> nat \<Rightarrow> nat \<Rightarrow> nat \<Rightarrow> nat option" where
  "utf8_cont s i 0 c = Some c"
| "utf8_cont s i (Suc n) c =
     (let b = of_char (chr_at s i) :: nat in
      if b AND 0xC0 \<noteq> 0x80 then None
      else utf8_cont s (i + 1) n (push_bit 6 c OR (b AND 0x3F)))"

definition utf8_finish :: "bytes \<Rightarrow> nat \<Rightarrow> nat \<Rightarrow> nat \<Rightarrow> nat \<times> nat" where
  "utf8_finish s len c need =
     (if len < need + 1 then (1, UTF8_INVALID)
      else case utf8_cont s 1 need c of
        None \<Rightarrow> (1, UTF8_INVALID)
      | Some c \<Rightarrow>
          if need = 2 \<and> c < 0x800 \<or> need = 3 \<and> c < 0x10000
             \<or> c \<ge> 0xD800 \<and> c \<le> 0xDFFF \<or> c > 0x10FFFF
          then (1, UTF8_INVALID) else (need + 1, c))"

definition utf8_decode :: "bytes \<Rightarrow> nat \<Rightarrow> nat \<times> nat" where
  "utf8_decode s len =
     (let b0 = of_char (chr_at s 0) :: nat in
      if b0 < 0x80 then (1, b0)
      else if b0 AND 0xE0 = 0xC0 then
        (let c = b0 AND 0x1F in if c < 2 then (1, UTF8_INVALID) else utf8_finish s len c 1)
      else if b0 AND 0xF0 = 0xE0 then utf8_finish s len (b0 AND 0x0F) 2
      else if b0 AND 0xF8 = 0xF0 then utf8_finish s len (b0 AND 0x07) 3
      else (1, UTF8_INVALID))"

subsection \<open>Glyphs\<close>

definition utf8_map_ascii :: "nat \<Rightarrow> nat" where
  "utf8_map_ascii cp =
     (if cp = 0x2018 \<or> cp = 0x2019 \<or> cp = 0x201A \<or> cp = 0x02BC then 0x27
      else if cp = 0x201C \<or> cp = 0x201D then 0x22
      else if cp = 0x2013 \<or> cp = 0x2014 then 0x2D
      else if cp = 0x2026 then 0x2E
      else 0)"

definition utf8_to_cell :: "nat \<Rightarrow> byte" where
  "utf8_to_cell cp =
     (if cp = UTF8_INVALID then NUL
      else if cp < 0x80 then char_of cp
      else let m = utf8_map_ascii cp in if m \<noteq> 0 then char_of m else CHR ''?'')"

subsection \<open>The incremental decoder\<close>

record utf8_feed_t =
  feed_buf :: bytes
  feed_len :: nat
  feed_need :: nat

definition utf8_feed_init :: utf8_feed_t where
  "utf8_feed_init = \<lparr>feed_buf = replicate 4 NUL, feed_len = 0, feed_need = 0\<rparr>"

definition utf8_feed_start :: "utf8_feed_t \<Rightarrow> byte \<Rightarrow> nat \<times> nat \<times> utf8_feed_t" where
  "utf8_feed_start st ch =
     (let c = of_char ch :: nat in
      if c < 0x80 then (1, c, st)
      else if c AND 0xE0 = 0xC0 then
        (0, UTF8_INVALID, st\<lparr>feed_buf := (feed_buf st)[0 := ch], feed_len := 1, feed_need := 1\<rparr>)
      else if c AND 0xF0 = 0xE0 then
        (0, UTF8_INVALID, st\<lparr>feed_buf := (feed_buf st)[0 := ch], feed_len := 1, feed_need := 2\<rparr>)
      else if c AND 0xF8 = 0xF0 then
        (0, UTF8_INVALID, st\<lparr>feed_buf := (feed_buf st)[0 := ch], feed_len := 1, feed_need := 3\<rparr>)
      else (2, UTF8_INVALID, st))"

definition utf8_feed :: "utf8_feed_t \<Rightarrow> byte \<Rightarrow> nat \<times> nat \<times> utf8_feed_t" where
  "utf8_feed st ch =
     (if feed_need st > 0 then
        if (of_char ch :: nat) AND 0xC0 = 0x80 \<and> feed_len st < 4 then
          (let st = st\<lparr>feed_buf := (feed_buf st)[feed_len st := ch], feed_len := feed_len st + 1,
                       feed_need := feed_need st - 1\<rparr> in
           if feed_need st = 0
           then (1, snd (utf8_decode (feed_buf st) (feed_len st)), st\<lparr>feed_len := 0\<rparr>)
           else (0, UTF8_INVALID, st))
        else utf8_feed_start (st\<lparr>feed_len := 0, feed_need := 0\<rparr>) ch
      else utf8_feed_start st ch)"

text \<open>Feeding a run of bytes, as the console does: the code points completed on the way (the
  results with return code 1), and the final state.\<close>

fun utf8_feed_all :: "utf8_feed_t \<Rightarrow> bytes \<Rightarrow> nat list \<times> utf8_feed_t" where
  "utf8_feed_all st [] = ([], st)"
| "utf8_feed_all st (c # cs) =
     (case utf8_feed st c of (rc, cp, st') \<Rightarrow>
       (case utf8_feed_all st' cs of (cps, st'') \<Rightarrow>
         ((if rc = 1 then cp # cps else cps), st'')))"

subsection \<open>Reference: scalar values and their encoding\<close>

definition scalar_value :: "nat \<Rightarrow> bool" where
  "scalar_value cp \<longleftrightarrow> cp \<le> 0x10FFFF \<and> \<not> (0xD800 \<le> cp \<and> cp \<le> 0xDFFF)"

definition utf8_encode :: "nat \<Rightarrow> bytes" where
  "utf8_encode cp =
     (if cp < 0x80 then [char_of cp]
      else if cp < 0x800 then [char_of (0xC0 + cp div 64), char_of (0x80 + cp mod 64)]
      else if cp < 0x10000 then
        [char_of (0xE0 + cp div 4096), char_of (0x80 + cp div 64 mod 64), char_of (0x80 + cp mod 64)]
      else
        [char_of (0xF0 + cp div 262144), char_of (0x80 + cp div 4096 mod 64),
         char_of (0x80 + cp div 64 mod 64), char_of (0x80 + cp mod 64)])"

subsection \<open>Bit tests as arithmetic\<close>

lemma and_high_bits: "b AND push_bit n (mask k) = 2 ^ n * (b div 2 ^ n mod 2 ^ k)" for b :: nat
proof -
  have "b AND push_bit n (mask k) = push_bit n (take_bit k (drop_bit n b))"
    by (rule bit_eqI) (auto simp: bit_simps)
  then show ?thesis by (simp add: push_bit_eq_mult take_bit_eq_mod drop_bit_eq_div mult.commute)
qed

lemma byte_masks:
  fixes b :: nat
  assumes "b < 256"
  shows "(b AND 0xC0 = 0x80) = (b div 64 = 2)" "(b AND 0xE0 = 0xC0) = (b div 32 = 6)"
    "(b AND 0xF0 = 0xE0) = (b div 16 = 14)" "(b AND 0xF8 = 0xF0) = (b div 8 = 30)"
  using and_high_bits [of b 6 2] and_high_bits [of b 5 3] and_high_bits [of b 4 4]
    and_high_bits [of b 3 5] assms
  by (auto simp: mask_eq_exp_minus_1 push_bit_eq_mult less_mult_imp_div_less)

lemma low_masks:
  "b AND 0x3F = b mod 64" "b AND 0x1F = b mod 32" "b AND 0x0F = b mod 16" "b AND 0x07 = b mod 8"
  for b :: nat
  using take_bit_eq_mask [of 6 b] take_bit_eq_mask [of 5 b] take_bit_eq_mask [of 4 b]
    take_bit_eq_mask [of 3 b]
  by (simp_all add: mask_eq_exp_minus_1 take_bit_eq_mod)

lemma of_char_masks:
  "(of_char ch AND (0xC0::nat) = 0x80) = (of_char ch div 64 = (2::nat))"
  "(of_char ch AND (0xE0::nat) = 0xC0) = (of_char ch div 32 = (6::nat))"
  "(of_char ch AND (0xF0::nat) = 0xE0) = (of_char ch div 16 = (14::nat))"
  "(of_char ch AND (0xF8::nat) = 0xF0) = (of_char ch div 8 = (30::nat))"
  "of_char ch AND (0x3F::nat) = of_char ch mod 64"
  "of_char ch AND (0x1F::nat) = of_char ch mod 32"
  "of_char ch AND (0x0F::nat) = of_char ch mod 16"
  "of_char ch AND (0x07::nat) = of_char ch mod 8"
  by (rule byte_masks low_masks; simp)+

lemma push6_or: "b < 64 \<Longrightarrow> push_bit 6 c OR b = 64 * c + (b::nat)"
proof -
  assume "b < 64"
  then have b: "b = take_bit 6 b" by (simp add: take_bit_eq_mod)
  have "push_bit 6 c OR take_bit 6 b = push_bit 6 c + take_bit 6 b"
    by (rule disjunctive_add [symmetric]) (auto simp: bit_simps)
  with b show ?thesis by (simp add: push_bit_eq_mult)
qed

text \<open>The decoder with its masks read as quotients and remainders: the form all proofs use.\<close>

lemma utf8_cont_Suc:
  "utf8_cont s i (Suc n) c =
     (let b = of_char (chr_at s i) :: nat in
      if b div 64 \<noteq> 2 then None else utf8_cont s (Suc i) n (64 * c + b mod 64))"
  by (simp add: of_char_masks push6_or Let_def)

declare utf8_cont.simps(2) [simp del]

lemma utf8_decode_arith:
  "utf8_decode s len =
     (let b0 = of_char (chr_at s 0) :: nat in
      if b0 < 128 then (1, b0)
      else if b0 div 32 = 6 then
        (if b0 mod 32 < 2 then (1, UTF8_INVALID) else utf8_finish s len (b0 mod 32) 1)
      else if b0 div 16 = 14 then utf8_finish s len (b0 mod 16) 2
      else if b0 div 8 = 30 then utf8_finish s len (b0 mod 8) 3
      else (1, UTF8_INVALID))"
  unfolding utf8_decode_def Let_def of_char_masks by simp

lemma utf8_cont_eqs:
  "utf8_cont s i (Suc 0) c =
     (let b = of_char (chr_at s i) :: nat in if b div 64 \<noteq> 2 then None else Some (64 * c + b mod 64))"
  "utf8_cont s i 2 c =
     (let b = of_char (chr_at s i) :: nat in
      if b div 64 \<noteq> 2 then None else utf8_cont s (Suc i) (Suc 0) (64 * c + b mod 64))"
  "utf8_cont s i 3 c =
     (let b = of_char (chr_at s i) :: nat in
      if b div 64 \<noteq> 2 then None else utf8_cont s (Suc i) 2 (64 * c + b mod 64))"
  unfolding numeral_3_eq_3 numeral_2_eq_2 utf8_cont_Suc utf8_cont.simps(1) by simp_all

lemmas utf8_arith = utf8_decode_arith utf8_finish_def utf8_cont_eqs Let_def chr_at_def

lemma quot_rem: "k < n \<Longrightarrow> (q * n + k) div n = q \<and> (q * n + k) mod n = k" for k :: nat
  by (simp add: div_mult_self3)

lemma lead_cont_arith:
  "k < 64 \<Longrightarrow> (128 + k) div 64 = 2" "k < 64 \<Longrightarrow> (128 + k) mod 64 = k"
  "k < 32 \<Longrightarrow> (192 + k) div 32 = 6" "k < 32 \<Longrightarrow> (192 + k) mod 32 = k"
  "k < 16 \<Longrightarrow> (224 + k) div 32 = 7" "k < 16 \<Longrightarrow> (224 + k) div 16 = 14"
  "k < 16 \<Longrightarrow> (224 + k) mod 16 = k"
  "k < 8 \<Longrightarrow> (240 + k) div 32 = 7" "k < 8 \<Longrightarrow> (240 + k) div 16 = 15"
  "k < 8 \<Longrightarrow> (240 + k) div 8 = 30" "k < 8 \<Longrightarrow> (240 + k) mod 8 = k"
  for k :: nat
  using quot_rem [of k 64 2] quot_rem [of k 32 6] quot_rem [of k 16 14] quot_rem [of k 8 30]
  by auto

lemma utf8_digits:
  "64 * (64 * (cp div 4096) + cp div 64 mod 64) + cp mod 64 = cp"
  "64 * (64 * (64 * (cp div 262144) + cp div 4096 mod 64) + cp div 64 mod 64) + cp mod 64 = cp"
  for cp :: nat
proof -
  have d: "cp div 4096 = cp div 64 div 64" "cp div 262144 = cp div 64 div 64 div 64"
    by (simp_all add: div_mult2_eq [symmetric])
  show "64 * (64 * (cp div 4096) + cp div 64 mod 64) + cp mod 64 = cp"
    and "64 * (64 * (64 * (cp div 262144) + cp div 4096 mod 64) + cp div 64 mod 64) + cp mod 64 = cp"
    unfolding d by (simp_all only: mult_div_mod_eq)
qed

subsection \<open>Decoding inverts encoding\<close>

lemma utf8_decode_encode:
  assumes "scalar_value cp" and "length (utf8_encode cp) \<le> len"
  shows "utf8_decode (utf8_encode cp @ rest) len = (length (utf8_encode cp), cp)"
proof -
  consider "cp < 0x80" | "0x80 \<le> cp" "cp < 0x800" | "0x800 \<le> cp" "cp < 0x10000"
    | "0x10000 \<le> cp" by linarith
  then show ?thesis
  proof cases
    case 1
    then show ?thesis by (simp add: utf8_arith utf8_encode_def)
  next
    case 2
    then have k: "cp div 64 < 32" and g: "\<not> cp div 64 < 2" by auto
    have n: "\<not> cp < 128" "\<not> (192 + cp div 64) < 128" using 2 by auto
    from 2(2) assms show ?thesis
      by (simp add: utf8_arith utf8_encode_def lead_cont_arith lead_cont_arith(3,4) [OF k] scalar_value_def g n)
  next
    case 3
    then have k: "cp div 4096 < 16" by auto
    note utf8_digits(1) [of cp]
    with 3 assms show ?thesis
      by (simp add: utf8_arith utf8_encode_def lead_cont_arith lead_cont_arith(5-7) [OF k] scalar_value_def)
  next
    case 4
    with assms have k: "cp div 262144 < 8" by (auto simp: scalar_value_def)
    note utf8_digits(2) [of cp]
    with 4 assms show ?thesis
      by (simp add: utf8_arith utf8_encode_def lead_cont_arith lead_cont_arith(8-11) [OF k] scalar_value_def)
  qed
qed

subsection \<open>Only encodings are accepted\<close>

lemma cont_byte:
  assumes "(of_char (chr_at s i) :: nat) div 64 = 2"
  shows "i < length s" and "s ! i = char_of (128 + of_char (s ! i) mod 64 :: nat)"
proof -
  show i: "i < length s" using assms by (auto simp: chr_at_def split: if_splits)
  then have "(of_char (s ! i) :: nat) = 128 + of_char (s ! i) mod 64"
    using assms mult_div_mod_eq [of 64 "of_char (s ! i) :: nat"] by (simp add: chr_at_def)
  then show "s ! i = char_of (128 + of_char (s ! i) mod 64 :: nat)"
    by (metis char_of_char)
qed

lemma lead_byte:
  "(of_char c :: nat) div 32 = 6 \<Longrightarrow> char_of (192 + of_char c mod 32 :: nat) = c"
  "(of_char c :: nat) div 16 = 14 \<Longrightarrow> char_of (224 + of_char c mod 16 :: nat) = c"
  "(of_char c :: nat) div 8 = 30 \<Longrightarrow> char_of (240 + of_char c mod 8 :: nat) = c"
  using mult_div_mod_eq [of 32 "of_char c :: nat"] mult_div_mod_eq [of 16 "of_char c :: nat"]
    mult_div_mod_eq [of 8 "of_char c :: nat"]
  by simp_all

lemma encode_digits:
  "b < 64 \<Longrightarrow> (64 * a + b) div 64 = a" "b < 64 \<Longrightarrow> (64 * a + b) mod 64 = b"
  "b < 64 \<Longrightarrow> (64 * a + b) div 4096 = a div 64"
  "b < 64 \<Longrightarrow> (64 * a + b) div 262144 = a div 4096" for a b :: nat
proof -
  assume b: "b < 64"
  show d: "(64 * a + b) div 64 = a" and "(64 * a + b) mod 64 = b" using b by simp_all
  show "(64 * a + b) div 4096 = a div 64"
    using div_mult2_eq [of "64 * a + b" 64 64] d by simp
  show "(64 * a + b) div 262144 = a div 4096"
    using div_mult2_eq [of "64 * a + b" 64 4096] d by simp
qed

text \<open>The encoding of a value given by its base-64 digits.\<close>

lemma encode_of_digits2:
  fixes a b :: nat
  assumes "a < 32" "2 \<le> a" "b < 64"
  shows "utf8_encode (64 * a + b) = [char_of (192 + a), char_of (128 + b)]"
  using assms by (simp add: utf8_encode_def encode_digits)

lemma encode_of_digits3:
  fixes a b c :: nat
  assumes "a < 16" "b < 64" "c < 64" and cp: "cp = 64 * (64 * a + b) + c" and "0x800 \<le> cp"
  shows "utf8_encode cp = [char_of (224 + a), char_of (128 + b), char_of (128 + c)]"
proof -
  have "64 * a + b \<le> 1023" using assms(1,2) by simp
  then have "cp < 65536" using assms(3) unfolding cp by simp
  moreover have "cp div 4096 = a" "cp div 64 mod 64 = b" "cp mod 64 = c"
    using assms(1-3) unfolding cp by (simp_all only: encode_digits)
  ultimately show ?thesis using assms(5) by (simp add: utf8_encode_def)
qed

lemma encode_of_digits4:
  fixes a b c d :: nat
  assumes "b < 64" "c < 64" "d < 64" and cp: "cp = 64 * (64 * (64 * a + b) + c) + d"
    and "0x10000 \<le> cp"
  shows "utf8_encode cp = [char_of (240 + a), char_of (128 + b), char_of (128 + c), char_of (128 + d)]"
proof -
  have "cp div 262144 = a" "cp div 4096 mod 64 = b" "cp div 64 mod 64 = c" "cp mod 64 = d"
    using assms(1-3) encode_digits(3) [of c "64 * a + b"] unfolding cp by (simp_all only: encode_digits)
  then show ?thesis using assms(5) by (simp add: utf8_encode_def)
qed

lemma take_as_nths:
  "1 < length s \<Longrightarrow> take 2 s = [s ! 0, s ! 1]"
  "2 < length s \<Longrightarrow> take 3 s = [s ! 0, s ! 1, s ! 2]"
  "3 < length s \<Longrightarrow> take 4 s = [s ! 0, s ! 1, s ! 2, s ! 3]"
  by (cases s; cases "tl s"; cases "tl (tl s)"; cases "tl (tl (tl s))";
      simp add: numeral_2_eq_2 numeral_3_eq_3 eval_nat_numeral)+

text \<open>What \<open>utf8_finish\<close> accepts: \<open>need\<close> continuation bytes, and a scalar value that needs them.\<close>

lemma utf8_finish_valid:
  assumes "utf8_finish s len c need = (n, cp)" and "cp \<noteq> UTF8_INVALID"
  shows "n = Suc need \<and> utf8_cont s (Suc 0) need c = Some cp \<and> scalar_value cp
    \<and> (need = 2 \<longrightarrow> 0x800 \<le> cp) \<and> (need = 3 \<longrightarrow> 0x10000 \<le> cp)"
  using assms by (auto simp: utf8_finish_def scalar_value_def split: if_splits option.splits)

lemma utf8_decode_sound:
  assumes dec: "utf8_decode s len = (n, cp)" and valid: "cp \<noteq> UTF8_INVALID" and ne: "s \<noteq> []"
  shows "scalar_value cp \<and> n \<le> length s \<and> take n s = utf8_encode cp"
proof -
  let ?b = "\<lambda>i. of_char (s ! i) :: nat"
  have c0: "chr_at s 0 = s ! 0" using ne by (simp add: chr_at_def)
  consider (ascii) "?b 0 < 128" "n = 1" "cp = ?b 0"
    | (two) "?b 0 div 32 = 6" "2 \<le> ?b 0 mod 32" "utf8_finish s len (?b 0 mod 32) 1 = (n, cp)"
    | (three) "?b 0 div 16 = 14" "utf8_finish s len (?b 0 mod 16) 2 = (n, cp)"
    | (four) "?b 0 div 8 = 30" "utf8_finish s len (?b 0 mod 8) 3 = (n, cp)"
    using dec valid unfolding utf8_decode_arith Let_def c0 by (auto split: if_splits)
  then show ?thesis
  proof cases
    case ascii
    with ne show ?thesis
      by (cases s) (auto simp: scalar_value_def utf8_encode_def)
  next
    case two
    from utf8_finish_valid [OF two(3) valid]
    have n: "n = 2" and sc: "scalar_value cp" and b1: "of_char (chr_at s 1) div 64 = (2::nat)"
      and cp: "cp = 64 * (?b 0 mod 32) + of_char (chr_at s 1) mod 64"
      by (auto simp: utf8_cont_eqs Let_def split: if_splits)
    note c1 = cont_byte [OF b1]
    have s: "take 2 s = [s ! 0, s ! 1]"
      using c1(1) take_as_nths(1) by blast
    have "utf8_encode cp = [s ! 0, s ! 1]"
      unfolding cp using c1 two(2) lead_byte(1) [OF two(1)]
      by (subst encode_of_digits2) (simp_all add: chr_at_def)
    with s sc n c1(1) show ?thesis by simp
  next
    case three
    from utf8_finish_valid [OF three(2) valid]
    have n: "n = 3" and sc: "scalar_value cp" and lo: "0x800 \<le> cp"
      and b1: "of_char (chr_at s 1) div 64 = (2::nat)" and b2: "of_char (chr_at s 2) div 64 = (2::nat)"
      and cp: "cp = 64 * (64 * (?b 0 mod 16) + of_char (chr_at s 1) mod 64) + of_char (chr_at s 2) mod 64"
      by (auto simp: utf8_cont_eqs Let_def numeral_2_eq_2 [symmetric] split: if_splits)
    note c1 = cont_byte [OF b1] and c2 = cont_byte [OF b2]
    have "utf8_encode cp = [s ! 0, s ! 1, s ! 2]"
      using c1 c2 lead_byte(2) [OF three(1)] by (subst encode_of_digits3 [OF _ _ _ cp lo]) (simp_all add: chr_at_def)
    with sc n c2(1) take_as_nths(2) show ?thesis by simp
  next
    case four
    from utf8_finish_valid [OF four(2) valid]
    have n: "n = 4" and sc: "scalar_value cp" and lo: "0x10000 \<le> cp"
      and b1: "of_char (chr_at s 1) div 64 = (2::nat)" and b2: "of_char (chr_at s 2) div 64 = (2::nat)"
      and b3: "of_char (chr_at s 3) div 64 = (2::nat)"
      and cp: "cp = 64 * (64 * (64 * (?b 0 mod 8) + of_char (chr_at s 1) mod 64)
          + of_char (chr_at s 2) mod 64) + of_char (chr_at s 3) mod 64"
      by (auto simp: utf8_cont_eqs Let_def numeral_2_eq_2 [symmetric] numeral_3_eq_3 [symmetric]
          split: if_splits)
    note c1 = cont_byte [OF b1] and c2 = cont_byte [OF b2] and c3 = cont_byte [OF b3]
    have "utf8_encode cp = [s ! 0, s ! 1, s ! 2, s ! 3]"
      using c1 c2 c3 lead_byte(3) [OF four(1)] by (subst encode_of_digits4 [OF _ _ _ cp lo]) (simp_all add: chr_at_def)
    with sc n c3(1) take_as_nths(3) show ?thesis by simp
  qed
qed

subsection \<open>The incremental decoder\<close>

definition feed_wf :: "utf8_feed_t \<Rightarrow> bool" where
  "feed_wf st \<longleftrightarrow> length (feed_buf st) = 4 \<and>
     (feed_need st > 0 \<longrightarrow> 0 < feed_len st \<and> feed_len st + feed_need st \<le> 4)"

lemma feed_wf_init: "feed_wf utf8_feed_init"
  by (simp add: feed_wf_def utf8_feed_init_def)

lemma feed_wf_start: "feed_wf st \<Longrightarrow> feed_need st = 0 \<Longrightarrow> utf8_feed_start st c = (rc, cp, st') \<Longrightarrow> feed_wf st'"
  by (auto simp: feed_wf_def utf8_feed_start_def Let_def split: if_splits)

lemma feed_wf_step:
  assumes "feed_wf st" and "utf8_feed st c = (rc, cp, st')"
  shows "feed_wf st'"
proof (cases "feed_need st > 0 \<and> of_char c AND (0xC0::nat) = 0x80 \<and> feed_len st < 4")
  case True
  with assms show ?thesis
    by (auto simp: feed_wf_def utf8_feed_def Let_def split: if_splits)
next
  case False
  let ?st = "if feed_need st > 0 then st\<lparr>feed_len := 0, feed_need := 0\<rparr> else st"
  have "utf8_feed_start ?st c = (rc, cp, st')"
    using False assms(2) by (auto simp: utf8_feed_def split: if_splits)
  moreover have "feed_wf ?st" "feed_need ?st = 0" using assms(1) by (auto simp: feed_wf_def)
  ultimately show ?thesis by (blast intro: feed_wf_start)
qed

lemma feed_start_arith:
  "utf8_feed_start st ch =
     (let c = of_char ch :: nat;
          go = (\<lambda>n. (0, UTF8_INVALID, st\<lparr>feed_buf := (feed_buf st)[0 := ch], feed_len := 1, feed_need := n\<rparr>)) in
      if c < 128 then (1, c, st)
      else if c div 32 = 6 then go 1 else if c div 16 = 14 then go 2
      else if c div 8 = 30 then go 3 else (2, UTF8_INVALID, st))"
  unfolding utf8_feed_start_def Let_def of_char_masks by simp

lemma feed_cont:
  assumes "0 < feed_need st" "k < 64" "feed_len st < 4"
  shows "utf8_feed st (char_of (128 + k :: nat)) =
     (let st' = st\<lparr>feed_buf := (feed_buf st)[feed_len st := char_of (128 + k)],
                   feed_len := feed_len st + 1, feed_need := feed_need st - 1\<rparr> in
      if feed_need st = 1 then (1, snd (utf8_decode (feed_buf st') (feed_len st')), st'\<lparr>feed_len := 0\<rparr>)
      else (0, UTF8_INVALID, st'))"
proof -
  have "(of_char (char_of (128 + k)) :: nat) div 64 = 2" using assms(2) by simp
  with assms show ?thesis by (simp add: utf8_feed_def of_char_masks Let_def del: of_char_of)
qed

text \<open>Feeding the bytes of one encoding completes exactly that code point, on its last byte.\<close>

lemma feed_encode:
  assumes wf: "feed_wf st" and need: "feed_need st = 0" and sv: "scalar_value cp"
  shows "\<exists>st'. utf8_feed_all st (utf8_encode cp) = ([cp], st') \<and> feed_wf st' \<and> feed_need st' = 0"
proof -
  from wf obtain a b c d where buf: "feed_buf st = [a, b, c, d]"
    by (auto simp: feed_wf_def eval_nat_numeral length_Suc_conv)
  have dec: "snd (utf8_decode (utf8_encode cp @ rest) (length (utf8_encode cp))) = cp" for rest
    using utf8_decode_encode [OF sv order_refl] by simp
  consider "cp < 0x80" | "0x80 \<le> cp" "cp < 0x800" | "0x800 \<le> cp" "cp < 0x10000"
    | "0x10000 \<le> cp" by linarith
  then show ?thesis
  proof cases
    case 1
    with need wf show ?thesis
      by (simp add: utf8_encode_def utf8_feed_def feed_start_arith Let_def)
  next
    case 2
    then have k: "cp div 64 < 32" by auto
    have "(of_char (char_of (192 + cp div 64)) :: nat) = 192 + cp div 64" using k by simp
    then show ?thesis
      using 2 need wf dec [of "[c, d]"] buf
      by (simp add: utf8_encode_def utf8_feed_def [of st] feed_start_arith feed_cont Let_def feed_wf_def
          lead_cont_arith(3) [OF k] del: of_char_of)
  next
    case 3
    then have k: "cp div 4096 < 16" by auto
    have "(of_char (char_of (224 + cp div 4096)) :: nat) = 224 + cp div 4096" using k by simp
    then show ?thesis
      using 3 need wf dec [of "[d]"] buf
      by (simp add: utf8_encode_def utf8_feed_def [of st] feed_start_arith feed_cont Let_def feed_wf_def
          lead_cont_arith(5,6) [OF k] numeral_3_eq_3 numeral_2_eq_2 del: of_char_of)
  next
    case 4
    then have k: "cp div 262144 < 8" using sv by (auto simp: scalar_value_def)
    have "(of_char (char_of (240 + cp div 262144)) :: nat) = 240 + cp div 262144" using k by simp
    then show ?thesis
      using 4 need wf dec [of "[]"] buf
      by (simp add: utf8_encode_def utf8_feed_def [of st] feed_start_arith feed_cont Let_def feed_wf_def
          lead_cont_arith(8-10) [OF k] numeral_3_eq_3 numeral_2_eq_2 del: of_char_of)
  qed
qed

lemma utf8_decode_consumes_le:
  assumes "utf8_decode s len = (n, cp)" and "cp \<noteq> UTF8_INVALID" and "0 < len"
  shows "n \<le> len"
  using assms unfolding utf8_decode_arith
  by (auto simp: utf8_finish_def Let_def split: if_splits option.splits)

lemma utf8_feed_all_append:
  "utf8_feed_all st (xs @ ys) =
     (case utf8_feed_all st xs of (cps, st') \<Rightarrow>
       (case utf8_feed_all st' ys of (cps', st'') \<Rightarrow> (cps @ cps', st'')))"
  by (induction xs arbitrary: st) (auto split: prod.splits)

lemma feed_text:
  assumes "feed_wf st" "feed_need st = 0" "\<forall>cp\<in>set cps. scalar_value cp"
  shows "\<exists>st'. utf8_feed_all st (concat (map utf8_encode cps)) = (cps, st') \<and> feed_wf st' \<and> feed_need st' = 0"
  using assms
proof (induction cps arbitrary: st)
  case Nil
  then show ?case by simp
next
  case (Cons cp cps)
  then obtain st1 where "utf8_feed_all st (utf8_encode cp) = ([cp], st1)" "feed_wf st1" "feed_need st1 = 0"
    using feed_encode [of st cp] by auto
  with Cons show ?case by (fastforce simp: utf8_feed_all_append)
qed

subsection \<open>Properties\<close>

text \<open>C38. \<open>utf8_decode\<close> is exactly UTF-8 decoding: on a non-empty buffer it reports a code point
  \<open>cp\<close> and \<open>n\<close> consumed bytes if and only if \<open>cp\<close> is a Unicode scalar value whose (unique,
  shortest) encoding is the first \<open>n\<close> bytes of the buffer and lies within the \<open>len\<close> bytes
  available. Overlong forms, surrogates, truncated sequences and values above U+10FFFF give
  \<open>UTF8_INVALID\<close>.\<close>

theorem utf8_decode_exact:
  assumes "0 < len" and "len \<le> length s"
  shows "(utf8_decode s len = (n, cp) \<and> cp \<noteq> UTF8_INVALID) \<longleftrightarrow>
    (scalar_value cp \<and> n = length (utf8_encode cp) \<and> n \<le> len \<and> take n s = utf8_encode cp)"
proof
  assume "utf8_decode s len = (n, cp) \<and> cp \<noteq> UTF8_INVALID"
  moreover from assms have "s \<noteq> []" by auto
  ultimately have "scalar_value cp" "n \<le> length s" "take n s = utf8_encode cp" "n \<le> len"
    using utf8_decode_sound [of s len n cp] utf8_decode_consumes_le [of s len n cp] assms(1) by auto
  then show "scalar_value cp \<and> n = length (utf8_encode cp) \<and> n \<le> len \<and> take n s = utf8_encode cp"
    by (metis length_take min.absorb2)
next
  assume r: "scalar_value cp \<and> n = length (utf8_encode cp) \<and> n \<le> len \<and> take n s = utf8_encode cp"
  then have "s = utf8_encode cp @ drop n s" by (metis append_take_drop_id)
  with r utf8_decode_encode [of cp len "drop n s"] show "utf8_decode s len = (n, cp) \<and> cp \<noteq> UTF8_INVALID"
    by (auto simp: scalar_value_def UTF8_INVALID_def)
qed

theorem utf8_decode_exact_witness:
  "utf8_decode [CHR 0xE2, CHR 0x82, CHR 0xAC] 3 = (3, 0x20AC) \<and> (0x20AC::nat) \<noteq> UTF8_INVALID"
  by (subst utf8_decode_exact) (simp_all add: scalar_value_def utf8_encode_def char_of_def bit_Suc_0_iff)

text \<open>Streaming: whatever text of Unicode scalar values is sent to the console, feeding the
  bytes of its encoding one at a time to \<open>utf8_feed\<close> completes exactly those code points, in
  order, and leaves the decoder between two sequences.\<close>

theorem utf8_feed_streams_text:
  assumes "\<forall>cp\<in>set cps. scalar_value cp"
  shows "\<exists>st. utf8_feed_all utf8_feed_init (concat (map utf8_encode cps)) = (cps, st) \<and> feed_need st = 0"
  using feed_text [OF feed_wf_init _ assms] by (auto simp: utf8_feed_init_def)

theorem utf8_feed_streams_text_witness:
  "\<exists>st. utf8_feed_all utf8_feed_init (concat (map utf8_encode [0x48, 0xE9, 0x20AC, 0x1F600]))
     = ([0x48, 0xE9, 0x20AC, 0x1F600], st) \<and> feed_need st = 0"
  by (rule utf8_feed_streams_text) (simp add: scalar_value_def)

text \<open>The four-byte buffer of the incremental decoder is never overrun: from the initial state
  every reachable state still expects at most as many bytes as the buffer has room for, whatever
  bytes arrive, valid or not.\<close>

theorem utf8_feed_buffer_bound:
  "feed_wf (snd (utf8_feed_all utf8_feed_init cs))"
proof -
  have "feed_wf st \<Longrightarrow> feed_wf (snd (utf8_feed_all st cs))" for st
    by (induction cs arbitrary: st) (simp, fastforce split: prod.splits dest: feed_wf_step)
  then show ?thesis using feed_wf_init .
qed

end
