(* ===== verification/FsPath.thy ===== *)
theory FsPath
  imports Prelude
begin

section \<open>Path names (fs/fs.c)\<close>

text \<open>
  The string helpers of the filesystem and the canonicalisation of path names. Every operation of
  \<^verbatim>\<open>fs.c\<close> first turns its argument into an absolute path with \<open>abs_path\<close>, which joins it to the
  current directory and resolves empty, \<^verbatim>\<open>.\<close> and \<^verbatim>\<open>..\<close> components in fixed-size buffers (511 bytes
  for the joined path, 255 for the result, 64 components). The reference is the resolution of a
  list of components (\<open>resolve\<close>, \<open>render\<close>): within those capacities \<open>abs_path\<close> computes it.
\<close>

definition FS_PATH_CAP :: nat where
  "FS_PATH_CAP = 256"

subsection \<open>String helpers\<close>

text \<open>\<open>strcpy_safe\<close> writes at most \<open>cap - 1\<close> characters and a NUL into the buffer \<open>d\<close>; the bytes of
  \<open>d\<close> after the NUL keep their old values. The loop advances through both arrays.\<close>

fun strcpy_loop :: "nat \<Rightarrow> bytes \<Rightarrow> bytes \<Rightarrow> bytes" where
  "strcpy_loop 0 d s = NUL # tl d"
| "strcpy_loop (Suc room) d s =
     (if chr_at s 0 \<noteq> NUL then chr_at s 0 # strcpy_loop room (tl d) (tl s) else NUL # tl d)"

definition strcpy_safe :: "bytes \<Rightarrow> bytes \<Rightarrow> nat \<Rightarrow> bytes" where
  "strcpy_safe d s cap = strcpy_loop (cap - 1) d s"

function strcmp_safe :: "bytes \<Rightarrow> bytes \<Rightarrow> bool" where
  "strcmp_safe a b =
     (if chr_at a 0 \<noteq> NUL \<and> chr_at b 0 \<noteq> NUL
      then (if chr_at a 0 \<noteq> chr_at b 0 then False else strcmp_safe (tl a) (tl b))
      else chr_at a 0 = chr_at b 0)"
  by pat_completeness auto
termination
  by (relation "measure (\<lambda>(a, b). length a)") (auto simp: chr_at_def split: if_splits)

declare strcmp_safe.simps [simp del]

definition strlen_safe :: "bytes \<Rightarrow> nat" where
  "strlen_safe s = min 1023 (length (cstr s))"

subsection \<open>The parent of a path\<close>

fun strip_slashes :: "bytes \<Rightarrow> nat \<Rightarrow> nat" where
  "strip_slashes p 0 = 0"
| "strip_slashes p (Suc n) =
     (if Suc n > 1 \<and> chr_at p n = SLASH then strip_slashes p n else Suc n)"

fun cut_name :: "bytes \<Rightarrow> nat \<Rightarrow> nat" where
  "cut_name p 0 = 0"
| "cut_name p (Suc n) = (if chr_at p n \<noteq> SLASH then cut_name p n else Suc n)"

definition split_parent :: "bytes \<Rightarrow> nat \<Rightarrow> bytes" where
  "split_parent path cap =
     (let p = cstr path;
          len = strip_slashes p (length p);
          cut = cut_name p len
      in if cut = 0 then [SLASH]
         else let pl = max 1 (cut - 1); pl = (if pl \<ge> cap then cap - 1 else pl) in take pl p)"

subsection \<open>Canonical absolute paths\<close>

definition abs_combined :: "bytes \<Rightarrow> bytes \<Rightarrow> bytes" where
  "abs_combined cwd name =
     (if chr_at name 0 = SLASH then take 511 (cstr name)
      else let c = take 511 (cstr cwd);
               c = (if c = [] then [SLASH] else c);
               c = (if length c > 1 \<and> last c \<noteq> SLASH then c @ [SLASH] else c)
           in c @ take (511 - length c) (cstr name))"

text \<open>One component: \<open>starts\<close> holds the offsets at which the components of \<open>out\<close> begin, the last
  component first, so its length is the code's \<^verbatim>\<open>depth\<close>.\<close>

definition abs_component :: "bytes \<Rightarrow> nat list \<times> bytes \<Rightarrow> nat list \<times> bytes" where
  "abs_component nm st =
     (case st of (starts, out) \<Rightarrow>
      if nm = ''.'' then (starts, out)
      else if nm = ''..'' then
        (case starts of
           [] \<Rightarrow> (starts, out)
         | start # rest \<Rightarrow>
             let cut = (if start > 1 then start - 1 else start) in (rest, take cut out))
      else if length starts \<ge> 64 then (starts, out)
      else
        let olen = strlen_safe out;
            out = (if olen > 1 \<and> olen < 255 then out @ [SLASH] else out);
            olen = (if olen > 1 \<and> olen < 255 then olen + 1 else olen)
        in (olen # starts, out @ take (255 - olen) nm))"

lemma abs_walk_shrinks:
  "dropWhile (\<lambda>c. c = SLASH) rest \<noteq> [] \<Longrightarrow>
   length (dropWhile (\<lambda>c. c \<noteq> SLASH) (dropWhile (\<lambda>c. c = SLASH) rest)) < length rest"
proof -
  let ?r = "dropWhile (\<lambda>c. c = SLASH) rest"
  assume ne: "?r \<noteq> []"
  then have "hd ?r \<noteq> SLASH" by (rule hd_dropWhile)
  with ne have "length (dropWhile (\<lambda>c. c \<noteq> SLASH) ?r) < length ?r"
    by (cases ?r) (simp_all add: length_dropWhile_le less_Suc_eq_le)
  also have "\<dots> \<le> length rest" by (rule length_dropWhile_le)
  finally show ?thesis .
qed

function abs_walk :: "bytes \<Rightarrow> nat list \<times> bytes \<Rightarrow> nat list \<times> bytes" where
  "abs_walk rest st =
     (let rest = dropWhile (\<lambda>c. c = SLASH) rest in
      if rest = [] then st
      else abs_walk (dropWhile (\<lambda>c. c \<noteq> SLASH) rest)
             (abs_component (takeWhile (\<lambda>c. c \<noteq> SLASH) rest) st))"
  by pat_completeness auto
termination
  by (relation "measure (\<lambda>(rest, st). length rest)") (auto simp: abs_walk_shrinks)

declare abs_walk.simps [simp del]

definition abs_path :: "bytes \<Rightarrow> bytes \<Rightarrow> bytes" where
  "abs_path cwd name =
     (let out = snd (abs_walk (abs_combined cwd name) ([], [SLASH]))
      in if out = [] then [SLASH] else out)"

subsection \<open>Subtrees\<close>

text \<open>\<open>path_under\<close>: the path \<open>child\<close> is \<open>dir\<close> or lies below it.\<close>

definition path_under :: "bytes \<Rightarrow> bytes \<Rightarrow> bool" where
  "path_under child dir =
     (let dl = strlen_safe dir;
          dl = (if dl \<noteq> 0 \<and> chr_at dir (dl - 1) = SLASH then dl - 1 else dl)
      in if (\<exists>i\<in>set [0..<dl]. chr_at (cstr child) i \<noteq> chr_at dir i) then False
         else if chr_at (cstr child) dl = NUL then True
         else if dl > 1 \<and> chr_at (cstr child) dl = SLASH then True
         else if dl = 1 \<and> chr_at dir 0 = SLASH \<and> chr_at (cstr child) 0 = SLASH then True
         else False)"

subsection \<open>Reference: resolving a list of components\<close>

function path_comps :: "bytes \<Rightarrow> bytes list" where
  "path_comps s =
     (let r = dropWhile (\<lambda>c. c = SLASH) s in
      if r = [] then []
      else takeWhile (\<lambda>c. c \<noteq> SLASH) r # path_comps (dropWhile (\<lambda>c. c \<noteq> SLASH) r))"
  by pat_completeness auto
termination
  by (relation "measure length") (auto simp: abs_walk_shrinks)

declare path_comps.simps [simp del]

definition resolve1 :: "bytes list \<Rightarrow> bytes \<Rightarrow> bytes list" where
  "resolve1 cs c = (if c = ''.'' then cs else if c = ''..'' then butlast cs else cs @ [c])"

definition resolve :: "bytes list \<Rightarrow> bytes list" where
  "resolve cs = foldl resolve1 [] cs"

definition render :: "bytes list \<Rightarrow> bytes" where
  "render cs = (if cs = [] then [SLASH] else concat (map (\<lambda>c. SLASH # c) cs))"

definition valid_comp :: "bytes \<Rightarrow> bool" where
  "valid_comp c \<longleftrightarrow> c \<noteq> [] \<and> SLASH \<notin> set c \<and> c \<noteq> ''.'' \<and> c \<noteq> ''..''"

definition canonical :: "bytes \<Rightarrow> bool" where
  "canonical p \<longleftrightarrow> p = render (path_comps p) \<and> (\<forall>c\<in>set (path_comps p). valid_comp c)"


subsection \<open>Facts on the helpers\<close>

lemma strcpy_loop_eq:
  "length d > room \<Longrightarrow>
   strcpy_loop room d s = take room (cstr s) @ NUL # drop (Suc (min room (length (cstr s)))) d"
proof (induction room arbitrary: d s)
  case 0
  then show ?case by (cases d) simp_all
next
  case (Suc room)
  then show ?case by (cases d; cases s) simp_all
qed

lemma length_strcpy_safe [simp]:
  "0 < cap \<Longrightarrow> cap \<le> length d \<Longrightarrow> length (strcpy_safe d s cap) = length d"
  by (simp add: strcpy_safe_def strcpy_loop_eq)

lemma cstr_strcpy_safe [simp, cstr_simps]:
  "0 < cap \<Longrightarrow> cap \<le> length d \<Longrightarrow> cstr (strcpy_safe d s cap) = take (cap - 1) (cstr s)"
  by (simp add: strcpy_safe_def strcpy_loop_eq)

lemma NUL_in_strcpy_safe [simp]:
  "0 < cap \<Longrightarrow> cap \<le> length d \<Longrightarrow> NUL \<in> set (strcpy_safe d s cap)"
  by (simp add: strcpy_safe_def strcpy_loop_eq)

lemma strcmp_safe_iff: "strcmp_safe a b \<longleftrightarrow> cstr a = cstr b"
proof (induction a b rule: strcmp_safe.induct)
  case (1 a b)
  then show ?case
    by (subst strcmp_safe.simps) (cases a; cases b; auto)
qed

lemma cut_name_le: "cut_name p n \<le> n"
  by (induction n) auto

lemma strip_slashes_le: "strip_slashes p n \<le> n"
  by (induction n) auto

subsection \<open>Components\<close>

lemma path_comps_Nil [simp]: "path_comps [] = []"
  by (simp add: path_comps.simps)

lemma path_comps_slash [simp]: "path_comps (SLASH # s) = path_comps s"
  by (subst (1 2) path_comps.simps) simp

lemma path_comps_comp:
  "c \<noteq> [] \<Longrightarrow> SLASH \<notin> set c \<Longrightarrow> s = [] \<or> hd s = SLASH \<Longrightarrow> path_comps (c @ s) = c # path_comps s"
proof -
  assume c: "c \<noteq> []" "SLASH \<notin> set c" and s: "s = [] \<or> hd s = SLASH"
  from c have "dropWhile (\<lambda>c. c = SLASH) (c @ s) = c @ s" by (cases c) auto
  moreover have "takeWhile (\<lambda>c. c \<noteq> SLASH) (c @ s) = c" "dropWhile (\<lambda>c. c \<noteq> SLASH) (c @ s) = s"
    using c s takeWhile_append2 [of c "\<lambda>c. c \<noteq> SLASH" s] dropWhile_append2 [of c "\<lambda>c. c \<noteq> SLASH" s]
    by (cases s; fastforce)+
  ultimately show ?thesis using c by (subst path_comps.simps) simp
qed

text \<open>Decomposing a path at its first component: the induction all path proofs use.\<close>

lemma path_induct [case_names slashes step]:
  assumes "\<And>s. dropWhile (\<lambda>c. c = SLASH) s = [] \<Longrightarrow> P s"
    and "\<And>s c r. dropWhile (\<lambda>c. c = SLASH) s = c @ r \<Longrightarrow> c \<noteq> [] \<Longrightarrow> SLASH \<notin> set c \<Longrightarrow>
      r = [] \<or> hd r = SLASH \<Longrightarrow> takeWhile (\<lambda>c. c \<noteq> SLASH) (c @ r) = c \<Longrightarrow>
      dropWhile (\<lambda>c. c \<noteq> SLASH) (c @ r) = r \<Longrightarrow> P r \<Longrightarrow> P s"
  shows "P s"
proof (induction s rule: path_comps.induct)
  case (1 s)
  let ?d = "dropWhile (\<lambda>c. c = SLASH) s"
  show ?case
  proof (cases "?d = []")
    case False
    let ?c = "takeWhile (\<lambda>c. c \<noteq> SLASH) ?d" and ?r = "dropWhile (\<lambda>c. c \<noteq> SLASH) ?d"
    have "?c \<noteq> []" using hd_dropWhile [OF False] False by (cases ?d) auto
    moreover have "SLASH \<notin> set ?c" by (auto dest: set_takeWhileD)
    moreover have "?r = [] \<or> hd ?r = SLASH" using hd_dropWhile [of "\<lambda>c. c \<noteq> SLASH" ?d] by auto
    ultimately show ?thesis using 1 [OF refl False] assms(2) [of s ?c ?r] by simp
  qed (simp add: assms(1))
qed

lemma path_comps_set: "c \<in> set (path_comps s) \<Longrightarrow> c \<noteq> [] \<and> SLASH \<notin> set c \<and> set c \<subseteq> set s"
proof (induction s rule: path_induct)
  case (slashes s)
  then show ?case by (simp add: path_comps.simps [of s])
next
  case (step s d r)
  have "set (d @ r) \<subseteq> set s" using step(1) by (metis set_dropWhileD subsetI)
  with step show ?case by (auto simp: path_comps.simps [of s])
qed

lemma render_Cons: "cs \<noteq> [] \<Longrightarrow> render (c # cs) = SLASH # c @ render cs"
  by (simp add: render_def)

lemma render_snoc: "render (cs @ [c]) = (if cs = [] then [] else render cs) @ SLASH # c"
  by (simp add: render_def)

lemma path_comps_render:
  "\<forall>c\<in>set cs. c \<noteq> [] \<and> SLASH \<notin> set c \<Longrightarrow> path_comps (render cs) = cs"
proof (induction cs)
  case Nil
  then show ?case by (simp add: render_def)
next
  case (Cons c cs)
  then show ?case
    using path_comps_comp [of c "[]"] path_comps_comp [of c "render cs"]
    by (cases cs) (simp_all add: render_def)
qed

lemma canonical_render: "\<forall>c\<in>set cs. valid_comp c \<Longrightarrow> canonical (render cs)"
  by (simp add: canonical_def path_comps_render valid_comp_def)

subsection \<open>The walk computes the resolution\<close>

definition rlen :: "bytes list \<Rightarrow> nat" where
  "rlen cs = (\<Sum>c\<leftarrow>cs. Suc (length c))"

fun starts_rev :: "bytes list \<Rightarrow> nat list" where
  "starts_rev [] = []"
| "starts_rev (c # r) = Suc (rlen r) # starts_rev r"

text \<open>The state of the walk after the components \<open>cs\<close>.\<close>

definition walk_state :: "bytes list \<Rightarrow> nat list \<times> bytes" where
  "walk_state cs = (starts_rev (rev cs), render cs)"

definition comps_ok :: "bytes list \<Rightarrow> bool" where
  "comps_ok cs \<longleftrightarrow> (\<forall>c\<in>set cs. c \<noteq> [] \<and> is_cstring c)"

lemma rlen_simps [simp]:
  "rlen [] = 0" "rlen (c # cs) = Suc (length c + rlen cs)" "rlen (cs @ ds) = rlen cs + rlen ds"
  "rlen (rev cs) = rlen cs"
  by (simp_all add: rlen_def rev_map [symmetric])

lemma rlen_pos [simp]: "0 < rlen cs \<longleftrightarrow> cs \<noteq> []"
  by (cases cs) simp_all

lemma length_starts_rev [simp]: "length (starts_rev r) = length r"
  by (induction r) auto

lemma length_render: "length (render cs) = (if cs = [] then 1 else rlen cs)"
  by (simp add: render_def rlen_def length_concat o_def)

lemma is_cstring_render: "comps_ok cs \<Longrightarrow> is_cstring (render cs)"
  by (auto simp: comps_ok_def render_def is_cstring_def)

lemma rlen_ge: "comps_ok cs \<Longrightarrow> cs \<noteq> [] \<Longrightarrow> 2 \<le> rlen cs"
  by (cases cs) (auto simp: comps_ok_def Suc_le_eq)

lemma walk_dotdot: "abs_component ''..'' (walk_state cs) = walk_state (butlast cs)"
proof (cases cs rule: rev_cases)
  case Nil
  then show ?thesis by (simp add: abs_component_def walk_state_def)
next
  case (snoc ds d)
  then show ?thesis
    by (cases "ds = []")
      (auto simp: abs_component_def walk_state_def render_snoc length_render rlen_def [of ds, symmetric]
        render_def [of "[]"] render_snoc [of "[]", simplified])
qed

lemma walk_push:
  assumes "comps_ok cs" "c \<noteq> []" "c \<noteq> ''.''" "c \<noteq> ''..''" "length cs < 64"
    and "rlen cs + Suc (length c) \<le> 255"
  shows "abs_component c (walk_state cs) = walk_state (cs @ [c])"
proof (cases "cs = []")
  case True
  with assms show ?thesis
    by (simp add: abs_component_def walk_state_def strlen_safe_def render_def)
next
  case False
  then have "strlen_safe (render cs) = rlen cs"
    using assms by (simp add: strlen_safe_def is_cstring_render length_render)
  with False assms rlen_ge [OF assms(1) False] show ?thesis
    by (simp add: abs_component_def walk_state_def render_snoc)
qed

lemma walk_component:
  assumes "comps_ok cs" "c \<noteq> []" "length cs < 64" "rlen cs + Suc (length c) \<le> 255"
  shows "abs_component c (walk_state cs) = walk_state (resolve1 cs c)"
proof -
  have "abs_component ''.'' (walk_state cs) = walk_state cs"
    by (simp add: abs_component_def walk_state_def)
  with assms walk_dotdot walk_push show ?thesis by (simp add: resolve1_def)
qed

lemma rlen_butlast: "rlen (butlast cs) \<le> rlen cs"
  by (cases cs rule: rev_cases) simp_all

lemma resolve1_bounds:
  "rlen (resolve1 cs c) \<le> rlen cs + Suc (length c)" "length (resolve1 cs c) \<le> Suc (length cs)"
  using rlen_butlast [of cs] by (auto simp: resolve1_def intro: le_trans)

lemma resolve1_ok: "comps_ok cs \<Longrightarrow> c \<noteq> [] \<Longrightarrow> is_cstring c \<Longrightarrow> comps_ok (resolve1 cs c)"
  by (auto simp: comps_ok_def resolve1_def dest: in_set_butlastD)

lemma abs_walk_resolve:
  assumes "rest = [] \<or> hd rest = SLASH" "rlen cs + length rest \<le> 255"
    "length cs + length (path_comps rest) \<le> 64" "is_cstring rest" "comps_ok cs"
  shows "abs_walk rest (walk_state cs) = walk_state (foldl resolve1 cs (path_comps rest))"
  using assms
proof (induction rest arbitrary: cs rule: path_induct)
  case (slashes s)
  then show ?case by (simp add: path_comps.simps [of s] abs_walk.simps [of s])
next
  case (step s c r)
  have s: "path_comps s = c # path_comps r" "abs_walk s st = abs_walk r (abs_component c st)" for st
    using step(1,2,5,6) by (simp_all add: path_comps.simps [of s] abs_walk.simps [of s])
  have "dropWhile (\<lambda>c. c = SLASH) s = dropWhile (\<lambda>c. c = SLASH) (tl s)" "s \<noteq> []"
    using step(1,2,8) by (cases s; simp)+
  then have "length (c @ r) < length s"
    using length_dropWhile_le [of "\<lambda>c. c = SLASH" "tl s"] step(1) by (cases s) auto
  then have len: "Suc (length c) + length r \<le> length s" by simp
  have "set (c @ r) \<subseteq> set s" using step(1) by (metis set_dropWhileD subsetI)
  then have cs: "is_cstring c" "is_cstring r" using step(11) by (auto simp: is_cstring_def)
  have "abs_component c (walk_state cs) = walk_state (resolve1 cs c)"
    using step len s by (intro walk_component) auto
  moreover have "abs_walk r (walk_state (resolve1 cs c)) = walk_state (foldl resolve1 (resolve1 cs c) (path_comps r))"
    using step(4) step.prems len s cs resolve1_bounds [of cs c] resolve1_ok [of cs c] step(2)
    by (intro step.IH) auto
  ultimately show ?case by (simp add: s)
qed

lemma comps_ok_resolve: "comps_ok cs \<Longrightarrow> comps_ok ds \<Longrightarrow> comps_ok (foldl resolve1 cs ds)"
  by (induction ds arbitrary: cs) (auto simp: comps_ok_def [of "_ # _"] intro: resolve1_ok
      simp: comps_ok_def [symmetric])

text \<open>Every component of a resolution is a valid one.\<close>

lemma resolve_valid:
  "\<forall>c\<in>set cs. valid_comp c \<Longrightarrow> \<forall>c\<in>set ds. c \<noteq> [] \<and> SLASH \<notin> set c \<Longrightarrow>
   \<forall>c\<in>set (foldl resolve1 cs ds). valid_comp c"
proof (induction ds arbitrary: cs)
  case (Cons d ds)
  have "\<forall>c\<in>set (resolve1 cs d). valid_comp c"
    using Cons.prems by (auto simp: resolve1_def valid_comp_def dest: in_set_butlastD)
  with Cons show ?case by simp
qed simp

lemma abs_walk_abs_path:
  assumes "cmb = abs_combined cwd name" "hd cmb = SLASH" "length cmb \<le> 255" "length (path_comps cmb) \<le> 64"
    and "is_cstring cmb"
  shows "abs_path cwd name = render (resolve (path_comps cmb))"
proof -
  have "abs_walk cmb (walk_state []) = walk_state (foldl resolve1 [] (path_comps cmb))"
    using assms by (intro abs_walk_resolve) (auto simp: comps_ok_def)
  moreover have "walk_state [] = ([], [SLASH])" by (simp add: walk_state_def render_def)
  ultimately show ?thesis
    unfolding abs_path_def assms(1) [symmetric] by (auto simp: walk_state_def resolve_def render_def Let_def)
qed

subsection \<open>Facts that hold whatever the lengths\<close>

definition walk_ok :: "nat list \<times> bytes \<Rightarrow> bool" where
  "walk_ok st \<longleftrightarrow> snd st \<noteq> [] \<and> hd (snd st) = SLASH \<and> length (snd st) \<le> 255 \<and> is_cstring (snd st)
     \<and> (\<forall>x\<in>set (fst st). 0 < x)"

lemma walk_ok_component:
  assumes "walk_ok st" "is_cstring c"
  shows "walk_ok (abs_component c st)"
proof -
  obtain starts out where st: "st = (starts, out)" by (cases st)
  with assms have o: "out \<noteq> []" "hd out = SLASH" "length out \<le> 255" "is_cstring out" "\<forall>x\<in>set starts. 0 < x"
    by (auto simp: walk_ok_def)
  then have "strlen_safe out = length out" "0 < length out" by (auto simp: strlen_safe_def)
  moreover have "take n out \<noteq> [] \<and> hd (take n out) = SLASH" if "0 < n" for n
    using that o by (cases out; cases n) auto
  ultimately show ?thesis
    using o assms(2) by (auto simp: st walk_ok_def abs_component_def Let_def split: list.splits)
qed

lemma walk_ok_walk: "walk_ok st \<Longrightarrow> is_cstring rest \<Longrightarrow> walk_ok (abs_walk rest st)"
proof (induction rest arbitrary: st rule: path_induct)
  case (slashes s)
  then show ?case by (simp add: abs_walk.simps [of s])
next
  case (step s c r)
  have "set (c @ r) \<subseteq> set s" using step(1) by (metis set_dropWhileD subsetI)
  then have cs: "is_cstring c" "is_cstring r" using step(9) by (auto simp: is_cstring_def)
  with step show ?case by (simp add: abs_walk.simps [of s] walk_ok_component)
qed

lemma is_cstring_combined: "is_cstring (abs_combined cwd name)"
  by (simp add: abs_combined_def Let_def)

lemma abs_path_ok:
  "abs_path cwd name \<noteq> []" "hd (abs_path cwd name) = SLASH" "length (abs_path cwd name) \<le> 255"
  "is_cstring (abs_path cwd name)"
proof -
  have "walk_ok (abs_walk (abs_combined cwd name) ([], [SLASH]))"
    by (intro walk_ok_walk is_cstring_combined) (simp add: walk_ok_def)
  then show "abs_path cwd name \<noteq> []" "hd (abs_path cwd name) = SLASH" "length (abs_path cwd name) \<le> 255"
    "is_cstring (abs_path cwd name)"
    by (auto simp: abs_path_def walk_ok_def Let_def)
qed

lemma abs_path_NUL [simp]: "NUL \<notin> set (abs_path cwd name)"
  using abs_path_ok(4) by (auto simp: is_cstring_def)

lemma cstr_abs_path [simp]: "cstr (abs_path cwd name) = abs_path cwd name"
  by (simp add: abs_path_ok)

lemma abs_combined_absolute: "hd p = SLASH \<Longrightarrow> p \<noteq> [] \<Longrightarrow> is_cstring p \<Longrightarrow> abs_combined cwd p = take 511 p"
  by (cases p) (auto simp: abs_combined_def)

lemma render_not_Nil [simp]: "render cs \<noteq> []"
  by (cases cs) (auto simp: render_def)

lemma hd_render: "hd (render cs) = SLASH"
  by (cases cs) (auto simp: render_def)

lemma resolve_valid_id: "\<forall>c\<in>set ds. valid_comp c \<Longrightarrow> foldl resolve1 cs ds = cs @ ds"
  by (induction ds arbitrary: cs) (auto simp: resolve1_def valid_comp_def)

text \<open>A canonical path within the capacities is its own canonical form, from every directory.\<close>

lemma abs_path_canonical:
  assumes "canonical p" "length p \<le> 255" "length (path_comps p) \<le> 64" "is_cstring p"
  shows "abs_path cwd p = p"
proof -
  have p: "p = render (path_comps p)" "\<forall>c\<in>set (path_comps p). valid_comp c"
    using assms(1) by (auto simp: canonical_def)
  then have "p \<noteq> []" "hd p = SLASH" by (metis render_not_Nil, metis hd_render)
  then have "abs_path cwd p = render (resolve (path_comps p))"
    using assms by (intro abs_walk_abs_path) (auto simp: abs_combined_absolute)
  also have "\<dots> = p" using p by (simp add: resolve_def resolve_valid_id)
  finally show ?thesis .
qed

subsection \<open>Joining a path to the current directory\<close>

lemma path_comps_append:
  assumes "a = [] \<or> last a = SLASH \<or> b = [] \<or> hd b = SLASH"
  shows "path_comps (a @ b) = path_comps a @ path_comps b"
  using assms
proof (induction a rule: path_induct)
  case (slashes s)
  then have "dropWhile (\<lambda>c. c = SLASH) (s @ b) = dropWhile (\<lambda>c. c = SLASH) b"
    by (auto simp: dropWhile_append2)
  with slashes show ?case
    by (simp add: path_comps.simps [of s] path_comps.simps [of "s @ b"] path_comps.simps [of b])
next
  case (step s c r)
  have d: "dropWhile (\<lambda>c. c = SLASH) (s @ b) = c @ (r @ b)"
  proof -
    have "\<not> (\<forall>x\<in>set s. x = SLASH)" using step(1,2) dropWhile_eq_Nil_conv [of "\<lambda>c. c = SLASH" s] by auto
    then show ?thesis using step(1) by (auto simp: dropWhile_append1)
  qed
  have l: "last s = last (c @ r)"
    using step(1,2) by (metis append_is_Nil_conv last_appendR takeWhile_dropWhile_id)
  have rb: "r @ b = [] \<or> hd (r @ b) = SLASH" and r: "r = [] \<or> last r = SLASH \<or> b = [] \<or> hd b = SLASH"
    using step(1-4,8) l by (auto simp: last_append dest: last_in_set split: if_splits)
  have "path_comps (s @ b) = path_comps (c @ (r @ b))"
    using d step(2) by (subst (1 2) path_comps.simps) (cases c; use step(3) in auto)
  also have "\<dots> = c # path_comps (r @ b)" using step(2,3) rb by (rule path_comps_comp)
  also have "path_comps (r @ b) = path_comps r @ path_comps b" using r by (rule step.IH)
  finally show ?case using step(1,2,5,6) by (simp add: path_comps.simps [of s])
qed

definition cwd_ok :: "bytes \<Rightarrow> bool" where
  "cwd_ok cwd \<longleftrightarrow> cstr cwd \<noteq> [] \<and> hd (cstr cwd) = SLASH \<and> length (cstr cwd) \<le> 255"

lemma combined_relative:
  assumes "cwd_ok cwd" "is_cstring name" "chr_at name 0 \<noteq> SLASH" "length (cstr cwd) + length name \<le> 254"
  shows "hd (abs_combined cwd name) = SLASH" "length (abs_combined cwd name) \<le> 255"
    "path_comps (abs_combined cwd name) = path_comps (cstr cwd) @ path_comps name"
proof -
  let ?c = "cstr cwd" and ?d = "if length (cstr cwd) > 1 \<and> last (cstr cwd) \<noteq> SLASH then [SLASH] else []"
  from assms have c: "abs_combined cwd name = ?c @ ?d @ name" and ne: "?c \<noteq> []"
    by (auto simp: abs_combined_def cwd_ok_def Let_def)
  then show "hd (abs_combined cwd name) = SLASH" "length (abs_combined cwd name) \<le> 255"
    using assms by (auto simp: cwd_ok_def)
  have "last ?c = SLASH \<or> ?d = [SLASH]"
    using assms(1) by (cases ?c rule: rev_cases) (auto simp: cwd_ok_def)
  then have "path_comps (?c @ (?d @ name)) = path_comps ?c @ path_comps (?d @ name)"
    by (intro path_comps_append) auto
  then show "path_comps (abs_combined cwd name) = path_comps ?c @ path_comps name"
    unfolding c by simp
qed

subsection \<open>Properties\<close>

text \<open>C36. Functional correctness of path canonicalisation: for a NUL-free path that fits the
  fixed-size buffers, \<open>abs_path\<close> computes the textbook resolution of its components. A relative
  path is resolved against the current directory, empty and \<^verbatim>\<open>.\<close> components disappear, \<^verbatim>\<open>..\<close> removes
  the component before it and never climbs above the root, and the result is canonical (no empty,
  \<^verbatim>\<open>.\<close> or \<^verbatim>\<open>..\<close> component, no trailing slash).\<close>

theorem abs_path_resolves:
  assumes "cwd_ok cwd" "is_cstring name" "length (cstr cwd) + length name \<le> 254"
    and "length (path_comps (cstr cwd)) + length (path_comps name) \<le> 64"
  shows "abs_path cwd name =
      render (resolve (if chr_at name 0 = SLASH then path_comps name
                       else path_comps (cstr cwd) @ path_comps name))
    \<and> canonical (abs_path cwd name)"
proof -
  let ?cs = "if chr_at name 0 = SLASH then path_comps name else path_comps (cstr cwd) @ path_comps name"
  have eq: "abs_path cwd name = render (resolve ?cs)"
  proof (cases "chr_at name 0 = SLASH")
    case True
    then have "hd name = SLASH" "name \<noteq> []" by (cases name; simp)+
    with True assms show ?thesis
      by (subst abs_walk_abs_path [OF refl]) (auto simp: abs_combined_absolute)
  next
    case False
    with combined_relative [OF assms(1,2) False assms(3)] assms(4) show ?thesis
      by (subst abs_walk_abs_path [OF refl]) (auto simp: is_cstring_combined)
  qed
  have "\<forall>c\<in>set ?cs. c \<noteq> [] \<and> SLASH \<notin> set c" using path_comps_set by (auto split: if_splits)
  then have "\<forall>c\<in>set (resolve ?cs). valid_comp c"
    unfolding resolve_def by (intro resolve_valid) auto
  then show ?thesis using eq canonical_render by auto
qed

theorem abs_path_resolves_witness:
  "abs_path (''/home/tanja'' @ [NUL]) ''.././/bin/x'' = ''/home/bin/x'' \<and> canonical ''/home/bin/x''"
proof -
  have c: "path_comps ''home/tanja'' = [''home'', ''tanja'']"
    "path_comps ''.././/bin/x'' = [''..'', ''.'', ''bin'', ''x'']"
    by (simp_all add: path_comps.simps)
  have r: "render (resolve [''home'', ''tanja'', ''..'', ''.'', ''bin'', ''x'']) = ''/home/bin/x''"
    by (simp add: resolve_def resolve1_def render_def)
  show ?thesis
    using abs_path_resolves [of "''/home/tanja'' @ [NUL]" "''.././/bin/x''"]
    by (auto simp: cwd_ok_def c r)
qed

text \<open>C37. Whatever path a caller passes, of any length and with any components, the canonical path
  that \<open>abs_path\<close> leaves in the caller's 256-byte buffer is a non-empty NUL-terminated string of at
  most 255 characters that starts with a slash: the buffer is never overrun.\<close>

theorem abs_path_fits_buffer:
  "length (abs_path cwd name) < FS_PATH_CAP \<and> abs_path cwd name \<noteq> []
     \<and> hd (abs_path cwd name) = SLASH \<and> NUL \<notin> set (abs_path cwd name)"
  using abs_path_ok [of cwd name] by (auto simp: FS_PATH_CAP_def)

end
