(* ===== verification/FsPool.thy ===== *)
theory FsPool
  imports Allocator
begin

section \<open>The file-data pool (fs/fs.c)\<close>

text \<open>
  File contents live in a private first-fit pool: a run of blocks, each an eight-byte header
  (payload size, free flag, both 32-bit little-endian) followed by its payload. The model keeps the
  pool as the bytes the code sees: headers are loaded from and stored into the same memory as the
  payload. An address is an offset from \<^verbatim>\<open>fpool_base\<close>.

  The abstract view is the list of blocks that the headers describe (\<open>pool_rep\<close>), on which
  allocation is first fit with splitting and freeing marks a block and merges neighbours
  (\<open>a_alloc\<close>, \<open>a_coalesce\<close>). The lemmas show that the byte-level code refines that view and never
  touches the payload of a live block; the interface \<open>block_allocator\<close> states what a client may
  rely on, and is interpreted on the model at the end of the theory.
\<close>

record fpool =
  fpool_base :: bool         \<comment> \<open>the pool memory has been handed over (the pointer is not NULL)\<close>
  fpool_bytes :: "32 word"
  fpool_mem :: mem

definition FS_DATA_POOL_SIZE :: nat where
  "FS_DATA_POOL_SIZE = 48 * 1024 * 1024"

abbreviation pool_size :: "fpool \<Rightarrow> nat" where
  "pool_size P \<equiv> unat (fpool_bytes P)"

definition fs_set_pool :: "bool \<Rightarrow> nat \<Rightarrow> fpool \<Rightarrow> fpool" where
  "fs_set_pool base bytes P =
     (let bytes = (if bytes > FS_DATA_POOL_SIZE then FS_DATA_POOL_SIZE else bytes)
      in P\<lparr>fpool_base := base, fpool_bytes := of_nat (align_down 16 bytes)\<rparr>)"

subsection \<open>The code\<close>

definition fpool_init :: "fpool \<Rightarrow> fpool" where
  "fpool_init P =
     (if \<not> fpool_base P \<or> pool_size P \<le> 8 then P
      else P\<lparr>fpool_mem := st32 (st32 (fpool_mem P) 0 (pool_size P - 8)) 4 1\<rparr>)"

lemma unat_u32_less: "unat (w :: 32 word) < 4294967296"
  using unsigned_less [of w] by simp

function coalesce_from :: "32 word \<Rightarrow> mem \<Rightarrow> nat \<Rightarrow> mem" where
  "coalesce_from tot m off =
     (if off + 8 \<le> unat tot then
        let size = ld32 m off in
        if size > unat tot - off - 8 then m
        else
          let next_off = off + 8 + size in
          if ld32 m (off + 4) \<noteq> 0 \<and> next_off + 8 \<le> unat tot
             \<and> ld32 m next_off \<le> unat tot - next_off - 8 \<and> ld32 m (next_off + 4) \<noteq> 0
          then coalesce_from tot (st32 m off (size + (8 + ld32 m next_off))) off
          else if next_off \<ge> unat tot then m
          else coalesce_from tot m next_off
      else m)"
  by pat_completeness auto
termination
proof (relation "measures [\<lambda>(tot, m, off). unat tot - off, \<lambda>(tot, m, off). unat tot - ld32 m off]",
    goal_cases)
  case 1
  show ?case by simp
next
  case (2 tot m off size next_off)
  then have "size + (8 + ld32 m next_off) < unat tot" by linarith
  moreover from this have "ld32 (st32 m off (size + (8 + ld32 m next_off))) off = size + (8 + ld32 m next_off)"
    using unat_u32_less [of tot] by simp
  ultimately show ?case using 2 by simp
next
  case (3 tot m off size next_off)
  then show ?case by auto
qed

declare coalesce_from.simps [simp del]

definition fpool_coalesce :: "fpool \<Rightarrow> fpool" where
  "fpool_coalesce P = P\<lparr>fpool_mem := coalesce_from (fpool_bytes P) (fpool_mem P) 0\<rparr>"

function alloc_from :: "32 word \<Rightarrow> nat \<Rightarrow> mem \<Rightarrow> nat \<Rightarrow> nat option \<times> mem" where
  "alloc_from tot bytes m off =
     (if off + 8 \<le> unat tot then
        let size = ld32 m off in
        if size > unat tot - off - 8 then (None, m)
        else if ld32 m (off + 4) \<noteq> 0 \<and> size \<ge> bytes then
          let extra = size - bytes;
              m = (if extra \<ge> 8 + 16 then
                     let next_off = off + 8 + bytes
                     in st32 (st32 (st32 m next_off (extra - 8)) (next_off + 4) 1) off bytes
                   else m)
          in (Some (off + 8), st32 m (off + 4) 0)
        else if off + 8 + size \<ge> unat tot then (None, m)
        else alloc_from tot bytes m (off + (8 + size))
      else (None, m))"
  by pat_completeness auto
termination
  by (relation "measure (\<lambda>(tot, bytes, m, off). unat tot - off)") auto

declare alloc_from.simps [simp del]

definition fpool_alloc :: "nat \<Rightarrow> fpool \<Rightarrow> nat option \<times> fpool" where
  "fpool_alloc bytes P =
     (if bytes = 0 \<or> \<not> fpool_base P then (None, P)
      else case alloc_from (fpool_bytes P) (align_down 4 (u32 (bytes + 3))) (fpool_mem P) 0 of
        (p, m) \<Rightarrow> (p, P\<lparr>fpool_mem := m\<rparr>))"

definition fpool_free :: "nat option \<Rightarrow> fpool \<Rightarrow> fpool" where
  "fpool_free ptr P =
     (case ptr of
        None \<Rightarrow> P
      | Some p \<Rightarrow>
          if p < 8 \<or> p \<ge> pool_size P then P
          else fpool_coalesce (P\<lparr>fpool_mem := st32 (fpool_mem P) (p - 8 + 4) 1\<rparr>))"

text \<open>Stores of the payload by the filesystem: one byte, and a run of bytes.\<close>

definition pool_put :: "nat \<Rightarrow> byte \<Rightarrow> fpool \<Rightarrow> fpool" where
  "pool_put p c P = P\<lparr>fpool_mem := (fpool_mem P)(p := c)\<rparr>"

definition pool_write :: "nat \<Rightarrow> bytes \<Rightarrow> fpool \<Rightarrow> fpool" where
  "pool_write p cs P = put_run pool_put p cs P"

definition pool_read :: "nat \<Rightarrow> nat \<Rightarrow> fpool \<Rightarrow> bytes" where
  "pool_read p n P = run_of (fpool_mem P) p n"

subsection \<open>The abstract view: a list of blocks\<close>

type_synonym blocks = "(nat \<times> bool) list"   \<comment> \<open>payload size, free\<close>

fun pool_rep :: "mem \<Rightarrow> nat \<Rightarrow> blocks \<Rightarrow> nat \<Rightarrow> bool" where
  "pool_rep m off [] end_off \<longleftrightarrow> off = end_off"
| "pool_rep m off ((sz, fr) # bl) end_off \<longleftrightarrow>
     ld32 m off = sz \<and> ld32 m (off + 4) = (if fr then 1 else 0) \<and> pool_rep m (off + (8 + sz)) bl end_off"

fun a_alloc :: "nat \<Rightarrow> blocks \<Rightarrow> nat \<Rightarrow> nat option \<times> blocks" where
  "a_alloc n [] off = (None, [])"
| "a_alloc n ((sz, fr) # bl) off =
     (if fr \<and> sz \<ge> n
      then (Some (off + 8),
            if sz - n \<ge> 24 then (n, False) # (sz - n - 8, True) # bl else (sz, False) # bl)
      else case a_alloc n bl (off + (8 + sz)) of (r, bl') \<Rightarrow> (r, (sz, fr) # bl'))"

fun a_release :: "nat \<Rightarrow> blocks \<Rightarrow> nat \<Rightarrow> blocks" where
  "a_release p [] off = []"
| "a_release p ((sz, fr) # bl) off =
     (if p = off + 8 then (sz, True) # bl else (sz, fr) # a_release p bl (off + (8 + sz)))"

fun a_coalesce :: "blocks \<Rightarrow> blocks" where
  "a_coalesce [] = []"
| "a_coalesce [b] = [b]"
| "a_coalesce (b1 # b2 # bl) =
     (if snd b1 \<and> snd b2 then a_coalesce ((fst b1 + (8 + fst b2), True) # bl)
      else b1 # a_coalesce (b2 # bl))"

text \<open>The live blocks: payload address and size.\<close>

fun live_blocks :: "nat \<Rightarrow> blocks \<Rightarrow> (nat \<times> nat) list" where
  "live_blocks off [] = []"
| "live_blocks off ((sz, fr) # bl) =
     (if fr then live_blocks (off + (8 + sz)) bl
      else (off + 8, sz) # live_blocks (off + (8 + sz)) bl)"

text \<open>The block list read off the memory, and the pool's invariant: the headers tile the pool.\<close>

function blocks_from :: "nat \<Rightarrow> mem \<Rightarrow> nat \<Rightarrow> blocks" where
  "blocks_from tot m off =
     (if off + 8 \<le> tot
      then (ld32 m off, ld32 m (off + 4) \<noteq> 0) # blocks_from tot m (off + (8 + ld32 m off))
      else [])"
  by pat_completeness auto
termination
  by (relation "measure (\<lambda>(tot, m, off). tot - off)") auto

declare blocks_from.simps [simp del]

definition pool_blocks :: "fpool \<Rightarrow> blocks" where
  "pool_blocks P = blocks_from (pool_size P) (fpool_mem P) 0"

definition sizes_pos :: "blocks \<Rightarrow> bool" where
  "sizes_pos bl \<longleftrightarrow> (\<forall>b\<in>set bl. 0 < fst b)"

definition pool_ok :: "fpool \<Rightarrow> bool" where
  "pool_ok P \<longleftrightarrow> fpool_base P \<and> pool_rep (fpool_mem P) 0 (pool_blocks P) (pool_size P)
     \<and> sizes_pos (pool_blocks P)"

definition pool_live :: "fpool \<Rightarrow> nat \<rightharpoonup> nat" where
  "pool_live P = map_of (live_blocks 0 (pool_blocks P))"

subsection \<open>Representation\<close>

lemma pool_rep_le: "pool_rep m off bl e \<Longrightarrow> off \<le> e"
proof (induction bl arbitrary: off)
  case (Cons b bl)
  then show ?case by (cases b) fastforce
qed simp

lemma pool_rep_end: "pool_rep m e bl e \<Longrightarrow> bl = []"
  using pool_rep_le [of m _ "tl bl" e] by (cases bl) fastforce+

lemma pool_rep_cong:
  "pool_rep m off bl e \<Longrightarrow> (\<And>i. off \<le> i \<Longrightarrow> i < e \<Longrightarrow> m' i = m i) \<Longrightarrow> pool_rep m' off bl e"
proof (induction bl arbitrary: off)
  case (Cons b bl)
  obtain sz fr where b: "b = (sz, fr)" by (cases b)
  with Cons.prems(1) have r: "pool_rep m (off + (8 + sz)) bl e" by simp
  then have "off + (8 + sz) \<le> e" by (rule pool_rep_le)
  then have "ld32 m' off = ld32 m off" "ld32 m' (off + 4) = ld32 m (off + 4)"
    by (auto intro!: ld32_cong Cons.prems(2))
  moreover have "pool_rep m' (off + (8 + sz)) bl e"
    using Cons.IH [OF r] Cons.prems(2) by simp
  ultimately show ?case using Cons.prems(1) b by simp
qed simp

lemma blocks_from_rep: "pool_rep m off bl e \<Longrightarrow> blocks_from e m off = bl"
proof (induction bl arbitrary: off)
  case Nil
  then show ?case by (simp add: blocks_from.simps)
next
  case (Cons b bl)
  obtain sz fr where b: "b = (sz, fr)" by (cases b)
  with Cons.prems have "off + (8 + sz) \<le> e" by (auto dest: pool_rep_le)
  with Cons b show ?case by (subst blocks_from.simps) auto
qed

lemma pool_blocks_eq: "pool_rep (fpool_mem P) 0 bl (pool_size P) \<Longrightarrow> pool_blocks P = bl"
  unfolding pool_blocks_def by (rule blocks_from_rep)

subsection \<open>Allocation refines first fit\<close>

text \<open>An address that lies in the payload of a live block.\<close>

definition in_live :: "nat \<Rightarrow> blocks \<Rightarrow> nat \<Rightarrow> bool" where
  "in_live off bl i \<longleftrightarrow> (\<exists>(p, n)\<in>set (live_blocks off bl). p \<le> i \<and> i < p + n)"

lemma in_live_Cons:
  "in_live off ((sz, fr) # bl) i \<longleftrightarrow>
     \<not> fr \<and> off + 8 \<le> i \<and> i < off + (8 + sz) \<or> in_live (off + (8 + sz)) bl i"
  by (auto simp: in_live_def)

lemma live_blocks_ge: "(p, n) \<in> set (live_blocks off bl) \<Longrightarrow> off + 8 \<le> p"
proof (induction bl arbitrary: off)
  case (Cons b bl)
  then show ?case by (cases b) (auto split: if_splits dest!: Cons.IH)
qed simp

lemma in_live_ge: "in_live off bl i \<Longrightarrow> off + 8 \<le> i"
  unfolding in_live_def using live_blocks_ge by fastforce

lemma alloc_step_rep:
  assumes "pool_rep m off ((sz, True) # bl) e" "e < 4294967296" "n \<le> sz"
    and m1: "m1 = (if sz - n \<ge> 24
      then st32 (st32 (st32 m (off + 8 + n) (sz - n - 8)) (off + 8 + n + 4) 1) off n else m)"
    and bl1: "bl1 = (if sz - n \<ge> 24 then (n, False) # (sz - n - 8, True) # bl else (sz, False) # bl)"
  shows "pool_rep (st32 m1 (off + 4) 0) off bl1 e"
    and "\<And>i. i < off \<or> off + (8 + sz) \<le> i \<Longrightarrow> st32 m1 (off + 4) 0 i = m i"
proof -
  from assms(1) have sz: "ld32 m off = sz" and r: "pool_rep m (off + (8 + sz)) bl e" by auto
  then have le: "off + (8 + sz) \<le> e" by (auto dest: pool_rep_le)
  show fr: "st32 m1 (off + 4) 0 i = m i" if "i < off \<or> off + (8 + sz) \<le> i" for i
    using that by (auto simp: m1 st32_def)
  then have "pool_rep (st32 m1 (off + 4) 0) (off + (8 + sz)) bl e"
    using r by (auto intro: pool_rep_cong)
  then show "pool_rep (st32 m1 (off + 4) 0) off bl1 e"
    using assms(2,3) le sz by (auto simp: m1 bl1 mem_simps add.assoc)
qed

lemma alloc_from_refines:
  assumes "pool_rep m off bl (unat tot)" "alloc_from tot n m off = (r, m')" "a_alloc n bl off = (r', bl')"
  shows "r = r' \<and> pool_rep m' off bl' (unat tot)
    \<and> (\<forall>i. i < off \<or> in_live off bl i \<longrightarrow> m' i = m i)"
  using assms
proof (induction bl arbitrary: off r bl' r' m')
  case Nil
  then have "alloc_from tot n m off = (None, m)" by (subst alloc_from.simps) simp
  with Nil show ?case by auto
next
  case (Cons b bl)
  obtain sz fr where b: "b = (sz, fr)" by (cases b)
  from Cons.prems b have sz: "ld32 m off = sz" and fr: "ld32 m (off + 4) \<noteq> 0 \<longleftrightarrow> fr"
    and r: "pool_rep m (off + (8 + sz)) bl (unat tot)" by (auto split: if_splits)
  then have le: "off + (8 + sz) \<le> unat tot" by (auto dest: pool_rep_le)
  show ?case
  proof (cases "fr \<and> n \<le> sz")
    case True
    define m1 where "m1 = (if sz - n \<ge> 24
      then st32 (st32 (st32 m (off + 8 + n) (sz - n - 8)) (off + 8 + n + 4) 1) off n else m)"
    have "alloc_from tot n m off = (Some (off + 8), st32 m1 (off + 4) 0)"
      using True sz fr le by (subst alloc_from.simps) (simp add: m1_def Let_def)
    moreover have "pool_rep m off ((sz, True) # bl) (unat tot)" using Cons.prems(1) b True by simp
    note alloc_step_rep [OF this unat_u32_less _ m1_def refl]
    ultimately show ?thesis
      using Cons.prems True b le in_live_ge by (fastforce simp: in_live_Cons)
  next
    case False
    obtain r1 bl1 where a: "a_alloc n bl (off + (8 + sz)) = (r1, bl1)" by fastforce
    with Cons.prems b False have ab: "r' = r1" "bl' = (sz, fr) # bl1" by (auto split: if_splits)
    have f: "alloc_from tot n m off =
        (if unat tot \<le> off + (8 + sz) then (None, m) else alloc_from tot n m (off + (8 + sz)))"
    proof -
      have g: "\<not> unat tot - off - 8 < sz" "\<not> (ld32 m (off + 4) \<noteq> 0 \<and> n \<le> sz)" "off + 8 \<le> unat tot"
        using False fr le by auto
      show ?thesis by (subst alloc_from.simps) (simp only: sz g Let_def if_True if_False add.assoc)
    qed
    show ?thesis
    proof (cases "unat tot \<le> off + (8 + sz)")
      case True
      with le r have "bl = []" by (intro pool_rep_end [of m "unat tot"]) auto
      with True f Cons.prems b a ab show ?thesis by auto
    next
      case nend: False
      with f Cons.prems(2) have "alloc_from tot n m (off + (8 + sz)) = (r, m')" by simp
      from Cons.IH [OF r this a]
      have ih: "r = r1" "pool_rep m' (off + (8 + sz)) bl1 (unat tot)"
        "\<And>i. i < off + (8 + sz) \<or> in_live (off + (8 + sz)) bl i \<Longrightarrow> m' i = m i" by auto
      have "ld32 m' off = ld32 m off" "ld32 m' (off + 4) = ld32 m (off + 4)"
        by (auto intro!: ld32_cong ih(3))
      with ih ab Cons.prems(1) b show ?thesis by (auto simp: in_live_Cons)
    qed
  qed
qed

subsection \<open>Coalescing\<close>

lemma coalesce_step:
  assumes "pool_rep m off ((s1, True) # (s2, True) # bl) e" "e < 4294967296"
  shows "pool_rep (st32 m off (s1 + (8 + s2))) off ((s1 + (8 + s2), True) # bl) e"
proof -
  from assms(1) have r: "pool_rep m (off + (8 + s1) + (8 + s2)) bl e" by simp
  then have "off + (8 + s1) + (8 + s2) \<le> e" by (rule pool_rep_le)
  moreover from r have "pool_rep (st32 m off (s1 + (8 + s2))) (off + (8 + s1) + (8 + s2)) bl e"
    by (rule pool_rep_cong) (auto simp: mem_simps)
  ultimately show ?thesis using assms by (auto simp: mem_simps add.assoc)
qed

lemma coalesce_from_refines:
  assumes "pool_rep m off bl (unat tot)"
  shows "pool_rep (coalesce_from tot m off) off (a_coalesce bl) (unat tot)
    \<and> (\<forall>i. i < off \<or> in_live off bl i \<longrightarrow> coalesce_from tot m off i = m i)"
  using assms
proof (induction bl arbitrary: off m rule: a_coalesce.induct)
  case 1
  then show ?case by (simp add: coalesce_from.simps)
next
  case (2 b)
  then have "coalesce_from tot m off = m"
    by (subst coalesce_from.simps) (cases b; auto simp: Let_def)
  with 2 show ?case by simp
next
  case (3 b1 b2 bl)
  obtain s1 f1 s2 f2 where b: "b1 = (s1, f1)" "b2 = (s2, f2)" by (cases b1; cases b2)
  have r: "pool_rep m (off + (8 + s1)) (b2 # bl) (unat tot)" using 3(3) b by simp
  have le: "off + (8 + s1) + (8 + s2) \<le> unat tot" using 3(3) b by (auto dest: pool_rep_le)
  let ?m = "st32 m off (s1 + (8 + s2))"
  show ?case
  proof (cases "f1 \<and> f2")
    case True
    have c: "coalesce_from tot m off = coalesce_from tot ?m off"
      using 3(3) b True le by (subst coalesce_from.simps) (auto simp: Let_def add.assoc)
    have "pool_rep ?m off ((s1 + (8 + s2), True) # bl) (unat tot)"
      using 3(3) b True unat_u32_less by (intro coalesce_step) auto
    with 3(1) True b show ?thesis
      unfolding c by (fastforce simp: in_live_Cons mem_simps add.assoc dest: in_live_ge)
  next
    case False
    have c: "coalesce_from tot m off = coalesce_from tot m (off + (8 + s1))"
      using 3(3) b False le by (subst coalesce_from.simps) (auto simp: Let_def add.assoc)
    let ?c = "coalesce_from tot m (off + (8 + s1))"
    from 3(2) [OF _ r] False b
    have ih: "pool_rep ?c (off + (8 + s1)) (a_coalesce (b2 # bl)) (unat tot)"
      "\<And>i. i < off + (8 + s1) \<or> in_live (off + (8 + s1)) (b2 # bl) i \<Longrightarrow> ?c i = m i" by auto
    have "ld32 ?c off = ld32 m off" "ld32 ?c (off + 4) = ld32 m (off + 4)"
      by (auto intro!: ld32_cong ih(2))
    with ih 3(3) b False show ?thesis
      unfolding c by (auto simp: in_live_Cons)
  qed
qed

subsection \<open>Live blocks under the abstract operations\<close>

lemma live_map_ge: "map_of (live_blocks off bl) p = Some n \<Longrightarrow> off + 8 \<le> p"
  by (meson live_blocks_ge map_of_SomeD)

lemma live_map_less: "p < off + 8 \<Longrightarrow> map_of (live_blocks off bl) p = None"
  using live_map_ge by (metis not_le option.exhaust)

lemma live_distinct: "distinct (map fst (live_blocks off bl))"
proof (induction bl arbitrary: off)
  case (Cons b bl)
  then show ?case by (cases b) (fastforce dest: live_blocks_ge)
qed simp

lemma in_live_iff:
  "in_live off bl i \<longleftrightarrow> (\<exists>p n. map_of (live_blocks off bl) p = Some n \<and> p \<le> i \<and> i < p + n)"
  unfolding in_live_def using live_distinct [of off bl] by (fastforce dest: map_of_SomeD)

lemma live_disjoint:
  "map_of (live_blocks off bl) p = Some n \<Longrightarrow> map_of (live_blocks off bl) q = Some k \<Longrightarrow> p < q
   \<Longrightarrow> p + n \<le> q"
proof (induction bl arbitrary: off)
  case (Cons b bl)
  then show ?case by (cases b) (fastforce split: if_splits dest: live_map_ge)
qed simp

lemma live_in_range:
  "pool_rep m off bl e \<Longrightarrow> map_of (live_blocks off bl) p = Some n \<Longrightarrow> p + n \<le> e"
proof (induction bl arbitrary: off)
  case (Cons b bl)
  then show ?case by (cases b) (fastforce split: if_splits dest: pool_rep_le)
qed simp

lemma live_pos: "sizes_pos bl \<Longrightarrow> map_of (live_blocks off bl) p = Some n \<Longrightarrow> 0 < n"
proof (induction bl arbitrary: off)
  case (Cons b bl)
  then show ?case by (cases b) (fastforce simp: sizes_pos_def split: if_splits)
qed simp

lemma a_alloc_live:
  "a_alloc n bl off = (Some p, bl') \<Longrightarrow>
   map_of (live_blocks off bl) p = None \<and> off + 8 \<le> p \<and>
   (\<exists>k\<ge>n. map_of (live_blocks off bl') = (map_of (live_blocks off bl))(p \<mapsto> k))"
proof (induction bl arbitrary: off bl')
  case (Cons b bl)
  obtain sz fr where b: "b = (sz, fr)" by (cases b)
  show ?case
  proof (cases "fr \<and> n \<le> sz")
    case True
    let ?k = "if sz - n \<ge> 24 then n else sz"
    have "map_of (live_blocks off bl') = (map_of (live_blocks off (b # bl)))(p \<mapsto> ?k)" "n \<le> ?k"
      using Cons.prems b True by (auto simp: add.assoc)
    with Cons.prems b True show ?thesis by (auto simp: live_map_less)
  next
    case False
    then obtain bl1 where "a_alloc n bl (off + (8 + sz)) = (Some p, bl1)" "bl' = (sz, fr) # bl1"
      using Cons.prems b by (auto split: if_splits prod.splits)
    with Cons.IH [of "off + (8 + sz)" bl1] obtain k where
      "map_of (live_blocks (off + (8 + sz)) bl1) = (map_of (live_blocks (off + (8 + sz)) bl))(p \<mapsto> k)"
      "map_of (live_blocks (off + (8 + sz)) bl) p = None" "off + (8 + sz) + 8 \<le> p" "n \<le> k" by blast
    with b \<open>bl' = (sz, fr) # bl1\<close> show ?thesis
      by (cases fr) (auto simp: fun_upd_twist intro!: exI [of _ k])
  qed
qed simp

lemma a_alloc_None: "a_alloc n bl off = (None, bl') \<Longrightarrow> bl' = bl \<and> (\<forall>(sz, fr)\<in>set bl. fr \<longrightarrow> sz < n)"
proof (induction bl arbitrary: off bl')
  case (Cons b bl)
  then show ?case by (cases b) (fastforce split: if_splits prod.splits)
qed simp

lemma a_alloc_pos: "0 < n \<Longrightarrow> sizes_pos bl \<Longrightarrow> a_alloc n bl off = (r, bl') \<Longrightarrow> sizes_pos bl'"
proof (induction bl arbitrary: off bl' r)
  case (Cons b bl)
  obtain sz fr where b: "b = (sz, fr)" by (cases b)
  obtain r1 bl1 where a: "a_alloc n bl (off + (8 + sz)) = (r1, bl1)" by fastforce
  have "sizes_pos bl" using Cons.prems(2) by (simp add: sizes_pos_def)
  with Cons.IH [OF Cons.prems(1) _ a] have "sizes_pos bl1" .
  with \<open>sizes_pos bl\<close> Cons.prems a b show ?case
    by (fastforce simp: sizes_pos_def split: if_splits)
qed simp

lemma live_release:
  "map_of (live_blocks off bl) p = Some n \<Longrightarrow>
   map_of (live_blocks off (a_release p bl off)) = (map_of (live_blocks off bl))(p := None)"
proof (induction bl arbitrary: off)
  case (Cons b bl)
  obtain sz fr where b: "b = (sz, fr)" by (cases b)
  show ?case
  proof (cases "p = off + 8")
    case True
    have "map_of (live_blocks (off + (8 + sz)) bl) p = None" using True by (intro live_map_less) simp
    with True Cons.prems b show ?thesis by (auto split: if_splits)
  next
    case False
    with Cons b show ?thesis by (auto split: if_splits simp: fun_upd_twist)
  qed
qed simp

lemma live_coalesce: "live_blocks off (a_coalesce bl) = live_blocks off bl"
  by (induction bl arbitrary: off rule: a_coalesce.induct) (auto split: prod.splits simp: add.assoc)

lemma sizes_pos_coalesce: "sizes_pos bl \<Longrightarrow> sizes_pos (a_coalesce bl)"
  by (induction bl rule: a_coalesce.induct) (auto simp: sizes_pos_def)

lemma sizes_pos_release: "sizes_pos bl \<Longrightarrow> sizes_pos (a_release p bl off)"
proof (induction bl arbitrary: off)
  case (Cons b bl)
  then show ?case by (cases b) (auto simp: sizes_pos_def)
qed simp

text \<open>After coalescing no two neighbouring blocks are free.\<close>

fun coalesced :: "blocks \<Rightarrow> bool" where
  "coalesced (b1 # b2 # bl) \<longleftrightarrow> \<not> (snd b1 \<and> snd b2) \<and> coalesced (b2 # bl)"
| "coalesced _ \<longleftrightarrow> True"

lemma hd_coalesce: "bl \<noteq> [] \<Longrightarrow> a_coalesce bl \<noteq> [] \<and> (snd (hd (a_coalesce bl)) \<longleftrightarrow> snd (hd bl))"
  by (induction bl rule: a_coalesce.induct) auto

lemma coalesced_coalesce: "coalesced (a_coalesce bl)"
proof (induction bl rule: a_coalesce.induct)
  case (3 b1 b2 bl)
  then show ?case
    using hd_coalesce [of "b2 # bl"] by (cases "a_coalesce (b2 # bl)") auto
qed auto

subsection \<open>Releasing and writing on the bytes\<close>

lemma release_rep:
  assumes "pool_rep m off bl e" "map_of (live_blocks off bl) p = Some n"
  shows "pool_rep (st32 m (p - 4) 1) off (a_release p bl off) e
    \<and> (\<forall>i. in_live off bl i \<longrightarrow> st32 m (p - 4) 1 i = m i)"
  using assms
proof (induction bl arbitrary: off)
  case (Cons b bl)
  obtain sz fr where b: "b = (sz, fr)" by (cases b)
  with Cons.prems have r: "pool_rep m (off + (8 + sz)) bl e" by simp
  show ?case
  proof (cases "p = off + 8")
    case True
    have "pool_rep (st32 m (p - 4) 1) (off + (8 + sz)) bl e"
      using r by (rule pool_rep_cong) (use True in \<open>auto simp: mem_simps\<close>)
    moreover have "st32 m (p - 4) 1 i = m i" if "off + 8 \<le> i" for i
      using that True by (intro st32_outside) auto
    moreover have "p - 4 = off + 4" using True by simp
    then have "ld32 (st32 m (p - 4) 1) (off + 4) = 1" "ld32 (st32 m (p - 4) 1) off = ld32 m off"
      by (simp_all add: mem_simps)
    then have "pool_rep (st32 m (p - 4) 1) off ((sz, True) # bl) e"
      using Cons.prems b calculation(1) by simp
    ultimately show ?thesis
      using b True by (auto dest: in_live_ge)
  next
    case False
    with Cons.prems b have l: "map_of (live_blocks (off + (8 + sz)) bl) p = Some n"
      by (auto split: if_splits)
    then have p: "off + (8 + sz) + 8 \<le> p" by (rule live_map_ge)
    have "st32 m (p - 4) 1 i = m i" if "i < off + (8 + sz)" for i
      using that p by (intro st32_outside) auto
    with Cons.IH [OF r l] Cons.prems b False p show ?thesis
      by (auto simp: in_live_Cons mem_simps)
  qed
qed simp

lemma write_rep:
  "pool_rep m off bl e \<Longrightarrow> in_live off bl i \<Longrightarrow> (\<And>j. j \<noteq> i \<Longrightarrow> m' j = m j) \<Longrightarrow> pool_rep m' off bl e"
proof (induction bl arbitrary: off)
  case (Cons b bl)
  obtain sz fr where b: "b = (sz, fr)" by (cases b)
  with Cons.prems have r: "pool_rep m (off + (8 + sz)) bl e" by simp
  have i: "off + 8 \<le> i" using Cons.prems(2) by (rule in_live_ge)
  then have h: "ld32 m' off = ld32 m off" "ld32 m' (off + 4) = ld32 m (off + 4)"
    by (auto intro!: ld32_cong Cons.prems(3))
  have "pool_rep m' (off + (8 + sz)) bl e"
  proof (cases "in_live (off + (8 + sz)) bl i")
    case True
    with Cons.IH r Cons.prems(3) show ?thesis by blast
  next
    case False
    with Cons.prems(2) b have "i < off + (8 + sz)" by (auto simp: in_live_Cons)
    with r Cons.prems(3) show ?thesis by (auto intro: pool_rep_cong)
  qed
  with Cons.prems(1) b h show ?case by simp
qed (simp add: in_live_def)

lemma put_rep: "pool_rep m off bl e \<Longrightarrow> in_live off bl i \<Longrightarrow> pool_rep (m(i := c)) off bl e"
  using write_rep [of m off bl e i "m(i := c)"] by simp

lemma alloc_from_None: "alloc_from tot n m off = (None, m') \<Longrightarrow> m' = m"
proof (induction tot n m off rule: alloc_from.induct)
  case (1 tot n m off)
  from 1(2) show ?case
    by (subst (asm) alloc_from.simps) (auto simp: Let_def intro: 1(1) split: if_splits)
qed

subsection \<open>The laws of the pool\<close>

lemmas pool_defs = pool_ok_def pool_live_def

lemma pool_okI:
  assumes "fpool_base P" "pool_rep (fpool_mem P) 0 bl (pool_size P)" "sizes_pos bl"
  shows "pool_ok P" "pool_live P = map_of (live_blocks 0 bl)" "pool_blocks P = bl"
  using assms pool_blocks_eq [OF assms(2)] by (auto simp: pool_defs)

lemma fpool_alloc_round:
  "n + 3 < 4294967296 \<Longrightarrow> align_down 4 (u32 (n + 3)) = round_up 4 n"
  by (simp add: round_up_def numeral_3_eq_3)

lemma fpool_alloc_None: "fpool_alloc n P = (None, P') \<Longrightarrow> P' = P"
  by (auto simp: fpool_alloc_def split: if_splits prod.splits dest: alloc_from_None)

lemma fpool_alloc_law:
  assumes ok: "pool_ok P" and n: "n + 3 < 4294967296" and a: "fpool_alloc n P = (Some p, P')"
  shows "pool_ok P'" "pool_live P p = None" "\<exists>k\<ge>n. pool_live P' = (pool_live P)(p \<mapsto> k)"
    and "\<And>q k i. pool_live P q = Some k \<Longrightarrow> q \<le> i \<Longrightarrow> i < q + k \<Longrightarrow> fpool_mem P' i = fpool_mem P i"
    and "fpool_bytes P' = fpool_bytes P"
proof -
  let ?n = "round_up 4 n" and ?bl = "pool_blocks P"
  from a obtain m' where m': "alloc_from (fpool_bytes P) ?n (fpool_mem P) 0 = (Some p, m')"
    and P': "P' = P\<lparr>fpool_mem := m'\<rparr>" and n0: "0 < n"
    unfolding fpool_alloc_def fpool_alloc_round [OF n] by (auto split: if_splits prod.splits)
  from ok have rep: "pool_rep (fpool_mem P) 0 ?bl (pool_size P)" and pos: "sizes_pos ?bl" and base: "fpool_base P"
    by (auto simp: pool_ok_def)
  obtain r bl' where al: "a_alloc ?n ?bl 0 = (r, bl')" by fastforce
  from alloc_from_refines [OF rep m' al]
  have r: "r = Some p" and rep': "pool_rep m' 0 bl' (pool_size P)"
    and fr: "\<And>i. in_live 0 ?bl i \<Longrightarrow> m' i = fpool_mem P i" by auto
  have ge: "n \<le> ?n" by (simp add: round_up_ge)
  then have "sizes_pos bl'" using a_alloc_pos [OF _ pos al] n0 by simp
  with rep' base have ok': "pool_ok P'" "pool_live P' = map_of (live_blocks 0 bl')"
    using pool_okI [of P' bl'] P' by auto
  show "pool_ok P'" by (rule ok')
  from a_alloc_live [OF al [unfolded r]] obtain k where "map_of (live_blocks 0 ?bl) p = None" "?n \<le> k"
    "map_of (live_blocks 0 bl') = (map_of (live_blocks 0 ?bl))(p \<mapsto> k)" by blast
  then have "pool_live P p = None" "n \<le> k" "pool_live P' = (pool_live P)(p \<mapsto> k)"
    using ge ok'(2) by (auto simp: pool_live_def)
  then show "pool_live P p = None" and "\<exists>k\<ge>n. pool_live P' = (pool_live P)(p \<mapsto> k)" by blast+
  show "fpool_mem P' i = fpool_mem P i" if "pool_live P q = Some k" "q \<le> i" "i < q + k" for q k i
    using that fr P' by (auto simp: pool_live_def in_live_iff)
  show "fpool_bytes P' = fpool_bytes P" using P' by simp
qed

lemma fpool_free_law:
  assumes ok: "pool_ok P" and live: "pool_live P p = Some n"
  shows "pool_ok (fpool_free (Some p) P)"
    and "pool_live (fpool_free (Some p) P) = (pool_live P)(p := None)"
    and "coalesced (pool_blocks (fpool_free (Some p) P))"
    and "\<And>q k i. q \<noteq> p \<Longrightarrow> pool_live P q = Some k \<Longrightarrow> q \<le> i \<Longrightarrow> i < q + k \<Longrightarrow>
      fpool_mem (fpool_free (Some p) P) i = fpool_mem P i"
    and "fpool_bytes (fpool_free (Some p) P) = fpool_bytes P"
proof -
  let ?bl = "pool_blocks P" and ?m = "fpool_mem P" and ?tot = "fpool_bytes P"
  from ok have rep: "pool_rep ?m 0 ?bl (pool_size P)" and pos: "sizes_pos ?bl" and base: "fpool_base P"
    by (auto simp: pool_ok_def)
  from live have l: "map_of (live_blocks 0 ?bl) p = Some n" by (simp add: pool_live_def)
  have range: "8 \<le> p" "p < pool_size P"
    using live_map_ge [OF l] live_in_range [OF rep l] live_pos [OF pos l] by auto
  let ?m1 = "st32 ?m (p - 4) 1" and ?bl1 = "a_release p ?bl 0"
  from release_rep [OF rep l] have rep1: "pool_rep ?m1 0 ?bl1 (pool_size P)"
    and fr1: "\<And>i. in_live 0 ?bl i \<Longrightarrow> ?m1 i = ?m i" by auto
  let ?m2 = "coalesce_from ?tot ?m1 0"
  from coalesce_from_refines [OF rep1] have rep2: "pool_rep ?m2 0 (a_coalesce ?bl1) (pool_size P)"
    and fr2: "\<And>i. in_live 0 ?bl1 i \<Longrightarrow> ?m2 i = ?m1 i" by auto
  have P': "fpool_free (Some p) P = P\<lparr>fpool_mem := ?m2\<rparr>"
    using range by (simp add: fpool_free_def fpool_coalesce_def)
  note I = pool_okI [of "P\<lparr>fpool_mem := ?m2\<rparr>" "a_coalesce ?bl1"]
  have "sizes_pos (a_coalesce ?bl1)" using pos by (intro sizes_pos_coalesce sizes_pos_release)
  with base rep2 show "pool_ok (fpool_free (Some p) P)"
    and live': "pool_live (fpool_free (Some p) P) = (pool_live P)(p := None)"
    and "coalesced (pool_blocks (fpool_free (Some p) P))"
    using I live_release [OF l] unfolding P' by (auto simp: live_coalesce pool_live_def coalesced_coalesce)
  show "fpool_mem (fpool_free (Some p) P) i = ?m i"
    if "q \<noteq> p" "pool_live P q = Some k" "q \<le> i" "i < q + k" for q k i
  proof -
    have "map_of (live_blocks 0 ?bl1) q = Some k" using that live_release [OF l] by (simp add: pool_live_def)
    with that have "in_live 0 ?bl1 i" "in_live 0 ?bl i" by (auto simp: in_live_iff pool_live_def)
    with fr1 fr2 show ?thesis unfolding P' by simp
  qed
  show "fpool_bytes (fpool_free (Some p) P) = fpool_bytes P" unfolding P' by simp
qed

lemma pool_put_law:
  assumes "pool_ok P" "pool_live P p = Some n" "p \<le> i" "i < p + n"
  shows "pool_ok (pool_put i c P)" "pool_live (pool_put i c P) = pool_live P"
proof -
  have "in_live 0 (pool_blocks P) i" using assms by (auto simp: in_live_iff pool_live_def)
  then have "pool_rep (fpool_mem (pool_put i c P)) 0 (pool_blocks P) (pool_size P)"
    using assms(1) by (auto simp: pool_ok_def pool_put_def intro: put_rep)
  then show "pool_ok (pool_put i c P)" "pool_live (pool_put i c P) = pool_live P"
    using pool_okI [of "pool_put i c P" "pool_blocks P"] assms(1)
    by (auto simp: pool_defs pool_put_def)
qed

lemma pool_live_apart:
  assumes "pool_live P p = Some n" "pool_live P q = Some k" "p < q"
  shows "p + n \<le> q"
  using assms live_disjoint by (auto simp: pool_live_def)

definition pool_fits :: "nat \<Rightarrow> bool" where
  "pool_fits n \<longleftrightarrow> n + 3 < 4294967296"

lemma pool_put_simps [simp]:
  "fpool_mem (pool_put i c P) = (fpool_mem P)(i := c)" "fpool_bytes (pool_put i c P) = fpool_bytes P"
  by (simp_all add: pool_put_def)

interpretation pool: block_allocator fpool_alloc "\<lambda>p. fpool_free (Some p)" pool_put fpool_mem pool_ok pool_live pool_fits
  by unfold_locales
    (auto simp: pool_fits_def pool_put_law pool_live_apart fpool_free_law fpool_alloc_law(1,2)
      intro: fpool_alloc_None fpool_alloc_law(3,4) fpool_free_law pool_put_law)

lemma fpool_init_law:
  assumes "fpool_base P" "8 < pool_size P"
  shows "pool_ok (fpool_init P)" "pool_live (fpool_init P) = Map.empty"
    "pool_blocks (fpool_init P) = [(pool_size P - 8, True)]"
proof -
  have "pool_rep (fpool_mem (fpool_init P)) 0 [(pool_size P - 8, True)] (pool_size (fpool_init P))"
    using assms unat_u32_less [of "fpool_bytes P"] by (auto simp: fpool_init_def mem_simps)
  then show "pool_ok (fpool_init P)" "pool_live (fpool_init P) = Map.empty"
    "pool_blocks (fpool_init P) = [(pool_size P - 8, True)]"
    using pool_okI [of "fpool_init P" "[(pool_size P - 8, True)]"] assms
    by (auto simp: fpool_init_def sizes_pos_def)
qed

lemma fs_set_pool_size:
  "pool_size (fs_set_pool True n P) = align_down 16 (min n FS_DATA_POOL_SIZE)"
proof -
  have "align_down 16 (min n FS_DATA_POOL_SIZE) \<le> FS_DATA_POOL_SIZE"
    by (meson align_down_le le_trans min.cobounded2)
  then have "align_down 16 (min n FS_DATA_POOL_SIZE) < 2 ^ LENGTH(32)"
    by (simp add: FS_DATA_POOL_SIZE_def)
  then show ?thesis
    unfolding fs_set_pool_def Let_def
    by (auto simp: min_def unat_of_nat)
qed

lemma fpool_alloc_refines:
  assumes "pool_ok P" "0 < n" "n + 3 < 4294967296" and "fpool_alloc n P = (r, P')"
  shows "a_alloc (round_up 4 n) (pool_blocks P) 0 = (r, pool_blocks P') \<and> pool_ok P'"
proof -
  from assms obtain m' where m': "alloc_from (fpool_bytes P) (round_up 4 n) (fpool_mem P) 0 = (r, m')"
    and P': "P' = P\<lparr>fpool_mem := m'\<rparr>"
    unfolding fpool_alloc_def fpool_alloc_round [OF assms(3)] pool_ok_def by (auto split: prod.splits)
  obtain r1 bl1 where al: "a_alloc (round_up 4 n) (pool_blocks P) 0 = (r1, bl1)" by fastforce
  have rep: "pool_rep (fpool_mem P) 0 (pool_blocks P) (pool_size P)" using assms(1) by (simp add: pool_ok_def)
  from alloc_from_refines [OF rep m' al] have "r = r1" "pool_rep (fpool_mem P') 0 bl1 (pool_size P')"
    by (auto simp: P')
  moreover have "pool_ok P'"
    using assms fpool_alloc_law(1) [OF assms(1,3)] fpool_alloc_None by (cases r) auto
  ultimately show ?thesis using al pool_blocks_eq by blast
qed

subsection \<open>Properties\<close>

text \<open>C15. Refinement: on a well-formed pool, \<open>fpool_alloc\<close> working on the header bytes is exactly
  first-fit allocation on the list of blocks those bytes describe. It returns the payload of the
  first free block that is large enough for the request rounded up to four bytes, splits off the
  rest when at least 24 bytes remain, fails only if no free block is large enough, and leaves a
  well-formed pool.\<close>

theorem fpool_alloc_first_fit:
  assumes "pool_ok P" "0 < n" "n + 3 < 4294967296" and "fpool_alloc n P = (r, P')"
  shows "a_alloc (round_up 4 n) (pool_blocks P) 0 = (r, pool_blocks P') \<and> pool_ok P'
    \<and> (r = None \<longrightarrow> (\<forall>(sz, fr)\<in>set (pool_blocks P). fr \<longrightarrow> sz < round_up 4 n))"
  using fpool_alloc_refines [OF assms] a_alloc_None by blast

definition small_pool :: fpool where
  "small_pool = fpool_init \<lparr>fpool_base = True, fpool_bytes = 64, fpool_mem = (\<lambda>_. NUL)\<rparr>"

lemma small_pool_ok: "pool_ok small_pool" "pool_blocks small_pool = [(56, True)]" "pool_live small_pool = Map.empty"
  using fpool_init_law [of "\<lparr>fpool_base = True, fpool_bytes = 64, fpool_mem = (\<lambda>_. NUL)\<rparr>"]
  by (simp_all add: small_pool_def)

lemma small_pool_alloc: "\<exists>P. fpool_alloc 10 small_pool = (Some 8, P)"
proof -
  obtain r P where a: "fpool_alloc 10 small_pool = (r, P)" by fastforce
  have "round_up 4 10 = 12" by (simp add: round_up_def align_down_def)
  with fpool_alloc_refines [OF small_pool_ok(1) _ _ a] a small_pool_ok show ?thesis by simp
qed

theorem fpool_alloc_first_fit_witness:
  "pool_ok small_pool \<and> pool_blocks (snd (fpool_alloc 10 small_pool)) = [(12, False), (36, True)]"
proof -
  obtain r P' where a: "fpool_alloc 10 small_pool = (r, P')" by fastforce
  have "round_up 4 10 = 12" by (simp add: round_up_def align_down_def)
  with fpool_alloc_first_fit [OF small_pool_ok(1) _ _ a] a small_pool_ok show ?thesis by simp
qed

text \<open>Releasing a live block of a well-formed pool makes exactly that block disappear from the
  set of live blocks, leaves the contents of every other live block untouched, keeps the pool
  well-formed, and leaves no two neighbouring free blocks (coalescing is complete).\<close>

theorem fpool_free_releases_and_merges:
  assumes "pool_ok P" "pool_live P p = Some n" and "P' = fpool_free (Some p) P"
  shows "pool_ok P' \<and> pool_live P' = (pool_live P)(p := None) \<and> coalesced (pool_blocks P')
    \<and> (\<forall>q k. q \<noteq> p \<and> pool_live P q = Some k \<longrightarrow> pool_read q k P' = pool_read q k P)"
  using fpool_free_law [OF assms(1,2)] pool.release_other(2) [OF assms(1,2) _ _ order_refl]
  by (auto simp: assms(3) pool_read_def)

theorem fpool_free_releases_and_merges_witness:
  "\<exists>p P. fpool_alloc 10 small_pool = (Some p, P) \<and> pool_ok (fpool_free (Some p) P)
     \<and> pool_live (fpool_free (Some p) P) = Map.empty"
proof -
  obtain P where a: "fpool_alloc 10 small_pool = (Some 8, P)" using small_pool_alloc by blast
  from pool.alloc_inv [OF small_pool_ok(1) _ a] pool.alloc_live [OF small_pool_ok(1) _ a]
  obtain k where P: "pool_ok P" "pool_live P 8 = Some k" "pool_live P = [8 \<mapsto> k]"
    by (auto simp: pool_fits_def small_pool_ok)
  from fpool_free_releases_and_merges [OF P(1,2) refl] P(3) a show ?thesis by auto
qed



end
