(* ===== verification/FsState.thy ===== *)
theory FsState
  imports FsPath FsPool
begin

section \<open>The filesystem's state (fs/fs.c)\<close>

text \<open>
  The filesystem is a set of parallel static tables: 96 file slots, 64 directory slots, the current
  directory and the data pool (record \<open>fstab\<close>: everything that is written to the Storefile), and
  the variables around them (record \<open>fs\<close>: effective user, error number, batching depth). A table is
  a function from slot numbers; the code only uses numbers below \<open>MAX_F\<close> and \<open>MAX_D\<close>.

  Two fields record effects that leave the module: \<open>fs_saved\<close> is the table as it was at the last
  call of \<^verbatim>\<open>store_autosave\<close> (the persistence hook), and \<open>fs_null_deref\<close> is set when the code stores or
  reads through a null data pointer, which C leaves undefined.

  This theory has the helpers that read the tables: slot lookup, permissions, the parent directory.
\<close>

definition MAX_F :: nat where
  "MAX_F = 96"

definition MAX_D :: nat where
  "MAX_D = 64"

definition MAX_FILE_DATA :: nat where
  "MAX_FILE_DATA = 32 * 1048576"

record fstab =
  fname :: "nat \<Rightarrow> bytes"
  fdata :: "nat \<Rightarrow> nat option"
  fsize :: "nat \<Rightarrow> int"
  fused :: "nat \<Rightarrow> int"
  fowner :: "nat \<Rightarrow> int"
  fmode :: "nat \<Rightarrow> int"
  dname :: "nat \<Rightarrow> bytes"
  dused :: "nat \<Rightarrow> int"
  downer :: "nat \<Rightarrow> int"
  dmode :: "nat \<Rightarrow> int"
  cwd :: bytes
  fs_pool :: fpool

record fs = fstab +
  fs_cur_uid :: int
  fs_errno :: int
  fs_batch_depth :: nat
  fs_saved :: "fstab option"
  fs_null_deref :: bool

subsection \<open>Committing a change\<close>

definition store_hook :: "fs \<Rightarrow> fs" where
  "store_hook s = s\<lparr>fs_saved := Some (fstab.truncate s)\<rparr>"

definition fs_commit_change :: "fs \<Rightarrow> fs" where
  "fs_commit_change s = (if fs_batch_depth s = 0 then store_hook s else s)"

definition fs_deny :: "fs \<Rightarrow> fs" where
  "fs_deny s = s\<lparr>fs_errno := 13\<rparr>"

subsection \<open>Looking up slots\<close>

text \<open>The code repeats the loop of \<^verbatim>\<open>file_index\<close> and \<^verbatim>\<open>dir_index\<close> in most operations; here it is one
  definition each. The result is the first slot in use whose name is the path.\<close>

definition file_index :: "'a fstab_scheme \<Rightarrow> bytes \<Rightarrow> nat option" where
  "file_index s p = find (\<lambda>i. fused s i \<noteq> 0 \<and> strcmp_safe (fname s i) p) [0..<MAX_F]"

definition dir_index :: "'a fstab_scheme \<Rightarrow> bytes \<Rightarrow> nat option" where
  "dir_index s p = find (\<lambda>i. dused s i \<noteq> 0 \<and> strcmp_safe (dname s i) p) [0..<MAX_D]"

definition free_file_slot :: "'a fstab_scheme \<Rightarrow> nat option" where
  "free_file_slot s = find (\<lambda>i. fused s i = 0) [0..<MAX_F]"

definition free_dir_slot :: "'a fstab_scheme \<Rightarrow> nat option" where
  "free_dir_slot s = find (\<lambda>i. dused s i = 0) [1..<MAX_D]"

subsection \<open>Permissions\<close>

text \<open>The owner bits of a mode: read 0400, write 0200, search 0100. Everyone but the owner is held
  to the bits for others, six positions lower; user 0 bypasses the check.\<close>

abbreviation (input) PERM_R :: int where "PERM_R \<equiv> 256"
abbreviation (input) PERM_W :: int where "PERM_W \<equiv> 128"
abbreviation (input) PERM_X :: int where "PERM_X \<equiv> 64"

definition perm_allows :: "fs \<Rightarrow> int \<Rightarrow> int \<Rightarrow> int \<Rightarrow> bool" where
  "perm_allows s mode owner b =
     (if fs_cur_uid s = 0 then True
      else if fs_cur_uid s = owner then mode AND b \<noteq> 0
      else mode AND drop_bit 6 b \<noteq> 0)"

definition may_modify_parent :: "fs \<Rightarrow> bytes \<Rightarrow> bool \<times> fs" where
  "may_modify_parent s path =
     (case dir_index s (split_parent path FS_PATH_CAP) of
        None \<Rightarrow> (True, s)
      | Some d \<Rightarrow> if perm_allows s (dmode s d) (downer s d) PERM_W then (True, s)
                  else (False, fs_deny s))"

subsection \<open>Existence\<close>

definition null_or_empty :: "cptr \<Rightarrow> bool" where
  "null_or_empty p = (case p of None \<Rightarrow> True | Some s \<Rightarrow> chr_at s 0 = NUL)"

definition fs_directory_exists :: "'a fstab_scheme \<Rightarrow> cptr \<Rightarrow> bool" where
  "fs_directory_exists s path =
     (if null_or_empty path then False
      else if strcmp_safe (the path) ''/'' then True
      else dir_index s (abs_path (cwd s) (the path)) \<noteq> None)"

definition fs_file_exists :: "'a fstab_scheme \<Rightarrow> cptr \<Rightarrow> bool" where
  "fs_file_exists s path =
     (if null_or_empty path then False
      else file_index s (abs_path (cwd s) (the path)) \<noteq> None)"

definition parent_exists :: "'a fstab_scheme \<Rightarrow> bytes \<Rightarrow> bool" where
  "parent_exists s path =
     (let parent = take 255 (abs_path (cwd s) path);
          len = strlen_safe parent
      in if len \<le> 1 then True
         else let len = cut_name parent len in
           if len \<le> 1 then True
           else fs_directory_exists s (Some (take (len - 1) parent)))"

subsection \<open>Facts on the lookups\<close>

lemma find_upt_Some:
  "find P [a..<b] = Some i \<longleftrightarrow> a \<le> i \<and> i < b \<and> P i \<and> (\<forall>j. a \<le> j \<longrightarrow> j < i \<longrightarrow> \<not> P j)"
proof (cases "a \<le> b")
  case True
  then obtain n where b: "b = a + n" using le_Suc_ex by blast
  show ?thesis unfolding b find_Some_iff
  proof (intro iffI)
    assume "\<exists>k<length [a..<a + n]. P ([a..<a + n] ! k) \<and> i = [a..<a + n] ! k \<and> (\<forall>j<k. \<not> P ([a..<a + n] ! j))"
    then obtain k where k: "k < n" "P (a + k)" "i = a + k" "\<forall>j<k. \<not> P (a + j)" by auto
    have "\<not> P j" if "a \<le> j" "j < i" for j
      using k(4) [rule_format, of "j - a"] that k(3) by auto
    with k show "a \<le> i \<and> i < a + n \<and> P i \<and> (\<forall>j. a \<le> j \<longrightarrow> j < i \<longrightarrow> \<not> P j)" by auto
  next
    assume "a \<le> i \<and> i < a + n \<and> P i \<and> (\<forall>j. a \<le> j \<longrightarrow> j < i \<longrightarrow> \<not> P j)"
    then show "\<exists>k<length [a..<a + n]. P ([a..<a + n] ! k) \<and> i = [a..<a + n] ! k \<and> (\<forall>j<k. \<not> P ([a..<a + n] ! j))"
      by (intro exI [of _ "i - a"]) auto
  qed
qed auto

lemma find_upt_None: "find P [a..<b] = None \<longleftrightarrow> (\<forall>i. a \<le> i \<longrightarrow> i < b \<longrightarrow> \<not> P i)"
  by (auto simp: find_None_iff)

lemma file_index_Some:
  "file_index s p = Some i \<longleftrightarrow>
     i < MAX_F \<and> fused s i \<noteq> 0 \<and> cstr (fname s i) = cstr p \<and>
     (\<forall>j<i. fused s j \<noteq> 0 \<longrightarrow> cstr (fname s j) \<noteq> cstr p)"
  by (auto simp: file_index_def find_upt_Some strcmp_safe_iff)

lemma file_index_None:
  "file_index s p = None \<longleftrightarrow> (\<forall>i<MAX_F. fused s i \<noteq> 0 \<longrightarrow> cstr (fname s i) \<noteq> cstr p)"
  by (auto simp: file_index_def find_upt_None strcmp_safe_iff)

lemma dir_index_Some:
  "dir_index s p = Some i \<longleftrightarrow>
     i < MAX_D \<and> dused s i \<noteq> 0 \<and> cstr (dname s i) = cstr p \<and>
     (\<forall>j<i. dused s j \<noteq> 0 \<longrightarrow> cstr (dname s j) \<noteq> cstr p)"
  by (auto simp: dir_index_def find_upt_Some strcmp_safe_iff)

lemma dir_index_None:
  "dir_index s p = None \<longleftrightarrow> (\<forall>i<MAX_D. dused s i \<noteq> 0 \<longrightarrow> cstr (dname s i) \<noteq> cstr p)"
  by (auto simp: dir_index_def find_upt_None strcmp_safe_iff)

lemma free_file_slot_Some: "free_file_slot s = Some i \<Longrightarrow> i < MAX_F \<and> fused s i = 0"
  by (simp add: free_file_slot_def find_upt_Some)

lemma free_dir_slot_Some: "free_dir_slot s = Some i \<Longrightarrow> 0 < i \<and> i < MAX_D \<and> dused s i = 0"
  by (simp add: free_dir_slot_def find_upt_Some)

text \<open>The lookups read only the tables they search.\<close>

lemma file_index_cong:
  "fused s = fused t \<Longrightarrow> fname s = fname t \<Longrightarrow> file_index s p = file_index t p"
  by (simp add: file_index_def)

lemma dir_index_cong:
  "dused s = dused t \<Longrightarrow> dname s = dname t \<Longrightarrow> dir_index s p = dir_index t p"
  by (simp add: dir_index_def)

lemma fs_directory_exists_cong:
  "dused s = dused t \<Longrightarrow> dname s = dname t \<Longrightarrow> cwd s = cwd t \<Longrightarrow>
   fs_directory_exists s p = fs_directory_exists t p"
  by (simp add: fs_directory_exists_def cong: dir_index_cong) (metis dir_index_cong)

end
