(* ===== verification/FsOps.thy ===== *)
theory FsOps
  imports FsState
begin

section \<open>The operations of the filesystem (fs/fs.c)\<close>

text \<open>
  One definition per function of \<^verbatim>\<open>fs.c\<close>, in the order of the file. An operation takes the state and
  returns its result code and the new state; every early return of the code is a branch. Path
  arguments are \<^typ>\<open>cptr\<close>: \<^const>\<open>None\<close> is the null pointer. Where the code writes into buffers of the
  caller the result has a further component, described at the definition.
\<close>

subsection \<open>File data\<close>

text \<open>\<open>fdata_put\<close> is the assignment \<^verbatim>\<open>fdata[idx][i] = c\<close>. Addresses are offsets from the start of the
  pool, and a pointer plus an index wraps around at 32 bits. Storing or reading through a null
  pointer is undefined in C: the model leaves memory as it is, delivers NUL bytes and sets
  \<open>fs_null_deref\<close>.\<close>

definition fdata_put :: "nat \<Rightarrow> nat \<Rightarrow> byte \<Rightarrow> fs \<Rightarrow> fs" where
  "fdata_put idx i c s =
     (case fdata s idx of
        None \<Rightarrow> s\<lparr>fs_null_deref := True\<rparr>
      | Some p \<Rightarrow> s\<lparr>fs_pool := pool_put (u32 (p + i)) c (fs_pool s)\<rparr>)"

fun fdata_write :: "nat \<Rightarrow> nat \<Rightarrow> bytes \<Rightarrow> fs \<Rightarrow> fs" where
  "fdata_write idx off [] s = s"
| "fdata_write idx off (c # cs) s = fdata_write idx (u32 (off + 1)) cs (fdata_put idx off c s)"

definition fdata_read :: "nat \<Rightarrow> nat \<Rightarrow> nat \<Rightarrow> fs \<Rightarrow> bytes \<times> fs" where
  "fdata_read idx off n s =
     (if n = 0 then ([], s)
      else case fdata s idx of
        None \<Rightarrow> (replicate n NUL, s\<lparr>fs_null_deref := True\<rparr>)
      | Some p \<Rightarrow> (pool_read (p + off) n (fs_pool s), s))"

text \<open>The loop \<^verbatim>\<open>for (j = 0; j < copy; j++) p[j] = fdata[idx][j]\<close> of \<^verbatim>\<open>fdata_resize\<close>.\<close>

definition pool_copy :: "nat \<Rightarrow> nat \<Rightarrow> nat \<Rightarrow> fpool \<Rightarrow> fpool" where
  "pool_copy p q n P = foldl (\<lambda>P j. pool_put (p + j) (fpool_mem P (q + j)) P) P [0..<n]"

definition fdata_resize :: "nat \<Rightarrow> nat \<Rightarrow> fs \<Rightarrow> int \<times> fs" where
  "fdata_resize idx sz s =
     (if idx \<ge> MAX_F then (- 1, s)
      else if sz > MAX_FILE_DATA - 1 then (- 2, s)
      else if sz = 0 then
        (0, s\<lparr>fs_pool := fpool_free (fdata s idx) (fs_pool s),
              fdata := (fdata s)(idx := None), fsize := (fsize s)(idx := 0)\<rparr>)
      else
        case fpool_alloc (sz + 1) (fs_pool s) of
          (None, P) \<Rightarrow> (- 3, s\<lparr>fs_pool := P\<rparr>)
        | (Some p, P) \<Rightarrow>
            let P = (case fdata s idx of
                       None \<Rightarrow> P
                     | Some q \<Rightarrow> if fsize s idx > 0
                                 then pool_copy p q (min (nat (fsize s idx)) sz) P else P);
                P = pool_put (p + sz) NUL P
            in (0, s\<lparr>fs_pool := fpool_free (fdata s idx) P,
                     fdata := (fdata s)(idx := Some p), fsize := (fsize s)(idx := int sz)\<rparr>))"

subsection \<open>Start\<close>

definition fs_init :: "fs \<Rightarrow> fs" where
  "fs_init s =
     s\<lparr>fs_pool := fpool_init (fs_pool s),
       fused := \<lambda>i. if i < MAX_F then 0 else fused s i,
       fsize := \<lambda>i. if i < MAX_F then 0 else fsize s i,
       fdata := \<lambda>i. if i < MAX_F then None else fdata s i,
       fname := \<lambda>i. if i < MAX_F then (fname s i)[0 := NUL] else fname s i,
       fowner := \<lambda>i. if i < MAX_F then 0 else fowner s i,
       fmode := \<lambda>i. if i < MAX_F then 493 else fmode s i,
       dused := \<lambda>i. if i = 0 then 1 else if i < MAX_D then 0 else dused s i,
       dname := \<lambda>i. if i = 0 then strcpy_safe ((dname s 0)[0 := NUL]) ''/'' FS_PATH_CAP
                    else if i < MAX_D then (dname s i)[0 := NUL] else dname s i,
       downer := \<lambda>i. if i < MAX_D then 0 else downer s i,
       dmode := \<lambda>i. if i < MAX_D then 493 else dmode s i,
       cwd := strcpy_safe (cwd s) ''/'' 256\<rparr>"

subsection \<open>Directories\<close>

definition fs_create_directory :: "cptr \<Rightarrow> fs \<Rightarrow> int \<times> fs" where
  "fs_create_directory path s =
     (let s = s\<lparr>fs_errno := 0\<rparr> in
      if null_or_empty path then (- 1, s)
      else let full = abs_path (cwd s) (the path) in
      if \<not> parent_exists s (the path) then (- 1, s)
      else if strcmp_safe full ''/'' then (- 1, s)
      else if dir_index s full \<noteq> None then (- 1, s)
      else if file_index s full \<noteq> None then (- 1, s)
      else case may_modify_parent s full of
        (False, s) \<Rightarrow> (- 2, s)
      | (True, s) \<Rightarrow>
          (case free_dir_slot s of
             None \<Rightarrow> (- 1, s)
           | Some i \<Rightarrow>
               (0, fs_commit_change
                     (s\<lparr>dname := (dname s)(i := strcpy_safe (dname s i) full FS_PATH_CAP),
                        dused := (dused s)(i := 1),
                        downer := (downer s)(i := fs_cur_uid s),
                        dmode := (dmode s)(i := 493)\<rparr>))))"

text \<open>The comparison the code repeats for every slot: the name is longer than the directory's path
  and starts with it.\<close>

definition name_below :: "bytes \<Rightarrow> bytes \<Rightarrow> bool" where
  "name_below nm dir =
     (strlen_safe nm > strlen_safe dir \<and>
      (\<forall>j\<in>set [0..<strlen_safe dir]. chr_at nm j = chr_at dir j))"

definition no_slash :: "bytes \<Rightarrow> bool" where
  "no_slash nm = (SLASH \<notin> set (cstr nm))"

definition empty_blocker :: "bytes \<Rightarrow> bytes \<Rightarrow> bool" where
  "empty_blocker full nm =
     (if \<not> name_below nm full then False
      else if chr_at full 0 = SLASH \<and> chr_at full 1 = NUL
        then chr_at nm 0 = SLASH \<and> chr_at nm 1 \<noteq> NUL
      else if chr_at nm (strlen_safe full) = SLASH
        then (let child = drop (strlen_safe full + 1) nm in chr_at child 0 \<noteq> NUL \<and> no_slash child)
      else False)"

definition fs_directory_is_empty :: "fs \<Rightarrow> cptr \<Rightarrow> bool" where
  "fs_directory_is_empty s path =
     (if null_or_empty path then False
      else let full = abs_path (cwd s) (the path) in
      if \<not> fs_directory_exists s (Some full) then False
      else if \<exists>i\<in>set [1..<MAX_D]. dused s i \<noteq> 0 \<and> empty_blocker full (dname s i) then False
      else if \<exists>i\<in>set [0..<MAX_F]. fused s i \<noteq> 0 \<and> empty_blocker full (fname s i) then False
      else True)"

definition delete_blocker :: "bytes \<Rightarrow> bytes \<Rightarrow> bool" where
  "delete_blocker full nm =
     (name_below nm full \<and> chr_at nm (strlen_safe full) = SLASH \<and>
      no_slash (drop (strlen_safe full + 1) nm))"

definition fs_delete_directory :: "cptr \<Rightarrow> fs \<Rightarrow> int \<times> fs" where
  "fs_delete_directory path s =
     (let s = s\<lparr>fs_errno := 0\<rparr> in
      if null_or_empty path then (- 1, s)
      else let full = abs_path (cwd s) (the path) in
      case may_modify_parent s full of
        (False, s) \<Rightarrow> (- 2, s)
      | (True, s) \<Rightarrow>
          if strcmp_safe (the path) ''/'' then (- 1, s)
          else if \<exists>i\<in>set [0..<MAX_F]. fused s i \<noteq> 0 \<and> delete_blocker full (fname s i) then (- 2, s)
          else if \<exists>i\<in>set [0..<MAX_D]. dused s i \<noteq> 0 \<and> \<not> strcmp_safe (dname s i) full \<and>
            delete_blocker full (dname s i) then (- 2, s)
          else (case dir_index s full of
                  None \<Rightarrow> (- 1, s)
                | Some i \<Rightarrow>
                    (0, fs_commit_change
                          (s\<lparr>dused := (dused s)(i := 0),
                             dname := (dname s)(i := (dname s i)[0 := NUL])\<rparr>))))"

subsection \<open>Creating and deleting files\<close>

definition fs_create_file :: "cptr \<Rightarrow> fs \<Rightarrow> int \<times> fs" where
  "fs_create_file path s =
     (let s = s\<lparr>fs_errno := 0\<rparr> in
      if null_or_empty path then (- 1, s)
      else let full = abs_path (cwd s) (the path) in
      if \<not> parent_exists s (the path) then (- 1, s)
      else if file_index s full \<noteq> None then (0, s)
      else if dir_index s full \<noteq> None then (- 1, s)
      else case may_modify_parent s full of
        (False, s) \<Rightarrow> (- 2, s)
      | (True, s) \<Rightarrow>
          (case free_file_slot s of
             None \<Rightarrow> (- 1, s)
           | Some i \<Rightarrow>
               (0, fs_commit_change
                     (s\<lparr>fname := (fname s)(i := strcpy_safe (fname s i) full FS_PATH_CAP),
                        fsize := (fsize s)(i := 0),
                        fdata := (fdata s)(i := None),
                        fused := (fused s)(i := 1),
                        fowner := (fowner s)(i := fs_cur_uid s),
                        fmode := (fmode s)(i := 420)\<rparr>))))"

definition fs_delete_file :: "cptr \<Rightarrow> fs \<Rightarrow> int \<times> fs" where
  "fs_delete_file path s =
     (let s = s\<lparr>fs_errno := 0\<rparr> in
      if null_or_empty path then (- 1, s)
      else let full = abs_path (cwd s) (the path) in
      case may_modify_parent s full of
        (False, s) \<Rightarrow> (- 2, s)
      | (True, s) \<Rightarrow>
          (case file_index s full of
             None \<Rightarrow> (- 1, s)
           | Some i \<Rightarrow>
               (0, fs_commit_change
                     (s\<lparr>fused := (fused s)(i := 0),
                        fname := (fname s)(i := (fname s i)[0 := NUL]),
                        fs_pool := fpool_free (fdata s i) (fs_pool s),
                        fdata := (fdata s)(i := None),
                        fsize := (fsize s)(i := 0)\<rparr>))))"

subsection \<open>Writing\<close>

text \<open>The metadata rollback that \<^verbatim>\<open>fs_write_file\<close> repeats in its two failure branches.\<close>

definition write_rollback :: "nat \<Rightarrow> fs \<Rightarrow> fs" where
  "write_rollback idx s =
     (if fsize s idx = 0 \<and> fdata s idx = None
      then s\<lparr>fused := (fused s)(idx := 0), fname := (fname s)(idx := (fname s idx)[0 := NUL]),
             fsize := (fsize s)(idx := 0)\<rparr>
      else s)"

text \<open>The caller's data is an array of at least \<open>sz\<close> bytes.\<close>

definition data_bytes :: "bytes \<Rightarrow> nat \<Rightarrow> bytes" where
  "data_bytes data sz = map (chr_at data) [0..<sz]"

definition write_slot :: "nat \<Rightarrow> bytes \<Rightarrow> nat \<Rightarrow> fs \<Rightarrow> int \<times> fs" where
  "write_slot idx data sz s =
     (if sz > MAX_FILE_DATA - 1 then (- 2, write_rollback idx s)
      else case fdata_resize idx sz s of (rc, s) \<Rightarrow>
        if rc \<noteq> 0 then (- 3, write_rollback idx s)
        else (0, fs_commit_change
                   (fdata_put idx sz NUL (fdata_write idx 0 (data_bytes data sz) s))))"

definition fs_write_file :: "cptr \<Rightarrow> cptr \<Rightarrow> nat \<Rightarrow> fs \<Rightarrow> int \<times> fs" where
  "fs_write_file path data sz s =
     (let s = s\<lparr>fs_errno := 0\<rparr> in
      case (path, data) of
        (Some pth, Some d) \<Rightarrow>
          (let full = abs_path (cwd s) pth in
           case file_index s full of
             Some idx \<Rightarrow>
               if \<not> perm_allows s (fmode s idx) (fowner s idx) PERM_W then (- 2, fs_deny s)
               else write_slot idx d sz s
           | None \<Rightarrow>
               (case fs_create_file path s of (rc, s) \<Rightarrow>
                if rc \<noteq> 0 then (- 1, s)
                else case file_index s full of
                  None \<Rightarrow> (- 1, s)
                | Some idx \<Rightarrow> write_slot idx d sz s))
      | _ \<Rightarrow> (- 1, s))"

definition fs_prealloc_file :: "cptr \<Rightarrow> nat \<Rightarrow> fs \<Rightarrow> int \<times> fs" where
  "fs_prealloc_file path sz s =
     (if null_or_empty path \<or> sz = 0 \<or> sz > MAX_FILE_DATA - 1 then (- 1, s)
      else let full = abs_path (cwd s) (the path);
               resize = (\<lambda>idx s.
                 case fdata_resize idx sz (s\<lparr>fs_pool := fpool_coalesce (fs_pool s)\<rparr>) of (rc, s) \<Rightarrow>
                   if rc \<noteq> 0 then (- 3, s) else (0, s))
      in case file_index s full of
           Some idx \<Rightarrow> resize idx s
         | None \<Rightarrow>
             (case fs_create_file path s of (rc, s) \<Rightarrow>
              if rc \<noteq> 0 then (- 1, s)
              else case file_index s full of
                None \<Rightarrow> (- 1, s)
              | Some idx \<Rightarrow> resize idx s))"

definition fs_write_at :: "cptr \<Rightarrow> nat \<Rightarrow> cptr \<Rightarrow> nat \<Rightarrow> fs \<Rightarrow> int \<times> fs" where
  "fs_write_at path offset data len s =
     (case (path, data) of
        (Some pth, Some d) \<Rightarrow>
          if len = 0 then (- 1, s)
          else (case file_index s (abs_path (cwd s) pth) of
                  None \<Rightarrow> (- 1, s)
                | Some idx \<Rightarrow>
                    if fdata s idx = None then (- 1, s)
                    else if u32 (offset + len) > nat (fsize s idx mod 4294967296) then (- 3, s)
                    else (0, fdata_write idx offset (data_bytes d len) s))
      | _ \<Rightarrow> (- 1, s))"

definition append_slot :: "nat \<Rightarrow> nat \<Rightarrow> bytes \<Rightarrow> nat \<Rightarrow> fs \<Rightarrow> int \<times> fs" where
  "append_slot idx oldsz data len s =
     (if u32 (oldsz + len) > MAX_FILE_DATA - 1 then (- 3, s)
      else case fdata_resize idx (u32 (oldsz + len)) s of (rc, s) \<Rightarrow>
        if rc \<noteq> 0 then (- 4, s)
        else (0, fdata_put idx (u32 (oldsz + len)) NUL
                   (fdata_write idx oldsz (data_bytes data len) s)))"

definition fs_append_file :: "cptr \<Rightarrow> cptr \<Rightarrow> nat \<Rightarrow> fs \<Rightarrow> int \<times> fs" where
  "fs_append_file path data len s =
     (let s = s\<lparr>fs_errno := 0\<rparr> in
      if null_or_empty path \<or> data = None \<or> len = 0 then (- 1, s)
      else let full = abs_path (cwd s) (the path) in
      case file_index s full of
        None \<Rightarrow>
          (case fs_create_file path s of (cr, s) \<Rightarrow>
           if cr \<noteq> 0 then (cr, s)
           else case file_index s full of
             None \<Rightarrow> (- 1, s)
           | Some idx \<Rightarrow> append_slot idx 0 (the data) len s)
      | Some idx \<Rightarrow>
          if \<not> perm_allows s (fmode s idx) (fowner s idx) PERM_W then (- 2, fs_deny s)
          else append_slot idx (nat (fsize s idx)) (the data) len s)"

subsection \<open>Reading\<close>

text \<open>The middle component of the results of the reading operations is what the caller's buffer
  receives: \<^const>\<open>None\<close> when neither it nor \<^verbatim>\<open>*size\<close> is written, otherwise the bytes, whose number is
  stored in \<^verbatim>\<open>*size\<close> (\<^verbatim>\<open>fs_read_file_prefix\<close> adds a NUL). The argument \<open>dst\<close> says whether the
  buffer and size pointers are both non-null.\<close>

definition fs_read_file_prefix :: "cptr \<Rightarrow> bool \<Rightarrow> nat \<Rightarrow> fs \<Rightarrow> int \<times> bytes option \<times> fs" where
  "fs_read_file_prefix path dst capacity s =
     (let s = s\<lparr>fs_errno := 0\<rparr> in
      case path of
        None \<Rightarrow> (- 1, None, s)
      | Some pth \<Rightarrow>
          if \<not> dst \<or> capacity = 0 then (- 1, None, s)
          else (case file_index s (abs_path (cwd s) pth) of
                  None \<Rightarrow> (- 1, Some [], s)
                | Some i \<Rightarrow>
                    if \<not> perm_allows s (fmode s i) (fowner s i) PERM_R then (- 2, Some [], fs_deny s)
                    else case fdata_read i 0 (min (nat (fsize s i mod 4294967296)) (capacity - 1)) s of
                      (b, s) \<Rightarrow> (0, Some b, s)))"

definition fs_read_file :: "cptr \<Rightarrow> bool \<Rightarrow> nat \<Rightarrow> fs \<Rightarrow> int \<times> bytes option \<times> fs" where
  "fs_read_file path dst sz s =
     (let s = s\<lparr>fs_errno := 0\<rparr> in
      if path = None \<or> \<not> dst then (- 1, None, s)
      else fs_read_file_prefix path dst (u32 (sz + 1)) s)"

definition fs_read_file_range :: "cptr \<Rightarrow> nat \<Rightarrow> bool \<Rightarrow> nat \<Rightarrow> fs \<Rightarrow> int \<times> bytes option \<times> fs" where
  "fs_read_file_range path offset dst capacity s =
     (let s = s\<lparr>fs_errno := 0\<rparr> in
      case path of
        None \<Rightarrow> (- 1, None, s)
      | Some pth \<Rightarrow>
          if \<not> dst \<or> capacity = 0 then (- 1, None, s)
          else (case file_index s (abs_path (cwd s) pth) of
                  None \<Rightarrow> (- 1, Some [], s)
                | Some i \<Rightarrow>
                    if \<not> perm_allows s (fmode s i) (fowner s i) PERM_R then (- 2, Some [], fs_deny s)
                    else let total = nat (fsize s i mod 4294967296) in
                    if offset \<ge> total then (0, Some [], s)
                    else case fdata_read i offset (min (total - offset) capacity) s of
                      (b, s) \<Rightarrow> (0, Some b, s)))"

definition fs_get_file_size :: "cptr \<Rightarrow> fs \<Rightarrow> nat \<times> fs" where
  "fs_get_file_size path s =
     (let s = s\<lparr>fs_errno := 0\<rparr> in
      if null_or_empty path then (0, s)
      else case file_index s (abs_path (cwd s) (the path)) of
        None \<Rightarrow> (0, s)
      | Some i \<Rightarrow>
          if \<not> perm_allows s (fmode s i) (fowner s i) PERM_R then (4294967294, fs_deny s)
          else (nat (fsize s i mod 4294967296), s))"

text \<open>\<^verbatim>\<open>fs_file_data_ptr\<close> returns the data pointer and, when asked, stores the size.\<close>

definition fs_file_data_ptr :: "cptr \<Rightarrow> fs \<Rightarrow> nat option \<times> nat option \<times> fs" where
  "fs_file_data_ptr path s =
     (let s = s\<lparr>fs_errno := 0\<rparr> in
      if null_or_empty path then (None, None, s)
      else case file_index s (abs_path (cwd s) (the path)) of
        None \<Rightarrow> (None, None, s)
      | Some i \<Rightarrow>
          if \<not> perm_allows s (fmode s i) (fowner s i) PERM_R then (None, None, fs_deny s)
          else (fdata s i, Some (nat (fsize s i)), s))"

subsection \<open>Listing and changing directories\<close>

text \<open>The name an entry has in the listing of the directory \<open>lp\<close>: its last component, when it is a
  direct child.\<close>

definition child_name :: "bytes \<Rightarrow> bytes \<Rightarrow> bytes option" where
  "child_name lp nm =
     (let llen = strlen_safe lp;
          root = (llen = 1 \<and> chr_at lp 0 = SLASH);
          child = (if root then drop 1 nm else drop (llen + 1) nm)
      in if \<not> name_below nm lp then None
         else if \<not> root \<and> chr_at nm llen \<noteq> SLASH then None
         else if chr_at child 0 = NUL then None
         else if \<not> no_slash child then None
         else Some (cstr child))"

text \<open>One turn of the two loops. The listing so far is \<open>buf\<close>, its length the code's \<^verbatim>\<open>pos\<close>; the
  loops stop at 16380 bytes, and an entry that does not fit into 16384 is left out.\<close>

definition list_dir_step :: "fs \<Rightarrow> bytes \<Rightarrow> bytes \<Rightarrow> nat \<Rightarrow> bytes" where
  "list_dir_step s lp buf i =
     (if length buf \<ge> 16380 \<or> dused s i = 0 then buf
      else case child_name lp (dname s i) of
        None \<Rightarrow> buf
      | Some child \<Rightarrow>
          let clen = strlen_safe child in
          if length buf + clen + 3 \<ge> 16384 then buf
          else buf @ take clen child @ [SLASH, NEWLINE])"

definition list_file_step :: "fs \<Rightarrow> bytes \<Rightarrow> bytes \<Rightarrow> nat \<Rightarrow> bytes" where
  "list_file_step s lp buf i =
     (if length buf \<ge> 16380 \<or> fused s i = 0 then buf
      else case child_name lp (fname s i) of
        None \<Rightarrow> buf
      | Some child \<Rightarrow>
          let clen = strlen_safe child in
          if length buf + clen + 2 \<ge> 16384 then buf
          else buf @ take clen child @ [NEWLINE])"

definition fs_list_directory :: "cptr \<Rightarrow> bool \<Rightarrow> fs \<Rightarrow> int \<times> bytes option \<times> fs" where
  "fs_list_directory path dst s =
     (let s = s\<lparr>fs_errno := 0\<rparr> in
      if \<not> dst then (- 1, None, s)
      else let lp = (if null_or_empty path then take 255 (cstr (cwd s))
                     else abs_path (cwd s) (the path)) in
      if \<not> fs_directory_exists s (Some lp) then (- 1, Some [], s)
      else if (case dir_index s lp of
                 None \<Rightarrow> False
               | Some d \<Rightarrow> \<not> perm_allows s (dmode s d) (downer s d) PERM_R)
        then (- 2, Some [], fs_deny s)
      else let buf = foldl (list_dir_step s lp) [] [1..<MAX_D];
               buf = foldl (list_file_step s lp) buf [0..<MAX_F]
           in (0, Some buf, s))"

definition fs_change_directory :: "cptr \<Rightarrow> fs \<Rightarrow> int \<times> fs" where
  "fs_change_directory path s =
     (let s = s\<lparr>fs_errno := 0\<rparr> in
      if null_or_empty path then (0, s\<lparr>cwd := strcpy_safe (cwd s) ''/'' 256\<rparr>)
      else let full = abs_path (cwd s) (the path) in
      case dir_index s full of
        None \<Rightarrow> (- 1, s)
      | Some i \<Rightarrow>
          if \<not> perm_allows s (dmode s i) (downer s i) PERM_X then (- 2, fs_deny s)
          else (0, s\<lparr>cwd := strcpy_safe (cwd s) full 256\<rparr>))"

definition fs_get_current_path :: "fs \<Rightarrow> bytes" where
  "fs_get_current_path s = take 255 (cstr (cwd s))"

subsection \<open>Deleting a subtree\<close>

text \<open>The next line of a listing: at most 255 characters up to the newline, which is consumed.\<close>

definition next_entry :: "bytes \<Rightarrow> bytes \<times> bytes" where
  "next_entry buf =
     (let entry = take 255 (takeWhile (\<lambda>c. c \<noteq> NEWLINE) buf);
          rest = drop (length entry) buf
      in (entry, if rest \<noteq> [] \<and> hd rest = NEWLINE then tl rest else rest))"

definition child_path :: "bytes \<Rightarrow> bytes \<Rightarrow> bytes" where
  "child_path path entry =
     (let plen = strlen_safe path;
          child = (if strcmp_safe path ''/'' then ''/'' else []);
          child = (if plen > 0 \<and> \<not> (plen = 1 \<and> chr_at path 0 = SLASH)
                   then child @ take (255 - length child) (take plen (cstr path)) else child);
          child = (if length child > 1 \<and> last child \<noteq> SLASH \<and> length child < 255
                   then child @ [SLASH]
                   else if child = [] then [SLASH] else child)
      in child @ take (255 - length child) (cstr entry))"

lemma next_entry_shrinks: "buf \<noteq> [] \<Longrightarrow> length (snd (next_entry buf)) < length buf"
  by (cases buf) (auto simp: next_entry_def Let_def hd_drop_conv_nth)

text \<open>The loop over the listing, for a given way \<open>rec\<close> to delete a subdirectory. \<^const>\<open>None\<close> is a
  recursion that does not return.\<close>

function delete_entries :: "(bytes \<Rightarrow> fs \<Rightarrow> (int \<times> fs) option) \<Rightarrow> bytes \<Rightarrow> bytes \<Rightarrow> fs \<Rightarrow> (int \<times> fs) option" where
  "delete_entries rec path buf s =
     (if buf = [] then Some (0, s)
      else case next_entry buf of (entry, rest) \<Rightarrow>
        if entry = [] then delete_entries rec path rest s
        else let is_dir = (last entry = SLASH);
                 entry = (if is_dir then butlast entry else entry);
                 child = child_path path entry
             in case (if is_dir then rec child s else Some (fs_delete_file (Some child) s)) of
                  None \<Rightarrow> None
                | Some (rc, s) \<Rightarrow> if rc \<noteq> 0 then Some (- 1, s) else delete_entries rec path rest s)"
  by pat_completeness auto
termination
  by (relation "measure (\<lambda>(rec, path, buf, s). length buf)") (auto, (metis next_entry_shrinks snd_conv)+)

declare delete_entries.simps [simp del]

text \<open>The recursion of \<^verbatim>\<open>fs_delete_directory_recursive\<close> is bounded by the first argument: \<^const>\<open>None\<close>
  means that this many nested calls are not enough.\<close>

fun fs_delete_directory_recursive :: "nat \<Rightarrow> cptr \<Rightarrow> fs \<Rightarrow> (int \<times> fs) option" where
  "fs_delete_directory_recursive 0 path s = None"
| "fs_delete_directory_recursive (Suc n) path s =
     (let s = s\<lparr>fs_errno := 0\<rparr> in
      if null_or_empty path then Some (- 1, s)
      else case may_modify_parent s (abs_path (cwd s) (the path)) of
        (False, s) \<Rightarrow> Some (- 2, s)
      | (True, s) \<Rightarrow>
          if \<not> fs_directory_exists s path then Some (- 1, s)
          else let s = s\<lparr>fs_batch_depth := fs_batch_depth s + 1\<rparr> in
          case fs_list_directory path True s of (rc, buf, s) \<Rightarrow>
          if rc \<noteq> 0 then Some (- 1, s\<lparr>fs_batch_depth := fs_batch_depth s - 1\<rparr>)
          else case delete_entries (\<lambda>c. fs_delete_directory_recursive n (Some c))
                      (the path) (the buf) s of
            None \<Rightarrow> None
          | Some (result, s) \<Rightarrow>
              (case (if result = 0
                     then case fs_delete_directory path s of (rc, s) \<Rightarrow> (if rc \<noteq> 0 then - 1 else 0, s)
                     else (result, s)) of
                 (result, s) \<Rightarrow>
                   Some (result, fs_commit_change (s\<lparr>fs_batch_depth := fs_batch_depth s - 1\<rparr>))))"

subsection \<open>Ownership\<close>

definition fs_chmod :: "cptr \<Rightarrow> int \<Rightarrow> fs \<Rightarrow> int \<times> fs" where
  "fs_chmod path mode s =
     (if null_or_empty path then (- 1, s)
      else let mode = mode AND 511; full = abs_path (cwd s) (the path) in
      case file_index s full of
        Some f \<Rightarrow>
          if fs_cur_uid s \<noteq> 0 \<and> fs_cur_uid s \<noteq> fowner s f then (- 1, s)
          else (0, fs_commit_change (s\<lparr>fmode := (fmode s)(f := mode)\<rparr>))
      | None \<Rightarrow>
          (case dir_index s full of
             Some d \<Rightarrow>
               if fs_cur_uid s \<noteq> 0 \<and> fs_cur_uid s \<noteq> downer s d then (- 1, s)
               else (0, fs_commit_change (s\<lparr>dmode := (dmode s)(d := mode)\<rparr>))
           | None \<Rightarrow> (- 1, s)))"

definition fs_chown :: "cptr \<Rightarrow> int \<Rightarrow> fs \<Rightarrow> int \<times> fs" where
  "fs_chown path uid s =
     (if null_or_empty path then (- 1, s)
      else if fs_cur_uid s \<noteq> 0 then (- 1, s)
      else let full = abs_path (cwd s) (the path) in
      case file_index s full of
        Some f \<Rightarrow> (0, fs_commit_change (s\<lparr>fowner := (fowner s)(f := uid)\<rparr>))
      | None \<Rightarrow>
          (case dir_index s full of
             Some d \<Rightarrow> (0, fs_commit_change (s\<lparr>downer := (downer s)(d := uid)\<rparr>))
           | None \<Rightarrow> (- 1, s)))"

definition fs_get_owner :: "fs \<Rightarrow> cptr \<Rightarrow> int" where
  "fs_get_owner s path =
     (if null_or_empty path then - 1
      else let full = abs_path (cwd s) (the path) in
      case file_index s full of
        Some f \<Rightarrow> fowner s f
      | None \<Rightarrow> (case dir_index s full of Some d \<Rightarrow> downer s d | None \<Rightarrow> - 1))"

definition fs_get_mode :: "fs \<Rightarrow> cptr \<Rightarrow> int" where
  "fs_get_mode s path =
     (if null_or_empty path then - 1
      else let full = abs_path (cwd s) (the path) in
      case file_index s full of
        Some f \<Rightarrow> fmode s f
      | None \<Rightarrow> (case dir_index s full of Some d \<Rightarrow> dmode s d | None \<Rightarrow> - 1))"

text \<open>The recursive forms: \<open>sel\<close> picks the slots that change; \<open>count_slots\<close> counts them.\<close>

definition set_slots :: "nat \<Rightarrow> (nat \<Rightarrow> bool) \<Rightarrow> int \<Rightarrow> (nat \<Rightarrow> int) \<Rightarrow> nat \<Rightarrow> int" where
  "set_slots n sel v tab = (\<lambda>i. if i < n \<and> sel i then v else tab i)"

definition count_slots :: "nat \<Rightarrow> (nat \<Rightarrow> bool) \<Rightarrow> int" where
  "count_slots n sel = int (length (filter sel [0..<n]))"

definition fs_chmod_recursive :: "cptr \<Rightarrow> int \<Rightarrow> fs \<Rightarrow> int \<times> fs" where
  "fs_chmod_recursive path mode s =
     (if null_or_empty path then (- 1, s)
      else let mode = mode AND 511; full = abs_path (cwd s) (the path) in
      case fs_chmod (Some full) mode s of (base, s) \<Rightarrow>
      if base \<noteq> 0 then (- 1, s)
      else let fsel = (\<lambda>i. fused s i \<noteq> 0 \<and> path_under (fname s i) full \<and>
                         (fs_cur_uid s = 0 \<or> fs_cur_uid s = fowner s i));
               dsel = (\<lambda>i. dused s i \<noteq> 0 \<and> path_under (dname s i) full \<and>
                         (fs_cur_uid s = 0 \<or> fs_cur_uid s = downer s i))
           in (1 + count_slots MAX_F fsel + count_slots MAX_D dsel,
               fs_commit_change (s\<lparr>fmode := set_slots MAX_F fsel mode (fmode s),
                                   dmode := set_slots MAX_D dsel mode (dmode s)\<rparr>)))"

definition fs_chown_recursive :: "cptr \<Rightarrow> int \<Rightarrow> fs \<Rightarrow> int \<times> fs" where
  "fs_chown_recursive path uid s =
     (if null_or_empty path then (- 1, s)
      else if fs_cur_uid s \<noteq> 0 then (- 1, s)
      else let full = abs_path (cwd s) (the path) in
      case fs_chown (Some full) uid s of (base, s) \<Rightarrow>
      if base \<noteq> 0 then (- 1, s)
      else let fsel = (\<lambda>i. fused s i \<noteq> 0 \<and> path_under (fname s i) full);
               dsel = (\<lambda>i. dused s i \<noteq> 0 \<and> path_under (dname s i) full)
           in (1 + count_slots MAX_F fsel + count_slots MAX_D dsel,
               fs_commit_change (s\<lparr>fowner := set_slots MAX_F fsel uid (fowner s),
                                   downer := set_slots MAX_D dsel uid (downer s)\<rparr>)))"

definition fs_reassign_uid :: "int \<Rightarrow> int \<Rightarrow> fs \<Rightarrow> int \<times> fs" where
  "fs_reassign_uid old_uid new_uid s =
     (let fsel = (\<lambda>i. fused s i \<noteq> 0 \<and> fowner s i = old_uid);
          dsel = (\<lambda>i. dused s i \<noteq> 0 \<and> downer s i = old_uid);
          count = count_slots MAX_F fsel + count_slots MAX_D dsel;
          s = s\<lparr>fowner := set_slots MAX_F fsel new_uid (fowner s),
                downer := set_slots MAX_D dsel new_uid (downer s)\<rparr>
      in (count, if count \<noteq> 0 then fs_commit_change s else s))"

subsection \<open>Home directories and the built-in archive\<close>

text \<open>The path of a standard folder below \<open>base\<close>. The code builds it in a 256-byte buffer without
  checking the length; the model has the string it builds. For \<open>base = ''/''\<close> the code reads the byte
  before the buffer, taken here to be no slash.\<close>

definition home_subdirs :: "bytes list" where
  "home_subdirs = [''Documents'', ''Programs'', ''Projects'', ''Trash'', ''Scripts'']"

definition home_subdir :: "bytes \<Rightarrow> bytes \<Rightarrow> bytes" where
  "home_subdir base sub =
     (let bl = strlen_safe base;
          bl = (if chr_at base (bl - 1) = SLASH then bl - 1 else bl);
          p = take bl base;
          p = (if chr_at base 0 \<noteq> SLASH then SLASH # p else p)
      in p @ (if p = [] \<or> last p \<noteq> SLASH then [SLASH] else []) @ sub)"

definition home_subdir_step :: "bytes \<Rightarrow> int \<Rightarrow> fs \<Rightarrow> bytes \<Rightarrow> fs" where
  "home_subdir_step base uid s sub =
     (let p = Some (home_subdir base sub);
          s = (if \<not> fs_directory_exists s p then snd (fs_create_directory p s) else s)
      in snd (fs_chmod p 448 (snd (fs_chown p uid s))))"

definition fs_create_home_tree :: "bytes \<Rightarrow> int \<Rightarrow> fs \<Rightarrow> int \<times> fs" where
  "fs_create_home_tree base uid s =
     (let saved = fs_cur_uid s;
          s = s\<lparr>fs_cur_uid := 0\<rparr>;
          made = (if \<not> fs_directory_exists s (Some base) then fs_create_directory (Some base) s
                  else (0, s))
      in if fst made \<noteq> 0 then (- 1, (snd made)\<lparr>fs_cur_uid := saved\<rparr>)
         else let s = foldl (home_subdir_step base uid) (snd made) home_subdirs;
                  s = snd (fs_chmod (Some base) 448 (snd (fs_chown (Some base) uid s)))
              in (0, s\<lparr>fs_cur_uid := saved\<rparr>))"

definition tar_octal :: "bytes \<Rightarrow> nat \<Rightarrow> nat" where
  "tar_octal p n =
     foldl (\<lambda>v i. let c = (of_char (chr_at p i) :: nat) in
                  if 48 \<le> c \<and> c \<le> 55 then u32 (u32 (v * 8) + (c - 48)) else v) 0 [0..<n]"

text \<open>\<^verbatim>\<open>home_copy_path\<close>: the loop sees the characters of the entry's name with their position \<open>i\<close>
  (already advanced, as in the code); a leading \<^verbatim>\<open>.\<close> and a slash in second place are skipped.\<close>

fun home_copy_loop :: "nat \<Rightarrow> bytes \<Rightarrow> bytes \<Rightarrow> bytes" where
  "home_copy_loop i [] out = out"
| "home_copy_loop i (c # cs) out =
     (if c = NUL \<or> length out \<ge> 255 then out
      else if i + 1 = 1 \<and> c = CHR ''.'' then home_copy_loop (i + 1) cs out
      else if i + 1 = 2 \<and> c = SLASH then home_copy_loop (i + 1) cs out
      else home_copy_loop (i + 1) cs (out @ [c]))"

definition home_copy_path :: "bytes \<Rightarrow> nat \<Rightarrow> bytes" where
  "home_copy_path nm n =
     (let out = home_copy_loop 0 (take n nm) ''/'' in
      if length out > 1 \<and> last out = SLASH then butlast out else out)"

text \<open>One regular file of the archive; the second component counts the files that did not fit
  (\<^verbatim>\<open>fs_seed_skipped\<close>). The messages to the boot log are not modelled.\<close>

definition seed_file :: "bytes \<Rightarrow> bytes \<Rightarrow> nat \<Rightarrow> fs \<times> nat \<Rightarrow> fs \<times> nat" where
  "seed_file path data sz st =
     (case st of (s, skipped) \<Rightarrow>
      if fs_file_exists s (Some path) then (s, skipped)
      else if sz > MAX_FILE_DATA - 1 then (s, skipped)
      else case fs_create_file (Some path) s of (rc, s) \<Rightarrow>
        if rc \<noteq> 0 then (s, u32 (skipped + 1))
        else case fs_write_file (Some path) (Some data) sz s of (rc, s) \<Rightarrow>
          (if take 4 path = ''/bin'' \<and> (chr_at path 4 = SLASH \<or> chr_at path 4 = NUL)
           then snd (fs_chmod (Some path) 493 s) else s,
           if rc \<noteq> 0 then u32 (skipped + 1) else skipped))"

text \<open>The walk over the archive \<open>tar\<close>, a list of bytes: \<open>drop 512 tar\<close> is the code's \<^verbatim>\<open>p += 512\<close>.\<close>

function seed_walk :: "bytes \<Rightarrow> fs \<times> nat \<Rightarrow> fs \<times> nat" where
  "seed_walk tar st =
     (if length tar < 512 then st
      else if \<forall>c\<in>set (take 512 tar). c = NUL then st
      else let sz = tar_octal (drop 124 tar) 12;
               path = home_copy_path tar 100
           in if chr_at path 1 = NUL then seed_walk (drop 512 tar) st
              else let type = chr_at tar 156;
                       st = (if type = CHR ''5'' then
                               (if fs_directory_exists (fst st) (Some path) then st
                                else (snd (fs_create_directory (Some path) (fst st)), snd st))
                             else if type = CHR ''0'' \<or> type = NUL then
                               seed_file path (drop 512 tar) sz st
                             else st);
                       blocks = u32 (sz + 511) div 512
                   in if 512 + u32 (blocks * 512) > length tar then st
                      else seed_walk (drop (512 + u32 (blocks * 512)) tar) st)"
  by pat_completeness auto
termination
  by (relation "measure (\<lambda>(tar, st). length tar)") auto

declare seed_walk.simps [simp del]

definition fs_seed_home :: "bytes \<Rightarrow> fs \<Rightarrow> nat \<times> fs" where
  "fs_seed_home tar s =
     (case seed_walk tar (s, 0) of (s, skipped) \<Rightarrow>
      let s = (if fs_directory_exists s (Some ''/home'') then s
               else snd (fs_create_directory (Some ''/home'') s))
      in (skipped, snd (fs_create_home_tree ''/root'' 0 s)))"

end
