(* ===== verification/FsInv.thy ===== *)
theory FsInv
  imports FsOps
begin

section \<open>What the filesystem stores, and its invariant\<close>

text \<open>
  The abstraction of the tables: \<open>fs_files\<close> maps a path to the contents, owner and mode of the file
  there, \<open>fs_dirs\<close> a path to the owner and mode of the directory. \<open>fs_ok\<close> is the invariant: name
  buffers are terminated, no path is in use twice, and every file with data owns a live block of the
  pool, its own, with room for the data and the terminating NUL, while every live block belongs to a
  file (nothing leaks).
\<close>

named_theorems fs_frame \<open>fields that an auxiliary step leaves alone\<close>

definition file_bytes :: "'a fstab_scheme \<Rightarrow> nat \<Rightarrow> bytes" where
  "file_bytes s i =
     (case fdata s i of None \<Rightarrow> [] | Some p \<Rightarrow> pool_read p (nat (fsize s i)) (fs_pool s))"

definition fs_files :: "'a fstab_scheme \<Rightarrow> bytes \<rightharpoonup> bytes \<times> int \<times> int" where
  "fs_files s path =
     (if is_cstring path
      then map_option (\<lambda>i. (file_bytes s i, fowner s i, fmode s i)) (file_index s path) else None)"

definition fs_dirs :: "'a fstab_scheme \<Rightarrow> bytes \<rightharpoonup> int \<times> int" where
  "fs_dirs s path =
     (if is_cstring path then map_option (\<lambda>i. (downer s i, dmode s i)) (dir_index s path) else None)"

definition buf_ok :: "bytes \<Rightarrow> bool" where
  "buf_ok b \<longleftrightarrow> length b = 256 \<and> NUL \<in> set b"

definition names_ok :: "'a fstab_scheme \<Rightarrow> bool" where
  "names_ok s \<longleftrightarrow>
     (\<forall>i<MAX_F. buf_ok (fname s i)) \<and> (\<forall>i<MAX_D. buf_ok (dname s i)) \<and> buf_ok (cwd s) \<and>
     (\<forall>i<MAX_F. \<forall>j<MAX_F. fused s i \<noteq> 0 \<longrightarrow> fused s j \<noteq> 0 \<longrightarrow>
        cstr (fname s i) = cstr (fname s j) \<longrightarrow> i = j) \<and>
     (\<forall>i<MAX_D. \<forall>j<MAX_D. dused s i \<noteq> 0 \<longrightarrow> dused s j \<noteq> 0 \<longrightarrow>
        cstr (dname s i) = cstr (dname s j) \<longrightarrow> i = j) \<and>
     (\<forall>i<MAX_F. \<forall>j<MAX_D. fused s i \<noteq> 0 \<longrightarrow> dused s j \<noteq> 0 \<longrightarrow>
        cstr (fname s i) \<noteq> cstr (dname s j))"

definition slot_data_ok :: "'a fstab_scheme \<Rightarrow> nat \<Rightarrow> bool" where
  "slot_data_ok s i \<longleftrightarrow>
     (case fdata s i of
        None \<Rightarrow> fsize s i = 0
      | Some p \<Rightarrow> 0 < fsize s i \<and> fsize s i < int MAX_FILE_DATA \<and> fused s i \<noteq> 0 \<and>
          (\<exists>k. pool_live (fs_pool s) p = Some k \<and> nat (fsize s i) < k))"

definition data_ok :: "'a fstab_scheme \<Rightarrow> bool" where
  "data_ok s \<longleftrightarrow>
     pool_ok (fs_pool s) \<and> (\<forall>i<MAX_F. slot_data_ok s i) \<and>
     (\<forall>i<MAX_F. \<forall>j<MAX_F. \<forall>p. fdata s i = Some p \<longrightarrow> fdata s j = Some p \<longrightarrow> i = j) \<and>
     (\<forall>p k. pool_live (fs_pool s) p = Some k \<longrightarrow> (\<exists>i<MAX_F. fdata s i = Some p))"

definition fs_ok :: "'a fstab_scheme \<Rightarrow> bool" where
  "fs_ok s \<longleftrightarrow> names_ok s \<and> data_ok s"

subsection \<open>Steps that leave the tables alone\<close>

lemma fs_commit_change_frame [simp, fs_frame]:
  "fname (fs_commit_change s) = fname s" "fdata (fs_commit_change s) = fdata s"
  "fsize (fs_commit_change s) = fsize s" "fused (fs_commit_change s) = fused s"
  "fowner (fs_commit_change s) = fowner s" "fmode (fs_commit_change s) = fmode s"
  "dname (fs_commit_change s) = dname s" "dused (fs_commit_change s) = dused s"
  "downer (fs_commit_change s) = downer s" "dmode (fs_commit_change s) = dmode s"
  "cwd (fs_commit_change s) = cwd s" "fs_pool (fs_commit_change s) = fs_pool s"
  "fs_cur_uid (fs_commit_change s) = fs_cur_uid s" "fs_errno (fs_commit_change s) = fs_errno s"
  "fs_batch_depth (fs_commit_change s) = fs_batch_depth s"
  "fs_null_deref (fs_commit_change s) = fs_null_deref s"
  by (simp_all add: fs_commit_change_def store_hook_def)

lemma fs_deny_frame [simp, fs_frame]:
  "fname (fs_deny s) = fname s" "fdata (fs_deny s) = fdata s"
  "fsize (fs_deny s) = fsize s" "fused (fs_deny s) = fused s"
  "fowner (fs_deny s) = fowner s" "fmode (fs_deny s) = fmode s"
  "dname (fs_deny s) = dname s" "dused (fs_deny s) = dused s"
  "downer (fs_deny s) = downer s" "dmode (fs_deny s) = dmode s"
  "cwd (fs_deny s) = cwd s" "fs_pool (fs_deny s) = fs_pool s"
  "fs_cur_uid (fs_deny s) = fs_cur_uid s" "fs_saved (fs_deny s) = fs_saved s"
  "fs_batch_depth (fs_deny s) = fs_batch_depth s" "fs_null_deref (fs_deny s) = fs_null_deref s"
  "fs_errno (fs_deny s) = 13"
  by (simp_all add: fs_deny_def)

text \<open>What the permission check does to the state: at most it records the denial.\<close>

definition parent_writable :: "fs \<Rightarrow> bytes \<Rightarrow> bool" where
  "parent_writable s full \<longleftrightarrow>
     (case fs_dirs s (split_parent full FS_PATH_CAP) of
        None \<Rightarrow> True
      | Some (owner, mode) \<Rightarrow> perm_allows s mode owner PERM_W)"

lemma is_cstring_split_parent [simp]: "is_cstring (split_parent path cap)"
  by (simp add: split_parent_def Let_def)

lemma may_modify_parent_eq:
  "may_modify_parent s full = (parent_writable s full, if parent_writable s full then s else fs_deny s)"
  by (auto simp: may_modify_parent_def parent_writable_def fs_dirs_def split: option.splits)

text \<open>Two states with the same tables satisfy the invariant together and store the same.\<close>

lemma fs_ok_cong:
  assumes "fname s = fname t" "fdata s = fdata t" "fsize s = fsize t" "fused s = fused t"
    "dname s = dname t" "dused s = dused t" "cwd s = cwd t" "fs_pool s = fs_pool t"
  shows "fs_ok s = fs_ok t"
  unfolding fs_ok_def names_ok_def data_ok_def slot_data_ok_def assms by (rule refl)

lemma fs_files_cong:
  assumes "fname s = fname t" "fdata s = fdata t" "fsize s = fsize t" "fused s = fused t"
    "fowner s = fowner t" "fmode s = fmode t" "fs_pool s = fs_pool t"
  shows "fs_files s = fs_files t"
  unfolding fs_files_def file_bytes_def file_index_def assms by (rule refl)

lemma fs_dirs_cong:
  assumes "dname s = dname t" "dused s = dused t" "downer s = downer t" "dmode s = dmode t"
  shows "fs_dirs s = fs_dirs t"
  unfolding fs_dirs_def dir_index_def assms by (rule refl)

subsection \<open>Data in the pool\<close>

lemma pool_live_range:
  assumes "pool_ok P" "pool_live P p = Some k"
  shows "p + k < 4294967296"
proof -
  have "p + k \<le> pool_size P"
    using assms live_in_range [of "fpool_mem P" 0 "pool_blocks P" "pool_size P" p k]
    by (auto simp: pool_ok_def pool_live_def)
  then show ?thesis using unat_u32_less [of "fpool_bytes P"] by linarith
qed

lemma put_run_snoc: "put_run pool_put a (cs @ [c]) P = pool_put (a + length cs) c (put_run pool_put a cs P)"
  by (induction cs arbitrary: a P) auto

text \<open>The copy loop moves the old contents, as the two blocks do not overlap.\<close>

lemma pool_copy_eq:
  assumes "q + n \<le> p \<or> p + n \<le> q"
  shows "pool_copy p q n P = pool_write p (pool_read q n P) P"
proof -
  have "foldl (\<lambda>P j. pool_put (p + j) (fpool_mem P (q + j)) P) P [0..<m] =
      put_run pool_put p (run_of (fpool_mem P) q m) P" if "m \<le> n" for m
    using that
  proof (induction m)
    case (Suc m)
    have "fpool_mem (put_run pool_put p (run_of (fpool_mem P) q m) P) (q + m) = fpool_mem P (q + m)"
      using assms Suc.prems by (auto simp: pool.put_run_get)
    moreover have "run_of (fpool_mem P) q (Suc m) = run_of (fpool_mem P) q m @ [fpool_mem P (q + m)]"
      by (simp add: run_of_def)
    ultimately show ?case using Suc by (simp add: put_run_snoc)
  qed (simp add: run_of_def)
  then show ?thesis by (simp add: pool_copy_def pool_write_def pool_read_def)
qed

lemma fpool_free_None [simp]: "fpool_free None P = P"
  by (simp add: fpool_free_def)

text \<open>Moving a file to a new block: allocate it, copy the old contents and terminate them
  (\<open>pool_fill\<close>), then free the old block (\<open>pool_move\<close>).\<close>

lemma pool_fill:
  assumes ok: "pool_ok P" and al: "fpool_alloc (n + 1) P = (Some p, P1)" and n: "n + 4 < 4294967296"
    and old: "\<And>q. d = Some q \<Longrightarrow> \<exists>kq. pool_live P q = Some kq \<and> c \<le> kq" and c: "c \<le> n"
    and cp: "d = None \<Longrightarrow> c = 0" and b: "b \<or> c = 0"
    and P3: "P3 = pool_put (p + n) NUL
      (case d of None \<Rightarrow> P1 | Some q \<Rightarrow> if b then pool_copy p q c P1 else P1)"
  shows "pool_ok P3" "pool_live P p = None" "\<exists>k>n. pool_live P3 = (pool_live P)(p \<mapsto> k)"
    "d = Some q \<Longrightarrow> pool_read p c P3 = pool_read q c P" "fpool_mem P3 (p + n) = NUL"
    "\<And>r kr m. pool_live P r = Some kr \<Longrightarrow> m \<le> kr \<Longrightarrow> pool_read r m P3 = pool_read r m P"
proof -
  have fits: "pool_fits (n + 1)" using n by (simp add: pool_fits_def)
  note A = pool.alloc_inv [OF ok fits al]
  show "pool_live P p = None" by (rule pool.alloc_fresh [OF ok fits al])
  from pool.alloc_live [OF ok fits al] obtain k where k: "n + 1 \<le> k" and L1: "pool_live P1 = (pool_live P)(p \<mapsto> k)"
    by blast
  define cs where "cs = (case d of None \<Rightarrow> [] | Some q \<Rightarrow> pool_read q c P)"
  have len: "length cs = c" using cp by (auto simp: cs_def pool_read_def split: option.splits)
  define P2 where "P2 = put_run pool_put p cs P1"
  have "(case d of None \<Rightarrow> P1 | Some q \<Rightarrow> if b then pool_copy p q c P1 else P1) = P2"
  proof (cases d)
    case (Some q)
    then obtain kq where q: "pool_live P q = Some kq" "c \<le> kq" using old by blast
    note O = pool.alloc_other [OF ok fits al q]
    have "q + c \<le> p \<or> p + c \<le> q"
      using pool_live_apart [of P1 q kq p k] pool_live_apart [of P1 p k q kq] O(1,2) L1 q k c
      by (cases "q < p") auto
    then have "pool_copy p q c P1 = P2"
      using O(3) Some by (simp add: pool_copy_eq P2_def cs_def pool_write_def pool_read_def)
    moreover have "P2 = P1" if "\<not> b" using that b len by (simp add: P2_def)
    ultimately show ?thesis using Some by auto
  qed (use len in \<open>simp add: P2_def cs_def\<close>)
  then have P3: "P3 = put_run pool_put (p + n) [NUL] P2" using P3 by simp
  have l1: "pool_live P1 p = Some k" using L1 by simp
  have P2: "pool_ok P2" "pool_live P2 = pool_live P1"
    using pool.put_run_ok [OF A l1, of p cs] len c k by (auto simp: P2_def)
  have l2: "pool_live P2 p = Some k" using P2 l1 by simp
  show "pool_ok P3" "\<exists>k>n. pool_live P3 = (pool_live P)(p \<mapsto> k)"
    using pool.put_run_ok [OF P2(1) l2, of "p + n" "[NUL]"] P2(2) L1 k
    by (auto simp: P3 simp del: put_run.simps intro!: exI [of _ k])
  have "pool_read p c P3 = cs"
    using len c unfolding P3 P2_def pool_read_def
    by (intro run_of_eqI) (auto simp: pool.put_run_get simp del: put_run.simps)
  then show "d = Some q \<Longrightarrow> pool_read p c P3 = pool_read q c P" by (simp add: cs_def)
  show "fpool_mem P3 (p + n) = NUL" by (simp add: P3)
  fix r kr m assume r: "pool_live P r = Some kr" "m \<le> kr"
  note O = pool.alloc_other [OF ok fits al r]
  have "run_of (fpool_mem P2) r m = run_of (fpool_mem P1) r m"
    unfolding P2_def using len c k r by (intro pool.put_run_other [OF A l1 _ _ O(1,2)]) auto
  moreover have "run_of (fpool_mem P3) r m = run_of (fpool_mem P2) r m"
    unfolding P3 using k r O P2 by (intro pool.put_run_other [OF P2(1) l2]) auto
  ultimately show "pool_read r m P3 = pool_read r m P" using O by (simp add: pool_read_def)
qed

lemma pool_move:
  assumes "pool_ok P" "fpool_alloc (n + 1) P = (Some p, P1)" "n + 4 < 4294967296"
    and "pool_live P q = Some kq" "c \<le> kq" "c \<le> n" "b \<or> c = 0"
    and P4: "P4 = fpool_free (Some q) (pool_put (p + n) NUL (if b then pool_copy p q c P1 else P1))"
  shows "pool_ok P4" "pool_live P p = None"
    "\<exists>k>n. pool_live P4 = ((pool_live P)(q := None))(p \<mapsto> k)"
    "pool_read p c P4 = pool_read q c P" "fpool_mem P4 (p + n) = NUL"
    "\<And>r kr m. pool_live P r = Some kr \<Longrightarrow> r \<noteq> q \<Longrightarrow> m \<le> kr \<Longrightarrow> pool_read r m P4 = pool_read r m P"
proof -
  define P3 where "P3 = pool_put (p + n) NUL (case Some q of None \<Rightarrow> P1 | Some q \<Rightarrow> if b then pool_copy p q c P1 else P1)"
  have P4: "P4 = fpool_free (Some q) P3" using P4 by (simp add: P3_def)
  have old: "\<exists>k. pool_live P q' = Some k \<and> c \<le> k" if "Some q = Some q'" for q' using assms that by auto
  note F = pool_fill [OF assms(1-3) old assms(6) _ assms(7) P3_def, simplified]
  from F(3) obtain k where k: "n < k" "pool_live P3 = (pool_live P)(p \<mapsto> k)" by blast
  have ne: "p \<noteq> q" using F(2) assms(4) by auto
  then have lq: "pool_live P3 q = Some kq" and lp: "pool_live P3 p = Some k" using k assms(4) by auto
  note R = pool.release_other [OF F(1) lq lp ne]
  show "pool_live P p = None" by (rule F(2))
  show "pool_ok P4" using pool.release_inv [OF F(1) lq] by (simp add: P4)
  show "\<exists>k>n. pool_live P4 = ((pool_live P)(q := None))(p \<mapsto> k)"
    using pool.release_live [OF F(1) lq] k ne by (auto simp: P4 fun_upd_twist intro!: exI [of _ k])
  have "pool_read p c P4 = pool_read p c P3" using R(2) [of c] k assms(6) by (simp add: P4 pool_read_def)
  then show "pool_read p c P4 = pool_read q c P" using F(4) by simp
  have "run_of (fpool_mem P4) p (n + 1) ! n = run_of (fpool_mem P3) p (n + 1) ! n"
    using R(2) [of "n + 1"] k by (simp add: P4)
  then show "fpool_mem P4 (p + n) = NUL" using F(5) by simp
  fix r kr m assume r: "pool_live P r = Some kr" "r \<noteq> q" "m \<le> kr"
  then have "pool_live P3 r = Some kr" using k F(2) by auto
  from pool.release_other(2) [OF F(1) lq this r(2,3)] F(6) [OF r(1,3)]
  show "pool_read r m P4 = pool_read r m P" by (simp add: P4 pool_read_def)
qed

subsection \<open>Resizing a file\<close>

lemma data_okD:
  assumes "data_ok s" "i < MAX_F"
  shows "pool_ok (fs_pool s)" "slot_data_ok s i"
    "\<And>j p. j < MAX_F \<Longrightarrow> fdata s i = Some p \<Longrightarrow> fdata s j = Some p \<Longrightarrow> i = j"
  using assms unfolding data_ok_def by blast+

lemma slot_data_okD:
  assumes "slot_data_ok s i" "fdata s i = Some p"
  shows "0 < fsize s i" "fsize s i < int MAX_FILE_DATA" "fused s i \<noteq> 0"
    "\<exists>k. pool_live (fs_pool s) p = Some k \<and> nat (fsize s i) < k"
  using assms by (auto simp: slot_data_ok_def)

text \<open>The part of a state that data moves change: one slot, and the pool.\<close>

definition set_data :: "nat \<Rightarrow> nat option \<Rightarrow> nat \<Rightarrow> fpool \<Rightarrow> fs \<Rightarrow> fs" where
  "set_data idx d n P s =
     s\<lparr>fs_pool := P, fdata := (fdata s)(idx := d), fsize := (fsize s)(idx := int n)\<rparr>"

lemma set_data_frame [simp, fs_frame]:
  "fname (set_data idx d n P s) = fname s" "fused (set_data idx d n P s) = fused s"
  "fdata (set_data idx d n P s) = (fdata s)(idx := d)" "fsize (set_data idx d n P s) = (fsize s)(idx := int n)"
  "fowner (set_data idx d n P s) = fowner s" "fmode (set_data idx d n P s) = fmode s"
  "dname (set_data idx d n P s) = dname s" "dused (set_data idx d n P s) = dused s"
  "downer (set_data idx d n P s) = downer s" "dmode (set_data idx d n P s) = dmode s"
  "cwd (set_data idx d n P s) = cwd s" "fs_pool (set_data idx d n P s) = P"
  "fs_cur_uid (set_data idx d n P s) = fs_cur_uid s" "fs_errno (set_data idx d n P s) = fs_errno s"
  "fs_batch_depth (set_data idx d n P s) = fs_batch_depth s"
  "fs_null_deref (set_data idx d n P s) = fs_null_deref s" "fs_saved (set_data idx d n P s) = fs_saved s"
  by (simp_all add: set_data_def)

text \<open>The live blocks without the one of slot \<open>idx\<close>.\<close>

definition live_without :: "fs \<Rightarrow> nat \<Rightarrow> nat \<rightharpoonup> nat" where
  "live_without s idx =
     (case fdata s idx of None \<Rightarrow> pool_live (fs_pool s) | Some q \<Rightarrow> (pool_live (fs_pool s))(q := None))"

lemma live_without_other:
  assumes "data_ok s" "idx < MAX_F" "j < MAX_F" "j \<noteq> idx" "fdata s j = Some p"
  shows "live_without s idx p = pool_live (fs_pool s) p"
  using data_okD(3) [OF assms(1,2), of j p] assms(3-5) by (auto simp: live_without_def split: option.splits)

lemma live_without_owner:
  assumes "data_ok s" "idx < MAX_F" "live_without s idx p = Some k"
  shows "\<exists>j<MAX_F. j \<noteq> idx \<and> fdata s j = Some p"
proof -
  have "pool_live (fs_pool s) p = Some k" "fdata s idx \<noteq> Some p"
    using assms(3) by (auto simp: live_without_def split: option.splits if_splits)
  then show ?thesis using assms(1) unfolding data_ok_def by metis
qed

lemma set_data_ok:
  assumes ok: "data_ok s" "idx < MAX_F" and P: "pool_ok P"
    and new: "case d of None \<Rightarrow> n = 0 \<and> pool_live P = live_without s idx
      | Some p \<Rightarrow> pool_live (fs_pool s) p = None \<and> 0 < n \<and> n < MAX_FILE_DATA \<and> fused s idx \<noteq> 0 \<and>
          (\<exists>k>n. pool_live P = (live_without s idx)(p \<mapsto> k))"
  shows "data_ok (set_data idx d n P s)"
proof -
  have fresh: "fdata s j \<noteq> Some p" if "d = Some p" "j < MAX_F" for j p
    using that new data_okD(2) [OF ok(1) that(2)] by (auto dest: slot_data_okD(4))
  have kept: "pool_live P p = pool_live (fs_pool s) p" if "j < MAX_F" "j \<noteq> idx" "fdata s j = Some p" for j p
    using that fresh [of p j] live_without_other [OF ok that] new by (auto split: option.splits)
  have "slot_data_ok (set_data idx d n P s) j" if j: "j < MAX_F" for j
  proof (cases "j = idx")
    case True
    then show ?thesis using new by (auto simp: slot_data_ok_def split: option.splits)
  next
    case False
    then show ?thesis using data_okD(2) [OF ok(1) j] kept [OF j]
      by (auto simp: slot_data_ok_def split: option.splits)
  qed
  moreover have "i = j" if "i < MAX_F" "j < MAX_F" "((fdata s)(idx := d)) i = Some p" "((fdata s)(idx := d)) j = Some p" for i j p
    using that fresh [of p] data_okD(3) [OF ok(1), of i j p] by (auto split: if_splits)
  moreover have "\<exists>i<MAX_F. ((fdata s)(idx := d)) i = Some p" if "pool_live P p = Some k" for p k
  proof (cases "d = Some p")
    case False
    then have "live_without s idx p = Some k" using that new by (auto split: option.splits)
    from live_without_owner [OF ok this] show ?thesis by auto
  qed (use ok in auto)
  ultimately show ?thesis using P unfolding data_ok_def by simp
qed

lemma set_data_other:
  assumes ok: "data_ok s" "idx < MAX_F" "j < MAX_F" "j \<noteq> idx"
    and fr: "\<And>r kr m. pool_live (fs_pool s) r = Some kr \<Longrightarrow> fdata s idx \<noteq> Some r \<Longrightarrow> m \<le> kr \<Longrightarrow>
      pool_read r m P = pool_read r m (fs_pool s)"
  shows "file_bytes (set_data idx d n P s) j = file_bytes s j"
proof (cases "fdata s j")
  case (Some r)
  with data_okD(2) [OF ok(1,3)] obtain k where "pool_live (fs_pool s) r = Some k" "nat (fsize s j) < k"
    by (auto dest: slot_data_okD(4))
  moreover have "fdata s idx \<noteq> Some r" using data_okD(3) [OF ok(1,2)] ok(3,4) Some by metis
  ultimately show ?thesis using Some ok(4) fr by (simp add: file_bytes_def)
qed (use ok in \<open>simp add: file_bytes_def\<close>)

lemma pool_read_take: "m \<le> n \<Longrightarrow> take m (pool_read p n P) = pool_read p m P"
  by (auto simp: pool_read_def run_of_def take_map min_def)

lemma length_file_bytes: "slot_data_ok s i \<Longrightarrow> length (file_bytes s i) = nat (fsize s i)"
  by (auto simp: slot_data_ok_def file_bytes_def pool_read_def split: option.splits)

definition resized :: "fs \<Rightarrow> nat \<Rightarrow> nat \<Rightarrow> fs \<Rightarrow> bool" where
  "resized s idx n s' \<longleftrightarrow>
     (\<exists>d P. s' = set_data idx d n P s \<and> (d = None \<longleftrightarrow> n = 0)) \<and> data_ok s' \<and> n < MAX_FILE_DATA \<and>
     (\<forall>j<MAX_F. j \<noteq> idx \<longrightarrow> file_bytes s' j = file_bytes s j) \<and>
     (\<forall>m\<le>n. m \<le> length (file_bytes s idx) \<longrightarrow> take m (file_bytes s' idx) = take m (file_bytes s idx))"

lemma fdata_resize_fail:
  assumes "fdata_resize idx n s = (rc, s')" "rc \<noteq> 0"
  shows "s' = s"
  using assms by (auto simp: fdata_resize_def Let_def split: if_splits prod.splits option.splits dest!: fpool_alloc_None)

lemma fdata_resize_zero:
  assumes ok: "data_ok s" "idx < MAX_F"
  shows "resized s idx 0 (set_data idx None 0 (fpool_free (fdata s idx) (fs_pool s)) s)"
proof -
  let ?P = "fpool_free (fdata s idx) (fs_pool s)"
  have P: "pool_ok ?P \<and> pool_live ?P = live_without s idx \<and>
    (\<forall>r kr m. pool_live (fs_pool s) r = Some kr \<longrightarrow> fdata s idx \<noteq> Some r \<longrightarrow> m \<le> kr \<longrightarrow>
      pool_read r m ?P = pool_read r m (fs_pool s))"
  proof (cases "fdata s idx")
    case (Some q)
    then obtain k where k: "pool_live (fs_pool s) q = Some k" using data_okD(2) [OF ok] by (auto dest: slot_data_okD(4))
    note F = fpool_free_law [OF data_okD(1) [OF ok] k]
    have "pool_read r m ?P = pool_read r m (fs_pool s)"
      if "pool_live (fs_pool s) r = Some kr" "fdata s idx \<noteq> Some r" "m \<le> kr" for r kr m
      using that pool.release_other(2) [OF data_okD(1) [OF ok] k that(1)] Some by (auto simp: pool_read_def)
    then show ?thesis using F(1,2) Some by (simp add: live_without_def)
  qed (use data_okD(1) [OF ok] in \<open>simp add: live_without_def\<close>)
  then have "data_ok (set_data idx None 0 ?P s)" by (intro set_data_ok ok) auto
  moreover have "\<forall>j<MAX_F. j \<noteq> idx \<longrightarrow> file_bytes (set_data idx None 0 ?P s) j = file_bytes s j"
    using P by (intro allI impI set_data_other ok) auto
  ultimately show ?thesis unfolding resized_def by (auto simp: MAX_FILE_DATA_def)
qed

lemma fdata_resize_move:
  assumes ok: "data_ok s" "idx < MAX_F" and u: "fused s idx \<noteq> 0" and n: "0 < n" "n < MAX_FILE_DATA"
    and al: "fpool_alloc (n + 1) (fs_pool s) = (Some p, P1)"
    and P: "P = fpool_free (fdata s idx) (pool_put (p + n) NUL
      (case fdata s idx of None \<Rightarrow> P1
       | Some q \<Rightarrow> if fsize s idx > 0 then pool_copy p q (min (nat (fsize s idx)) n) P1 else P1))"
  shows "resized s idx n (set_data idx (Some p) n P s)"
proof -
  let ?c = "if fdata s idx = None then 0 else min (nat (fsize s idx)) n"
  have n4: "n + 4 < 4294967296" using n by (simp add: MAX_FILE_DATA_def)
  note pok = data_okD(1) [OF ok]
  have *: "pool_ok P \<and> pool_live (fs_pool s) p = None \<and> (\<exists>k>n. pool_live P = (live_without s idx)(p \<mapsto> k)) \<and>
    (\<forall>q. fdata s idx = Some q \<longrightarrow> pool_read p ?c P = pool_read q ?c (fs_pool s)) \<and>
    (\<forall>r kr m. pool_live (fs_pool s) r = Some kr \<longrightarrow> fdata s idx \<noteq> Some r \<longrightarrow> m \<le> kr \<longrightarrow>
      pool_read r m P = pool_read r m (fs_pool s))"
  proof (cases "fdata s idx")
    case None
    note F = pool_fill [OF pok al n4, of None 0 True, OF _ _ _ _ refl, simplified]
    show ?thesis using F None P by (auto simp: live_without_def)
  next
    case (Some q)
    from slot_data_okD [OF data_okD(2) [OF ok] Some] obtain k
      where q: "pool_live (fs_pool s) q = Some k" "nat (fsize s idx) < k" "0 < fsize s idx" by blast
    note F = pool_move [OF pok al n4 q(1), of ?c True P]
    show ?thesis using F q(2,3) Some P by (auto simp: live_without_def)
  qed
  then have "data_ok (set_data idx (Some p) n P s)" using n u by (intro set_data_ok ok) auto
  moreover have "\<forall>j<MAX_F. j \<noteq> idx \<longrightarrow> file_bytes (set_data idx (Some p) n P s) j = file_bytes s j"
    using * by (intro allI impI set_data_other ok) auto
  moreover have "take m (file_bytes (set_data idx (Some p) n P s) idx) = take m (file_bytes s idx)"
    if "m \<le> n" "m \<le> length (file_bytes s idx)" for m
  proof (cases "fdata s idx")
    case (Some q)
    have m: "m \<le> nat (fsize s idx)" using that(2) length_file_bytes [OF data_okD(2) [OF ok]] by simp
    have "pool_read p ?c P = pool_read q ?c (fs_pool s)" using * Some by blast
    then have "take m (pool_read p ?c P) = take m (pool_read q ?c (fs_pool s))" by simp
    then have "pool_read p m P = pool_read q m (fs_pool s)"
      using m that(1) Some by (simp add: pool_read_take)
    then show ?thesis using Some m that(1) by (simp add: file_bytes_def pool_read_take)
  qed (use that in \<open>simp add: file_bytes_def\<close>)
  ultimately show ?thesis using n unfolding resized_def by blast
qed

lemma fdata_resize_ok:
  assumes "data_ok s" "idx < MAX_F" "fused s idx \<noteq> 0" "fdata_resize idx n s = (0, s')"
  shows "resized s idx n s'"
proof (cases "n = 0")
  case True
  then show ?thesis using assms fdata_resize_zero [OF assms(1,2)]
    by (auto simp: fdata_resize_def set_data_def split: if_splits)
next
  case False
  then have n: "0 < n" "n < MAX_FILE_DATA" "idx < MAX_F"
    using assms(2,4) by (auto simp: fdata_resize_def MAX_FILE_DATA_def split: if_splits)
  with assms(4) obtain p P1 where al: "fpool_alloc (n + 1) (fs_pool s) = (Some p, P1)"
    by (auto simp: fdata_resize_def split: if_splits prod.splits option.splits)
  with assms(4) n show ?thesis
    using fdata_resize_move [OF assms(1-3) n(1,2) al refl]
    by (simp add: fdata_resize_def set_data_def Let_def split: if_splits)
qed

subsection \<open>Storing into a file\<close>

lemma fdata_write_eq:
  assumes "fdata s idx = Some p" "p + off + length cs < 4294967296"
  shows "fdata_write idx off cs s = s\<lparr>fs_pool := pool_write (p + off) cs (fs_pool s)\<rparr>"
  using assms
proof (induction cs arbitrary: off s)
  case (Cons c cs)
  then show ?case by (simp add: fdata_put_def pool_write_def)
qed (simp add: pool_write_def)

lemma fdata_write_frame [simp, fs_frame]:
  "fname (fdata_write idx off cs s) = fname s" "fused (fdata_write idx off cs s) = fused s"
  "fdata (fdata_write idx off cs s) = fdata s" "fsize (fdata_write idx off cs s) = fsize s"
  "fowner (fdata_write idx off cs s) = fowner s" "fmode (fdata_write idx off cs s) = fmode s"
  "dname (fdata_write idx off cs s) = dname s" "dused (fdata_write idx off cs s) = dused s"
  "downer (fdata_write idx off cs s) = downer s" "dmode (fdata_write idx off cs s) = dmode s"
  "cwd (fdata_write idx off cs s) = cwd s" "fs_cur_uid (fdata_write idx off cs s) = fs_cur_uid s"
  "fs_errno (fdata_write idx off cs s) = fs_errno s" "fs_saved (fdata_write idx off cs s) = fs_saved s"
  "fs_batch_depth (fdata_write idx off cs s) = fs_batch_depth s"
  by (induction cs arbitrary: off s; simp add: fdata_put_def split: option.splits)+

lemma nth_overwrite:
  assumes "length b = n" "off + length cs \<le> n + 1"
    and "\<And>i. i < n \<Longrightarrow> b' ! i = (if off \<le> i \<and> i < off + length cs then cs ! (i - off) else b ! i)"
    and "length b' = n"
  shows "b' = take n (take off b @ cs @ drop (off + length cs) b)"
  by (rule nth_equalityI) (use assms in \<open>auto simp: nth_append min_def\<close>)

lemma data_ok_pool:
  assumes "data_ok s" "pool_ok P" "pool_live P = pool_live (fs_pool s)"
  shows "data_ok (s\<lparr>fs_pool := P\<rparr>)"
proof -
  have "slot_data_ok (s\<lparr>fs_pool := P\<rparr>) i = slot_data_ok s i" for i
    using assms(3) by (cases "fdata s i") (simp_all add: slot_data_ok_def)
  then show ?thesis using assms by (simp add: data_ok_def)
qed

lemma fdata_write_ok:
  assumes ok: "data_ok s" "idx < MAX_F" "fdata s idx = Some p"
    and le: "off + length cs \<le> nat (fsize s idx) + 1"
  defines "s' \<equiv> fdata_write idx off cs s"
  shows "data_ok s'" "j < MAX_F \<Longrightarrow> j \<noteq> idx \<Longrightarrow> file_bytes s' j = file_bytes s j"
    "file_bytes s' idx = take (nat (fsize s idx))
       (take off (file_bytes s idx) @ cs @ drop (off + length cs) (file_bytes s idx))"
    "fs_null_deref s' = fs_null_deref s"
proof -
  let ?P = "pool_write (p + off) cs (fs_pool s)"
  note pok = data_okD(1) [OF ok(1,2)]
  from slot_data_okD(4) [OF data_okD(2) [OF ok(1,2)] ok(3)] obtain k
    where k: "pool_live (fs_pool s) p = Some k" "nat (fsize s idx) < k" by blast
  have s': "s' = s\<lparr>fs_pool := ?P\<rparr>"
    unfolding s'_def using pool_live_range [OF pok k(1)] le k(2) by (intro fdata_write_eq ok(3)) auto
  have P: "pool_ok ?P" "pool_live ?P = pool_live (fs_pool s)"
    using pool.put_run_ok [OF pok k(1), of "p + off" cs] le k(2) by (auto simp: pool_write_def)
  show "data_ok s'" unfolding s' by (rule data_ok_pool [OF ok(1) P])
  show "fs_null_deref s' = fs_null_deref s" by (simp add: s')
  show "file_bytes s' j = file_bytes s j" if j: "j < MAX_F" "j \<noteq> idx" for j
  proof (cases "fdata s j")
    case (Some q)
    with data_okD(2) [OF ok(1) j(1)] obtain kq where q: "pool_live (fs_pool s) q = Some kq" "nat (fsize s j) < kq"
      by (auto dest: slot_data_okD(4))
    have "q \<noteq> p" using data_okD(3) [OF ok(1) j(1) ok(2)] Some ok(3) j(2) by blast
    with q show ?thesis
      using pool.put_run_other [OF pok k(1), of "p + off" cs q kq "nat (fsize s j)"] le k(2) Some
      by (simp add: s' file_bytes_def pool_read_def pool_write_def)
  qed (simp add: s' file_bytes_def)
  show "file_bytes s' idx = take (nat (fsize s idx))
       (take off (file_bytes s idx) @ cs @ drop (off + length cs) (file_bytes s idx))"
  proof (rule nth_overwrite [OF length_file_bytes [OF data_okD(2) [OF ok(1,2)]] le])
    fix i assume "i < nat (fsize s idx)"
    then show "file_bytes s' idx ! i = (if off \<le> i \<and> i < off + length cs then cs ! (i - off) else file_bytes s idx ! i)"
      using ok(3) by (simp add: s' file_bytes_def pool_read_def pool_write_def pool.put_run_get)
  qed (use ok(3) in \<open>simp add: s' file_bytes_def pool_read_def\<close>)
qed

subsection \<open>Names and the abstract maps\<close>

text \<open>Two states have the same tables.\<close>

abbreviation tabs :: "'a fstab_scheme \<Rightarrow> fstab" where
  "tabs s \<equiv> fstab.truncate s"

lemma tabs_eq_iff:
  "tabs s = tabs t \<longleftrightarrow>
     fname s = fname t \<and> fdata s = fdata t \<and> fsize s = fsize t \<and> fused s = fused t \<and>
     fowner s = fowner t \<and> fmode s = fmode t \<and> dname s = dname t \<and> dused s = dused t \<and>
     downer s = downer t \<and> dmode s = dmode t \<and> cwd s = cwd t \<and> fs_pool s = fs_pool t"
  by (auto simp: fstab.truncate_def)

lemma tabs_fields [simp]:
  "fname (tabs s) = fname s" "fdata (tabs s) = fdata s" "fsize (tabs s) = fsize s"
  "fused (tabs s) = fused s" "fowner (tabs s) = fowner s" "fmode (tabs s) = fmode s"
  "dname (tabs s) = dname s" "dused (tabs s) = dused s" "downer (tabs s) = downer s"
  "dmode (tabs s) = dmode s" "cwd (tabs s) = cwd s" "fs_pool (tabs s) = fs_pool s"
  by (simp_all add: fstab.truncate_def)

lemma tabs_frame [simp, fs_frame]:
  "tabs (fs_commit_change s) = tabs s" "tabs (fs_deny s) = tabs s"
  "tabs (s\<lparr>fs_errno := e\<rparr>) = tabs s" "tabs (s\<lparr>fs_batch_depth := n\<rparr>) = tabs s"
  "tabs (s\<lparr>fs_cur_uid := u\<rparr>) = tabs s" "tabs (s\<lparr>fs_null_deref := b\<rparr>) = tabs s"
  by (simp_all add: tabs_eq_iff)

lemma tabs_eqD:
  assumes "tabs s = tabs t"
  shows "fs_ok s = fs_ok t" "names_ok s = names_ok t" "data_ok s = data_ok t"
    "fs_files s = fs_files t" "fs_dirs s = fs_dirs t"
    "cwd s = cwd t" "file_index s p = file_index t p" "dir_index s p = dir_index t p"
    "fs_directory_exists s q = fs_directory_exists t q" "fs_file_exists s q = fs_file_exists t q"
    "parent_exists s p = parent_exists t p" "file_bytes s j = file_bytes t j"
proof -
  note e = assms [unfolded tabs_eq_iff]
  show "fs_ok s = fs_ok t" by (rule fs_ok_cong) (simp_all add: e)
  show "fs_files s = fs_files t" by (rule fs_files_cong) (simp_all add: e)
  show "fs_dirs s = fs_dirs t" by (rule fs_dirs_cong) (simp_all add: e)
  show "cwd s = cwd t" by (simp add: e)
  have n: "fname s = fname t" "fused s = fused t" "dname s = dname t" "dused s = dused t" "cwd s = cwd t"
    "fdata s = fdata t" "fsize s = fsize t" "fs_pool s = fs_pool t"
    using e by auto
  show "names_ok s = names_ok t" unfolding names_ok_def n by (rule refl)
  show "data_ok s = data_ok t" unfolding data_ok_def slot_data_ok_def n by (rule refl)
  show "file_index s p = file_index t p" and "dir_index s p = dir_index t p"
    using n by (auto intro: file_index_cong dir_index_cong)
  show "fs_directory_exists s q = fs_directory_exists t q" and "fs_file_exists s q = fs_file_exists t q"
    unfolding fs_directory_exists_def fs_file_exists_def file_index_def dir_index_def n by (rule refl)+
  show "parent_exists s p = parent_exists t p"
    unfolding parent_exists_def fs_directory_exists_def dir_index_def n by (rule refl)
  show "file_bytes s j = file_bytes t j" unfolding file_bytes_def n by (rule refl)
qed

lemma file_index_eq:
  "names_ok s \<Longrightarrow> i < MAX_F \<Longrightarrow> fused s i \<noteq> 0 \<Longrightarrow> cstr (fname s i) = cstr p \<Longrightarrow> file_index s p = Some i"
  unfolding file_index_Some names_ok_def by (metis less_trans nat_neq_iff)

lemma dir_index_eq:
  "names_ok s \<Longrightarrow> i < MAX_D \<Longrightarrow> dused s i \<noteq> 0 \<Longrightarrow> cstr (dname s i) = cstr p \<Longrightarrow> dir_index s p = Some i"
  unfolding dir_index_Some names_ok_def by (metis less_trans nat_neq_iff)

lemma file_index_other:
  assumes "file_index s full = Some idx" "file_index s p = Some i" "cstr p \<noteq> cstr full"
  shows "i \<noteq> idx"
  using assms by (auto simp: file_index_Some)

lemma fs_files_update:
  assumes "fname s' = fname s" "fused s' = fused s" "file_index s full = Some idx" "is_cstring full"
    and "\<And>j. j < MAX_F \<Longrightarrow> j \<noteq> idx \<Longrightarrow>
      file_bytes s' j = file_bytes s j \<and> fowner s' j = fowner s j \<and> fmode s' j = fmode s j"
  shows "fs_files s' = (fs_files s)(full \<mapsto> (file_bytes s' idx, fowner s' idx, fmode s' idx))"
proof
  fix p
  have e: "file_index s' q = file_index s q" for q using assms(1,2) by (intro file_index_cong)
  show "fs_files s' p = ((fs_files s)(full \<mapsto> (file_bytes s' idx, fowner s' idx, fmode s' idx))) p"
  proof (cases "p = full \<or> \<not> is_cstring p \<or> file_index s p = None")
    case True
    then show ?thesis using assms(3,4) by (auto simp: fs_files_def e)
  next
    case False
    then obtain i where i: "file_index s p = Some i" "is_cstring p" "p \<noteq> full" by auto
    moreover have "i < MAX_F" using i(1) by (simp add: file_index_Some)
    moreover have "i \<noteq> idx" using file_index_other [OF assms(3) i(1)] i assms(4) by simp
    ultimately show ?thesis using assms(5) by (simp add: fs_files_def e)
  qed
qed

text \<open>A state whose names and directories are those of another.\<close>

definition same_names :: "fs \<Rightarrow> fs \<Rightarrow> bool" where
  "same_names s s' \<longleftrightarrow>
     fname s' = fname s \<and> fused s' = fused s \<and> fowner s' = fowner s \<and> fmode s' = fmode s \<and>
     dname s' = dname s \<and> dused s' = dused s \<and> downer s' = downer s \<and> dmode s' = dmode s \<and>
     cwd s' = cwd s \<and> fs_cur_uid s' = fs_cur_uid s \<and> fs_batch_depth s' = fs_batch_depth s \<and>
     fs_errno s' = fs_errno s"

lemma same_namesD:
  assumes "same_names s s'"
  shows "names_ok s' = names_ok s" "fs_dirs s' = fs_dirs s" "file_index s' p = file_index s p"
proof -
  note n = assms [unfolded same_names_def]
  have e: "fname s' = fname s" "fused s' = fused s" "dname s' = dname s" "dused s' = dused s" "cwd s' = cwd s"
    using n by auto
  show "names_ok s' = names_ok s" unfolding names_ok_def e by (rule refl)
  show "fs_dirs s' = fs_dirs s" using n by (intro fs_dirs_cong) auto
  show "file_index s' p = file_index s p" using e by (intro file_index_cong)
qed

lemma same_names_write [simp]:
  "same_names s (fdata_write idx off cs s')  \<longleftrightarrow> same_names s s'"
  "same_names s (fs_commit_change s')  \<longleftrightarrow> same_names s s'"
  "same_names s (set_data idx d n P s)" "same_names s s"
  by (simp_all add: same_names_def)

text \<open>Writing the contents of one file: from a state in which the slot has been resized.\<close>

lemma fill_slot:
  assumes r: "resized s idx n s1" and idx: "idx < MAX_F" and sz: "off + length cs = n" "off \<le> length (file_bytes s idx)"
    and s3: "s3 = fdata_put idx n NUL (fdata_write idx off cs s1)"
  shows "data_ok s3" "same_names s s3" "file_bytes s3 idx = take off (file_bytes s idx) @ cs"
    "j < MAX_F \<Longrightarrow> j \<noteq> idx \<Longrightarrow> file_bytes s3 j = file_bytes s j"
    "fs_null_deref s3 = (fs_null_deref s \<or> n = 0)"
proof -
  from r obtain d P where s1: "s1 = set_data idx d n P s" and d: "d = None \<longleftrightarrow> n = 0" and ok: "data_ok s1"
    and oth: "\<And>j. j < MAX_F \<Longrightarrow> j \<noteq> idx \<Longrightarrow> file_bytes s1 j = file_bytes s j"
    and pre: "take off (file_bytes s1 idx) = take off (file_bytes s idx)"
    using sz by (auto simp: resized_def)
  have "data_ok s3 \<and> same_names s s3 \<and> file_bytes s3 idx = take off (file_bytes s idx) @ cs \<and>
    (\<forall>j<MAX_F. j \<noteq> idx \<longrightarrow> file_bytes s3 j = file_bytes s j) \<and> fs_null_deref s3 = (fs_null_deref s \<or> n = 0)"
  proof (cases d)
    case None
    then have "s3 = s1\<lparr>fs_null_deref := True\<rparr>" "n = 0" using d sz s3 s1 by (auto simp: fdata_put_def)
    then have "tabs s3 = tabs s1" "same_names s s3" "fs_null_deref s3" "n = 0" "cs = []" "off = 0"
      using s1 sz by (auto simp: same_names_def)
    then show ?thesis using ok oth None s1 tabs_eqD(3,12) [of s3 s1] by (simp add: file_bytes_def)
  next
    case (Some p)
    let ?s2 = "fdata_write idx off cs s1"
    have f1: "fdata s1 idx = Some p" "nat (fsize s1 idx) = n" using s1 Some by auto
    have len1: "length (file_bytes s1 idx) = n" using length_file_bytes [OF data_okD(2) [OF ok idx]] f1 by simp
    note W = fdata_write_ok [OF ok idx f1(1), of off cs, unfolded f1(2)]
    have f2: "fdata ?s2 idx = Some p" "nat (fsize ?s2 idx) = n" using f1 by auto
    have s3': "s3 = fdata_write idx n [NUL] ?s2" using s3 by simp
    note V = fdata_write_ok [OF W(1) idx f2(1), of n "[NUL]", unfolded f2(2)]
    have "file_bytes ?s2 idx = take off (file_bytes s idx) @ cs" using W(3) sz pre len1 by simp
    moreover have "file_bytes s3 idx = take n (take n (file_bytes ?s2 idx) @ [NUL])"
      using V(3) calculation sz len1 length_file_bytes [OF data_okD(2) [OF W(1) idx]] f2(2)
      by (simp add: s3' del: fdata_write.simps)
    moreover have "length (file_bytes ?s2 idx) = n"
      using length_file_bytes [OF data_okD(2) [OF W(1) idx]] f2(2) sz by simp
    moreover have "fs_null_deref s1 = fs_null_deref s" "n \<noteq> 0" using s1 Some d by auto
    moreover have "same_names s s3" using s1 by (simp add: s3' del: fdata_write.simps)
    ultimately show ?thesis using W V oth sz by (auto simp: s3' simp del: fdata_write.simps)
  qed
  then show "data_ok s3" "same_names s s3" "file_bytes s3 idx = take off (file_bytes s idx) @ cs"
    "j < MAX_F \<Longrightarrow> j \<noteq> idx \<Longrightarrow> file_bytes s3 j = file_bytes s j"
    "fs_null_deref s3 = (fs_null_deref s \<or> n = 0)" by blast+
qed

end
