(* ===== verification/FsLaws.thy ===== *)
theory FsLaws
  imports FsInv
begin

section \<open>What each filesystem operation does to the stored files\<close>

text \<open>
  For every operation that changes the tables: it keeps the invariant, and its effect on the abstract
  maps \<open>fs_files\<close> and \<open>fs_dirs\<close>. The laws are stated for the outcome the code reports: with result 0
  the maps change at one path, with an error the tables stay as they are (\<open>tabs s' = tabs s\<close>), but
  for the rollback of a failed write.
\<close>

lemma null_or_empty_simps [simp]:
  "null_or_empty None" "null_or_empty (Some p) \<longleftrightarrow> cstr p = []"
  by (auto simp: null_or_empty_def chr_at_0_NUL_iff)

lemma parent_writable_errno [simp]: "parent_writable (s\<lparr>fs_errno := e\<rparr>) full = parent_writable s full"
proof -
  have "fs_dirs (s\<lparr>fs_errno := e\<rparr>) = fs_dirs s" by (rule fs_dirs_cong) simp_all
  then show ?thesis by (simp add: parent_writable_def perm_allows_def split: option.splits)
qed

lemmas errno_frame = tabs_eqD [of "s\<lparr>fs_errno := e\<rparr>" s for s e, OF tabs_frame(3)]

subsection \<open>Slots coming into use\<close>

lemma buf_ok_strcpy [simp]: "buf_ok d \<Longrightarrow> buf_ok (strcpy_safe d p 256)"
  by (simp add: buf_ok_def)

lemma buf_ok_cut [simp]: "buf_ok b \<Longrightarrow> buf_ok (b[0 := NUL])"
  by (cases b) (auto simp: buf_ok_def)

lemma cstr_cut [simp]: "buf_ok b \<Longrightarrow> cstr (b[0 := NUL]) = []"
  by (cases b) (auto simp: buf_ok_def)

lemma free_slot_data: "data_ok s \<Longrightarrow> i < MAX_F \<Longrightarrow> fused s i = 0 \<Longrightarrow> fdata s i = None \<and> fsize s i = 0"
  using data_okD(2) [of s i] by (auto simp: slot_data_ok_def split: option.splits)

definition add_file :: "nat \<Rightarrow> bytes \<Rightarrow> int \<Rightarrow> int \<Rightarrow> fs \<Rightarrow> fs" where
  "add_file i full u m s =
     s\<lparr>fname := (fname s)(i := strcpy_safe (fname s i) full FS_PATH_CAP),
       fsize := (fsize s)(i := 0), fdata := (fdata s)(i := None), fused := (fused s)(i := 1),
       fowner := (fowner s)(i := u), fmode := (fmode s)(i := m)\<rparr>"

lemma add_file_frame [simp, fs_frame]:
  "dname (add_file i full u m s) = dname s" "dused (add_file i full u m s) = dused s"
  "downer (add_file i full u m s) = downer s" "dmode (add_file i full u m s) = dmode s"
  "cwd (add_file i full u m s) = cwd s" "fs_pool (add_file i full u m s) = fs_pool s"
  "fs_cur_uid (add_file i full u m s) = fs_cur_uid s" "fs_errno (add_file i full u m s) = fs_errno s"
  "fs_null_deref (add_file i full u m s) = fs_null_deref s"
  "fs_batch_depth (add_file i full u m s) = fs_batch_depth s"
  by (simp_all add: add_file_def)

lemma add_file_data_ok:
  assumes "data_ok s" "i < MAX_F" "fused s i = 0"
  shows "data_ok (add_file i full u m s)" "j < MAX_F \<Longrightarrow> file_bytes (add_file i full u m s) j = file_bytes s j"
proof -
  note f = free_slot_data [OF assms]
  have e: "fdata (add_file i full u m s) = fdata s" "fsize (add_file i full u m s) = fsize s"
    using f by (auto simp: add_file_def)
  have "slot_data_ok (add_file i full u m s) j" if "j < MAX_F" for j
    using data_okD(2) [OF assms(1) that] e by (cases "fdata s j") (auto simp: slot_data_ok_def add_file_def)
  then show "data_ok (add_file i full u m s)" using assms(1) e by (simp add: data_ok_def)
  show "file_bytes (add_file i full u m s) j = file_bytes s j" using e by (cases "fdata s j") (simp_all add: file_bytes_def)
qed

lemma add_file_names_ok:
  assumes "names_ok s" "i < MAX_F" "fused s i = 0" "file_index s full = None" "dir_index s full = None"
    and "is_cstring full" "length full \<le> 255"
  shows "names_ok (add_file i full u m s)"
proof -
  have b: "buf_ok (fname s i)" using assms(1,2) by (simp add: names_ok_def)
  then have c: "cstr (strcpy_safe (fname s i) full 256) = full"
    using assms(6,7) by (simp add: buf_ok_def)
  have f: "\<And>j. j < MAX_F \<Longrightarrow> fused s j \<noteq> 0 \<Longrightarrow> cstr (fname s j) \<noteq> full"
    and d: "\<And>j. j < MAX_D \<Longrightarrow> dused s j \<noteq> 0 \<Longrightarrow> cstr (dname s j) \<noteq> full"
    using assms(4-6) by (auto simp: file_index_None dir_index_None)
  show ?thesis using assms(1) c f d b unfolding names_ok_def
    by (auto simp: add_file_def FS_PATH_CAP_def split: if_splits)
qed

lemma add_file_maps:
  assumes "names_ok s" "data_ok s" "i < MAX_F" "fused s i = 0" "file_index s full = None" "dir_index s full = None"
    and "is_cstring full" "length full \<le> 255"
  shows "fs_files (add_file i full u m s) = (fs_files s)(full \<mapsto> ([], u, m))"
    "fs_dirs (add_file i full u m s) = fs_dirs s"
    "file_index (add_file i full u m s) full = Some i"
proof -
  let ?s = "add_file i full u m s"
  have ok: "names_ok ?s" by (rule add_file_names_ok [OF assms(1,3-8)])
  have c: "cstr (fname ?s i) = full" "fused ?s i \<noteq> 0"
    using assms(1,3,7,8) by (auto simp: names_ok_def buf_ok_def add_file_def FS_PATH_CAP_def)
  show i: "file_index ?s full = Some i" using file_index_eq [OF ok assms(3) c(2), of full] c assms(7) by simp
  have oth: "file_index ?s p = file_index s p" if "is_cstring p" "p \<noteq> full" for p
  proof (cases "file_index s p")
    case None
    then have "file_index ?s p = None" using that c assms(4) by (auto simp: file_index_None add_file_def)
    then show ?thesis using None by simp
  next
    case (Some j)
    then have "j < MAX_F" "fused s j \<noteq> 0" "cstr (fname s j) = p" "j \<noteq> i"
      using that assms(4) by (auto simp: file_index_Some)
    then show ?thesis using Some file_index_eq [OF ok, of j p] that by (simp add: add_file_def)
  qed
  show "fs_dirs ?s = fs_dirs s" by (rule fs_dirs_cong) simp_all
  show "fs_files ?s = (fs_files s)(full \<mapsto> ([], u, m))"
  proof
    fix p show "fs_files ?s p = ((fs_files s)(full \<mapsto> ([], u, m))) p"
    proof (cases "is_cstring p \<and> p \<noteq> full")
      case True
      show ?thesis
      proof (cases "file_index s p")
        case (Some j)
        then have "j < MAX_F" "j \<noteq> i" using assms(4) by (auto simp: file_index_Some)
        then have "fowner ?s j = fowner s j" "fmode ?s j = fmode s j" "file_bytes ?s j = file_bytes s j"
          using add_file_data_ok(2) [OF assms(2-4), of j] by (simp_all add: add_file_def)
        then show ?thesis using True Some oth [of p] by (simp add: fs_files_def)
      qed (use True oth in \<open>simp add: fs_files_def\<close>)
    next
      case False
      have "file_bytes ?s i = []" "fowner ?s i = u" "fmode ?s i = m" by (simp_all add: file_bytes_def add_file_def)
      then have "fs_files ?s full = Some ([], u, m)" using i assms(7) by (simp add: fs_files_def)
      moreover have "p = full \<or> \<not> is_cstring p" "p \<noteq> full \<Longrightarrow> fs_files ?s p = None \<and> fs_files s p = None"
        using False by (auto simp: fs_files_def)
      ultimately show ?thesis by (metis fun_upd_apply)
    qed
  qed
qed
subsection \<open>Creating a file\<close>

text \<open>The precondition under which a new file or directory may appear at \<open>full\<close>.\<close>

definition may_create :: "fs \<Rightarrow> bytes \<Rightarrow> bool" where
  "may_create s path \<longleftrightarrow>
     (let full = abs_path (cwd s) path in
      parent_exists s path \<and> fs_files s full = None \<and> fs_dirs s full = None \<and> parent_writable s full)"

lemma fs_files_None_iff: "is_cstring p \<Longrightarrow> fs_files s p = None \<longleftrightarrow> file_index s p = None"
  by (simp add: fs_files_def)

lemma fs_dirs_None_iff: "is_cstring p \<Longrightarrow> fs_dirs s p = None \<longleftrightarrow> dir_index s p = None"
  by (simp add: fs_dirs_def)

lemma fs_create_file_cases:
  assumes "fs_create_file (Some path) s = (rc, s')"
  obtains (same) "tabs s' = tabs s" "fs_null_deref s' = fs_null_deref s" "fs_cur_uid s' = fs_cur_uid s"
      "rc = 0 \<longrightarrow> file_index s (abs_path (cwd s) path) \<noteq> None"
    | (new) i where "rc = 0" "free_file_slot s = Some i" "may_create s path"
      "s' = fs_commit_change (add_file i (abs_path (cwd s) path) (fs_cur_uid s) 420 (s\<lparr>fs_errno := 0\<rparr>))"
proof -
  let ?full = "abs_path (cwd s) path"
  have fs: "free_file_slot (s\<lparr>fs_errno := 0\<rparr>) = free_file_slot s" by (simp add: free_file_slot_def)
  show ?thesis
  proof (cases "rc = 0 \<and> file_index s ?full = None")
    case True
    with assms have "may_create s path"
      by (auto simp: fs_create_file_def Let_def may_modify_parent_eq errno_frame may_create_def
          fs_files_None_iff fs_dirs_None_iff abs_path_ok split: if_splits option.splits)
    moreover obtain i where "free_file_slot s = Some i"
      "s' = fs_commit_change (add_file i ?full (fs_cur_uid s) 420 (s\<lparr>fs_errno := 0\<rparr>))"
      using assms True
      by (auto simp: fs_create_file_def Let_def may_modify_parent_eq errno_frame fs add_file_def
          split: if_splits option.splits)
    ultimately show ?thesis using new True by blast
  next
    case False
    with assms show ?thesis
      by (intro same) (auto simp: fs_create_file_def Let_def may_modify_parent_eq errno_frame fs
          split: if_splits option.splits)
  qed
qed

lemma fs_create_file_law:
  assumes ok: "fs_ok s" and r: "fs_create_file (Some path) s = (rc, s')"
  defines "full \<equiv> abs_path (cwd s) path"
  shows "fs_ok s'" "fs_dirs s' = fs_dirs s" "cwd s' = cwd s" "fs_cur_uid s' = fs_cur_uid s"
    "fs_null_deref s' = fs_null_deref s" "rc \<noteq> 0 \<or> fs_files s full \<noteq> None \<Longrightarrow> tabs s' = tabs s"
    "rc = 0 \<Longrightarrow> fs_files s full = None \<Longrightarrow>
       may_create s path \<and> fs_files s' = (fs_files s)(full \<mapsto> ([], fs_cur_uid s, 420))"
    "rc = 0 \<Longrightarrow> file_index s' full \<noteq> None"
proof -
  have fl: "is_cstring full" "length full \<le> 255" by (simp_all add: full_def abs_path_ok)
  have "fs_ok s' \<and> fs_dirs s' = fs_dirs s \<and> cwd s' = cwd s \<and> fs_cur_uid s' = fs_cur_uid s \<and>
    fs_null_deref s' = fs_null_deref s \<and> (rc \<noteq> 0 \<or> fs_files s full \<noteq> None \<longrightarrow> tabs s' = tabs s) \<and>
    (rc = 0 \<longrightarrow> fs_files s full = None \<longrightarrow>
       may_create s path \<and> fs_files s' = (fs_files s)(full \<mapsto> ([], fs_cur_uid s, 420))) \<and>
    (rc = 0 \<longrightarrow> file_index s' full \<noteq> None)"
    using r
  proof (cases rule: fs_create_file_cases)
    case same
    note t = tabs_eqD [OF same(1)]
    show ?thesis using ok same t fl by (auto simp: full_def fs_files_None_iff)
  next
    case (new i)
    let ?s = "s\<lparr>fs_errno := 0\<rparr>"
    have i: "i < MAX_F" "fused s i = 0" using free_file_slot_Some [OF new(2)] by auto
    have no: "file_index ?s full = None" "dir_index ?s full = None" "fs_files s full = None"
      using new(3) fl by (auto simp: may_create_def full_def fs_files_None_iff fs_dirs_None_iff errno_frame Let_def)
    have oks: "names_ok ?s" "data_ok ?s" "fused ?s i = 0" using ok i by (auto simp: fs_ok_def errno_frame)
    note N = add_file_names_ok [OF oks(1) i(1) oks(3) no(1,2) fl] add_file_data_ok(1) [OF oks(2) i(1) oks(3)]
    note M = add_file_maps [OF oks(1,2) i(1) oks(3) no(1,2) fl]
    have s': "tabs s' = tabs (add_file i full (fs_cur_uid s) 420 ?s)" "fs_cur_uid s' = fs_cur_uid s"
      "fs_null_deref s' = fs_null_deref s" "cwd s' = cwd s"
      using new(4) by (simp_all add: full_def)
    note t = tabs_eqD [OF s'(1)]
    show ?thesis using N M s' t new no(3) by (auto simp: fs_ok_def errno_frame)
  qed
  then show "fs_ok s'" "fs_dirs s' = fs_dirs s" "cwd s' = cwd s" "fs_cur_uid s' = fs_cur_uid s"
    "fs_null_deref s' = fs_null_deref s" "rc \<noteq> 0 \<or> fs_files s full \<noteq> None \<Longrightarrow> tabs s' = tabs s"
    "rc = 0 \<Longrightarrow> fs_files s full = None \<Longrightarrow>
       may_create s path \<and> fs_files s' = (fs_files s)(full \<mapsto> ([], fs_cur_uid s, 420))"
    "rc = 0 \<Longrightarrow> file_index s' full \<noteq> None" by blast+
qed

subsection \<open>Writing a file\<close>

lemma length_data_bytes [simp]: "length (data_bytes d n) = n"
  by (simp add: data_bytes_def)

lemma data_bytes_full [simp]: "n = length d \<Longrightarrow> data_bytes d n = d"
  by (rule nth_equalityI) (simp_all add: data_bytes_def chr_at_def)

lemma file_index_used: "file_index s p = Some i \<Longrightarrow> i < MAX_F \<and> fused s i \<noteq> 0"
  by (simp add: file_index_Some)

text \<open>What filling the slot of \<open>full\<close> means for the maps.\<close>

lemma filled_maps:
  assumes ok: "fs_ok s" and ix: "file_index s full = Some idx" and full: "is_cstring full"
    and s3: "data_ok s3" "same_names s s3" "\<And>j. j < MAX_F \<Longrightarrow> j \<noteq> idx \<Longrightarrow> file_bytes s3 j = file_bytes s j"
  shows "fs_ok s3" "fs_dirs s3 = fs_dirs s" "cwd s3 = cwd s"
    "fs_files s3 = (fs_files s)(full \<mapsto> (file_bytes s3 idx, fowner s idx, fmode s idx))"
proof -
  note n = s3(2) [unfolded same_names_def]
  show "fs_ok s3" using ok s3(1) same_namesD(1) [OF s3(2)] by (simp add: fs_ok_def)
  show "fs_dirs s3 = fs_dirs s" by (rule same_namesD [OF s3(2)])
  show "cwd s3 = cwd s" using n by simp
  show "fs_files s3 = (fs_files s)(full \<mapsto> (file_bytes s3 idx, fowner s idx, fmode s idx))"
    using fs_files_update [of s3 s full idx] n ix full s3(3) by simp
qed

lemma write_slot_ok:
  assumes ok: "fs_ok s" and ix: "file_index s full = Some idx" and full: "is_cstring full"
    and w: "write_slot idx data n s = (0, s')"
  shows "fs_ok s'" "fs_dirs s' = fs_dirs s" "cwd s' = cwd s"
    "fs_files s' = (fs_files s)(full \<mapsto> (data_bytes data n, fowner s idx, fmode s idx))"
    "fs_null_deref s' = (fs_null_deref s \<or> n = 0)" "n < MAX_FILE_DATA" "fs_cur_uid s' = fs_cur_uid s"
proof -
  have dok: "data_ok s" and i: "idx < MAX_F" "fused s idx \<noteq> 0"
    using ok file_index_used [OF ix] by (auto simp: fs_ok_def)
  from w obtain s1 where r: "fdata_resize idx n s = (0, s1)"
    and s': "s' = fs_commit_change (fdata_put idx n NUL (fdata_write idx 0 (data_bytes data n) s1))"
    by (auto simp: write_slot_def split: if_splits prod.splits)
  define s3 where "s3 = fdata_put idx n NUL (fdata_write idx 0 (data_bytes data n) s1)"
  note R = fdata_resize_ok [OF dok i r]
  have F: "data_ok s3" "same_names s s3" "file_bytes s3 idx = data_bytes data n"
    "\<And>j. j < MAX_F \<Longrightarrow> j \<noteq> idx \<Longrightarrow> file_bytes s3 j = file_bytes s j"
    "fs_null_deref s3 = (fs_null_deref s \<or> n = 0)"
    using fill_slot [OF R i(1), of 0 "data_bytes data n" s3] s3_def by auto
  note M = filled_maps [OF ok ix full F(1,2,4)]
  have t: "tabs s' = tabs s3" "fs_null_deref s' = fs_null_deref s3" "fs_cur_uid s' = fs_cur_uid s3"
    using s' by (simp_all add: s3_def)
  show "fs_ok s'" "fs_dirs s' = fs_dirs s" "cwd s' = cwd s"
    "fs_files s' = (fs_files s)(full \<mapsto> (data_bytes data n, fowner s idx, fmode s idx))"
    "fs_null_deref s' = (fs_null_deref s \<or> n = 0)"
    using M F t tabs_eqD [OF t(1)] by auto
  show "n < MAX_FILE_DATA" using R by (simp add: resized_def)
  show "fs_cur_uid s' = fs_cur_uid s" using t(3) F(2) by (simp add: same_names_def)
qed

lemma write_slot_names:
  assumes ok: "fs_ok s" and ix: "file_index s full = Some idx" and full: "is_cstring full"
    and w: "write_slot idx data n s = (0, s')"
  shows "same_names s s'"
proof -
  have dok: "data_ok s" and i: "idx < MAX_F" "fused s idx \<noteq> 0"
    using ok file_index_used [OF ix] by (auto simp: fs_ok_def)
  from w obtain s1 where r: "fdata_resize idx n s = (0, s1)"
    and s': "s' = fs_commit_change (fdata_put idx n NUL (fdata_write idx 0 (data_bytes data n) s1))"
    by (auto simp: write_slot_def split: if_splits prod.splits)
  note R = fdata_resize_ok [OF dok i r]
  show ?thesis using fill_slot(2) [OF R i(1), of 0 "data_bytes data n"] s' by simp
qed

text \<open>Releasing a slot: the entry disappears from the map.\<close>

definition drop_file :: "nat \<Rightarrow> fs \<Rightarrow> fs" where
  "drop_file i s =
     s\<lparr>fused := (fused s)(i := 0), fname := (fname s)(i := (fname s i)[0 := NUL]),
       fs_pool := fpool_free (fdata s i) (fs_pool s), fdata := (fdata s)(i := None),
       fsize := (fsize s)(i := 0)\<rparr>"

lemma drop_file_ok:
  assumes ok: "fs_ok s" and ix: "file_index s full = Some i" and full: "is_cstring full"
  shows "fs_ok (drop_file i s)" "fs_dirs (drop_file i s) = fs_dirs s" "cwd (drop_file i s) = cwd s"
    "fs_files (drop_file i s) = (fs_files s)(full := None)"
proof -
  let ?s = "drop_file i s" and ?r = "set_data i None 0 (fpool_free (fdata s i) (fs_pool s)) s"
  have dok: "data_ok s" and nok: "names_ok s" and i: "i < MAX_F" "fused s i \<noteq> 0"
    using ok file_index_used [OF ix] by (auto simp: fs_ok_def)
  have R: "data_ok ?r" "\<And>j. j < MAX_F \<Longrightarrow> j \<noteq> i \<Longrightarrow> file_bytes ?r j = file_bytes s j"
    using fdata_resize_zero [OF dok i(1)] by (auto simp: resized_def)
  have e: "fdata ?s = fdata ?r" "fsize ?s = fsize ?r" "fs_pool ?s = fs_pool ?r" "cwd ?s = cwd s"
    by (simp_all add: drop_file_def)
  have "slot_data_ok ?s j" if "j < MAX_F" for j
    using data_okD(2) [OF R(1) that] by (cases "fdata s j") (auto simp: slot_data_ok_def drop_file_def split: if_splits)
  then have "data_ok ?s" using R(1) by (auto simp: data_ok_def e)
  moreover have "names_ok ?s" using nok i unfolding names_ok_def by (auto simp: drop_file_def)
  ultimately show "fs_ok ?s" by (simp add: fs_ok_def)
  show "cwd ?s = cwd s" by (simp add: e)
  show "fs_dirs ?s = fs_dirs s" by (rule fs_dirs_cong) (simp_all add: drop_file_def)
  have bytes: "file_bytes ?s j = file_bytes s j" if "j < MAX_F" "j \<noteq> i" for j
    using R(2) [OF that] that by (cases "fdata s j") (simp_all add: file_bytes_def e)
  show "fs_files ?s = (fs_files s)(full := None)"
  proof
    fix p
    have own: "fowner ?s = fowner s" "fmode ?s = fmode s" by (simp_all add: drop_file_def)
    show "fs_files ?s p = ((fs_files s)(full := None)) p"
    proof (cases "is_cstring p \<and> file_index s p \<noteq> None \<and> p \<noteq> full")
      case True
      then obtain j where j: "file_index s p = Some j" by auto
      then have "j < MAX_F" "fused s j \<noteq> 0" "cstr (fname s j) = p" "j \<noteq> i"
        using True file_index_other [OF ix j] full by (auto simp: file_index_Some)
      moreover have "file_index ?s p = Some j"
        using calculation True \<open>names_ok ?s\<close> by (intro file_index_eq) (auto simp: drop_file_def)
      ultimately show ?thesis using True j bytes own by (simp add: fs_files_def)
    next
      case False
      have "file_index ?s p = None" if "is_cstring p"
        using False that ix full nok i
        by (auto simp: file_index_None drop_file_def file_index_Some names_ok_def)
      then show ?thesis using False by (auto simp: fs_files_def)
    qed
  qed
qed

lemma write_rollback_cases:
  assumes ok: "fs_ok s" and ix: "file_index s full = Some idx" and full: "is_cstring full"
  obtains "fs_files s full \<noteq> Some ([], fowner s idx, fmode s idx)" "write_rollback idx s = s"
    | "fs_files s full = Some ([], fowner s idx, fmode s idx)" "write_rollback idx s = drop_file idx s"
proof (cases "fdata s idx")
  case None
  have "fsize s idx = 0" using ok None file_index_used [OF ix] data_okD(2) [of s idx]
    by (auto simp: fs_ok_def slot_data_ok_def)
  moreover have "(fdata s)(idx := None) = fdata s" using None by auto
  ultimately have "write_rollback idx s = drop_file idx s"
    using None by (intro fs.equality) (simp_all add: write_rollback_def drop_file_def)
  moreover have "fs_files s full = Some ([], fowner s idx, fmode s idx)"
    using None ix full by (simp add: fs_files_def file_bytes_def)
  ultimately show ?thesis using that(2) by blast
next
  case (Some p)
  have so: "slot_data_ok s idx" using ok file_index_used [OF ix] data_okD(2) [of s idx] by (auto simp: fs_ok_def)
  have "write_rollback idx s = s" using Some by (simp add: write_rollback_def)
  moreover have "file_bytes s idx \<noteq> []"
    using length_file_bytes [OF so] slot_data_okD(1) [OF so Some] by auto
  then have "fs_files s full \<noteq> Some ([], fowner s idx, fmode s idx)"
    using ix full by (simp add: fs_files_def)
  ultimately show ?thesis using that(1) by blast
qed

lemma drop_file_frame [simp, fs_frame]:
  "fs_null_deref (drop_file i s) = fs_null_deref s" "fs_cur_uid (drop_file i s) = fs_cur_uid s"
  "fs_batch_depth (drop_file i s) = fs_batch_depth s"
  by (simp_all add: drop_file_def)

lemma write_slot_fail:
  assumes ok: "fs_ok s" and ix: "file_index s full = Some idx" and full: "is_cstring full"
    and w: "write_slot idx data n s = (rc, s')" "rc \<noteq> 0"
  shows "fs_ok s'" "fs_dirs s' = fs_dirs s" "cwd s' = cwd s" "fs_null_deref s' = fs_null_deref s"
    "fs_files s' = fs_files s \<or>
     (fs_files s full = Some ([], fowner s idx, fmode s idx) \<and> fs_files s' = (fs_files s)(full := None))"
    "fs_cur_uid s' = fs_cur_uid s"
proof -
  have "s' = write_rollback idx s"
    using w by (auto simp: write_slot_def split: if_splits prod.splits dest!: fdata_resize_fail)
  then show "fs_ok s'" "fs_dirs s' = fs_dirs s" "cwd s' = cwd s" "fs_null_deref s' = fs_null_deref s"
    "fs_files s' = fs_files s \<or>
     (fs_files s full = Some ([], fowner s idx, fmode s idx) \<and> fs_files s' = (fs_files s)(full := None))"
    "fs_cur_uid s' = fs_cur_uid s"
    using ok write_rollback_cases [OF ok ix full] drop_file_ok [OF ok ix full] drop_file_frame by metis+
qed

text \<open>The whole of \<^verbatim>\<open>fs_write_file\<close>. \<open>write_meta\<close> is the owner and mode the file has afterwards: its
  own, or the caller and 0644 for a new file.\<close>

definition write_meta :: "fs \<Rightarrow> bytes \<Rightarrow> int \<times> int" where
  "write_meta s full = (case fs_files s full of Some (_, u, m) \<Rightarrow> (u, m) | None \<Rightarrow> (fs_cur_uid s, 420))"

definition may_write :: "fs \<Rightarrow> bytes \<Rightarrow> bool" where
  "may_write s path \<longleftrightarrow>
     (case fs_files s (abs_path (cwd s) path) of
        Some (_, u, m) \<Rightarrow> perm_allows s m u PERM_W
      | None \<Rightarrow> may_create s path)"

lemma perm_allows_errno [simp]: "perm_allows (s\<lparr>fs_errno := e\<rparr>) m u b = perm_allows s m u b"
  by (simp add: perm_allows_def)

lemma may_create_errno [simp]: "may_create (s\<lparr>fs_errno := e\<rparr>) path = may_create s path"
  by (simp add: may_create_def errno_frame)

lemma may_write_errno [simp]: "may_write (s\<lparr>fs_errno := e\<rparr>) path = may_write s path"
  by (simp add: may_write_def errno_frame split: option.splits)

lemma fs_files_index:
  assumes "file_index s p = Some i" "is_cstring p"
  shows "fs_files s p = Some (file_bytes s i, fowner s i, fmode s i)"
  using assms by (simp add: fs_files_def)

lemma fs_files_Some_iff:
  "fs_files s p = Some x \<longleftrightarrow>
     is_cstring p \<and> (\<exists>i. file_index s p = Some i \<and> x = (file_bytes s i, fowner s i, fmode s i))"
  by (auto simp: fs_files_def)

lemma fs_write_file_cases:
  assumes "fs_write_file (Some path) (Some data) n s = (rc, s')"
  defines "full \<equiv> abs_path (cwd s) path"
  obtains (deny) "rc \<noteq> 0" "tabs s' = tabs s" "fs_null_deref s' = fs_null_deref s" "fs_cur_uid s' = fs_cur_uid s"
    | (existing) idx s1 where "file_index s full = Some idx" "s1 = s\<lparr>fs_errno := 0\<rparr>" "may_write s path"
        "write_slot idx data n s1 = (rc, s')"
    | (create) idx s1 where "file_index s full = None"
        "fs_create_file (Some path) (s\<lparr>fs_errno := 0\<rparr>) = (0, s1)" "file_index s1 full = Some idx"
        "write_slot idx data n s1 = (rc, s')"
    | (nocreate) "rc \<noteq> 0" "fs_create_file (Some path) (s\<lparr>fs_errno := 0\<rparr>) = (0, s')" "file_index s full = None"
        "file_index s' full = None"
    | (failcreate) rc' where "rc \<noteq> 0" "fs_create_file (Some path) (s\<lparr>fs_errno := 0\<rparr>) = (rc', s')" "rc' \<noteq> 0"
proof (cases "file_index s full")
  case None
  obtain rc' s1 where c: "fs_create_file (Some path) (s\<lparr>fs_errno := 0\<rparr>) = (rc', s1)" by fastforce
  show ?thesis
  proof (cases "rc' = 0")
    case True
    then show ?thesis using assms(1) None c create nocreate
      by (auto simp: fs_write_file_def full_def errno_frame split: option.splits)
  next
    case False
    then show ?thesis using assms(1) None c failcreate
      by (auto simp: fs_write_file_def full_def errno_frame split: option.splits)
  qed
next
  case (Some idx)
  show ?thesis
  proof (cases "perm_allows s (fmode s idx) (fowner s idx) PERM_W")
    case True
    then have "may_write s path" using Some by (simp add: may_write_def full_def [symmetric])
      (simp add: full_def fs_files_index abs_path_ok)
    then show ?thesis using assms(1) Some True existing
      by (auto simp: fs_write_file_def full_def errno_frame)
  next
    case False
    then show ?thesis using assms(1) Some deny
      by (auto simp: fs_write_file_def full_def errno_frame)
  qed
qed

lemma fs_write_file_ok:
  assumes ok: "fs_ok s" and r: "fs_write_file (Some path) (Some data) n s = (0, s')"
  defines "full \<equiv> abs_path (cwd s) path"
  shows "fs_ok s' \<and> fs_dirs s' = fs_dirs s \<and> cwd s' = cwd s \<and> fs_cur_uid s' = fs_cur_uid s \<and>
    fs_null_deref s' = (fs_null_deref s \<or> n = 0) \<and> may_write s path \<and> n < MAX_FILE_DATA \<and>
    fs_files s' = (fs_files s)(full \<mapsto> (data_bytes data n, write_meta s full))"
  using r
proof (cases rule: fs_write_file_cases)
  case (existing idx s1)
  have full: "is_cstring full" "file_index s full = Some idx" using existing by (auto simp: full_def abs_path_ok)
  have s1: "fs_ok s1" "file_index s1 full = Some idx" using ok full existing(2) by (auto simp: errno_frame)
  note W = write_slot_ok [OF s1 full(1) existing(4)]
  have "write_meta s full = (fowner s idx, fmode s idx)"
    using fs_files_index [OF full(2,1)] by (simp add: write_meta_def)
  then show ?thesis using W existing(2,3) by (simp add: errno_frame)
next
  case (create idx s1)
  have full: "is_cstring full" "fs_files s full = None"
    using create(1) by (auto simp: full_def abs_path_ok fs_files_None_iff)
  note C = fs_create_file_law [OF _ create(2), simplified errno_frame, simplified, folded full_def, OF ok]
  have f1: "fs_files s1 = (fs_files s)(full \<mapsto> ([], fs_cur_uid s, 420))" "may_create s path" using C(7) full by auto
  note W = write_slot_ok [OF C(1) create(3) [folded full_def] full(1) create(4)]
  have "fs_files s1 full = Some (file_bytes s1 idx, fowner s1 idx, fmode s1 idx)"
    by (rule fs_files_index [OF create(3) [folded full_def] full(1)])
  then have "fowner s1 idx = fs_cur_uid s" "fmode s1 idx = 420" using f1 by auto
  then show ?thesis using W C f1 full by (auto simp: write_meta_def may_write_def full_def [symmetric])
qed (use assms in auto)

lemma fs_write_file_fail:
  assumes ok: "fs_ok s" and r: "fs_write_file (Some path) (Some data) n s = (rc, s')" "rc \<noteq> 0"
  defines "full \<equiv> abs_path (cwd s) path"
  shows "fs_ok s' \<and> fs_dirs s' = fs_dirs s \<and> cwd s' = cwd s \<and> fs_cur_uid s' = fs_cur_uid s \<and>
    fs_null_deref s' = fs_null_deref s \<and>
    (fs_files s' = fs_files s \<or> may_write s path \<and> (\<exists>u m. fs_files s full = Some ([], u, m)) \<and> fs_files s' = (fs_files s)(full := None))"
  using r(1)
proof (cases rule: fs_write_file_cases)
  case deny
  then show ?thesis using ok tabs_eqD [OF deny(2)] by auto
next
  case (existing idx s1)
  have full: "is_cstring full" "file_index s full = Some idx" using existing by (auto simp: full_def abs_path_ok)
  have s1: "fs_ok s1" "file_index s1 full = Some idx" using ok full existing(2) by (auto simp: errno_frame)
  show ?thesis using write_slot_fail [OF s1 full(1) existing(4) r(2)] existing(2,3) by (auto simp: errno_frame)
next
  case (create idx s1)
  have full: "is_cstring full" "fs_files s full = None"
    using create(1) by (auto simp: full_def abs_path_ok fs_files_None_iff)
  note C = fs_create_file_law [OF _ create(2), simplified errno_frame, simplified, folded full_def, OF ok]
  have f1: "fs_files s1 = (fs_files s)(full \<mapsto> ([], fs_cur_uid s, 420))" "may_create s path" using C(7) full by auto
  note W = write_slot_fail [OF C(1) create(3) [folded full_def] full(1) create(4) r(2)]
  have "s' = write_rollback idx s1"
    using create(4) r(2) by (auto simp: write_slot_def split: if_splits prod.splits dest!: fdata_resize_fail)
  moreover have "fs_files s1 full = Some ([], fowner s1 idx, fmode s1 idx)"
    using fs_files_index [OF create(3) [folded full_def] full(1)] f1 by auto
  ultimately have "fs_files s' = (fs_files s1)(full := None)"
    using write_rollback_cases [OF C(1) create(3) [folded full_def] full(1)]
      drop_file_ok(4) [OF C(1) create(3) [folded full_def] full(1)] by metis
  then have "fs_files s' = fs_files s" using f1(1) full(2) by auto
  then show ?thesis using W C by auto
next
  case nocreate
  note C = fs_create_file_law(8) [OF _ nocreate(2), simplified errno_frame, simplified, OF ok]
  then show ?thesis using nocreate by (simp add: full_def)
next
  case (failcreate rc')
  note C = fs_create_file_law [OF _ failcreate(2), simplified errno_frame, simplified, folded full_def, OF ok]
  then show ?thesis using ok failcreate(3) tabs_eqD [of s' s] by auto
qed

subsection \<open>Deleting a file\<close>

lemma fs_delete_file_ok:
  assumes ok: "fs_ok s" and r: "fs_delete_file (Some path) s = (0, s')"
  defines "full \<equiv> abs_path (cwd s) path"
  shows "fs_ok s' \<and> fs_dirs s' = fs_dirs s \<and> cwd s' = cwd s \<and> fs_cur_uid s' = fs_cur_uid s \<and>
    fs_null_deref s' = fs_null_deref s \<and> fs_batch_depth s' = fs_batch_depth s \<and>
    parent_writable s full \<and> fs_files s full \<noteq> None \<and> fs_files s' = (fs_files s)(full := None)"
proof -
  let ?s = "s\<lparr>fs_errno := 0\<rparr>"
  have full: "is_cstring full" by (simp add: full_def abs_path_ok)
  from r obtain i where i: "file_index s full = Some i" "parent_writable s full"
    and s': "s' = fs_commit_change (drop_file i ?s)"
    by (auto simp: fs_delete_file_def Let_def full_def may_modify_parent_eq errno_frame drop_file_def
        split: if_splits option.splits)
  have s: "fs_ok ?s" "file_index ?s full = Some i" using ok i by (simp_all add: errno_frame)
  have t: "tabs s' = tabs (drop_file i ?s)" "fs_cur_uid s' = fs_cur_uid s" "fs_null_deref s' = fs_null_deref s"
    "fs_batch_depth s' = fs_batch_depth s"
    using s' by simp_all
  show ?thesis
    using drop_file_ok [OF s full] tabs_eqD [OF t(1)] t(2-) i fs_files_index [OF i(1) full]
    by (simp add: errno_frame)
qed

lemma fs_delete_file_fail:
  assumes "fs_delete_file path s = (rc, s')" "rc \<noteq> 0"
  shows "tabs s' = tabs s \<and> fs_cur_uid s' = fs_cur_uid s \<and> fs_null_deref s' = fs_null_deref s \<and>
    fs_batch_depth s' = fs_batch_depth s"
  using assms by (auto simp: fs_delete_file_def may_modify_parent_eq Let_def split: if_splits option.splits)

subsection \<open>Appending\<close>

lemma append_slot_ok:
  assumes ok: "fs_ok s" and ix: "file_index s full = Some idx" and full: "is_cstring full"
    and old: "old = length (file_bytes s idx)" and len: "0 < len" "len < 4294967296 - MAX_FILE_DATA"
    and w: "append_slot idx old data len s = (0, s')"
  shows "fs_ok s'" "fs_dirs s' = fs_dirs s" "cwd s' = cwd s"
    "fs_files s' = (fs_files s)(full \<mapsto> (file_bytes s idx @ data_bytes data len, fowner s idx, fmode s idx))"
    "fs_null_deref s' = fs_null_deref s" "fs_cur_uid s' = fs_cur_uid s"
proof -
  have dok: "data_ok s" and i: "idx < MAX_F" "fused s idx \<noteq> 0"
    using ok file_index_used [OF ix] by (auto simp: fs_ok_def)
  have "old \<le> MAX_FILE_DATA"
    using old length_file_bytes [OF data_okD(2) [OF dok i(1)]] data_okD(2) [OF dok i(1)]
    by (auto simp: slot_data_ok_def split: option.splits)
  then have u: "u32 (old + len) = old + len" using len by (simp add: MAX_FILE_DATA_def)
  from w obtain s1 where r: "fdata_resize idx (old + len) s = (0, s1)"
    and s': "s' = fdata_put idx (old + len) NUL (fdata_write idx old (data_bytes data len) s1)"
    by (auto simp: append_slot_def u split: if_splits prod.splits)
  note R = fdata_resize_ok [OF dok i r]
  have F: "data_ok s'" "same_names s s'" "file_bytes s' idx = file_bytes s idx @ data_bytes data len"
    "\<And>j. j < MAX_F \<Longrightarrow> j \<noteq> idx \<Longrightarrow> file_bytes s' j = file_bytes s j"
    "fs_null_deref s' = fs_null_deref s"
    using fill_slot [OF R i(1) _ _ s'] old len by auto
  show "fs_ok s'" "fs_dirs s' = fs_dirs s" "cwd s' = cwd s"
    "fs_files s' = (fs_files s)(full \<mapsto> (file_bytes s idx @ data_bytes data len, fowner s idx, fmode s idx))"
    "fs_null_deref s' = fs_null_deref s" "fs_cur_uid s' = fs_cur_uid s"
    using filled_maps [OF ok ix full F(1,2,4)] F by (auto simp: same_names_def)
qed

lemma append_slot_fail: "append_slot idx old data len s = (rc, s') \<Longrightarrow> rc \<noteq> 0 \<Longrightarrow> s' = s"
  by (auto simp: append_slot_def split: if_splits prod.splits dest!: fdata_resize_fail)

definition old_bytes :: "fs \<Rightarrow> bytes \<Rightarrow> bytes" where
  "old_bytes s full = (case fs_files s full of None \<Rightarrow> [] | Some (b, _) \<Rightarrow> b)"

lemma fs_append_file_ok:
  assumes ok: "fs_ok s" and len: "len < 4294967296 - MAX_FILE_DATA"
    and r: "fs_append_file (Some path) (Some data) len s = (0, s')"
  defines "full \<equiv> abs_path (cwd s) path"
  shows "fs_ok s' \<and> fs_dirs s' = fs_dirs s \<and> cwd s' = cwd s \<and> fs_cur_uid s' = fs_cur_uid s \<and>
    fs_null_deref s' = fs_null_deref s \<and> may_write s path \<and>
    fs_files s' = (fs_files s)(full \<mapsto> (old_bytes s full @ data_bytes data len, write_meta s full))"
proof -
  let ?s = "s\<lparr>fs_errno := 0\<rparr>"
  have full: "is_cstring full" by (simp add: full_def abs_path_ok)
  have len0: "0 < len" using r by (auto simp: fs_append_file_def Let_def split: if_splits)
  show ?thesis
  proof (cases "file_index s full")
    case (Some idx)
    have i: "idx < MAX_F" using file_index_used [OF Some] by simp
    have p: "perm_allows s (fmode s idx) (fowner s idx) PERM_W"
      and w: "append_slot idx (nat (fsize s idx)) data len ?s = (0, s')"
      using r Some by (auto simp: fs_append_file_def full_def errno_frame Let_def split: if_splits)
    have sz: "nat (fsize s idx) = length (file_bytes ?s idx)"
      using length_file_bytes [OF data_okD(2) [of s idx]] ok i by (simp add: fs_ok_def errno_frame)
    have s: "fs_ok ?s" "file_index ?s full = Some idx" using ok Some by (simp_all add: errno_frame)
    note W = append_slot_ok [OF s full sz len0 len w]
    show ?thesis using W p fs_files_index [OF Some full]
      by (simp add: errno_frame old_bytes_def write_meta_def may_write_def full_def [symmetric])
  next
    case None
    then obtain s1 idx where c: "fs_create_file (Some path) ?s = (0, s1)" and ix: "file_index s1 full = Some idx"
      and w: "append_slot idx 0 data len s1 = (0, s')"
      using r by (auto simp: fs_append_file_def full_def errno_frame Let_def split: if_splits prod.splits option.splits)
    note C = fs_create_file_law [OF _ c, simplified errno_frame, simplified, folded full_def, OF ok]
    have no: "fs_files s full = None" using None full by (simp add: fs_files_None_iff)
    then have f1: "fs_files s1 = (fs_files s)(full \<mapsto> ([], fs_cur_uid s, 420))" "may_create s path" using C(7) by auto
    then have b: "file_bytes s1 idx = []" "fowner s1 idx = fs_cur_uid s" "fmode s1 idx = 420"
      using fs_files_index [OF ix full] by auto
    note W = append_slot_ok [OF C(1) ix full _ len0 len w]
    show ?thesis using W b C f1 no
      by (simp add: old_bytes_def write_meta_def may_write_def full_def [symmetric])
  qed
qed

lemma fs_append_file_fail:
  assumes ok: "fs_ok s" and r: "fs_append_file (Some path) data len s = (rc, s')" "rc \<noteq> 0"
  defines "full \<equiv> abs_path (cwd s) path"
  shows "fs_ok s' \<and> fs_dirs s' = fs_dirs s \<and> cwd s' = cwd s \<and> fs_cur_uid s' = fs_cur_uid s \<and>
    fs_null_deref s' = fs_null_deref s \<and>
    (fs_files s' = fs_files s \<or>
     may_create s path \<and> fs_files s' = (fs_files s)(full \<mapsto> ([], fs_cur_uid s, 420)))"
proof -
  let ?s = "s\<lparr>fs_errno := 0\<rparr>"
  have full: "is_cstring full" by (simp add: full_def abs_path_ok)
  obtain rc' s1 where c: "fs_create_file (Some path) ?s = (rc', s1)" by fastforce
  note C = fs_create_file_law [OF _ c, simplified errno_frame, simplified, folded full_def, OF ok]
  have "s' = ?s \<or> s' = fs_deny ?s \<or> (s' = s1 \<and> file_index s full = None)"
    using r c by (auto simp: fs_append_file_def full_def errno_frame Let_def append_slot_fail
        split: if_splits prod.splits option.splits)
  then consider "tabs s' = tabs s" "fs_cur_uid s' = fs_cur_uid s" "fs_null_deref s' = fs_null_deref s"
    | "s' = s1" "fs_files s full = None" using full by (auto simp: fs_files_None_iff)
  then show ?thesis
  proof cases
    case 1
    then show ?thesis using ok tabs_eqD [OF 1(1)] by auto
  next
    case 2
    then show ?thesis using C tabs_eqD(4) [of s1 s] by (cases "rc' = 0") auto
  qed
qed

subsection \<open>Writing in place and preallocating\<close>

lemma fs_write_at_ok:
  assumes ok: "fs_ok s" and len: "offset + len < 4294967296"
    and r: "fs_write_at (Some path) offset (Some data) len s = (0, s')"
  defines "full \<equiv> abs_path (cwd s) path"
  shows "\<exists>b u m. fs_files s full = Some (b, u, m) \<and> offset + len \<le> length b \<and> fs_ok s' \<and>
    fs_dirs s' = fs_dirs s \<and> cwd s' = cwd s \<and> fs_cur_uid s' = fs_cur_uid s \<and> fs_null_deref s' = fs_null_deref s \<and>
    fs_files s' = (fs_files s)(full \<mapsto> (take offset b @ data_bytes data len @ drop (offset + len) b, u, m))"
proof -
  have full: "is_cstring full" by (simp add: full_def abs_path_ok)
  from r len obtain idx p where ix: "file_index s full = Some idx" and p: "fdata s idx = Some p"
    and le: "offset + len \<le> nat (fsize s idx mod 4294967296)"
    and s': "s' = fdata_write idx offset (data_bytes data len) s"
    by (auto simp: fs_write_at_def full_def split: if_splits option.splits)
  have dok: "data_ok s" and i: "idx < MAX_F" using ok file_index_used [OF ix] by (auto simp: fs_ok_def)
  note so = data_okD(2) [OF dok i]
  have sz: "nat (fsize s idx mod 4294967296) = nat (fsize s idx)" "length (file_bytes s idx) = nat (fsize s idx)"
    using slot_data_okD(1,2) [OF so p] length_file_bytes [OF so] by (auto simp: MAX_FILE_DATA_def)
  note W = fdata_write_ok [OF dok i p, of offset "data_bytes data len"]
  have w: "data_ok s'" "\<And>j. j < MAX_F \<Longrightarrow> j \<noteq> idx \<Longrightarrow> file_bytes s' j = file_bytes s j"
    "file_bytes s' idx = take offset (file_bytes s idx) @ data_bytes data len @ drop (offset + len) (file_bytes s idx)"
    "fs_null_deref s' = fs_null_deref s"
    using W le sz s' by auto
  have "same_names s s'" by (simp add: s')
  from filled_maps [OF ok ix full w(1) this w(2)] w le sz fs_files_index [OF ix full]
  show ?thesis by (auto simp: s')
qed

lemma fs_write_at_fail: "fs_write_at path offset data len s = (rc, s') \<Longrightarrow> rc \<noteq> 0 \<Longrightarrow> s' = s"
  by (auto simp: fs_write_at_def split: if_splits option.splits)

lemma coalesce_data_ok:
  assumes ok: "data_ok s"
  shows "data_ok (s\<lparr>fs_pool := fpool_coalesce (fs_pool s)\<rparr>)"
    "j < MAX_F \<Longrightarrow> file_bytes (s\<lparr>fs_pool := fpool_coalesce (fs_pool s)\<rparr>) j = file_bytes s j"
proof -
  let ?P = "fs_pool s" and ?Q = "fpool_coalesce (fs_pool s)"
  have pok: "pool_ok ?P" using ok by (simp add: data_ok_def)
  then have rep: "pool_rep (fpool_mem ?P) 0 (pool_blocks ?P) (pool_size ?P)" by (simp add: pool_ok_def)
  note R = coalesce_from_refines [OF rep]
  have Q: "?Q = ?P\<lparr>fpool_mem := coalesce_from (fpool_bytes ?P) (fpool_mem ?P) 0\<rparr>" by (simp add: fpool_coalesce_def)
  have L: "pool_ok ?Q" "pool_live ?Q = pool_live ?P"
    using pool_okI [of ?Q "a_coalesce (pool_blocks ?P)"] R pok
    by (auto simp: Q live_coalesce pool_live_def pool_ok_def sizes_pos_coalesce)
  show "data_ok (s\<lparr>fs_pool := ?Q\<rparr>)" by (rule data_ok_pool [OF ok L])
  show "file_bytes (s\<lparr>fs_pool := ?Q\<rparr>) j = file_bytes s j" if j: "j < MAX_F"
  proof (cases "fdata s j")
    case (Some p)
    then obtain k where k: "pool_live ?P p = Some k" "nat (fsize s j) < k"
      using data_okD(2) [OF ok j] by (auto dest: slot_data_okD(4))
    have "run_of (fpool_mem ?Q) p (nat (fsize s j)) = run_of (fpool_mem ?P) p (nat (fsize s j))"
    proof (rule run_of_cong)
      fix i assume "p \<le> i" "i < p + nat (fsize s j)"
      then have "in_live 0 (pool_blocks ?P) i"
        using k unfolding in_live_iff pool_live_def by (intro exI [of _ p] exI [of _ k]) simp
      then show "fpool_mem ?Q i = fpool_mem ?P i" using R by (simp add: Q)
    qed
    then show ?thesis using Some by (simp add: file_bytes_def pool_read_def)
  qed (simp add: file_bytes_def)
qed

lemma prealloc_slot:
  assumes ok: "fs_ok s" and ix: "file_index s full = Some idx" and full: "is_cstring full"
    and r: "fdata_resize idx n (s\<lparr>fs_pool := fpool_coalesce (fs_pool s)\<rparr>) = (rc, s')"
  shows "fs_ok s' \<and> fs_dirs s' = fs_dirs s \<and> cwd s' = cwd s \<and> fs_cur_uid s' = fs_cur_uid s \<and>
    fs_null_deref s' = fs_null_deref s \<and>
    (if rc \<noteq> 0 then fs_files s' = fs_files s
     else length (file_bytes s' idx) = n \<and>
       take n (file_bytes s idx) = take (length (file_bytes s idx)) (file_bytes s' idx) \<and>
       fs_files s' = (fs_files s)(full \<mapsto> (file_bytes s' idx, fowner s idx, fmode s idx)))"
proof -
  let ?s = "s\<lparr>fs_pool := fpool_coalesce (fs_pool s)\<rparr>"
  have dok: "data_ok s" and i: "idx < MAX_F" "fused s idx \<noteq> 0"
    using ok file_index_used [OF ix] by (auto simp: fs_ok_def)
  note C = coalesce_data_ok [OF dok]
  have s: "same_names s ?s" by (simp add: same_names_def)
  note M = filled_maps [OF ok ix full C(1) s C(2)]
  have eqm: "fs_files ?s = fs_files s" using M(4) C(2) [OF i(1)] fs_files_index [OF ix full] by auto
  show ?thesis
  proof (cases "rc = 0")
    case False
    then show ?thesis using fdata_resize_fail [OF r] M eqm by simp
  next
    case True
    have "fused ?s idx \<noteq> 0" using i by simp
    note R = fdata_resize_ok [OF C(1) i(1) this r [unfolded True]]
    then have n: "same_names s s'" and d: "data_ok s'" and o: "\<And>j. j < MAX_F \<Longrightarrow> j \<noteq> idx \<Longrightarrow> file_bytes s' j = file_bytes s j"
      and nd: "fs_null_deref s' = fs_null_deref s" and fz: "nat (fsize s' idx) = n"
      using C(2) unfolding resized_def by (auto simp: same_names_def)
    have len: "length (file_bytes s' idx) = n" using length_file_bytes [OF data_okD(2) [OF d i(1)]] fz by simp
    have m: "take m (file_bytes s' idx) = take m (file_bytes s idx)" if "m \<le> n" "m \<le> length (file_bytes s idx)" for m
      using R that C(2) [OF i(1)] unfolding resized_def by simp
    have "take n (file_bytes s idx) = take (length (file_bytes s idx)) (file_bytes s' idx)"
      using len m [of n] m [of "length (file_bytes s idx)"] by (cases "n \<le> length (file_bytes s idx)") auto
    then show ?thesis using filled_maps [OF ok ix full d n o] True len nd n by (auto simp: same_names_def)
  qed
qed

lemma fs_prealloc_file_law:
  assumes ok: "fs_ok s" and r: "fs_prealloc_file (Some path) n s = (rc, s')"
  defines "full \<equiv> abs_path (cwd s) path"
  shows "fs_ok s' \<and> fs_dirs s' = fs_dirs s \<and> cwd s' = cwd s \<and> fs_cur_uid s' = fs_cur_uid s \<and>
    fs_null_deref s' = fs_null_deref s \<and>
    (if rc \<noteq> 0 then fs_files s' = fs_files s \<or> fs_files s' = (fs_files s)(full \<mapsto> ([], fs_cur_uid s, 420))
     else \<exists>b. length b = n \<and> take n (old_bytes s full) = take (length (old_bytes s full)) b \<and>
       fs_files s' = (fs_files s)(full \<mapsto> (b, write_meta s full)))"
proof (cases "null_or_empty (Some path) \<or> n = 0 \<or> n > MAX_FILE_DATA - 1")
  case True
  then show ?thesis using r ok by (auto simp: fs_prealloc_file_def)
next
  case False
  have full: "is_cstring full" by (simp add: full_def abs_path_ok)
  show ?thesis
  proof (cases "file_index s full")
    case (Some idx)
    obtain rc1 s1 where z: "fdata_resize idx n (s\<lparr>fs_pool := fpool_coalesce (fs_pool s)\<rparr>) = (rc1, s1)" by fastforce
    then have rs: "s' = s1" "rc = 0 \<longleftrightarrow> rc1 = 0"
      using r False Some by (auto simp: fs_prealloc_file_def full_def split: if_splits)
    show ?thesis using prealloc_slot [OF ok Some full z] rs fs_files_index [OF Some full]
      by (auto simp: old_bytes_def write_meta_def)
  next
    case None
    obtain rc0 s0 where c: "fs_create_file (Some path) s = (rc0, s0)" by fastforce
    note C = fs_create_file_law [OF ok c, folded full_def]
    have no: "fs_files s full = None" using None full by (simp add: fs_files_None_iff)
    show ?thesis
    proof (cases "rc0 = 0")
      case False
      then have "tabs s' = tabs s" "s' = s0" "rc \<noteq> 0"
        using r c None C(6) \<open>\<not> (null_or_empty (Some path) \<or> _)\<close>
        by (auto simp: fs_prealloc_file_def full_def split: if_splits)
      then show ?thesis using ok C tabs_eqD [of s' s] by auto
    next
      case True
      then obtain idx where ix: "file_index s0 full = Some idx" using C(8) by auto
      obtain rc1 s1 where z: "fdata_resize idx n (s0\<lparr>fs_pool := fpool_coalesce (fs_pool s0)\<rparr>) = (rc1, s1)" by fastforce
      then have rs: "s' = s1" "rc = 0 \<longleftrightarrow> rc1 = 0"
        using r False None c True ix by (auto simp: fs_prealloc_file_def full_def split: if_splits)
      have f0: "fs_files s0 = (fs_files s)(full \<mapsto> ([], fs_cur_uid s, 420))" using C(7) True no by simp
      then have "file_bytes s0 idx = []" "fowner s0 idx = fs_cur_uid s" "fmode s0 idx = 420"
        using fs_files_index [OF ix full] by auto
      then show ?thesis using prealloc_slot [OF C(1) ix full z] rs C f0 no
        by (auto simp: old_bytes_def write_meta_def)
    qed
  qed
qed

end
