(* ===== verification/FsDirs.thy ===== *)
theory FsDirs
  imports FsLaws
begin

section \<open>Directories, ownership and the start state\<close>

text \<open>
  The laws of the operations on directories and on ownership, and of \<^verbatim>\<open>fs_init\<close>: they keep the
  invariant, and their effect on \<open>fs_dirs\<close> and \<open>fs_files\<close>.
\<close>

subsection \<open>Creating a directory\<close>

definition add_dir :: "nat \<Rightarrow> bytes \<Rightarrow> int \<Rightarrow> int \<Rightarrow> fs \<Rightarrow> fs" where
  "add_dir i full u m s =
     s\<lparr>dname := (dname s)(i := strcpy_safe (dname s i) full FS_PATH_CAP),
       dused := (dused s)(i := 1), downer := (downer s)(i := u), dmode := (dmode s)(i := m)\<rparr>"

definition drop_dir :: "nat \<Rightarrow> fs \<Rightarrow> fs" where
  "drop_dir i s =
     s\<lparr>dused := (dused s)(i := 0), dname := (dname s)(i := (dname s i)[0 := NUL])\<rparr>"

lemma dir_change_frame [simp, fs_frame]:
  "fs_files (add_dir i full u m s) = fs_files s" "fs_files (drop_dir i s) = fs_files s"
  "data_ok (add_dir i full u m s) = data_ok s" "data_ok (drop_dir i s) = data_ok s"
  "cwd (add_dir i full u m s) = cwd s" "cwd (drop_dir i s) = cwd s"
  "fs_cur_uid (add_dir i full u m s) = fs_cur_uid s" "fs_cur_uid (drop_dir i s) = fs_cur_uid s"
  "fs_null_deref (add_dir i full u m s) = fs_null_deref s" "fs_null_deref (drop_dir i s) = fs_null_deref s"
  "fs_batch_depth (add_dir i full u m s) = fs_batch_depth s" "fs_batch_depth (drop_dir i s) = fs_batch_depth s"
proof -
  have a: "fdata (add_dir i full u m s) = fdata s" "fsize (add_dir i full u m s) = fsize s"
      "fused (add_dir i full u m s) = fused s" "fs_pool (add_dir i full u m s) = fs_pool s"
    and d: "fdata (drop_dir i s) = fdata s" "fsize (drop_dir i s) = fsize s"
      "fused (drop_dir i s) = fused s" "fs_pool (drop_dir i s) = fs_pool s"
    by (simp_all add: add_dir_def drop_dir_def)
  show "data_ok (add_dir i full u m s) = data_ok s" unfolding data_ok_def slot_data_ok_def a by (rule refl)
  show "data_ok (drop_dir i s) = data_ok s" unfolding data_ok_def slot_data_ok_def d by (rule refl)
  show "fs_files (add_dir i full u m s) = fs_files s" "fs_files (drop_dir i s) = fs_files s"
    by (rule fs_files_cong; simp add: add_dir_def drop_dir_def)+
qed (simp_all add: add_dir_def drop_dir_def)

lemma add_dir_names_ok:
  assumes "names_ok s" "i < MAX_D" "dused s i = 0" "file_index s full = None" "dir_index s full = None"
    and "is_cstring full" "length full \<le> 255"
  shows "names_ok (add_dir i full u m s)"
proof -
  have b: "buf_ok (dname s i)" using assms(1,2) by (simp add: names_ok_def)
  then have c: "cstr (strcpy_safe (dname s i) full 256) = full"
    using assms(6,7) by (simp add: buf_ok_def)
  have f: "\<And>j. j < MAX_F \<Longrightarrow> fused s j \<noteq> 0 \<Longrightarrow> cstr (fname s j) \<noteq> full"
    and d: "\<And>j. j < MAX_D \<Longrightarrow> dused s j \<noteq> 0 \<Longrightarrow> cstr (dname s j) \<noteq> full"
    using assms(4-6) by (auto simp: file_index_None dir_index_None)
  show ?thesis using assms(1) c f d b unfolding names_ok_def
    by (auto simp: add_dir_def FS_PATH_CAP_def split: if_splits)
qed

lemma add_dir_maps:
  assumes "names_ok s" "i < MAX_D" "dused s i = 0" "file_index s full = None" "dir_index s full = None"
    and "is_cstring full" "length full \<le> 255"
  shows "fs_dirs (add_dir i full u m s) = (fs_dirs s)(full \<mapsto> (u, m))"
proof -
  let ?s = "add_dir i full u m s"
  have ok: "names_ok ?s" by (rule add_dir_names_ok [OF assms])
  have c: "cstr (dname ?s i) = full" "dused ?s i \<noteq> 0"
    using assms(1,2,6,7) by (auto simp: names_ok_def buf_ok_def add_dir_def FS_PATH_CAP_def)
  have i: "dir_index ?s full = Some i" using dir_index_eq [OF ok assms(2) c(2), of full] c assms(6) by simp
  have oth: "fs_dirs ?s p = fs_dirs s p" if p: "is_cstring p" "p \<noteq> full" for p
  proof (cases "dir_index s p")
    case None
    then have "dir_index ?s p = None" using p c assms(3) by (auto simp: dir_index_None add_dir_def)
    then show ?thesis using None by (simp add: fs_dirs_def)
  next
    case (Some j)
    then have j: "j < MAX_D" "dused s j \<noteq> 0" "cstr (dname s j) = p" "j \<noteq> i"
      using p assms(3) by (auto simp: dir_index_Some)
    then have "dir_index ?s p = Some j" using dir_index_eq [OF ok, of j p] p by (simp add: add_dir_def)
    moreover have "downer ?s j = downer s j" "dmode ?s j = dmode s j" using j by (simp_all add: add_dir_def)
    ultimately show ?thesis using Some by (simp add: fs_dirs_def)
  qed
  have "downer ?s i = u" "dmode ?s i = m" by (simp_all add: add_dir_def)
  then have "fs_dirs ?s full = Some (u, m)" using i assms(6) by (simp add: fs_dirs_def)
  then show ?thesis using oth by (auto simp: fun_eq_iff fs_dirs_def)
qed

lemma fs_create_directory_ok:
  assumes ok: "fs_ok s" and r: "fs_create_directory (Some path) s = (0, s')"
  defines "full \<equiv> abs_path (cwd s) path"
  shows "fs_ok s' \<and> fs_files s' = fs_files s \<and> cwd s' = cwd s \<and> fs_cur_uid s' = fs_cur_uid s \<and>
    fs_null_deref s' = fs_null_deref s \<and> fs_batch_depth s' = fs_batch_depth s \<and> may_create s path \<and>
    full \<noteq> ''/'' \<and> fs_dirs s' = (fs_dirs s)(full \<mapsto> (fs_cur_uid s, 493))"
proof -
  let ?s = "s\<lparr>fs_errno := 0\<rparr>"
  have fl: "is_cstring full" "length full \<le> 255" by (simp_all add: full_def abs_path_ok)
  have sl: "free_dir_slot ?s = free_dir_slot s" by (simp add: free_dir_slot_def)
  from r obtain i where i: "free_dir_slot s = Some i" "parent_writable s full" "parent_exists s path"
    "dir_index s full = None" "file_index s full = None" "full \<noteq> ''/''"
    and s': "s' = fs_commit_change (add_dir i full (fs_cur_uid s) 493 ?s)"
    by (auto simp: fs_create_directory_def Let_def full_def may_modify_parent_eq errno_frame add_dir_def sl
        strcmp_safe_iff split: if_splits option.splits)
  have s: "names_ok ?s" "data_ok ?s" "dused ?s i = 0" "file_index ?s full = None" "dir_index ?s full = None"
    and i': "i < MAX_D"
    using ok i free_dir_slot_Some [OF i(1)] by (auto simp: errno_frame fs_ok_def)
  have t: "tabs s' = tabs (add_dir i full (fs_cur_uid s) 493 ?s)" "fs_cur_uid s' = fs_cur_uid s"
    "fs_null_deref s' = fs_null_deref s" "fs_batch_depth s' = fs_batch_depth s"
    using s' by simp_all
  have "may_create s path"
    using i fl by (simp add: may_create_def full_def [symmetric] fs_files_None_iff fs_dirs_None_iff)
  then show ?thesis
    using add_dir_names_ok [OF s(1) i' s(3-5) fl] add_dir_maps [OF s(1) i' s(3-5) fl] s(2)
      tabs_eqD [OF t(1)] t(2-) i(6)
    by (simp add: errno_frame fs_ok_def)
qed

lemma fs_create_directory_fail:
  assumes "fs_create_directory path s = (rc, s')" "rc \<noteq> 0"
  shows "tabs s' = tabs s \<and> fs_cur_uid s' = fs_cur_uid s \<and> fs_null_deref s' = fs_null_deref s \<and>
    fs_batch_depth s' = fs_batch_depth s"
  using assms by (auto simp: fs_create_directory_def may_modify_parent_eq Let_def split: if_splits option.splits)

subsection \<open>Deleting a directory\<close>

lemma drop_dir_ok:
  assumes ok: "names_ok s" and ix: "dir_index s full = Some i" and full: "is_cstring full"
  shows "names_ok (drop_dir i s)" "fs_dirs (drop_dir i s) = (fs_dirs s)(full := None)"
proof -
  let ?s = "drop_dir i s"
  have i: "i < MAX_D" "dused s i \<noteq> 0" "cstr (dname s i) = full" using ix full by (auto simp: dir_index_Some)
  show nok: "names_ok ?s" using ok i unfolding names_ok_def by (auto simp: drop_dir_def)
  have own: "downer ?s = downer s" "dmode ?s = dmode s" by (simp_all add: drop_dir_def)
  show "fs_dirs ?s = (fs_dirs s)(full := None)"
  proof
    fix p show "fs_dirs ?s p = ((fs_dirs s)(full := None)) p"
    proof (cases "is_cstring p \<and> dir_index s p \<noteq> None \<and> p \<noteq> full")
      case True
      then obtain j where j: "dir_index s p = Some j" by auto
      then have "j < MAX_D" "dused s j \<noteq> 0" "cstr (dname s j) = p" "j \<noteq> i"
        using True i by (auto simp: dir_index_Some)
      moreover have "dir_index ?s p = Some j"
        using calculation True nok by (intro dir_index_eq) (auto simp: drop_dir_def)
      ultimately show ?thesis using True j own by (simp add: fs_dirs_def)
    next
      case False
      have "dir_index ?s p = None" if "is_cstring p"
        using False that i ok by (auto simp: dir_index_None drop_dir_def names_ok_def)
      then show ?thesis using False by (auto simp: fs_dirs_def)
    qed
  qed
qed

lemma fs_delete_directory_ok:
  assumes ok: "fs_ok s" and r: "fs_delete_directory (Some path) s = (0, s')"
  defines "full \<equiv> abs_path (cwd s) path"
  shows "fs_ok s' \<and> fs_files s' = fs_files s \<and> cwd s' = cwd s \<and> fs_cur_uid s' = fs_cur_uid s \<and>
    fs_null_deref s' = fs_null_deref s \<and> fs_batch_depth s' = fs_batch_depth s \<and> parent_writable s full \<and>
    (\<forall>i<MAX_F. fused s i \<noteq> 0 \<longrightarrow> \<not> delete_blocker full (fname s i)) \<and>
    (\<forall>i<MAX_D. dused s i \<noteq> 0 \<longrightarrow> cstr (dname s i) \<noteq> full \<longrightarrow> \<not> delete_blocker full (dname s i)) \<and>
    fs_dirs s full \<noteq> None \<and> fs_dirs s' = (fs_dirs s)(full := None)"
proof -
  let ?s = "s\<lparr>fs_errno := 0\<rparr>"
  have fl: "is_cstring full" by (simp add: full_def abs_path_ok)
  from r obtain i where i: "dir_index s full = Some i" "parent_writable s full"
    "\<forall>i\<in>{0..<MAX_F}. fused s i \<noteq> 0 \<longrightarrow> \<not> delete_blocker full (fname s i)"
    "\<forall>i\<in>{0..<MAX_D}. dused s i \<noteq> 0 \<longrightarrow> cstr (dname s i) \<noteq> full \<longrightarrow> \<not> delete_blocker full (dname s i)"
    and s': "s' = fs_commit_change (drop_dir i ?s)"
    by (auto simp: fs_delete_directory_def Let_def full_def may_modify_parent_eq errno_frame drop_dir_def
        strcmp_safe_iff split: if_splits option.splits)
  have s: "names_ok ?s" "data_ok ?s" "dir_index ?s full = Some i" using ok i by (auto simp: errno_frame fs_ok_def)
  have t: "tabs s' = tabs (drop_dir i ?s)" "fs_cur_uid s' = fs_cur_uid s"
    "fs_null_deref s' = fs_null_deref s" "fs_batch_depth s' = fs_batch_depth s"
    using s' by simp_all
  show ?thesis
    using drop_dir_ok [OF s(1,3) fl] s(2) tabs_eqD [OF t(1)] t(2-) i fl
    by (simp add: errno_frame fs_ok_def) (simp add: fs_dirs_def)
qed

lemma fs_delete_directory_fail:
  assumes "fs_delete_directory path s = (rc, s')" "rc \<noteq> 0"
  shows "tabs s' = tabs s \<and> fs_cur_uid s' = fs_cur_uid s \<and> fs_null_deref s' = fs_null_deref s \<and>
    fs_batch_depth s' = fs_batch_depth s"
  using assms by (auto simp: fs_delete_directory_def may_modify_parent_eq Let_def split: if_splits option.splits)

subsection \<open>The current directory, modes and owners\<close>

lemma fs_change_directory_law:
  assumes ok: "fs_ok s" and r: "fs_change_directory path s = (rc, s')"
  shows "fs_ok s' \<and> fs_files s' = fs_files s \<and> fs_dirs s' = fs_dirs s \<and> fs_cur_uid s' = fs_cur_uid s \<and>
    fs_null_deref s' = fs_null_deref s \<and> fs_batch_depth s' = fs_batch_depth s"
proof -
  have s': "s' = s\<lparr>fs_errno := 0\<rparr> \<or> s' = fs_deny (s\<lparr>fs_errno := 0\<rparr>) \<or>
    (\<exists>p. s' = s\<lparr>fs_errno := 0, cwd := strcpy_safe (cwd s) p 256\<rparr>)"
    using r by (auto simp: fs_change_directory_def Let_def split: if_splits option.splits)
  have upd: "names_ok (s\<lparr>fs_errno := 0, cwd := strcpy_safe (cwd s) p 256\<rparr>)"
    "data_ok (s\<lparr>fs_errno := 0, cwd := strcpy_safe (cwd s) p 256\<rparr>)" for p
    using ok by (auto simp: fs_ok_def names_ok_def data_ok_def slot_data_ok_def cong: option.case_cong)
  have "fs_files s' = fs_files s" "fs_dirs s' = fs_dirs s"
    using s' by (auto intro!: fs_files_cong fs_dirs_cong)
  moreover have "fs_ok s'" using s' upd ok tabs_eqD(1) [of s' s] by (auto simp: fs_ok_def errno_frame)
  ultimately show ?thesis using s' by auto
qed

text \<open>Operations that change owners and modes only.\<close>

definition meta_change :: "fs \<Rightarrow> fs \<Rightarrow> bool" where
  "meta_change s s' \<longleftrightarrow>
     fname s' = fname s \<and> fdata s' = fdata s \<and> fsize s' = fsize s \<and> fused s' = fused s \<and>
     dname s' = dname s \<and> dused s' = dused s \<and> cwd s' = cwd s \<and> fs_pool s' = fs_pool s \<and>
     fs_cur_uid s' = fs_cur_uid s \<and> fs_batch_depth s' = fs_batch_depth s \<and>
     fs_null_deref s' = fs_null_deref s"

lemma meta_changeD:
  assumes "meta_change s s'"
  shows "fs_ok s' = fs_ok s" "file_index s' p = file_index s p" "dir_index s' p = dir_index s p"
    "file_bytes s' i = file_bytes s i" "cwd s' = cwd s" "fs_cur_uid s' = fs_cur_uid s"
    "map_option fst (fs_files s' p) = map_option fst (fs_files s p)"
    "fs_batch_depth s' = fs_batch_depth s" "fs_null_deref s' = fs_null_deref s"
proof -
  have n: "fname s' = fname s" "fdata s' = fdata s" "fsize s' = fsize s" "fused s' = fused s"
     "dname s' = dname s" "dused s' = dused s" "cwd s' = cwd s" "fs_pool s' = fs_pool s"
    using assms by (simp_all add: meta_change_def)
  show "fs_ok s' = fs_ok s" by (rule fs_ok_cong) (simp_all add: n)
  show i: "file_index s' p = file_index s p" by (rule file_index_cong) (simp_all add: n)
  show "dir_index s' p = dir_index s p" by (rule dir_index_cong) (simp_all add: n)
  have b: "file_bytes s' i = file_bytes s i" for i unfolding file_bytes_def n by (rule refl)
  then show "file_bytes s' i = file_bytes s i" .
  show "cwd s' = cwd s" by (rule n)
  show "map_option fst (fs_files s' p) = map_option fst (fs_files s p)"
    by (auto simp: fs_files_def i b option.map_comp comp_def)
  show "fs_cur_uid s' = fs_cur_uid s" "fs_batch_depth s' = fs_batch_depth s" "fs_null_deref s' = fs_null_deref s"
    using assms by (simp_all add: meta_change_def)
qed

lemma meta_change_refl: "meta_change s s"
  by (simp add: meta_change_def)

lemma meta_change_trans: "meta_change s t \<Longrightarrow> meta_change t u \<Longrightarrow> meta_change s u"
  by (simp add: meta_change_def)

lemma fs_chmod_meta: "meta_change s (snd (fs_chmod path mode s))"
  by (auto simp: fs_chmod_def Let_def meta_change_def split: option.splits)

lemma fs_chown_meta: "meta_change s (snd (fs_chown path uid s))"
  by (auto simp: fs_chown_def Let_def meta_change_def split: option.splits)

lemma fs_chmod_recursive_meta: "meta_change s (snd (fs_chmod_recursive path mode s))"
proof -
  have "meta_change s (snd (fs_chmod (Some (abs_path (cwd s) (the path))) (mode AND 511) s))"
    by (rule fs_chmod_meta)
  then show ?thesis
    by (auto simp: fs_chmod_recursive_def Let_def meta_change_def split: prod.splits)
qed

lemma fs_chown_recursive_meta: "meta_change s (snd (fs_chown_recursive path uid s))"
proof -
  have "meta_change s (snd (fs_chown (Some (abs_path (cwd s) (the path))) uid s))"
    by (rule fs_chown_meta)
  then show ?thesis
    by (auto simp: fs_chown_recursive_def Let_def meta_change_def split: prod.splits)
qed

lemma fs_reassign_uid_meta: "meta_change s (snd (fs_reassign_uid a b s))"
  by (simp add: fs_reassign_uid_def Let_def meta_change_def)

subsection \<open>The start state\<close>

definition bufs_ok :: "'a fstab_scheme \<Rightarrow> bool" where
  "bufs_ok s \<longleftrightarrow> (\<forall>i<MAX_F. buf_ok (fname s i)) \<and> (\<forall>i<MAX_D. buf_ok (dname s i)) \<and> buf_ok (cwd s)"

lemma fs_init_ok:
  assumes b: "bufs_ok s" and P: "fpool_base (fs_pool s)" "8 < pool_size (fs_pool s)"
  shows "fs_ok (fs_init s)" "fs_files (fs_init s) = Map.empty" "fs_dirs (fs_init s) = [''/'' \<mapsto> (0, 493)]"
    "cstr (cwd (fs_init s)) = ''/''"
proof -
  let ?s = "fs_init s"
  note I = fpool_init_law [OF P]
  have d0: "cstr (dname ?s 0) = ''/''" "buf_ok (dname ?s 0)" and c: "buf_ok (cwd ?s)" "cstr (cwd ?s) = ''/''"
    using b by (auto simp: fs_init_def bufs_ok_def FS_PATH_CAP_def MAX_D_def buf_ok_def)
  have u: "dused ?s i = (if i = 0 then 1 else 0)" if "i < MAX_D" for i using that by (simp add: fs_init_def)
  have f: "fused ?s i = 0" "fdata ?s i = None" "fsize ?s i = 0" if "i < MAX_F" for i
    using that by (simp_all add: fs_init_def)
  have n: "buf_ok (dname ?s i)" if "i < MAX_D" for i using that b d0(2) by (cases "i = 0") (auto simp: fs_init_def bufs_ok_def)
  have m: "buf_ok (fname ?s i)" if "i < MAX_F" for i using that b by (simp add: fs_init_def bufs_ok_def)
  have names: "names_ok ?s" unfolding names_ok_def using u f n m c by auto
  moreover have "data_ok ?s"
    unfolding data_ok_def slot_data_ok_def using I f by (auto simp: fs_init_def)
  ultimately show "fs_ok ?s" by (simp add: fs_ok_def)
  show "cstr (cwd ?s) = ''/''" by (rule c)
  have "file_index ?s p = None" for p using f by (auto simp: file_index_None)
  then show "fs_files ?s = Map.empty" by (simp add: fs_files_def fun_eq_iff)
  have "dir_index ?s p = (if cstr p = ''/'' then Some 0 else None)" for p
    using u d0(1) by (auto simp: dir_index_None dir_index_Some MAX_D_def)
  moreover have "downer ?s 0 = 0" "dmode ?s 0 = 493" by (simp_all add: fs_init_def MAX_D_def)
  ultimately show "fs_dirs ?s = [''/'' \<mapsto> (0, 493)]" by (auto simp: fs_dirs_def fun_eq_iff)
qed

end
