(* ===== verification/FsProps.thy ===== *)
theory FsProps
  imports FsDirs
begin

section \<open>Properties of the filesystem\<close>

text \<open>
  The claims on files: writing, appending, reading, deleting, permissions, and what a failing
  operation leaves. The states they are exercised on start from \<open>boot_fs\<close>, a machine whose tables are
  zeroed and whose pool has 4 KiB, after \<^verbatim>\<open>fs_init\<close>.
\<close>

subsection \<open>Success of a write\<close>

definition has_room :: "fs \<Rightarrow> nat \<Rightarrow> bool" where
  "has_room s n \<longleftrightarrow> (\<exists>(sz, fr)\<in>set (pool_blocks (fs_pool s)). fr \<and> round_up 4 n \<le> sz)"

lemma fdata_resize_succeeds:
  assumes "data_ok s" "idx < MAX_F" "n < MAX_FILE_DATA" "n = 0 \<or> has_room s (n + 1)"
  shows "fst (fdata_resize idx n s) = 0"
proof (cases "n = 0")
  case False
  have pok: "pool_ok (fs_pool s)" using assms(1) by (simp add: data_ok_def)
  obtain r P where a: "fpool_alloc (n + 1) (fs_pool s) = (r, P)" by fastforce
  have "n + 1 + 3 < 4294967296" using assms(3) by (simp add: MAX_FILE_DATA_def)
  from fpool_alloc_refines [OF pok _ this a] have al: "a_alloc (round_up 4 (n + 1)) (pool_blocks (fs_pool s)) 0 = (r, pool_blocks P)"
    by simp
  have "r \<noteq> None"
  proof
    assume "r = None"
    with al have "\<forall>(sz, fr)\<in>set (pool_blocks (fs_pool s)). fr \<longrightarrow> sz < round_up 4 (n + 1)"
      using a_alloc_None by blast
    then show False using assms(4) False by (fastforce simp: has_room_def)
  qed
  then show ?thesis using a False assms(2,3) by (auto simp: fdata_resize_def Let_def)
qed (use assms in \<open>simp add: fdata_resize_def\<close>)

lemma write_slot_succeeds:
  assumes "data_ok s" "idx < MAX_F" "n < MAX_FILE_DATA" "n = 0 \<or> has_room s (n + 1)"
  shows "fst (write_slot idx data n s) = 0"
  using fdata_resize_succeeds [OF assms] assms(3) by (auto simp: write_slot_def split: prod.splits)

lemma fs_create_file_succeeds:
  assumes m: "may_create s path" and p: "cstr path \<noteq> []" and f: "free_file_slot s \<noteq> None"
  shows "fst (fs_create_file (Some path) s) = 0"
proof -
  let ?s = "s\<lparr>fs_errno := 0\<rparr>"
  have "free_file_slot ?s = free_file_slot s" by (simp add: free_file_slot_def)
  with m p f show ?thesis
    by (auto simp: fs_create_file_def may_create_def Let_def errno_frame may_modify_parent_eq
        fs_files_None_iff fs_dirs_None_iff abs_path_ok split: option.splits)
qed

lemma create_keeps_pool:
  assumes "fs_create_file (Some path) s = (rc, s')"
  shows "fs_pool s' = fs_pool s"
  using assms by (auto simp: tabs_eq_iff elim!: fs_create_file_cases)

lemma fs_write_file_succeeds_aux:
  assumes ok: "fs_ok s" and m: "may_write s path" and p: "cstr path \<noteq> []"
    and sl: "fs_files s (abs_path (cwd s) path) \<noteq> None \<or> free_file_slot s \<noteq> None"
    and n: "n < MAX_FILE_DATA" "n = 0 \<or> has_room s (n + 1)"
  shows "fst (fs_write_file (Some path) (Some data) n s) = 0"
proof -
  let ?s = "s\<lparr>fs_errno := 0\<rparr>" and ?full = "abs_path (cwd s) path"
  have full: "is_cstring ?full" by (simp add: abs_path_ok)
  show ?thesis
  proof (cases "file_index s ?full")
    case (Some idx)
    have "perm_allows s (fmode s idx) (fowner s idx) PERM_W"
      using m fs_files_index [OF Some full] by (simp add: may_write_def)
    moreover have "fst (write_slot idx data n ?s) = 0"
      using ok n file_index_used [OF Some]
      by (intro write_slot_succeeds) (auto simp: fs_ok_def errno_frame has_room_def)
    ultimately show ?thesis using Some by (simp add: fs_write_file_def errno_frame Let_def)
  next
    case None
    then have no: "fs_files s ?full = None" using full by (simp add: fs_files_None_iff)
    have sl': "free_file_slot ?s \<noteq> None" using sl no by (simp add: free_file_slot_def)
    have "may_create ?s path" using m no by (simp add: may_write_def)
    from fs_create_file_succeeds [OF this p sl'] obtain s1 where c: "fs_create_file (Some path) ?s = (0, s1)"
      by (cases "fs_create_file (Some path) ?s") auto
    note C = fs_create_file_law [OF _ c, simplified errno_frame, simplified, OF ok]
    from C(8) obtain idx where ix: "file_index s1 ?full = Some idx" by auto
    have "fs_pool s1 = fs_pool s" using create_keeps_pool [OF c] by simp
    then have "fst (write_slot idx data n s1) = 0"
      using C(1) n file_index_used [OF ix] by (intro write_slot_succeeds) (auto simp: fs_ok_def has_room_def)
    then show ?thesis using None c ix by (simp add: fs_write_file_def errno_frame Let_def)
  qed
qed

subsection \<open>A concrete start\<close>

definition boot_fs :: fs where
  "boot_fs =
     \<lparr>fname = (\<lambda>_. replicate 256 NUL), fdata = (\<lambda>_. None), fsize = (\<lambda>_. 0), fused = (\<lambda>_. 0),
      fowner = (\<lambda>_. 0), fmode = (\<lambda>_. 0), dname = (\<lambda>_. replicate 256 NUL), dused = (\<lambda>_. 0),
      downer = (\<lambda>_. 0), dmode = (\<lambda>_. 0), cwd = replicate 256 NUL,
      fs_pool = \<lparr>fpool_base = True, fpool_bytes = 4096, fpool_mem = (\<lambda>_. NUL)\<rparr>,
      fs_cur_uid = 0, fs_errno = 0, fs_batch_depth = 0, fs_saved = None, fs_null_deref = False\<rparr>"

definition fresh_fs :: fs where
  "fresh_fs = fs_init boot_fs"

lemma fresh_fs_ok:
  "fs_ok fresh_fs" "fs_files fresh_fs = Map.empty" "fs_dirs fresh_fs = [''/'' \<mapsto> (0, 493)]"
  "cstr (cwd fresh_fs) = ''/''" "fs_cur_uid fresh_fs = 0" "fs_null_deref fresh_fs = False"
  "pool_blocks (fs_pool fresh_fs) = [(4088, True)]" "fs_batch_depth fresh_fs = 0"
proof -
  have b: "bufs_ok boot_fs" by (simp add: bufs_ok_def boot_fs_def buf_ok_def)
  have P: "fpool_base (fs_pool boot_fs)" "8 < pool_size (fs_pool boot_fs)" by (simp_all add: boot_fs_def)
  show "fs_ok fresh_fs" "fs_files fresh_fs = Map.empty" "fs_dirs fresh_fs = [''/'' \<mapsto> (0, 493)]"
    "cstr (cwd fresh_fs) = ''/''"
    unfolding fresh_fs_def by (rule fs_init_ok [OF b P])+
  show "fs_cur_uid fresh_fs = 0" "fs_null_deref fresh_fs = False" "fs_batch_depth fresh_fs = 0"
    by (simp_all add: fresh_fs_def fs_init_def boot_fs_def)
  show "pool_blocks (fs_pool fresh_fs) = [(4088, True)]"
    using fpool_init_law(3) [OF P] by (simp add: fresh_fs_def fs_init_def) (simp add: boot_fs_def)
qed

lemma fresh_free_slot: "free_file_slot fresh_fs = Some 0"
  by (simp add: free_file_slot_def find_upt_Some fresh_fs_def fs_init_def MAX_F_def)

lemma abs_path_a: "chr_at (cwd s) 0 = SLASH \<Longrightarrow> abs_path (cwd s) ''/a'' = ''/a''"
  by (simp add: abs_path_def abs_combined_def abs_walk.simps abs_component_def strlen_safe_def Let_def)

subsection \<open>Reading\<close>

lemma fsize_mod: "slot_data_ok s i \<Longrightarrow> nat (fsize s i mod 4294967296) = length (file_bytes s i)"
  using length_file_bytes [of s i] by (auto simp: slot_data_ok_def MAX_FILE_DATA_def split: option.splits)

lemma fdata_read_ok:
  assumes "slot_data_ok s i" "off + n \<le> length (file_bytes s i)"
  shows "fdata_read i off n s = (take n (drop off (file_bytes s i)), s)"
proof (cases "n = 0")
  case False
  with assms obtain p where p: "fdata s i = Some p" by (cases "fdata s i") (auto simp: file_bytes_def)
  have "pool_read (p + off) n (fs_pool s) = take n (drop off (pool_read p (nat (fsize s i)) (fs_pool s)))"
    using assms p by (intro nth_equalityI) (auto simp: file_bytes_def pool_read_def add.assoc)
  then show ?thesis using p False by (simp add: fdata_read_def file_bytes_def)
qed (simp add: fdata_read_def)

lemma fs_read_file_prefix_law:
  assumes ok: "fs_ok s" and cap: "0 < cap"
  shows "fs_read_file_prefix (Some path) True cap s =
    (case fs_files s (abs_path (cwd s) path) of
       None \<Rightarrow> (- 1, Some [], s\<lparr>fs_errno := 0\<rparr>)
     | Some (b, u, m) \<Rightarrow>
         if perm_allows s m u PERM_R then (0, Some (take (cap - 1) b), s\<lparr>fs_errno := 0\<rparr>)
         else (- 2, Some [], fs_deny (s\<lparr>fs_errno := 0\<rparr>)))"
proof (cases "file_index s (abs_path (cwd s) path)")
  case None
  then have "fs_files s (abs_path (cwd s) path) = None" by (simp add: fs_files_None_iff abs_path_ok)
  with None show ?thesis using cap by (simp add: fs_read_file_prefix_def errno_frame Let_def)
next
  case (Some i)
  have so: "slot_data_ok (s\<lparr>fs_errno := 0\<rparr>) i"
    using ok file_index_used [OF Some] data_okD(2) [of "s\<lparr>fs_errno := 0\<rparr>" i] by (simp add: fs_ok_def errno_frame)
  have "fdata_read i 0 (min (length (file_bytes s i)) (cap - 1)) (s\<lparr>fs_errno := 0\<rparr>) =
      (take (cap - 1) (file_bytes s i), s\<lparr>fs_errno := 0\<rparr>)"
    using fdata_read_ok [OF so, of 0] by (auto simp: errno_frame min_def)
  moreover have "nat (fsize s i mod 4294967296) = length (file_bytes s i)"
    using fsize_mod [OF so] by (simp add: errno_frame)
  ultimately show ?thesis using Some cap fs_files_index [OF Some abs_path_ok(4)]
    by (simp add: fs_read_file_prefix_def errno_frame Let_def)
qed

lemma fs_read_file_law:
  assumes "fs_ok s" "sz < 4294967295"
  shows "fs_read_file (Some path) True sz s =
    (case fs_files s (abs_path (cwd s) path) of
       None \<Rightarrow> (- 1, Some [], s\<lparr>fs_errno := 0\<rparr>)
     | Some (b, u, m) \<Rightarrow>
         if perm_allows s m u PERM_R then (0, Some (take sz b), s\<lparr>fs_errno := 0\<rparr>)
         else (- 2, Some [], fs_deny (s\<lparr>fs_errno := 0\<rparr>)))"
  using fs_read_file_prefix_law [of "s\<lparr>fs_errno := 0\<rparr>" "sz + 1" path] assms
  by (simp add: fs_read_file_def errno_frame Let_def split: option.splits)

subsection \<open>Properties: writing and reading\<close>

text \<open>C12. Functional correctness of \<^verbatim>\<open>fs_write_file\<close>: when it returns 0, the file at the canonical
  path holds exactly the given bytes; a file that existed keeps its owner and mode, a new one belongs
  to the caller with mode 0644; every other file, every directory and the current directory are
  unchanged; the caller had the right to write; the invariant still holds.\<close>

theorem fs_write_file_stores:
  assumes "fs_ok s" and "fs_write_file (Some path) (Some data) n s = (0, s')"
  shows "fs_files s' = (fs_files s)(abs_path (cwd s) path \<mapsto>
      (data_bytes data n, write_meta s (abs_path (cwd s) path)))
    \<and> fs_dirs s' = fs_dirs s \<and> cwd s' = cwd s \<and> may_write s path \<and> fs_ok s'"
  using fs_write_file_ok [OF assms] by simp

lemma fresh_parent: "parent_exists fresh_fs ''/a''" "abs_path (cwd fresh_fs) ''/a'' = ''/a''"
proof -
  show a: "abs_path (cwd fresh_fs) ''/a'' = ''/a''"
    by (simp add: abs_path_def abs_combined_def abs_walk.simps abs_component_def strlen_safe_def Let_def)
  show "parent_exists fresh_fs ''/a''"
    unfolding parent_exists_def a by (simp add: strlen_safe_def Let_def)
qed

lemma fresh_may_write: "may_write fresh_fs ''/a''"
  by (simp add: may_write_def may_create_def fresh_parent fresh_fs_ok parent_writable_def
      perm_allows_def split: option.splits)

lemma fresh_room: "n \<le> 4000 \<Longrightarrow> has_room fresh_fs n"
  using round_up_less [of 4 n] by (simp add: has_room_def fresh_fs_ok)

lemma fresh_write: "n < 4000 \<Longrightarrow> fst (fs_write_file (Some ''/a'') (Some d) n fresh_fs) = 0"
  by (rule fs_write_file_succeeds_aux)
    (simp_all add: fresh_fs_ok fresh_may_write fresh_free_slot fresh_room MAX_FILE_DATA_def)

definition hello_fs :: fs where
  "hello_fs = snd (fs_write_file (Some ''/a'') (Some ''hello'') 5 fresh_fs)"

lemma hello_fs_write: "fs_write_file (Some ''/a'') (Some ''hello'') 5 fresh_fs = (0, hello_fs)"
  using fresh_write [of 5 "''hello''"] by (simp add: hello_fs_def prod_eq_iff)

lemma hello_fs_ok:
  "fs_ok hello_fs" "fs_files hello_fs = [''/a'' \<mapsto> (''hello'', 0, 420)]" "fs_dirs hello_fs = [''/'' \<mapsto> (0, 493)]"
  "cwd hello_fs = cwd fresh_fs" "fs_cur_uid hello_fs = 0" "fs_null_deref hello_fs = False"
  using fs_write_file_ok [OF fresh_fs_ok(1) hello_fs_write]
  by (simp_all add: fresh_fs_ok fresh_parent write_meta_def)

theorem fs_write_file_stores_witness:
  "fs_ok fresh_fs \<and> fs_write_file (Some ''/a'') (Some ''hello'') 5 fresh_fs = (0, hello_fs) \<and>
   fs_files hello_fs ''/a'' = Some (''hello'', 0, 420)"
  using fs_write_file_stores [OF fresh_fs_ok(1) hello_fs_write] hello_fs_write
  by (simp add: fresh_fs_ok fresh_parent write_meta_def)

text \<open>Errors of \<^verbatim>\<open>fs_write_file\<close>: when it returns anything but 0, no directory, no other file and
  not the current directory changes, and no null pointer was followed. The target is as it was, or,
  if it existed and was empty, it is gone: the rollback of the failed write removes an empty file
  even when an earlier call had created it.\<close>

theorem fs_write_file_failure:
  assumes "fs_ok s" and "fs_write_file (Some path) (Some data) n s = (rc, s')" and "rc \<noteq> 0"
  shows "fs_ok s' \<and> fs_dirs s' = fs_dirs s \<and> cwd s' = cwd s \<and> fs_null_deref s' = fs_null_deref s
    \<and> (fs_files s' = fs_files s \<or>
       may_write s path \<and> (\<exists>u m. fs_files s (abs_path (cwd s) path) = Some ([], u, m)) \<and>
       fs_files s' = (fs_files s)(abs_path (cwd s) path := None))"
  using fs_write_file_fail [OF assms] by blast

definition empty_fs :: fs where
  "empty_fs = snd (fs_create_file (Some ''/a'') fresh_fs)"

lemma fresh_may_create: "may_create fresh_fs ''/a''"
  using fresh_may_write by (simp add: may_write_def fresh_fs_ok)

lemma empty_fs_ok:
  "fs_ok empty_fs" "fs_files empty_fs = [''/a'' \<mapsto> ([], 0, 420)]" "cwd empty_fs = cwd fresh_fs"
  "fs_cur_uid empty_fs = 0"
proof -
  have c: "fs_create_file (Some ''/a'') fresh_fs = (0, empty_fs)"
    using fs_create_file_succeeds [OF fresh_may_create] fresh_free_slot by (simp add: empty_fs_def prod_eq_iff)
  note C = fs_create_file_law [OF fresh_fs_ok(1) c]
  show "fs_ok empty_fs" "fs_files empty_fs = [''/a'' \<mapsto> ([], 0, 420)]" "cwd empty_fs = cwd fresh_fs"
    "fs_cur_uid empty_fs = 0"
    using C by (simp_all add: fresh_fs_ok fresh_parent)
qed

text \<open>The witness is that case: the file \<^verbatim>\<open>/a\<close> exists and is empty, a write of 32 MiB is refused, and
  afterwards there is no file \<^verbatim>\<open>/a\<close>.\<close>

theorem fs_write_file_failure_witness:
  "fs_files empty_fs ''/a'' \<noteq> None \<and> fst (fs_write_file (Some ''/a'') (Some ''x'') MAX_FILE_DATA empty_fs) = - 2 \<and>
   fs_files (snd (fs_write_file (Some ''/a'') (Some ''x'') MAX_FILE_DATA empty_fs)) ''/a'' = None"
proof -
  let ?w = "fs_write_file (Some ''/a'') (Some ''x'') MAX_FILE_DATA empty_fs"
  have full: "is_cstring ''/a''" by simp
  have "file_index empty_fs ''/a'' \<noteq> None"
    using fs_files_None_iff [OF full, of empty_fs] empty_fs_ok(2) by simp
  then obtain i where ix: "file_index empty_fs ''/a'' = Some i" by auto
  have w: "?w = (- 2, write_rollback i (empty_fs\<lparr>fs_errno := 0\<rparr>))"
    using ix by (simp add: fs_write_file_def empty_fs_ok fresh_parent errno_frame perm_allows_def write_slot_def MAX_FILE_DATA_def Let_def)
  have e: "fs_ok (empty_fs\<lparr>fs_errno := 0\<rparr>)" "file_index (empty_fs\<lparr>fs_errno := 0\<rparr>) ''/a'' = Some i"
    using ix empty_fs_ok by (simp_all add: errno_frame)
  have "fs_files (empty_fs\<lparr>fs_errno := 0\<rparr>) ''/a'' = Some ([], 0, 420)" using empty_fs_ok(2) by (simp add: errno_frame)
  then have "fs_files (empty_fs\<lparr>fs_errno := 0\<rparr>) ''/a'' = Some ([], fowner (empty_fs\<lparr>fs_errno := 0\<rparr>) i, fmode (empty_fs\<lparr>fs_errno := 0\<rparr>) i)"
    using fs_files_index [OF e(2) full] by simp
  then have "write_rollback i (empty_fs\<lparr>fs_errno := 0\<rparr>) = drop_file i (empty_fs\<lparr>fs_errno := 0\<rparr>)"
    using write_rollback_cases [OF e full] by metis
  then have "fs_files (snd ?w) ''/a'' = None" using drop_file_ok(4) [OF e full] w by simp
  then show ?thesis
    using fs_write_file_failure [OF empty_fs_ok(1), of "''/a''" "''x''" MAX_FILE_DATA "fst ?w" "snd ?w"] w
    by (simp add: empty_fs_ok)
qed

text \<open>C13. Reading back: after a successful write a caller with read permission gets the written bytes,
  cut to the capacity of its buffer, and a caller without it gets -2 and nothing; the result of reading
  any other path is what it was before the write.\<close>

theorem write_then_read:
  assumes "fs_ok s" and "fs_write_file (Some path) (Some data) n s = (0, s')" and "sz < 4294967295"
  shows "fs_read_file (Some path) True sz s' =
      (if perm_allows s (snd (write_meta s (abs_path (cwd s) path))) (fst (write_meta s (abs_path (cwd s) path))) PERM_R
       then (0, Some (take sz (data_bytes data n)), s'\<lparr>fs_errno := 0\<rparr>)
       else (- 2, Some [], fs_deny (s'\<lparr>fs_errno := 0\<rparr>)))
    \<and> (\<forall>q. abs_path (cwd s) q = abs_path (cwd s) path \<or>
         (fst (fs_read_file (Some q) True sz s'), fst (snd (fs_read_file (Some q) True sz s'))) =
         (fst (fs_read_file (Some q) True sz s), fst (snd (fs_read_file (Some q) True sz s))))"
proof -
  note W = fs_write_file_ok [OF assms(1,2)]
  then have ok: "fs_ok s'" and c: "cwd s' = cwd s" and u: "fs_cur_uid s' = fs_cur_uid s" by blast+
  have p: "perm_allows s' m v b = perm_allows s m v b" for m v b by (simp add: perm_allows_def u)
  show ?thesis using W
    by (auto simp: fs_read_file_law [OF ok assms(3)] fs_read_file_law [OF assms(1,3)] c p split: prod.splits option.splits)
qed

theorem write_then_read_witness:
  "fs_write_file (Some ''/a'') (Some ''hello'') 5 fresh_fs = (0, hello_fs) \<and>
   fs_read_file (Some ''/a'') True 64 hello_fs = (0, Some ''hello'', hello_fs\<lparr>fs_errno := 0\<rparr>)"
  using write_then_read [OF fresh_fs_ok(1) hello_fs_write, of 64] hello_fs_write
  by (simp add: perm_allows_def fresh_fs_ok)

text \<open>Appending: \<^verbatim>\<open>fs_append_file\<close> with result 0 leaves the old contents (nothing, if the file is
  new) followed by the new bytes, and touches nothing else. The bound on the length excludes only
  chunks of almost 4 GiB, for which the sum of the sizes wraps around in \<^verbatim>\<open>uint32_t\<close>.\<close>

theorem fs_append_file_appends:
  assumes "fs_ok s" and "len < 4294967296 - MAX_FILE_DATA"
    and "fs_append_file (Some path) (Some data) len s = (0, s')"
  shows "fs_files s' = (fs_files s)(abs_path (cwd s) path \<mapsto>
      (old_bytes s (abs_path (cwd s) path) @ data_bytes data len, write_meta s (abs_path (cwd s) path)))
    \<and> fs_dirs s' = fs_dirs s \<and> cwd s' = cwd s \<and> may_write s path \<and> fs_ok s' \<and> fs_null_deref s' = fs_null_deref s"
  using fs_append_file_ok [OF assms] by simp

lemma append_slot_succeeds:
  assumes "data_ok s" "idx < MAX_F" "old + len < MAX_FILE_DATA" "0 < len" "has_room s (old + len + 1)"
  shows "fst (append_slot idx old data len s) = 0"
proof -
  have u: "u32 (old + len) = old + len" using assms(3) by (simp add: MAX_FILE_DATA_def)
  show ?thesis using fdata_resize_succeeds [OF assms(1-3)] assms(3,5)
    by (auto simp: append_slot_def u split: prod.splits)
qed

lemma fs_append_new_succeeds:
  assumes ok: "fs_ok s" and m: "may_create s path" and p: "cstr path \<noteq> []" and sl: "free_file_slot s \<noteq> None"
    and n: "0 < len" "len < MAX_FILE_DATA" "has_room s (len + 1)"
  shows "fst (fs_append_file (Some path) (Some data) len s) = 0"
proof -
  let ?s = "s\<lparr>fs_errno := 0\<rparr>" and ?full = "abs_path (cwd s) path"
  have full: "is_cstring ?full" by (simp add: abs_path_ok)
  have no: "file_index s ?full = None" using m full by (simp add: may_create_def fs_files_None_iff Let_def)
  have "may_create ?s path" "free_file_slot ?s \<noteq> None" using m sl by (simp_all add: free_file_slot_def)
  from fs_create_file_succeeds [OF this(1) p this(2)] obtain s1 where c: "fs_create_file (Some path) ?s = (0, s1)"
    by (cases "fs_create_file (Some path) ?s") auto
  note C = fs_create_file_law [OF _ c, simplified errno_frame, simplified, OF ok]
  from C(8) obtain idx where ix: "file_index s1 ?full = Some idx" by auto
  have "fs_pool s1 = fs_pool s" using create_keeps_pool [OF c] by simp
  then have "fst (append_slot idx 0 data len s1) = 0"
    using C(1) n file_index_used [OF ix] by (intro append_slot_succeeds) (auto simp: fs_ok_def has_room_def)
  then show ?thesis using no c ix p n by (simp add: fs_append_file_def errno_frame Let_def)
qed

theorem fs_append_file_appends_witness:
  "fst (fs_append_file (Some ''/a'') (Some ''hello'') 5 fresh_fs) = 0 \<and>
   fs_files (snd (fs_append_file (Some ''/a'') (Some ''hello'') 5 fresh_fs)) ''/a'' = Some (''hello'', 0, 420)"
proof -
  let ?r = "fs_append_file (Some ''/a'') (Some ''hello'') 5 fresh_fs"
  have z: "fst ?r = 0"
    by (rule fs_append_new_succeeds)
      (simp_all add: fresh_fs_ok fresh_may_create fresh_free_slot fresh_room MAX_FILE_DATA_def)
  then show ?thesis
    using fs_append_file_appends [OF fresh_fs_ok(1), of 5 "''/a''" "''hello''" "snd ?r"]
    by (simp add: fresh_parent old_bytes_def write_meta_def fresh_fs_ok MAX_FILE_DATA_def prod_eq_iff)
qed

text \<open>C23. Liveness: a write succeeds whenever the caller may write the path, the size is below the
  32 MiB limit, a slot is free if the file is new, and the pool has a free block for the data and its
  NUL (the new block is allocated before the old one is freed).\<close>

theorem fs_write_file_succeeds:
  assumes "fs_ok s" "may_write s path" "cstr path \<noteq> []" "n < MAX_FILE_DATA"
    and "fs_files s (abs_path (cwd s) path) \<noteq> None \<or> free_file_slot s \<noteq> None"
    and "n = 0 \<or> has_room s (n + 1)"
  shows "fst (fs_write_file (Some path) (Some data) n s) = 0"
  using fs_write_file_succeeds_aux [OF assms(1-3,5,4,6)] .

theorem fs_write_file_succeeds_witness:
  "may_write fresh_fs ''/a'' \<and> fst (fs_write_file (Some ''/a'') (Some ''xyz'') 3 fresh_fs) = 0"
  using fs_write_file_succeeds [OF fresh_fs_ok(1) fresh_may_write, of 3 "''xyz''"] fresh_room [of 4]
  by (simp add: fresh_may_write fresh_free_slot MAX_FILE_DATA_def)

text \<open>Writing in place: when \<^verbatim>\<open>fs_write_at\<close> returns 0 and the end of the range does not wrap around,
  the range lies inside the file, exactly those bytes of it are replaced, and no other file changes.\<close>

theorem fs_write_at_overwrites:
  assumes "fs_ok s" and "offset + len < 4294967296"
    and "fs_write_at (Some path) offset (Some data) len s = (0, s')"
  shows "\<exists>b u m. fs_files s (abs_path (cwd s) path) = Some (b, u, m) \<and> offset + len \<le> length b \<and> fs_ok s' \<and>
    fs_dirs s' = fs_dirs s \<and> fs_files s' = (fs_files s)(abs_path (cwd s) path \<mapsto>
      (take offset b @ data_bytes data len @ drop (offset + len) b, u, m))"
  using fs_write_at_ok [OF assms] by blast

lemma hello_index: "\<exists>i. file_index hello_fs ''/a'' = Some i \<and> fsize hello_fs i = 5 \<and> fdata hello_fs i \<noteq> None \<and>
    fowner hello_fs i = 0 \<and> fmode hello_fs i = 420 \<and> i < MAX_F"
proof -
  from hello_fs_ok(2) obtain i where i: "file_index hello_fs ''/a'' = Some i" "file_bytes hello_fs i = ''hello''"
    "fowner hello_fs i = 0" "fmode hello_fs i = 420"
    using fs_files_Some_iff [of hello_fs "''/a''" "(''hello'', 0, 420)"] by auto
  have "slot_data_ok hello_fs i"
    using data_okD(2) [of hello_fs i] hello_fs_ok(1) file_index_used [OF i(1)] by (simp add: fs_ok_def)
  from length_file_bytes [OF this] i have "nat (fsize hello_fs i) = 5" by simp
  moreover have "fdata hello_fs i \<noteq> None" using i(2) by (auto simp: file_bytes_def split: option.splits)
  ultimately show ?thesis using i file_index_used [OF i(1)] by auto
qed

lemma hello_abs [simp]: "abs_path (cwd hello_fs) ''/a'' = ''/a''"
  by (simp add: hello_fs_ok fresh_parent)

theorem fs_write_at_overwrites_witness:
  "fst (fs_write_at (Some ''/a'') 1 (Some ''uh'') 2 hello_fs) = 0 \<and>
   fs_files (snd (fs_write_at (Some ''/a'') 1 (Some ''uh'') 2 hello_fs)) ''/a'' = Some (''huhlo'', 0, 420)"
proof -
  let ?r = "fs_write_at (Some ''/a'') 1 (Some ''uh'') 2 hello_fs"
  have z: "fst ?r = 0" using hello_index by (auto simp: fs_write_at_def)
  then show ?thesis
    using fs_write_at_overwrites [OF hello_fs_ok(1), of 1 2 "''/a''" "''uh''" "snd ?r"]
    by (simp add: hello_fs_ok(2) prod_eq_iff)
qed

subsection \<open>Properties: deleting and permissions\<close>

text \<open>Deleting: \<^verbatim>\<open>fs_delete_file\<close> with result 0 removes exactly the file at the path, which existed
  and whose parent the caller may write, and gives its block back to the pool: the live blocks
  afterwards are those of the other files. With any other result no table changes.\<close>

theorem fs_delete_file_removes:
  assumes "fs_ok s" and "fs_delete_file (Some path) s = (rc, s')"
  shows "if rc = 0
    then fs_files s (abs_path (cwd s) path) \<noteq> None \<and> parent_writable s (abs_path (cwd s) path) \<and>
      fs_files s' = (fs_files s)(abs_path (cwd s) path := None) \<and> fs_dirs s' = fs_dirs s \<and> fs_ok s' \<and>
      dom (pool_live (fs_pool s')) = {p. \<exists>i<MAX_F. fdata s' i = Some p}
    else tabs s' = tabs s"
proof (cases "rc = 0")
  case True
  note D = fs_delete_file_ok [OF assms(1) assms(2) [unfolded True]]
  then have "data_ok s'" by (simp add: fs_ok_def)
  then have "dom (pool_live (fs_pool s')) = {p. \<exists>i<MAX_F. fdata s' i = Some p}"
    unfolding data_ok_def slot_data_ok_def by (fastforce split: option.splits)
  then show ?thesis using D True by simp
qed (use fs_delete_file_fail [OF assms(2)] in simp)

lemma hello_delete: "fst (fs_delete_file (Some ''/a'') hello_fs) = 0"
proof -
  obtain i where "file_index hello_fs ''/a'' = Some i" using hello_index by blast
  moreover have "parent_writable hello_fs ''/a''"
    by (auto simp: parent_writable_def perm_allows_def hello_fs_ok split: option.splits)
  ultimately show ?thesis
    by (simp add: fs_delete_file_def may_modify_parent_eq errno_frame Let_def)
qed

theorem fs_delete_file_removes_witness:
  "fs_files hello_fs ''/a'' \<noteq> None \<and> fs_files (snd (fs_delete_file (Some ''/a'') hello_fs)) ''/a'' = None"
  using fs_delete_file_removes [OF hello_fs_ok(1), of "''/a''" 0 "snd (fs_delete_file (Some ''/a'') hello_fs)"] hello_delete
  by (simp add: prod_eq_iff)

text \<open>C24. Permissions of a file are enforced: a user to whom the mode denies writing gets -2 from
  \<^verbatim>\<open>fs_write_file\<close> and \<^verbatim>\<open>fs_append_file\<close>, with error number 13 and every table unchanged, and one to
  whom it denies reading gets -2 and no byte from \<^verbatim>\<open>fs_read_file\<close>.\<close>

theorem file_permissions_enforced:
  assumes "fs_files s (abs_path (cwd s) path) = Some (b, u, m)" and "fs_ok s" and "cstr path \<noteq> []"
  shows "(perm_allows s m u PERM_W \<or>
      (fst (fs_write_file (Some path) (Some data) n s) = - 2 \<and> fs_errno (snd (fs_write_file (Some path) (Some data) n s)) = 13 \<and>
       tabs (snd (fs_write_file (Some path) (Some data) n s)) = tabs s) \<and>
      (n = 0 \<or> fst (fs_append_file (Some path) (Some data) n s) = - 2 \<and> tabs (snd (fs_append_file (Some path) (Some data) n s)) = tabs s))
    \<and> (perm_allows s m u PERM_R \<or> sz \<ge> 4294967295 \<or>
      (fst (fs_read_file (Some path) True sz s) = - 2 \<and> fst (snd (fs_read_file (Some path) True sz s)) = Some []))"
proof -
  from assms(1) obtain i where i: "file_index s (abs_path (cwd s) path) = Some i" "u = fowner s i" "m = fmode s i"
    by (auto simp: fs_files_Some_iff)
  have w: "fs_write_file (Some path) (Some data) n s = (- 2, fs_deny (s\<lparr>fs_errno := 0\<rparr>)) \<and>
      (n = 0 \<or> fs_append_file (Some path) (Some data) n s = (- 2, fs_deny (s\<lparr>fs_errno := 0\<rparr>)))"
    if "\<not> perm_allows s m u PERM_W"
    using that i assms(3) by (simp add: fs_write_file_def fs_append_file_def errno_frame Let_def)
  then show ?thesis
    using fs_read_file_law [OF assms(2), of sz path] assms(1) by (auto split: if_splits)
qed

text \<open>The witness is user 7 on a file of root with mode 0644 from which the right of others to read has
  been taken (0600).\<close>

definition secret_fs :: fs where
  "secret_fs = (snd (fs_chmod (Some ''/a'') 384 hello_fs))\<lparr>fs_cur_uid := 7\<rparr>"

lemma secret_fs_ok:
  "fs_ok secret_fs" "fs_files secret_fs ''/a'' = Some (''hello'', 0, 384)" "fs_cur_uid secret_fs = 7"
  "abs_path (cwd secret_fs) ''/a'' = ''/a''" "fs_null_deref secret_fs = False"
  "\<exists>i. file_index secret_fs ''/a'' = Some i \<and> fsize secret_fs i = 5 \<and> fdata secret_fs i \<noteq> None"
proof -
  let ?t = "snd (fs_chmod (Some ''/a'') 384 hello_fs)"
  note M = meta_changeD [OF fs_chmod_meta [of hello_fs "Some ''/a''" 384]]
  obtain i where i: "file_index hello_fs ''/a'' = Some i" "fsize hello_fs i = 5" "fdata hello_fs i \<noteq> None"
    "fowner hello_fs i = 0" using hello_index by blast
  have e: "?t = fs_commit_change (hello_fs\<lparr>fmode := (fmode hello_fs)(i := 384)\<rparr>)"
    using i by (simp add: fs_chmod_def hello_fs_ok(5) Let_def)
  have t: "tabs secret_fs = tabs ?t" by (simp add: secret_fs_def)
  note T = tabs_eqD [OF t]
  show "fs_ok secret_fs" using T(1) M(1) hello_fs_ok(1) by simp
  have ix: "file_index secret_fs ''/a'' = Some i" using T(7) M(2) i by simp
  have b: "file_bytes secret_fs i = ''hello''"
    using T(12) M(4) fs_files_index [OF i(1)] hello_fs_ok(2) by simp
  have "fowner secret_fs i = 0" "fmode secret_fs i = 384" using e i by (simp_all add: secret_fs_def)
  then show "fs_files secret_fs ''/a'' = Some (''hello'', 0, 384)" using fs_files_index [OF ix] b by simp
  show "fs_cur_uid secret_fs = 7" by (simp add: secret_fs_def)
  show "abs_path (cwd secret_fs) ''/a'' = ''/a''" using T(6) M(5) by simp
  show "fs_null_deref secret_fs = False" using M(9) hello_fs_ok(6) by (simp add: secret_fs_def)
  show "\<exists>i. file_index secret_fs ''/a'' = Some i \<and> fsize secret_fs i = 5 \<and> fdata secret_fs i \<noteq> None"
    using ix e i by (intro exI [of _ i]) (simp add: secret_fs_def)
qed

lemma secret_denied: "\<not> perm_allows secret_fs 384 0 PERM_W" "\<not> perm_allows secret_fs 384 0 PERM_R"
  by (simp_all add: perm_allows_def secret_fs_ok)

theorem file_permissions_enforced_witness:
  "fst (fs_write_file (Some ''/a'') (Some ''x'') 1 secret_fs) = - 2 \<and>
   fst (fs_read_file (Some ''/a'') True 100 secret_fs) = - 2"
  using file_permissions_enforced [of secret_fs "''/a''" "''hello''" 0 384 "''x''" 1 100] secret_fs_ok secret_denied
  by auto

text \<open>\<^verbatim>\<open>fs_write_at\<close> does not check permissions: user 7, whom the mode of root's file \<^verbatim>\<open>/a\<close> denies
  reading and writing, overwrites its contents.\<close>

theorem fs_write_at_ignores_mode:
  "fs_cur_uid secret_fs = 7 \<and> fs_files secret_fs ''/a'' = Some (''hello'', 0, 384) \<and>
   \<not> perm_allows secret_fs 384 0 PERM_W \<and>
   fs_files (snd (fs_write_at (Some ''/a'') 0 (Some ''owned'') 5 secret_fs)) ''/a'' = Some (''owned'', 0, 384)"
proof -
  let ?r = "fs_write_at (Some ''/a'') 0 (Some ''owned'') 5 secret_fs"
  have "fst ?r = 0" using secret_fs_ok(4,6) by (auto simp: fs_write_at_def)
  then have "?r = (0, snd ?r)" by (simp add: prod_eq_iff)
  from fs_write_at_ok [OF secret_fs_ok(1) _ this] show ?thesis
    using secret_fs_ok secret_denied by simp
qed

text \<open>Writing an empty file stores through a null pointer: for every state and path, a write of
  size 0 that returns 0 has executed \<^verbatim>\<open>fdata[idx][0] = 0\<close> after \<^verbatim>\<open>fdata_resize\<close> had set \<^verbatim>\<open>fdata[idx]\<close>
  to null; a successful write of any other size never does so.\<close>

theorem empty_write_stores_through_null:
  assumes "fs_ok s" "\<not> fs_null_deref s" "fs_write_file (Some path) (Some data) n s = (0, s')"
  shows "fs_null_deref s' \<longleftrightarrow> n = 0"
  using fs_write_file_ok [OF assms(1,3)] assms(2) by simp

theorem empty_write_stores_through_null_witness:
  "\<not> fs_null_deref fresh_fs \<and> fs_null_deref (snd (fs_write_file (Some ''/a'') (Some []) 0 fresh_fs))"
  using empty_write_stores_through_null [OF fresh_fs_ok(1), of "''/a''" "[]" 0] fresh_write [of 0 "[]"]
  by (simp add: fresh_fs_ok prod_eq_iff)

end
