(* ===== verification/FsReach.thy ===== *)
theory FsReach
  imports FsProps
begin

section \<open>Sequences of filesystem calls\<close>

text \<open>
  The kernel drives the filesystem by calling its functions in any order, with any arguments, for
  changing users. \<open>fs_call\<close> lists the calls, \<open>fs_exec\<close> runs one, and \<open>fs_run\<close> is the relation of
  states connected by a sequence of calls. The invariant \<open>fs_ok\<close> holds after every such sequence.
\<close>

subsection \<open>Every operation keeps the invariant\<close>

named_theorems fs_keeps \<open>operations keep the invariant\<close>

lemma fs_create_file_keeps [fs_keeps]: "fs_ok s \<Longrightarrow> fs_ok (snd (fs_create_file path s))"
proof (cases path)
  case (Some p)
  moreover assume "fs_ok s"
  ultimately show ?thesis using fs_create_file_law(1) [of s p] by (cases "fs_create_file path s") auto
qed (simp add: fs_create_file_def errno_frame)

lemma fs_delete_file_keeps [fs_keeps]: "fs_ok s \<Longrightarrow> fs_ok (snd (fs_delete_file path s))"
proof (cases path)
  case (Some p)
  assume ok: "fs_ok s"
  obtain rc s' where r: "fs_delete_file path s = (rc, s')" by fastforce
  show ?thesis
    using fs_delete_file_ok [OF ok, of p s'] fs_delete_file_fail [OF r] tabs_eqD(1) [of s' s] ok r Some
    by (cases "rc = 0") auto
qed (simp add: fs_delete_file_def errno_frame)

lemma fs_write_file_keeps [fs_keeps]: "fs_ok s \<Longrightarrow> fs_ok (snd (fs_write_file path data n s))"
proof (cases "\<exists>p d. path = Some p \<and> data = Some d")
  case True
  assume ok: "fs_ok s"
  from True obtain p d where "path = Some p" "data = Some d" by blast
  then show ?thesis
    using fs_write_file_ok [OF ok, of p d n] fs_write_file_fail [OF ok, of p d n]
    by (cases "fs_write_file path data n s") auto
next
  case False
  assume "fs_ok s"
  then show ?thesis using False
    by (cases path; cases data) (auto simp: fs_write_file_def errno_frame Let_def)
qed

lemma fs_append_file_keeps [fs_keeps]:
  "fs_ok s \<Longrightarrow> len < 4294967296 - MAX_FILE_DATA \<Longrightarrow> fs_ok (snd (fs_append_file path data len s))"
proof (cases "\<exists>p d. path = Some p \<and> data = Some d")
  case True
  assume ok: "fs_ok s" and len: "len < 4294967296 - MAX_FILE_DATA"
  from True obtain p d where "path = Some p" "data = Some d" by blast
  then show ?thesis
    using fs_append_file_ok [OF ok len, of p d] fs_append_file_fail [OF ok, of p data len]
    by (cases "fs_append_file path data len s") auto
next
  case False
  assume "fs_ok s"
  then show ?thesis using False
    by (cases path; cases data) (auto simp: fs_append_file_def errno_frame Let_def)
qed

lemma fs_write_at_keeps [fs_keeps]:
  "fs_ok s \<Longrightarrow> offset + len < 4294967296 \<Longrightarrow> fs_ok (snd (fs_write_at path offset data len s))"
proof -
  assume ok: "fs_ok s" and len: "offset + len < 4294967296"
  obtain rc s' where r: "fs_write_at path offset data len s = (rc, s')" by fastforce
  show ?thesis
  proof (cases "rc = 0")
    case True
    then obtain p d where "path = Some p" "data = Some d"
      using r by (auto simp: fs_write_at_def split: option.splits)
    then show ?thesis using fs_write_at_ok [OF ok len, of p d s'] r True by auto
  qed (use fs_write_at_fail [OF r] ok r in simp)
qed

lemma fs_prealloc_file_keeps [fs_keeps]: "fs_ok s \<Longrightarrow> fs_ok (snd (fs_prealloc_file path n s))"
proof (cases path)
  case (Some p)
  moreover assume "fs_ok s"
  ultimately show ?thesis using fs_prealloc_file_law [of s p n] by (cases "fs_prealloc_file path n s") auto
qed (simp add: fs_prealloc_file_def)

lemma fs_create_directory_keeps [fs_keeps]: "fs_ok s \<Longrightarrow> fs_ok (snd (fs_create_directory path s))"
proof (cases path)
  case (Some p)
  assume ok: "fs_ok s"
  obtain rc s' where r: "fs_create_directory path s = (rc, s')" by fastforce
  show ?thesis
    using fs_create_directory_ok [OF ok, of p s'] fs_create_directory_fail [OF r] tabs_eqD(1) [of s' s] ok r Some
    by (cases "rc = 0") auto
qed (simp add: fs_create_directory_def errno_frame)

lemma fs_delete_directory_keeps [fs_keeps]: "fs_ok s \<Longrightarrow> fs_ok (snd (fs_delete_directory path s))"
proof (cases path)
  case (Some p)
  assume ok: "fs_ok s"
  obtain rc s' where r: "fs_delete_directory path s = (rc, s')" by fastforce
  show ?thesis
    using fs_delete_directory_ok [OF ok, of p s'] fs_delete_directory_fail [OF r] tabs_eqD(1) [of s' s] ok r Some
    by (cases "rc = 0") auto
qed (simp add: fs_delete_directory_def errno_frame)

lemma fs_change_directory_keeps [fs_keeps]: "fs_ok s \<Longrightarrow> fs_ok (snd (fs_change_directory path s))"
  using fs_change_directory_law [of s path] by (cases "fs_change_directory path s") auto

lemma fs_meta_keeps [fs_keeps]:
  "fs_ok s \<Longrightarrow> fs_ok (snd (fs_chmod path mode s))" "fs_ok s \<Longrightarrow> fs_ok (snd (fs_chown path uid s))"
  "fs_ok s \<Longrightarrow> fs_ok (snd (fs_chmod_recursive path mode s))"
  "fs_ok s \<Longrightarrow> fs_ok (snd (fs_chown_recursive path uid s))"
  "fs_ok s \<Longrightarrow> fs_ok (snd (fs_reassign_uid a b s))"
  by (simp_all add: meta_changeD(1) [OF fs_chmod_meta] meta_changeD(1) [OF fs_chown_meta]
      meta_changeD(1) [OF fs_chmod_recursive_meta] meta_changeD(1) [OF fs_chown_recursive_meta]
      meta_changeD(1) [OF fs_reassign_uid_meta])

lemma fs_cur_uid_keeps [fs_keeps]: "fs_ok s \<Longrightarrow> fs_ok (s\<lparr>fs_cur_uid := u\<rparr>)"
  using tabs_eqD(1) [of "s\<lparr>fs_cur_uid := u\<rparr>" s] by simp

lemma fs_misc_keeps [fs_keeps]:
  "fs_ok (s\<lparr>fs_batch_depth := n\<rparr>) = fs_ok s" "fs_ok (s\<lparr>fs_errno := e\<rparr>) = fs_ok s"
  "fs_ok (fs_commit_change s) = fs_ok s" "fs_ok (fs_deny s) = fs_ok s" "fs_ok (s\<lparr>fs_null_deref := b\<rparr>) = fs_ok s"
  by (simp_all add: tabs_eqD(1) [OF tabs_frame(4)] tabs_eqD(1) [OF tabs_frame(3)] tabs_eqD(1) [OF tabs_frame(1)]
      tabs_eqD(1) [OF tabs_frame(2)] tabs_eqD(1) [OF tabs_frame(6)])

lemma fs_list_directory_frame:
  "fs_list_directory path dst s = (rc, b, s') \<Longrightarrow>
     tabs s' = tabs s \<and> fs_cur_uid s' = fs_cur_uid s \<and> fs_batch_depth s' = fs_batch_depth s \<and> fs_null_deref s' = fs_null_deref s"
  by (auto simp: fs_list_directory_def Let_def split: if_splits option.splits)

lemma delete_entries_keeps:
  assumes "\<And>c s r t. rec c s = Some (r, t) \<Longrightarrow> fs_ok s \<Longrightarrow> fs_ok t"
  shows "delete_entries rec path buf s = Some (rc, s') \<Longrightarrow> fs_ok s \<Longrightarrow> fs_ok s'"
  using assms
proof (induction rec path buf s rule: delete_entries.induct)
  case (1 rec path buf s)
  obtain e rest where ne: "next_entry buf = (e, rest)" by fastforce
  show ?case
  proof (cases "buf = [] \<or> e = []")
    case True
    then show ?thesis using 1 ne by (auto simp: delete_entries.simps [of rec path buf s] split: if_splits)
  next
    case False
    let ?c = "child_path path (if last e = SLASH then butlast e else e)"
    let ?r = "if last e = SLASH then rec ?c s else Some (fs_delete_file (Some ?c) s)"
    from False 1(3) ne obtain r t where r: "?r = Some (r, t)"
      and rest: "(r \<noteq> 0 \<and> s' = t) \<or> delete_entries rec path rest t = Some (rc, s') \<and> r = 0"
      by (auto simp: delete_entries.simps [of rec path buf s] Let_def split: option.splits if_splits prod.splits)
    have "fs_ok t" using r 1(4,5) fs_delete_file_keeps [of s "Some ?c"] by (auto split: if_splits)
    then show ?thesis
      using rest 1(2) [OF _ ne [symmetric] _ refl refl refl r refl] 1(5) False by blast
  qed
qed

lemma fs_delete_directory_recursive_keeps:
  "fs_delete_directory_recursive n path s = Some (rc, s') \<Longrightarrow> fs_ok s \<Longrightarrow> fs_ok s'"
proof (induction n arbitrary: path s rc s')
  case (Suc n)
  let ?s = "s\<lparr>fs_errno := 0\<rparr>"
  let ?t = "?s\<lparr>fs_batch_depth := fs_batch_depth s + 1\<rparr>"
  obtain r b t where l: "fs_list_directory path True ?t = (r, b, t)" by (metis prod_cases3)
  have t: "fs_ok t" using fs_list_directory_frame [OF l] tabs_eqD(1) [of t ?t] Suc.prems(2) by (simp add: fs_keeps)
  show ?case
  proof (cases "null_or_empty path \<or> \<not> parent_writable s (abs_path (cwd s) (the path)) \<or>
      \<not> fs_directory_exists s path \<or> r \<noteq> 0")
    case True
    then show ?thesis using Suc.prems l t
      by (auto simp: may_modify_parent_eq errno_frame fs_keeps Let_def split: if_splits)
  next
    case False
    then obtain r1 u where d: "delete_entries (\<lambda>c. fs_delete_directory_recursive n (Some c)) (the path) (the b) t = Some (r1, u)"
      and s': "s' = (let v = if r1 = 0 then snd (fs_delete_directory path u) else u
        in fs_commit_change (v\<lparr>fs_batch_depth := fs_batch_depth v - 1\<rparr>))"
      using Suc.prems(1) l by (auto simp: may_modify_parent_eq errno_frame Let_def split: option.splits prod.splits if_splits)
    have "fs_ok u" by (rule delete_entries_keeps [OF _ d t]) (rule Suc.IH)
    then show ?thesis by (simp add: s' Let_def fs_keeps)
  qed
qed simp

lemma home_subdir_step_keeps: "fs_ok s \<Longrightarrow> fs_ok (home_subdir_step base uid s sub)"
  by (simp add: home_subdir_step_def Let_def fs_keeps)

lemma foldl_keeps: "(\<And>s x. P s \<Longrightarrow> P (f s x)) \<Longrightarrow> P s \<Longrightarrow> P (foldl f s xs)"
  by (induction xs arbitrary: s) auto

lemma fs_create_home_tree_keeps [fs_keeps]: "fs_ok s \<Longrightarrow> fs_ok (snd (fs_create_home_tree base uid s))"
proof -
  assume ok: "fs_ok s"
  let ?m = "if \<not> fs_directory_exists (s\<lparr>fs_cur_uid := 0\<rparr>) (Some base)
    then fs_create_directory (Some base) (s\<lparr>fs_cur_uid := 0\<rparr>) else (0, s\<lparr>fs_cur_uid := 0\<rparr>)"
  have m: "fs_ok (snd ?m)" using ok by (simp add: fs_keeps)
  then have "fs_ok (foldl (home_subdir_step base uid) (snd ?m) home_subdirs)"
    by (intro foldl_keeps [where P = fs_ok] home_subdir_step_keeps)
  with m show ?thesis by (simp add: fs_create_home_tree_def Let_def fs_keeps)
qed

lemma seed_file_keeps: "fs_ok (fst st) \<Longrightarrow> fs_ok (fst (seed_file path data sz st))"
proof -
  assume ok: "fs_ok (fst st)"
  obtain s k where st: "st = (s, k)" by fastforce
  obtain rc s1 where c: "fs_create_file (Some path) s = (rc, s1)" by fastforce
  obtain rc2 s2 where w: "fs_write_file (Some path) (Some data) sz s1 = (rc2, s2)" by fastforce
  have "fs_ok s1" using fs_create_file_keeps [of s "Some path"] ok c st by simp
  moreover from this have "fs_ok s2" using fs_write_file_keeps [of s1 "Some path" "Some data" sz] w by simp
  ultimately show ?thesis using ok st c w by (auto simp: seed_file_def fs_keeps)
qed

lemma seed_walk_keeps: "fs_ok (fst st) \<Longrightarrow> fs_ok (fst (seed_walk tar st))"
proof (induction tar st rule: seed_walk.induct)
  case (1 tar st)
  note keep = fs_keeps seed_file_keeps
  show ?case
    by (subst seed_walk.simps) (use 1 in \<open>auto simp: Let_def keep\<close>)
qed

lemma fs_seed_home_keeps [fs_keeps]: "fs_ok s \<Longrightarrow> fs_ok (snd (fs_seed_home tar s))"
proof -
  assume ok: "fs_ok s"
  obtain s1 k where w: "seed_walk tar (s, 0) = (s1, k)" by fastforce
  have "fs_ok s1" using seed_walk_keeps [of "(s, 0)" tar] ok w by simp
  then show ?thesis using w by (simp add: fs_seed_home_def Let_def fs_keeps)
qed

subsection \<open>Runs\<close>

datatype fs_call =
    CreateFile cptr | DeleteFile cptr | WriteFile cptr cptr nat | AppendFile cptr cptr nat
  | WriteAt cptr nat cptr nat | PreallocFile cptr nat
  | CreateDirectory cptr | DeleteDirectory cptr | DeleteRecursive nat cptr | ChangeDirectory cptr
  | Chmod cptr int | Chown cptr int | ChmodRecursive cptr int | ChownRecursive cptr int
  | ReassignUid int int | CreateHomeTree bytes int | SeedHome bytes | SetUid int

text \<open>The lengths a call may be given so that no \<^verbatim>\<open>uint32_t\<close> sum in it wraps around.\<close>

fun call_ok :: "fs_call \<Rightarrow> bool" where
  "call_ok (AppendFile _ _ len) = (len < 4294967296 - MAX_FILE_DATA)"
| "call_ok (WriteAt _ offset _ len) = (offset + len < 4294967296)"
| "call_ok _ = True"

fun fs_exec :: "fs_call \<Rightarrow> fs \<Rightarrow> fs option" where
  "fs_exec (CreateFile p) s = Some (snd (fs_create_file p s))"
| "fs_exec (DeleteFile p) s = Some (snd (fs_delete_file p s))"
| "fs_exec (WriteFile p d n) s = Some (snd (fs_write_file p d n s))"
| "fs_exec (AppendFile p d n) s = Some (snd (fs_append_file p d n s))"
| "fs_exec (WriteAt p i d n) s = Some (snd (fs_write_at p i d n s))"
| "fs_exec (PreallocFile p n) s = Some (snd (fs_prealloc_file p n s))"
| "fs_exec (CreateDirectory p) s = Some (snd (fs_create_directory p s))"
| "fs_exec (DeleteDirectory p) s = Some (snd (fs_delete_directory p s))"
| "fs_exec (DeleteRecursive k p) s = map_option snd (fs_delete_directory_recursive k p s)"
| "fs_exec (ChangeDirectory p) s = Some (snd (fs_change_directory p s))"
| "fs_exec (Chmod p m) s = Some (snd (fs_chmod p m s))"
| "fs_exec (Chown p u) s = Some (snd (fs_chown p u s))"
| "fs_exec (ChmodRecursive p m) s = Some (snd (fs_chmod_recursive p m s))"
| "fs_exec (ChownRecursive p u) s = Some (snd (fs_chown_recursive p u s))"
| "fs_exec (ReassignUid a b) s = Some (snd (fs_reassign_uid a b s))"
| "fs_exec (CreateHomeTree b u) s = Some (snd (fs_create_home_tree b u s))"
| "fs_exec (SeedHome tar) s = Some (snd (fs_seed_home tar s))"
| "fs_exec (SetUid u) s = Some (s\<lparr>fs_cur_uid := u\<rparr>)"

inductive fs_run :: "fs \<Rightarrow> fs \<Rightarrow> bool" for s where
  start: "fs_run s s"
| call: "fs_run s t \<Longrightarrow> call_ok c \<Longrightarrow> fs_exec c t = Some u \<Longrightarrow> fs_run s u"

lemma fs_exec_keeps: "fs_exec c s = Some t \<Longrightarrow> call_ok c \<Longrightarrow> fs_ok s \<Longrightarrow> fs_ok t"
  by (cases c) (auto simp: fs_keeps dest: fs_delete_directory_recursive_keeps)

lemma fs_run_keeps: "fs_run s t \<Longrightarrow> fs_ok s \<Longrightarrow> fs_ok t"
  by (induction rule: fs_run.induct) (auto intro: fs_exec_keeps)



end
