(* ===== verification/FsSerial.thy ===== *)
theory FsSerial
  imports FsProps
begin

section \<open>The Storefile image of the filesystem (fs/fs.c)\<close>

text \<open>
  The tables are saved as a flat image (format 4): a header of eight bytes, the directory slots, the
  file slots with their sizes, the bytes of the files in use in slot order, the current directory, and
  the owners and modes. The serializer hands the image piece by piece to a sink, the deserializer pulls
  it from a source; the store layer connects both to the disk. Here the pieces are a list and a source
  is a function \<open>fill ctx len\<close> that returns whether it could deliver, the bytes it wrote, and its next
  state. The main result is the round trip.
\<close>

definition STORE_VERSION :: nat where
  "STORE_VERSION = 4"

subsection \<open>Sizes\<close>

definition fs_meta_size :: nat where
  "fs_meta_size = 8 + MAX_D + MAX_D * FS_PATH_CAP + MAX_F + MAX_F * 4 + MAX_F * FS_PATH_CAP + 256
     + MAX_D * 6 + MAX_F * 6"

definition fs_store_size :: nat where
  "fs_store_size = u32 (fs_meta_size + FS_DATA_POOL_SIZE)"

definition fs_serialized_size :: "fs \<Rightarrow> nat" where
  "fs_serialized_size s =
     foldl (\<lambda>need i. if fused s i \<noteq> 0 \<and> fsize s i > 0 then u32 (need + nat (fsize s i)) else need)
       fs_meta_size [0..<MAX_F]"

subsection \<open>Writing\<close>

text \<open>A C \<^verbatim>\<open>int\<close> as a byte, as two bytes, as a \<^verbatim>\<open>uint32_t\<close>, and back.\<close>

definition int_byte :: "int \<Rightarrow> byte" where
  "int_byte v = char_of (nat (v mod 256))"

definition int_le16 :: "int \<Rightarrow> bytes" where
  "int_le16 v = [int_byte v, int_byte (v div 256)]"

definition uint_of :: "int \<Rightarrow> nat" where
  "uint_of v = nat (v mod 4294967296)"

definition int_of_u32 :: "nat \<Rightarrow> int" where
  "int_of_u32 n = (if n < 2147483648 then int n else int n - 4294967296)"

definition fs_header :: bytes where
  "fs_header = ''TJFS'' @ [char_of STORE_VERSION, NUL, NUL, NUL]"

definition owner_chunks :: "int \<Rightarrow> int \<Rightarrow> bytes list" where
  "owner_chunks owner mode = [le32_bytes (uint_of owner), int_le16 mode]"

definition data_chunks :: "fs \<Rightarrow> nat \<Rightarrow> bytes list" where
  "data_chunks s i =
     (if fused s i = 0 \<or> fsize s i \<le> 0 then [] else [fst (fdata_read i 0 (nat (fsize s i)) s)])"

definition fs_serialize_chunks :: "fs \<Rightarrow> bytes list" where
  "fs_serialize_chunks s =
     [fs_header]
     @ map (\<lambda>i. [int_byte (dused s i)]) [0..<MAX_D]
     @ map (dname s) [0..<MAX_D]
     @ map (\<lambda>i. [int_byte (fused s i)]) [0..<MAX_F]
     @ map (\<lambda>i. le32_bytes (if fsize s i < 0 then 0 else uint_of (fsize s i))) [0..<MAX_F]
     @ map (fname s) [0..<MAX_F]
     @ concat (map (data_chunks s) [0..<MAX_F])
     @ [cwd s]
     @ concat (map (\<lambda>i. owner_chunks (downer s i) (dmode s i)) [0..<MAX_D])
     @ concat (map (\<lambda>i. owner_chunks (fowner s i) (fmode s i)) [0..<MAX_F])"

definition fs_serialize_sink :: "('c \<Rightarrow> bytes \<Rightarrow> 'c) \<Rightarrow> 'c \<Rightarrow> fs \<Rightarrow> 'c" where
  "fs_serialize_sink emit ctx s = foldl emit ctx (fs_serialize_chunks s)"

text \<open>The buffer wrapper: the result code and what it writes.\<close>

definition fs_buf_sink :: "bytes \<Rightarrow> bytes \<Rightarrow> bytes" where
  "fs_buf_sink out data = out @ data"

definition fs_serialize :: "bool \<Rightarrow> nat \<Rightarrow> fs \<Rightarrow> int \<times> bytes" where
  "fs_serialize buf buf_size s =
     (if \<not> buf then (- 1, [])
      else let need = fs_serialized_size s in
      if buf_size < need then (- 1, [])
      else (int need, fs_serialize_sink fs_buf_sink [] s))"

subsection \<open>Reading\<close>

type_synonym 'c fill = "'c \<Rightarrow> nat \<Rightarrow> bool \<times> bytes \<times> 'c"

definition overlay :: "bytes \<Rightarrow> bytes \<Rightarrow> bytes" where
  "overlay old new = new @ drop (length new) old"

fun fill_names :: "'c fill \<Rightarrow> nat list \<Rightarrow> (nat \<Rightarrow> bytes) \<Rightarrow> 'c \<Rightarrow> bool \<times> (nat \<Rightarrow> bytes) \<times> 'c" where
  "fill_names fill [] tab c = (True, tab, c)"
| "fill_names fill (i # is) tab c =
     (case fill c FS_PATH_CAP of (ok, b, c) \<Rightarrow>
      let tab = tab(i := overlay (tab i) b) in
      if ok then fill_names fill is tab c else (False, tab, c))"

definition le32_at :: "bytes \<Rightarrow> nat" where
  "le32_at b = le32_val (chr_at b 0) (chr_at b 1) (chr_at b 2) (chr_at b 3)"

definition le16_at :: "bytes \<Rightarrow> int" where
  "le16_at b = of_char (chr_at b 0) + 256 * of_char (chr_at b 1)"

fun fill_sizes :: "'c fill \<Rightarrow> nat list \<Rightarrow> (nat \<Rightarrow> int) \<Rightarrow> 'c \<Rightarrow> bool \<times> (nat \<Rightarrow> int) \<times> 'c" where
  "fill_sizes fill [] tab c = (True, tab, c)"
| "fill_sizes fill (i # is) tab c =
     (case fill c 4 of (ok, b, c) \<Rightarrow>
      if \<not> ok then (False, tab, c)
      else if le32_at b \<ge> MAX_FILE_DATA then (False, tab, c)
      else fill_sizes fill is (tab(i := int (le32_at b))) c)"

fun fill_data :: "'c fill \<Rightarrow> nat list \<Rightarrow> fs \<Rightarrow> 'c \<Rightarrow> bool \<times> fs \<times> 'c" where
  "fill_data fill [] s c = (True, s, c)"
| "fill_data fill (i # is) s c =
     (if fused s i = 0 then fill_data fill is (s\<lparr>fsize := (fsize s)(i := 0)\<rparr>) c
      else case fdata_resize i (uint_of (fsize s i)) s of (rc, s) \<Rightarrow>
        if rc \<noteq> 0 then (False, s, c)
        else case fill c (uint_of (fsize s i)) of (ok, b, c) \<Rightarrow>
          let s = fdata_write i 0 b s in
          if \<not> ok then (False, s, c)
          else fill_data fill is (fdata_put i (uint_of (fsize s i)) NUL s) c)"

text \<open>The ownership section ends early, without an error, when the image does.\<close>

fun fill_owners ::
    "'c fill \<Rightarrow> nat list \<Rightarrow> (nat \<Rightarrow> int) \<times> (nat \<Rightarrow> int) \<Rightarrow> 'c \<Rightarrow> bool \<times> ((nat \<Rightarrow> int) \<times> (nat \<Rightarrow> int)) \<times> 'c" where
  "fill_owners fill [] tb c = (True, tb, c)"
| "fill_owners fill (i # is) tb c =
     (case tb of (own, mode) \<Rightarrow>
      case fill c 4 of (ok, b, c) \<Rightarrow>
      if \<not> ok then (False, (own, mode), c)
      else let own = own(i := int_of_u32 (le32_at b)) in
      case fill c 2 of (ok, b, c) \<Rightarrow>
      if \<not> ok then (False, (own, mode), c)
      else fill_owners fill is (own, mode(i := le16_at b)) c)"

definition free_all_data :: "fs \<Rightarrow> fs" where
  "free_all_data s =
     foldl (\<lambda>s i. s\<lparr>fs_pool := fpool_free (fdata s i) (fs_pool s), fdata := (fdata s)(i := None),
                    fsize := (fsize s)(i := 0)\<rparr>) s [0..<MAX_F]"

definition set_used :: "nat \<Rightarrow> bytes \<Rightarrow> (nat \<Rightarrow> int) \<Rightarrow> nat \<Rightarrow> int" where
  "set_used n used tab = (\<lambda>i. if i < n then of_char (chr_at used i) else tab i)"

definition fill_tail :: "'c fill \<Rightarrow> fs \<Rightarrow> 'c \<Rightarrow> int \<times> fs \<times> 'c" where
  "fill_tail fill s c =
     (case fill c 256 of (ok, b, c) \<Rightarrow>
      let s = s\<lparr>cwd := overlay (cwd s) b\<rparr> in
      if \<not> ok then (- 1, s, c)
      else
        let s = s\<lparr>fowner := \<lambda>i. if i < MAX_F then 0 else fowner s i,
                  fmode := \<lambda>i. if i < MAX_F then 493 else fmode s i,
                  downer := \<lambda>i. if i < MAX_D then 0 else downer s i,
                  dmode := \<lambda>i. if i < MAX_D then 493 else dmode s i\<rparr>
        in case fill_owners fill [0..<MAX_D] (downer s, dmode s) c of (have, (ow, mo), c) \<Rightarrow>
           let s = s\<lparr>downer := ow, dmode := mo\<rparr> in
           if \<not> have then (0, s, c)
           else case fill_owners fill [0..<MAX_F] (fowner s, fmode s) c of (have, (ow, mo), c) \<Rightarrow>
             (0, s\<lparr>fowner := ow, fmode := mo\<rparr>, c))"

definition fill_files :: "'c fill \<Rightarrow> fs \<Rightarrow> 'c \<Rightarrow> int \<times> fs \<times> 'c" where
  "fill_files fill s c =
     (case fill c MAX_F of (ok, used, c) \<Rightarrow>
      if \<not> ok then (- 1, s, c)
      else let s = s\<lparr>fused := set_used MAX_F used (fused s)\<rparr> in
      case fill_sizes fill [0..<MAX_F] (fsize s) c of (ok, tab, c) \<Rightarrow>
      let s = s\<lparr>fsize := tab\<rparr> in
      if \<not> ok then (- 1, s, c)
      else case fill_names fill [0..<MAX_F] (fname s) c of (ok, tab, c) \<Rightarrow>
      let s = s\<lparr>fname := tab\<rparr> in
      if \<not> ok then (- 1, s, c)
      else case fill_data fill [0..<MAX_F] s c of (ok, s, c) \<Rightarrow>
      if \<not> ok then (- 1, s, c) else fill_tail fill s c)"

definition fs_deserialize_fill :: "'c fill \<Rightarrow> 'c \<Rightarrow> fs \<Rightarrow> int \<times> fs \<times> 'c" where
  "fs_deserialize_fill fill c s =
     (case fill c 8 of (ok, hdr, c) \<Rightarrow>
      if \<not> ok then (- 1, s, c)
      else if take 4 hdr \<noteq> ''TJFS'' then (- 1, s, c)
      else if chr_at hdr 4 \<noteq> char_of STORE_VERSION then (- 1, s, c)
      else
        let s = free_all_data s; s = s\<lparr>fs_pool := fpool_init (fs_pool s)\<rparr> in
        case fill c MAX_D of (ok, used, c) \<Rightarrow>
        if \<not> ok then (- 1, s, c)
        else let s = s\<lparr>dused := set_used MAX_D used (dused s)\<rparr> in
        case fill_names fill [0..<MAX_D] (dname s) c of (ok, tab, c) \<Rightarrow>
        let s = s\<lparr>dname := tab\<rparr> in
        if \<not> ok then (- 1, s, c) else fill_files fill s c)"

text \<open>The source that reads from a buffer.\<close>

definition fs_buf_fill :: "bytes fill" where
  "fs_buf_fill c len = (if length c < len then (False, [], c) else (True, take len c, drop len c))"

definition fs_deserialize :: "cptr \<Rightarrow> nat \<Rightarrow> fs \<Rightarrow> int \<times> fs" where
  "fs_deserialize buf buf_size s =
     (case buf of
        None \<Rightarrow> (- 1, s)
      | Some b \<Rightarrow> (case fs_deserialize_fill fs_buf_fill (data_bytes b buf_size) s of (rc, s, c) \<Rightarrow> (rc, s)))"

subsection \<open>Sources and sinks of bytes\<close>

text \<open>What the serializer relies on: a sink appends, a source delivers the next bytes of its rest and
  fails when there are too few. The buffers of \<^verbatim>\<open>fs.c\<close> are instances, the disk streams of \<^verbatim>\<open>store.c\<close>
  are others.\<close>

locale byte_source =
  fixes fill :: "'c fill" and rest :: "'c \<Rightarrow> bytes" and good :: "'c \<Rightarrow> bool"
  assumes fill_enough: "good c \<Longrightarrow> len \<le> length (rest c) \<Longrightarrow>
      \<exists>c'. fill c len = (True, take len (rest c), c') \<and> rest c' = drop len (rest c) \<and> good c'"
    and fill_short: "good c \<Longrightarrow> length (rest c) < len \<Longrightarrow> len < 2147483648 \<Longrightarrow> \<not> fst (fill c len)"
begin

lemma fill_next:
  assumes "good c" "rest c = b @ r" "length b = len"
  obtains c' where "fill c len = (True, b, c')" "rest c' = r" "good c'"
  using fill_enough [of c len] assms by auto

lemma fill_names_next:
  assumes "good c" "rest c = concat (map f is) @ r" "\<And>i. i \<in> set is \<Longrightarrow> length (f i) = 256 \<and> length (tab i) = 256"
  obtains c' where "fill_names fill is tab c = (True, \<lambda>i. if i \<in> set is then f i else tab i, c')" "rest c' = r" "good c'"
proof -
  have "\<exists>c'. fill_names fill is tab c = (True, \<lambda>i. if i \<in> set is then f i else tab i, c') \<and> rest c' = r \<and> good c'"
    using assms
  proof (induction "is" arbitrary: tab c)
    case (Cons i "is")
    have "rest c = f i @ concat (map f is) @ r" using Cons.prems(2) by simp
    from fill_next [OF Cons.prems(1) this, of 256] Cons.prems(3) [of i] obtain c1 where c1: "fill c 256 = (True, f i, c1)"
      "rest c1 = concat (map f is) @ r" "good c1" by auto
    let ?tab = "tab(i := f i)"
    have "\<exists>c'. fill_names fill is ?tab c1 = (True, \<lambda>j. if j \<in> set is then f j else ?tab j, c') \<and> rest c' = r \<and> good c'"
      using Cons.prems by (intro Cons.IH c1) auto
    moreover have "(\<lambda>j. if j \<in> set is then f j else ?tab j) = (\<lambda>j. if j \<in> set (i # is) then f j else tab j)"
      by auto
    moreover have "overlay (tab i) (f i) = f i" using Cons.prems by (simp add: overlay_def)
    ultimately show ?case using c1 by (simp add: FS_PATH_CAP_def)
  qed auto
  then show ?thesis using that by blast
qed

lemma fill_sizes_next:
  assumes "good c" "rest c = concat (map (\<lambda>i. le32_bytes (n i)) is) @ r" "\<And>i. i \<in> set is \<Longrightarrow> n i < MAX_FILE_DATA"
  obtains c' where "fill_sizes fill is tab c = (True, \<lambda>i. if i \<in> set is then int (n i) else tab i, c')" "rest c' = r" "good c'"
proof -
  have "\<exists>c'. fill_sizes fill is tab c = (True, \<lambda>i. if i \<in> set is then int (n i) else tab i, c') \<and> rest c' = r \<and> good c'"
    using assms
  proof (induction "is" arbitrary: tab c)
    case (Cons i "is")
    have "rest c = le32_bytes (n i) @ concat (map (\<lambda>i. le32_bytes (n i)) is) @ r" using Cons.prems(2) by simp
    from fill_next [OF Cons.prems(1) this] obtain c1 where c1: "fill c 4 = (True, le32_bytes (n i), c1)"
      "rest c1 = concat (map (\<lambda>i. le32_bytes (n i)) is) @ r" "good c1" by (metis length_le32_bytes)
    have v: "le32_at (le32_bytes (n i)) = n i"
      using Cons.prems(3) [of i] by (simp add: le32_at_def le32_bytes_def chr_at_def MAX_FILE_DATA_def)
    let ?tab = "tab(i := int (n i))"
    have "\<exists>c'. fill_sizes fill is ?tab c1 = (True, \<lambda>j. if j \<in> set is then int (n j) else ?tab j, c') \<and> rest c' = r \<and> good c'"
      using Cons.prems by (intro Cons.IH c1) auto
    moreover have "(\<lambda>j. if j \<in> set is then int (n j) else ?tab j) = (\<lambda>j. if j \<in> set (i # is) then int (n j) else tab j)"
      by auto
    ultimately show ?case using c1 v Cons.prems(3) [of i] by simp
  qed auto
  then show ?thesis using that by blast
qed

lemma fill_owners_next:
  assumes "good c" "rest c = concat (map (\<lambda>i. le32_bytes (uint_of (u i)) @ int_le16 (m i)) is) @ r"
    and "\<And>i. i \<in> set is \<Longrightarrow> int_of_u32 (uint_of (u i)) = u i \<and> le16_at (int_le16 (m i)) = m i"
  obtains c' where "fill_owners fill is (ou, mo) c =
    (True, (\<lambda>i. if i \<in> set is then u i else ou i, \<lambda>i. if i \<in> set is then m i else mo i), c')" "rest c' = r" "good c'"
proof -
  have "\<exists>c'. fill_owners fill is (ou, mo) c =
    (True, (\<lambda>i. if i \<in> set is then u i else ou i, \<lambda>i. if i \<in> set is then m i else mo i), c') \<and> rest c' = r \<and> good c'"
    using assms
  proof (induction "is" arbitrary: ou mo c)
    case (Cons i "is")
    let ?r = "concat (map (\<lambda>i. le32_bytes (uint_of (u i)) @ int_le16 (m i)) is) @ r"
    have "rest c = le32_bytes (uint_of (u i)) @ int_le16 (m i) @ ?r" using Cons.prems(2) by simp
    from fill_next [OF Cons.prems(1) this] obtain c1 where c1: "fill c 4 = (True, le32_bytes (uint_of (u i)), c1)"
      "rest c1 = int_le16 (m i) @ ?r" "good c1" by (metis length_le32_bytes)
    from fill_next [OF c1(3,2)] obtain c2 where c2: "fill c1 2 = (True, int_le16 (m i), c2)" "rest c2 = ?r" "good c2"
      by (metis (no_types, lifting) One_nat_def int_le16_def length_Cons list.size(3) numeral_2_eq_2)
    have v: "le32_at (le32_bytes (uint_of (u i))) = uint_of (u i)"
      by (simp add: le32_at_def le32_bytes_def chr_at_def uint_of_def nat_less_iff)
    let ?ou = "ou(i := u i)" and ?mo = "mo(i := m i)"
    have "\<exists>c'. fill_owners fill is (?ou, ?mo) c2 = (True, (\<lambda>j. if j \<in> set is then u j else ?ou j,
        \<lambda>j. if j \<in> set is then m j else ?mo j), c') \<and> rest c' = r \<and> good c'"
      using Cons.prems by (intro Cons.IH c2) auto
    moreover have "(\<lambda>j. if j \<in> set is then u j else ?ou j) = (\<lambda>j. if j \<in> set (i # is) then u j else ou j)"
      "(\<lambda>j. if j \<in> set is then m j else ?mo j) = (\<lambda>j. if j \<in> set (i # is) then m j else mo j)"
      by auto
    ultimately show ?case using c1 c2 v Cons.prems(3) [of i] by simp
  qed auto
  then show ?thesis using that by blast
qed

end

subsection \<open>Restoring the data of the files\<close>

text \<open>Restoring fills the fresh pool from the left: all blocks but the last are allocated, the last is
  free and has \<open>r\<close> bytes.\<close>

definition packed :: "fpool \<Rightarrow> nat \<Rightarrow> bool" where
  "packed P r \<longleftrightarrow> pool_ok P \<and> (\<exists>A. pool_blocks P = A @ [(r, True)] \<and> (\<forall>b\<in>set A. \<not> snd b))"

lemma a_alloc_packed:
  "(\<forall>b\<in>set A. \<not> snd b) \<Longrightarrow> m + 24 \<le> r \<Longrightarrow>
   \<exists>p. a_alloc m (A @ [(r, True)]) off = (Some p, A @ [(m, False), (r - m - 8, True)])"
proof (induction A arbitrary: off)
  case (Cons b A)
  obtain sz fr where b: "b = (sz, fr)" by fastforce
  from Cons obtain p where "a_alloc m (A @ [(r, True)]) (off + (8 + sz)) = (Some p, A @ [(m, False), (r - m - 8, True)])"
    by fastforce
  then show ?case using Cons.prems b by simp
qed auto

lemma pool_put_blocks:
  assumes "pool_ok P" "pool_live P p = Some n" "p \<le> i" "i < p + n"
  shows "pool_blocks (pool_put i c P) = pool_blocks P"
proof -
  have "in_live 0 (pool_blocks P) i" using assms unfolding in_live_iff pool_live_def by blast
  then have "pool_rep (fpool_mem (pool_put i c P)) 0 (pool_blocks P) (pool_size P)"
    using assms(1) by (auto simp: pool_ok_def pool_put_def intro: put_rep)
  then show ?thesis by (intro pool_blocks_eq) simp
qed

lemma put_run_blocks:
  assumes "pool_ok P" "pool_live P p = Some k" "p \<le> a" "a + length cs \<le> p + k"
  shows "pool_blocks (put_run pool_put a cs P) = pool_blocks P"
  using assms
proof (induction cs arbitrary: a P)
  case (Cons c cs)
  then have "pool_ok (pool_put a c P)" "pool_live (pool_put a c P) = pool_live P"
    "pool_blocks (pool_put a c P) = pool_blocks P"
    using pool_put_law [of P p k a c] pool_put_blocks [of P p k a c] by auto
  with Cons show ?case by simp
qed simp

text \<open>The part of a state that has been restored: sizes of later slots are not yet backed by data.\<close>

definition upto_slot :: "nat \<Rightarrow> fs \<Rightarrow> fs" where
  "upto_slot k s = s\<lparr>fsize := \<lambda>j. if j < k then fsize s j else 0\<rparr>"

lemma upto_slot_frame [simp, fs_frame]:
  "fname (upto_slot k s) = fname s" "fdata (upto_slot k s) = fdata s" "fused (upto_slot k s) = fused s"
  "fs_pool (upto_slot k s) = fs_pool s" "fsize (upto_slot k s) = (\<lambda>j. if j < k then fsize s j else 0)"
  "fs_null_deref (upto_slot k s) = fs_null_deref s"
  by (simp_all add: upto_slot_def)

lemma upto_slot_write [simp]:
  "fdata_put i j c (upto_slot k s) = upto_slot k (fdata_put i j c s)"
  "fdata_write i off cs (upto_slot k s) = upto_slot k (fdata_write i off cs s)"
proof -
  show *: "fdata_put i j c (upto_slot k s) = upto_slot k (fdata_put i j c s)" for j c s
    by (cases "fdata s i") (simp_all add: fdata_put_def upto_slot_def cong: if_cong)
  show "fdata_write i off cs (upto_slot k s) = upto_slot k (fdata_write i off cs s)"
    by (induction cs arbitrary: off s) (simp_all add: *)
qed

lemma upto_slot_pending:
  assumes "data_ok (upto_slot k s)" "k \<le> j" "j < MAX_F"
  shows "fdata s j = None"
  using data_okD(2) [OF assms(1,3)] assms(2) by (auto simp: slot_data_ok_def split: option.splits)

lemma fdata_resize_upto:
  assumes "fdata s k = None" "fsize s k = int n"
  shows "fst (fdata_resize k n s) = fst (fdata_resize k n (upto_slot k s))"
    "fst (fdata_resize k n s) = 0 \<Longrightarrow>
       snd (fdata_resize k n (upto_slot k s)) = upto_slot (Suc k) (snd (fdata_resize k n s)) \<and>
       fsize (snd (fdata_resize k n s)) = fsize s"
proof -
  have e: "(\<lambda>j. if j < k then fsize s j else 0)(k := int n) = (\<lambda>j. if j < Suc k then fsize s j else 0)"
    "(fsize s)(k := int n) = fsize s" using assms(2) by (auto simp: fun_eq_iff less_Suc_eq)
  show "fst (fdata_resize k n s) = fst (fdata_resize k n (upto_slot k s))"
    using assms by (auto simp: fdata_resize_def Let_def split: prod.splits option.splits)
  assume z: "fst (fdata_resize k n s) = 0"
  show "snd (fdata_resize k n (upto_slot k s)) = upto_slot (Suc k) (snd (fdata_resize k n s)) \<and>
       fsize (snd (fdata_resize k n s)) = fsize s"
  proof (cases "n = 0")
    case True
    then show ?thesis using assms e z by (auto simp: fdata_resize_def upto_slot_def intro!: fs.equality split: if_splits)
  next
    case False
    then obtain p P where "fpool_alloc (n + 1) (fs_pool s) = (Some p, P)" "k < MAX_F" "n \<le> MAX_FILE_DATA - 1"
      using z by (auto simp: fdata_resize_def Let_def split: if_splits prod.splits option.splits)
    then show ?thesis using assms e False
      by (auto simp: fdata_resize_def upto_slot_def Let_def intro!: fs.equality)
  qed
qed

lemma fdata_resize_packed:
  assumes ok: "data_ok s" and k: "k < MAX_F" and d: "fdata s k = None"
    and P: "packed (fs_pool s) r" and n: "0 < n" "n < MAX_FILE_DATA" "round_up 4 (n + 1) + 24 \<le> r"
    and z: "fdata_resize k n s = (0, s1)"
  shows "packed (fs_pool s1) (r - round_up 4 (n + 1) - 8)"
proof -
  let ?m = "round_up 4 (n + 1)"
  from z n k d obtain p Q where al: "fpool_alloc (n + 1) (fs_pool s) = (Some p, Q)" and s1: "fs_pool s1 = pool_put (p + n) NUL Q"
    by (auto simp: fdata_resize_def Let_def split: if_splits prod.splits option.splits)
  have pok: "pool_ok (fs_pool s)" using ok by (simp add: data_ok_def)
  have n4: "n + 1 + 3 < 4294967296" using n by (simp add: MAX_FILE_DATA_def)
  note R = fpool_alloc_refines [OF pok _ n4 al]
  from P obtain A where A: "pool_blocks (fs_pool s) = A @ [(r, True)]" "\<forall>b\<in>set A. \<not> snd b" by (auto simp: packed_def)
  from a_alloc_packed [OF A(2) n(3), of 0] R A(1) have Q: "pool_blocks Q = A @ [(?m, False), (r - ?m - 8, True)]" "pool_ok Q"
    by auto
  from fpool_alloc_law(3) [OF pok n4 al] obtain l where "n + 1 \<le> l" "pool_live Q p = Some l" by auto
  then have "pool_blocks (fs_pool s1) = pool_blocks Q" "pool_ok (fs_pool s1)"
    using pool_put_blocks [OF Q(2)] pool_put_law(1) [OF Q(2)] s1 by auto
  then show ?thesis using Q A(2) unfolding packed_def by (intro conjI exI [of _ "A @ [(?m, False)]"]) auto
qed

lemma fdata_write_packed:
  assumes ok: "data_ok s" and i: "i < MAX_F" "fdata s i = Some p" and P: "packed (fs_pool s) r"
    and le: "off + length cs \<le> nat (fsize s i) + 1"
  shows "packed (fs_pool (fdata_write i off cs s)) r"
proof -
  note pok = data_okD(1) [OF ok i(1)]
  from slot_data_okD(4) [OF data_okD(2) [OF ok i(1)] i(2)] obtain k
    where k: "pool_live (fs_pool s) p = Some k" "nat (fsize s i) < k" by blast
  have "fdata_write i off cs s = s\<lparr>fs_pool := pool_write (p + off) cs (fs_pool s)\<rparr>"
    using pool_live_range [OF pok k(1)] le k(2) by (intro fdata_write_eq i(2)) auto
  moreover have "pool_blocks (pool_write (p + off) cs (fs_pool s)) = pool_blocks (fs_pool s)"
    "pool_ok (pool_write (p + off) cs (fs_pool s))"
    using put_run_blocks [OF pok k(1), of "p + off" cs] pool.put_run_ok [OF pok k(1), of "p + off" cs] le k(2)
    by (auto simp: pool_write_def)
  ultimately show ?thesis using P by (simp add: packed_def)
qed

text \<open>One slot of the loop: allocate, read the bytes, terminate.\<close>

lemma restore_slot:
  assumes ok: "data_ok (upto_slot k s)" and k: "k < MAX_F" "fused s k \<noteq> 0"
    and P: "packed (fs_pool s) r" and n: "fsize s k = int n" "n < MAX_FILE_DATA" "n = 0 \<or> round_up 4 (n + 1) + 24 \<le> r"
    and b: "length b = n"
  shows "\<exists>s1. fdata_resize k n s = (0, s1) \<and> fsize s1 = fsize s \<and>
    (let s3 = fdata_put k n NUL (fdata_write k 0 b s1) in
      data_ok (upto_slot (Suc k) s3) \<and> same_names s s3 \<and> fsize s3 = fsize s \<and>
      packed (fs_pool s3) (if n = 0 then r else r - round_up 4 (n + 1) - 8) \<and>
      file_bytes (upto_slot (Suc k) s3) k = b \<and>
      (\<forall>j<k. file_bytes (upto_slot (Suc k) s3) j = file_bytes (upto_slot k s) j))"
proof -
  let ?u = "upto_slot k s"
  have d: "fdata s k = None" by (rule upto_slot_pending [OF ok _ k(1)]) simp
  have hr: "n = 0 \<or> has_room ?u (n + 1)"
    using n(3) P by (auto simp: has_room_def packed_def intro!: bexI [of _ "(r, True)"])
  have z: "fst (fdata_resize k n s) = 0"
    using fdata_resize_succeeds [OF ok k(1) n(2) hr] fdata_resize_upto(1) [of s k n] d n(1) by simp
  define s1 where "s1 = snd (fdata_resize k n s)"
  have z1: "fdata_resize k n s = (0, s1)" using z by (simp add: s1_def prod_eq_iff)
  have z2: "fdata_resize k n ?u = (0, upto_slot (Suc k) s1)" and fz: "fsize s1 = fsize s"
    using fdata_resize_upto [OF d n(1)] z by (auto simp: s1_def prod_eq_iff)
  note R = fdata_resize_ok [OF ok k(1) _ z2, simplified, OF k(2)]
  define s3 where "s3 = fdata_put k n NUL (fdata_write k 0 b s1)"
  have s3: "upto_slot (Suc k) s3 = fdata_put k n NUL (fdata_write k 0 b (upto_slot (Suc k) s1))" by (simp add: s3_def)
  note F = fill_slot [OF R k(1) _ _ s3, simplified b, simplified]
  have fz3: "fsize s3 = fsize s" using fz by (simp add: s3_def fdata_put_def split: option.splits)
  have sn: "same_names s s3"
  proof -
    have "same_names ?u (upto_slot (Suc k) s3)" by (rule F)
    then show ?thesis by (simp add: same_names_def upto_slot_def)
  qed
  have pk: "packed (fs_pool s3) (if n = 0 then r else r - round_up 4 (n + 1) - 8)"
  proof (cases "n = 0")
    case True
    then have "s1 = s\<lparr>fdata := (fdata s)(k := None), fsize := (fsize s)(k := 0)\<rparr>"
      using z1 k d by (auto simp: fdata_resize_def split: if_splits)
    then show ?thesis using P True b by (simp add: s3_def fdata_put_def d)
  next
    case False
    have "packed (fs_pool (upto_slot (Suc k) s1)) (r - round_up 4 (n + 1) - 8)"
      using fdata_resize_packed [OF ok k(1) _ _ _ n(2) _ z2] d P n(3) False by simp
    then have p1: "packed (fs_pool (upto_slot (Suc k) s1)) (r - round_up 4 (n + 1) - 8)" .
    from R False obtain p Q where e: "upto_slot (Suc k) s1 = set_data k (Some p) n Q ?u"
      unfolding resized_def by blast
    have p: "fdata (upto_slot (Suc k) s1) k = Some p" "nat (fsize (upto_slot (Suc k) s1) k) = n"
      unfolding e by simp_all
    have ok1: "data_ok (upto_slot (Suc k) s1)" using R by (simp add: resized_def)
    note w1 = fdata_write_packed [OF ok1 k(1) p(1) p1, of 0 b]
    have ok2: "data_ok (fdata_write k 0 b (upto_slot (Suc k) s1))"
      using fdata_write_ok(1) [OF ok1 k(1) p(1), of 0 b] b p by simp
    have p2: "fdata (fdata_write k 0 b (upto_slot (Suc k) s1)) k = Some p"
      "nat (fsize (fdata_write k 0 b (upto_slot (Suc k) s1)) k) = n" using p by auto
    have "packed (fs_pool (fdata_write k n [NUL] (fdata_write k 0 b (upto_slot (Suc k) s1)))) (r - round_up 4 (n + 1) - 8)"
      using w1 b p2 p by (intro fdata_write_packed [OF ok2 k(1) p2(1)]) auto
    then show ?thesis using False by (simp add: s3_def)
  qed
  have "data_ok (upto_slot (Suc k) s3)" "file_bytes (upto_slot (Suc k) s3) k = b"
    "\<forall>j<k. file_bytes (upto_slot (Suc k) s3) j = file_bytes ?u j"
    using F k by auto
  then show ?thesis using z1 fz sn fz3 pk
    by (intro exI [of _ s1]) (simp only: Let_def s3_def [symmetric] simp_thms)
qed

text \<open>The bytes of pool the files from slot \<open>k\<close> on need.\<close>

definition pool_need :: "fs \<Rightarrow> nat \<Rightarrow> nat" where
  "pool_need s k =
     sum_list (map (\<lambda>j. if fused s j \<noteq> 0 \<and> fsize s j > 0 then round_up 4 (nat (fsize s j) + 1) + 8 else 0) [k..<MAX_F])"

lemma pool_need_Suc:
  "k < MAX_F \<Longrightarrow> pool_need s k =
     (if fused s k \<noteq> 0 \<and> fsize s k > 0 then round_up 4 (nat (fsize s k) + 1) + 8 else 0) + pool_need s (Suc k)"
  by (simp add: pool_need_def upt_conv_Cons)

lemma pool_need_cong:
  "fused s = fused t \<Longrightarrow> (\<And>j. k \<le> j \<Longrightarrow> fsize s j = fsize t j) \<Longrightarrow> pool_need s k = pool_need t k"
  unfolding pool_need_def by (intro arg_cong [where f = sum_list] map_cong) auto

context byte_source
begin

lemma fill_data_next:
  assumes "good c" "data_ok (upto_slot k s)" "packed (fs_pool s) r" "pool_need s k + 16 \<le> r" "k \<le> MAX_F"
    and "\<And>j. k \<le> j \<Longrightarrow> j < MAX_F \<Longrightarrow> 0 \<le> fsize s j \<and> fsize s j < int MAX_FILE_DATA"
    and "\<And>j. k \<le> j \<Longrightarrow> j < MAX_F \<Longrightarrow> length (b j) = nat (fsize s j)"
    and "rest c = concat (map (\<lambda>j. if fused s j = 0 then [] else b j) [k..<MAX_F]) @ z"
  shows "\<exists>s' c'. fill_data fill [k..<MAX_F] s c = (True, s', c') \<and> rest c' = z \<and> good c' \<and> data_ok (upto_slot MAX_F s') \<and>
    same_names s s' \<and> (\<forall>j<k. file_bytes (upto_slot MAX_F s') j = file_bytes (upto_slot k s) j) \<and>
    (\<forall>j. k \<le> j \<longrightarrow> j < MAX_F \<longrightarrow> file_bytes (upto_slot MAX_F s') j = (if fused s j = 0 then [] else b j))"
  using assms
proof (induction "MAX_F - k" arbitrary: k s c r)
  case 0
  then show ?case by auto
next
  case (Suc m)
  then have k: "k < MAX_F" by simp
  have upt: "[k..<MAX_F] = k # [Suc k..<MAX_F]" using k by (simp add: upt_conv_Cons)
  let ?n = "nat (fsize s k)"
  have un: "uint_of (fsize s k) = ?n" "fsize s k = int ?n" "?n < MAX_FILE_DATA"
    using Suc.prems(6) [of k] k by (auto simp: uint_of_def MAX_FILE_DATA_def)
  show ?case
  proof (cases "fused s k = 0")
    case True
    let ?t = "s\<lparr>fsize := (fsize s)(k := 0)\<rparr>"
    have e: "upto_slot (Suc k) ?t = upto_slot k s"
      by (auto simp: upto_slot_def fun_eq_iff less_Suc_eq intro!: fs.equality)
    have need: "pool_need ?t (Suc k) = pool_need s (Suc k)" by (rule pool_need_cong) auto
    have "\<exists>s' c'. fill_data fill [Suc k..<MAX_F] ?t c = (True, s', c') \<and> rest c' = z \<and> good c' \<and> data_ok (upto_slot MAX_F s') \<and>
      same_names ?t s' \<and> (\<forall>j<Suc k. file_bytes (upto_slot MAX_F s') j = file_bytes (upto_slot (Suc k) ?t) j) \<and>
      (\<forall>j. Suc k \<le> j \<longrightarrow> j < MAX_F \<longrightarrow> file_bytes (upto_slot MAX_F s') j = (if fused ?t j = 0 then [] else b j))"
    proof (rule Suc.hyps(1) [OF _ Suc.prems(1)])
      show "data_ok (upto_slot (Suc k) ?t)" unfolding e by (rule Suc.prems(2))
      show "pool_need ?t (Suc k) + 16 \<le> r" using Suc.prems(4) pool_need_Suc [OF k, of s] need by auto
      show "rest c = concat (map (\<lambda>j. if fused ?t j = 0 then [] else b j) [Suc k..<MAX_F]) @ z"
        using Suc.prems(8) True by (simp add: upt)
    qed (use Suc.hyps(2) Suc.prems(3,6,7) k in auto)
    then obtain s' c' where r': "fill_data fill [Suc k..<MAX_F] ?t c = (True, s', c')" "rest c' = z" "good c'"
      "data_ok (upto_slot MAX_F s')" "same_names ?t s'"
      "\<forall>j<Suc k. file_bytes (upto_slot MAX_F s') j = file_bytes (upto_slot k s) j"
      "\<forall>j. Suc k \<le> j \<longrightarrow> j < MAX_F \<longrightarrow> file_bytes (upto_slot MAX_F s') j = (if fused s j = 0 then [] else b j)"
      unfolding e by auto
    have "file_bytes (upto_slot k s) k = []"
      using upto_slot_pending [OF Suc.prems(2) _ k] by (simp add: file_bytes_def)
    then have "file_bytes (upto_slot MAX_F s') j = (if fused s j = 0 then [] else b j)" if "k \<le> j" "j < MAX_F" for j
      using that r'(6,7) True by (cases "j = k") auto
    moreover have "fill_data fill [k..<MAX_F] s c = (True, s', c')" "same_names s s'"
      using True r'(1,5) by (simp_all add: upt same_names_def)
    ultimately show ?thesis using r'(2-6) by auto
  next
    case False
    have need: "?n = 0 \<or> round_up 4 (?n + 1) + 24 \<le> r"
      using Suc.prems(4) False pool_need_Suc [OF k, of s] by (auto split: if_splits)
    from restore_slot [OF Suc.prems(2) k False Suc.prems(3) un(2,3) need Suc.prems(7) [OF order_refl k]]
    obtain s1 where s1: "fdata_resize k ?n s = (0, s1)" "fsize s1 = fsize s"
      and S3: "data_ok (upto_slot (Suc k) (fdata_put k ?n NUL (fdata_write k 0 (b k) s1)))"
        "same_names s (fdata_put k ?n NUL (fdata_write k 0 (b k) s1))"
        "fsize (fdata_put k ?n NUL (fdata_write k 0 (b k) s1)) = fsize s"
        "packed (fs_pool (fdata_put k ?n NUL (fdata_write k 0 (b k) s1))) (if ?n = 0 then r else r - round_up 4 (?n + 1) - 8)"
        "file_bytes (upto_slot (Suc k) (fdata_put k ?n NUL (fdata_write k 0 (b k) s1))) k = b k"
        "\<forall>j<k. file_bytes (upto_slot (Suc k) (fdata_put k ?n NUL (fdata_write k 0 (b k) s1))) j = file_bytes (upto_slot k s) j"
      unfolding Let_def by blast
    define s3 where "s3 = fdata_put k ?n NUL (fdata_write k 0 (b k) s1)"
    note S3 = S3 [folded s3_def]
    have fu: "fused s3 = fused s" using S3(2) by (simp add: same_names_def)
    have "rest c = b k @ concat (map (\<lambda>j. if fused s j = 0 then [] else b j) [Suc k..<MAX_F]) @ z"
      using Suc.prems(8) False by (simp add: upt)
    from fill_next [OF Suc.prems(1) this Suc.prems(7) [OF order_refl k]] obtain c1 where c1: "fill c ?n = (True, b k, c1)" "good c1"
      "rest c1 = concat (map (\<lambda>j. if fused s j = 0 then [] else b j) [Suc k..<MAX_F]) @ z" by blast
    have nd: "pool_need s3 (Suc k) = pool_need s (Suc k)" using fu S3(3) by (intro pool_need_cong) auto
    have "\<exists>s' c'. fill_data fill [Suc k..<MAX_F] s3 c1 = (True, s', c') \<and> rest c' = z \<and> good c' \<and> data_ok (upto_slot MAX_F s') \<and>
      same_names s3 s' \<and> (\<forall>j<Suc k. file_bytes (upto_slot MAX_F s') j = file_bytes (upto_slot (Suc k) s3) j) \<and>
      (\<forall>j. Suc k \<le> j \<longrightarrow> j < MAX_F \<longrightarrow> file_bytes (upto_slot MAX_F s') j = (if fused s3 j = 0 then [] else b j))"
    proof (rule Suc.hyps(1) [OF _ c1(2) S3(1,4)])
      show "pool_need s3 (Suc k) + 16 \<le> (if ?n = 0 then r else r - round_up 4 (?n + 1) - 8)"
        using Suc.prems(4) pool_need_Suc [OF k, of s] nd False by auto
    qed (use Suc.hyps(2) Suc.prems(6,7) k c1(3) fu S3(3) in auto)
    then obtain s' c' where r': "fill_data fill [Suc k..<MAX_F] s3 c1 = (True, s', c')" "rest c' = z" "good c'"
      "data_ok (upto_slot MAX_F s')" "same_names s3 s'"
      "\<forall>j<Suc k. file_bytes (upto_slot MAX_F s') j = file_bytes (upto_slot (Suc k) s3) j"
      "\<forall>j. Suc k \<le> j \<longrightarrow> j < MAX_F \<longrightarrow> file_bytes (upto_slot MAX_F s') j = (if fused s3 j = 0 then [] else b j)" by blast
    have "fill_data fill [k..<MAX_F] s c = (True, s', c')"
      using False s1 c1 r'(1) by (simp add: upt un(1) s3_def [symmetric])
    moreover have "same_names s s'" using S3(2) r'(5) by (simp add: same_names_def)
    moreover have "file_bytes (upto_slot MAX_F s') j = (if fused s j = 0 then [] else b j)" if "k \<le> j" "j < MAX_F" for j
      using that r'(6,7) S3(5) False fu by (cases "j = k") auto
    ultimately show ?thesis using r' S3(6) by auto
  qed
qed

end

subsection \<open>The round trip\<close>

definition fs_image :: "fs \<Rightarrow> bytes" where
  "fs_image s = concat (fs_serialize_chunks s)"

text \<open>Values that survive their encoding: flags in a byte, owners in an \<^verbatim>\<open>int\<close>, modes in 16 bits.\<close>

definition saveable :: "fs \<Rightarrow> bool" where
  "saveable s \<longleftrightarrow>
     (\<forall>i<MAX_D. 0 \<le> dused s i \<and> dused s i < 256 \<and> - 2147483648 \<le> downer s i \<and> downer s i < 2147483648
        \<and> 0 \<le> dmode s i \<and> dmode s i < 65536) \<and>
     (\<forall>i<MAX_F. 0 \<le> fused s i \<and> fused s i < 256 \<and> - 2147483648 \<le> fowner s i \<and> fowner s i < 2147483648
        \<and> 0 \<le> fmode s i \<and> fmode s i < 65536)"

definition restored :: "fs \<Rightarrow> fs \<Rightarrow> bool" where
  "restored s t \<longleftrightarrow>
     (\<forall>i<MAX_D. dname t i = dname s i \<and> dused t i = dused s i \<and> downer t i = downer s i \<and> dmode t i = dmode s i) \<and>
     (\<forall>i<MAX_F. fname t i = fname s i \<and> fused t i = fused s i \<and> fowner t i = fowner s i \<and> fmode t i = fmode s i
        \<and> file_bytes t i = file_bytes s i) \<and>
     cwd t = cwd s \<and> data_ok t"

lemma int_of_u32_uint_of: "- 2147483648 \<le> v \<Longrightarrow> v < 2147483648 \<Longrightarrow> int_of_u32 (uint_of v) = v"
proof (cases "0 \<le> v")
  case False
  assume "- 2147483648 \<le> v" "v < 2147483648"
  moreover have "v mod 4294967296 = (v + 4294967296) mod 4294967296" by simp
  moreover have "(v + 4294967296) mod 4294967296 = v + 4294967296"
    using calculation False by (intro mod_pos_pos_trivial) auto
  ultimately show ?thesis using False by (simp add: int_of_u32_def uint_of_def nat_less_iff)
qed (simp add: int_of_u32_def uint_of_def nat_less_iff)

lemma int_byte_val: "(of_char (int_byte v) :: int) = v mod 256"
proof -
  have "int (of_char (int_byte v)) = v mod 256" by (simp add: int_byte_def)
  then show ?thesis by (simp only: of_nat_of_char)
qed

lemma le16_int_le16: "0 \<le> m \<Longrightarrow> m < 65536 \<Longrightarrow> le16_at (int_le16 m) = m"
proof -
  assume m: "0 \<le> m" "m < 65536"
  then have "m div 256 mod 256 = m div 256" by (intro mod_pos_pos_trivial) auto
  then show ?thesis using m
    by (simp add: le16_at_def int_le16_def chr_at_def int_byte_val)
qed

lemma set_used_map:
  assumes "\<And>i. i < n \<Longrightarrow> 0 \<le> v i \<and> v i < 256" "i < n"
  shows "set_used n (map (\<lambda>i. int_byte (v i)) [0..<n]) tab i = v i"
  using assms by (simp add: set_used_def chr_at_def int_byte_val)

lemma concat_singletons: "concat (map (\<lambda>i. [f i]) xs) = map f xs"
  by (induction xs) auto

lemma concat_concat_map: "concat (concat (map f xs)) = concat (map (\<lambda>i. concat (f i)) xs)"
  by (induction xs) auto

lemma data_chunks_bytes:
  assumes "data_ok s" "i < MAX_F"
  shows "concat (data_chunks s i) = (if fused s i = 0 then [] else file_bytes s i)"
proof -
  note so = data_okD(2) [OF assms]
  have l: "length (file_bytes s i) = nat (fsize s i)" by (rule length_file_bytes [OF so])
  show ?thesis using fdata_read_ok [OF so, of 0 "nat (fsize s i)"] l by (auto simp: data_chunks_def)
qed

text \<open>The image as its segments.\<close>

lemma fs_image_segments:
  assumes "data_ok s"
  shows "fs_image s =
    fs_header @ map (\<lambda>i. int_byte (dused s i)) [0..<MAX_D] @ concat (map (dname s) [0..<MAX_D])
    @ map (\<lambda>i. int_byte (fused s i)) [0..<MAX_F]
    @ concat (map (\<lambda>i. le32_bytes (nat (fsize s i))) [0..<MAX_F])
    @ concat (map (fname s) [0..<MAX_F])
    @ concat (map (\<lambda>i. if fused s i = 0 then [] else file_bytes s i) [0..<MAX_F])
    @ cwd s
    @ concat (map (\<lambda>i. le32_bytes (uint_of (downer s i)) @ int_le16 (dmode s i)) [0..<MAX_D])
    @ concat (map (\<lambda>i. le32_bytes (uint_of (fowner s i)) @ int_le16 (fmode s i)) [0..<MAX_F])"
proof -
  have sz: "le32_bytes (if fsize s i < 0 then 0 else uint_of (fsize s i)) = le32_bytes (nat (fsize s i))" if "i < MAX_F" for i
    using data_okD(2) [OF assms that] by (auto simp: slot_data_ok_def uint_of_def MAX_FILE_DATA_def split: option.splits)
  have "concat (map (\<lambda>i. le32_bytes (if fsize s i < 0 then 0 else uint_of (fsize s i))) [0..<MAX_F]) =
    concat (map (\<lambda>i. le32_bytes (nat (fsize s i))) [0..<MAX_F])"
    by (rule arg_cong [where f = concat], rule map_cong) (simp_all add: sz)
  moreover have "concat (concat (map (data_chunks s) [0..<MAX_F])) =
      concat (map (\<lambda>i. if fused s i = 0 then [] else file_bytes s i) [0..<MAX_F])"
    unfolding concat_concat_map by (rule arg_cong [where f = concat], rule map_cong) (simp_all add: data_chunks_bytes [OF assms])
  moreover have "concat (concat (map (\<lambda>i. owner_chunks (u i) (m i)) xs)) =
      concat (map (\<lambda>i. le32_bytes (uint_of (u i)) @ int_le16 (m i)) xs)" for u m and xs :: "nat list"
    by (induction xs) (simp_all add: owner_chunks_def)
  ultimately show ?thesis by (simp add: fs_image_def fs_serialize_chunks_def concat_singletons)
qed

lemma fpool_free_frame [simp]: "fpool_base (fpool_free p P) = fpool_base P" "fpool_bytes (fpool_free p P) = fpool_bytes P"
  by (auto simp: fpool_free_def fpool_coalesce_def split: option.splits)

lemma fpool_init_frame [simp]: "fpool_base (fpool_init P) = fpool_base P" "fpool_bytes (fpool_init P) = fpool_bytes P"
  by (simp_all add: fpool_init_def)

lemma free_all_data_frame:
  "fname (free_all_data s) = fname s" "fused (free_all_data s) = fused s" "fowner (free_all_data s) = fowner s"
  "fmode (free_all_data s) = fmode s" "dname (free_all_data s) = dname s" "dused (free_all_data s) = dused s"
  "downer (free_all_data s) = downer s" "dmode (free_all_data s) = dmode s" "cwd (free_all_data s) = cwd s"
  "fpool_base (fs_pool (free_all_data s)) = fpool_base (fs_pool s)"
  "fpool_bytes (fs_pool (free_all_data s)) = fpool_bytes (fs_pool s)"
  "i < MAX_F \<Longrightarrow> fdata (free_all_data s) i = None" "i < MAX_F \<Longrightarrow> fsize (free_all_data s) i = 0"
proof -
  let ?f = "\<lambda>s i. s\<lparr>fs_pool := fpool_free (fdata s i) (fs_pool s), fdata := (fdata s)(i := None),
    fsize := (fsize s)(i := 0)\<rparr>"
  have fr: "fname (foldl ?f s xs) = fname s \<and> fused (foldl ?f s xs) = fused s \<and> fowner (foldl ?f s xs) = fowner s \<and>
    fmode (foldl ?f s xs) = fmode s \<and> dname (foldl ?f s xs) = dname s \<and> dused (foldl ?f s xs) = dused s \<and>
    downer (foldl ?f s xs) = downer s \<and> dmode (foldl ?f s xs) = dmode s \<and> cwd (foldl ?f s xs) = cwd s \<and>
    fpool_base (fs_pool (foldl ?f s xs)) = fpool_base (fs_pool s) \<and>
    fpool_bytes (fs_pool (foldl ?f s xs)) = fpool_bytes (fs_pool s)" for xs
    by (induction xs arbitrary: s) auto
  have d: "(fdata s i = None \<or> i \<in> set xs \<longrightarrow> fdata (foldl ?f s xs) i = None) \<and>
      (fsize s i = 0 \<or> i \<in> set xs \<longrightarrow> fsize (foldl ?f s xs) i = 0)" for xs
    by (induction xs arbitrary: s) auto
  show "fname (free_all_data s) = fname s" "fused (free_all_data s) = fused s" "fowner (free_all_data s) = fowner s"
    "fmode (free_all_data s) = fmode s" "dname (free_all_data s) = dname s" "dused (free_all_data s) = dused s"
    "downer (free_all_data s) = downer s" "dmode (free_all_data s) = dmode s" "cwd (free_all_data s) = cwd s"
    "fpool_base (fs_pool (free_all_data s)) = fpool_base (fs_pool s)"
    "fpool_bytes (fs_pool (free_all_data s)) = fpool_bytes (fs_pool s)"
    using fr [of "[0..<MAX_F]"] by (simp_all only: free_all_data_def)
  show "i < MAX_F \<Longrightarrow> fdata (free_all_data s) i = None" "i < MAX_F \<Longrightarrow> fsize (free_all_data s) i = 0"
    using d [of "[0..<MAX_F]"] by (simp_all add: free_all_data_def)
qed

context byte_source
begin

text \<open>The last part: current directory and owners.\<close>

lemma fill_tail_next:
  assumes "good c" "saveable s" "length (cwd s) = 256" "length (cwd t) = 256"
    and "rest c = cwd s
      @ concat (map (\<lambda>i. le32_bytes (uint_of (downer s i)) @ int_le16 (dmode s i)) [0..<MAX_D])
      @ concat (map (\<lambda>i. le32_bytes (uint_of (fowner s i)) @ int_le16 (fmode s i)) [0..<MAX_F]) @ z"
  shows "\<exists>t' c'. fill_tail fill t c = (0, t', c') \<and> rest c' = z \<and> good c' \<and> cwd t' = cwd s \<and>
    (\<forall>i<MAX_D. downer t' i = downer s i \<and> dmode t' i = dmode s i) \<and>
    (\<forall>i<MAX_F. fowner t' i = fowner s i \<and> fmode t' i = fmode s i) \<and>
    dname t' = dname t \<and> dused t' = dused t \<and> fname t' = fname t \<and> fused t' = fused t \<and>
    fdata t' = fdata t \<and> fsize t' = fsize t \<and> fs_pool t' = fs_pool t"
proof -
  from fill_next [OF assms(1,5,3)] obtain c1 where c1: "fill c 256 = (True, cwd s, c1)" "good c1"
    "rest c1 = concat (map (\<lambda>i. le32_bytes (uint_of (downer s i)) @ int_le16 (dmode s i)) [0..<MAX_D])
      @ concat (map (\<lambda>i. le32_bytes (uint_of (fowner s i)) @ int_le16 (fmode s i)) [0..<MAX_F]) @ z" by blast
  have D: "i \<in> set [0..<MAX_D] \<Longrightarrow> int_of_u32 (uint_of (downer s i)) = downer s i \<and> le16_at (int_le16 (dmode s i)) = dmode s i"
    and F: "i \<in> set [0..<MAX_F] \<Longrightarrow> int_of_u32 (uint_of (fowner s i)) = fowner s i \<and> le16_at (int_le16 (fmode s i)) = fmode s i" for i
    using assms(2) by (auto simp: saveable_def int_of_u32_uint_of le16_int_le16)
  let ?do = "\<lambda>i. if i < MAX_D then 0 else downer t i" and ?dm = "\<lambda>i. if i < MAX_D then 493 else dmode t i"
  let ?fo = "\<lambda>i. if i < MAX_F then 0 else fowner t i" and ?fm = "\<lambda>i. if i < MAX_F then 493 else fmode t i"
  from fill_owners_next [OF c1(2,3) D, of ?do ?dm] obtain c2 where c2: "good c2"
    "fill_owners fill [0..<MAX_D] (?do, ?dm) c1 = (True, (\<lambda>i. if i \<in> set [0..<MAX_D] then downer s i else ?do i,
       \<lambda>i. if i \<in> set [0..<MAX_D] then dmode s i else ?dm i), c2)"
    "rest c2 = concat (map (\<lambda>i. le32_bytes (uint_of (fowner s i)) @ int_le16 (fmode s i)) [0..<MAX_F]) @ z" by blast
  from fill_owners_next [OF c2(1,3) F, of ?fo ?fm] obtain c3 where c3:
    "fill_owners fill [0..<MAX_F] (?fo, ?fm) c2 = (True, (\<lambda>i. if i \<in> set [0..<MAX_F] then fowner s i else ?fo i,
       \<lambda>i. if i \<in> set [0..<MAX_F] then fmode s i else ?fm i), c3)" "rest c3 = z" "good c3" by blast
  show ?thesis using assms(3,4) c1(1) c2(2) c3
    by (simp add: fill_tail_def overlay_def Let_def cong: if_cong)
qed

text \<open>The middle part: file slots and data.\<close>

lemma fill_files_next:
  assumes g: "good c" and s: "saveable s" "fs_ok s" and t: "bufs_ok t" "\<forall>i<MAX_F. fdata t i = None" "packed (fs_pool t) r"
      "pool_live (fs_pool t) = Map.empty"
    and need: "pool_need s 0 + 16 \<le> r"
    and tail: "tail = cwd s
      @ concat (map (\<lambda>i. le32_bytes (uint_of (downer s i)) @ int_le16 (dmode s i)) [0..<MAX_D])
      @ concat (map (\<lambda>i. le32_bytes (uint_of (fowner s i)) @ int_le16 (fmode s i)) [0..<MAX_F]) @ z"
    and rest: "rest c = map (\<lambda>i. int_byte (fused s i)) [0..<MAX_F]
      @ concat (map (\<lambda>i. le32_bytes (nat (fsize s i))) [0..<MAX_F])
      @ concat (map (fname s) [0..<MAX_F])
      @ concat (map (\<lambda>i. if fused s i = 0 then [] else file_bytes s i) [0..<MAX_F]) @ tail"
  shows "\<exists>t' c'. fill_files fill t c = (0, t', c') \<and> rest c' = z \<and> good c' \<and> cwd t' = cwd s \<and> data_ok t' \<and>
    (\<forall>i<MAX_D. downer t' i = downer s i \<and> dmode t' i = dmode s i) \<and>
    (\<forall>i<MAX_F. fname t' i = fname s i \<and> fused t' i = fused s i \<and> fowner t' i = fowner s i \<and> fmode t' i = fmode s i
      \<and> file_bytes t' i = file_bytes s i) \<and>
    dname t' = dname t \<and> dused t' = dused t"
proof -
  let ?F = "[0..<MAX_F]"
  have dok: "data_ok s" and nok: "names_ok s" using s by (simp_all add: fs_ok_def)
  have sz: "0 \<le> fsize s i" "fsize s i < int MAX_FILE_DATA" "length (file_bytes s i) = nat (fsize s i)" if "i < MAX_F" for i
    using data_okD(2) [OF dok that] length_file_bytes [OF data_okD(2) [OF dok that]]
    by (auto simp: slot_data_ok_def MAX_FILE_DATA_def split: option.splits)
  have szn: "i \<in> set ?F \<Longrightarrow> nat (fsize s i) < MAX_FILE_DATA" for i using sz(1,2) [of i] by auto
  have nm: "i \<in> set ?F \<Longrightarrow> length (fname s i) = 256 \<and> length (fname t i) = 256" for i
    using nok t(1) by (auto simp: names_ok_def bufs_ok_def buf_ok_def)
  have lf: "length (map (\<lambda>i. int_byte (fused s i)) ?F) = MAX_F" by simp
  from fill_next [OF g rest lf] obtain c1 where c1: "fill c MAX_F = (True, map (\<lambda>i. int_byte (fused s i)) ?F, c1)" "good c1"
    "rest c1 = concat (map (\<lambda>i. le32_bytes (nat (fsize s i))) ?F) @ concat (map (fname s) ?F)
      @ concat (map (\<lambda>i. if fused s i = 0 then [] else file_bytes s i) ?F) @ tail" by blast
  from fill_sizes_next [OF c1(2,3) szn, of "fsize t"] obtain c2 where c2: "good c2"
    "fill_sizes fill ?F (fsize t) c1 = (True, \<lambda>i. if i \<in> set ?F then int (nat (fsize s i)) else fsize t i, c2)"
    "rest c2 = concat (map (fname s) ?F) @ concat (map (\<lambda>i. if fused s i = 0 then [] else file_bytes s i) ?F) @ tail"
    by blast
  from fill_names_next [OF c2(1,3) nm] obtain c3 where c3: "good c3"
    "fill_names fill ?F (fname t) c2 = (True, \<lambda>i. if i \<in> set ?F then fname s i else fname t i, c3)"
    "rest c3 = concat (map (\<lambda>i. if fused s i = 0 then [] else file_bytes s i) ?F) @ tail" by blast
  define t3 where "t3 = t\<lparr>fused := set_used MAX_F (map (\<lambda>i. int_byte (fused s i)) ?F) (fused t),
      fsize := \<lambda>i. if i \<in> set ?F then int (nat (fsize s i)) else fsize t i,
      fname := \<lambda>i. if i \<in> set ?F then fname s i else fname t i\<rparr>"
  define b where "b = (\<lambda>i. if i < MAX_F then file_bytes s i else [])"
  have fu: "fused t3 i = fused s i" if "i < MAX_F" for i
    unfolding t3_def using s(1) that set_used_map [of MAX_F "fused s" i "fused t"] by (simp add: saveable_def)
  have fz: "fsize t3 i = fsize s i" if "i < MAX_F" for i using that sz(1) [OF that] by (simp add: t3_def)
  have d0: "data_ok (upto_slot 0 t3)"
    using t(2-4) by (auto simp: data_ok_def slot_data_ok_def t3_def packed_def)
  have p0: "packed (fs_pool t3) r" "pool_need t3 0 = pool_need s 0"
    using t(3) fu fz by (auto simp: t3_def pool_need_def intro!: arg_cong [where f = sum_list])
  have r3: "rest c3 = concat (map (\<lambda>j. if fused t3 j = 0 then [] else b j) [0..<MAX_F]) @ tail"
    unfolding c3(3) by (rule arg_cong2 [where f = append], rule arg_cong [where f = concat], rule map_cong)
      (auto simp: fu b_def)
  have "\<exists>t4 c4. fill_data fill ?F t3 c3 = (True, t4, c4) \<and> rest c4 = tail \<and> good c4 \<and> data_ok (upto_slot MAX_F t4) \<and>
    same_names t3 t4 \<and> (\<forall>j<0. file_bytes (upto_slot MAX_F t4) j = file_bytes (upto_slot 0 t3) j) \<and>
    (\<forall>j. 0 \<le> j \<longrightarrow> j < MAX_F \<longrightarrow> file_bytes (upto_slot MAX_F t4) j = (if fused t3 j = 0 then [] else b j))"
  proof (rule fill_data_next [OF c3(1) d0 p0(1) _ _ _ _ r3])
    show "pool_need t3 0 + 16 \<le> r" using p0(2) need by simp
    show "0 \<le> fsize t3 j \<and> fsize t3 j < int MAX_FILE_DATA" if "j < MAX_F" for j using sz(1,2) [OF that] fz [OF that] by simp
    show "length (b j) = nat (fsize t3 j)" if "j < MAX_F" for j using sz(3) [OF that] fz [OF that] that unfolding b_def by simp
  qed simp
  then obtain t4 c4 where t4: "fill_data fill ?F t3 c3 = (True, t4, c4)" "rest c4 = tail" "good c4" "data_ok (upto_slot MAX_F t4)"
    "same_names t3 t4" "\<forall>j. 0 \<le> j \<longrightarrow> j < MAX_F \<longrightarrow> file_bytes (upto_slot MAX_F t4) j = (if fused t3 j = 0 then [] else b j)"
    by (elim exE conjE) (rule that)
  have t46: "file_bytes (upto_slot MAX_F t4) j = (if fused t3 j = 0 then [] else b j)" if "j < MAX_F" for j
    using t4(6) that by blast
  note n4 = t4(5) [unfolded same_names_def]
  have c4: "cwd t4 = cwd t" using n4 by (simp add: t3_def)
  have len: "length (cwd s) = 256" "length (cwd t4) = 256"
    using nok t(1) c4 by (simp_all add: names_ok_def bufs_ok_def buf_ok_def)
  from fill_tail_next [OF t4(3) s(1) len t4(2) [unfolded tail]] obtain t5 c5 where t5: "fill_tail fill t4 c4 = (0, t5, c5)"
    "cwd t5 = cwd s" "\<forall>i<MAX_D. downer t5 i = downer s i \<and> dmode t5 i = dmode s i"
    "\<forall>i<MAX_F. fowner t5 i = fowner s i \<and> fmode t5 i = fmode s i"
    "dname t5 = dname t4" "dused t5 = dused t4" "fname t5 = fname t4" "fused t5 = fused t4"
    "fdata t5 = fdata t4" "fsize t5 = fsize t4" "fs_pool t5 = fs_pool t4" "rest c5 = z" "good c5" by blast
  have run: "fill_files fill t c = (0, t5, c5)"
    unfolding fill_files_def using c1(1) c2(2) c3(2) t4(1) t5(1) by (simp add: t3_def Let_def)
  have u5: "file_bytes t5 i = file_bytes (upto_slot MAX_F t4) i" if "i < MAX_F" for i
    using t5(9-11) that by (cases "fdata t4 i") (simp_all add: file_bytes_def)
  have fb: "file_bytes t5 i = file_bytes s i" if i: "i < MAX_F" for i
  proof (cases "fused s i = 0")
    case True
    then have "file_bytes s i = []" using free_slot_data [OF dok i] by (simp add: file_bytes_def)
    then show ?thesis using t46 [OF i] u5 [OF i] fu [OF i] True by simp
  next
    case False
    then show ?thesis using t46 [OF i] u5 [OF i] fu [OF i] i unfolding b_def by simp
  qed
  have so: "slot_data_ok t5 i = slot_data_ok (upto_slot MAX_F t4) i" if "i < MAX_F" for i
    using t5(8-11) that by (cases "fdata t4 i") (simp_all add: slot_data_ok_def)
  have dk: "data_ok t5" using t4(4) so t5(9-11) by (simp add: data_ok_def)
  have fn: "fname t5 i = fname s i" "fused t5 i = fused s i" if "i < MAX_F" for i
    using t5(7,8) n4 fu that by (simp_all add: t3_def)
  have "dname t5 = dname t" "dused t5 = dused t" using t5(5,6) n4 by (simp_all add: t3_def)
  then show ?thesis using run dk fb fn t5(2-4,12,13) by blast
qed

lemma deserialize_image:
  assumes g: "good c" and s: "saveable s" "fs_ok s" and t: "bufs_ok t" "fpool_base (fs_pool t)"
    and need: "pool_need s 0 + 24 \<le> pool_size (fs_pool t)" and rest: "rest c = fs_image s @ z"
  shows "\<exists>t' c'. fs_deserialize_fill fill c t = (0, t', c') \<and> restored s t' \<and> rest c' = z \<and> good c'"
proof -
  let ?D = "[0..<MAX_D]"
  have dok: "data_ok s" and nok: "names_ok s" using s by (simp_all add: fs_ok_def)
  define tail where "tail = cwd s
      @ concat (map (\<lambda>i. le32_bytes (uint_of (downer s i)) @ int_le16 (dmode s i)) [0..<MAX_D])
      @ concat (map (\<lambda>i. le32_bytes (uint_of (fowner s i)) @ int_le16 (fmode s i)) [0..<MAX_F]) @ z"
  define files where "files = map (\<lambda>i. int_byte (fused s i)) [0..<MAX_F]
      @ concat (map (\<lambda>i. le32_bytes (nat (fsize s i))) [0..<MAX_F])
      @ concat (map (fname s) [0..<MAX_F])
      @ concat (map (\<lambda>i. if fused s i = 0 then [] else file_bytes s i) [0..<MAX_F]) @ tail"
  have r0: "rest c = fs_header @ map (\<lambda>i. int_byte (dused s i)) ?D @ concat (map (dname s) ?D) @ files"
    unfolding rest fs_image_segments [OF dok] files_def tail_def by simp
  have h: "length fs_header = 8" "take 4 fs_header = ''TJFS''" "chr_at fs_header 4 = char_of STORE_VERSION"
    by (simp_all add: fs_header_def chr_at_def)
  from fill_next [OF g r0 h(1)] obtain c0 where c0: "fill c 8 = (True, fs_header, c0)" "good c0"
    "rest c0 = map (\<lambda>i. int_byte (dused s i)) ?D @ concat (map (dname s) ?D) @ files" by blast
  have lf: "length (map (\<lambda>i. int_byte (dused s i)) ?D) = MAX_D" by simp
  from fill_next [OF c0(2,3) lf] obtain c1 where c1: "fill c0 MAX_D = (True, map (\<lambda>i. int_byte (dused s i)) ?D, c1)" "good c1"
    "rest c1 = concat (map (dname s) ?D) @ files" by blast
  define t0 where "t0 = (free_all_data t)\<lparr>fs_pool := fpool_init (fs_pool (free_all_data t))\<rparr>"
  have nm: "i \<in> set ?D \<Longrightarrow> length (dname s i) = 256 \<and> length (dname t0 i) = 256" for i
    using nok t(1) by (auto simp: names_ok_def bufs_ok_def buf_ok_def t0_def free_all_data_frame)
  from fill_names_next [OF c1(2,3) nm] obtain c2 where c2: "good c2"
    "fill_names fill ?D (dname t0) c1 = (True, \<lambda>i. if i \<in> set ?D then dname s i else dname t0 i, c2)"
    "rest c2 = files" by blast
  define t2 where "t2 = t0\<lparr>dused := set_used MAX_D (map (\<lambda>i. int_byte (dused s i)) ?D) (dused t0),
    dname := \<lambda>i. if i \<in> set ?D then dname s i else dname t0 i\<rparr>"
  have du: "dused t2 i = dused s i" "dname t2 i = dname s i" if "i < MAX_D" for i
    unfolding t2_def using s(1) that set_used_map [of MAX_D "dused s" i "dused t0"] by (simp_all add: saveable_def)
  have bt: "bufs_ok t2" using t(1) nok
    by (auto simp: bufs_ok_def names_ok_def t2_def t0_def free_all_data_frame)
  have P: "fpool_base (fs_pool (free_all_data t))" "8 < pool_size (fs_pool (free_all_data t))"
    using t(2) need by (simp_all add: free_all_data_frame)
  note I = fpool_init_law [OF P]
  have pk: "packed (fs_pool t2) (pool_size (fs_pool t) - 8)" "pool_live (fs_pool t2) = Map.empty"
    using I by (simp_all add: packed_def t2_def t0_def free_all_data_frame)
  have d2: "\<forall>i<MAX_F. fdata t2 i = None" by (simp add: t2_def t0_def free_all_data_frame)
  have nd: "pool_need s 0 + 16 \<le> pool_size (fs_pool t) - 8" using need by simp
  from fill_files_next [OF c2(1) s bt d2 pk nd tail_def c2(3) [unfolded files_def]] obtain t3 c3 where
    t3: "fill_files fill t2 c2 = (0, t3, c3)" "cwd t3 = cwd s" "data_ok t3"
    "\<forall>i<MAX_D. downer t3 i = downer s i \<and> dmode t3 i = dmode s i"
    "\<forall>i<MAX_F. fname t3 i = fname s i \<and> fused t3 i = fused s i \<and> fowner t3 i = fowner s i \<and> fmode t3 i = fmode s i
      \<and> file_bytes t3 i = file_bytes s i"
    "dname t3 = dname t2" "dused t3 = dused t2" "rest c3 = z" "good c3" by blast
  have "fs_deserialize_fill fill c t = (0, t3, c3)"
    unfolding fs_deserialize_fill_def using c0(1) c1(1) c2(2) t3(1) h by (simp add: t2_def t0_def Let_def)
  then show ?thesis using t3 du by (auto simp: restored_def)
qed

end

lemma fs_buf_fill_source: "byte_source fs_buf_fill (\<lambda>c. c) (\<lambda>_. True)"
  by unfold_locales (auto simp: fs_buf_fill_def)

interpretation buf: byte_source fs_buf_fill "\<lambda>c. c" "\<lambda>_. True"
  by (rule fs_buf_fill_source)

locale byte_sink =
  fixes emit :: "'c \<Rightarrow> bytes \<Rightarrow> 'c" and written :: "'c \<Rightarrow> bytes" and good :: "'c \<Rightarrow> bool" and cap :: nat
  assumes emit_appends: "good c \<Longrightarrow> length (written c) + length d \<le> cap \<Longrightarrow> written (emit c d) = written c @ d \<and> good (emit c d)"
begin

lemma emit_all:
  "good c \<Longrightarrow> length (written c) + length (concat ds) \<le> cap \<Longrightarrow>
   written (foldl emit c ds) = written c @ concat ds \<and> good (foldl emit c ds)"
proof (induction ds arbitrary: c)
  case (Cons d ds)
  then show ?case using emit_appends [of c d] by simp
qed simp

lemma serialize_written:
  "good c \<Longrightarrow> length (written c) + length (fs_image s) \<le> cap \<Longrightarrow>
   written (fs_serialize_sink emit c s) = written c @ fs_image s \<and> good (fs_serialize_sink emit c s)"
  unfolding fs_serialize_sink_def fs_image_def by (rule emit_all)

end

interpretation bufsink: byte_sink fs_buf_sink "\<lambda>c. c" "\<lambda>_. True" cap for cap
  by unfold_locales (simp add: fs_buf_sink_def)

subsection \<open>Size of the image\<close>

lemma foldl_u32_sum:
  "m + sum_list (map (\<lambda>i. if P i then n i else 0) xs) < 4294967296 \<Longrightarrow>
   foldl (\<lambda>need i. if P i then u32 (need + n i) else need) m xs = m + sum_list (map (\<lambda>i. if P i then n i else 0) xs)"
  by (induction xs arbitrary: m) auto

lemma sum_list_bound: "(\<And>i. i \<in> set xs \<Longrightarrow> f i \<le> (B::nat)) \<Longrightarrow> sum_list (map f xs) \<le> B * length xs"
  by (induction xs) (auto simp: algebra_simps intro: add_mono)

definition data_total :: "fs \<Rightarrow> nat" where
  "data_total s = sum_list (map (\<lambda>i. if fused s i \<noteq> 0 \<and> fsize s i > 0 then nat (fsize s i) else 0) [0..<MAX_F])"

lemma fsize_bounds:
  assumes "data_ok s" "i < MAX_F"
  shows "0 \<le> fsize s i \<and> fsize s i < int MAX_FILE_DATA"
  using data_okD(2) [OF assms] by (auto simp: slot_data_ok_def MAX_FILE_DATA_def split: option.splits)

lemma fs_serialized_size_eq:
  assumes "data_ok s"
  shows "fs_serialized_size s = fs_meta_size + data_total s"
proof -
  have "data_total s \<le> (MAX_FILE_DATA - 1) * length [0..<MAX_F]"
    unfolding data_total_def
    by (intro sum_list_bound) (use fsize_bounds [OF assms] in \<open>force simp: MAX_FILE_DATA_def\<close>)
  then have "fs_meta_size + data_total s < 4294967296"
    by (simp add: fs_meta_size_def MAX_FILE_DATA_def MAX_F_def MAX_D_def FS_PATH_CAP_def)
  then show ?thesis unfolding fs_serialized_size_def data_total_def by (rule foldl_u32_sum)
qed

lemma length_concat_const: "(\<And>i. i \<in> set xs \<Longrightarrow> length (f i) = n) \<Longrightarrow> length (concat (map f xs)) = n * length xs"
  by (induction xs) auto

lemma length_fs_image:
  assumes "fs_ok s"
  shows "length (fs_image s) = fs_serialized_size s"
proof -
  have dok: "data_ok s" and nok: "names_ok s" using assms by (simp_all add: fs_ok_def)
  have "length (concat (map (\<lambda>i. if fused s i = 0 then [] else file_bytes s i) [0..<MAX_F])) = data_total s"
    unfolding data_total_def length_concat map_map comp_def
  proof (intro arg_cong [where f = sum_list] map_cong refl)
    fix i assume "i \<in> set [0..<MAX_F]"
    then have i: "i < MAX_F" by simp
    note so = data_okD(2) [OF dok i]
    show "length (if fused s i = 0 then [] else file_bytes s i) = (if fused s i \<noteq> 0 \<and> 0 < fsize s i then nat (fsize s i) else 0)"
      using length_file_bytes [OF so] by auto
  qed
  moreover have "length (concat (map (dname s) [0..<MAX_D])) = 256 * length [0..<MAX_D]"
    "length (concat (map (fname s) [0..<MAX_F])) = 256 * length [0..<MAX_F]"
    using nok by (intro length_concat_const; simp add: names_ok_def buf_ok_def)+
  moreover have "length (concat (map (\<lambda>i. le32_bytes (uint_of (u i)) @ int_le16 (m i)) xs)) = 6 * length xs" for u m and xs :: "nat list"
    by (rule length_concat_const) (simp add: int_le16_def)
  moreover have "length (concat (map (\<lambda>i. le32_bytes (nat (fsize s i))) xs)) = 4 * length xs" for xs
    by (rule length_concat_const) simp
  moreover have "length (cwd s) = 256" using nok by (simp add: names_ok_def buf_ok_def)
  ultimately show ?thesis
    unfolding fs_image_segments [OF dok] fs_serialized_size_eq [OF dok]
    by (simp add: fs_header_def fs_meta_size_def FS_PATH_CAP_def)
qed

text \<open>Restoring the slots restores the maps.\<close>

lemma find_cong_set: "(\<And>x. x \<in> set xs \<Longrightarrow> P x = Q x) \<Longrightarrow> find P xs = find Q xs"
  by (induction xs) auto

lemma restored_maps:
  assumes r: "restored s t" and ok: "fs_ok s"
  shows "fs_files t = fs_files s" "fs_dirs t = fs_dirs s" "cwd t = cwd s" "fs_ok t"
proof -
  have D: "dname t i = dname s i" "dused t i = dused s i" "downer t i = downer s i" "dmode t i = dmode s i" if "i < MAX_D" for i
    using r that by (simp_all add: restored_def)
  have F: "fname t i = fname s i" "fused t i = fused s i" "fowner t i = fowner s i" "fmode t i = fmode s i"
    "file_bytes t i = file_bytes s i" if "i < MAX_F" for i
    using r that by (simp_all add: restored_def)
  show c: "cwd t = cwd s" using r by (simp add: restored_def)
  have fi: "file_index t p = file_index s p" for p
    unfolding file_index_def by (rule find_cong_set) (simp add: F)
  have di: "dir_index t p = dir_index s p" for p
    unfolding dir_index_def by (rule find_cong_set) (simp add: D)
  show "fs_files t = fs_files s"
    using F file_index_used [of s] by (auto simp: fs_files_def fi fun_eq_iff intro!: option.map_cong)
  have dl: "dir_index s p = Some i \<Longrightarrow> i < MAX_D" for p i by (simp add: dir_index_Some)
  show "fs_dirs t = fs_dirs s"
    using D dl by (auto simp: fs_dirs_def di fun_eq_iff intro!: option.map_cong)
  have "names_ok t" using ok D F unfolding fs_ok_def names_ok_def c by simp
  then show "fs_ok t" using r by (simp add: fs_ok_def restored_def)
qed

subsection \<open>The image fits the reserved region\<close>

text \<open>The blocks of the pool and their headers tile it, so the data of all files is smaller than the pool.\<close>

lemma pool_rep_total: "pool_rep m off bl e \<Longrightarrow> off + sum_list (map (\<lambda>b. fst b + 8) bl) = e"
  by (induction m off bl e rule: pool_rep.induct) auto

lemma live_total: "sum_list (map snd (live_blocks off bl)) \<le> sum_list (map (\<lambda>b. fst b + 8) bl)"
  by (induction off bl rule: live_blocks.induct) auto

lemma owned_total:
  assumes "distinct (map fst L)" "distinct is"
    and "\<And>i. i \<in> set is \<Longrightarrow> d i \<noteq> None \<Longrightarrow> \<exists>k. (the (d i), k) \<in> set L \<and> n i \<le> k"
    and "\<And>i j p. i \<in> set is \<Longrightarrow> j \<in> set is \<Longrightarrow> d i = Some p \<Longrightarrow> d j = Some p \<Longrightarrow> i = j"
  shows "sum_list (map (\<lambda>i. if d i = None then 0 else n i) is) \<le> sum_list (map snd (L :: (nat \<times> nat) list))"
proof -
  let ?I = "{i \<in> set is. d i \<noteq> None}" and ?m = "map_of L"
  have m: "\<exists>k. ?m (the (d i)) = Some k \<and> n i \<le> k" if "i \<in> ?I" for i
    using assms(3) [of i] map_of_is_SomeI [OF assms(1)] that by blast
  have inj: "inj_on (\<lambda>i. the (d i)) ?I" using assms(4) by (auto simp: inj_on_def)
  have "sum_list (map (\<lambda>i. if d i = None then 0 else n i) is) = (\<Sum>i\<in>set is. if d i = None then 0 else n i)"
    using assms(2) by (simp add: sum_list_distinct_conv_sum_set)
  also have "\<dots> = (\<Sum>i\<in>?I. n i)" by (rule sum.mono_neutral_cong_right) auto
  also have "\<dots> \<le> (\<Sum>i\<in>?I. the (?m (the (d i))))" using m by (intro sum_mono) fastforce
  also have "\<dots> = (\<Sum>p\<in>(\<lambda>i. the (d i)) ` ?I. the (?m p))"
    using sum.reindex [OF inj, of "\<lambda>p. the (?m p)"] by (simp only: comp_def)
  also have "\<dots> \<le> (\<Sum>p\<in>fst ` set L. the (?m p))"
  proof (rule sum_mono2)
    show "(\<lambda>i. the (d i)) ` ?I \<subseteq> fst ` set L"
    proof (rule image_subsetI)
      fix i assume "i \<in> ?I"
      then obtain k where "?m (the (d i)) = Some k" using m by blast
      then show "the (d i) \<in> fst ` set L" by (force dest: map_of_SomeD)
    qed
  qed auto
  also have "\<dots> = sum_list (map (\<lambda>p. the (?m p)) (map fst L))"
    unfolding sum_list_distinct_conv_sum_set [OF assms(1)] by (simp only: set_map)
  also have "\<dots> = sum_list (map snd L)"
    using assms(1) by (auto intro!: arg_cong [where f = sum_list])
  finally show ?thesis .
qed

lemma data_total_le_pool:
  assumes ok: "data_ok s"
  shows "data_total s \<le> pool_size (fs_pool s)"
proof -
  let ?P = "fs_pool s" and ?L = "live_blocks 0 (pool_blocks (fs_pool s))"
  have pok: "pool_ok ?P" using ok by (simp add: data_ok_def)
  have eq: "(if fused s i \<noteq> 0 \<and> fsize s i > 0 then nat (fsize s i) else 0) = (if fdata s i = None then 0 else nat (fsize s i))"
    if "i < MAX_F" for i
    using data_okD(2) [OF ok that] by (auto simp: slot_data_ok_def split: option.splits)
  have "data_total s = sum_list (map (\<lambda>i. if fdata s i = None then 0 else nat (fsize s i)) [0..<MAX_F])"
    unfolding data_total_def using eq by (intro arg_cong [where f = sum_list] map_cong) auto
  also have "\<dots> \<le> sum_list (map snd ?L)"
  proof (rule owned_total)
    show "distinct (map fst ?L)" by (rule live_distinct)
    show "\<exists>k. (the (fdata s i), k) \<in> set ?L \<and> nat (fsize s i) \<le> k" if "i \<in> set [0..<MAX_F]" "fdata s i \<noteq> None" for i
      using that data_okD(2) [OF ok, of i] by (fastforce simp: slot_data_ok_def pool_live_def dest: map_of_SomeD)
    show "i = j" if "i \<in> set [0..<MAX_F]" "j \<in> set [0..<MAX_F]" "fdata s i = Some p" "fdata s j = Some p" for i j p
      using data_okD(3) [OF ok] that by auto
  qed simp
  also have "\<dots> \<le> pool_size ?P"
    using live_total [of 0 "pool_blocks ?P"] pool_rep_total [of "fpool_mem ?P" 0 "pool_blocks ?P" "pool_size ?P"] pok
    by (simp add: pool_ok_def)
  finally show ?thesis .
qed

subsection \<open>Properties\<close>

text \<open>C3. Round trip of the Storefile image: serializing a filesystem into a large enough buffer and
  deserializing the result into any other one restores every file (contents, owner and mode), every
  directory and the current directory, provided the pool there has room for the data with 24 bytes to
  spare; the restored state satisfies the invariant.\<close>

theorem fs_serialize_roundtrip:
  assumes "fs_ok s" "saveable s" and "fs_serialize True n s = (k, img)" "0 \<le> k"
    and "bufs_ok t" "fpool_base (fs_pool t)" "pool_need s 0 + 24 \<le> pool_size (fs_pool t)"
  shows "\<exists>t'. fs_deserialize (Some img) (length img) t = (0, t') \<and> fs_files t' = fs_files s \<and>
    fs_dirs t' = fs_dirs s \<and> cwd t' = cwd s \<and> fs_ok t'"
proof -
  have img: "img = fs_image s"
    using assms(3,4) bufsink.serialize_written [of "[]" s "length (fs_image s)"]
    by (auto simp: fs_serialize_def Let_def split: if_splits)
  from buf.deserialize_image [OF _ assms(2,1,5-7), of "fs_image s" "[]"] obtain t' c'
    where "fs_deserialize_fill fs_buf_fill (fs_image s) t = (0, t', c')" "restored s t'" by auto
  then show ?thesis using restored_maps [OF _ assms(1)] by (simp add: fs_deserialize_def img)
qed

text \<open>The image has exactly the size \<^verbatim>\<open>fs_serialized_size\<close> announces, without wrap-around, and never
  more than \<^verbatim>\<open>fs_store_size\<close>, the size reserved on disk.\<close>

theorem fs_image_fits_store:
  assumes "fs_ok s" and "pool_size (fs_pool s) \<le> FS_DATA_POOL_SIZE"
  shows "length (fs_serialize_sink fs_buf_sink [] s) = fs_serialized_size s
    \<and> fs_serialized_size s \<le> fs_store_size"
proof -
  have dok: "data_ok s" using assms(1) by (simp add: fs_ok_def)
  have "fs_serialize_sink fs_buf_sink [] s = fs_image s"
    using bufsink.serialize_written [of "[]" s "length (fs_image s)"] by simp
  moreover have "fs_store_size = fs_meta_size + FS_DATA_POOL_SIZE"
    by (simp add: fs_store_size_def fs_meta_size_def FS_DATA_POOL_SIZE_def MAX_F_def MAX_D_def FS_PATH_CAP_def)
  ultimately show ?thesis
    using length_fs_image [OF assms(1)] fs_serialized_size_eq [OF dok] data_total_le_pool [OF dok] assms(2) by simp
qed

text \<open>The witness saves the filesystem with the one file \<^verbatim>\<open>/a\<close> and restores it into an empty one.\<close>

lemma hello_tables:
  "fused hello_fs = (fused fresh_fs)(0 := 1)" "fowner hello_fs = (fowner fresh_fs)(0 := 0)"
  "fmode hello_fs = (fmode fresh_fs)(0 := 420)" "dused hello_fs = dused fresh_fs"
  "downer hello_fs = downer fresh_fs" "dmode hello_fs = dmode fresh_fs" "file_index hello_fs ''/a'' = Some 0"
proof -
  from hello_fs_write have "file_index fresh_fs ''/a'' = None"
    using fs_files_None_iff [of "''/a''" fresh_fs] by (simp add: fresh_fs_ok)
  with hello_fs_write obtain idx s1 where c: "fs_create_file (Some ''/a'') (fresh_fs\<lparr>fs_errno := 0\<rparr>) = (0, s1)"
    "file_index s1 ''/a'' = Some idx" "write_slot idx ''hello'' 5 s1 = (0, hello_fs)"
    by (cases rule: fs_write_file_cases) (auto simp: fresh_parent)
  have s1: "s1 = fs_commit_change (add_file 0 ''/a'' 0 420 (fresh_fs\<lparr>fs_errno := 0\<rparr>))"
    using c(1)
  proof (cases rule: fs_create_file_cases)
    case same
    then show ?thesis using \<open>file_index fresh_fs ''/a'' = None\<close> by (simp add: fresh_parent errno_frame)
  next
    case (new i)
    then show ?thesis using fresh_free_slot by (simp add: fresh_parent fresh_fs_ok free_file_slot_def)
  qed
  have "fs_ok s1" using fs_create_file_law(1) [OF _ c(1)] fresh_fs_ok(1) by (simp add: errno_frame)
  from write_slot_names [OF this c(2) _ c(3)] have n: "same_names s1 hello_fs" by simp
  then show "fused hello_fs = (fused fresh_fs)(0 := 1)" "fowner hello_fs = (fowner fresh_fs)(0 := 0)"
    "fmode hello_fs = (fmode fresh_fs)(0 := 420)" "dused hello_fs = dused fresh_fs"
    "downer hello_fs = downer fresh_fs" "dmode hello_fs = dmode fresh_fs"
    by (simp_all add: same_names_def s1 add_file_def)
  have "file_index s1 ''/a'' = file_index hello_fs ''/a''" using same_namesD(3) [OF n] by simp
  moreover have "file_index hello_fs ''/a'' = Some 0"
  proof -
    obtain i where i: "file_index hello_fs ''/a'' = Some i" using hello_index by blast
    then have "fused hello_fs i \<noteq> 0" "i < MAX_F" using file_index_used by auto
    then have "i = 0" using \<open>fused hello_fs = (fused fresh_fs)(0 := 1)\<close>
      by (cases "i = 0") (simp_all add: fresh_fs_def fs_init_def)
    with i show ?thesis by simp
  qed
  ultimately show "file_index hello_fs ''/a'' = Some 0" by simp
qed

lemma fresh_tables:
  "i < MAX_F \<Longrightarrow> fused fresh_fs i = 0 \<and> fowner fresh_fs i = 0 \<and> fmode fresh_fs i = 493"
  "i < MAX_D \<Longrightarrow> dused fresh_fs i = (if i = 0 then 1 else 0) \<and> downer fresh_fs i = 0 \<and> dmode fresh_fs i = 493"
  by (simp_all add: fresh_fs_def fs_init_def)

lemma hello_saveable: "saveable hello_fs" "pool_need hello_fs 0 \<le> 16"
proof -
  show "saveable hello_fs" using fresh_tables by (auto simp: saveable_def hello_tables)
  obtain "fsize hello_fs 0 = 5" using hello_index hello_tables(7) by auto
  moreover have "pool_need hello_fs 1 = 0"
    unfolding pool_need_def using fresh_tables by (auto simp: hello_tables sum_list_eq_0_iff)
  moreover have "round_up 4 6 = 8" by (simp add: round_up_def align_down_def)
  ultimately show "pool_need hello_fs 0 \<le> 16"
    using pool_need_Suc [of 0 hello_fs] by (simp add: MAX_F_def split: if_splits)
qed

lemma fresh_bufs: "bufs_ok fresh_fs" "fpool_base (fs_pool fresh_fs)" "pool_size (fs_pool fresh_fs) = 4096"
proof -
  show "bufs_ok fresh_fs" using fresh_fs_ok(1) by (simp add: bufs_ok_def fs_ok_def names_ok_def)
  have "fs_pool fresh_fs = fpool_init (fs_pool boot_fs)" by (simp add: fresh_fs_def fs_init_def)
  then show "fpool_base (fs_pool fresh_fs)" "pool_size (fs_pool fresh_fs) = 4096" by (simp_all add: boot_fs_def)
qed

theorem fs_serialize_roundtrip_witness:
  "\<exists>t'. fs_deserialize (Some (fs_image hello_fs)) (length (fs_image hello_fs)) fresh_fs = (0, t') \<and>
     fs_files t' ''/a'' = Some (''hello'', 0, 420)"
proof -
  have img: "fs_serialize_sink fs_buf_sink [] hello_fs = fs_image hello_fs"
    using bufsink.serialize_written [of "[]" hello_fs "length (fs_image hello_fs)"] by simp
  have "fs_serialize True (fs_serialized_size hello_fs) hello_fs = (int (fs_serialized_size hello_fs), fs_image hello_fs)"
    by (simp add: fs_serialize_def img)
  from fs_serialize_roundtrip [OF hello_fs_ok(1) hello_saveable(1) this _ fresh_bufs(1,2)]
  show ?thesis using hello_saveable(2) by (auto simp: fresh_bufs(3) hello_fs_ok(2))
qed

theorem fs_image_fits_store_witness:
  "fs_ok fresh_fs \<and> fs_serialized_size fresh_fs \<le> fs_store_size"
  using fs_image_fits_store [OF fresh_fs_ok(1)] fresh_fs_ok(1) fresh_bufs(3) by (simp add: FS_DATA_POOL_SIZE_def)

end
