(* ===== verification/CString.thy ===== *)
theory CString
  imports Prelude "HOL-Library.Sublist"
begin

section \<open>Strings and memory of the kernel's C library (kernel/kernel.c)\<close>

text \<open>
  The string functions that the kernel and every program link against. A string argument is the list
  of bytes from the pointer on, NUL-terminated or ending with the list; a pointer result into a
  string is its offset. \<^verbatim>\<open>memset\<close>, \<^verbatim>\<open>memcpy\<close>, \<^verbatim>\<open>memmove\<close> and \<^verbatim>\<open>memcmp\<close> work on a memory, a function
  from addresses to bytes, so that overlapping arrays are real. C integers of 32 bits wrap around:
  \<open>s32\<close> reduces a value to the range of \<^verbatim>\<open>int\<close>.
\<close>

definition s32 :: "int \<Rightarrow> int" where
  "s32 v = (v + 2147483648) mod 4294967296 - 2147483648"

definition int32_range :: "int \<Rightarrow> bool" where
  "int32_range v \<longleftrightarrow> - 2147483648 \<le> v \<and> v < 2147483648"

lemma s32_id [simp]: "int32_range v \<Longrightarrow> s32 v = v"
  by (simp add: s32_def int32_range_def)

lemma s32_range [simp]: "int32_range (s32 v)"
proof -
  have "0 \<le> (v + 2147483648) mod 4294967296" "(v + 2147483648) mod 4294967296 < 4294967296" by auto
  then show ?thesis unfolding s32_def int32_range_def by linarith
qed

subsection \<open>Comparing and copying strings\<close>

text \<open>What the comparison functions return when a pointer is null.\<close>

definition null_cmp :: "'a option \<Rightarrow> 'b option \<Rightarrow> int" where
  "null_cmp a b = (if a = None \<and> b = None then 0 else if a \<noteq> None then 1 else - 1)"

fun strlen_from :: "bytes \<Rightarrow> nat" where
  "strlen_from [] = 0"
| "strlen_from (c # s) = (if c = NUL then 0 else Suc (strlen_from s))"

definition strlen :: "cptr \<Rightarrow> nat" where
  "strlen s = (case s of None \<Rightarrow> 0 | Some s \<Rightarrow> strlen_from s)"

function strcmp_from :: "bytes \<Rightarrow> bytes \<Rightarrow> int" where
  "strcmp_from a b =
     (if chr_at a 0 \<noteq> NUL \<and> chr_at b 0 \<noteq> NUL \<and> chr_at a 0 = chr_at b 0
      then strcmp_from (tl a) (tl b)
      else of_char (chr_at a 0) - of_char (chr_at b 0))"
  by pat_completeness auto
termination
  by (relation "measure (\<lambda>(a, b). length a)") (auto simp: chr_at_def split: if_splits)

declare strcmp_from.simps [simp del]

definition strcmp :: "cptr \<Rightarrow> cptr \<Rightarrow> int" where
  "strcmp a b = (case (a, b) of (Some a, Some b) \<Rightarrow> strcmp_from a b | _ \<Rightarrow> null_cmp a b)"

fun strncmp_from :: "bytes \<Rightarrow> bytes \<Rightarrow> nat \<Rightarrow> int" where
  "strncmp_from a b 0 = 0"
| "strncmp_from a b (Suc n) =
     (if chr_at a 0 \<noteq> NUL \<and> chr_at b 0 \<noteq> NUL \<and> chr_at a 0 = chr_at b 0
      then strncmp_from (tl a) (tl b) n
      else of_char (chr_at a 0) - of_char (chr_at b 0))"

definition strncmp :: "cptr \<Rightarrow> cptr \<Rightarrow> nat \<Rightarrow> int" where
  "strncmp a b n =
     (if n = 0 then 0
      else case (a, b) of (Some a, Some b) \<Rightarrow> strncmp_from a b n | _ \<Rightarrow> null_cmp a b)"

text \<open>\<open>strcpy\<close> writes the source and its NUL over the start of the destination buffer.\<close>

definition strcpy :: "bytes \<Rightarrow> bytes \<Rightarrow> bytes" where
  "strcpy dst src = cstr src @ NUL # drop (Suc (length (cstr src))) dst"

definition strcat :: "bytes \<Rightarrow> bytes \<Rightarrow> bytes" where
  "strcat dst src =
     (let n = length (cstr dst) in take n dst @ strcpy (drop n dst) src)"

fun strncpy_from :: "bytes \<Rightarrow> bytes \<Rightarrow> nat \<Rightarrow> bytes" where
  "strncpy_from dst src 0 = dst"
| "strncpy_from dst src (Suc n) =
     (if chr_at src 0 \<noteq> NUL then chr_at src 0 # strncpy_from (tl dst) (tl src) n
      else replicate (Suc n) NUL @ drop (Suc n) dst)"

definition strncpy :: "bytes \<Rightarrow> bytes \<Rightarrow> nat \<Rightarrow> bytes" where
  "strncpy dst src n = strncpy_from dst src n"

subsection \<open>Searching\<close>

text \<open>The searched value is an \<^verbatim>\<open>int\<close> that the code reduces to \<^verbatim>\<open>unsigned char\<close>; only the value 0 itself
  finds the terminator.\<close>

fun strchr_from :: "bytes \<Rightarrow> byte \<Rightarrow> nat \<Rightarrow> nat option" where
  "strchr_from [] c i = None"
| "strchr_from (d # s) c i =
     (if d = NUL then None else if d = c then Some i else strchr_from s c (Suc i))"

definition strchr :: "cptr \<Rightarrow> int \<Rightarrow> nat option" where
  "strchr s c =
     (case s of
        None \<Rightarrow> None
      | Some s \<Rightarrow>
          (case strchr_from s (char_of (nat (c mod 256))) 0 of
             Some i \<Rightarrow> Some i
           | None \<Rightarrow> if c = 0 then Some (strlen_from s) else None))"

fun strrchr_from :: "bytes \<Rightarrow> byte \<Rightarrow> nat \<Rightarrow> nat option \<Rightarrow> nat option" where
  "strrchr_from [] c i acc = acc"
| "strrchr_from (d # s) c i acc =
     (if d = NUL then acc else strrchr_from s c (Suc i) (if d = c then Some i else acc))"

definition strrchr :: "cptr \<Rightarrow> int \<Rightarrow> nat option" where
  "strrchr s c =
     (case s of
        None \<Rightarrow> None
      | Some s \<Rightarrow>
          if c = 0 then Some (strlen_from s) else strrchr_from s (char_of (nat (c mod 256))) 0 None)"

text \<open>The inner loop of \<open>strstr\<close>: the needle (a NUL-free list here, its terminator being the end) is a
  prefix at this place.\<close>

fun match_at :: "bytes \<Rightarrow> bytes \<Rightarrow> bool" where
  "match_at hay [] = True"
| "match_at hay (c # needle) = (if c = NUL then True else chr_at hay 0 = c \<and> match_at (tl hay) needle)"

fun strstr_from :: "bytes \<Rightarrow> bytes \<Rightarrow> nat \<Rightarrow> nat option" where
  "strstr_from [] needle i = None"
| "strstr_from (c # hay) needle i =
     (if c = NUL then None
      else if match_at (c # hay) needle then Some i
      else strstr_from hay needle (Suc i))"

definition strstr :: "cptr \<Rightarrow> cptr \<Rightarrow> nat option" where
  "strstr haystack needle =
     (case (haystack, needle) of
        (Some h, Some n) \<Rightarrow> if chr_at n 0 = NUL then Some 0 else strstr_from h n 0
      | _ \<Rightarrow> None)"

subsection \<open>Memory\<close>

text \<open>Address 0 is the null pointer.\<close>

fun memset_up :: "mem \<Rightarrow> nat \<Rightarrow> byte \<Rightarrow> nat \<Rightarrow> mem" where
  "memset_up m p v 0 = m"
| "memset_up m p v (Suc n) = memset_up (m(p := v)) (p + 1) v n"

definition memset :: "mem \<Rightarrow> nat \<Rightarrow> int \<Rightarrow> nat \<Rightarrow> mem" where
  "memset m p v n = (if p = 0 then m else memset_up m p (char_of (nat (v mod 256))) n)"

fun memcpy_up :: "mem \<Rightarrow> nat \<Rightarrow> nat \<Rightarrow> nat \<Rightarrow> mem" where
  "memcpy_up m d s 0 = m"
| "memcpy_up m d s (Suc n) = memcpy_up (m(d := m s)) (d + 1) (s + 1) n"

definition memcpy :: "mem \<Rightarrow> nat \<Rightarrow> nat \<Rightarrow> nat \<Rightarrow> mem" where
  "memcpy m d s n = (if d = 0 \<or> s = 0 then m else memcpy_up m d s n)"

fun memcpy_down :: "mem \<Rightarrow> nat \<Rightarrow> nat \<Rightarrow> nat \<Rightarrow> mem" where
  "memcpy_down m d s 0 = m"
| "memcpy_down m d s (Suc n) = memcpy_down (m(d + n := m (s + n))) d s n"

definition memmove :: "mem \<Rightarrow> nat \<Rightarrow> nat \<Rightarrow> nat \<Rightarrow> mem" where
  "memmove m d s n =
     (if d = 0 \<or> s = 0 \<or> d = s then m
      else if d < s then memcpy_up m d s n
      else memcpy_down m d s n)"

fun memcmp_from :: "mem \<Rightarrow> nat \<Rightarrow> nat \<Rightarrow> nat \<Rightarrow> int" where
  "memcmp_from m x y 0 = 0"
| "memcmp_from m x y (Suc n) =
     (if m x \<noteq> m y then of_char (m x) - of_char (m y) else memcmp_from m (x + 1) (y + 1) n)"

definition memcmp :: "mem \<Rightarrow> nat \<Rightarrow> nat \<Rightarrow> nat \<Rightarrow> int" where
  "memcmp m x y n =
     (if x = 0 \<or> y = 0 then (if x = y then 0 else if x \<noteq> 0 then 1 else - 1)
      else memcmp_from m x y n)"

subsection \<open>Numbers\<close>

definition is_space :: "byte \<Rightarrow> bool" where
  "is_space c \<longleftrightarrow> c \<in> set [CHR '' '', CHR 0x09, CHR 0x0A, CHR 0x0D, CHR 0x0C, CHR 0x0B]"

definition is_digit :: "byte \<Rightarrow> bool" where
  "is_digit c \<longleftrightarrow> (48::nat) \<le> of_char c \<and> of_char c \<le> (57::nat)"

fun skip_space :: "bytes \<Rightarrow> bytes" where
  "skip_space [] = []"
| "skip_space (c # s) = (if is_space c then skip_space s else c # s)"

fun atoi_digits :: "bytes \<Rightarrow> int \<Rightarrow> int" where
  "atoi_digits [] v = v"
| "atoi_digits (c # s) v =
     (if is_digit c then atoi_digits s (s32 (s32 (v * 10) + (of_char c - 48))) else v)"

definition atoi :: "cptr \<Rightarrow> int" where
  "atoi s =
     (case s of
        None \<Rightarrow> 0
      | Some s \<Rightarrow>
          let s = skip_space s;
              neg = (chr_at s 0 = CHR ''-'');
              s = (if neg \<or> chr_at s 0 = CHR ''+'' then tl s else s)
          in s32 (atoi_digits s 0 * (if neg then - 1 else 1)))"

definition digit_char :: "nat \<Rightarrow> byte" where
  "digit_char d = char_of (if d < 10 then 48 + d else 97 + d - 10)"

text \<open>The digits in the order they are produced, the least significant first.\<close>

function itoa_digits :: "nat \<Rightarrow> nat \<Rightarrow> bytes" where
  "itoa_digits base u =
     (if u = 0 \<or> base < 2 then [] else digit_char (u mod base) # itoa_digits base (u div base))"
  by pat_completeness auto
termination
  by (relation "measure snd") auto

declare itoa_digits.simps [simp del]

definition itoa :: "int \<Rightarrow> int \<Rightarrow> bytes" where
  "itoa v base =
     (if base < 2 \<or> base > 16 then []
      else
        let neg = (base = 10 \<and> v < 0);
            u = nat ((if neg then - v else v) mod 4294967296);
            tmp = (if u = 0 then ''0'' else itoa_digits (nat base) u)
        in (if neg then ''-'' else []) @ rev tmp)"

definition c_abs :: "int \<Rightarrow> int" where
  "c_abs n = (if n < 0 then s32 (- n) else n)"

definition rand_next :: "32 word \<Rightarrow> 32 word" where
  "rand_next st = st * 1103515245 + 12345"

definition rand :: "32 word \<Rightarrow> nat \<times> 32 word" where
  "rand st = (let st = rand_next st in (unat (drop_bit 16 st AND 0x7FFF), st))"

definition srand :: "nat \<Rightarrow> 32 word" where
  "srand seed = (if seed \<noteq> 0 then word_of_nat seed else 1)"

subsection \<open>Characters\<close>

definition isdigit :: "int \<Rightarrow> bool" where
  "isdigit c \<longleftrightarrow> 48 \<le> c \<and> c \<le> 57"

definition isalpha :: "int \<Rightarrow> bool" where
  "isalpha c \<longleftrightarrow> (65 \<le> c \<and> c \<le> 90) \<or> (97 \<le> c \<and> c \<le> 122)"

definition isalnum :: "int \<Rightarrow> bool" where
  "isalnum c \<longleftrightarrow> isalpha c \<or> isdigit c"

definition islower :: "int \<Rightarrow> bool" where
  "islower c \<longleftrightarrow> 97 \<le> c \<and> c \<le> 122"

definition isupper :: "int \<Rightarrow> bool" where
  "isupper c \<longleftrightarrow> 65 \<le> c \<and> c \<le> 90"

definition isspace :: "int \<Rightarrow> bool" where
  "isspace c \<longleftrightarrow> c = 32 \<or> c = 9 \<or> c = 10 \<or> c = 13 \<or> c = 12 \<or> c = 11"

definition isxdigit :: "int \<Rightarrow> bool" where
  "isxdigit c \<longleftrightarrow> isdigit c \<or> (97 \<le> c \<and> c \<le> 102) \<or> (65 \<le> c \<and> c \<le> 70)"

definition tolower :: "int \<Rightarrow> int" where
  "tolower c = (if isupper c then c + 32 else c)"

definition toupper :: "int \<Rightarrow> int" where
  "toupper c = (if islower c then c - 32 else c)"

function strcasecmp_from :: "bytes \<Rightarrow> bytes \<Rightarrow> int" where
  "strcasecmp_from a b =
     (if chr_at a 0 \<noteq> NUL \<and> chr_at b 0 \<noteq> NUL \<and> tolower (of_char (chr_at a 0)) = tolower (of_char (chr_at b 0))
      then strcasecmp_from (tl a) (tl b)
      else tolower (of_char (chr_at a 0)) - tolower (of_char (chr_at b 0)))"
  by pat_completeness auto
termination
  by (relation "measure (\<lambda>(a, b). length a)") (auto simp: chr_at_def split: if_splits)

declare strcasecmp_from.simps [simp del]

definition strcasecmp :: "cptr \<Rightarrow> cptr \<Rightarrow> int" where
  "strcasecmp a b = (case (a, b) of (Some a, Some b) \<Rightarrow> strcasecmp_from a b | _ \<Rightarrow> null_cmp a b)"

fun strncasecmp_from :: "bytes \<Rightarrow> bytes \<Rightarrow> nat \<Rightarrow> int" where
  "strncasecmp_from a b 0 = 0"
| "strncasecmp_from a b (Suc n) =
     (if chr_at a 0 \<noteq> NUL \<and> chr_at b 0 \<noteq> NUL \<and> tolower (of_char (chr_at a 0)) = tolower (of_char (chr_at b 0))
      then strncasecmp_from (tl a) (tl b) n
      else tolower (of_char (chr_at a 0)) - tolower (of_char (chr_at b 0)))"

definition strncasecmp :: "cptr \<Rightarrow> cptr \<Rightarrow> nat \<Rightarrow> int" where
  "strncasecmp a b n =
     (if n = 0 then 0
      else case (a, b) of (Some a, Some b) \<Rightarrow> strncasecmp_from a b n | _ \<Rightarrow> null_cmp a b)"

definition map_cstr :: "(int \<Rightarrow> int) \<Rightarrow> bytes \<Rightarrow> bytes" where
  "map_cstr f s = map (\<lambda>c. char_of (nat (f (of_char c)))) (cstr s) @ drop (length (cstr s)) s"

definition strlwr :: "bytes \<Rightarrow> bytes" where
  "strlwr s = map_cstr tolower s"

definition strupr :: "bytes \<Rightarrow> bytes" where
  "strupr s = map_cstr toupper s"

subsection \<open>Facts\<close>

lemma strlen_from_eq: "strlen_from s = length (cstr s)"
  by (induction s) auto

lemma of_char_pos: "c \<noteq> NUL \<Longrightarrow> 0 < (of_char c :: nat)"
  using of_char_eq_iff [of c NUL, where 'a = nat] by simp

lemma of_char_int_facts:
  "(of_char c :: int) = 0 \<longleftrightarrow> c = NUL" "0 = (of_char c :: int) \<longleftrightarrow> c = NUL" "0 \<le> (of_char c :: int)"
  "0 < (of_char c :: int) \<longleftrightarrow> c \<noteq> NUL" "\<not> (of_char c :: int) < 0"
  "(of_char c :: int) < of_char d \<longleftrightarrow> (of_char c :: nat) < of_char d"
  using of_char_eq_iff [of c NUL, where 'a = int] of_char_pos [of c]
  by (auto simp flip: of_nat_of_char [where 'a = int])

lemma cstr_cases: "cstr s = [] \<or> (\<exists>c t. s = c # t \<and> c \<noteq> NUL)"
  by (cases s) auto

lemma memcpy_up_eq:
  "d \<le> s \<Longrightarrow> memcpy_up m d s n i = (if d \<le> i \<and> i < d + n then m (s + (i - d)) else m i)"
proof (induction n arbitrary: m d s)
  case (Suc n)
  have "memcpy_up m d s (Suc n) i = (if d + 1 \<le> i \<and> i < d + 1 + n then (m(d := m s)) (s + 1 + (i - (d + 1))) else (m(d := m s)) i)"
    using Suc by simp
  also have "\<dots> = (if d \<le> i \<and> i < d + Suc n then m (s + (i - d)) else m i)"
    using Suc.prems by (auto simp: Suc_diff_Suc)
  finally show ?case .
qed auto

lemma memcpy_down_eq:
  "s \<le> d \<Longrightarrow> memcpy_down m d s n i = (if d \<le> i \<and> i < d + n then m (s + (i - d)) else m i)"
proof (induction n arbitrary: m)
  case (Suc n)
  have "memcpy_down m d s (Suc n) i =
      (if d \<le> i \<and> i < d + n then (m(d + n := m (s + n))) (s + (i - d)) else (m(d + n := m (s + n))) i)"
    using Suc by simp
  also have "\<dots> = (if d \<le> i \<and> i < d + Suc n then m (s + (i - d)) else m i)"
    using Suc.prems by (auto simp: less_Suc_eq)
  finally show ?case .
qed auto

lemma match_at_prefix: "match_at hay needle \<longleftrightarrow> prefix (cstr needle) (cstr hay)"
proof (induction hay needle rule: match_at.induct)
  case (2 hay c needle)
  then show ?case by (cases hay) auto
qed simp

definition occurs_at :: "bytes \<Rightarrow> bytes \<Rightarrow> nat \<Rightarrow> bool" where
  "occurs_at hay needle i \<longleftrightarrow> prefix (cstr needle) (drop i (cstr hay))"

lemma strstr_from_Some:
  "cstr needle \<noteq> [] \<Longrightarrow> strstr_from hay needle k = Some j \<Longrightarrow>
   k \<le> j \<and> occurs_at hay needle (j - k) \<and> (\<forall>l<j - k. \<not> occurs_at hay needle l)"
proof (induction hay arbitrary: k)
  case (Cons c hay)
  show ?case
  proof (cases "match_at (c # hay) needle")
    case True
    then show ?thesis using Cons.prems match_at_prefix [of "c # hay" needle] by (auto simp: occurs_at_def split: if_splits)
  next
    case False
    then have c: "c \<noteq> NUL" and r: "strstr_from hay needle (Suc k) = Some j" using Cons.prems by (auto split: if_splits)
    from Cons.IH [OF Cons.prems(1) r] have IH: "Suc k \<le> j" "occurs_at hay needle (j - Suc k)"
      "\<forall>l<j - Suc k. \<not> occurs_at hay needle l" by auto
    have "\<not> occurs_at (c # hay) needle l" if "l < j - k" for l
      using that IH(3) False c match_at_prefix [of "c # hay" needle] by (cases l) (auto simp: occurs_at_def)
    moreover have "j - k = Suc (j - Suc k)" using IH(1) by simp
    ultimately show ?thesis using IH c by (auto simp: occurs_at_def)
  qed
qed simp

lemma strstr_from_None:
  "cstr needle \<noteq> [] \<Longrightarrow> strstr_from hay needle k = None \<Longrightarrow> \<not> occurs_at hay needle l"
proof (induction hay arbitrary: k l)
  case (Cons c hay)
  show ?case
  proof (cases "c = NUL")
    case True
    then show ?thesis using Cons.prems(1) by (simp add: occurs_at_def)
  next
    case False
    then have m: "\<not> match_at (c # hay) needle" and r: "strstr_from hay needle (Suc k) = None"
      using Cons.prems by (auto split: if_splits)
    show ?thesis
      using Cons.IH [OF Cons.prems(1) r] m False match_at_prefix [of "c # hay" needle] by (cases l) (auto simp: occurs_at_def)
  qed
qed (simp add: occurs_at_def)

subsection \<open>Decimal conversion\<close>

lemma atoi_digits_append:
  "\<forall>c\<in>set s. is_digit c \<Longrightarrow> atoi_digits (s @ t) v = atoi_digits t (atoi_digits s v)"
  by (induction s arbitrary: v) auto

lemma digit_char_10: "d < 10 \<Longrightarrow> is_digit (digit_char d) \<and> of_char (digit_char d) = int (48 + d)"
proof -
  assume d: "d < 10"
  have "(of_char (digit_char d) :: nat) = 48 + d" using d by (simp add: digit_char_def)
  then show ?thesis using d of_nat_of_char [of "digit_char d", where 'a = int, symmetric] by (simp add: is_digit_def)
qed

lemma itoa_digits_digits: "\<forall>c\<in>set (itoa_digits 10 u). is_digit c"
proof (induction u rule: less_induct)
  case (less u)
  have "u \<noteq> 0 \<Longrightarrow> \<forall>c\<in>set (itoa_digits 10 (u div 10)). is_digit c" by (rule less.IH) simp
  then show ?case by (subst itoa_digits.simps) (auto simp: digit_char_10)
qed

text \<open>Multiplying a negated magnitude: the digits are summed with wrap-around, which is harmless for every
  magnitude up to 2147483648, the magnitude of the smallest \<^verbatim>\<open>int\<close>.\<close>

lemma s32_mod: "s32 v mod 4294967296 = v mod 4294967296"
  unfolding s32_def by (metis add_diff_cancel_right' mod_diff_left_eq)

lemma s32_cong: "v mod 4294967296 = w mod 4294967296 \<Longrightarrow> s32 v = s32 w"
  unfolding s32_def by (metis mod_add_left_eq)

lemma s32_add_mult: "s32 (s32 (v * 10) + d) = s32 (v * 10 + d)"
  by (rule s32_cong) (metis mod_add_left_eq s32_mod)

lemma s32_neg: "s32 (s32 v * k) = s32 (v * k)"
  by (rule s32_cong) (metis mod_mult_left_eq s32_mod)

lemma atoi_itoa_digits: "u \<noteq> 0 \<Longrightarrow> atoi_digits (rev (itoa_digits 10 u)) 0 = s32 (int u)"
proof (induction u rule: less_induct)
  case (less u)
  have e: "itoa_digits 10 u = digit_char (u mod 10) # itoa_digits 10 (u div 10)"
    using less.prems by (subst itoa_digits.simps) simp
  have all: "\<forall>c\<in>set (rev (itoa_digits 10 (u div 10))). is_digit c" using itoa_digits_digits by simp
  have "atoi_digits (rev (itoa_digits 10 u)) 0 =
      s32 (s32 (atoi_digits (rev (itoa_digits 10 (u div 10))) 0 * 10) + int (u mod 10))"
    unfolding e using digit_char_10 [of "u mod 10"] by (simp add: atoi_digits_append [OF all])
  also have "atoi_digits (rev (itoa_digits 10 (u div 10))) 0 = s32 (int (u div 10))"
  proof (cases "u div 10 = 0")
    case True
    then show ?thesis by (simp add: itoa_digits.simps s32_def)
  qed (use less in simp)
  also have "s32 (s32 (s32 (int (u div 10)) * 10) + int (u mod 10)) = s32 (int (u div 10) * 10 + int (u mod 10))"
    by (simp add: s32_neg [of "int (u div 10)" 10] s32_add_mult)
  also have "int (u div 10) * 10 + int (u mod 10) = int u" by (simp add: zdiv_int zmod_int)
  finally show ?case .
qed

lemma skip_space_digit: "is_digit c \<or> c = CHR ''-'' \<Longrightarrow> skip_space (c # s) = c # s"
  by (auto simp: is_space_def is_digit_def)

lemma digit_not_sign: "is_digit c \<Longrightarrow> c \<noteq> CHR ''-'' \<and> c \<noteq> CHR ''+''"
  by (auto simp: is_digit_def)

lemma atoi_unsigned:
  assumes "ds \<noteq> []" "\<forall>c\<in>set ds. is_digit c"
  shows "atoi (Some ds) = s32 (atoi_digits ds 0)" "atoi (Some (''-'' @ ds)) = s32 (- atoi_digits ds 0)"
proof -
  obtain c s where ds: "ds = c # s" "is_digit c" using assms by (cases ds) auto
  show "atoi (Some ds) = s32 (atoi_digits ds 0)"
    using digit_not_sign [OF ds(2)] skip_space_digit [of c s] ds by (simp add: atoi_def Let_def)
  have "is_digit CHR ''-'' = False" by (simp add: is_digit_def)
  then show "atoi (Some (''-'' @ ds)) = s32 (- atoi_digits ds 0)"
    by (simp add: atoi_def is_space_def)
qed

subsection \<open>Properties\<close>

text \<open>\<^verbatim>\<open>strcmp\<close> returns 0 exactly for equal strings and a negative number exactly when the first
  string is smaller in the lexicographic order of unsigned bytes; its sign flips when the arguments
  are exchanged.\<close>

theorem strcmp_is_lexicographic:
  "(strcmp (Some a) (Some b) = 0 \<longleftrightarrow> cstr a = cstr b)
   \<and> (strcmp (Some a) (Some b) < 0 \<longleftrightarrow> (cstr a, cstr b) \<in> lexord {(x, y). (of_char x :: nat) < of_char y})
   \<and> strcmp (Some b) (Some a) = - strcmp (Some a) (Some b)"
proof -
  show ?thesis unfolding strcmp_def option.case prod.case
  proof (induction a b rule: strcmp_from.induct)
    case (1 a b)
    show ?case
    proof (cases "chr_at a 0 \<noteq> NUL \<and> chr_at b 0 \<noteq> NUL \<and> chr_at a 0 = chr_at b 0")
      case True
      then obtain c s t where ab: "a = c # s" "b = c # t" "c \<noteq> NUL" by (cases a; cases b) auto
      have "strcmp_from a b = strcmp_from s t" "strcmp_from b a = strcmp_from t s"
        using ab by (simp_all add: strcmp_from.simps [of "c # s"] strcmp_from.simps [of "c # t"])
      with 1 [OF True] ab show ?thesis by simp
    next
      case False
      then have e: "strcmp_from a b = of_char (chr_at a 0) - of_char (chr_at b 0)"
        "strcmp_from b a = of_char (chr_at b 0) - of_char (chr_at a 0)"
        by (auto simp: strcmp_from.simps [of a b] strcmp_from.simps [of b a])
      consider "cstr a = []" "cstr b = []" | c s where "cstr a = []" "b = c # s" "c \<noteq> NUL"
        | c s where "a = c # s" "c \<noteq> NUL" "cstr b = []"
        | c s d t where "a = c # s" "b = d # t" "c \<noteq> NUL" "d \<noteq> NUL" "c \<noteq> d"
        using False cstr_cases [of a] cstr_cases [of b] by fastforce
      then show ?thesis unfolding e
        by cases (auto simp: of_char_int_facts chr_at_0_NUL_iff [THEN iffD2])
    qed
  qed
qed

text \<open>\<^verbatim>\<open>memmove\<close> copies as if through a temporary: after it the destination holds the bytes the source
  had before the call, however the two ranges overlap, and every other byte is unchanged.\<close>

theorem memmove_copies:
  assumes "d \<noteq> 0" "s \<noteq> 0"
  shows "memmove m d s n i = (if d \<le> i \<and> i < d + n then m (s + (i - d)) else m i)"
  using assms memcpy_up_eq [of d s m n i] memcpy_down_eq [of s d m n i] by (auto simp: memmove_def)

theorem memmove_copies_witness:
  "memmove (\<lambda>i. char_of i) 101 100 3 103 = char_of (102 :: nat)"
  using memmove_copies [of 101 100 "\<lambda>i. char_of i" 3 103] by simp

text \<open>\<^verbatim>\<open>strstr\<close> with a non-empty needle returns the first place where it occurs, and null exactly when
  it occurs nowhere.\<close>

theorem strstr_finds_first:
  assumes "cstr needle \<noteq> []"
  shows "(case strstr (Some hay) (Some needle) of
      None \<Rightarrow> \<forall>l. \<not> occurs_at hay needle l
    | Some j \<Rightarrow> occurs_at hay needle j \<and> (\<forall>l<j. \<not> occurs_at hay needle l))"
  using assms strstr_from_Some [OF assms, of hay 0] strstr_from_None [OF assms, of hay 0]
  by (auto simp: strstr_def chr_at_0_NUL_iff split: option.splits)

theorem strstr_finds_first_witness:
  "strstr (Some ''kernel panic'') (Some ''pan'') = Some 7 \<and> occurs_at ''kernel panic'' ''pan'' 7"
proof -
  have "strstr (Some ''kernel panic'') (Some ''pan'') = Some 7" by code_simp
  then show ?thesis using strstr_finds_first [of "''pan''" "''kernel panic''"] by simp
qed

text \<open>Round trip of the decimal conversions: \<^verbatim>\<open>atoi\<close> of what \<^verbatim>\<open>itoa\<close> prints in base 10 is the number
  itself, for every \<^verbatim>\<open>int\<close>, the smallest one included.\<close>

theorem atoi_itoa:
  assumes "int32_range v"
  shows "atoi (Some (itoa v 10)) = v"
proof -
  let ?u = "nat ((if v < 0 then - v else v) mod 4294967296)"
  have u: "?u = nat \<bar>v\<bar>" using assms by (auto simp: int32_range_def zmod_trivial_iff)
  show ?thesis
  proof (cases "v = 0")
    case True
    then show ?thesis by (simp add: itoa_def Let_def atoi_def is_space_def is_digit_def s32_def)
  next
    case False
    let ?ds = "rev (itoa_digits 10 ?u)"
    have ne: "?ds \<noteq> []" using False u by (subst itoa_digits.simps) simp
    have all: "\<forall>c\<in>set ?ds. is_digit c" using itoa_digits_digits by simp
    have val: "atoi_digits ?ds 0 = s32 \<bar>v\<bar>" using atoi_itoa_digits [of ?u] False u by simp
    have "itoa v 10 = (if v < 0 then ''-'' else []) @ ?ds" using False u by (simp add: itoa_def Let_def)
    then show ?thesis
      using atoi_unsigned [OF ne all] val s32_neg [of "\<bar>v\<bar>" "- 1"] assms by (cases "v < 0") simp_all
  qed
qed

theorem atoi_itoa_witness: "atoi (Some (itoa (- 2147483648) 10)) = - 2147483648"
  using atoi_itoa [of "- 2147483648"] by (simp add: int32_range_def)

end
