(* ===== verification/Accounts.thy ===== *)
theory Accounts
  imports FsSerial CString
begin

section \<open>Accounts and groups (kernel/kernel.c)\<close>

text \<open>
  The account table, the group table and their image in the Storefile. A \<^verbatim>\<open>char\<close> array is the list of
  its bytes; the tables are functions from slot numbers, of which the code uses those below
  \<open>MAX_USERS\<close>, \<open>MAX_GROUPS\<close> and \<open>MAX_GMEM\<close>. \<^verbatim>\<open>store_save\<close> is recorded as a snapshot of what was saved.

  The invariant \<open>accounts_ok\<close> says that slot 0 is root, that names are non-empty and unique, that user
  numbers are positive and below the next one handed out, and that the members of a group are accounts.
  The main results are the round trip of the image, and that adding and deleting accounts and group
  members keep the invariant and change exactly the entry they should.
\<close>

abbreviation (input) MAX_USERNAME :: nat where "MAX_USERNAME \<equiv> 32"
abbreviation (input) MAX_PASSWORD :: nat where "MAX_PASSWORD \<equiv> 32"
abbreviation (input) MAX_HOSTNAME :: nat where "MAX_HOSTNAME \<equiv> 64"
abbreviation (input) MAX_USERS :: nat where "MAX_USERS \<equiv> 8"
abbreviation (input) MAX_GROUPS :: nat where "MAX_GROUPS \<equiv> 8"
abbreviation (input) MAX_GMEM :: nat where "MAX_GMEM \<equiv> 16"
abbreviation (input) CFG_VERSION :: nat where "CFG_VERSION \<equiv> 2"

record user_t =
  username :: bytes
  password :: bytes
  uid :: int

record group_t =
  group_name :: bytes
  group_count :: nat
  members :: "nat \<Rightarrow> bytes"

record config_t =
  users :: "nat \<Rightarrow> user_t"
  users_count :: nat
  next_uid :: int
  groups :: "nat \<Rightarrow> group_t"
  groups_count :: nat
  hostname :: bytes
  is_setup :: bool

record accounts = config_t +
  config_saved :: "config_t option"

subsection \<open>Loops on character arrays\<close>

text \<open>\<open>field n b\<close> are the first \<open>n\<close> bytes of an array; \<open>clear_chars n\<close> zeroes the first \<open>n\<close> bytes;
  \<open>copy_chars n src\<close> is the loop \<^verbatim>\<open>for (j = 0; src[j] && j < n; j++) dst[j] = src[j]\<close>.\<close>

definition field :: "nat \<Rightarrow> bytes \<Rightarrow> bytes" where
  "field n b = map (chr_at b) [0..<n]"

definition clear_chars :: "nat \<Rightarrow> bytes \<Rightarrow> bytes" where
  "clear_chars n b = replicate n NUL @ drop n b"

definition copy_chars :: "nat \<Rightarrow> bytes \<Rightarrow> bytes \<Rightarrow> bytes" where
  "copy_chars n src dst = (let k = take n (cstr src) in k @ drop (length k) dst)"

function streq_from :: "bytes \<Rightarrow> bytes \<Rightarrow> bool" where
  "streq_from a b =
     (if chr_at a 0 \<noteq> NUL \<and> chr_at b 0 \<noteq> NUL
      then (if chr_at a 0 \<noteq> chr_at b 0 then False else streq_from (tl a) (tl b))
      else chr_at a 0 = chr_at b 0)"
  by pat_completeness auto
termination
  by (relation "measure (\<lambda>(a, b). length a)") (auto simp: chr_at_def split: if_splits)

declare streq_from.simps [simp del]

definition streq :: "cptr \<Rightarrow> cptr \<Rightarrow> bool" where
  "streq a b =
     (case (a, b) of (Some a, Some b) \<Rightarrow> streq_from a b | _ \<Rightarrow> a = b)"

subsection \<open>Searching the tables\<close>

definition user_find :: "'a config_t_scheme \<Rightarrow> bytes \<Rightarrow> nat option" where
  "user_find s name =
     find (\<lambda>i. chr_at (username (users s i)) 0 \<noteq> NUL \<and> streq (Some (username (users s i))) (Some name))
       [0..<users_count s]"

definition group_find :: "'a config_t_scheme \<Rightarrow> bytes \<Rightarrow> nat option" where
  "group_find s name =
     find (\<lambda>i. chr_at (group_name (groups s i)) 0 \<noteq> NUL \<and> streq (Some (group_name (groups s i))) (Some name))
       [0..<groups_count s]"

definition group_has_member :: "'a config_t_scheme \<Rightarrow> nat \<Rightarrow> bytes \<Rightarrow> bool" where
  "group_has_member s gi name =
     (find (\<lambda>j. streq (Some (members (groups s gi) j)) (Some name)) [0..<group_count (groups s gi)] \<noteq> None)"

subsection \<open>Group members\<close>

definition group_member_add :: "nat \<Rightarrow> bytes \<Rightarrow> 'a config_t_scheme \<Rightarrow> int \<times> 'a config_t_scheme" where
  "group_member_add gi name s =
     (if group_has_member s gi name then (0, s)
      else if group_count (groups s gi) \<ge> MAX_GMEM then (- 1, s)
      else let g = groups s gi; c = group_count g;
               m = copy_chars (MAX_USERNAME - 1) name (clear_chars (MAX_USERNAME - 1) (members g c))
           in (0, s\<lparr>groups := (groups s)(gi := g\<lparr>members := (members g)(c := m), group_count := c + 1\<rparr>)\<rparr>))"

definition shift_members :: "nat \<Rightarrow> group_t \<Rightarrow> group_t" where
  "shift_members j g =
     (let n = group_count g;
          ms = foldl (\<lambda>ms k. ms(k := ms (k + 1))) (members g) [j..<n - 1]
      in g\<lparr>members := ms(n - 1 := replicate MAX_USERNAME NUL), group_count := n - 1\<rparr>)"

definition group_member_remove :: "nat \<Rightarrow> bytes \<Rightarrow> 'a config_t_scheme \<Rightarrow> 'a config_t_scheme" where
  "group_member_remove gi name s =
     (let g = groups s gi in
      case find (\<lambda>j. streq (Some (members g j)) (Some name)) [0..<group_count g] of
        None \<Rightarrow> s
      | Some j \<Rightarrow> s\<lparr>groups := (groups s)(gi := shift_members j g)\<rparr>)"

subsection \<open>Blanking the tables\<close>

definition blank_user :: user_t where
  "blank_user = \<lparr>username = replicate MAX_USERNAME NUL, password = replicate MAX_PASSWORD NUL, uid = 0\<rparr>"

definition clear_group :: "group_t \<Rightarrow> group_t" where
  "clear_group g = g\<lparr>group_name := (group_name g)[0 := NUL], group_count := 0,
     members := (members g)(0 := replicate MAX_USERNAME NUL)\<rparr>"

definition users_reset_table :: "'a config_t_scheme \<Rightarrow> 'a config_t_scheme" where
  "users_reset_table s =
     (let gs = (\<lambda>i. if i < MAX_GROUPS then clear_group (groups s i) else groups s i);
          us = (\<lambda>i. if i < MAX_USERS then blank_user else users s i);
          us = us(0 := (us 0)\<lparr>username := strncpy (username (us 0)) ''root'' MAX_USERNAME, uid := 0\<rparr>)
      in s\<lparr>groups_count := 0, groups := gs, users := us, users_count := 1, next_uid := 1000\<rparr>)"

definition config_reset :: "'a config_t_scheme \<Rightarrow> 'a config_t_scheme" where
  "config_reset s =
     users_reset_table (s\<lparr>hostname := replicate MAX_HOSTNAME NUL, is_setup := False\<rparr>)"

subsection \<open>The image of the tables\<close>

definition config_store_size :: nat where
  "config_store_size = 99 + MAX_USERS * (MAX_USERNAME + MAX_PASSWORD + 4)
     + 1 + MAX_GROUPS * (MAX_USERNAME + 1 + MAX_GMEM * MAX_USERNAME)"

definition user_record :: "user_t \<Rightarrow> bytes" where
  "user_record u = field MAX_USERNAME (username u) @ field MAX_PASSWORD (password u) @ le32_bytes (uint_of (uid u))"

definition group_record :: "group_t \<Rightarrow> bytes" where
  "group_record g = field MAX_USERNAME (group_name g) @ [char_of (group_count g)]
     @ concat (map (\<lambda>j. field MAX_USERNAME (members g j)) [0..<min (group_count g) MAX_GMEM])"

definition config_image :: "'a config_t_scheme \<Rightarrow> bytes" where
  "config_image s =
     [char_of CFG_VERSION] @ field MAX_HOSTNAME (hostname s) @ [if is_setup s then CHR 0x01 else NUL]
     @ field MAX_PASSWORD (password (users s 0)) @ [char_of (users_count s)]
     @ concat (map (\<lambda>i. user_record (users s i)) [0..<min (users_count s) MAX_USERS])
     @ [char_of (groups_count s)]
     @ concat (map (\<lambda>i. group_record (groups s i)) [0..<min (groups_count s) MAX_GROUPS])"

definition config_serialize :: "cptr \<Rightarrow> nat \<Rightarrow> 'a config_t_scheme \<Rightarrow> int \<times> cptr" where
  "config_serialize buf buf_size s =
     (case buf of
        None \<Rightarrow> (- 1, None)
      | Some b \<Rightarrow> if buf_size < config_store_size then (- 1, Some b)
                  else (0, Some (overlay b (config_image s))))"

subsection \<open>Reading the image\<close>

text \<open>The reading position is the rest of the buffer. \<open>load_users n i b s\<close> reads \<open>n\<close> user records, the
  first of which is record \<open>i\<close>.\<close>

fun load_users :: "nat \<Rightarrow> nat \<Rightarrow> bytes \<Rightarrow> 'a config_t_scheme \<Rightarrow> bytes \<times> 'a config_t_scheme" where
  "load_users 0 i b s = (b, s)"
| "load_users (Suc n) i b s =
     (let ui = users_count s;
          nm = field MAX_USERNAME b; b = drop MAX_USERNAME b;
          pw = field MAX_PASSWORD b; b = drop MAX_PASSWORD b;
          id = int_of_u32 (le32_at b); b = drop 4 b;
          id = (if id \<le> 0 then 1000 + int i else id);
          s = s\<lparr>users := (users s)(ui := \<lparr>username = nm, password = pw, uid = id\<rparr>)\<rparr>;
          s = (if id \<ge> next_uid s then s\<lparr>next_uid := s32 (id + 1)\<rparr> else s);
          s = (if chr_at nm 0 \<noteq> NUL \<and> \<not> streq (Some nm) (Some ''root'') then s\<lparr>users_count := ui + 1\<rparr> else s)
      in load_users n (i + 1) b s)"

fun load_members :: "nat \<Rightarrow> nat \<Rightarrow> bytes \<Rightarrow> 'a config_t_scheme \<Rightarrow> bytes \<times> 'a config_t_scheme" where
  "load_members 0 dst b s = (b, s)"
| "load_members (Suc n) dst b s =
     (let mname = field MAX_USERNAME b; b = drop MAX_USERNAME b
      in load_members n dst b (if user_find s mname \<noteq> None then snd (group_member_add dst mname s) else s))"

fun load_groups :: "nat \<Rightarrow> bytes \<Rightarrow> 'a config_t_scheme \<Rightarrow> bytes \<times> 'a config_t_scheme" where
  "load_groups 0 b s = (b, s)"
| "load_groups (Suc n) b s =
     (let gname = field MAX_USERNAME b; b = drop MAX_USERNAME b;
          mc = of_char (chr_at b 0); b = drop 1 b;
          mc = (if mc > MAX_GMEM then 0 else mc)
      in if chr_at gname 0 \<noteq> NUL \<and> groups_count s < MAX_GROUPS \<and> group_find s gname = None
         then let dst = groups_count s;
                  s = s\<lparr>groups_count := dst + 1,
                        groups := (groups s)(dst := (groups s dst)\<lparr>group_name := gname, group_count := 0\<rparr>)\<rparr>
              in case load_members mc dst b s of (b, s) \<Rightarrow> load_groups n b s
         else load_groups n (drop (mc * MAX_USERNAME) b) s)"

definition load_v2 :: "bytes \<Rightarrow> 'a config_t_scheme \<Rightarrow> 'a config_t_scheme" where
  "load_v2 b s =
     (let b = drop 1 b;
          s = s\<lparr>hostname := field MAX_HOSTNAME b\<rparr>; b = drop MAX_HOSTNAME b;
          s = s\<lparr>is_setup := chr_at b 0 \<noteq> NUL\<rparr>; b = drop 1 b;
          s = s\<lparr>users := (users s)(0 := (users s 0)\<lparr>password := field MAX_PASSWORD b\<rparr>)\<rparr>;
          b = drop MAX_PASSWORD b;
          cnt = of_char (chr_at b 0); b = drop 1 b;
          cnt = (if cnt < 1 \<or> cnt > MAX_USERS then 1 else cnt);
          s = s\<lparr>users_count := 1\<rparr>;
          b = drop (MAX_USERNAME + MAX_PASSWORD + 4) b
      in case load_users (cnt - 1) 1 b s of (b, s) \<Rightarrow>
         let gc = of_char (chr_at b 0); b = drop 1 b;
             gc = (if gc > MAX_GROUPS then 0 else gc)
         in snd (load_groups gc b s))"

definition load_legacy :: "bytes \<Rightarrow> 'a config_t_scheme \<Rightarrow> 'a config_t_scheme" where
  "load_legacy b s =
     (let nm = field MAX_USERNAME b; b = drop MAX_USERNAME b;
          pass = field MAX_PASSWORD b; b = drop MAX_PASSWORD b;
          s = s\<lparr>hostname := field MAX_HOSTNAME b\<rparr>; b = drop MAX_HOSTNAME b;
          s = s\<lparr>is_setup := chr_at b 0 \<noteq> NUL\<rparr>
      in if chr_at nm 0 \<noteq> NUL \<and> \<not> streq (Some nm) (Some ''root'')
         then let u = users s 1;
                  u = u\<lparr>username := strncpy (username u) nm MAX_USERNAME,
                        password := strncpy (password u) pass MAX_PASSWORD, uid := 1000\<rparr>
              in s\<lparr>users := (users s)(1 := u), users_count := 2, next_uid := 1001\<rparr>
         else s)"

definition config_deserialize :: "cptr \<Rightarrow> nat \<Rightarrow> 'a config_t_scheme \<Rightarrow> int \<times> 'a config_t_scheme" where
  "config_deserialize buf buf_size s =
     (case buf of
        None \<Rightarrow> (- 1, s)
      | Some b \<Rightarrow>
          if buf_size < 2 then (- 1, s)
          else let s = users_reset_table s in
            if chr_at b 0 = char_of CFG_VERSION
            then (if buf_size < config_store_size then (- 1, s) else (0, load_v2 b s))
            else (if buf_size < MAX_USERNAME + MAX_PASSWORD + MAX_HOSTNAME + 1 then (- 1, s)
                  else (0, load_legacy b s)))"

subsection \<open>Adding and deleting accounts\<close>

definition store_save :: "accounts \<times> fs \<Rightarrow> accounts \<times> fs" where
  "store_save sf = (case sf of (s, f) \<Rightarrow> (s\<lparr>config_saved := Some (config_t.truncate s)\<rparr>, store_hook f))"

definition home_path :: "bytes \<Rightarrow> bytes" where
  "home_path name = ''/home/'' @ take 72 (cstr name)"

definition new_user :: "bytes \<Rightarrow> bytes \<Rightarrow> int \<Rightarrow> accounts \<Rightarrow> accounts" where
  "new_user name pass want s =
     (let idx = users_count s;
          id = (if want > 0 then want else next_uid s);
          nxt = (if want > 0 then next_uid s else s32 (next_uid s + 1));
          nxt = (if id \<ge> nxt then s32 (id + 1) else nxt);
          u = \<lparr>username = copy_chars (MAX_USERNAME - 1) name (replicate MAX_USERNAME NUL),
               password = copy_chars (MAX_PASSWORD - 1) pass (replicate MAX_PASSWORD NUL), uid = id\<rparr>
      in s\<lparr>users := (users s)(idx := u), users_count := idx + 1, next_uid := nxt\<rparr>)"

definition user_add_full :: "cptr \<Rightarrow> cptr \<Rightarrow> int \<Rightarrow> accounts \<times> fs \<Rightarrow> int \<times> accounts \<times> fs" where
  "user_add_full name pass want sf =
     (case sf of (s, f) \<Rightarrow>
      if null_or_empty name \<or> pass = None then (- 1, s, f)
      else if user_find s (the name) \<noteq> None then (- 1, s, f)
      else if users_count s \<ge> MAX_USERS then (- 2, s, f)
      else let s' = new_user (the name) (the pass) want s;
               f = snd (fs_create_home_tree (home_path (the name)) (uid (users s' (users_count s))) f)
           in (0, store_save (s', f)))"

definition user_add :: "cptr \<Rightarrow> cptr \<Rightarrow> accounts \<times> fs \<Rightarrow> int \<times> accounts \<times> fs" where
  "user_add name pass sf = user_add_full name pass 0 sf"

definition drop_user :: "nat \<Rightarrow> accounts \<Rightarrow> accounts" where
  "drop_user idx s =
     (let n = users_count s;
          us = foldl (\<lambda>us i. us(i := us (i + 1))) (users s) [idx..<n - 1]
      in s\<lparr>users := us(n - 1 := blank_user), users_count := n - 1\<rparr>)"

definition user_del :: "bytes \<Rightarrow> accounts \<times> fs \<Rightarrow> int \<times> accounts \<times> fs" where
  "user_del name sf =
     (case sf of (s, f) \<Rightarrow>
      case user_find s name of
        None \<Rightarrow> (- 1, s, f)
      | Some idx \<Rightarrow>
          if idx = 0 then (- 1, s, f)
          else let s = drop_user idx s;
                   s = foldl (\<lambda>s g. group_member_remove g name s) s [0..<groups_count s]
               in (0, store_save (s, f)))"

section \<open>The tables as lists\<close>

text \<open>The abstract view: the accounts as a list of name, password and number, the groups as a list of
  name and members. The invariant of the tables is a statement on the view, plus the lengths and
  terminators of the arrays.\<close>

definition is_name :: "bytes \<Rightarrow> bool" where
  "is_name b \<longleftrightarrow> length b = 32 \<and> b ! 31 = NUL"

definition view_user :: "user_t \<Rightarrow> bytes \<times> bytes \<times> int" where
  "view_user u = (cstr (username u), cstr (password u), uid u)"

definition view_users :: "'a config_t_scheme \<Rightarrow> (bytes \<times> bytes \<times> int) list" where
  "view_users s = map (\<lambda>i. view_user (users s i)) [0..<users_count s]"

definition view_group :: "group_t \<Rightarrow> bytes \<times> bytes list" where
  "view_group g = (cstr (group_name g), map (\<lambda>j. cstr (members g j)) [0..<group_count g])"

definition view_groups :: "'a config_t_scheme \<Rightarrow> (bytes \<times> bytes list) list" where
  "view_groups s = map (\<lambda>i. view_group (groups s i)) [0..<groups_count s]"

definition users_view_ok :: "(bytes \<times> bytes \<times> int) list \<Rightarrow> int \<Rightarrow> bool" where
  "users_view_ok us nx \<longleftrightarrow>
     us \<noteq> [] \<and> fst (hd us) = ''root'' \<and> snd (snd (hd us)) = 0 \<and> (\<forall>u\<in>set (tl us). 0 < snd (snd u))
     \<and> distinct (map fst us) \<and> [] \<notin> fst ` set us \<and> (\<forall>u\<in>set us. snd (snd u) < nx)
     \<and> 1000 \<le> nx \<and> nx \<le> 2147483647"

definition groups_view_ok :: "bytes set \<Rightarrow> (bytes \<times> bytes list) list \<Rightarrow> bool" where
  "groups_view_ok names gs \<longleftrightarrow>
     distinct (map fst gs) \<and> [] \<notin> set (map fst gs)
     \<and> (\<forall>ms\<in>set (map snd gs). distinct ms \<and> set ms \<subseteq> names)"

definition view_ok :: "(bytes \<times> bytes \<times> int) list \<Rightarrow> (bytes \<times> bytes list) list \<Rightarrow> int \<Rightarrow> bool" where
  "view_ok us gs nx \<longleftrightarrow> users_view_ok us nx \<and> groups_view_ok (fst ` set us) gs"

definition arrays_ok :: "'a config_t_scheme \<Rightarrow> bool" where
  "arrays_ok s \<longleftrightarrow>
     (\<forall>i<8. is_name (username (users s i)) \<and> is_name (password (users s i)))
     \<and> (\<forall>i<8. is_name (group_name (groups s i)) \<and> (\<forall>j<16. is_name (members (groups s i) j)))
     \<and> length (hostname s) = 64
     \<and> users_count s \<le> 8 \<and> groups_count s \<le> 8 \<and> (\<forall>i<8. group_count (groups s i) \<le> 16)"

definition accounts_ok :: "'a config_t_scheme \<Rightarrow> bool" where
  "accounts_ok s \<longleftrightarrow>
     arrays_ok s \<and> username (users s 0) = ''root'' @ replicate 28 NUL
     \<and> view_ok (view_users s) (view_groups s) (next_uid s)"

subsection \<open>Arrays\<close>

lemma streq_from_iff: "streq_from a b \<longleftrightarrow> cstr a = cstr b"
proof (induction a b rule: streq_from.induct)
  case (1 a b)
  then show ?case by (subst streq_from.simps) (cases a; cases b; auto)
qed

lemma streq_iff [simp]: "streq (Some a) (Some b) \<longleftrightarrow> cstr a = cstr b"
  by (simp add: streq_def streq_from_iff)

lemma length_field [simp]: "length (field n b) = n"
  by (simp add: field_def)

lemma field_append: "length a = n \<Longrightarrow> field n (a @ b) = a"
  by (auto simp: field_def chr_at_def nth_append intro: nth_equalityI)

lemma field_id [simp]: "length a = n \<Longrightarrow> field n a = a"
  using field_append [of a n "[]"] by simp

lemma is_name_blank [simp]: "is_name (replicate 32 NUL)"
  by (simp add: is_name_def)

lemma is_name_split: "is_name b \<Longrightarrow> b = take 31 b @ [NUL]"
  using id_take_nth_drop [of 31 b] by (simp add: is_name_def)

lemma cstr_append_in: "NUL \<in> set a \<Longrightarrow> cstr (a @ b) = cstr a"
  unfolding cstr_def by (induction a) auto

lemma cstr_shorter: "is_name b \<Longrightarrow> cstr b = cstr (take 31 b)" "is_name b \<Longrightarrow> length (cstr b) \<le> 31"
proof -
  assume "is_name b"
  then have a: "b = take 31 b @ [NUL]" "length (take 31 b) = 31"
    by (rule is_name_split) (use \<open>is_name b\<close> in \<open>simp add: is_name_def\<close>)
  define a where "a = take 31 b"
  have "cstr (a @ [NUL]) = cstr a" unfolding cstr_def by (induction a) auto
  then show e: "cstr b = cstr (take 31 b)" using a(1) unfolding a_def by metis
  show "length (cstr b) \<le> 31" using length_cstr_le [of "take 31 b"] a(2) unfolding e by linarith
qed

lemma copy_cleared:
  assumes "is_name b"
  shows "copy_chars 31 nm (clear_chars 31 b) =
    take 31 (cstr nm) @ replicate (32 - length (take 31 (cstr nm))) NUL"
proof -
  let ?k = "take 31 (cstr nm)"
  have l: "length ?k \<le> 31" by simp
  have "clear_chars 31 b = replicate 32 NUL"
  proof (rule nth_equalityI)
    show "length (clear_chars 31 b) = length (replicate 32 NUL)" using assms by (simp add: clear_chars_def is_name_def)
    fix i
    assume "i < length (clear_chars 31 b)"
    then have "i < 31 \<or> i = 31" using assms by (auto simp: clear_chars_def is_name_def)
    then show "clear_chars 31 b ! i = replicate 32 NUL ! i"
      using assms by (auto simp: clear_chars_def is_name_def nth_append)
  qed
  then show ?thesis using l by (simp add: copy_chars_def Let_def drop_replicate)
qed

lemma copied_name:
  "is_name (take 31 (cstr nm) @ replicate (32 - length (take 31 (cstr nm))) NUL)"
  "cstr (take 31 (cstr nm) @ replicate (32 - length (take 31 (cstr nm))) NUL) = take 31 (cstr nm)"
proof -
  let ?k = "take 31 (cstr nm)"
  have l: "length ?k \<le> 31" by simp
  then have m: "32 - length ?k = Suc (31 - length ?k)" by linarith
  show "cstr (?k @ replicate (32 - length ?k) NUL) = ?k" unfolding m by simp
  show "is_name (?k @ replicate (32 - length ?k) NUL)"
    using l by (auto simp: is_name_def nth_append)
qed

lemma cstr_take_id: "length (cstr nm) \<le> 31 \<Longrightarrow> take 31 (cstr nm) = cstr nm"
  by simp

lemma foldl_shift:
  "j \<le> n \<Longrightarrow> foldl (\<lambda>f k. f(k := f (k + 1))) f [j..<n] i = (if j \<le> i \<and> i < n then f (Suc i) else f i)"
  for f :: "nat \<Rightarrow> 'a"
proof (induction "n - j" arbitrary: j f)
  case (Suc m)
  then have "j < n" by simp
  then have "foldl (\<lambda>f k. f(k := f (k + 1))) f [j..<n] i =
      foldl (\<lambda>f k. f(k := f (k + 1))) (f(j := f (j + 1))) [Suc j..<n] i"
    by (simp add: upt_conv_Cons)
  also have "\<dots> = (if Suc j \<le> i \<and> i < n then (f(j := f (j + 1))) (Suc i) else (f(j := f (j + 1))) i)"
    using Suc by (intro Suc.hyps(1)) auto
  finally show ?case using \<open>j < n\<close> by auto
qed auto

subsection \<open>Lists of slots\<close>

lemma map_upt_skip:
  assumes "j < n" "g = (\<lambda>i. if j \<le> i then f (Suc i) else f i)"
  shows "map g [0..<n - 1] = take j (map f [0..<n]) @ drop (Suc j) (map f [0..<n])"
  using assms by (intro nth_equalityI) (auto simp: nth_append)

lemma map_upt_if: "map (\<lambda>j. h (if j = c then x else f j)) [0..<c] = map (\<lambda>j. h (f j)) [0..<c]"
  by auto

lemma remove1_first:
  "j < length xs \<Longrightarrow> xs ! j = x \<Longrightarrow> (\<forall>i<j. xs ! i \<noteq> x) \<Longrightarrow> remove1 x xs = take j xs @ drop (Suc j) xs"
proof (induction xs arbitrary: j)
  case (Cons y xs)
  show ?case
  proof (cases j)
    case (Suc k)
    have "y \<noteq> x" using Cons.prems(3) Suc by (metis nth_Cons_0 zero_less_Suc)
    moreover have "\<forall>i<k. xs ! i \<noteq> x"
    proof (intro allI impI)
      fix i assume "i < k"
      then show "xs ! i \<noteq> x" using Cons.prems(3) Suc by (metis Suc_less_eq nth_Cons_Suc)
    qed
    ultimately show ?thesis using Cons Suc by auto
  qed (use Cons.prems in auto)
qed simp

lemma filter_key_skip:
  assumes "distinct (map fst us)" "i < length us"
  shows "filter (\<lambda>u. fst u \<noteq> fst (us ! i)) us = take i us @ drop (Suc i) us"
proof -
  have s: "us = take i us @ us ! i # drop (Suc i) us" using assms(2) by (rule id_take_nth_drop)
  have d: "distinct (map fst (take i us @ us ! i # drop (Suc i) us))" using assms(1) s by simp
  have a: "filter (\<lambda>u. fst u \<noteq> fst (us ! i)) (take i us) = take i us"
    "filter (\<lambda>u. fst u \<noteq> fst (us ! i)) (drop (Suc i) us) = drop (Suc i) us"
    using d by (auto simp: filter_id_conv image_iff)
  have "filter (\<lambda>u. fst u \<noteq> fst (us ! i)) (take i us @ us ! i # drop (Suc i) us) = take i us @ drop (Suc i) us"
    using a by simp
  then show ?thesis using s by simp
qed

lemma distinct_snoc_map: "distinct (map f (xs @ [x])) \<longleftrightarrow> distinct (map f xs) \<and> f x \<notin> f ` set xs"
  by auto

subsection \<open>Searches on the view\<close>

lemma length_views [simp]:
  "length (view_users s) = users_count s" "length (view_groups s) = groups_count s"
  by (simp_all add: view_users_def view_groups_def)

lemma nth_views [simp]:
  "i < users_count s \<Longrightarrow> view_users s ! i = view_user (users s i)"
  "i < groups_count s \<Longrightarrow> view_groups s ! i = view_group (groups s i)"
  by (simp_all add: view_users_def view_groups_def)

lemma user_find_Some:
  "user_find s nm = Some i \<longleftrightarrow> i < users_count s \<and> cstr (username (users s i)) = cstr nm \<and> cstr nm \<noteq> []
     \<and> (\<forall>j<i. cstr (username (users s j)) \<noteq> cstr nm)"
  unfolding user_find_def find_upt_Some chr_at_0_NUL_iff streq_iff by auto

lemma user_find_None: "user_find s nm = None \<longleftrightarrow> cstr nm = [] \<or> cstr nm \<notin> fst ` set (view_users s)"
  unfolding user_find_def find_upt_None chr_at_0_NUL_iff streq_iff view_users_def
  by (simp add: view_user_def image_image image_iff) (metis atLeast0LessThan lessThan_iff)

lemma group_find_Some:
  "group_find s nm = Some i \<longleftrightarrow> i < groups_count s \<and> cstr (group_name (groups s i)) = cstr nm \<and> cstr nm \<noteq> []
     \<and> (\<forall>j<i. cstr (group_name (groups s j)) \<noteq> cstr nm)"
  unfolding group_find_def find_upt_Some chr_at_0_NUL_iff streq_iff by auto

lemma group_find_None: "group_find s nm = None \<longleftrightarrow> cstr nm = [] \<or> cstr nm \<notin> fst ` set (view_groups s)"
  unfolding group_find_def find_upt_None chr_at_0_NUL_iff streq_iff view_groups_def
  by (simp add: view_group_def image_image image_iff) (metis atLeast0LessThan lessThan_iff)

lemma group_has_member_iff: "group_has_member s gi nm \<longleftrightarrow> cstr nm \<in> set (snd (view_group (groups s gi)))"
proof -
  have "(find (\<lambda>j. cstr (members (groups s gi) j) = cstr nm) [0..<group_count (groups s gi)] = None) \<longleftrightarrow>
      (\<forall>j<group_count (groups s gi). cstr (members (groups s gi) j) \<noteq> cstr nm)"
    by (auto simp: find_upt_None)
  then show ?thesis unfolding group_has_member_def streq_iff view_group_def by force
qed

lemma view_cong:
  "users s = users t \<Longrightarrow> users_count s = users_count t \<Longrightarrow> view_users s = view_users t"
  "groups s = groups t \<Longrightarrow> groups_count s = groups_count t \<Longrightarrow> view_groups s = view_groups t"
  by (simp_all add: view_users_def view_groups_def)

lemma view_groups_update:
  "gi < groups_count s \<Longrightarrow> groups t = (groups s)(gi := g) \<Longrightarrow> groups_count t = groups_count s \<Longrightarrow>
   view_groups t = (view_groups s)[gi := view_group g]"
  by (intro nth_equalityI) (auto simp: nth_list_update)

subsection \<open>Laws of the group members\<close>

lemma group_member_add_law:
  assumes ok: "arrays_ok s" and gi: "gi < groups_count s" and r: "group_member_add gi nm s = (rc, t)"
  shows "arrays_ok t"
    and "rc = 0 \<Longrightarrow> view_groups t = (view_groups s)[gi :=
      (fst (view_groups s ! gi), if cstr nm \<in> set (snd (view_groups s ! gi)) then snd (view_groups s ! gi)
         else snd (view_groups s ! gi) @ [take 31 (cstr nm)])]"
    and "rc \<noteq> 0 \<Longrightarrow> t = s \<and> group_count (groups s gi) = 16"
    and "users t = users s" "users_count t = users_count s" "next_uid t = next_uid s"
      "groups_count t = groups_count s" "hostname t = hostname s" "is_setup t = is_setup s"
proof -
  let ?g = "groups s gi"
  have gi8: "gi < 8" and c16: "group_count ?g \<le> 16" using ok gi by (auto simp: arrays_ok_def)
  consider "group_has_member s gi nm" "t = s" "rc = 0"
    | "\<not> group_has_member s gi nm" "16 \<le> group_count ?g" "t = s" "rc = - 1"
    | m where "\<not> group_has_member s gi nm" "group_count ?g < 16" "rc = 0"
        "m = copy_chars 31 nm (clear_chars 31 (members ?g (group_count ?g)))"
        "t = s\<lparr>groups := (groups s)(gi := ?g\<lparr>members := (members ?g)(group_count ?g := m), group_count := group_count ?g + 1\<rparr>)\<rparr>"
    using r by (auto simp: group_member_add_def Let_def split: if_splits)
  then have "arrays_ok t
    \<and> (rc = 0 \<longrightarrow> view_groups t = (view_groups s)[gi :=
      (fst (view_groups s ! gi), if cstr nm \<in> set (snd (view_groups s ! gi)) then snd (view_groups s ! gi)
         else snd (view_groups s ! gi) @ [take 31 (cstr nm)])])
    \<and> (rc \<noteq> 0 \<longrightarrow> t = s \<and> group_count (groups s gi) = 16)
    \<and> users t = users s \<and> users_count t = users_count s \<and> next_uid t = next_uid s
    \<and> groups_count t = groups_count s \<and> hostname t = hostname s \<and> is_setup t = is_setup s"
  proof cases
    case 1
    have "(view_groups s)[gi := view_groups s ! gi] = view_groups s" by simp
    then show ?thesis using 1 ok gi by (simp add: group_has_member_iff)
  next
    case 2
    then show ?thesis using ok c16 by simp
  next
    case 3
    have nm: "is_name (members ?g (group_count ?g))" using ok gi8 3(2) by (simp add: arrays_ok_def)
    note m = 3(4) [unfolded copy_cleared [OF nm]]
    have "arrays_ok t" using ok 3 gi8 m copied_name(1) [of nm] by (simp add: arrays_ok_def)
    moreover have "view_groups t = (view_groups s)[gi :=
        (fst (view_groups s ! gi), snd (view_groups s ! gi) @ [take 31 (cstr nm)])]"
      using gi m copied_name(2) [of nm] unfolding 3(5)
      by (subst view_groups_update [where s = s and gi = gi]) (auto simp: view_group_def map_upt_if)
    ultimately show ?thesis using 3 gi by (simp add: group_has_member_iff)
  qed
  then show "arrays_ok t"
    and "rc = 0 \<Longrightarrow> view_groups t = (view_groups s)[gi :=
      (fst (view_groups s ! gi), if cstr nm \<in> set (snd (view_groups s ! gi)) then snd (view_groups s ! gi)
         else snd (view_groups s ! gi) @ [take 31 (cstr nm)])]"
    and "rc \<noteq> 0 \<Longrightarrow> t = s \<and> group_count (groups s gi) = 16"
    and "users t = users s" "users_count t = users_count s" "next_uid t = next_uid s"
      "groups_count t = groups_count s" "hostname t = hostname s" "is_setup t = is_setup s"
    by auto
qed

lemma group_member_remove_law:
  assumes ok: "arrays_ok s" and gi: "gi < groups_count s" and t: "t = group_member_remove gi nm s"
  shows "arrays_ok t \<and> users t = users s \<and> users_count t = users_count s \<and> next_uid t = next_uid s
    \<and> groups_count t = groups_count s
    \<and> view_groups t = (view_groups s)[gi := (fst (view_groups s ! gi), remove1 (cstr nm) (snd (view_groups s ! gi)))]"
proof (cases "find (\<lambda>j. cstr (members (groups s gi) j) = cstr nm) [0..<group_count (groups s gi)]")
  case None
  then have "cstr nm \<notin> set (snd (view_group (groups s gi)))" by (auto simp: find_upt_None view_group_def)
  then show ?thesis using None assms list_update_id [of "view_groups s" gi]
    by (simp add: group_member_remove_def Let_def remove1_idem)
next
  case (Some j)
  let ?g = "groups s gi"
  let ?n = "group_count ?g"
  let ?ms = "map (\<lambda>j. cstr (members ?g j)) [0..<?n]"
  have gi8: "gi < 8" and n16: "?n \<le> 16" using ok gi by (auto simp: arrays_ok_def)
  from Some have j: "j < ?n" "cstr (members ?g j) = cstr nm" "\<forall>i<j. cstr (members ?g i) \<noteq> cstr nm"
    by (auto simp: find_upt_Some)
  have t: "t = s\<lparr>groups := (groups s)(gi := shift_members j ?g)\<rparr>"
    using Some t by (simp add: group_member_remove_def Let_def)
  have e: "members (shift_members j ?g) = (\<lambda>i. if i = ?n - 1 then replicate 32 NUL
      else if j \<le> i \<and> i < ?n - 1 then members ?g (Suc i) else members ?g i)"
    "group_count (shift_members j ?g) = ?n - 1" "group_name (shift_members j ?g) = group_name ?g"
    using j(1) foldl_shift [of j "?n - 1" "members ?g"] by (auto simp: shift_members_def Let_def fun_eq_iff)
  have "snd (view_group (shift_members j ?g)) =
      map (\<lambda>i. if j \<le> i then cstr (members ?g (Suc i)) else cstr (members ?g i)) [0..<?n - 1]"
    unfolding view_group_def e by auto
  also have "\<dots> = remove1 (cstr nm) ?ms"
    using j by (subst map_upt_skip [where j = j and f = "\<lambda>i. cstr (members ?g i)" and n = ?n])
      (auto intro!: remove1_first [symmetric])
  finally have v: "view_group (shift_members j ?g) = (cstr (group_name ?g), remove1 (cstr nm) ?ms)"
    using e by (simp add: view_group_def)
  have "\<forall>i<16. is_name (members (shift_members j ?g) i)"
    using ok gi8 n16 unfolding e by (auto simp: arrays_ok_def)
  then have "arrays_ok t" using ok gi8 n16 unfolding t arrays_ok_def by (auto simp: e(2,3))
  moreover have "view_groups t = (view_groups s)[gi := view_group (shift_members j ?g)]"
    using gi unfolding t by (intro view_groups_update) auto
  ultimately show ?thesis using gi unfolding t v by (simp add: view_group_def)
qed

lemma remove_everywhere_law:
  assumes ok: "arrays_ok s" and k: "k \<le> groups_count s"
    and t: "t = foldl (\<lambda>s g. group_member_remove g nm s) s [0..<k]"
  shows "arrays_ok t \<and> users t = users s \<and> users_count t = users_count s \<and> next_uid t = next_uid s
    \<and> groups_count t = groups_count s
    \<and> view_groups t = map (\<lambda>g. (fst g, remove1 (cstr nm) (snd g))) (take k (view_groups s)) @ drop k (view_groups s)"
  using k t
proof (induction k arbitrary: t)
  case 0
  then show ?case using ok by simp
next
  case (Suc k)
  let ?f = "\<lambda>g. (fst g, remove1 (cstr nm) (snd g))"
  let ?u = "foldl (\<lambda>s g. group_member_remove g nm s) s [0..<k]"
  have u: "arrays_ok ?u" "users ?u = users s" "users_count ?u = users_count s" "next_uid ?u = next_uid s"
    "groups_count ?u = groups_count s" "view_groups ?u = map ?f (take k (view_groups s)) @ drop k (view_groups s)"
    using Suc by auto
  have t: "t = group_member_remove k nm ?u" using Suc.prems by simp
  have k: "k < groups_count ?u" using Suc.prems u by simp
  have "(map ?f (take k vs) @ drop k vs)[k := ?f ((map ?f (take k vs) @ drop k vs) ! k)] =
      map ?f (take (Suc k) vs) @ drop (Suc k) vs" if "k < length vs" for vs :: "(bytes \<times> bytes list) list"
    using that by (simp add: list_update_append nth_append take_Suc_conv_app_nth Cons_nth_drop_Suc [symmetric])
  from this [of "view_groups s"] show ?case
    using group_member_remove_law [OF u(1) k t] k u by simp
qed

subsection \<open>The invariant on the view\<close>

lemma users_view_ok_add:
  assumes "users_view_ok us nx" "nm \<notin> fst ` set us" "nm \<noteq> []" "0 < i" "i < nx'" "nx \<le> nx'" "nx' \<le> 2147483647"
  shows "users_view_ok (us @ [(nm, p, i)]) nx'"
proof -
  obtain u us' where us: "us = u # us'" using assms(1) by (cases us) (auto simp: users_view_ok_def)
  have "\<forall>v\<in>set (us @ [(nm, p, i)]). snd (snd v) < nx'"
    using assms unfolding users_view_ok_def by fastforce
  moreover have "distinct (map fst (us @ [(nm, p, i)]))" using assms(1,2) by (simp add: users_view_ok_def)
  ultimately show ?thesis using assms us unfolding users_view_ok_def by simp
qed

lemma groups_view_ok_mono: "groups_view_ok A gs \<Longrightarrow> A \<subseteq> B \<Longrightarrow> groups_view_ok B gs"
  by (fastforce simp: groups_view_ok_def)

lemma view_ok_add:
  assumes "view_ok us gs nx" "nm \<notin> fst ` set us" "nm \<noteq> []" "0 < i" "i < nx'" "nx \<le> nx'" "nx' \<le> 2147483647"
  shows "view_ok (us @ [(nm, p, i)]) gs nx'"
  using assms users_view_ok_add [of us nx nm i nx' p] groups_view_ok_mono [of "fst ` set us" gs "fst ` set (us @ [(nm, p, i)])"]
  unfolding view_ok_def by auto

lemma users_view_ok_del:
  assumes "users_view_ok us nx" "nm \<noteq> ''root''"
  shows "users_view_ok (filter (\<lambda>u. fst u \<noteq> nm) us) nx"
proof -
  obtain u us' where "us = u # us'" "fst u = ''root''" using assms(1) by (cases us) (auto simp: users_view_ok_def)
  then show ?thesis using assms unfolding users_view_ok_def by (auto simp: distinct_map_filter)
qed

lemma groups_view_ok_del:
  assumes "groups_view_ok A gs"
  shows "groups_view_ok (A - {nm}) (map (\<lambda>g. (fst g, remove1 nm (snd g))) gs)"
proof -
  have m: "map fst (map (\<lambda>g. (fst g, remove1 nm (snd g))) gs) = map fst gs"
    "map snd (map (\<lambda>g. (fst g, remove1 nm (snd g))) gs) = map (remove1 nm) (map snd gs)" by simp_all
  have "set (remove1 nm ms) \<subseteq> A - {nm}" if "distinct ms" "set ms \<subseteq> A" for ms using that by auto
  then show ?thesis using assms unfolding groups_view_ok_def m by auto
qed

lemma view_ok_del:
  assumes "view_ok us gs nx" "nm \<noteq> ''root''"
  shows "view_ok (filter (\<lambda>u. fst u \<noteq> nm) us) (map (\<lambda>g. (fst g, remove1 nm (snd g))) gs) nx"
proof -
  have e: "fst ` set us - {nm} = fst ` set (filter (\<lambda>u. fst u \<noteq> nm) us)" by auto
  have "groups_view_ok (fst ` set us) gs" using assms(1) by (simp add: view_ok_def)
  from groups_view_ok_del [OF this, of nm] users_view_ok_del [of us nx nm] assms show ?thesis
    unfolding e view_ok_def by blast
qed

lemma groups_view_ok_members:
  assumes "groups_view_ok A gs" "gi < length gs" "m \<in> A" "m \<notin> set (snd (gs ! gi))"
  shows "groups_view_ok A (gs[gi := (fst (gs ! gi), snd (gs ! gi) @ [m])])"
proof -
  let ?ms = "snd (gs ! gi) @ [m]"
  have d: "map fst (gs[gi := (fst (gs ! gi), ?ms)]) = map fst gs"
    using assms(2) list_update_id [of "map fst gs" gi] by (simp add: map_update)
  have s: "map snd (gs[gi := (fst (gs ! gi), ?ms)]) = (map snd gs)[gi := ?ms]" by (simp add: map_update)
  have "snd (gs ! gi) \<in> set (map snd gs)" using assms(2) by simp
  then have "distinct ?ms \<and> set ?ms \<subseteq> A" using assms unfolding groups_view_ok_def by auto
  moreover have "set ((map snd gs)[gi := ?ms]) \<subseteq> insert ?ms (set (map snd gs))" by (rule set_update_subset_insert)
  ultimately show ?thesis using assms(1) unfolding groups_view_ok_def d s by blast
qed

subsection \<open>Laws of the accounts\<close>

lemma accounts_okD:
  assumes "accounts_ok s"
  shows "arrays_ok s" "view_ok (view_users s) (view_groups s) (next_uid s)" "0 < users_count s" "users_count s \<le> 8"
    "groups_count s \<le> 8" "cstr (username (users s 0)) = ''root''" "uid (users s 0) = 0"
    "1000 \<le> next_uid s" "next_uid s \<le> 2147483647"
proof -
  show a: "arrays_ok s" "view_ok (view_users s) (view_groups s) (next_uid s)"
    using assms by (auto simp: accounts_ok_def)
  then show c: "0 < users_count s"
    by (cases "users_count s") (auto simp: view_ok_def users_view_ok_def view_users_def)
  then have h: "hd (view_users s) = view_user (users s 0)" by (metis hd_conv_nth length_views(1) length_0_conv nth_views(1) less_irrefl)
  then show "uid (users s 0) = 0" "1000 \<le> next_uid s" "next_uid s \<le> 2147483647"
    using a by (auto simp: view_ok_def users_view_ok_def view_user_def)
  have "cstr (''root'' @ replicate 28 NUL) = ''root''" by (simp add: numeral_eq_Suc)
  then show "cstr (username (users s 0)) = ''root''" using assms by (simp add: accounts_ok_def)
  show "users_count s \<le> 8" "groups_count s \<le> 8" using a by (auto simp: arrays_ok_def)
qed

lemma accounts_ok_intro:
  "accounts_ok s \<Longrightarrow> arrays_ok t \<Longrightarrow> username (users t 0) = username (users s 0) \<Longrightarrow>
   view_ok (view_users t) (view_groups t) (next_uid t) \<Longrightarrow> accounts_ok t"
  by (simp add: accounts_ok_def)

lemma store_save_simps [simp]:
  "store_save (s, f) = (s\<lparr>config_saved := Some (config_t.truncate s)\<rparr>, store_hook f)"
  by (simp add: store_save_def)

lemma arrays_ok_saved [simp]: "arrays_ok (s\<lparr>config_saved := v\<rparr>) = arrays_ok s"
  by (simp add: arrays_ok_def)

lemma accounts_ok_saved [simp]: "accounts_ok (s\<lparr>config_saved := v\<rparr>) = accounts_ok s"
  "view_users (s\<lparr>config_saved := v\<rparr>) = view_users s" "view_groups (s\<lparr>config_saved := v\<rparr>) = view_groups s"
  by (simp_all add: accounts_ok_def view_users_def view_groups_def)

lemma new_user_name:
  "copy_chars 31 nm (replicate 32 NUL) = take 31 (cstr nm) @ replicate (32 - length (take 31 (cstr nm))) NUL"
  by (simp add: copy_chars_def Let_def drop_replicate)

lemma s32_small: "- 2147483648 \<le> v \<Longrightarrow> v \<le> 2147483647 \<Longrightarrow> s32 v = v"
  by (simp add: s32_def)

lemma new_user_law:
  assumes ok: "accounts_ok s" and c: "users_count s < 8" and w: "want < 2147483647" "next_uid s < 2147483647"
    and t: "t = new_user nm pass want s" and u: "i = (if want > 0 then want else next_uid s)"
  shows "arrays_ok t" "view_users t = view_users s @ [(take 31 (cstr nm), take 31 (cstr pass), i)]"
    "view_groups t = view_groups s" "users_count t = users_count s + 1" "username (users t 0) = username (users s 0)"
    "next_uid s \<le> next_uid t" "i < next_uid t" "next_uid t \<le> 2147483647" "0 < i" "uid (users t (users_count s)) = i"
proof -
  note D = accounts_okD [OF ok]
  have nx: "next_uid t = (if i \<ge> next_uid s then i + 1 else next_uid s)"
    using w u D(8) unfolding t by (auto simp: new_user_def Let_def s32_small)
  show "next_uid s \<le> next_uid t" "i < next_uid t" "next_uid t \<le> 2147483647" "0 < i"
    using nx w u D(8) by (auto split: if_splits)
  have us: "users t = (users s)(users_count s := \<lparr>username = take 31 (cstr nm) @ replicate (32 - length (take 31 (cstr nm))) NUL,
      password = take 31 (cstr pass) @ replicate (32 - length (take 31 (cstr pass))) NUL, uid = i\<rparr>)"
    using u unfolding t by (simp add: new_user_def Let_def new_user_name)
  show uc: "users_count t = users_count s + 1" and vg: "view_groups t = view_groups s"
    unfolding t by (simp_all add: new_user_def Let_def view_groups_def)
  show "uid (users t (users_count s)) = i" "username (users t 0) = username (users s 0)"
    using D(3) unfolding us by simp_all
  have "groups t = groups s" "groups_count t = groups_count s" "hostname t = hostname s"
    unfolding t by (simp_all add: new_user_def Let_def)
  then show "arrays_ok t" using D(1) c copied_name(1) [of nm] copied_name(1) [of pass] uc
    unfolding arrays_ok_def us by simp
  show "view_users t = view_users s @ [(take 31 (cstr nm), take 31 (cstr pass), i)]"
    unfolding view_users_def uc us using copied_name(2) [of nm] copied_name(2) [of pass] by (auto simp: view_user_def)
qed

lemma user_add_full_cases:
  assumes r: "user_add_full name pass want (s, f) = (rc, t, g)"
  obtains (bad) "rc = - 1" "t = s" "g = f"
      "null_or_empty name \<or> pass = None \<or> (\<exists>n. name = Some n \<and> cstr n \<in> fst ` set (view_users s))"
    | (full) "rc = - 2" "t = s" "g = f" "users_count s \<ge> 8"
    | (added) n p h where "rc = 0" "name = Some n" "pass = Some p" "cstr n \<noteq> []" "cstr n \<notin> fst ` set (view_users s)"
      "users_count s < 8" "h = snd (fs_create_home_tree (home_path n) (uid (users (new_user n p want s) (users_count s))) f)"
      "(t, g) = store_save (new_user n p want s, h)"
proof -
  consider "null_or_empty name \<or> pass = None" | n p where "name = Some n" "pass = Some p" "cstr n \<noteq> []"
    by (cases name; cases pass) (auto simp: null_or_empty_def chr_at_0_NUL_iff)
  then show ?thesis
  proof cases
    case 1
    then show ?thesis using r bad by (auto simp: user_add_full_def)
  next
    case 2
    then have ne: "\<not> null_or_empty name" by (simp add: null_or_empty_def chr_at_0_NUL_iff)
    show ?thesis
    proof (cases "user_find s n = None")
      case False
      then have "cstr n \<in> fst ` set (view_users s)" by (simp add: user_find_None)
      then show ?thesis using r ne 2 False bad by (auto simp: user_add_full_def)
    next
      case True
      then have "cstr n \<notin> fst ` set (view_users s)" using 2 by (simp add: user_find_None)
      then show ?thesis using r ne 2 True full added by (auto simp: user_add_full_def Let_def split: if_splits)
    qed
  qed
qed

lemma drop_user_law:
  assumes ok: "arrays_ok s" and i: "0 < idx" "idx < users_count s" and t: "t = drop_user idx s"
  shows "arrays_ok t" "view_users t = take idx (view_users s) @ drop (Suc idx) (view_users s)"
    "view_groups t = view_groups s" "groups_count t = groups_count s" "next_uid t = next_uid s"
    "username (users t 0) = username (users s 0)"
proof -
  let ?n = "users_count s"
  have n8: "?n \<le> 8" using ok by (simp add: arrays_ok_def)
  have us: "users t = (\<lambda>i. if i = ?n - 1 then blank_user
      else if idx \<le> i \<and> i < ?n - 1 then users s (Suc i) else users s i)"
    using i foldl_shift [of idx "?n - 1" "users s"] unfolding t by (auto simp: drop_user_def Let_def fun_eq_iff)
  have o: "users_count t = ?n - 1" "groups t = groups s" "groups_count t = groups_count s" "hostname t = hostname s"
    "next_uid t = next_uid s" unfolding t by (simp_all add: drop_user_def Let_def)
  show "view_groups t = view_groups s" "groups_count t = groups_count s" "next_uid t = next_uid s"
    using o by (simp_all add: view_groups_def)
  show "username (users t 0) = username (users s 0)" using i unfolding us by auto
  have "\<forall>i<8. is_name (username (users t i)) \<and> is_name (password (users t i))"
    using ok n8 unfolding us by (auto simp: arrays_ok_def blank_user_def)
  then show "arrays_ok t" using ok n8 unfolding arrays_ok_def o by auto
  have "view_users t = map (\<lambda>i. if idx \<le> i then view_user (users s (Suc i)) else view_user (users s i)) [0..<?n - 1]"
    unfolding view_users_def o us by auto
  also have "\<dots> = take idx (view_users s) @ drop (Suc idx) (view_users s)"
    unfolding view_users_def using i by (intro map_upt_skip) auto
  finally show "view_users t = take idx (view_users s) @ drop (Suc idx) (view_users s)" .
qed

lemma user_del_fails:
  assumes ok: "accounts_ok s" and r: "user_del nm (s, f) = (rc, t, g)" and z: "rc \<noteq> 0"
  shows "t = s \<and> g = f \<and> rc = - 1 \<and> (cstr nm = ''root'' \<or> cstr nm \<notin> fst ` set (view_users s))"
proof (cases "user_find s nm")
  case None
  have "[] \<notin> fst ` set (view_users s)" using accounts_okD(2) [OF ok] by (simp add: view_ok_def users_view_ok_def)
  then have "cstr nm \<notin> fst ` set (view_users s)" using None unfolding user_find_None by metis
  then show ?thesis using r None by (simp add: user_del_def)
next
  case (Some i)
  then show ?thesis using r z accounts_okD(6) [OF ok] user_find_Some [of s nm i]
    by (simp add: user_del_def Let_def split: if_splits)
qed

lemma user_del_law:
  assumes ok: "accounts_ok s" and r: "user_del nm (s, f) = (0, t, g)"
  shows "accounts_ok t" "view_users t = filter (\<lambda>u. fst u \<noteq> cstr nm) (view_users s)"
    "view_groups t = map (\<lambda>g. (fst g, remove1 (cstr nm) (snd g))) (view_groups s)"
    "cstr nm \<in> fst ` set (view_users s)" "cstr nm \<noteq> ''root''" "next_uid t = next_uid s"
    "config_saved t = Some (config_t.truncate t)" "g = store_hook f"
proof -
  note D = accounts_okD [OF ok]
  have dis: "distinct (map fst (view_users s))" using D(2) by (simp add: view_ok_def users_view_ok_def)
  from r obtain idx where idx: "user_find s nm = Some idx" "0 < idx"
    by (auto simp: user_del_def split: option.splits if_splits)
  let ?d = "drop_user idx s"
  let ?u = "foldl (\<lambda>s g. group_member_remove g nm s) ?d [0..<groups_count ?d]"
  have t: "t = ?u\<lparr>config_saved := Some (config_t.truncate ?u)\<rparr>" and g: "g = store_hook f"
    using r idx by (simp_all add: user_del_def Let_def)
  from idx have i: "idx < users_count s" "cstr (username (users s idx)) = cstr nm"
    "cstr (username (users s 0)) \<noteq> cstr nm" by (auto simp: user_find_Some)
  note d = drop_user_law [OF D(1) idx(2) i(1) refl]
  note u = remove_everywhere_law [OF d(1) order_refl, of ?u nm]
  have vi: "fst (view_users s ! idx) = cstr nm" using i by (simp add: view_user_def)
  show vu: "view_users t = filter (\<lambda>u. fst u \<noteq> cstr nm) (view_users s)"
    using u d(2) view_cong(1) [of ?u ?d] filter_key_skip [OF dis, of idx] vi i(1) unfolding t by simp
  show vg: "view_groups t = map (\<lambda>g. (fst g, remove1 (cstr nm) (snd g))) (view_groups s)"
    using u d(3) d(4) [symmetric] length_views(2) [of s] unfolding t by simp
  show nr: "cstr nm \<noteq> ''root''" using i(3) D(6) by simp
  show nx: "next_uid t = next_uid s" using u d(5) unfolding t by simp
  have "arrays_ok t" using u unfolding t by simp
  moreover have "username (users t 0) = username (users s 0)" using u d(6) unfolding t by simp
  ultimately show "accounts_ok t"
    using view_ok_del [OF D(2) nr] vu vg nx by (intro accounts_ok_intro [OF ok]) simp_all
  show "cstr nm \<in> fst ` set (view_users s)" using vi i(1) by (metis image_eqI length_views(1) nth_mem)
  show "config_saved t = Some (config_t.truncate t)" unfolding t by (simp add: config_t.defs)
  show "g = store_hook f" by (rule g)
qed

section \<open>The round trip of the image\<close>

text \<open>Reading the records back, one kind after the other. A user that can be restored has a proper name
  and a positive number.\<close>

definition user_ok :: "user_t \<Rightarrow> bool" where
  "user_ok u \<longleftrightarrow> is_name (username u) \<and> is_name (password u) \<and> cstr (username u) \<noteq> []
     \<and> cstr (username u) \<noteq> ''root'' \<and> 0 < uid u \<and> uid u < 2147483647"

lemma le32_at_append: "v < 4294967296 \<Longrightarrow> le32_at (le32_bytes v @ r) = v"
  by (simp add: le32_at_def le32_bytes_def chr_at_def)

lemma uid_back: "0 < i \<Longrightarrow> i \<le> 2147483647 \<Longrightarrow> int_of_u32 (uint_of i) = i \<and> uint_of i < 4294967296"
  by (auto simp: int_of_u32_def uint_of_def nat_less_iff)

lemma chr_at_0_cstr: "chr_at b 0 \<noteq> NUL \<longleftrightarrow> cstr b \<noteq> []"
  using chr_at_0_NUL_iff [of b] by blast

lemma user_t_collapse: "\<lparr>username = username u, password = password u, uid = uid u\<rparr> = u"
  by simp

lemma load_users_image:
  assumes "\<forall>j. i \<le> j \<longrightarrow> j < i + n \<longrightarrow> user_ok (U j)" "users_count t = i"
    and "next_uid t \<le> B" "\<forall>j. i \<le> j \<longrightarrow> j < i + n \<longrightarrow> uid (U j) < B"
  shows "\<exists>nx. load_users n i (concat (map (\<lambda>j. user_record (U j)) [i..<i + n]) @ r) t =
      (r, t\<lparr>users := \<lambda>j. if i \<le> j \<and> j < i + n then U j else users t j, users_count := i + n, next_uid := nx\<rparr>)
    \<and> next_uid t \<le> nx \<and> nx \<le> B \<and> (\<forall>j. i \<le> j \<longrightarrow> j < i + n \<longrightarrow> uid (U j) < nx)"
  using assms
proof (induction n arbitrary: i t)
  case 0
  have "(\<lambda>j. if i \<le> j \<and> j < i + 0 then U j else users t j) = users t" by (rule ext) auto
  with 0 show ?case by (intro exI [of _ "next_uid t"]) (simp add: not_less_eq_eq)
next
  case (Suc n)
  let ?u = "U i"
  let ?r = "concat (map (\<lambda>j. user_record (U j)) [Suc i..<Suc i + n]) @ r"
  have u: "user_ok ?u" "uid ?u < B" using Suc.prems by auto
  then have len: "length (username ?u) = 32" "length (password ?u) = 32"
    and nm: "cstr (username ?u) \<noteq> []" "cstr (username ?u) \<noteq> ''root''"
    by (auto simp: user_ok_def is_name_def)
  have id: "int_of_u32 (uint_of (uid ?u)) = uid ?u" "uint_of (uid ?u) < 4294967296" "0 < uid ?u" "uid ?u < 2147483647"
    using u uid_back [of "uid ?u"] by (auto simp: user_ok_def)
  have img: "concat (map (\<lambda>j. user_record (U j)) [i..<i + Suc n]) @ r =
      username ?u @ password ?u @ le32_bytes (uint_of (uid ?u)) @ ?r"
    using len by (simp add: user_record_def upt_conv_Cons del: upt_Suc)
  define t1 where "t1 = t\<lparr>users := (users t)(i := ?u), next_uid := (if uid ?u \<ge> next_uid t then uid ?u + 1 else next_uid t),
     users_count := i + 1\<rparr>"
  have step: "load_users (Suc n) i (username ?u @ password ?u @ le32_bytes (uint_of (uid ?u)) @ ?r) t = load_users n (Suc i) ?r t1"
    using len id nm Suc.prems(2)
    by (simp add: user_t_collapse field_append le32_at_append s32_small chr_at_0_cstr t1_def Let_def del: upt_Suc)
  have "\<exists>nx. load_users n (Suc i) ?r t1 =
      (r, t1\<lparr>users := \<lambda>j. if Suc i \<le> j \<and> j < Suc i + n then U j else users t1 j, users_count := Suc i + n, next_uid := nx\<rparr>)
    \<and> next_uid t1 \<le> nx \<and> nx \<le> B \<and> (\<forall>j. Suc i \<le> j \<longrightarrow> j < Suc i + n \<longrightarrow> uid (U j) < nx)"
    using Suc.prems u by (intro Suc.IH) (auto simp: t1_def)
  then obtain nx where nx: "load_users n (Suc i) ?r t1 =
      (r, t1\<lparr>users := \<lambda>j. if Suc i \<le> j \<and> j < Suc i + n then U j else users t1 j, users_count := Suc i + n, next_uid := nx\<rparr>)"
    "next_uid t1 \<le> nx" "nx \<le> B" "\<forall>j. Suc i \<le> j \<longrightarrow> j < Suc i + n \<longrightarrow> uid (U j) < nx" by blast
  have us: "(\<lambda>j. if Suc i \<le> j \<and> j < Suc i + n then U j else users t1 j) = (\<lambda>j. if i \<le> j \<and> j < i + Suc n then U j else users t j)"
    by (auto simp: t1_def fun_eq_iff)
  have bnd: "next_uid t \<le> nx" "uid ?u < nx" using nx(2) by (auto simp: t1_def split: if_splits)
  moreover have "\<forall>j. i \<le> j \<longrightarrow> j < i + Suc n \<longrightarrow> uid (U j) < nx"
  proof (intro allI impI)
    fix j assume "i \<le> j" "j < i + Suc n"
    then show "uid (U j) < nx" using nx(4) bnd by (cases "j = i") auto
  qed
  moreover have "t1\<lparr>users := V, users_count := c, next_uid := nx\<rparr> = t\<lparr>users := V, users_count := c, next_uid := nx\<rparr>" for V c
    by (simp add: t1_def)
  ultimately show ?case unfolding img step nx(1) us using bnd(1) nx(3) by (intro exI [of _ nx]) simp
qed

lemma load_members_image:
  assumes "arrays_ok t" "dst < groups_count t" "length (snd (view_groups t ! dst)) + length ms \<le> 16"
    and "\<forall>m\<in>set ms. is_name m \<and> cstr m \<in> fst ` set (view_users t) \<and> cstr m \<noteq> []"
    and "distinct (snd (view_groups t ! dst) @ map cstr ms)"
  shows "\<exists>t'. load_members (length ms) dst (concat (map (field 32) ms) @ r) t = (r, t') \<and> arrays_ok t'
    \<and> view_groups t' = (view_groups t)[dst := (fst (view_groups t ! dst), snd (view_groups t ! dst) @ map cstr ms)]
    \<and> users t' = users t \<and> users_count t' = users_count t \<and> next_uid t' = next_uid t
    \<and> groups_count t' = groups_count t \<and> hostname t' = hostname t \<and> is_setup t' = is_setup t"
  using assms
proof (induction ms arbitrary: t)
  case Nil
  then show ?case using list_update_id [of "view_groups t" dst] by simp
next
  case (Cons m ms)
  let ?g = "view_groups t ! dst"
  obtain rc t1 where add: "group_member_add dst m t = (rc, t1)" by fastforce
  note A = group_member_add_law [OF Cons.prems(1,2) add]
  have m: "is_name m" "cstr m \<in> fst ` set (view_users t)" "cstr m \<noteq> []" using Cons.prems(4) by auto
  have "group_count (groups t dst) < 16" using Cons.prems(2,3) by (simp add: view_group_def)
  then have rc: "rc = 0" using A(3) by auto
  have "cstr m \<notin> set (snd ?g)" using Cons.prems(5) by auto
  then have v: "view_groups t1 = (view_groups t)[dst := (fst ?g, snd ?g @ [cstr m])]"
    using A(2) [OF rc] cstr_shorter(2) [OF m(1)] by simp
  then have g1: "view_groups t1 ! dst = (fst ?g, snd ?g @ [cstr m])"
    using Cons.prems(2) by (metis length_views(2) nth_list_update_eq)
  have u1: "view_users t1 = view_users t" using A(4,5) by (intro view_cong)
  have "\<exists>t'. load_members (length ms) dst (concat (map (field 32) ms) @ r) t1 = (r, t') \<and> arrays_ok t'
    \<and> view_groups t' = (view_groups t1)[dst := (fst (view_groups t1 ! dst), snd (view_groups t1 ! dst) @ map cstr ms)]
    \<and> users t' = users t1 \<and> users_count t' = users_count t1 \<and> next_uid t' = next_uid t1
    \<and> groups_count t' = groups_count t1 \<and> hostname t' = hostname t1 \<and> is_setup t' = is_setup t1"
    using Cons.prems A(1,7) by (intro Cons.IH) (auto simp: g1 u1)
  moreover have "load_members (length (m # ms)) dst (concat (map (field 32) (m # ms)) @ r) t =
      load_members (length ms) dst (concat (map (field 32) ms) @ r) t1"
    using m add by (simp add: Let_def field_append user_find_None is_name_def)
  ultimately show ?case using A(4-9) v g1 by auto
qed

definition group_ok :: "group_t \<Rightarrow> bool" where
  "group_ok g \<longleftrightarrow> is_name (group_name g) \<and> cstr (group_name g) \<noteq> [] \<and> group_count g \<le> 16
     \<and> (\<forall>j<group_count g. is_name (members g j) \<and> cstr (members g j) \<noteq> [])
     \<and> distinct (snd (view_group g))"

lemma group_record_eq:
  assumes "group_ok g"
  shows "group_record g = group_name g @ [char_of (group_count g)] @ concat (map (field 32) (map (members g) [0..<group_count g]))"
  using assms by (simp add: group_record_def group_ok_def is_name_def comp_def)

lemma arrays_ok_new_group:
  "arrays_ok s \<Longrightarrow> groups_count s < 8 \<Longrightarrow> is_name gn \<Longrightarrow>
   arrays_ok (s\<lparr>groups_count := Suc (groups_count s),
     groups := (groups s)(groups_count s := (groups s (groups_count s))\<lparr>group_name := gn, group_count := 0\<rparr>)\<rparr>)"
  by (auto simp: arrays_ok_def)

lemma view_groups_new:
  "view_groups (s\<lparr>groups_count := Suc (groups_count s),
     groups := (groups s)(groups_count s := (groups s (groups_count s))\<lparr>group_name := gn, group_count := 0\<rparr>)\<rparr>)
   = view_groups s @ [(cstr gn, [])]"
  by (simp add: view_groups_def view_group_def)

lemma load_groups_image:
  assumes "arrays_ok t" "groups_count t + length gs \<le> 8" "\<forall>g\<in>set gs. group_ok g"
    and "\<forall>g\<in>set gs. set (snd (view_group g)) \<subseteq> fst ` set (view_users t)"
    and "distinct (map fst (view_groups t) @ map (\<lambda>g. cstr (group_name g)) gs)"
  shows "\<exists>t'. load_groups (length gs) (concat (map group_record gs) @ r) t = (r, t') \<and> arrays_ok t'
    \<and> view_groups t' = view_groups t @ map view_group gs
    \<and> users t' = users t \<and> users_count t' = users_count t \<and> next_uid t' = next_uid t
    \<and> hostname t' = hostname t \<and> is_setup t' = is_setup t"
  using assms
proof (induction gs arbitrary: t)
  case Nil
  then show ?case by simp
next
  case (Cons g gs)
  let ?ms = "map (members g) [0..<group_count g]"
  let ?r = "concat (map group_record gs) @ r"
  define t1 where "t1 = t\<lparr>groups_count := Suc (groups_count t),
     groups := (groups t)(groups_count t := (groups t (groups_count t))\<lparr>group_name := group_name g, group_count := 0\<rparr>)\<rparr>"
  have g: "group_ok g" using Cons.prems(3) by simp
  then have gn: "is_name (group_name g)" "length (group_name g) = 32" "cstr (group_name g) \<noteq> []" "group_count g \<le> 16"
    by (auto simp: group_ok_def is_name_def)
  have c8: "groups_count t < 8" using Cons.prems(2) by simp
  have t1: "arrays_ok t1" "view_groups t1 = view_groups t @ [(cstr (group_name g), [])]"
    "view_users t1 = view_users t" "groups_count t1 = Suc (groups_count t)"
    using arrays_ok_new_group [OF Cons.prems(1) c8 gn(1)] view_groups_new [of t "group_name g"]
    by (simp_all add: t1_def view_users_def)
  have n1: "view_groups t1 ! groups_count t = (cstr (group_name g), [])" unfolding t1(2) by (simp add: nth_append)
  have "group_find t (group_name g) = None" using Cons.prems(5) by (auto simp: group_find_None)
  then have run: "load_groups (length (g # gs)) (concat (map group_record (g # gs)) @ r) t =
      (case load_members (length ?ms) (groups_count t) (concat (map (field 32) ?ms) @ ?r) t1 of (b, s) \<Rightarrow> load_groups (length gs) b s)"
    using gn c8 by (simp add: group_record_eq [OF g] field_append chr_at_0_cstr t1_def Let_def)
  have "set (snd (view_group g)) \<subseteq> fst ` set (view_users t1)" using Cons.prems(4) t1(3) by simp
  then have mem: "\<forall>m\<in>set ?ms. is_name m \<and> cstr m \<in> fst ` set (view_users t1) \<and> cstr m \<noteq> []"
    using g by (auto simp: group_ok_def view_group_def)
  have "distinct (map cstr ?ms)" using g by (simp add: group_ok_def view_group_def comp_def)
  then obtain t2 where t2: "load_members (length ?ms) (groups_count t) (concat (map (field 32) ?ms) @ ?r) t1 = (?r, t2)"
    "arrays_ok t2" "view_groups t2 = (view_groups t1)[groups_count t := (cstr (group_name g), map cstr ?ms)]"
    "users t2 = users t1" "users_count t2 = users_count t1" "next_uid t2 = next_uid t1"
    "hostname t2 = hostname t1" "is_setup t2 = is_setup t1" "groups_count t2 = groups_count t1"
    using load_members_image [OF t1(1), of "groups_count t" ?ms ?r] mem gn(4) n1 t1(4) by auto
  have v2: "view_groups t2 = view_groups t @ [view_group g]"
    unfolding t2(3) t1(2) by (simp add: list_update_append view_group_def comp_def)
  have u2: "view_users t2 = view_users t" using t2(4,5) t1(3) view_cong(1) [of t2 t1] by simp
  have "\<exists>t'. load_groups (length gs) ?r t2 = (r, t') \<and> arrays_ok t'
    \<and> view_groups t' = view_groups t2 @ map view_group gs
    \<and> users t' = users t2 \<and> users_count t' = users_count t2 \<and> next_uid t' = next_uid t2
    \<and> hostname t' = hostname t2 \<and> is_setup t' = is_setup t2"
    using Cons.prems t2(2,9) t1(4) u2 v2 by (intro Cons.IH) (auto simp: view_group_def)
  then show ?case unfolding run t2(1) using t2(4-8) v2 by (auto simp: t1_def)
qed

lemma root_name: "strncpy (replicate 32 NUL) ''root'' 32 = ''root'' @ replicate 28 NUL"
  by (simp add: strncpy_def numeral_eq_Suc)

lemma users_reset_table_law:
  assumes "arrays_ok s" "t = users_reset_table s"
  shows "arrays_ok t" "users t 0 = \<lparr>username = ''root'' @ replicate 28 NUL, password = replicate 32 NUL, uid = 0\<rparr>"
    "users_count t = 1" "groups_count t = 0" "next_uid t = 1000" "view_groups t = []"
    "hostname t = hostname s" "is_setup t = is_setup s"
proof -
  have "is_name (''root'' @ replicate 28 NUL)" by (simp add: is_name_def nth_append)
  moreover have "is_name (b[0 := NUL])" if "is_name b" for b using that by (simp add: is_name_def)
  ultimately show "arrays_ok t"
    using assms by (auto simp: users_reset_table_def Let_def arrays_ok_def blank_user_def clear_group_def root_name)
  show "users t 0 = \<lparr>username = ''root'' @ replicate 28 NUL, password = replicate 32 NUL, uid = 0\<rparr>"
    using assms(2) by (simp add: users_reset_table_def Let_def blank_user_def root_name)
  show "users_count t = 1" "groups_count t = 0" "next_uid t = 1000" "view_groups t = []"
    "hostname t = hostname s" "is_setup t = is_setup s"
    using assms(2) by (simp_all add: users_reset_table_def Let_def view_groups_def)
qed

lemma accounts_ok_users:
  assumes "accounts_ok s" "0 < i" "i < users_count s"
  shows "user_ok (users s i)" "uid (users s i) < next_uid s"
proof -
  note D = accounts_okD [OF assms(1)]
  have v: "users_view_ok (view_users s) (next_uid s)" using D(2) by (simp add: view_ok_def)
  have i: "view_users s ! i = view_user (users s i)" "view_user (users s i) \<in> set (view_users s)"
    using assms(3) nth_mem [of i "view_users s"] by auto
  have "view_user (users s i) \<in> set (tl (view_users s))"
    using i(1) assms(2,3) nth_mem [of "i - 1" "tl (view_users s)"] by (simp add: nth_tl)
  moreover have "map fst (view_users s) ! 0 \<noteq> map fst (view_users s) ! i"
    using v assms(2,3) D(3) unfolding users_view_ok_def by (metis distinct_conv_nth length_map length_views(1) less_irrefl)
  moreover have "cstr (username (users s i)) \<noteq> []"
    using v i(2) unfolding users_view_ok_def by (metis fst_conv image_eqI view_user_def)
  ultimately show "user_ok (users s i)" "uid (users s i) < next_uid s"
    using v i(2) D(1,3,4,6,9) assms(3) unfolding users_view_ok_def user_ok_def
    by (fastforce simp: view_user_def arrays_ok_def)+
qed

lemma accounts_ok_groups:
  assumes "accounts_ok s" "i < groups_count s"
  shows "group_ok (groups s i)" "set (snd (view_group (groups s i))) \<subseteq> fst ` set (view_users s)"
proof -
  note D = accounts_okD [OF assms(1)]
  have g: "groups_view_ok (fst ` set (view_users s)) (view_groups s)" using D(2) by (simp add: view_ok_def)
  have "view_group (groups s i) \<in> set (view_groups s)" using assms(2) nth_mem [of i "view_groups s"] by simp
  then have m: "distinct (snd (view_group (groups s i)))" "cstr (group_name (groups s i)) \<noteq> []"
    and s: "set (snd (view_group (groups s i))) \<subseteq> fst ` set (view_users s)"
    using g unfolding groups_view_ok_def by (force simp: view_group_def)+
  have "[] \<notin> fst ` set (view_users s)" using D(2) by (simp add: view_ok_def users_view_ok_def)
  then have "\<forall>j<group_count (groups s i). cstr (members (groups s i) j) \<noteq> []" using s by (force simp: view_group_def)
  moreover have "i < 8" "group_count (groups s i) \<le> 16" using D(1,5) assms(2) by (auto simp: arrays_ok_def)
  ultimately show "group_ok (groups s i)" using m D(1) by (auto simp: group_ok_def arrays_ok_def)
  show "set (snd (view_group (groups s i))) \<subseteq> fst ` set (view_users s)" by (rule s)
qed

lemma length_user_record [simp]: "length (user_record u) = 68"
  by (simp add: user_record_def)

lemma length_group_record: "length (group_record g) = 33 + 32 * min (group_count g) 16"
  by (simp add: group_record_def length_concat comp_def sum_list_triv)

lemma config_image_fits: "length (config_image s) \<le> config_store_size"
proof -
  have "sum_list (map (length \<circ> (\<lambda>i. group_record (groups s i))) [0..<n]) \<le> n * 545" for n
    by (induction n) (auto simp: length_group_record)
  from this [of "min (groups_count s) 8"]
  have "sum_list (map (length \<circ> (\<lambda>i. group_record (groups s i))) [0..<min (groups_count s) 8]) \<le> 4360"
    by (rule order_trans) simp
  then show ?thesis
    by (simp add: config_image_def config_store_size_def length_concat comp_def sum_list_triv)
qed

lemma config_image_split:
  assumes "accounts_ok s"
  shows "config_image s = [char_of (2 :: nat)] @ hostname s @ [if is_setup s then CHR 0x01 else NUL]
    @ password (users s 0) @ [char_of (users_count s)] @ user_record (users s 0)
    @ concat (map (\<lambda>j. user_record (users s j)) [1..<1 + (users_count s - 1)])
    @ [char_of (groups_count s)] @ concat (map group_record (map (groups s) [0..<groups_count s]))"
proof -
  note D = accounts_okD [OF assms]
  have "[0..<users_count s] = 0 # [1..<1 + (users_count s - 1)]" using D(3) by (simp add: upt_conv_Cons)
  then show ?thesis using D(1,3,4,5) by (simp add: config_image_def arrays_ok_def is_name_def comp_def)
qed

lemma load_v2_fields:
  assumes "length h = 64" "length pw = 32" "length rec = 68" "1 \<le> c" "c \<le> 8"
  shows "load_v2 ([x] @ h @ [f] @ pw @ [char_of c] @ rec @ B) t =
    (case load_users (c - 1) 1 B (t\<lparr>hostname := h, is_setup := f \<noteq> NUL,
       users := (users t)(0 := (users t 0)\<lparr>password := pw\<rparr>), users_count := 1\<rparr>) of (b, s) \<Rightarrow>
     snd (load_groups (if of_char (chr_at b 0) > (8 :: nat) then 0 else of_char (chr_at b 0)) (drop 1 b) s))"
  using assms by (simp add: load_v2_def Let_def field_append)

lemma load_v2_image:
  assumes ok: "accounts_ok s" and t: "arrays_ok t" "users t 0 = \<lparr>username = ''root'' @ replicate 28 NUL, password = p, uid = 0\<rparr>"
    "groups_count t = 0" "next_uid t = 1000"
  shows "\<exists>t'. load_v2 (config_image s @ r) t = t' \<and> accounts_ok t' \<and> view_users t' = view_users s
    \<and> view_groups t' = view_groups s \<and> hostname t' = hostname s \<and> is_setup t' = is_setup s \<and> next_uid t' \<le> next_uid s"
proof -
  note D = accounts_okD [OF ok]
  let ?n = "users_count s - 1" and ?gs = "map (groups s) [0..<groups_count s]"
  have len: "length (hostname s) = 64" "length (password (users s 0)) = 32" "is_name (password (users s 0))"
    using D(1,3,4) by (auto simp: arrays_ok_def is_name_def)
  let ?rest = "[char_of (groups_count s)] @ concat (map group_record ?gs) @ r"
  define t1 where "t1 = t\<lparr>hostname := hostname s, is_setup := is_setup s,
     users := (users t)(0 := (users t 0)\<lparr>password := password (users s 0)\<rparr>), users_count := 1\<rparr>"
  have "\<exists>nx. load_users ?n 1 (concat (map (\<lambda>j. user_record (users s j)) [1..<1 + ?n]) @ ?rest) t1 =
      (?rest, t1\<lparr>users := \<lambda>j. if 1 \<le> j \<and> j < 1 + ?n then users s j else users t1 j, users_count := 1 + ?n, next_uid := nx\<rparr>)
    \<and> next_uid t1 \<le> nx \<and> nx \<le> next_uid s \<and> (\<forall>j. 1 \<le> j \<longrightarrow> j < 1 + ?n \<longrightarrow> uid (users s j) < nx)"
    using accounts_ok_users [OF ok] D(8) t(4) by (intro load_users_image) (auto simp: t1_def)
  then obtain nx where nx: "load_users ?n 1 (concat (map (\<lambda>j. user_record (users s j)) [1..<1 + ?n]) @ ?rest) t1 =
      (?rest, t1\<lparr>users := \<lambda>j. if 1 \<le> j \<and> j < 1 + ?n then users s j else users t1 j, users_count := 1 + ?n, next_uid := nx\<rparr>)"
    "1000 \<le> nx" "nx \<le> next_uid s" "\<forall>j. 1 \<le> j \<longrightarrow> j < 1 + ?n \<longrightarrow> uid (users s j) < nx"
    using t(4) by (auto simp: t1_def)
  define t2 where "t2 = t1\<lparr>users := \<lambda>j. if 1 \<le> j \<and> j < 1 + ?n then users s j else users t1 j, users_count := 1 + ?n, next_uid := nx\<rparr>"
  have u0: "view_user (users t2 0) = view_user (users s 0)" "username (users t2 0) = ''root'' @ replicate 28 NUL"
    using t(2) D(6,7) ok by (simp_all add: t2_def t1_def view_user_def accounts_ok_def)
  have cnt: "users_count t2 = users_count s" using D(3) by (simp add: t2_def)
  have vu: "view_users t2 = view_users s"
  proof (rule nth_equalityI)
    fix i assume "i < length (view_users t2)"
    then have "i < users_count s" using cnt by simp
    then show "view_users t2 ! i = view_users s ! i" using cnt u0 by (cases i) (auto simp: t2_def)
  qed (simp add: cnt)
  have a2: "arrays_ok t2" using t(1) D(1,4) len unfolding arrays_ok_def t2_def t1_def by auto
  have g2: "view_groups t2 = []" using t(3) by (simp add: view_groups_def t2_def t1_def)
  have gd: "distinct (map (\<lambda>g. cstr (group_name g)) ?gs)" "\<forall>g\<in>set ?gs. group_ok g"
    "\<forall>g\<in>set ?gs. set (snd (view_group g)) \<subseteq> fst ` set (view_users t2)"
    using D(2) accounts_ok_groups [OF ok] vu
    by (auto simp: view_ok_def groups_view_ok_def view_groups_def view_group_def comp_def)
  obtain t3 where t3: "load_groups (length ?gs) (concat (map group_record ?gs) @ r) t2 = (r, t3)" "arrays_ok t3"
    "view_groups t3 = view_groups t2 @ map view_group ?gs" "users t3 = users t2" "users_count t3 = users_count t2"
    "next_uid t3 = next_uid t2" "hostname t3 = hostname t2" "is_setup t3 = is_setup t2"
    using load_groups_image [OF a2, of ?gs r] gd g2 D(5) length_views(2) [of t2] by auto
  have run: "load_v2 (config_image s @ r) t = t3"
  proof -
    have f: "((if is_setup s then CHR 0x01 else NUL) \<noteq> NUL) = is_setup s" and c: "1 \<le> users_count s" using D(3) by auto
    have img: "config_image s @ r = [char_of (2 :: nat)] @ hostname s @ [if is_setup s then CHR 0x01 else NUL]
        @ password (users s 0) @ [char_of (users_count s)] @ user_record (users s 0)
        @ concat (map (\<lambda>j. user_record (users s j)) [1..<1 + ?n]) @ ?rest"
      unfolding config_image_split [OF ok] by (simp only: append_assoc)
    have "load_v2 (config_image s @ r) t = (case load_users ?n 1 (concat (map (\<lambda>j. user_record (users s j)) [1..<1 + ?n]) @ ?rest) t1
        of (b, s) \<Rightarrow> snd (load_groups (if of_char (chr_at b 0) > (8 :: nat) then 0 else of_char (chr_at b 0)) (drop 1 b) s))"
      unfolding img load_v2_fields [OF len(1,2) length_user_record c D(4)] f t1_def ..
    also have "\<dots> = snd (load_groups (groups_count s) (concat (map group_record ?gs) @ r) t2)"
      unfolding nx(1) t2_def [symmetric] using D(5) by simp
    finally show ?thesis using t3(1) by simp
  qed
  have "view_groups t3 = view_groups s" unfolding t3(3) g2 by (simp add: view_groups_def)
  moreover have vu3: "view_users t3 = view_users s" using t3(4,5) vu view_cong(1) [of t3 t2] by simp
  moreover have "view_ok (view_users s) (view_groups s) nx"
  proof -
    have "\<forall>u\<in>set (view_users s). snd (snd u) < nx"
    proof
      fix u assume "u \<in> set (view_users s)"
      then obtain j where j: "j < users_count s" "u = view_user (users s j)" by (auto simp: view_users_def)
      show "snd (snd u) < nx" using nx(2,4) j D(3,7) by (cases j) (auto simp: view_user_def)
    qed
    then show ?thesis using D(2,9) nx(2,3) by (auto simp: view_ok_def users_view_ok_def)
  qed
  ultimately have "accounts_ok t3" using t3(2,4,6) u0(2) by (simp add: accounts_ok_def t2_def)
  then show ?thesis using run \<open>view_groups t3 = view_groups s\<close> vu3 t3(6,7,8) nx(3) by (simp add: t2_def t1_def)
qed

lemma config_roundtrip_aux:
  assumes "accounts_ok s" "arrays_ok t" "config_store_size \<le> n"
  shows "\<exists>t'. fst (config_serialize (Some old) n s) = 0
    \<and> config_deserialize (snd (config_serialize (Some old) n s)) n t = (0, t')
    \<and> accounts_ok t' \<and> view_users t' = view_users s \<and> view_groups t' = view_groups s
    \<and> hostname t' = hostname s \<and> is_setup t' = is_setup s \<and> next_uid t' \<le> next_uid s
    \<and> length (config_image s) \<le> config_store_size"
proof -
  note R = users_reset_table_law [OF assms(2) refl]
  have n: "\<not> n < 2" "\<not> n < config_store_size" using assms(3) by (auto simp: config_store_size_def)
  have ser: "config_serialize (Some old) n s = (0, Some (config_image s @ drop (length (config_image s)) old))"
    using n by (simp add: config_serialize_def overlay_def)
  have "chr_at (config_image s @ r) 0 = char_of (2 :: nat)" for r by (simp add: config_image_def)
  then have "config_deserialize (Some (config_image s @ r)) n t = (0, load_v2 (config_image s @ r) (users_reset_table t))" for r
    using n by (simp add: config_deserialize_def Let_def)
  then show ?thesis
    using ser config_image_fits load_v2_image [OF assms(1) R(1,2,4,5), of "drop (length (config_image s)) old"] by auto
qed

section \<open>Properties of the account table\<close>

text \<open>The tables as the kernel image has them: only root, no groups.\<close>

definition boot_accounts :: accounts where
  "boot_accounts =
     \<lparr>users = (\<lambda>i. if i = 0 then \<lparr>username = ''root'' @ replicate 28 NUL, password = replicate 32 NUL, uid = 0\<rparr>
                   else blank_user),
      users_count = 1, next_uid = 1000,
      groups = (\<lambda>i. \<lparr>group_name = replicate 32 NUL, group_count = 0, members = (\<lambda>j. replicate 32 NUL)\<rparr>),
      groups_count = 0, hostname = replicate 64 NUL, is_setup = False, config_saved = None\<rparr>"

lemma single_root_ok:
  assumes "arrays_ok s" "users s 0 = \<lparr>username = ''root'' @ replicate 28 NUL, password = p, uid = 0\<rparr>"
    "users_count s = 1" "groups_count s = 0" "next_uid s = 1000"
  shows "accounts_ok s"
proof -
  have "cstr (''root'' @ replicate 28 NUL) = ''root''" by (simp add: numeral_eq_Suc)
  then show ?thesis using assms
    by (simp add: accounts_ok_def view_ok_def users_view_ok_def groups_view_ok_def view_users_def view_groups_def view_user_def)
qed

lemma boot_accounts_ok: "accounts_ok boot_accounts"
proof -
  have "is_name (''root'' @ replicate 28 NUL)" by (simp add: is_name_def nth_append)
  then have "arrays_ok boot_accounts" by (simp add: arrays_ok_def boot_accounts_def blank_user_def)
  then show ?thesis by (rule single_root_ok) (simp_all add: boot_accounts_def)
qed

lemma config_reset_ok:
  assumes "accounts_ok s"
  shows "accounts_ok (config_reset s)"
proof -
  have "arrays_ok (s\<lparr>hostname := replicate 64 NUL, is_setup := False\<rparr>)"
    using accounts_okD(1) [OF assms] by (simp add: arrays_ok_def)
  note R = users_reset_table_law [OF this refl]
  show ?thesis unfolding config_reset_def by (rule single_root_ok [OF R(1,2,3,4,5)])
qed

lemma group_member_add_ok:
  assumes ok: "accounts_ok s" and gi: "gi < groups_count s" and m: "cstr nm \<in> fst ` set (view_users s)"
    and r: "group_member_add gi nm s = (rc, t)"
  shows "accounts_ok t"
proof (cases "rc = 0 \<and> cstr nm \<notin> set (snd (view_groups s ! gi))")
  case True
  note D = accounts_okD [OF ok]
  note A = group_member_add_law [OF D(1) gi r]
  from m obtain i where i: "i < users_count s" "cstr nm = cstr (username (users s i))"
    by (auto simp: view_users_def view_user_def)
  then have "is_name (username (users s i))" using D(1,4) by (simp add: arrays_ok_def)
  then have "take 31 (cstr nm) = cstr nm" using cstr_shorter(2) i by simp
  then have v: "view_groups t = (view_groups s)[gi := (fst (view_groups s ! gi), snd (view_groups s ! gi) @ [cstr nm])]"
    using A(2) True by simp
  have "view_ok (view_users s) (view_groups t) (next_uid s)"
    using D(2) groups_view_ok_members [of "fst ` set (view_users s)" "view_groups s" gi "cstr nm"] m gi True
    unfolding v view_ok_def by simp
  then show ?thesis using A(1,4,5,6) view_cong(1) [of t s] by (intro accounts_ok_intro [OF ok]) simp_all
next
  case False
  then show ?thesis using ok r gi by (auto simp: group_member_add_def group_has_member_iff Let_def split: if_splits)
qed

lemma user_add_full_added:
  assumes ok: "accounts_ok s" and n: "length (cstr n) \<le> 31" and w: "want < 2147483647" "next_uid s < 2147483647"
    and r: "user_add_full (Some n) (Some p) want (s, f) = (0, t, g)" and i: "i = (if want > 0 then want else next_uid s)"
  shows "accounts_ok t" "view_users t = view_users s @ [(cstr n, take 31 (cstr p), i)]" "view_groups t = view_groups s"
    "config_saved t = Some (config_t.truncate t)" "user_find t n = Some (users_count s)" "cstr n \<notin> fst ` set (view_users s)"
    "i < next_uid t"
proof -
  let ?u = "new_user n p want s"
  from r obtain h where a: "cstr n \<noteq> []" "cstr n \<notin> fst ` set (view_users s)" "users_count s < 8"
    "(t, g) = store_save (?u, h)" by (rule user_add_full_cases) auto
  then have t: "t = ?u\<lparr>config_saved := Some (config_t.truncate ?u)\<rparr>" by simp
  note N = new_user_law [where nm = n and pass = p, OF ok a(3) w refl i]
  have tk: "take 31 (cstr n) = cstr n" using n by simp
  show vu: "view_users t = view_users s @ [(cstr n, take 31 (cstr p), i)]" "view_groups t = view_groups s"
    using N(2,3) tk unfolding t by simp_all
  show "i < next_uid t" using N(7) unfolding t by simp
  show "accounts_ok t"
    using view_ok_add [OF accounts_okD(2) [OF ok] a(2,1) N(9,7,6,8)] N(1,2,3,5) tk
    unfolding t by (auto intro!: accounts_ok_intro [OF ok])
  show "config_saved t = Some (config_t.truncate t)" unfolding t by (simp add: config_t.defs)
  have "users_count t = Suc (users_count s)" using N(4) unfolding t by simp
  moreover have "cstr (username (users t j)) = fst (view_users t ! j)" if "j < users_count t" for j
    using that by (simp add: view_user_def)
  ultimately show "user_find t n = Some (users_count s)" using a(1,2) vu(1)
    by (auto simp: user_find_Some nth_append) (metis image_eqI length_views(1) nth_mem nth_views(1))
  show "cstr n \<notin> fst ` set (view_users s)" by (rule a(2))
qed

text \<open>Writing the accounts to the Storefile and reading them back gives the same accounts (names,
  passwords, numbers), the same groups with the same members, host name and setup flag, and a valid
  table, whatever was in the buffer and in the tables before; the image never exceeds the space reserved.
  Only the next free user number may be smaller than before.\<close>

theorem config_roundtrip:
  assumes "accounts_ok s" "arrays_ok t" "config_store_size \<le> n"
  shows "\<exists>t'. fst (config_serialize (Some old) n s) = 0
    \<and> config_deserialize (snd (config_serialize (Some old) n s)) n t = (0, t')
    \<and> accounts_ok t' \<and> view_users t' = view_users s \<and> view_groups t' = view_groups s
    \<and> hostname t' = hostname s \<and> is_setup t' = is_setup s \<and> next_uid t' \<le> next_uid s
    \<and> length (config_image s) \<le> config_store_size"
  using assms by (rule config_roundtrip_aux)

text \<open>Adding an account whose name fits succeeds only with a new, non-empty name; it appends exactly
  that account, keeps the table valid, hands out a number no other account has unless one was asked for,
  makes the name resolvable, and saves the result.\<close>

theorem user_add_full_adds:
  assumes "accounts_ok s" "length (cstr n) \<le> 31" "want < 2147483647" "next_uid s < 2147483647"
    and "user_add_full (Some n) (Some p) want (s, f) = (0, t, g)"
  shows "accounts_ok t \<and> cstr n \<notin> fst ` set (view_users s) \<and> user_find t n = Some (users_count s)
    \<and> view_users t = view_users s @ [(cstr n, take 31 (cstr p), if want > 0 then want else next_uid s)]
    \<and> view_groups t = view_groups s \<and> config_saved t = Some (config_t.truncate t)
    \<and> (want \<le> 0 \<longrightarrow> next_uid s \<notin> (\<lambda>u. snd (snd u)) ` set (view_users s))"
proof -
  have "\<forall>u\<in>set (view_users s). snd (snd u) < next_uid s"
    using accounts_okD(2) [OF assms(1)] by (simp add: view_ok_def users_view_ok_def)
  then have "next_uid s \<notin> (\<lambda>u. snd (snd u)) ` set (view_users s)" by fastforce
  then show ?thesis using user_add_full_added [OF assms refl] by simp
qed

text \<open>Deleting an account removes exactly the entry with that name and takes the name out of every
  group, keeps the table valid and saves it; root and unknown names are refused and nothing changes.\<close>

theorem user_del_removes:
  assumes "accounts_ok s" "user_del nm (s, f) = (rc, t, g)"
  shows "accounts_ok t \<and> (rc = 0 \<longleftrightarrow> cstr nm \<noteq> ''root'' \<and> cstr nm \<in> fst ` set (view_users s))
    \<and> (rc = 0 \<longrightarrow> view_users t = filter (\<lambda>u. fst u \<noteq> cstr nm) (view_users s)
         \<and> view_groups t = map (\<lambda>g. (fst g, remove1 (cstr nm) (snd g))) (view_groups s)
         \<and> config_saved t = Some (config_t.truncate t))
    \<and> (rc \<noteq> 0 \<longrightarrow> t = s \<and> g = f)"
  using user_del_law [OF assms(1), of nm f t g] user_del_fails [OF assms] assms by (cases "rc = 0") auto

inductive account_steps :: "accounts \<times> fs \<Rightarrow> accounts \<times> fs \<Rightarrow> bool" where
  start: "account_steps x x"
| add: "account_steps x (s, f) \<Longrightarrow> length (cstr n) \<le> 31 \<Longrightarrow> want < 2147483647 \<Longrightarrow> next_uid s < 2147483647 \<Longrightarrow>
    user_add_full (Some n) (Some p) want (s, f) = (rc, t, g) \<Longrightarrow> account_steps x (t, g)"
| del: "account_steps x (s, f) \<Longrightarrow> user_del n (s, f) = (rc, t, g) \<Longrightarrow> account_steps x (t, g)"
| join: "account_steps x (s, f) \<Longrightarrow> gi < groups_count s \<Longrightarrow> user_find s n = Some i \<Longrightarrow>
    group_member_add gi n s = (rc, t) \<Longrightarrow> account_steps x (t, f)"
| leave: "account_steps x (s, f) \<Longrightarrow> gi < groups_count s \<Longrightarrow> account_steps x (group_member_remove gi n s, f)"
| reset: "account_steps x (s, f) \<Longrightarrow> account_steps x (config_reset s, f)"
| reload: "account_steps x (s, f) \<Longrightarrow> config_store_size \<le> n \<Longrightarrow>
    config_deserialize (snd (config_serialize (Some old) n s)) n s = (rc, t) \<Longrightarrow> account_steps x (t, f)"

inductive_cases account_steps_elims: "account_steps x y"

lemma group_member_remove_ok:
  assumes ok: "accounts_ok s" and gi: "gi < groups_count s"
  shows "accounts_ok (group_member_remove gi n s)"
proof -
  note D = accounts_okD [OF ok]
  let ?t = "group_member_remove gi n s" and ?g = "view_groups s ! gi"
  note R = group_member_remove_law [OF D(1) gi refl, of n]
  have g: "groups_view_ok (fst ` set (view_users s)) (view_groups s)" using D(2) by (simp add: view_ok_def)
  have v: "view_groups ?t = (view_groups s)[gi := (fst ?g, remove1 (cstr n) (snd ?g))]" using R by blast
  have f: "map fst (view_groups ?t) = map fst (view_groups s)"
    using gi list_update_id [of "map fst (view_groups s)" gi] unfolding v by (simp add: map_update)
  have s: "set (map snd (view_groups ?t)) \<subseteq> insert (remove1 (cstr n) (snd ?g)) (set (map snd (view_groups s)))"
    unfolding v by (metis map_update set_update_subset_insert snd_conv)
  have "?g \<in> set (view_groups s)" using gi by (metis length_views(2) nth_mem)
  then have "distinct (snd ?g)" "set (snd ?g) \<subseteq> fst ` set (view_users s)" using g unfolding groups_view_ok_def by auto
  then have m: "distinct (remove1 (cstr n) (snd ?g)) \<and> set (remove1 (cstr n) (snd ?g)) \<subseteq> fst ` set (view_users s)"
    using set_remove1_subset [of "cstr n" "snd ?g"] by auto
  have all: "distinct ms \<and> set ms \<subseteq> fst ` set (view_users s)" if "ms \<in> set (map snd (view_groups ?t))" for ms
    using that s m g unfolding groups_view_ok_def by blast
  have "groups_view_ok (fst ` set (view_users s)) (view_groups ?t)"
    using g all unfolding groups_view_ok_def f by blast
  then show ?thesis using R D(2) view_cong(1) [of ?t s] by (intro accounts_ok_intro [OF ok]) (simp_all add: view_ok_def)
qed


subsection \<open>Concrete tables\<close>

definition carl_accounts :: accounts where
  "carl_accounts = new_user ''carl'' ''secret'' 0 boot_accounts"

lemma boot_accounts_simps:
  "users_count boot_accounts = 1" "next_uid boot_accounts = 1000" "groups_count boot_accounts = 0"
  by (simp_all add: boot_accounts_def)

lemma boot_view: "view_users boot_accounts = [(''root'', [], 0)]" "view_groups boot_accounts = []"
  by (simp_all add: view_users_def view_groups_def view_user_def boot_accounts_def numeral_eq_Suc)

lemma carl_accounts_ok: "accounts_ok carl_accounts" "view_users carl_accounts = [(''root'', [], 0), (''carl'', ''secret'', 1000)]"
proof -
  have p: "users_count boot_accounts < 8" "(0 :: int) < 2147483647" "next_uid boot_accounts < 2147483647"
    "1000 = (if (0 :: int) < 0 then 0 else next_uid boot_accounts)" by (simp_all add: boot_accounts_simps)
  note N = new_user_law [OF boot_accounts_ok p(1-3) carl_accounts_def p(4)]
  have n: "arrays_ok carl_accounts" "view_users carl_accounts = view_users boot_accounts @ [(''carl'', ''secret'', 1000)]"
    "view_groups carl_accounts = view_groups boot_accounts" "username (users carl_accounts 0) = username (users boot_accounts 0)"
    "next_uid boot_accounts \<le> next_uid carl_accounts" "1000 < next_uid carl_accounts" "next_uid carl_accounts \<le> 2147483647"
    using N(1,2,3,5,6,7,8) by simp_all
  show "view_users carl_accounts = [(''root'', [], 0), (''carl'', ''secret'', 1000)]" using n(2) boot_view by simp
  have "view_ok (view_users carl_accounts) (view_groups carl_accounts) (next_uid carl_accounts)"
    unfolding n(2,3) using accounts_okD(2) [OF boot_accounts_ok] n(5-7) by (intro view_ok_add) (auto simp: boot_view)
  then show "accounts_ok carl_accounts" using n(1,4) by (intro accounts_ok_intro [OF boot_accounts_ok])
qed

theorem config_roundtrip_witness:
  "\<exists>t'. config_deserialize (snd (config_serialize (Some []) 16384 carl_accounts)) 16384 boot_accounts = (0, t')
    \<and> view_users t' = [(''root'', [], 0), (''carl'', ''secret'', 1000)]"
  using config_roundtrip [OF carl_accounts_ok(1) accounts_okD(1) [OF boot_accounts_ok], of 16384 "[]"] carl_accounts_ok(2)
  by (auto simp: config_store_size_def)

lemma add_carl:
  "\<exists>t g. user_add_full (Some ''carl'') (Some ''secret'') 0 (boot_accounts, fresh_fs) = (0, t, g)"
  by (simp add: user_add_full_def null_or_empty_def user_find_None boot_view boot_accounts_simps Let_def)

theorem user_add_full_adds_witness:
  "\<exists>t g. user_add_full (Some ''carl'') (Some ''secret'') 0 (boot_accounts, fresh_fs) = (0, t, g)
    \<and> accounts_ok t \<and> view_users t = [(''root'', [], 0), (''carl'', ''secret'', 1000)]"
proof -
  from add_carl obtain t g where r: "user_add_full (Some ''carl'') (Some ''secret'') 0 (boot_accounts, fresh_fs) = (0, t, g)" by blast
  show ?thesis using user_add_full_adds [OF boot_accounts_ok _ _ _ r] r by (simp add: boot_accounts_simps boot_view)
qed

theorem user_del_removes_witness:
  "\<exists>t g. user_del ''carl'' (carl_accounts, fresh_fs) = (0, t, g) \<and> view_users t = [(''root'', [], 0)]"
proof -
  obtain rc t g where r: "user_del ''carl'' (carl_accounts, fresh_fs) = (rc, t, g)" by (metis prod_cases3)
  show ?thesis using user_del_removes [OF carl_accounts_ok(1) r] r by (auto simp: carl_accounts_ok(2))
qed


text \<open>The duplicate check of \<^verbatim>\<open>user_add_full\<close> compares the full name while the table stores its first 31
  characters: a name longer than that is accepted again and again, and the table then has several
  accounts of the same name.\<close>

theorem long_name_added_twice:
  assumes ok: "accounts_ok s" and n: "31 < length (cstr n)" "take 31 (cstr n) \<notin> fst ` set (view_users s)"
    and c: "users_count s \<le> 6" "next_uid s < 2147483646"
  shows "\<exists>t g t' g'. user_add (Some n) (Some p) (s, f) = (0, t, g) \<and> user_add (Some n) (Some p) (t, g) = (0, t', g')
    \<and> map fst (view_users t') = map fst (view_users s) @ [take 31 (cstr n), take 31 (cstr n)]"
proof -
  have short: "length m \<le> 31" if "m \<in> fst ` set (view_users u)" "arrays_ok u" for m and u :: accounts
    using that cstr_shorter(2) by (auto simp: view_users_def view_user_def arrays_ok_def)
  have ne: "cstr n \<noteq> []" "\<not> null_or_empty (Some n)" using n(1) by (auto simp: null_or_empty_def chr_at_0_NUL_iff)
  let ?s1 = "new_user n p 0 s"
  note N = new_user_law [where nm = n and pass = p and s = s and want = 0 and i = "next_uid s", OF ok _ _ _ refl]
  have s1: "arrays_ok ?s1" "view_users ?s1 = view_users s @ [(take 31 (cstr n), take 31 (cstr p), next_uid s)]"
    "users_count ?s1 = users_count s + 1"
    using N(1,2,4) c by simp_all
  have f1: "user_find s n = None" using short [of "cstr n" s] n accounts_okD(1) [OF ok] by (auto simp: user_find_None)
  have f2: "user_find (?s1\<lparr>config_saved := v\<rparr>) n = None" for v
    using short [of "cstr n" ?s1] n s1(1) by (auto simp: user_find_None)
  have v2: "map fst (view_users (new_user n p 0 (?s1\<lparr>config_saved := v\<rparr>))) = map fst (view_users ?s1) @ [take 31 (cstr n)]" for v
    using copied_name(2) [of n] by (auto simp: view_users_def view_user_def new_user_def new_user_name Let_def)
  show ?thesis using f1 f2 v2 s1(2,3) ne c
    by (simp add: user_add_def user_add_full_def Let_def)
qed

theorem long_name_added_twice_witness:
  "\<exists>t g t' g'. user_add (Some (replicate 40 CHR ''a'')) (Some ''x'') (boot_accounts, fresh_fs) = (0, t, g)
    \<and> user_add (Some (replicate 40 CHR ''a'')) (Some ''x'') (t, g) = (0, t', g')
    \<and> map fst (view_users t') = [''root'', replicate 31 CHR ''a'', replicate 31 CHR ''a'']"
proof -
  have c: "cstr (replicate 40 CHR ''a'') = replicate 40 CHR ''a''" by (rule cstr_id) (simp add: is_cstring_def)
  show ?thesis
    using long_name_added_twice [OF boot_accounts_ok, of "replicate 40 CHR ''a''" "''x''" fresh_fs]
    by (simp add: c boot_view boot_accounts_simps numeral_eq_Suc)
qed

end
