(* ===== verification/AccountCmds.thy ===== *)
theory AccountCmds
  imports Accounts
begin

section \<open>Sessions and account commands (kernel/kernel.c)\<close>

text \<open>
  The login prompt and the shell's builtins that work on accounts, groups and permissions. The state of
  a session holds the account tables, the filesystem and the logged-in user; the lines the user will
  type are a sequence read in order (\<open>kbd\<close>, \<open>kbd_pos\<close>), and \<open>out\<close> is the text printed so far. A line is
  cut to the size of the buffer it is read into, as \<^verbatim>\<open>read_line\<close> does.

  The commands copy their argument string into a local buffer with \<^verbatim>\<open>strncpy\<close>, which does not terminate a
  string that fills the buffer; the model takes the bytes that fit (\<open>arg_buf\<close>), which is what the code
  sees for every argument shorter than the buffer.
\<close>

record sess =
  acc :: accounts
  fsys :: fs
  cur_username :: bytes
  cur_uid :: int
  cur_home :: bytes
  kbd :: "nat \<Rightarrow> bytes"
  kbd_pos :: nat
  out :: bytes

definition print :: "bytes \<Rightarrow> 'a sess_scheme \<Rightarrow> 'a sess_scheme" where
  "print m s = s\<lparr>out := out s @ cstr m\<rparr>"

definition read_line :: "nat \<Rightarrow> 'a sess_scheme \<Rightarrow> bytes \<times> 'a sess_scheme" where
  "read_line max_len s = (take (max_len - 1) (cstr (kbd s (kbd_pos s))), s\<lparr>kbd_pos := kbd_pos s + 1\<rparr>)"

abbreviation says :: "bytes list \<Rightarrow> 'a sess_scheme \<Rightarrow> 'a sess_scheme" where
  "says ms s \<equiv> foldl (\<lambda>s m. print m s) s ms"

definition line_end :: bytes where
  "line_end = [NEWLINE]"

definition quoted :: "bytes \<Rightarrow> bytes" where
  "quoted nm = [CHR 0x27] @ cstr nm @ [CHR 0x27]"

definition save_session :: "'a sess_scheme \<Rightarrow> 'a sess_scheme" where
  "save_session s = (case store_save (acc s, fsys s) of (a, f) \<Rightarrow> s\<lparr>acc := a, fsys := f\<rparr>)"

definition arg_buf :: "nat \<Rightarrow> cptr \<Rightarrow> bytes" where
  "arg_buf n args = take n (cstr (case args of None \<Rightarrow> [] | Some a \<Rightarrow> a))"

subsection \<open>Parsing arguments\<close>

definition is_blank :: "byte \<Rightarrow> bool" where
  "is_blank c \<longleftrightarrow> c = CHR '' '' \<or> c = CHR 0x09"

fun split_args :: "bytes \<Rightarrow> nat \<Rightarrow> bytes list" where
  "split_args s 0 = []"
| "split_args s (Suc left) =
     (let s = dropWhile is_blank s
      in if chr_at s 0 = NUL then []
         else let r = dropWhile (\<lambda>c. c \<noteq> NUL \<and> \<not> is_blank c) s
              in takeWhile (\<lambda>c. c \<noteq> NUL \<and> \<not> is_blank c) s
                 # split_args (if chr_at r 0 \<noteq> NUL then drop 1 r else r) left)"

fun atoi_safe_digits :: "bytes \<Rightarrow> int \<Rightarrow> int" where
  "atoi_safe_digits [] v = v"
| "atoi_safe_digits (c # p) v =
     (if is_digit c then atoi_safe_digits p (s32 (s32 (v * 10) + (of_char c - 48))) else v)"

definition atoi_safe :: "cptr \<Rightarrow> int" where
  "atoi_safe p =
     (case p of
        None \<Rightarrow> 0
      | Some s \<Rightarrow> if chr_at s 0 = CHR ''-'' then s32 (- atoi_safe_digits (tl s) 0) else atoi_safe_digits s 0)"

subsection \<open>Logging in\<close>

definition set_session_user :: "nat \<Rightarrow> 'a sess_scheme \<Rightarrow> 'a sess_scheme" where
  "set_session_user idx s =
     (let u = users (acc s) idx;
          s = s\<lparr>cur_username := strncpy (cur_username s) (username u) MAX_USERNAME, cur_uid := uid u,
                fsys := (fsys s)\<lparr>fs_cur_uid := uid u\<rparr>\<rparr>
      in if uid u = 0 then s\<lparr>cur_home := strncpy (cur_home s) ''/root'' 96\<rparr>
         else let h = ''/home/'' @ take 84 (cstr (username u))
              in s\<lparr>cur_home := h @ NUL # drop (Suc (length h)) (cur_home s)\<rparr>)"

text \<open>The login prompt repeats until somebody logs in; \<open>fuel\<close> bounds the number of attempts.\<close>

fun login_prompt :: "nat \<Rightarrow> 'a sess_scheme \<Rightarrow> 'a sess_scheme option" where
  "login_prompt 0 s = None"
| "login_prompt (Suc fuel) s =
     (let s = says [hostname (acc s), '' login: ''] s in
      case read_line MAX_USERNAME s of (u, s) \<Rightarrow>
      let idx = user_find (acc s) u in
      if idx \<noteq> None \<and> chr_at (password (users (acc s) (the idx))) 0 = NUL then Some (set_session_user (the idx) s)
      else let s = print ''Password: '' s in
      case read_line MAX_PASSWORD s of (p, s) \<Rightarrow>
      if idx \<noteq> None \<and> streq (Some p) (Some (password (users (acc s) (the idx)))) then Some (set_session_user (the idx) s)
      else login_prompt fuel (print (''Login incorrect'' @ line_end @ line_end) s))"

subsection \<open>sudo and su\<close>

text \<open>\<open>run\<close> stands for \<^verbatim>\<open>execute_command\<close>.\<close>

fun sudo_tries :: "(bytes \<Rightarrow> 'a sess_scheme \<Rightarrow> 'a sess_scheme) \<Rightarrow> bytes \<Rightarrow> nat \<Rightarrow> nat \<Rightarrow> 'a sess_scheme \<Rightarrow> 'a sess_scheme" where
  "sudo_tries run args self 0 s = print (''sudo: 3 incorrect password attempts'' @ line_end) s"
| "sudo_tries run args self (Suc left) s =
     (let s = says [''[sudo] password for '', cur_username s, '': ''] s in
      case read_line MAX_PASSWORD s of (pw, s) \<Rightarrow>
      if chr_at pw 0 = NUL then print (''sudo: no password was provided'' @ line_end) s
      else let stored = password (users (acc s) self) in
      if chr_at stored 0 \<noteq> NUL \<and> streq (Some pw) (Some stored)
      then let saved_uid = fs_cur_uid (fsys s);
               s = run args (s\<lparr>fsys := (fsys s)\<lparr>fs_cur_uid := 0\<rparr>\<rparr>)
           in s\<lparr>fsys := (fsys s)\<lparr>fs_cur_uid := saved_uid\<rparr>\<rparr>
      else sudo_tries run args self left (if left \<noteq> 0 then print (''Sorry, try again.'' @ line_end) s else s))"

definition cmd_sudo :: "(bytes \<Rightarrow> 'a sess_scheme \<Rightarrow> 'a sess_scheme) \<Rightarrow> cptr \<Rightarrow> 'a sess_scheme \<Rightarrow> 'a sess_scheme" where
  "cmd_sudo run args s =
     (if null_or_empty args then print (''usage: sudo <command>'' @ line_end) s
      else if cur_uid s = 0 then run (the args) s
      else let w = group_find (acc s) ''wheel'' in
      if w \<noteq> None \<and> group_count (groups (acc s) (the w)) > 0 \<and> \<not> group_has_member (acc s) (the w) (cur_username s)
      then says [cur_username s, '' is not in the sudoers file.  This incident will be reported.'' @ line_end] s
      else case user_find (acc s) (cur_username s) of
        None \<Rightarrow> print (''sudo: unknown account'' @ line_end) s
      | Some self \<Rightarrow> sudo_tries run (the args) self 3 s)"

fun su_target :: "bytes list \<Rightarrow> bytes option \<Rightarrow> bytes option option" where
  "su_target [] nm = Some nm"
| "su_target (t # ts) nm =
     (if t = ''-'' \<or> t = ''-l'' \<or> t = ''-login'' then su_target ts nm
      else if nm = None then su_target ts (Some t) else None)"

definition cmd_su :: "cptr \<Rightarrow> 'a sess_scheme \<Rightarrow> 'a sess_scheme" where
  "cmd_su args s =
     (case su_target (split_args (arg_buf 128 args) 8) None of
        None \<Rightarrow> print (''usage: su [-] [name]'' @ line_end) s
      | Some nm \<Rightarrow>
          let nm = (case nm of None \<Rightarrow> ''root'' | Some n \<Rightarrow> n) in
          case user_find (acc s) nm of
            None \<Rightarrow> says [''su: user '', nm, '' does not exist'' @ line_end] s
          | Some idx \<Rightarrow>
              let stored = password (users (acc s) idx);
                  ask = fs_cur_uid (fsys s) \<noteq> 0 \<and> chr_at stored 0 \<noteq> NUL;
                  typed = (if ask then read_line MAX_PASSWORD (print ''Password: '' s) else ([], s))
              in if ask \<and> \<not> streq (Some (fst typed)) (Some stored)
                 then print (''su: Authentication failure'' @ line_end) (snd typed)
                 else let s = set_session_user idx (snd typed);
                          f = (fsys s)\<lparr>fs_cur_uid := 0\<rparr>;
                          r = fs_change_directory (Some (cur_home s)) f;
                          f = (if fst r \<noteq> 0 then snd (fs_change_directory (Some ''/'') (snd r)) else snd r)
                      in s\<lparr>fsys := f\<lparr>fs_cur_uid := cur_uid s\<rparr>\<rparr>)"

subsection \<open>useradd and userdel\<close>

record useradd_opts =
  ua_pass :: "bytes option"
  ua_uid :: int
  ua_name :: "bytes option"

fun useradd_parse :: "bytes list \<Rightarrow> useradd_opts \<Rightarrow> useradd_opts option" where
  "useradd_parse [] q = Some q"
| "useradd_parse [t] q = (if ua_name q = None then Some (q\<lparr>ua_name := Some t\<rparr>) else None)"
| "useradd_parse (t # v # ts) q =
     (if t = ''-p'' then useradd_parse ts (q\<lparr>ua_pass := Some v\<rparr>)
      else if t = ''-u'' then useradd_parse ts (q\<lparr>ua_uid := atoi_safe (Some v)\<rparr>)
      else if ua_name q = None then useradd_parse (v # ts) (q\<lparr>ua_name := Some t\<rparr>) else None)"

definition useradd_run :: "bytes \<Rightarrow> bytes \<Rightarrow> int \<Rightarrow> 'a sess_scheme \<Rightarrow> 'a sess_scheme" where
  "useradd_run name pass want s =
     (case user_add_full (Some name) (Some pass) want (acc s, fsys s) of (r, a, f) \<Rightarrow>
      let s = s\<lparr>acc := a, fsys := f\<rparr> in
      if r = - 1 then print (''useradd: invalid name'' @ line_end) s
      else if r = - 2 then print (''useradd: user table full'' @ line_end) s
      else s)"

definition cmd_useradd :: "cptr \<Rightarrow> 'a sess_scheme \<Rightarrow> 'a sess_scheme" where
  "cmd_useradd args s =
     (if cur_uid s \<noteq> 0 then print (''useradd: only root can add users'' @ line_end) s
      else case useradd_parse (split_args (arg_buf 256 args) 16) \<lparr>ua_pass = None, ua_uid = 0, ua_name = None\<rparr> of
        None \<Rightarrow> print (''usage: useradd [-p password] [-u uid] <name>'' @ line_end) s
      | Some q \<Rightarrow>
        (case ua_name q of
           None \<Rightarrow> print (''usage: useradd [-p password] [-u uid] <name>'' @ line_end) s
         | Some name \<Rightarrow>
             if name = ''root'' then says [''useradd: user '', quoted ''root'', '' already exists'' @ line_end] s
             else if user_find (acc s) name \<noteq> None
             then says [''useradd: user '', quoted name, '' already exists'' @ line_end] s
             else case ua_pass q of
               Some pass \<Rightarrow> useradd_run name pass (ua_uid q) s
             | None \<Rightarrow> (case read_line MAX_PASSWORD (print ''New password: '' s) of (pw, s) \<Rightarrow>
                 if chr_at pw 0 = NUL then print (''Password cannot be empty'' @ line_end) s
                 else useradd_run name pw (ua_uid q) s)))"

fun userdel_parse :: "bytes list \<Rightarrow> bool \<Rightarrow> bytes option \<Rightarrow> bytes list + bool \<times> bytes option" where
  "userdel_parse [] rmhome nm = Inr (rmhome, nm)"
| "userdel_parse (t # ts) rmhome nm =
     (if t = ''-r'' then userdel_parse ts True nm
      else if chr_at t 0 = CHR ''-'' \<and> chr_at t 1 \<noteq> NUL then Inl [''userdel: unknown option: '', t, line_end]
      else if nm = None then userdel_parse ts rmhome (Some t)
      else Inl [''usage: userdel [-r] <name>'' @ line_end])"

text \<open>The recursive deletion of the home directory may not end; the result is then \<open>None\<close> for every
  \<open>fuel\<close>.\<close>

definition cmd_userdel :: "nat \<Rightarrow> cptr \<Rightarrow> 'a sess_scheme \<Rightarrow> 'a sess_scheme option" where
  "cmd_userdel fuel args s =
     (if cur_uid s \<noteq> 0 then Some (print (''userdel: only root can delete users'' @ line_end) s)
      else case userdel_parse (split_args (arg_buf 256 args) 16) False None of
        Inl ms \<Rightarrow> Some (says ms s)
      | Inr (rmhome, None) \<Rightarrow> Some (print (''usage: userdel [-r] <name>'' @ line_end) s)
      | Inr (rmhome, Some name) \<Rightarrow>
          if name = ''root''
          then Some (says [''userdel: cannot delete the '', quoted ''root'', '' account'' @ line_end] s)
          else case user_del name (acc s, fsys s) of (r, a, f) \<Rightarrow>
            let s = s\<lparr>acc := a, fsys := f\<rparr> in
            if r \<noteq> 0 then Some (says [''userdel: user '', quoted name, '' does not exist'' @ line_end] s)
            else if rmhome \<and> fs_directory_exists (fsys s) (Some (home_path name))
            then map_option (\<lambda>rf. s\<lparr>fsys := snd rf\<rparr>) (fs_delete_directory_recursive fuel (Some (home_path name)) (fsys s))
            else Some s)"

subsection \<open>usermod\<close>

record usermod_opts =
  um_pass :: "bytes option"
  um_newname :: "bytes option"
  um_glist :: "bytes option"
  um_uid :: int
  um_lock :: bool
  um_unlock :: bool
  um_append :: bool
  um_name :: "bytes option"

definition set_opt :: "byte \<Rightarrow> bytes \<Rightarrow> usermod_opts \<Rightarrow> usermod_opts" where
  "set_opt c v q =
     (if c = CHR ''p'' then q\<lparr>um_pass := Some v\<rparr>
      else if c = CHR ''l'' then q\<lparr>um_newname := Some v\<rparr>
      else if c = CHR ''u'' then q\<lparr>um_uid := atoi_safe (Some v)\<rparr>
      else q\<lparr>um_glist := Some v\<rparr>)"

text \<open>The characters of one token of flags, and the tokens after it.\<close>

fun usermod_flags :: "bytes \<Rightarrow> bytes list \<Rightarrow> usermod_opts \<Rightarrow> bytes list + usermod_opts \<times> bytes list" where
  "usermod_flags [] ts q = Inr (q, ts)"
| "usermod_flags (c # fl) ts q =
     (if c = CHR ''a'' then usermod_flags fl ts (q\<lparr>um_append := True\<rparr>)
      else if c = CHR ''L'' then usermod_flags fl ts (q\<lparr>um_lock := True\<rparr>)
      else if c = CHR ''U'' then usermod_flags fl ts (q\<lparr>um_unlock := True\<rparr>)
      else if c = CHR ''p'' \<or> c = CHR ''l'' \<or> c = CHR ''u'' \<or> c = CHR ''G''
      then (if fl \<noteq> [] then Inr (set_opt c fl q, ts)
            else case ts of
              v # ts \<Rightarrow> Inr (set_opt c v q, ts)
            | [] \<Rightarrow> Inl [''usermod: option requires an argument -- '', quoted [c], line_end])
      else Inl [''usermod: invalid option -- '', quoted [c], line_end])"

lemma usermod_flags_length: "usermod_flags fl ts q = Inr (q', ts') \<Longrightarrow> length ts' \<le> length ts"
  by (induction fl ts q rule: usermod_flags.induct) (auto split: if_splits list.splits)

function usermod_parse :: "bytes list \<Rightarrow> usermod_opts \<Rightarrow> bytes list + usermod_opts" where
  "usermod_parse [] q = Inr q"
| "usermod_parse (t # ts) q =
     (if chr_at t 0 \<noteq> CHR ''-'' \<or> chr_at t 1 = NUL
      then (if um_name q = None then usermod_parse ts (q\<lparr>um_name := Some t\<rparr>)
            else Inl [''usage: usermod [-p pass] [-l new] [-u uid] [-aG groups] [-L] [-U] <name>'' @ line_end])
      else case usermod_flags (tl t) ts q of
        Inl ms \<Rightarrow> Inl ms
      | Inr (q, ts) \<Rightarrow> usermod_parse ts q)"
  by pat_completeness auto
termination
  by (relation "measure (\<lambda>(ts, q). length ts)") (auto dest: usermod_flags_length simp: less_Suc_eq_le)

definition comma_list :: "bytes \<Rightarrow> bytes list" where
  "comma_list glist =
     split_args (map (\<lambda>c. if c = CHR '','' then CHR '' '' else c) (take 256 (cstr glist))) 16"

definition rename_user :: "nat \<Rightarrow> bytes \<Rightarrow> bytes \<Rightarrow> accounts \<Rightarrow> accounts" where
  "rename_user idx name newname s =
     (let u = users s idx;
          un = copy_chars (MAX_USERNAME - 1) newname (clear_chars (MAX_USERNAME - 1) (username u));
          un = un[min (length (cstr newname)) (MAX_USERNAME - 1) := NUL];
          s = s\<lparr>users := (users s)(idx := u\<lparr>username := un\<rparr>)\<rparr>
      in foldl (\<lambda>s gi. if group_has_member s gi name
                       then snd (group_member_add gi newname (group_member_remove gi name s)) else s)
           s [0..<groups_count s])"

definition set_password :: "nat \<Rightarrow> bytes \<Rightarrow> accounts \<Rightarrow> accounts" where
  "set_password idx pass s =
     (let u = users s idx;
          pw = copy_chars (MAX_PASSWORD - 1) pass (clear_chars (MAX_PASSWORD - 1) (password u));
          pw = pw[min (length (cstr pass)) (MAX_PASSWORD - 1) := NUL]
      in s\<lparr>users := (users s)(idx := u\<lparr>password := pw\<rparr>)\<rparr>)"

definition change_uid :: "nat \<Rightarrow> int \<Rightarrow> accounts \<times> fs \<Rightarrow> accounts \<times> fs" where
  "change_uid idx new sf =
     (case sf of (s, f) \<Rightarrow>
      let old = uid (users s idx);
          s = s\<lparr>users := (users s)(idx := (users s idx)\<lparr>uid := new\<rparr>)\<rparr>;
          s = (if new \<ge> next_uid s then s\<lparr>next_uid := s32 (new + 1)\<rparr> else s)
      in (s, if old > 0 then snd (fs_reassign_uid old new f) else f))"

definition lock_user :: "nat \<Rightarrow> accounts \<Rightarrow> accounts" where
  "lock_user idx s =
     (let u = users s idx in
      if chr_at (password u) 0 \<noteq> CHR ''!''
      then s\<lparr>users := (users s)(idx := u\<lparr>password :=
             strncpy (password u) (CHR ''!'' # take (MAX_PASSWORD - 2) (cstr (password u))) MAX_PASSWORD\<rparr>)\<rparr>
      else s)"

definition unlock_user :: "nat \<Rightarrow> accounts \<Rightarrow> accounts" where
  "unlock_user idx s =
     (let u = users s idx in
      if chr_at (password u) 0 = CHR ''!''
      then s\<lparr>users := (users s)(idx := u\<lparr>password := take (MAX_PASSWORD - 1) (tl (password u)) @ [NUL]\<rparr>)\<rparr>
      else s)"

definition set_groups :: "nat \<Rightarrow> bool \<Rightarrow> bytes list \<Rightarrow> accounts \<Rightarrow> accounts" where
  "set_groups idx app gv s =
     (let s = (if app then s
               else foldl (\<lambda>s gi. group_member_remove gi (username (users s idx)) s) s [0..<groups_count s])
      in foldl (\<lambda>s g. case group_find s g of
                   None \<Rightarrow> s
                 | Some gi \<Rightarrow> snd (group_member_add gi (username (users s idx)) s)) s gv)"

definition usermod_finish :: "nat \<Rightarrow> usermod_opts \<Rightarrow> bool \<Rightarrow> 'a sess_scheme \<Rightarrow> 'a sess_scheme" where
  "usermod_finish idx q changed s =
     (if um_lock q \<and> uid (users (acc s) idx) = 0 then print (''usermod: cannot lock root'' @ line_end) s
      else let s = (if um_lock q then s\<lparr>acc := lock_user idx (acc s)\<rparr> else s);
               s = (if um_unlock q then s\<lparr>acc := unlock_user idx (acc s)\<rparr> else s);
               s = (case um_glist q of None \<Rightarrow> s
                    | Some gl \<Rightarrow> s\<lparr>acc := set_groups idx (um_append q) (comma_list gl) (acc s)\<rparr>)
           in if \<not> changed \<and> \<not> um_lock q \<and> \<not> um_unlock q \<and> um_glist q = None
              then print (''usermod: no changes specified'' @ line_end) s
              else save_session s)"

definition usermod_change :: "nat \<Rightarrow> bytes \<Rightarrow> usermod_opts \<Rightarrow> 'a sess_scheme \<Rightarrow> 'a sess_scheme" where
  "usermod_change idx name q s =
     (if um_newname q = Some ''root''
      then says [''usermod: name '', quoted ''root'', '' is reserved'' @ line_end] s
      else if um_newname q \<noteq> None \<and> user_find (acc s) (the (um_newname q)) \<noteq> None
      then says [''usermod: user '', quoted (the (um_newname q)), '' already exists'' @ line_end] s
      else let s = (case um_newname q of None \<Rightarrow> s | Some nn \<Rightarrow> s\<lparr>acc := rename_user idx name nn (acc s)\<rparr>);
               s = (case um_pass q of None \<Rightarrow> s | Some pw \<Rightarrow> s\<lparr>acc := set_password idx pw (acc s)\<rparr>);
               s = (if um_uid q > 0
                    then (case change_uid idx (um_uid q) (acc s, fsys s) of (a, f) \<Rightarrow> s\<lparr>acc := a, fsys := f\<rparr>) else s)
           in usermod_finish idx q (um_newname q \<noteq> None \<or> um_pass q \<noteq> None \<or> um_uid q > 0) s)"

definition cmd_usermod :: "cptr \<Rightarrow> 'a sess_scheme \<Rightarrow> 'a sess_scheme" where
  "cmd_usermod args s =
     (if cur_uid s \<noteq> 0 then print (''usermod: only root can modify users'' @ line_end) s
      else case usermod_parse (split_args (arg_buf 512 args) 24)
          \<lparr>um_pass = None, um_newname = None, um_glist = None, um_uid = 0, um_lock = False, um_unlock = False,
           um_append = False, um_name = None\<rparr> of
        Inl ms \<Rightarrow> says ms s
      | Inr q \<Rightarrow>
          if um_name q = None
          then print (''usage: usermod [-p pass] [-l new] [-u uid] [-aG groups] [-L] [-U] <name>'' @ line_end) s
          else if um_append q \<and> um_glist q = None
          then print (''usermod: -a flag is only allowed with the -G flag'' @ line_end) s
          else case (case um_glist q of None \<Rightarrow> None | Some gl \<Rightarrow> find (\<lambda>g. group_find (acc s) g = None) (comma_list gl)) of
            Some g \<Rightarrow> says [''usermod: group '', quoted g, '' does not exist'' @ line_end] s
          | None \<Rightarrow> (case user_find (acc s) (the (um_name q)) of
              None \<Rightarrow> says [''usermod: user '', quoted (the (um_name q)), '' does not exist'' @ line_end] s
            | Some idx \<Rightarrow> usermod_change idx (the (um_name q)) q s))"

subsection \<open>Groups\<close>

definition cmd_groupadd :: "cptr \<Rightarrow> 'a sess_scheme \<Rightarrow> 'a sess_scheme" where
  "cmd_groupadd args s =
     (if cur_uid s \<noteq> 0 then print (''groupadd: only root can create groups'' @ line_end) s
      else case split_args (arg_buf 128 args) 4 of
        [] \<Rightarrow> print (''usage: groupadd <group>'' @ line_end) s
      | name # _ \<Rightarrow>
          if group_find (acc s) name \<noteq> None
          then says [''groupadd: group '', quoted name, '' already exists'' @ line_end] s
          else if groups_count (acc s) \<ge> MAX_GROUPS then print (''groupadd: group table full'' @ line_end) s
          else let a = acc s; dst = groups_count a; g = groups a dst;
                   gn = copy_chars (MAX_USERNAME - 1) name (clear_chars (MAX_USERNAME - 1) (group_name g))
               in save_session (s\<lparr>acc := a\<lparr>groups_count := dst + 1,
                    groups := (groups a)(dst := g\<lparr>group_name := gn, group_count := 0\<rparr>)\<rparr>\<rparr>))"

definition cmd_groupdel :: "cptr \<Rightarrow> 'a sess_scheme \<Rightarrow> 'a sess_scheme" where
  "cmd_groupdel args s =
     (if cur_uid s \<noteq> 0 then print (''groupdel: only root can delete groups'' @ line_end) s
      else case split_args (arg_buf 128 args) 4 of
        [] \<Rightarrow> print (''usage: groupdel <group>'' @ line_end) s
      | name # _ \<Rightarrow>
          (case group_find (acc s) name of
             None \<Rightarrow> says [''groupdel: group '', quoted name, '' does not exist'' @ line_end] s
           | Some gi \<Rightarrow>
               let a = acc s; n = groups_count a;
                   gs = foldl (\<lambda>gs k. gs(k := gs (k + 1))) (groups a) [gi..<n - 1];
                   g = gs (n - 1)
               in save_session (s\<lparr>acc := a\<lparr>groups_count := n - 1,
                    groups := gs(n - 1 := g\<lparr>group_name := (group_name g)[0 := NUL], group_count := 0\<rparr>)\<rparr>\<rparr>)))"

definition cmd_groups :: "cptr \<Rightarrow> 'a sess_scheme \<Rightarrow> 'a sess_scheme" where
  "cmd_groups args s =
     (let name = (case split_args (arg_buf 128 args) 4 of [] \<Rightarrow> cur_username s | n # _ \<Rightarrow> n) in
      if user_find (acc s) name = None
      then says [''groups: user '', quoted name, '' does not exist'' @ line_end] s
      else let s = says [name, '' :''] s;
               s = foldl (\<lambda>s gi. if group_has_member (acc s) gi name
                                 then says ['' '', group_name (groups (acc s) gi)] s else s) s [0..<groups_count (acc s)]
           in print line_end s)"

subsection \<open>passwd\<close>

definition clear_password :: "nat \<Rightarrow> accounts \<Rightarrow> accounts" where
  "clear_password idx a = a\<lparr>users := (users a)(idx := (users a idx)\<lparr>password := replicate MAX_PASSWORD NUL\<rparr>)\<rparr>"

fun passwd_attempts :: "nat \<Rightarrow> nat \<Rightarrow> 'a sess_scheme \<Rightarrow> 'a sess_scheme" where
  "passwd_attempts idx 0 s =
     says [''passwd: Authentication token manipulation error'' @ line_end, ''passwd: password unchanged'' @ line_end] s"
| "passwd_attempts idx (Suc left) s =
     (case read_line MAX_PASSWORD (print ''New password: '' s) of (pw1, s) \<Rightarrow>
      let s = s\<lparr>acc := clear_password idx (acc s)\<rparr> in
      if chr_at pw1 0 = NUL then save_session (print (''passwd: password erased'' @ line_end) s)
      else case read_line MAX_PASSWORD (print ''Retype new password: '' s) of (pw2, s) \<Rightarrow>
        if streq (Some pw1) (Some pw2)
        then let a = acc s; u = users a idx;
                 s = s\<lparr>acc := a\<lparr>users := (users a)(idx := u\<lparr>password := copy_chars (MAX_PASSWORD - 1) pw1 (password u)\<rparr>)\<rparr>\<rparr>
             in save_session (print (''passwd: password updated successfully'' @ line_end) s)
        else passwd_attempts idx left (print (''Sorry, passwords do not match.'' @ line_end) s))"

definition cmd_passwd :: "cptr \<Rightarrow> 'a sess_scheme \<Rightarrow> 'a sess_scheme" where
  "cmd_passwd args s =
     (let name = (case split_args (arg_buf 128 args) 4 of [] \<Rightarrow> cur_username s | n # _ \<Rightarrow> n) in
      case user_find (acc s) name of
        None \<Rightarrow> says [''passwd: user '', quoted name, '' does not exist'' @ line_end] s
      | Some idx \<Rightarrow>
          if \<not> streq (Some name) (Some (cur_username s)) \<and> cur_uid s \<noteq> 0
          then says [''passwd: You may not view or modify password information for '', name, ''.'' @ line_end] s
          else let s = says [''Changing password for '', username (users (acc s) idx), ''.'' @ line_end] s;
                   stored = password (users (acc s) idx);
                   ask = cur_uid s \<noteq> 0 \<and> chr_at stored 0 \<noteq> NUL;
                   typed = (if ask then read_line MAX_PASSWORD (print ''Current password: '' s) else ([], s))
               in if ask \<and> \<not> streq (Some (fst typed)) (Some stored)
                  then says [''passwd: Authentication token manipulation error'' @ line_end,
                             ''passwd: password unchanged'' @ line_end] (snd typed)
                  else passwd_attempts idx 2 (snd typed))"

subsection \<open>Modes\<close>

fun octal_digits :: "nat \<Rightarrow> bytes \<Rightarrow> int \<Rightarrow> nat \<Rightarrow> int \<times> nat" where
  "octal_digits 0 p v i = (v, i)"
| "octal_digits (Suc room) p v i =
     (if 48 \<le> (of_char (chr_at p 0) :: int) \<and> (of_char (chr_at p 0) :: int) \<le> 55
      then octal_digits room (tl p) (v * 8 + (of_char (chr_at p 0) - 48)) (i + 1) else (v, i))"

definition parse_octal :: "bytes \<Rightarrow> int" where
  "parse_octal p = (case octal_digits 4 p 0 0 of (v, i) \<Rightarrow> if i > 0 then v else - 1)"

definition oct_char :: "int \<Rightarrow> byte" where
  "oct_char d = ''01234567'' ! nat (d AND 7)"

definition octal_string :: "int \<Rightarrow> bytes" where
  "octal_string v = [oct_char (drop_bit 6 v), oct_char (drop_bit 3 v), oct_char v]"

text \<open>One clause of a symbolic mode: who (1 user, 2 group, 4 others), the operator, the permissions.\<close>

fun who_bits :: "bytes \<Rightarrow> int \<Rightarrow> int \<times> bytes" where
  "who_bits [] w = (w, [])"
| "who_bits (c # s) w =
     (if c = CHR ''u'' then who_bits s (w OR 1) else if c = CHR ''g'' then who_bits s (w OR 2)
      else if c = CHR ''o'' then who_bits s (w OR 4) else if c = CHR ''a'' then who_bits s (w OR 7)
      else (w, c # s))"

fun perm_bits :: "bytes \<Rightarrow> int \<Rightarrow> int \<times> bytes" where
  "perm_bits [] p = (p, [])"
| "perm_bits (c # s) p =
     (if c = CHR ''r'' then perm_bits s (p OR 4) else if c = CHR ''w'' then perm_bits s (p OR 2)
      else if c = CHR ''x'' then perm_bits s (p OR 1) else (p, c # s))"

definition spread :: "int \<Rightarrow> int \<Rightarrow> int" where
  "spread who perm =
     (if who AND 1 \<noteq> 0 then push_bit 6 perm else 0) OR (if who AND 2 \<noteq> 0 then push_bit 3 perm else 0)
     OR (if who AND 4 \<noteq> 0 then perm else 0)"

definition apply_clause :: "byte \<Rightarrow> int \<Rightarrow> int \<Rightarrow> int \<Rightarrow> int" where
  "apply_clause opr who perm mode =
     (let mask = spread who perm in
      if opr = CHR ''+'' then mode OR mask
      else if opr = CHR ''-'' then mode AND NOT mask
      else (mode AND NOT (spread who 7)) OR mask)"

lemma who_bits_length: "who_bits s w = (w', s') \<Longrightarrow> length s' \<le> length s"
  by (induction s w rule: who_bits.induct) (auto split: if_splits)

lemma perm_bits_length: "perm_bits s p = (p', s') \<Longrightarrow> length s' \<le> length s"
  by (induction s p rule: perm_bits.induct) (auto split: if_splits)

definition parse_clause :: "bytes \<Rightarrow> (byte \<times> int \<times> int \<times> bytes) option" where
  "parse_clause spec =
     (case who_bits spec 0 of (who, spec) \<Rightarrow>
      let who = (if who = 0 then 7 else who); opr = chr_at spec 0 in
      if opr \<noteq> CHR ''+'' \<and> opr \<noteq> CHR ''-'' \<and> opr \<noteq> CHR ''='' then None
      else case perm_bits (tl spec) 0 of (perm, spec) \<Rightarrow> Some (opr, who, perm, spec))"

lemma parse_clause_length: "parse_clause spec = Some (opr, who, perm, r) \<Longrightarrow> length r < length spec"
proof -
  assume p: "parse_clause spec = Some (opr, who, perm, r)"
  obtain w s1 where w: "who_bits spec 0 = (w, s1)" by fastforce
  with p obtain q where q: "perm_bits (tl s1) 0 = (q, r)" "chr_at s1 0 \<noteq> NUL"
    by (auto simp: parse_clause_def Let_def split: if_splits prod.splits)
  then have "s1 \<noteq> []" by auto
  then show ?thesis using perm_bits_length [OF q(1)] who_bits_length [OF w] by (cases s1) auto
qed

function chmod_clauses :: "bytes \<Rightarrow> int \<Rightarrow> int" where
  "chmod_clauses spec mode =
     (if chr_at spec 0 = NUL then mode AND 511
      else case parse_clause spec of
        None \<Rightarrow> - 1
      | Some (opr, who, perm, spec) \<Rightarrow>
          let mode = apply_clause opr who perm mode in
          if chr_at spec 0 = CHR '','' then chmod_clauses (tl spec) mode
          else if chr_at spec 0 \<noteq> NUL then - 1
          else mode AND 511)"
  by pat_completeness auto
termination
  by (relation "measure (\<lambda>(spec, mode). length spec)") (auto dest!: parse_clause_length simp: less_imp_diff_less)

declare chmod_clauses.simps [simp del]

definition chmod_symbolic :: "cptr \<Rightarrow> int \<Rightarrow> int" where
  "chmod_symbolic spec mode =
     (if null_or_empty spec then - 1 else chmod_clauses (the spec) mode)"

subsection \<open>chmod, chown, hostname and the prompt\<close>

definition dash_R :: "bytes list \<Rightarrow> bool \<times> bytes list" where
  "dash_R tv = (let rest = dropWhile (\<lambda>t. t = ''-R'') tv
                in (takeWhile (\<lambda>t. t = ''-R'') tv \<noteq> [], if rest = [] then tv else rest))"

definition mode_failed :: "bytes \<Rightarrow> bytes \<Rightarrow> bytes \<Rightarrow> 'a sess_scheme \<Rightarrow> 'a sess_scheme" where
  "mode_failed cmd what path s =
     (if fs_get_mode (fsys s) (Some path) < 0
      then says [cmd, '': cannot access '', quoted path, '': No such file or directory'' @ line_end] s
      else says [cmd, what, quoted path, '': Operation not permitted'' @ line_end] s)"

fun chmod_paths :: "bool \<Rightarrow> bytes \<Rightarrow> bytes list \<Rightarrow> 'a sess_scheme \<Rightarrow> 'a sess_scheme" where
  "chmod_paths recursive mode [] s = s"
| "chmod_paths recursive mode (path # ps) s =
     (let octal = 48 \<le> (of_char (chr_at mode 0) :: int) \<and> (of_char (chr_at mode 0) :: int) \<le> 55;
          cur = fs_get_mode (fsys s) (Some path);
          m = (if octal then parse_octal mode else chmod_symbolic (Some mode) cur)
      in if \<not> octal \<and> cur < 0
         then chmod_paths recursive mode ps
           (says [''chmod: cannot access '', quoted path, '': No such file or directory'' @ line_end] s)
         else if m < 0 then says [''chmod: invalid mode: '', mode, line_end] s
         else case (if recursive then fs_chmod_recursive (Some path) m (fsys s) else fs_chmod (Some path) m (fsys s)) of
           (rc, f) \<Rightarrow>
           let s = s\<lparr>fsys := f\<rparr>;
               s = (if rc \<noteq> 0 then mode_failed ''chmod'' '': changing permissions of '' path s else s)
           in chmod_paths recursive mode ps s)"

definition cmd_chmod :: "cptr \<Rightarrow> 'a sess_scheme \<Rightarrow> 'a sess_scheme" where
  "cmd_chmod args s =
     (case dash_R (split_args (arg_buf 512 args) 24) of (recursive, tv) \<Rightarrow>
      if length tv < 2 then print (''usage: chmod [-R] <mode> <file>...'' @ line_end) s
      else chmod_paths recursive (hd tv) (tl tv) s)"

fun chown_paths :: "bool \<Rightarrow> int \<Rightarrow> bytes list \<Rightarrow> 'a sess_scheme \<Rightarrow> 'a sess_scheme" where
  "chown_paths recursive owner [] s = s"
| "chown_paths recursive owner (path # ps) s =
     (case (if recursive then fs_chown_recursive (Some path) owner (fsys s) else fs_chown (Some path) owner (fsys s)) of
        (r, f) \<Rightarrow>
        let s = s\<lparr>fsys := f\<rparr>;
            s = (if r \<noteq> 0 then mode_failed ''chown'' '': changing ownership of '' path s else s)
        in chown_paths recursive owner ps s)"

definition cmd_chown :: "cptr \<Rightarrow> 'a sess_scheme \<Rightarrow> 'a sess_scheme" where
  "cmd_chown args s =
     (case dash_R (split_args (arg_buf 512 args) 24) of (recursive, tv) \<Rightarrow>
      if length tv < 2 then print (''usage: chown [-R] <user> <file>...'' @ line_end) s
      else case user_find (acc s) (hd tv) of
        None \<Rightarrow> says [''chown: invalid user: '', hd tv, line_end] s
      | Some idx \<Rightarrow> chown_paths recursive (uid (users (acc s) idx)) (tl tv) s)"

definition users_ensure_homes :: "'a sess_scheme \<Rightarrow> 'a sess_scheme" where
  "users_ensure_homes s =
     foldl (\<lambda>s i. let u = users (acc s) i; home = home_path (username u) in
                  if chr_at (username u) 0 = NUL \<or> fs_directory_exists (fsys s) (Some home) then s
                  else s\<lparr>fsys := snd (fs_create_home_tree home (uid u) (fsys s))\<rparr>) s [1..<users_count (acc s)]"

definition cmd_hostname :: "cptr \<Rightarrow> 'a sess_scheme \<Rightarrow> 'a sess_scheme" where
  "cmd_hostname args s =
     (if \<not> null_or_empty args
      then let k = take (MAX_HOSTNAME - 1) (takeWhile (\<lambda>c. c \<noteq> NUL \<and> c \<noteq> CHR '' '') (the args));
               a = acc s
           in print (''Hostname updated'' @ line_end)
                (save_session (s\<lparr>acc := a\<lparr>hostname := k @ NUL # drop (Suc (length k)) (hostname a)\<rparr>\<rparr>))
      else says [hostname (acc s), line_end] s)"

definition exec_perm_ok :: "bytes \<Rightarrow> bytes \<Rightarrow> 'a sess_scheme \<Rightarrow> bool \<times> 'a sess_scheme" where
  "exec_perm_ok path display s =
     (let mode = fs_get_mode (fsys s) (Some path);
          ok = (if mode AND 73 = 0 then False
                else if fs_cur_uid (fsys s) = 0 then True
                else if fs_cur_uid (fsys s) = fs_get_owner (fsys s) (Some path) then mode AND 64 \<noteq> 0
                else mode AND 1 \<noteq> 0)
      in if mode < 0 then (True, s)
         else if ok then (True, s)
         else (False, says [display, '': Permission denied'' @ line_end] s))"

definition print_prompt_path :: "'a sess_scheme \<Rightarrow> 'a sess_scheme" where
  "print_prompt_path s =
     (let cwd = take 255 (cstr (fs_get_current_path (fsys s))); home = take 95 (cstr (cur_home s)); hl = length home
      in if streq (Some cwd) (Some (cur_home s)) then print ''~'' s
         else if length cwd > hl \<and> chr_at cwd hl = SLASH \<and> take hl cwd = home then says [''~'', drop hl cwd] s
         else print cwd s)"

section \<open>Facts\<close>

named_theorems sess_frame \<open>what printing and reading leave unchanged\<close>

lemma print_frame [simp, sess_frame]:
  "acc (print m s) = acc s" "fsys (print m s) = fsys s" "cur_uid (print m s) = cur_uid s"
  "cur_username (print m s) = cur_username s" "kbd (print m s) = kbd s" "kbd_pos (print m s) = kbd_pos s"
  "cur_home (print m s) = cur_home s" "out (print m s) = out s @ cstr m"
  by (simp_all add: print_def)

lemma says_frame [simp, sess_frame]:
  "acc (says ms s) = acc s" "fsys (says ms s) = fsys s" "cur_uid (says ms s) = cur_uid s"
  "cur_username (says ms s) = cur_username s" "kbd (says ms s) = kbd s" "kbd_pos (says ms s) = kbd_pos s"
  "out (says ms s) = out s @ concat (map cstr ms)"
  by (induction ms arbitrary: s) simp_all

lemma read_line_frame [sess_frame]:
  assumes "read_line n s = (l, t)"
  shows "l = take (n - 1) (cstr (kbd s (kbd_pos s)))" "acc t = acc s" "fsys t = fsys s" "cur_uid t = cur_uid s"
    "cur_username t = cur_username s" "kbd t = kbd s" "kbd_pos t = Suc (kbd_pos s)" "out t = out s"
  using assms by (auto simp: read_line_def)

text \<open>The string the user types at the \<open>k\<close>-th prompt from now on, into a buffer of 32 bytes.\<close>

definition typed :: "'a sess_scheme \<Rightarrow> nat \<Rightarrow> bytes" where
  "typed s k = take 31 (cstr (kbd s (kbd_pos s + k)))"

lemma typed_is_cstring [simp]: "is_cstring (typed s k)" "cstr (typed s k) = typed s k"
  by (simp_all add: typed_def)

lemma read_line_typed: "read_line 32 s = (typed s 0, s\<lparr>kbd_pos := Suc (kbd_pos s)\<rparr>)"
  by (simp add: read_line_def typed_def)

lemma typed_frame [simp]:
  "typed (print m s) k = typed s k" "typed (says ms s) k = typed s k"
  "typed (s\<lparr>kbd_pos := Suc (kbd_pos s)\<rparr>) k = typed s (Suc k)" "typed (s\<lparr>acc := a\<rparr>) k = typed s k"
  by (simp_all add: typed_def)

lemma chr_at_typed: "chr_at (typed s k) 0 = NUL \<longleftrightarrow> typed s k = []"
  by (simp add: chr_at_0_NUL_iff)

lemma set_session_user_frame [simp]:
  "acc (set_session_user i s) = acc s" "cur_uid (set_session_user i s) = uid (users (acc s) i)"
  "fs_cur_uid (fsys (set_session_user i s)) = uid (users (acc s) i)"
  by (simp_all add: set_session_user_def Let_def)

lemma save_session_frame [simp]:
  "users (acc (save_session s)) = users (acc s)" "users_count (acc (save_session s)) = users_count (acc s)"
  "groups (acc (save_session s)) = groups (acc s)" "groups_count (acc (save_session s)) = groups_count (acc s)"
  "next_uid (acc (save_session s)) = next_uid (acc s)" "out (save_session s) = out s"
  "config_saved (acc (save_session s)) = Some (config_t.truncate (acc s))"
  by (simp_all add: save_session_def)

subsection \<open>Logging in\<close>


text \<open>An example session: the account carl with the password \<^verbatim>\<open>secret\<close>, and the lines typed next.\<close>

definition carl_session :: "(nat \<Rightarrow> bytes) \<Rightarrow> int \<Rightarrow> sess" where
  "carl_session lines who =
     \<lparr>acc = carl_accounts, fsys = fresh_fs, cur_username = (if who = 0 then ''root'' else ''carl''), cur_uid = who,
      cur_home = replicate 96 NUL, kbd = lines, kbd_pos = 0, out = []\<rparr>"

definition typing :: "bytes list \<Rightarrow> nat \<Rightarrow> bytes" where
  "typing ls i = (if i < length ls then ls ! i else [])"

lemma carl_session_simps [simp]:
  "acc (carl_session ls w) = carl_accounts" "cur_uid (carl_session ls w) = w" "kbd_pos (carl_session ls w) = 0"
  "kbd (carl_session ls w) = ls" "out (carl_session ls w) = []" "fsys (carl_session ls w) = fresh_fs"
  "cur_username (carl_session ls w) = (if w = 0 then ''root'' else ''carl'')"
  by (simp_all add: carl_session_def)

lemma carl_user:
  "users carl_accounts (Suc 0) = \<lparr>username = ''carl'' @ replicate 28 NUL, password = ''secret'' @ replicate 26 NUL, uid = 1000\<rparr>"
  "users_count carl_accounts = 2" "username (users carl_accounts 0) = ''root'' @ replicate 28 NUL"
  "groups_count carl_accounts = 0" "password (users carl_accounts 0) = replicate 32 NUL" "uid (users carl_accounts 0) = 0"
  by (simp_all add: carl_accounts_def new_user_def new_user_name boot_accounts_def Let_def)

lemma cstr_padded [simp]: "cstr (replicate n NUL) = []" "is_cstring a \<Longrightarrow> 0 < n \<Longrightarrow> cstr (a @ replicate n NUL) = a"
  by (cases n; simp)+

lemma find_carl: "user_find carl_accounts ''carl'' = Some (Suc 0)"
  by (auto simp: user_find_Some carl_user cstr_padded less_Suc_eq)


subsection \<open>Changing passwords\<close>

lemma clear_password_simps [simp]:
  "users (clear_password i a) = (users a)(i := (users a i)\<lparr>password := replicate 32 NUL\<rparr>)"
  "users_count (clear_password i a) = users_count a" "groups (clear_password i a) = groups a"
  "groups_count (clear_password i a) = groups_count a" "next_uid (clear_password i a) = next_uid a"
  by (simp_all add: clear_password_def)

text \<open>What no password change touches.\<close>

definition only_password :: "nat \<Rightarrow> accounts \<Rightarrow> accounts \<Rightarrow> bool" where
  "only_password idx a b \<longleftrightarrow>
     (\<forall>j. j \<noteq> idx \<longrightarrow> users b j = users a j) \<and> username (users b idx) = username (users a idx)
     \<and> uid (users b idx) = uid (users a idx) \<and> users_count b = users_count a \<and> next_uid b = next_uid a
     \<and> groups b = groups a \<and> groups_count b = groups_count a"

lemma only_password_refl [simp]: "only_password i a a"
  by (simp add: only_password_def)

lemma passwd_attempts_only:
  fixes s :: "'a sess_scheme"
  shows "only_password idx (acc s) (acc (passwd_attempts idx n s))"
proof (induction n arbitrary: s)
  case (Suc n)
  have fr: "only_password idx (acc s) (acc (passwd_attempts idx n u))" if "only_password idx (acc s) (acc u)" for u :: "'a sess_scheme"
    using Suc.IH [of u] that unfolding only_password_def by metis
  show ?case by (auto simp: Let_def split: prod.splits dest!: read_line_frame(2) intro!: fr) (auto simp: only_password_def)
qed simp

lemma passwd_own_only:
  fixes s :: "'a sess_scheme"
  assumes "cur_uid s \<noteq> 0"
  shows "acc (cmd_passwd args s) = acc s \<or>
      (\<exists>idx. user_find (acc s) (cur_username s) = Some idx \<and> only_password idx (acc s) (acc (cmd_passwd args s))
        \<and> (cstr (password (users (acc s) idx)) = [] \<or> typed s 0 = cstr (password (users (acc s) idx))))"
proof -
  define name where "name = (case split_args (arg_buf 128 args) 4 of [] \<Rightarrow> cur_username s | n # _ \<Rightarrow> n)"
  note unf = cmd_passwd_def name_def [symmetric] Let_def chr_at_0_NUL_iff read_line_typed
  show ?thesis
  proof (cases "user_find (acc s) name = None \<or> cstr name \<noteq> cstr (cur_username s)")
    case True
    then show ?thesis using assms by (auto simp: unf split: option.splits)
  next
    case False
    then obtain idx where idx: "user_find (acc s) name = Some idx" and n: "cstr name = cstr (cur_username s)" by auto
    have own: "user_find (acc s) (cur_username s) = Some idx" using idx n by (simp add: user_find_def)
    let ?pw = "password (users (acc s) idx)"
    have at: "only_password idx (acc s) (acc (passwd_attempts idx 2 u))" if "acc u = acc s" for u :: "'a sess_scheme"
      using passwd_attempts_only [of idx u 2] that by simp
    show ?thesis
    proof (cases "cstr ?pw = [] \<or> typed s 0 = cstr ?pw")
      case True
      then have "only_password idx (acc s) (acc (cmd_passwd args s))"
        using idx n assms by (auto simp: unf at)
      then show ?thesis using own True by auto
    next
      case False
      then have "acc (cmd_passwd args s) = acc s" using idx n assms by (auto simp: unf)
      then show ?thesis by blast
    qed
  qed
qed

text \<open>C5. \<^verbatim>\<open>passwd\<close> run by a user who is not root changes at most that user's own password, and changes it
  only when the account had no password or the first line typed was the current one. The other account
  commands (\<^verbatim>\<open>useradd\<close>, \<^verbatim>\<open>userdel\<close>, \<^verbatim>\<open>usermod\<close>, \<^verbatim>\<open>groupadd\<close>, \<^verbatim>\<open>groupdel\<close>) change neither accounts nor files
  for such a user.\<close>

theorem accounts_protected:
  assumes "cur_uid s \<noteq> 0"
  shows "(acc (cmd_passwd args s) = acc s \<or>
      (\<exists>idx. user_find (acc s) (cur_username s) = Some idx \<and> only_password idx (acc s) (acc (cmd_passwd args s))
        \<and> (cstr (password (users (acc s) idx)) = [] \<or> typed s 0 = cstr (password (users (acc s) idx)))))
    \<and> acc (cmd_useradd args s) = acc s \<and> fsys (cmd_useradd args s) = fsys s
    \<and> (\<exists>t. cmd_userdel fuel args s = Some t \<and> acc t = acc s \<and> fsys t = fsys s)
    \<and> acc (cmd_usermod args s) = acc s \<and> fsys (cmd_usermod args s) = fsys s
    \<and> acc (cmd_groupadd args s) = acc s \<and> fsys (cmd_groupadd args s) = fsys s
    \<and> acc (cmd_groupdel args s) = acc s \<and> fsys (cmd_groupdel args s) = fsys s"
  using passwd_own_only [OF assms, of args] assms
  by (simp add: cmd_useradd_def cmd_userdel_def cmd_usermod_def cmd_groupadd_def cmd_groupdel_def)

theorem accounts_protected_witness:
  "acc (cmd_passwd (Some ''root'') (carl_session (typing [''guess'']) 1000)) = carl_accounts"
proof -
  let ?s = "carl_session (typing [''guess'']) 1000"
  have "acc (cmd_passwd (Some ''root'') ?s) = acc ?s \<or>
      (\<exists>idx. user_find (acc ?s) (cur_username ?s) = Some idx \<and> only_password idx (acc ?s) (acc (cmd_passwd (Some ''root'') ?s))
        \<and> (cstr (password (users (acc ?s) idx)) = [] \<or> typed ?s 0 = cstr (password (users (acc ?s) idx))))"
    using accounts_protected [of ?s "Some ''root''"] by simp
  then show ?thesis by (auto simp: find_carl carl_user typed_def typing_def)
qed

lemma passwd_two_mismatches:
  assumes "typed s 0 \<noteq> []" "typed s 0 \<noteq> typed s 1" "typed s 2 \<noteq> []" "typed s 2 \<noteq> typed s 3"
  shows "password (users (acc (passwd_attempts idx 2 s)) idx) = replicate 32 NUL"
    "\<exists>o1. out (passwd_attempts idx 2 s) = o1 @ ''passwd: password unchanged'' @ line_end"
    "config_saved (acc (passwd_attempts idx 2 s)) = config_saved (acc s)"
proof -
  have l: "cstr line_end = line_end" by (simp add: line_end_def)
  have e: "passwd_attempts idx 2 s = says [''passwd: Authentication token manipulation error'' @ line_end,
        ''passwd: password unchanged'' @ line_end] u \<and> acc u = clear_password idx (clear_password idx (acc s))"
    if "u = print (''Sorry, passwords do not match.'' @ line_end) (w\<lparr>kbd_pos := Suc (kbd_pos w)\<rparr>)"
      "w = print ''Retype new password: '' (v\<lparr>acc := clear_password idx (acc v)\<rparr>)"
      "v = (print ''New password: '' u1)\<lparr>kbd_pos := Suc (kbd_pos u1)\<rparr>"
      "u1 = print (''Sorry, passwords do not match.'' @ line_end) (w1\<lparr>kbd_pos := Suc (kbd_pos w1)\<rparr>)"
      "w1 = print ''Retype new password: '' (v1\<lparr>acc := clear_password idx (acc v1)\<rparr>)"
      "v1 = (print ''New password: '' s)\<lparr>kbd_pos := Suc (kbd_pos s)\<rparr>" for u v w u1 v1 w1
    using assms that
    by (simp add: numeral_2_eq_2 numeral_3_eq_3 read_line_typed chr_at_0_NUL_iff typed_def Let_def)
  obtain u where u: "passwd_attempts idx 2 s = says [''passwd: Authentication token manipulation error'' @ line_end,
        ''passwd: password unchanged'' @ line_end] u" "acc u = clear_password idx (clear_password idx (acc s))"
    using e by blast
  show "password (users (acc (passwd_attempts idx 2 s)) idx) = replicate 32 NUL"
    "config_saved (acc (passwd_attempts idx 2 s)) = config_saved (acc s)"
    unfolding u(1) by (simp_all add: u(2), simp add: clear_password_def)
  have "out (passwd_attempts idx 2 s) =
      (out u @ ''passwd: Authentication token manipulation error'' @ line_end) @ ''passwd: password unchanged'' @ line_end"
    unfolding u(1) by (simp add: l)
  then show "\<exists>o1. out (passwd_attempts idx 2 s) = o1 @ ''passwd: password unchanged'' @ line_end" by blast
qed

text \<open>When the two new passwords differ twice, \<^verbatim>\<open>passwd\<close> ends with the message that the password is
  unchanged, but it has already blanked it: the account is left without a password, and whoever types
  its name at the next login prompt gets in at once.\<close>

theorem passwd_mismatch_erases:
  assumes root: "cur_uid s = 0" and args: "split_args (arg_buf 128 args) 4 = [name]" and idx: "user_find (acc s) name = Some idx"
    and lines: "typed s 0 \<noteq> []" "typed s 0 \<noteq> typed s 1" "typed s 2 \<noteq> []" "typed s 2 \<noteq> typed s 3"
  shows "cstr (password (users (acc (cmd_passwd args s)) idx)) = []
    \<and> (\<exists>o1. out (cmd_passwd args s) = o1 @ ''passwd: password unchanged'' @ line_end)
    \<and> (\<forall>k. take 31 (cstr (k 0)) = cstr name \<longrightarrow>
         (\<exists>t. login_prompt 1 ((cmd_passwd args s)\<lparr>kbd := k, kbd_pos := 0\<rparr>) = Some t \<and> cur_uid t = uid (users (acc s) idx)))"
proof -
  let ?u = "says [''Changing password for '', username (users (acc s) idx), ''.'' @ line_end] s"
  define t where "t = passwd_attempts idx 2 ?u"
  have run: "cmd_passwd args s = t"
    using root args idx by (simp add: cmd_passwd_def t_def del: passwd_attempts.simps)
  have l: "typed ?u 0 \<noteq> []" "typed ?u 0 \<noteq> typed ?u 1" "typed ?u 2 \<noteq> []" "typed ?u 2 \<noteq> typed ?u 3" using lines by simp_all
  note P = passwd_two_mismatches [OF l, of idx, folded t_def]
  have only: "only_password idx (acc s) (acc t)" using passwd_attempts_only [of idx ?u 2] by (simp add: t_def)
  have "\<exists>v. login_prompt 1 (t\<lparr>kbd := k, kbd_pos := 0\<rparr>) = Some v \<and> cur_uid v = uid (users (acc s) idx)"
    if k: "take 31 (cstr (k 0)) = cstr name" for k
  proof -
    have n: "username (users (acc t) j) = username (users (acc s) j)" for j
      using only by (cases "j = idx") (simp_all add: only_password_def)
    have "users_count (acc t) = users_count (acc s)" using only by (simp add: only_password_def)
    then have f: "user_find (acc t) (cstr name) = Some idx"
      using idx by (simp add: user_find_Some n)
    have "uid (users (acc t) idx) = uid (users (acc s) idx)" using only by (simp add: only_password_def)
    then show ?thesis using f P(1) k by (simp add: read_line_def Let_def chr_at_0_NUL_iff)
  qed
  then show ?thesis unfolding run using P(1,2) by simp
qed

theorem passwd_mismatch_erases_witness:
  "cstr (password (users (acc (cmd_passwd (Some ''carl'') (carl_session (typing [''a'', ''b'', ''c'', ''d'']) 0))) 1)) = []"
proof -
  let ?s = "carl_session (typing [''a'', ''b'', ''c'', ''d'']) 0"
  have a: "split_args (arg_buf 128 (Some ''carl'')) 4 = [''carl'']" by code_simp
  have l: "typed ?s 0 = ''a''" "typed ?s 1 = ''b''" "typed ?s 2 = ''c''" "typed ?s 3 = ''d''"
    by (simp_all add: typed_def typing_def)
  show ?thesis using passwd_mismatch_erases [of ?s "Some ''carl''" "''carl''" "Suc 0"] a l find_carl by simp
qed

subsection \<open>Locking\<close>

text \<open>\<^verbatim>\<open>usermod -L\<close> locks an account by putting an exclamation mark in front of the stored password; the
  login prompt compares plain text, so the account still opens for whoever types the mark and the old
  password. Unlocking restores a password of at most 30 characters.\<close>

theorem locked_account_still_opens:
  assumes idx: "user_find (acc s) name = Some idx" and len: "length (password (users (acc s) idx)) = 32"
    and pw: "cstr (password (users (acc s) idx)) = pw" "length pw \<le> 30" "chr_at pw 0 \<noteq> CHR ''!''"
    and typed: "typed s 0 = cstr name" "typed s 1 = CHR ''!'' # pw"
  shows "(\<exists>t. login_prompt 1 (s\<lparr>acc := lock_user idx (acc s)\<rparr>) = Some t \<and> cur_uid t = uid (users (acc s) idx))
    \<and> cstr (password (users (unlock_user idx (lock_user idx (acc s))) idx)) = pw"
proof -
  let ?a = "acc s" and ?p = "password (users (acc s) idx)"
  have c: "chr_at ?p 0 = chr_at pw 0" using pw(1) by (cases ?p) (auto split: if_splits)
  have isc: "is_cstring pw" using pw(1) by auto
  have sn: "strncpy_from d (q @ replicate k NUL) n = q @ replicate (n - length q) NUL"
    if "is_cstring q" "length q \<le> n" "length d = n" for d q n and k :: nat
    using that
  proof (induction n arbitrary: d q)
    case (Suc n)
    then show ?case by (cases q; cases d; cases k) (auto simp: replicate_append_same)
  qed auto
  have lp: "password (users (lock_user idx ?a) idx) = CHR ''!'' # pw @ replicate (31 - length pw) NUL"
    using sn [of "CHR ''!'' # pw" 32 ?p 0] isc pw len c by (simp add: lock_user_def strncpy_def Let_def)
  have lu: "username (users (lock_user idx ?a) j) = username (users ?a j)" "users_count (lock_user idx ?a) = users_count ?a"
    "uid (users (lock_user idx ?a) j) = uid (users ?a j)" "hostname (lock_user idx ?a) = hostname ?a" for j
    by (simp_all add: lock_user_def Let_def)
  have f: "user_find (lock_user idx ?a) (cstr name) = Some idx" using idx by (simp add: user_find_Some lu)
  have cl: "cstr (CHR ''!'' # pw @ replicate (31 - length pw) NUL) = CHR ''!'' # pw"
    using cstr_padded(2) [of pw "31 - length pw"] isc pw(2) by simp
  have "\<exists>t. login_prompt 1 (s\<lparr>acc := lock_user idx ?a\<rparr>) = Some t \<and> cur_uid t = uid (users ?a idx)"
    using f lp cl typed lu(3) by (simp add: read_line_typed Let_def typed_def del: cstr_padded)
  moreover have "cstr (password (users (unlock_user idx (lock_user idx ?a)) idx)) = pw"
    using cstr_padded(2) [of pw "Suc (31 - length pw)"] isc pw(2)
    by (simp add: unlock_user_def lp Let_def replicate_append_same)
  ultimately show ?thesis by blast
qed

theorem locked_account_still_opens_witness:
  "\<exists>t. login_prompt 1 ((carl_session (typing [''carl'', ''!secret'']) 0)\<lparr>acc := lock_user 1 carl_accounts\<rparr>) = Some t
    \<and> cur_uid t = 1000"
proof -
  let ?s = "carl_session (typing [''carl'', ''!secret'']) 0"
  have l: "typed ?s 0 = ''carl''" "typed ?s 1 = ''!secret''" by (simp_all add: typed_def typing_def)
  show ?thesis
    using locked_account_still_opens [of ?s "''carl''" "Suc 0" "''secret''"] l by (simp add: find_carl carl_user)
qed

subsection \<open>sudo\<close>

definition may_sudo :: "'a sess_scheme \<Rightarrow> bool" where
  "may_sudo s \<longleftrightarrow>
     (case group_find (acc s) ''wheel'' of
        None \<Rightarrow> True
      | Some w \<Rightarrow> snd (view_group (groups (acc s) w)) = [] \<or> cstr (cur_username s) \<in> set (snd (view_group (groups (acc s) w))))"

lemma sudo_tries_guarded:
  assumes "acc (sudo_tries run args self n s) \<noteq> acc s \<or> fsys (sudo_tries run args self n s) \<noteq> fsys s"
  shows "\<exists>k<n. typed s k = cstr (password (users (acc s) self)) \<and> typed s k \<noteq> []"
  using assms
proof (induction n arbitrary: s)
  case (Suc n)
  let ?s1 = "says [''[sudo] password for '', cur_username s, '': ''] s"
  let ?s2 = "?s1\<lparr>kbd_pos := Suc (kbd_pos ?s1)\<rparr>"
  let ?pw = "cstr (password (users (acc s) self))"
  show ?case
  proof (cases "typed s 0 = ?pw \<and> typed s 0 \<noteq> []")
    case True
    then show ?thesis by blast
  next
    case False
    define u where "u = (if n \<noteq> 0 then print (''Sorry, try again.'' @ line_end) ?s2 else ?s2)"
    have u: "acc u = acc s" "fsys u = fsys s" "\<And>k. typed u k = typed s (Suc k)" by (simp_all add: u_def typed_def)
    have "typed s 0 \<noteq> []"
      using Suc.prems by (auto simp: read_line_typed Let_def chr_at_0_NUL_iff)
    then have "sudo_tries run args self (Suc n) s = sudo_tries run args self n u"
      using False by (auto simp: read_line_typed Let_def chr_at_0_NUL_iff u_def)
    then show ?thesis using Suc.IH [of u] Suc.prems u by auto
  qed
qed simp

text \<open>C25. \<^verbatim>\<open>sudo\<close> run by a user who is not root has an effect on accounts or files only if the user may use it
  (the group \<^verbatim>\<open>wheel\<close> does not exist, is empty or has the user as a member) and one of the first three lines
  typed is the user's own, non-empty password.\<close>

theorem sudo_guarded:
  assumes "cur_uid s \<noteq> 0" "acc (cmd_sudo run args s) \<noteq> acc s \<or> fsys (cmd_sudo run args s) \<noteq> fsys s"
  shows "may_sudo s \<and> (\<exists>self k. user_find (acc s) (cur_username s) = Some self \<and> k < 3
    \<and> typed s k = cstr (password (users (acc s) self)) \<and> typed s k \<noteq> [])"
proof -
  let ?w = "group_find (acc s) ''wheel''"
  have w: "(?w \<noteq> None \<and> group_count (groups (acc s) (the ?w)) > 0 \<and> \<not> group_has_member (acc s) (the ?w) (cur_username s)) = (\<not> may_sudo s)"
    by (cases ?w) (auto simp: may_sudo_def group_has_member_iff view_group_def)
  have m: "may_sudo s" using assms unfolding cmd_sudo_def Let_def w by (auto split: if_splits)
  then obtain self where self: "user_find (acc s) (cur_username s) = Some self"
    using assms unfolding cmd_sudo_def Let_def w by (cases "user_find (acc s) (cur_username s)") (auto split: if_splits)
  have "cmd_sudo run args s = sudo_tries run (the args) self 3 s"
    using assms m self unfolding cmd_sudo_def Let_def w by (auto split: if_splits)
  then show ?thesis using sudo_tries_guarded [of run "the args" self 3 s] assms(2) m self by auto
qed

theorem sudo_guarded_witness:
  "\<exists>k<3. typed (carl_session (typing [''guess'', ''secret'']) 1000) k = ''secret''"
proof -
  let ?s = "carl_session (typing [''guess'', ''secret'']) 1000"
  let ?run = "\<lambda>args s. s\<lparr>acc := config_reset (acc s)\<rparr>"
  have n: "users_count (config_reset carl_accounts) = 1"
    by (simp add: config_reset_def users_reset_table_def Let_def)
  have "group_find carl_accounts ''wheel'' = None" by (simp add: group_find_def carl_user)
  then have "acc (cmd_sudo ?run (Some ''x'') ?s) = config_reset carl_accounts"
    by (simp add: cmd_sudo_def null_or_empty_def find_carl numeral_3_eq_3 read_line_typed Let_def typed_def typing_def
        carl_user chr_at_0_NUL_iff)
  then have "acc (cmd_sudo ?run (Some ''x'') ?s) \<noteq> acc ?s" using n carl_user(2) by (metis carl_session_simps(1) n_not_Suc_n numeral_2_eq_2 One_nat_def)
  then show ?thesis using sudo_guarded [of ?s ?run "Some ''x''"] by (auto simp: find_carl carl_user)
qed

subsection \<open>Modes\<close>

lemma and_511_range: "0 \<le> (m :: int) AND 511 \<and> m AND 511 \<le> 511"
  using mask_nonnegative_int [of 9] by (metis AND_upper2 and_nonnegative_int_iff zero_le_numeral)

text \<open>A symbolic mode specification yields either an error or a mode between 0 and 0777, whatever the
  current mode is, and every permission mode survives being printed in octal and parsed again.\<close>

theorem chmod_modes:
  shows "(chmod_symbolic spec mode = - 1 \<or> 0 \<le> chmod_symbolic spec mode \<and> chmod_symbolic spec mode \<le> 511)
    \<and> parse_octal (octal_string (mode AND 511)) = mode AND 511"
proof -
  have c: "chmod_clauses sp m = - 1 \<or> 0 \<le> chmod_clauses sp m \<and> chmod_clauses sp m \<le> 511" for sp m
  proof (induction sp m rule: chmod_clauses.induct)
    case (1 spec mode)
    then show ?case using and_511_range
      by (subst (1 2 3) chmod_clauses.simps) (auto simp: Let_def split: option.splits)
  qed
  have o: "parse_octal (octal_string v) = v" if "0 \<le> v" "v < 512" for v
  proof -
    have "v div 8 div 8 = v div 64" using zdiv_zmult2_eq [of 8 v 8] by simp
    moreover have "v mod 8 + 8 * (v div 8) = v" "v div 8 mod 8 + 8 * (v div 8 div 8) = v div 8"
      by (simp_all only: mod_mult_div_eq)
    moreover have "v div 64 mod 8 = v div 64" using that by (intro mod_pos_pos_trivial) auto
    ultimately have d: "64 * (v div 64 mod 8) + 8 * (v div 8 mod 8) + v mod 8 = v" by linarith
    have cases: "\<And>x. 0 \<le> x \<Longrightarrow> x < (8 :: int) \<Longrightarrow> x \<in> {0, 1, 2, 3, 4, 5, 6, 7}" by auto
    have "x AND 7 = take_bit 3 x" for x :: int by (simp add: take_bit_eq_mask mask_eq_exp_minus_1)
    then have a7: "x AND 7 = x mod 8" for x :: int by (simp add: take_bit_eq_mod)
    have ch: "(of_char (oct_char x) :: int) = 48 + x mod 8" for x
      using cases [of "x mod 8"] unfolding oct_char_def a7 by auto
    have "(48 \<le> 48 + x mod 8 \<and> 48 + x mod 8 \<le> 55) = True" for x :: int using pos_mod_bound [of 8 x] by simp
    moreover have "4 = Suc (Suc (Suc (Suc 0)))" "2 ^ 6 = (64 :: int)" "2 ^ 3 = (8 :: int)" by simp_all
    ultimately have "octal_digits 4 (octal_string v) 0 0 = (((0 * 8 + (48 + v div 64 mod 8 - 48)) * 8 + (48 + v div 8 mod 8 - 48)) * 8
        + (48 + v mod 8 - 48), 3)"
      unfolding octal_string_def drop_bit_eq_div by (simp only: octal_digits.simps chr_at_simps list.sel ch if_True) simp
    then have "parse_octal (octal_string v) = ((0 * 8 + (48 + v div 64 mod 8 - 48)) * 8 + (48 + v div 8 mod 8 - 48)) * 8
        + (48 + v mod 8 - 48)"
      unfolding parse_octal_def by (simp only: prod.case zero_less_numeral if_True)
    moreover have "64 * a + 8 * b + c = v \<Longrightarrow> w = ((0 * 8 + (48 + a - 48)) * 8 + (48 + b - 48)) * 8 + (48 + c - 48) \<Longrightarrow> w = v"
      for a b c w :: int by simp
    ultimately show ?thesis using d by blast
    qed
  show ?thesis using c o [of "mode AND 511"] and_511_range [of mode] by (auto simp: chmod_symbolic_def)
qed

subsection \<open>Renaming root\<close>

text \<open>The comment on the account table says that slot 0 is always root; \<^verbatim>\<open>usermod -l\<close> renames it like any
  other account, and no account named root is left.\<close>

theorem root_can_be_renamed:
  "user_find (acc (cmd_usermod (Some ''-l admin root'') (carl_session lines 0))) ''root'' = None
   \<and> user_find (acc (cmd_usermod (Some ''-l admin root'') (carl_session lines 0))) ''admin'' = Some 0"
proof -
  let ?s = "carl_session lines 0"
  let ?q = "\<lparr>um_pass = None, um_newname = Some ''admin'', um_glist = None, um_uid = 0, um_lock = False,
      um_unlock = False, um_append = False, um_name = Some ''root''\<rparr>"
  have p: "usermod_parse (split_args (arg_buf 512 (Some ''-l admin root'')) 24)
      \<lparr>um_pass = None, um_newname = None, um_glist = None, um_uid = 0, um_lock = False, um_unlock = False,
       um_append = False, um_name = None\<rparr> = Inr ?q" by code_simp
  have r: "user_find carl_accounts ''root'' = Some 0" by (auto simp: user_find_Some carl_user)
  have a: "user_find carl_accounts ''admin'' = None"
    using carl_accounts_ok(2) by (simp add: user_find_None)
  let ?a = "rename_user 0 ''root'' ''admin'' carl_accounts"
  have run: "cmd_usermod (Some ''-l admin root'') ?s = save_session (?s\<lparr>acc := ?a\<rparr>)"
    using p r a by (simp add: cmd_usermod_def usermod_change_def usermod_finish_def)
  have n: "is_name (''root'' @ replicate 28 NUL)" by (simp add: is_name_def nth_append)
  have u0: "username (users ?a 0) = ''admin'' @ replicate 27 NUL" "users_count ?a = 2"
    "username (users ?a (Suc 0)) = ''carl'' @ replicate 28 NUL"
    using copy_cleared [OF n, of "''admin''"]
    by (simp_all add: rename_user_def carl_user Let_def numeral_eq_Suc)
  then show ?thesis unfolding run
    by (auto simp: user_find_Some user_find_None view_users_def view_user_def numeral_2_eq_2)
qed

end
