(* ===== verification/Store.thy ===== *)
theory Store
  imports Accounts
begin

section \<open>Persistence (kernel/store.c)\<close>

text \<open>
  The store writes the Storefile, a header of 16 bytes followed by the images of the filesystem and of the
  accounts, to a region at the end of the disk, through a staging buffer of 64 KiB, and reads it back at
  boot.

  The drivers (\<^verbatim>\<open>ata.c\<close>, \<^verbatim>\<open>ahci.c\<close>) work on device registers and are represented by what they promise: a
  \<open>drive\<close> has its bytes, and for each transfer an error code, 0 when the sectors are transferred; a failed
  write may have transferred some of its sectors (\<open>wr_torn\<close>). The build number of the kernel, in the
  generated \<^verbatim>\<open>build_id.h\<close>, is a parameter, kept in the state (\<open>build_lo\<close>, \<open>build_hi\<close>).

  The writer retries a batch whose write failed without end; it is a partial function whose value \<open>None\<close>
  means that the call never returns.
\<close>

abbreviation (input) STORE_RESERVED_TAIL_SECTORS :: nat where "STORE_RESERVED_TAIL_SECTORS \<equiv> 16"
abbreviation (input) STORE_FRONT_RESERVE_SECTORS :: nat where "STORE_FRONT_RESERVE_SECTORS \<equiv> 16384"
abbreviation (input) STORE_STAGE_BYTES :: nat where "STORE_STAGE_BYTES \<equiv> 65536"
abbreviation (input) STORE_HEADER_BYTES :: nat where "STORE_HEADER_BYTES \<equiv> 16"

datatype store_backend_t = BACKEND_NONE | BACKEND_ATA | BACKEND_AHCI

record drive =
  content :: mem
  rd_err :: "nat \<Rightarrow> nat \<Rightarrow> int"
  wr_err :: "nat \<Rightarrow> nat \<Rightarrow> int"
  wr_torn :: "nat \<Rightarrow> nat \<Rightarrow> nat"

record store =
  store_lba :: nat
  store_stage :: bytes
  store_cfgbuf :: bytes
  store_enabled :: bool
  store_sectors :: nat
  store_capacity_sectors :: nat
  store_fs_need :: nat
  store_cfg_need :: nat
  store_disk_sectors :: nat
  store_channel :: nat
  store_drive :: nat
  backend :: store_backend_t
  drv :: drive
  build_lo :: nat
  build_hi :: nat

definition bytes_to_sectors :: "nat \<Rightarrow> nat" where
  "bytes_to_sectors n = u32 (n + 511) div 512"

definition store_min_disk_sectors :: "store \<Rightarrow> nat" where
  "store_min_disk_sectors s =
     store_capacity_sectors s + STORE_RESERVED_TAIL_SECTORS + STORE_FRONT_RESERVE_SECTORS"

definition store_mib_ceil :: "nat \<Rightarrow> nat" where
  "store_mib_ceil sectors = u32 ((sectors * 512 + 1048576 - 1) div 1048576)"

definition store_mib_floor :: "nat \<Rightarrow> nat" where
  "store_mib_floor sectors = u32 (sectors * 512 div 1048576)"

subsection \<open>Sectors\<close>

definition drive_read :: "nat \<Rightarrow> nat \<Rightarrow> drive \<Rightarrow> int \<times> bytes" where
  "drive_read lba n d = (rd_err d lba n, if rd_err d lba n = 0 then map (content d) [512 * lba..<512 * (lba + n)] else [])"

definition put_bytes :: "mem \<Rightarrow> nat \<Rightarrow> bytes \<Rightarrow> mem" where
  "put_bytes m a b = (\<lambda>i. if a \<le> i \<and> i < a + length b then b ! (i - a) else m i)"

definition drive_write :: "nat \<Rightarrow> nat \<Rightarrow> bytes \<Rightarrow> drive \<Rightarrow> int \<times> drive" where
  "drive_write lba n b d =
     (let k = (if wr_err d lba n = 0 then n else min n (wr_torn d lba n))
      in (wr_err d lba n, d\<lparr>content := put_bytes (content d) (512 * lba) (take (512 * k) b)\<rparr>))"

text \<open>The loops over chunks of at most 255 sectors; the buffer pointer is the rest of the buffer.\<close>

function read_chunks :: "store_backend_t \<Rightarrow> drive \<Rightarrow> nat \<Rightarrow> nat \<Rightarrow> int \<times> bytes" where
  "read_chunks be d lba count =
     (if count = 0 then (0, [])
      else if be = BACKEND_NONE then (- 1, [])
      else let chunk = (if count > 255 then 255 else count)
           in case drive_read lba chunk d of (rc, b) \<Rightarrow>
              if rc \<noteq> 0 then (rc, b)
              else case read_chunks be d (u32 (lba + chunk)) (count - chunk) of (rc, r) \<Rightarrow> (rc, b @ r))"
  by pat_completeness auto
termination
  by (relation "measure (\<lambda>(be, d, lba, count). count)") auto

declare read_chunks.simps [simp del]

function write_chunks :: "store_backend_t \<Rightarrow> drive \<Rightarrow> nat \<Rightarrow> nat \<Rightarrow> bytes \<Rightarrow> int \<times> drive" where
  "write_chunks be d lba count b =
     (if count = 0 then (0, d)
      else if be = BACKEND_NONE then (- 1, d)
      else let chunk = (if count > 255 then 255 else count)
           in case drive_write lba chunk b d of (rc, d) \<Rightarrow>
              if rc \<noteq> 0 then (rc, d)
              else write_chunks be d (u32 (lba + chunk)) (count - chunk) (drop (chunk * 512) b))"
  by pat_completeness auto
termination
  by (relation "measure (\<lambda>(be, d, lba, count, b). count)") auto

declare write_chunks.simps [simp del]

definition store_backend_read :: "nat \<Rightarrow> nat \<Rightarrow> store \<Rightarrow> int \<times> bytes" where
  "store_backend_read lba count s =
     (if count = 0 then (- 1, [])
      else if lba + count > store_disk_sectors s then (- 1, [])
      else read_chunks (backend s) (drv s) lba count)"

definition store_backend_write :: "nat \<Rightarrow> nat \<Rightarrow> bytes \<Rightarrow> store \<Rightarrow> int \<times> store" where
  "store_backend_write lba count b s =
     (if count = 0 then (- 1, s)
      else if lba + count > store_disk_sectors s then (- 1, s)
      else case write_chunks (backend s) (drv s) lba count b of (rc, d) \<Rightarrow> (rc, s\<lparr>drv := d\<rparr>))"

subsection \<open>The header\<close>

definition store_write_header :: "store \<Rightarrow> nat \<Rightarrow> bytes" where
  "store_write_header s payload_bytes =
     ''TJS1'' @ le32_bytes payload_bytes @ le32_bytes (build_lo s) @ le32_bytes (build_hi s)"

definition store_header_valid_at :: "bytes \<Rightarrow> bool" where
  "store_header_valid_at b \<longleftrightarrow>
     chr_at b 0 = CHR ''T'' \<and> chr_at b 1 = CHR ''J'' \<and> chr_at b 2 = CHR ''S'' \<and> chr_at b 3 = CHR ''1''"

definition store_header_matches_build_at :: "store \<Rightarrow> bytes \<Rightarrow> bool" where
  "store_header_matches_build_at s b \<longleftrightarrow> le32_at (drop 8 b) = build_lo s \<and> le32_at (drop 12 b) = build_hi s"

subsection \<open>Reading the image\<close>

record store_rd_ctx =
  rd_off :: nat
  rd_end :: nat
  win_off :: nat
  win_len :: nat

definition u32_sub :: "nat \<Rightarrow> nat \<Rightarrow> nat" where
  "u32_sub a b = u32 (a + 4294967296 - b)"

text \<open>The window is refilled when the next byte is not in it.\<close>

definition rd_refill :: "store_rd_ctx \<Rightarrow> store \<Rightarrow> (store_rd_ctx \<times> store) option" where
  "rd_refill c s =
     (let sec = rd_off c div 512;
          max_secs = u32 (u32_sub (rd_end c) (sec * 512) + 511) div 512;
          n = (if max_secs < 128 then max_secs else 128);
          n = (if n < 1 then 1 else n)
      in case store_backend_read (u32 (store_lba s + sec)) n s of (rc, b) \<Rightarrow>
         if rc \<noteq> 0 then None
         else Some (c\<lparr>win_off := sec * 512, win_len := n * 512\<rparr>, s\<lparr>store_stage := overlay (store_stage s) b\<rparr>))"

definition rd_window :: "store_rd_ctx \<Rightarrow> store \<Rightarrow> (store_rd_ctx \<times> store) option" where
  "rd_window c s =
     (if win_len c = 0 \<or> u32_sub (rd_off c) (win_off c) \<ge> win_len c then rd_refill c s else Some (c, s))"

lemma u32_sub_sector [simp]: "u32_sub a (a div 512 * 512) = a mod 512"
proof -
  have "a + 4294967296 - a div 512 * 512 = a mod 512 + 4294967296" using div_mult_mod_eq [of a 512] by linarith
  then show ?thesis by (simp add: u32_sub_def u32_def)
qed

lemma u32_sub_le: "b \<le> a \<Longrightarrow> a < 4294967296 \<Longrightarrow> u32_sub a b = a - b"
proof -
  assume "b \<le> a" "a < 4294967296"
  then have e: "a + 4294967296 - b = a - b + 4294967296" "a - b < 4294967296" by linarith+
  then show ?thesis unfolding u32_sub_def e(1) u32_def by simp
qed

lemma rd_window_progress:
  assumes "rd_window c s = Some (c', s')"
  shows "u32_sub (rd_off c') (win_off c') < win_len c'" "rd_off c' = rd_off c" "rd_end c' = rd_end c"
proof -
  have n: "a mod 512 < (if k < 1 then 1 else k) * 512" for a k :: nat
    using mod_less_divisor [of 512 a] by (cases k) auto
  from assms n show "u32_sub (rd_off c') (win_off c') < win_len c'" "rd_off c' = rd_off c" "rd_end c' = rd_end c"
    by (auto simp: rd_window_def rd_refill_def Let_def split: if_splits prod.splits)
qed

text \<open>\<^verbatim>\<open>store_rd_fill\<close>: whether it could deliver, the bytes stored through \<^verbatim>\<open>dst\<close>, and the next state.\<close>

function store_rd_fill :: "store_rd_ctx \<times> store \<Rightarrow> nat \<Rightarrow> bool \<times> bytes \<times> store_rd_ctx \<times> store" where
  "store_rd_fill cs len =
     (if len = 0 then (True, [], cs)
      else if u32 (rd_off (fst cs) + len) > rd_end (fst cs) then (False, [], cs)
      else case rd_window (fst cs) (snd cs) of
        None \<Rightarrow> (False, [], cs)
      | Some (c, s) \<Rightarrow>
          let off_in_win = u32_sub (rd_off c) (win_off c);
              k = min (win_len c - off_in_win) len;
              b = map (chr_at (drop off_in_win (store_stage s))) [0..<k]
          in case store_rd_fill (c\<lparr>rd_off := u32 (rd_off c + k)\<rparr>, s) (len - k) of
               (ok, r, cs) \<Rightarrow> (ok, b @ r, cs))"
  by pat_completeness auto
termination
  by (relation "measure (\<lambda>(cs, len). len)") (auto dest: rd_window_progress(1))

declare store_rd_fill.simps [simp del]

subsection \<open>Writing the image\<close>

record store_wr_ctx =
  wr_off :: nat
  staged :: nat
  start_off :: nat
  wr_failed :: bool

definition store_wr_flush :: "store_wr_ctx \<Rightarrow> store \<Rightarrow> int \<times> store_wr_ctx \<times> store" where
  "store_wr_flush c s =
     (if staged c = 0 then (0, c, s)
      else let secs = u32 (staged c + 511) div 512;
               pad = secs * 512 - staged c;
               s = s\<lparr>store_stage := take (staged c) (store_stage s) @ replicate pad NUL
                       @ drop (staged c + pad) (store_stage s)\<rparr>
           in case store_backend_write (u32 (store_lba s + start_off c div 512)) secs (store_stage s) s of (rc, s) \<Rightarrow>
              if rc \<noteq> 0 then (- 1, c\<lparr>wr_failed := True\<rparr>, s)
              else (0, c\<lparr>staged := 0\<rparr>, s))"

text \<open>One round of the loop of \<^verbatim>\<open>store_wr_sink\<close> up to the flush: the bytes that fit are staged.\<close>

definition stage_some :: "store_wr_ctx \<Rightarrow> bytes \<Rightarrow> store \<Rightarrow> store_wr_ctx \<times> bytes \<times> store" where
  "stage_some c data s =
     (let c = (if staged c = 0 then c\<lparr>start_off := wr_off c\<rparr> else c);
          k = min (STORE_STAGE_BYTES - staged c) (length data);
          s = s\<lparr>store_stage := take (staged c) (store_stage s) @ take k data @ drop (staged c + k) (store_stage s)\<rparr>
      in (c\<lparr>staged := staged c + k, wr_off := u32 (wr_off c + k)\<rparr>, drop k data, s))"

partial_function (option) store_wr_sink :: "store_wr_ctx \<Rightarrow> bytes \<Rightarrow> store \<Rightarrow> (store_wr_ctx \<times> store) option" where
  "store_wr_sink c data s =
     (if data = [] then Some (c, s)
      else case stage_some c data s of (c, data, s) \<Rightarrow>
        if staged c = STORE_STAGE_BYTES
        then (case store_wr_flush c s of (rc, c, s) \<Rightarrow> store_wr_sink c data s)
        else store_wr_sink c data s)"

text \<open>The callback the filesystem's serializer gets.\<close>

definition wr_emit :: "(store_wr_ctx \<times> store) option \<Rightarrow> bytes \<Rightarrow> (store_wr_ctx \<times> store) option" where
  "wr_emit cs data = (case cs of None \<Rightarrow> None | Some (c, s) \<Rightarrow> store_wr_sink c data s)"

text \<open>\<^verbatim>\<open>store_autosave\<close>: after the last flush the header is read back, and only a matching header leaves
  persistence enabled.\<close>

definition store_verify :: "nat \<Rightarrow> store \<Rightarrow> store" where
  "store_verify payload s =
     (case store_backend_read (store_lba s) 1 s of (rc, chk) \<Rightarrow>
      s\<lparr>store_enabled := (rc = 0 \<and> store_header_valid_at chk \<and> le32_at (drop 4 chk) = payload)\<rparr>)"

definition store_finish :: "nat \<Rightarrow> nat \<Rightarrow> accounts \<Rightarrow> store_wr_ctx \<times> store \<Rightarrow> store option" where
  "store_finish payload sectors a cs =
     (case cs of (c, s) \<Rightarrow>
      case config_serialize (Some (store_cfgbuf s)) 16384 a of (rc, buf) \<Rightarrow>
      let s = s\<lparr>store_cfgbuf := the buf\<rparr> in
      if rc \<noteq> 0 then Some s
      else case store_wr_sink c (data_bytes (store_cfgbuf s) (store_cfg_need s)) s of
        None \<Rightarrow> None
      | Some (c, s) \<Rightarrow>
          (case store_wr_flush c s of (rc, c, s) \<Rightarrow>
           if rc \<noteq> 0 \<or> wr_failed c then Some s
           else Some (store_verify payload (s\<lparr>store_sectors := sectors\<rparr>))))"

definition store_autosave :: "fs \<Rightarrow> accounts \<Rightarrow> store \<Rightarrow> store option" where
  "store_autosave f a s =
     (if \<not> store_enabled s then Some s
      else let fs_bytes = fs_serialized_size f;
               payload = u32 (fs_bytes + store_cfg_need s);
               total = u32 (STORE_HEADER_BYTES + payload);
               sectors = bytes_to_sectors total
           in if fs_bytes > store_fs_need s \<or> payload > u32_sub (u32 (store_capacity_sectors s * 512)) STORE_HEADER_BYTES
                 \<or> sectors > store_capacity_sectors s
              then Some s
              else let c = \<lparr>wr_off = 0, staged = 0, start_off = 0, wr_failed = False\<rparr>;
                       cs = wr_emit (Some (c, s)) (store_write_header s payload);
                       cs = fs_serialize_sink wr_emit cs f
                   in case cs of None \<Rightarrow> None | Some cs \<Rightarrow> store_finish payload sectors a cs)"

definition store_is_persistent :: "store \<Rightarrow> bool" where
  "store_is_persistent s = store_enabled s"

subsection \<open>The boot command line\<close>

definition fold_case :: "byte \<Rightarrow> nat" where
  "fold_case c = of_char c OR 32"

definition word_here :: "bytes \<Rightarrow> bytes \<Rightarrow> bool" where
  "word_here s w \<longleftrightarrow> list_all (\<lambda>i. fold_case (chr_at s i) = fold_case (chr_at w i)) [0..<length (cstr w)]"

fun has_word_from :: "bytes \<Rightarrow> bytes \<Rightarrow> bool" where
  "has_word_from [] w = False"
| "has_word_from (c # s) w = (if c = NUL then False else if word_here (c # s) w then True else has_word_from s w)"

definition has_word :: "cptr \<Rightarrow> cptr \<Rightarrow> bool" where
  "has_word s w = (case (s, w) of (Some s, Some w) \<Rightarrow> has_word_from s w | _ \<Rightarrow> False)"

text \<open>What the boot loader passes: the command line, and the modules with their bytes and their own
  command lines. The flag \<open>livecd\<close> is the build option \<^verbatim>\<open>TANJA_LIVECD\<close>.\<close>

record multiboot =
  mb_magic :: nat
  mb_addr :: nat
  mb_flags :: nat
  mb_cmdline :: cptr
  mb_mods :: "(bytes \<times> cptr) list"

definition mb_valid :: "multiboot \<Rightarrow> bool" where
  "mb_valid mb \<longleftrightarrow> mb_magic mb = 732803074 \<and> mb_addr mb \<noteq> 0"

definition mb_has_mods :: "multiboot \<Rightarrow> bool" where
  "mb_has_mods mb \<longleftrightarrow> mb_flags mb AND 8 \<noteq> 0 \<and> mb_mods mb \<noteq> []"

fun mods_livecd :: "cptr list \<Rightarrow> bool" where
  "mods_livecd [] = False"
| "mods_livecd (m # ms) =
     (if m = None then mods_livecd ms
      else if has_word m (Some ''live'') then True
      else if has_word m (Some ''storefile'') \<or> has_word m (Some ''install'') \<or> has_word m (Some ''persist'') then False
      else mods_livecd ms)"

definition boot_is_livecd :: "bool \<Rightarrow> multiboot \<Rightarrow> bool" where
  "boot_is_livecd livecd mb =
     (if livecd then True
      else if \<not> mb_valid mb then True
      else if has_word (mb_cmdline mb) (Some ''live'') \<or> has_word (mb_cmdline mb) (Some ''livecd'') then True
      else if has_word (mb_cmdline mb) (Some ''install'') \<or> has_word (mb_cmdline mb) (Some ''persist'') then False
      else if mb_has_mods mb then mods_livecd (map snd (mb_mods mb)) else False)"

subsection \<open>Loading and initialising\<close>

definition store_load :: "fs \<Rightarrow> accounts \<Rightarrow> store \<Rightarrow> bool \<times> fs \<times> accounts \<times> store" where
  "store_load f a s =
     (case store_backend_read (store_lba s) 1 s of (rc, b) \<Rightarrow>
      let s = s\<lparr>store_stage := overlay (store_stage s) b\<rparr>;
          payload = le32_at (drop 4 (store_stage s));
          total = u32 (STORE_HEADER_BYTES + payload)
      in if \<not> (rc = 0 \<and> store_header_valid_at (store_stage s) \<and> store_header_matches_build_at s (store_stage s))
         then (False, f, a, s)
         else if \<not> (payload \<ge> u32 (8 + store_cfg_need s) \<and> payload \<le> u32 (store_fs_need s + store_cfg_need s))
         then (False, f, a, s)
         else let s = s\<lparr>store_sectors := bytes_to_sectors total\<rparr> in
         if store_sectors s > store_capacity_sectors s then (False, f, a, s)
         else let c = \<lparr>rd_off = STORE_HEADER_BYTES, rd_end = total, win_off = 0, win_len = 0\<rparr> in
         case fs_deserialize_fill store_rd_fill (c, s) f of (rc, f, cs) \<Rightarrow>
         if rc \<noteq> 0 then (False, f, a, snd cs)
         else case store_rd_fill cs (store_cfg_need (snd cs)) of (ok, b, cs) \<Rightarrow>
         let s = (snd cs)\<lparr>store_cfgbuf := overlay (store_cfgbuf (snd cs)) b\<rparr> in
         if \<not> ok then (False, f, a, s)
         else case config_deserialize (Some (store_cfgbuf s)) (store_cfg_need s) a of (rc, a) \<Rightarrow>
         if rc \<noteq> 0 then (False, f, a, s) else (True, f, a, s\<lparr>store_enabled := True\<rparr>))"

text \<open>The disks of the machine, as the drivers report them: for each of the four IDE slots and for AHCI
  the number of sectors, if there is a disk. A boot ends in a storage panic or with the three states.\<close>

record hardware =
  ata_present :: "nat \<Rightarrow> nat \<Rightarrow> nat option"
  ata_disk :: "nat \<Rightarrow> nat \<Rightarrow> drive"
  ahci_present :: "nat option"
  ahci_disk :: drive

datatype boot = Panic nat nat | Booted store fs accounts

definition find_disk :: "hardware \<Rightarrow> store \<Rightarrow> (nat \<times> store) option" where
  "find_disk hw s =
     (case find (\<lambda>cd. ata_present hw (fst cd) (snd cd) \<noteq> None) [(0, 0), (0, 1), (1, 0), (1, 1)] of
        Some (ch, dr) \<Rightarrow>
          Some (the (ata_present hw ch dr), s\<lparr>store_channel := ch, store_drive := dr, backend := BACKEND_ATA, drv := ata_disk hw ch dr\<rparr>)
      | None \<Rightarrow> (case ahci_present hw of
            Some n \<Rightarrow> Some (n, s\<lparr>backend := BACKEND_AHCI, drv := ahci_disk hw\<rparr>)
          | None \<Rightarrow> None))"

definition ram_session :: "bytes \<Rightarrow> fs \<Rightarrow> accounts \<Rightarrow> store \<Rightarrow> boot" where
  "ram_session home f a s = Booted (s\<lparr>store_enabled := False\<rparr>) (snd (fs_seed_home home (fs_init f))) a"

definition store_fresh :: "multiboot \<Rightarrow> bytes \<Rightarrow> fs \<Rightarrow> accounts \<Rightarrow> store \<Rightarrow> boot option" where
  "store_fresh mb home f a s =
     (let f = snd (fs_seed_home home (fs_init f));
          f = (if mb_valid mb \<and> mb_has_mods mb \<and> length (fst (hd (mb_mods mb))) \<ge> 8
               then snd (fs_deserialize (Some (fst (hd (mb_mods mb)))) (length (fst (hd (mb_mods mb)))) f) else f)
      in map_option (\<lambda>s. Booted s f a) (store_autosave f a (s\<lparr>store_enabled := True\<rparr>)))"

definition store_init :: "bool \<Rightarrow> hardware \<Rightarrow> multiboot \<Rightarrow> bytes \<Rightarrow> fs \<Rightarrow> accounts \<Rightarrow> store \<Rightarrow> boot option" where
  "store_init livecd hw mb home f a s =
     (let s = s\<lparr>store_fs_need := fs_store_size, store_cfg_need := config_store_size\<rparr>;
          s = s\<lparr>store_capacity_sectors := bytes_to_sectors (u32 (STORE_HEADER_BYTES + store_fs_need s + store_cfg_need s)),
                store_sectors := 1\<rparr>
      in case find_disk hw s of
        None \<Rightarrow> Some (ram_session home f a s)
      | Some (disk_sectors, s) \<Rightarrow>
          let s = s\<lparr>store_disk_sectors := disk_sectors\<rparr> in
          if boot_is_livecd livecd mb then Some (ram_session home f a s)
          else if \<not> disk_sectors > u32 (store_capacity_sectors s + STORE_RESERVED_TAIL_SECTORS + 32)
          then Some (Panic (store_mib_ceil (store_min_disk_sectors s)) (store_mib_floor disk_sectors))
          else let s = s\<lparr>store_lba := u32 (disk_sectors - store_capacity_sectors s - STORE_RESERVED_TAIL_SECTORS)\<rparr> in
          if store_lba s < STORE_FRONT_RESERVE_SECTORS
          then Some (Panic (store_mib_ceil (store_min_disk_sectors s)) (store_mib_floor disk_sectors))
          else case store_load f a s of (ok, f, a, s) \<Rightarrow>
            if ok then Some (Booted s f a) else store_fresh mb home f a s)"

section \<open>Laws of the drive\<close>

lemma put_bytes_Nil [simp]: "put_bytes m a [] = m"
  by (auto simp: put_bytes_def fun_eq_iff)

lemma put_bytes_append:
  "put_bytes (put_bytes m a x) (a + length x) y = put_bytes m a (x @ y)"
  by (auto simp: put_bytes_def fun_eq_iff nth_append)

lemma put_bytes_outside: "i < a \<or> a + length b \<le> i \<Longrightarrow> put_bytes m a b i = m i"
  by (auto simp: put_bytes_def)

lemma put_bytes_map: "map (put_bytes m a b) [a..<a + length b] = b"
  by (auto simp: put_bytes_def intro: nth_equalityI)

lemma upt_map_append: "a \<le> b \<Longrightarrow> b \<le> c \<Longrightarrow> map f [a..<b] @ map f [b..<c] = map f [a..<c]"
  by (metis map_append upt_add_eq_append le_Suc_ex)

definition no_errors :: "drive \<Rightarrow> bool" where
  "no_errors d \<longleftrightarrow> (\<forall>lba n. rd_err d lba n = 0 \<and> wr_err d lba n = 0)"

lemma read_chunks_ok:
  "be \<noteq> BACKEND_NONE \<Longrightarrow> no_errors d \<Longrightarrow> lba + count < 4294967296 \<Longrightarrow>
   read_chunks be d lba count = (0, map (content d) [512 * lba..<512 * (lba + count)])"
proof (induction be d lba count rule: read_chunks.induct)
  case (1 be d lba count)
  let ?k = "if count > 255 then 255 else count"
  show ?case
  proof (cases "count = 0")
    case False
    have e: "u32 (lba + ?k) = lba + ?k" "lba + ?k + (count - ?k) = lba + count" using 1(4) False by auto
    have r: "drive_read lba ?k d = (0, map (content d) [512 * lba..<512 * (lba + ?k)])"
      using 1(3) by (simp add: drive_read_def no_errors_def)
    have "read_chunks be d (lba + ?k) (count - ?k) = (0, map (content d) [512 * (lba + ?k)..<512 * (lba + count)])"
      using 1(1) [OF False 1(2) refl r [symmetric] _ 1(2,3)] 1(4) e by auto
    then show ?thesis
      using False 1(2) r e(1) upt_map_append [of "512 * lba" "512 * (lba + ?k)" "512 * (lba + count)" "content d"]
      by (subst read_chunks.simps) (simp add: Let_def)
  qed (simp add: read_chunks.simps)
qed

lemma write_chunks_ok:
  "be \<noteq> BACKEND_NONE \<Longrightarrow> no_errors d \<Longrightarrow> lba + count < 4294967296 \<Longrightarrow> 512 * count \<le> length b \<Longrightarrow>
   write_chunks be d lba count b = (0, d\<lparr>content := put_bytes (content d) (512 * lba) (take (512 * count) b)\<rparr>)"
proof (induction be d lba count b rule: write_chunks.induct)
  case (1 be d lba count b)
  let ?k = "if count > 255 then 255 else count"
  show ?case
  proof (cases "count = 0")
    case True
    then show ?thesis by (simp add: write_chunks.simps)
  next
    case False
    let ?d = "d\<lparr>content := put_bytes (content d) (512 * lba) (take (512 * ?k) b)\<rparr>"
    have e: "u32 (lba + ?k) = lba + ?k" using 1(4) False by auto
    have w: "drive_write lba ?k b d = (0, ?d)" using 1(3) by (simp add: drive_write_def no_errors_def)
    have nd: "no_errors ?d" using 1(3) by (simp add: no_errors_def)
    have "write_chunks be ?d (lba + ?k) (count - ?k) (drop (?k * 512) b) =
        (0, ?d\<lparr>content := put_bytes (content ?d) (512 * (lba + ?k)) (take (512 * (count - ?k)) (drop (?k * 512) b))\<rparr>)"
      using 1(1) [OF False 1(2) refl w [symmetric] _ 1(2) nd] 1(4,5) e by auto
    moreover have "put_bytes (put_bytes (content d) (512 * lba) (take (512 * ?k) b)) (512 * (lba + ?k)) (take (512 * (count - ?k)) (drop (?k * 512) b))
        = put_bytes (content d) (512 * lba) (take (512 * count) b)"
    proof -
      have "512 * lba + length (take (512 * ?k) b) = 512 * (lba + ?k)" using 1(5) by simp
      moreover have "take (512 * ?k) b @ take (512 * (count - ?k)) (drop (?k * 512) b) = take (512 * count) b"
      proof -
        have "512 * ?k + 512 * (count - ?k) = 512 * count" by auto
        then show ?thesis using take_add [of "512 * ?k" "512 * (count - ?k)" b] by (simp only: mult.commute [of ?k])
      qed
      ultimately show ?thesis using put_bytes_append [of "content d" "512 * lba" "take (512 * ?k) b"] by metis
    qed
    ultimately show ?thesis using False 1(2) w e by (subst write_chunks.simps) (simp add: Let_def)
  qed
qed

text \<open>Whatever the drive answers, a write only reaches the sectors it names.\<close>

definition same_outside :: "nat \<Rightarrow> nat \<Rightarrow> drive \<Rightarrow> drive \<Rightarrow> bool" where
  "same_outside lo hi d d' \<longleftrightarrow> (\<forall>i. i < 512 * lo \<or> 512 * hi \<le> i \<longrightarrow> content d' i = content d i)"

lemma same_outside_refl [simp]: "same_outside lo hi d d"
  by (simp add: same_outside_def)

lemma same_outside_trans: "same_outside lo hi d d' \<Longrightarrow> same_outside lo hi d' d'' \<Longrightarrow> same_outside lo hi d d''"
  by (simp add: same_outside_def)

lemma same_outside_mono: "same_outside lo hi d d' \<Longrightarrow> lo' \<le> lo \<Longrightarrow> hi \<le> hi' \<Longrightarrow> same_outside lo' hi' d d'"
  unfolding same_outside_def by (meson dual_order.strict_trans1 le_trans less_le_trans mult_le_mono2)

lemma drive_write_frame: "drive_write lba n b d = (rc, d') \<Longrightarrow> same_outside lba (lba + n) d d'"
  by (auto simp: drive_write_def Let_def same_outside_def intro!: put_bytes_outside)

lemma write_chunks_frame:
  "lba + count < 4294967296 \<Longrightarrow> write_chunks be d lba count b = (rc, d') \<Longrightarrow> same_outside lba (lba + count) d d'"
proof (induction be d lba count b arbitrary: rc d' rule: write_chunks.induct)
  case (1 be d lba count b)
  let ?k = "if count > 255 then 255 else count"
  show ?case
  proof (cases "count = 0 \<or> be = BACKEND_NONE")
    case True
    then show ?thesis using 1(3) by (subst (asm) write_chunks.simps) (auto split: if_splits)
  next
    case False
    obtain rc1 d1 where w: "drive_write lba ?k b d = (rc1, d1)" by fastforce
    have f1: "same_outside lba (lba + count) d d1" by (rule same_outside_mono [OF drive_write_frame [OF w]]) auto
    have e: "u32 (lba + ?k) = lba + ?k" using 1(2) False by auto
    show ?thesis
    proof (cases "rc1 = 0")
      case True
      then have "write_chunks be d1 (lba + ?k) (count - ?k) (drop (?k * 512) b) = (rc, d')"
        using 1(3) False w e by (subst (asm) write_chunks.simps) (simp add: Let_def)
      then have "same_outside (lba + ?k) (lba + ?k + (count - ?k)) d1 d'"
        using 1(1) [OF _ _ refl w [symmetric]] 1(2) False True e by auto
      then have "same_outside lba (lba + count) d1 d'" by (rule same_outside_mono) auto
      with f1 show ?thesis by (rule same_outside_trans)
    next
      case nz: False
      then show ?thesis using 1(3) False w f1 by (subst (asm) write_chunks.simps) (simp add: Let_def)
    qed
  qed
qed

section \<open>The stream from the disk\<close>

text \<open>The region is on the disk, the drive is usable and the staging buffer has its size.\<close>

definition store_ok :: "store \<Rightarrow> bool" where
  "store_ok s \<longleftrightarrow>
     backend s \<noteq> BACKEND_NONE \<and> length (store_stage s) = 65536
     \<and> store_lba s + store_capacity_sectors s \<le> store_disk_sectors s
     \<and> store_lba s + store_capacity_sectors s < 4294967296 \<and> 512 * store_capacity_sectors s < 2147483648"

definition region :: "store \<Rightarrow> nat \<Rightarrow> nat \<Rightarrow> bytes" where
  "region s a b = map (content (drv s)) [512 * store_lba s + a..<512 * store_lba s + b]"

lemma length_region [simp]: "length (region s a b) = b - a"
  by (simp add: region_def)

lemma take_drop_region:
  "a + n \<le> b \<Longrightarrow> take n (region s a b) = region s a (a + n)" "a + n \<le> b \<Longrightarrow> drop n (region s a b) = region s (a + n) b"
  by (simp_all add: region_def take_map drop_map add.assoc)

definition rd_good :: "store \<Rightarrow> store_rd_ctx \<times> store \<Rightarrow> bool" where
  "rd_good s0 cs \<longleftrightarrow>
     (case cs of (c, s) \<Rightarrow>
        (\<exists>st. length st = 65536 \<and> s = s0\<lparr>store_stage := st\<rparr>)
        \<and> rd_off c \<le> rd_end c \<and> rd_end c \<le> 512 * store_capacity_sectors s0
        \<and> (win_len c = 0 \<or> win_len c \<le> 65536 \<and> win_off c \<le> rd_off c
             \<and> take (win_len c) (store_stage s) = region s0 (win_off c) (win_off c + win_len c)))"

definition rd_rest :: "store_rd_ctx \<times> store \<Rightarrow> bytes" where
  "rd_rest cs = (case cs of (c, s) \<Rightarrow> region s (rd_off c) (rd_end c))"

lemma rd_refill_ok:
  assumes s0: "store_ok s0" "no_errors (drv s0)" and g: "rd_good s0 (c, s)" and more: "rd_off c < rd_end c"
  shows "\<exists>c' s'. rd_refill c s = Some (c', s') \<and> rd_good s0 (c', s') \<and> rd_off c' = rd_off c \<and> rd_end c' = rd_end c
    \<and> win_off c' \<le> rd_off c \<and> 0 < win_len c'"
proof -
  let ?sec = "rd_off c div 512"
  let ?m = "u32 (u32_sub (rd_end c) (?sec * 512) + 511) div 512"
  define n where "n = (if (if ?m < 128 then ?m else 128) < 1 then 1 else (if ?m < 128 then ?m else 128))"
  from g obtain st where st: "length st = 65536" "s = s0\<lparr>store_stage := st\<rparr>"
    and e: "rd_end c \<le> 512 * store_capacity_sectors s0" by (auto simp: rd_good_def)
  note ok = s0(1) [unfolded store_ok_def]
  have sm: "?sec * 512 \<le> rd_off c" "rd_off c < ?sec * 512 + 512" by (auto simp: div_times_less_eq_dividend dividend_less_div_times)
  have sub: "u32_sub (rd_end c) (?sec * 512) = rd_end c - ?sec * 512"
    using e ok more sm by (intro u32_sub_le) linarith+
  have m: "?m = (rd_end c - ?sec * 512 + 511) div 512" unfolding sub using e ok by (subst u32_id) auto
  have n: "1 \<le> n" "n \<le> 128" by (auto simp: n_def)
  have "1 \<le> ?m" unfolding m using more sm by linarith
  then have "n \<le> ?m" by (auto simp: n_def)
  then have "?sec * 512 + n * 512 \<le> rd_end c + 511" unfolding m using more sm by linarith
  then have cap: "?sec + n \<le> store_capacity_sectors s0" using e by linarith
  have l: "u32 (store_lba s + ?sec) = store_lba s0 + ?sec" using ok cap st n by (simp add: u32_def)
  have rd: "store_backend_read (store_lba s0 + ?sec) n s = (0, region s0 (?sec * 512) (?sec * 512 + n * 512))"
    using read_chunks_ok [of "backend s0" "drv s0" "store_lba s0 + ?sec" n] ok cap n s0(2) st(2)
    by (simp add: store_backend_read_def region_def algebra_simps)
  define b where "b = region s0 (?sec * 512) (?sec * 512 + n * 512)"
  have lb: "length b = n * 512" by (simp add: b_def)
  have run: "rd_refill c s = Some (c\<lparr>win_off := ?sec * 512, win_len := n * 512\<rparr>, s\<lparr>store_stage := overlay st b\<rparr>)"
    using rd l st(2) unfolding rd_refill_def Let_def n_def [symmetric] b_def by simp
  have "length (overlay st b) = 65536" using lb n st(1) by (simp add: overlay_def)
  moreover have "take (n * 512) (overlay st b) = b" using lb by (simp add: overlay_def)
  ultimately have "rd_good s0 (c\<lparr>win_off := ?sec * 512, win_len := n * 512\<rparr>, s\<lparr>store_stage := overlay st b\<rparr>)"
    using g st n sm unfolding rd_good_def b_def by auto
  then show ?thesis using run sm n by auto
qed

lemma rd_window_ok:
  assumes s0: "store_ok s0" "no_errors (drv s0)" and g: "rd_good s0 (c, s)" and more: "rd_off c < rd_end c"
  shows "\<exists>c' s'. rd_window c s = Some (c', s') \<and> rd_good s0 (c', s') \<and> rd_off c' = rd_off c \<and> rd_end c' = rd_end c
    \<and> win_off c' \<le> rd_off c \<and> rd_off c < win_off c' + win_len c'"
proof -
  have small: "rd_off c < 4294967296" using g more s0(1) by (auto simp: rd_good_def store_ok_def)
  show ?thesis
  proof (cases "win_len c = 0 \<or> u32_sub (rd_off c) (win_off c) \<ge> win_len c")
    case True
    from rd_refill_ok [OF assms] obtain c' s' where r: "rd_refill c s = Some (c', s')" "rd_good s0 (c', s')"
      "rd_off c' = rd_off c" "rd_end c' = rd_end c" "win_off c' \<le> rd_off c" by blast
    have w: "rd_window c s = Some (c', s')" using True r(1) by (simp add: rd_window_def)
    from rd_window_progress(1) [OF this] have "rd_off c < win_off c' + win_len c'"
      using r(3,5) u32_sub_le [OF r(5) small] by simp
    then show ?thesis using w r by blast
  next
    case False
    then have "win_off c \<le> rd_off c" using g by (auto simp: rd_good_def)
    then show ?thesis using False g u32_sub_le [OF _ small, of "win_off c"] by (auto simp: rd_window_def)
  qed
qed

lemma rd_good_advance:
  assumes "rd_good s0 (c, s)" "rd_off c + k \<le> rd_end c" "store_ok s0"
  shows "rd_good s0 (c\<lparr>rd_off := u32 (rd_off c + k)\<rparr>, s)" "u32 (rd_off c + k) = rd_off c + k"
proof -
  have "rd_end c < 4294967296" using assms by (auto simp: rd_good_def store_ok_def)
  then show u: "u32 (rd_off c + k) = rd_off c + k" using assms(2) by simp
  show "rd_good s0 (c\<lparr>rd_off := u32 (rd_off c + k)\<rparr>, s)" unfolding u using assms(1,2) by (auto simp: rd_good_def)
qed

lemma rd_window_bytes:
  assumes g: "rd_good s0 (c, s)" and w: "win_off c \<le> rd_off c" "rd_off c + k \<le> win_off c + win_len c" and k: "0 < k"
    and off: "off = rd_off c - win_off c"
  shows "map (chr_at (drop off (store_stage s))) [0..<k] = region s0 (rd_off c) (rd_off c + k)"
proof (rule nth_equalityI)
  fix i
  assume "i < length (map (chr_at (drop off (store_stage s))) [0..<k])"
  then have i: "i < k" by simp
  have t: "take (win_len c) (store_stage s) = region s0 (win_off c) (win_off c + win_len c)" "win_len c \<le> 65536" "length (store_stage s) = 65536"
    using g w k by (auto simp: rd_good_def)
  have o: "off + i < win_len c" using w off i by simp
  then have "store_stage s ! (off + i) = take (win_len c) (store_stage s) ! (off + i)" by simp
  also have "\<dots> = content (drv s0) (512 * store_lba s0 + (win_off c + (off + i)))"
    unfolding t(1) using o by (simp add: region_def add.assoc)
  also have "win_off c + (off + i) = rd_off c + i" using off w by simp
  finally show "map (chr_at (drop off (store_stage s))) [0..<k] ! i = region s0 (rd_off c) (rd_off c + k) ! i"
    using i o t(2,3) by (auto simp: chr_at_def region_def add.assoc)
qed simp

lemma store_rd_fill_ok:
  assumes s0: "store_ok s0" "no_errors (drv s0)"
  shows "rd_good s0 cs \<Longrightarrow> len \<le> rd_end (fst cs) - rd_off (fst cs) \<Longrightarrow>
    \<exists>cs'. store_rd_fill cs len = (True, region s0 (rd_off (fst cs)) (rd_off (fst cs) + len), cs')
      \<and> rd_good s0 cs' \<and> rd_off (fst cs') = rd_off (fst cs) + len \<and> rd_end (fst cs') = rd_end (fst cs)"
proof (induction cs len rule: store_rd_fill.induct)
  case (1 cs len)
  obtain c s where cs: "cs = (c, s)" by fastforce
  show ?case
  proof (cases "len = 0")
    case True
    then show ?thesis using 1(2) by (auto simp: store_rd_fill.simps region_def)
  next
    case False
    have g: "rd_good s0 (c, s)" and le: "rd_off c + len \<le> rd_end c" "rd_off c < rd_end c" using 1(2,3) False cs by auto
    note u = rd_good_advance(2) [OF g le(1) s0(1)]
    from rd_window_ok [OF s0 g le(2)] obtain c' s' where w: "rd_window c s = Some (c', s')" "rd_good s0 (c', s')"
      "rd_off c' = rd_off c" "rd_end c' = rd_end c" "win_off c' \<le> rd_off c" "rd_off c < win_off c' + win_len c'" by blast
    have small: "rd_off c' < 4294967296" using u le u32_less [of "rd_off c + len"] w(3) by linarith
    let ?off = "u32_sub (rd_off c') (win_off c')"
    define k where "k = min (win_len c' - ?off) len"
    have off: "?off = rd_off c' - win_off c'" using u32_sub_le [of "win_off c'" "rd_off c'"] w(3,5) small by simp
    have k: "0 < k" "k \<le> len" "rd_off c' + k \<le> win_off c' + win_len c'" using False w off by (auto simp: k_def)
    note adv = rd_good_advance [OF w(2), of k]
    have a: "rd_good s0 (c'\<lparr>rd_off := u32 (rd_off c' + k)\<rparr>, s')" "u32 (rd_off c' + k) = rd_off c + k"
      using adv [OF _ s0(1)] w(3,4) le(1) k(2) by auto
    have b: "map (chr_at (drop ?off (store_stage s'))) [0..<k] = region s0 (rd_off c) (rd_off c + k)"
      using rd_window_bytes [OF w(2) _ k(3,1) off] w(3,5) by simp
    have "\<exists>cs'. store_rd_fill (c'\<lparr>rd_off := u32 (rd_off c' + k)\<rparr>, s') (len - k) =
        (True, region s0 (rd_off c + k) (rd_off c + k + (len - k)), cs')
      \<and> rd_good s0 cs' \<and> rd_off (fst cs') = rd_off c + k + (len - k) \<and> rd_end (fst cs') = rd_end c"
      using 1(1) [unfolded cs fst_conv snd_conv, OF False _ w(1) refl refl refl refl] u le w k a
      unfolding k_def [symmetric] by auto
    then obtain cs' where r: "store_rd_fill (c'\<lparr>rd_off := u32 (rd_off c' + k)\<rparr>, s') (len - k) =
        (True, region s0 (rd_off c + k) (rd_off c + k + (len - k)), cs')"
      "rd_good s0 cs'" "rd_off (fst cs') = rd_off c + k + (len - k)" "rd_end (fst cs') = rd_end c" by blast
    have "region s0 (rd_off c) (rd_off c + k) @ region s0 (rd_off c + k) (rd_off c + len) = region s0 (rd_off c) (rd_off c + len)"
      unfolding region_def using k(2) by (intro upt_map_append) auto
    then have "store_rd_fill cs len = (True, region s0 (rd_off c) (rd_off c + len), cs')"
      using False u le(1) w(1) r(1) b k(2) unfolding cs
      by (subst store_rd_fill.simps) (simp add: Let_def k_def [symmetric])
    then show ?thesis using r k(2) cs by auto
  qed
qed

definition rd_ready :: "store \<Rightarrow> store_rd_ctx \<times> store \<Rightarrow> bool" where
  "rd_ready s0 cs \<longleftrightarrow> store_ok s0 \<and> no_errors (drv s0) \<and> rd_good s0 cs"

lemma rd_rest_eq: "rd_good s0 cs \<Longrightarrow> rd_rest cs = region s0 (rd_off (fst cs)) (rd_end (fst cs))"
  by (auto simp: rd_good_def rd_rest_def region_def)

interpretation disk: byte_source store_rd_fill rd_rest "rd_ready s0" for s0
proof
  fix cs len
  assume g: "rd_ready s0 cs"
  then have r: "store_ok s0" "no_errors (drv s0)" "rd_good s0 cs" by (simp_all add: rd_ready_def)
  note rest = rd_rest_eq [OF r(3)]
  show "\<exists>cs'. store_rd_fill cs len = (True, take len (rd_rest cs), cs') \<and> rd_rest cs' = drop len (rd_rest cs) \<and> rd_ready s0 cs'"
    if "len \<le> length (rd_rest cs)"
  proof -
    have l: "len \<le> rd_end (fst cs) - rd_off (fst cs)" using that rest by simp
    have le: "rd_off (fst cs) \<le> rd_end (fst cs)" using r(3) by (auto simp: rd_good_def)
    from store_rd_fill_ok [OF r l] obtain cs' where c: "store_rd_fill cs len = (True, region s0 (rd_off (fst cs)) (rd_off (fst cs) + len), cs')"
      "rd_good s0 cs'" "rd_off (fst cs') = rd_off (fst cs) + len" "rd_end (fst cs') = rd_end (fst cs)" by blast
    then show ?thesis using rd_rest_eq [OF c(2)] rest r l le
        take_drop_region [of "rd_off (fst cs)" len "rd_end (fst cs)" s0] by (auto simp: rd_ready_def)
  qed
  show "\<not> fst (store_rd_fill cs len)" if "length (rd_rest cs) < len" "len < 2147483648"
  proof -
    have "rd_end (fst cs) < 2147483648" "rd_off (fst cs) \<le> rd_end (fst cs)"
      using r(1,3) by (auto simp: rd_good_def store_ok_def)
    then have "u32 (rd_off (fst cs) + len) > rd_end (fst cs)" "len \<noteq> 0" using that rest by auto
    then show ?thesis by (simp add: store_rd_fill.simps)
  qed
qed

section \<open>The stream to the disk\<close>

text \<open>Between calls of the sink: whole batches are on the disk, the rest is in the staging buffer.\<close>

definition wr_good :: "store \<Rightarrow> (store_wr_ctx \<times> store) option \<Rightarrow> bool" where
  "wr_good s0 cs \<longleftrightarrow>
     store_ok s0 \<and> no_errors (drv s0) \<and>
     (\<exists>c s st m. cs = Some (c, s) \<and> s = s0\<lparr>store_stage := st, drv := (drv s0)\<lparr>content := m\<rparr>\<rparr> \<and> length st = 65536
        \<and> same_outside (store_lba s0) (store_lba s0 + store_capacity_sectors s0) (drv s0) (drv s)
        \<and> \<not> wr_failed c \<and> staged c < 65536 \<and> staged c \<le> wr_off c \<and> 65536 dvd wr_off c - staged c
        \<and> wr_off c \<le> 512 * store_capacity_sectors s0 \<and> (staged c \<noteq> 0 \<longrightarrow> start_off c = wr_off c - staged c))"

definition wr_written :: "(store_wr_ctx \<times> store) option \<Rightarrow> bytes" where
  "wr_written cs =
     (case cs of None \<Rightarrow> []
      | Some (c, s) \<Rightarrow> region s 0 (wr_off c - staged c) @ take (staged c) (store_stage s))"

lemma length_wr_written: "wr_good s0 (Some (c, s)) \<Longrightarrow> length (wr_written (Some (c, s))) = wr_off c"
  by (auto simp: wr_good_def wr_written_def)

text \<open>Writing whole sectors of the staging buffer.\<close>

lemma backend_write_ok:
  assumes "store_ok s0" "no_errors (drv s0)" and s: "s = s0\<lparr>store_stage := st, drv := (drv s0)\<lparr>content := m\<rparr>\<rparr>"
    and a: "512 dvd a" and n: "0 < n" "a div 512 + n \<le> store_capacity_sectors s0" "512 * n \<le> length b"
  shows "store_backend_write (u32 (store_lba s0 + a div 512)) n b s =
    (0, s\<lparr>drv := (drv s0)\<lparr>content := put_bytes m (512 * store_lba s0 + a) (take (512 * n) b)\<rparr>\<rparr>)"
proof -
  note ok = assms(1) [unfolded store_ok_def]
  have u: "u32 (store_lba s0 + a div 512) = store_lba s0 + a div 512" using ok n by simp
  have e: "512 * (store_lba s0 + a div 512) = 512 * store_lba s0 + a" using a by (simp add: dvd_mult_div_cancel algebra_simps)
  have "no_errors ((drv s0)\<lparr>content := m\<rparr>)" using assms(2) by (simp add: no_errors_def)
  then show ?thesis unfolding u
    using write_chunks_ok [of "backend s0" "(drv s0)\<lparr>content := m\<rparr>" "store_lba s0 + a div 512" n b] ok n s e
    by (simp add: store_backend_write_def)
qed

lemma region_put:
  assumes "m' = put_bytes m (512 * store_lba s0 + a) b" "s = s0\<lparr>store_stage := st, drv := (drv s0)\<lparr>content := m\<rparr>\<rparr>"
    and "t = s0\<lparr>store_stage := st', drv := (drv s0)\<lparr>content := m'\<rparr>\<rparr>"
  shows "region t 0 (a + length b) = region s 0 a @ b"
proof -
  let ?L = "512 * store_lba s0"
  have "region t 0 (a + length b) = map m' [?L..<?L + a] @ map m' [?L + a..<?L + a + length b]"
    using upt_map_append [of ?L "?L + a" "?L + a + length b" m'] assms(3) by (simp add: region_def add.assoc)
  moreover have "map m' [?L..<?L + a] = map m [?L..<?L + a]" unfolding assms(1) by (auto simp: put_bytes_def)
  moreover have "map m' [?L + a..<?L + a + length b] = b" unfolding assms(1) by (rule put_bytes_map)
  ultimately show ?thesis using assms(2) by (simp add: region_def)
qed

lemma store_wr_flush_full:
  assumes s0: "store_ok s0" "no_errors (drv s0)" and s: "s = s0\<lparr>store_stage := st, drv := (drv s0)\<lparr>content := m\<rparr>\<rparr>" "length st = 65536"
    and c: "staged c = 65536" "start_off c = a" "65536 dvd a" "a + 65536 \<le> 512 * store_capacity_sectors s0"
  shows "store_wr_flush c s = (0, c\<lparr>staged := 0\<rparr>,
    s0\<lparr>store_stage := st, drv := (drv s0)\<lparr>content := put_bytes m (512 * store_lba s0 + a) st\<rparr>\<rparr>)"
proof -
  have d: "512 dvd a" using c(3) by (rule dvd_trans [rotated]) simp
  then have n: "a div 512 + 128 \<le> store_capacity_sectors s0" using c(4) by (auto elim!: dvdE)
  have w: "store_backend_write (u32 (store_lba s0 + a div 512)) 128 st s =
      (0, s0\<lparr>store_stage := st, drv := (drv s0)\<lparr>content := put_bytes m (512 * store_lba s0 + a) st\<rparr>\<rparr>)"
    using backend_write_ok [OF s0 s(1) d _ n, of st] s by simp
  have ss: "store_stage s = st" "store_lba s = store_lba s0" "s\<lparr>store_stage := st\<rparr> = s" using s(1) by simp_all
  have "store_backend_write (u32 (store_lba s0 + a div 512)) 128 st (s\<lparr>store_stage := st\<rparr>) =
      (0, s0\<lparr>store_stage := st, drv := (drv s0)\<lparr>content := put_bytes m (512 * store_lba s0 + a) st\<rparr>\<rparr>)"
    unfolding ss(3) by (rule w)
  then show ?thesis using c s(2) ss(1,2) by (simp add: store_wr_flush_def Let_def)
qed

lemma wr_step:
  assumes g: "wr_good s0 (Some (c, s))" and d: "data \<noteq> []" and fit: "wr_off c + length data \<le> 512 * store_capacity_sectors s0"
  shows "\<exists>c2 s2 k. store_wr_sink c data s = store_wr_sink c2 (drop k data) s2 \<and> 0 < k \<and> wr_good s0 (Some (c2, s2))
    \<and> wr_written (Some (c2, s2)) = wr_written (Some (c, s)) @ take k data \<and> wr_off c2 = wr_off c + k \<and> k \<le> length data"
proof -
  from g obtain st m where s: "s = s0\<lparr>store_stage := st, drv := (drv s0)\<lparr>content := m\<rparr>\<rparr>" "length st = 65536"
    and out: "same_outside (store_lba s0) (store_lba s0 + store_capacity_sectors s0) (drv s0) (drv s)"
    and c: "\<not> wr_failed c" "staged c < 65536" "staged c \<le> wr_off c" "65536 dvd wr_off c - staged c"
      "wr_off c \<le> 512 * store_capacity_sectors s0" "staged c \<noteq> 0 \<longrightarrow> start_off c = wr_off c - staged c"
    and s0: "store_ok s0" "no_errors (drv s0)" by (auto simp: wr_good_def)
  define k where "k = min (65536 - staged c) (length data)"
  define a where "a = wr_off c - staged c"
  define st1 where "st1 = take (staged c) st @ take k data @ drop (staged c + k) st"
  define c1 where "c1 = c\<lparr>start_off := a, staged := staged c + k, wr_off := wr_off c + k\<rparr>"
  define s1 where "s1 = s0\<lparr>store_stage := st1, drv := (drv s0)\<lparr>content := m\<rparr>\<rparr>"
  have k: "0 < k" "k \<le> length data" "staged c + k \<le> 65536" using d c(2) by (cases data; auto simp: k_def)+
  have u: "u32 (wr_off c + k) = wr_off c + k" using fit k(2) s0(1) by (simp add: store_ok_def)
  have st1: "length st1 = 65536" "take (staged c + k) st1 = take (staged c) st @ take k data"
    using s(2) k c(2) by (auto simp: st1_def)
  have stg: "stage_some c data s = (c1, drop k data, s1)"
    using u c(6) s(1) by (auto simp: stage_some_def Let_def c1_def s1_def st1_def k_def a_def)
  have out1: "same_outside (store_lba s0) (store_lba s0 + store_capacity_sectors s0) (drv s0) (drv s1)"
    using out s(1) by (simp add: s1_def)
  have wr: "wr_written (Some (c, s)) = region s 0 a @ take (staged c) st" using s(1) by (simp add: wr_written_def a_def)
  have a: "a + (staged c + k) = wr_off c + k" using c(3) by (simp add: a_def)
  show ?thesis
  proof (cases "staged c + k = 65536")
    case False
    then have lt: "staged c1 < 65536" using k by (simp add: c1_def)
    have "store_wr_sink c data s = store_wr_sink c1 (drop k data) s1"
      using d stg lt by (subst store_wr_sink.simps) simp
    moreover have "wr_good s0 (Some (c1, s1))"
      using s0 out1 c k lt st1(1) fit a unfolding wr_good_def by (intro conjI exI [of _ c1] exI [of _ s1] exI [of _ st1] exI [of _ m])
        (auto simp: c1_def s1_def a_def)
    moreover have "wr_written (Some (c1, s1)) = wr_written (Some (c, s)) @ take k data"
      unfolding wr using st1(2) s(1) a by (simp add: wr_written_def c1_def s1_def a_def region_def)
    ultimately show ?thesis using k by (intro exI [of _ c1] exI [of _ s1] exI [of _ k]) (simp add: c1_def)
  next
    case True
    define m2 where "m2 = put_bytes m (512 * store_lba s0 + a) st1"
    define s2 where "s2 = s0\<lparr>store_stage := st1, drv := (drv s0)\<lparr>content := m2\<rparr>\<rparr>"
    define c2 where "c2 = c1\<lparr>staged := 0\<rparr>"
    have fits: "a + 65536 \<le> 512 * store_capacity_sectors s0" using a True fit k(2) by linarith
    have dv: "65536 dvd wr_off c + k" using c(4) a True unfolding a_def [symmetric] by (metis dvd_add dvd_refl)
    have fl: "store_wr_flush c1 s1 = (0, c2, s2)"
      using store_wr_flush_full [OF s0 s1_def st1(1), of c1 a] True c(4) fits by (simp add: c1_def c2_def s2_def m2_def a_def)
    then have "store_wr_sink c data s = store_wr_sink c2 (drop k data) s2"
      using d stg True by (subst store_wr_sink.simps) (simp add: c1_def)
    moreover have "same_outside (store_lba s0) (store_lba s0 + store_capacity_sectors s0) (drv s0) (drv s2)"
      using out1 fits st1(1) unfolding same_outside_def s1_def s2_def m2_def by (auto simp: put_bytes_def)
    then have "wr_good s0 (Some (c2, s2))"
      using s0 c fit k True a st1(1) dv unfolding wr_good_def
      by (intro conjI exI [of _ c2] exI [of _ s2] exI [of _ st1] exI [of _ m2]) (auto simp: c1_def c2_def s2_def a_def)
    moreover have "wr_written (Some (c2, s2)) = wr_written (Some (c, s)) @ take k data"
    proof -
      have "region s2 0 (a + 65536) = region s 0 a @ st1" using region_put [OF m2_def s(1) s2_def] st1(1) by simp
      moreover have "st1 = take (staged c) st @ take k data" using st1 True by simp
      ultimately show ?thesis unfolding wr using a True by (simp add: wr_written_def c1_def c2_def)
    qed
    ultimately show ?thesis using k by (intro exI [of _ c2] exI [of _ s2] exI [of _ k]) (simp add: c1_def c2_def)
  qed
qed

lemma store_wr_sink_ok:
  "wr_good s0 (Some (c, s)) \<Longrightarrow> wr_off c + length data \<le> 512 * store_capacity_sectors s0 \<Longrightarrow>
   \<exists>c' s'. store_wr_sink c data s = Some (c', s') \<and> wr_good s0 (Some (c', s'))
     \<and> wr_written (Some (c', s')) = wr_written (Some (c, s)) @ data \<and> wr_off c' = wr_off c + length data"
proof (induction "length data" arbitrary: c s data rule: less_induct)
  case less
  show ?case
  proof (cases "data = []")
    case True
    then show ?thesis using less.prems by (subst store_wr_sink.simps) simp
  next
    case False
    from wr_step [OF less.prems(1) False less.prems(2)] obtain c2 s2 k where
      st: "store_wr_sink c data s = store_wr_sink c2 (drop k data) s2" "0 < k" "wr_good s0 (Some (c2, s2))"
      "wr_written (Some (c2, s2)) = wr_written (Some (c, s)) @ take k data" "wr_off c2 = wr_off c + k" "k \<le> length data" by blast
    have "length (drop k data) < length data" "wr_off c2 + length (drop k data) \<le> 512 * store_capacity_sectors s0"
      using st less.prems(2) False by auto
    from less.hyps [OF this(1) st(3) this(2)] show ?thesis using st by auto
  qed
qed

interpretation disksink: byte_sink wr_emit wr_written "wr_good s0" "512 * store_capacity_sectors s0" for s0
proof
  fix cs and d :: bytes
  assume g: "wr_good s0 cs" and l: "length (wr_written cs) + length d \<le> 512 * store_capacity_sectors s0"
  then obtain c s where cs: "cs = Some (c, s)" by (auto simp: wr_good_def)
  then show "wr_written (wr_emit cs d) = wr_written cs @ d \<and> wr_good s0 (wr_emit cs d)"
    using store_wr_sink_ok [of s0 c s d] g l length_wr_written [of s0 c s] by (auto simp: wr_emit_def)
qed

lemma store_wr_flush_last:
  assumes g: "wr_good s0 (Some (c, s))"
  shows "\<exists>c' st m. store_wr_flush c s = (0, c', s0\<lparr>store_stage := st, drv := (drv s0)\<lparr>content := m\<rparr>\<rparr>) \<and> \<not> wr_failed c'
    \<and> length st = 65536
    \<and> same_outside (store_lba s0) (store_lba s0 + store_capacity_sectors s0) (drv s0) ((drv s0)\<lparr>content := m\<rparr>)
    \<and> region (s0\<lparr>store_stage := st, drv := (drv s0)\<lparr>content := m\<rparr>\<rparr>) 0 (wr_off c) = wr_written (Some (c, s))"
proof -
  from g obtain st m where s: "s = s0\<lparr>store_stage := st, drv := (drv s0)\<lparr>content := m\<rparr>\<rparr>" "length st = 65536"
    and out: "same_outside (store_lba s0) (store_lba s0 + store_capacity_sectors s0) (drv s0) (drv s)"
    and c: "\<not> wr_failed c" "staged c < 65536" "staged c \<le> wr_off c" "65536 dvd wr_off c - staged c"
      "wr_off c \<le> 512 * store_capacity_sectors s0" "staged c \<noteq> 0 \<longrightarrow> start_off c = wr_off c - staged c"
    and s0: "store_ok s0" "no_errors (drv s0)" by (auto simp: wr_good_def)
  define a where "a = wr_off c - staged c"
  have wr: "wr_written (Some (c, s)) = region s 0 a @ take (staged c) st" using s(1) by (simp add: wr_written_def a_def)
  show ?thesis
  proof (cases "staged c = 0")
    case True
    then have "store_wr_flush c s = (0, c, s)" by (simp add: store_wr_flush_def)
    then show ?thesis using s c(1) out wr True by (intro exI [of _ c] exI [of _ st] exI [of _ m]) (simp add: a_def)
  next
    case False
    define n where "n = (staged c + 511) div 512"
    define st1 where "st1 = take (staged c) st @ replicate (n * 512 - staged c) NUL @ drop (staged c + (n * 512 - staged c)) st"
    define m1 where "m1 = put_bytes m (512 * store_lba s0 + a) (take (512 * n) st1)"
    have n: "0 < n" "staged c \<le> n * 512" "n \<le> 128" using False c(2) by (auto simp: n_def)
    have u: "u32 (staged c + 511) div 512 = n" using c(2) by (simp add: n_def)
    have st1: "length st1 = 65536" "take (staged c) st1 = take (staged c) st" using s(2) n c(2) by (auto simp: st1_def)
    have d: "512 dvd a" using c(4) unfolding a_def by (rule dvd_trans [rotated]) simp
    then obtain q where q: "a = 512 * q" by (auto elim: dvdE)
    have "a + staged c = wr_off c" using c(3) by (simp add: a_def)
    then have fits: "a div 512 + n \<le> store_capacity_sectors s0" using c(5) q False unfolding n_def by simp
    have e1: "s\<lparr>store_stage := st1\<rparr> = s0\<lparr>store_stage := st1, drv := (drv s0)\<lparr>content := m\<rparr>\<rparr>" using s(1) by simp
    have w: "store_backend_write (u32 (store_lba s0 + a div 512)) n st1 (s\<lparr>store_stage := st1\<rparr>) =
        (0, s0\<lparr>store_stage := st1, drv := (drv s0)\<lparr>content := m1\<rparr>\<rparr>)"
      using backend_write_ok [OF s0 e1 d n(1) fits, of st1] st1(1) n(3) unfolding m1_def e1 by simp
    have lb: "store_lba s = store_lba s0" "store_stage s = st" using s(1) by simp_all
    have fl: "store_wr_flush c s = (0, c\<lparr>staged := 0\<rparr>, s0\<lparr>store_stage := st1, drv := (drv s0)\<lparr>content := m1\<rparr>\<rparr>)"
      using False w c(6) lb unfolding store_wr_flush_def Let_def u by (simp add: st1_def [symmetric] a_def [symmetric])
    have len: "length (take (512 * n) st1) = 512 * n" using st1(1) n(3) by simp
    have "same_outside (store_lba s0) (store_lba s0 + store_capacity_sectors s0) (drv s0) ((drv s0)\<lparr>content := m1\<rparr>)"
      using out s(1) len fits q unfolding same_outside_def m1_def by (auto simp: put_bytes_def)
    moreover have "region (s0\<lparr>store_stage := st1, drv := (drv s0)\<lparr>content := m1\<rparr>\<rparr>) 0 (wr_off c) = wr_written (Some (c, s))"
    proof -
      let ?t = "s0\<lparr>store_stage := st1, drv := (drv s0)\<lparr>content := m1\<rparr>\<rparr>"
      have "region ?t 0 (a + 512 * n) = region s 0 a @ take (512 * n) st1"
        using region_put [OF m1_def s(1) refl, of st1] len by simp
      moreover have "region ?t 0 (wr_off c) = take (a + staged c) (region ?t 0 (a + 512 * n))"
        using \<open>a + staged c = wr_off c\<close> n(2) take_drop_region(1) [of 0 "a + staged c" "a + 512 * n" ?t] by simp
      ultimately show ?thesis unfolding wr using n(2) st1(2) by (simp add: mult.commute min_absorb1)
    qed
    ultimately show ?thesis using fl st1(1) c(1) by (intro exI [of _ "c\<lparr>staged := 0\<rparr>"] exI [of _ st1] exI [of _ m1]) simp
  qed
qed

section \<open>Saving and loading\<close>

text \<open>The sizes \<^verbatim>\<open>store_init\<close> sets up, and a build number of 64 bits.\<close>

definition store_sized :: "store \<Rightarrow> bool" where
  "store_sized s \<longleftrightarrow>
     store_fs_need s = fs_store_size \<and> store_cfg_need s = config_store_size
     \<and> store_capacity_sectors s = bytes_to_sectors (u32 (16 + fs_store_size + config_store_size))
     \<and> length (store_cfgbuf s) = 16384 \<and> build_lo s < 4294967296 \<and> build_hi s < 4294967296"


lemma store_sizes:
  "fs_store_size = 50374376" "config_store_size = 5004" "bytes_to_sectors (u32 (16 + fs_store_size + config_store_size)) = 98398"
  by (simp_all add: fs_store_size_def fs_meta_size_def config_store_size_def bytes_to_sectors_def FS_DATA_POOL_SIZE_def
      MAX_F_def MAX_D_def FS_PATH_CAP_def)

lemma bytes_to_sectors_le: "n \<le> 512 * k \<Longrightarrow> n < 4294966784 \<Longrightarrow> bytes_to_sectors n \<le> k"
  by (simp add: bytes_to_sectors_def)

lemma length_header [simp]: "length (store_write_header s n) = 16"
  by (simp add: store_write_header_def)

lemma header_fields:
  assumes "p < 4294967296" "build_lo s < 4294967296" "build_hi s < 4294967296"
  shows "store_header_valid_at (store_write_header s p @ r)" "le32_at (drop 4 (store_write_header s p @ r)) = p"
    "store_header_matches_build_at s (store_write_header s p @ r)"
  using assms by (simp_all add: store_header_valid_at_def store_write_header_def store_header_matches_build_at_def
      le32_at_append chr_at_def)

lemma data_bytes_overlay: "length b \<le> n \<Longrightarrow> n \<le> length old \<Longrightarrow> data_bytes (overlay old b) n = overlay (take n old) b"
  by (auto simp: data_bytes_def overlay_def chr_at_def nth_append intro: nth_equalityI)

text \<open>What is on the disk after saving.\<close>

definition disk_image :: "store \<Rightarrow> fs \<Rightarrow> accounts \<Rightarrow> bytes" where
  "disk_image s f a =
     store_write_header s (fs_serialized_size f + config_store_size) @ fs_image f
     @ overlay (take config_store_size (store_cfgbuf s)) (config_image a)"

lemma length_disk_image:
  assumes "fs_ok f" "length (store_cfgbuf s) = 16384"
  shows "length (disk_image s f a) = 16 + fs_serialized_size f + config_store_size"
  using config_image_fits [of a] assms length_fs_image [OF assms(1)]
  by (simp add: disk_image_def overlay_def store_sizes(2))

lemma wr_good_cfgbuf:
  assumes "wr_good s (Some (c, s1))"
  shows "wr_good (s\<lparr>store_cfgbuf := b\<rparr>) (Some (c, s1\<lparr>store_cfgbuf := b\<rparr>))"
proof -
  let ?s = "s\<lparr>store_cfgbuf := b\<rparr>" and ?s1 = "s1\<lparr>store_cfgbuf := b\<rparr>"
  from assms obtain st m where s1: "s1 = s\<lparr>store_stage := st, drv := (drv s)\<lparr>content := m\<rparr>\<rparr>" "length st = 65536"
    by (auto simp: wr_good_def)
  have "?s1 = ?s\<lparr>store_stage := st, drv := (drv ?s)\<lparr>content := m\<rparr>\<rparr>" using s1(1) by simp
  moreover have "store_ok ?s = store_ok s" by (simp add: store_ok_def)
  ultimately show ?thesis using assms s1 unfolding wr_good_def
    by (intro conjI exI [of _ c] exI [of _ ?s1] exI [of _ st] exI [of _ m]) auto
qed

lemma store_autosave_ok:
  assumes ok: "store_ok s" "no_errors (drv s)" "store_sized s" and en: "store_enabled s"
    and f: "fs_ok f" "fs_serialized_size f \<le> fs_store_size"
  shows "\<exists>st m. store_autosave f a s = Some (s\<lparr>store_cfgbuf := overlay (store_cfgbuf s) (config_image a),
      store_stage := st, drv := (drv s)\<lparr>content := m\<rparr>,
      store_sectors := bytes_to_sectors (16 + fs_serialized_size f + config_store_size)\<rparr>)
    \<and> length st = 65536
    \<and> same_outside (store_lba s) (store_lba s + store_capacity_sectors s) (drv s) ((drv s)\<lparr>content := m\<rparr>)
    \<and> region (s\<lparr>drv := (drv s)\<lparr>content := m\<rparr>\<rparr>) 0 (16 + fs_serialized_size f + config_store_size) = disk_image s f a"
proof -
  let ?n = "fs_serialized_size f" and ?p = "fs_serialized_size f + config_store_size"
  let ?c = "\<lparr>wr_off = 0, staged = 0, start_off = 0, wr_failed = False\<rparr>"
  have sz: "store_cfg_need s = config_store_size" "store_fs_need s = fs_store_size" "store_capacity_sectors s = 98398"
    "length (store_cfgbuf s) = 16384" using ok(3) store_sizes by (auto simp: store_sized_def)
  have u: "u32 (?n + store_cfg_need s) = ?p" "u32 (16 + ?p) = 16 + ?p" "u32 (store_capacity_sectors s * 512) = 50379776"
    "u32_sub 50379776 16 = 50379760"
    using f(2) sz store_sizes by (simp_all add: u32_sub_le)
  have guard: "\<not> (?n > store_fs_need s \<or> ?p > 50379760 \<or> bytes_to_sectors (16 + ?p) > store_capacity_sectors s)"
    using f(2) sz store_sizes bytes_to_sectors_le [of "16 + ?p" 98398] by auto
  define H where "H = store_write_header s ?p"
  have g0: "wr_good s (Some (?c, s))" unfolding wr_good_def
    using ok by (intro conjI exI [of _ ?c] exI [of _ s] exI [of _ "store_stage s"] exI [of _ "content (drv s)"]) (auto simp: store_ok_def)
  have w0: "wr_written (Some (?c, s)) = []" by (simp add: wr_written_def region_def)
  have lf: "length (fs_image f) = ?n" by (rule length_fs_image [OF f(1)])
  define cs1 where "cs1 = fs_serialize_sink wr_emit (wr_emit (Some (?c, s)) H) f"
  have l16: "length H = 16" by (simp add: H_def)
  note e1 = disksink.emit_appends [OF g0, of H, unfolded w0]
  have h1: "wr_written (wr_emit (Some (?c, s)) H) = H" "wr_good s (wr_emit (Some (?c, s)) H)" using e1 sz l16 by simp_all
  have cs1: "wr_written cs1 = H @ fs_image f" "wr_good s cs1"
    unfolding cs1_def using disksink.serialize_written [OF h1(2), of f] h1(1) lf l16 sz f(2) store_sizes by auto
  then obtain c1 s1 st1 m1 where c1: "cs1 = Some (c1, s1)" "s1 = s\<lparr>store_stage := st1, drv := (drv s)\<lparr>content := m1\<rparr>\<rparr>" "length st1 = 65536"
    by (auto simp: wr_good_def)
  have off1: "wr_off c1 = 16 + ?n" using length_wr_written [of s c1 s1] cs1 c1 lf l16 by simp
  let ?buf = "overlay (store_cfgbuf s) (config_image a)"
  let ?s0 = "s\<lparr>store_cfgbuf := ?buf\<rparr>" and ?s1 = "s1\<lparr>store_cfgbuf := ?buf\<rparr>"
  have g1: "wr_good ?s0 (Some (c1, ?s1))" using wr_good_cfgbuf cs1(2) c1(1) by simp
  have wr1: "wr_written (Some (c1, ?s1)) = H @ fs_image f"
    using cs1(1) c1(1) by (simp add: wr_written_def region_def)
  have db: "data_bytes ?buf (store_cfg_need ?s1) = overlay (take config_store_size (store_cfgbuf s)) (config_image a)"
    using data_bytes_overlay [of "config_image a" config_store_size "store_cfgbuf s"] config_image_fits [of a] c1(2) sz store_sizes by simp
  define D where "D = overlay (take config_store_size (store_cfgbuf s)) (config_image a)"
  have lD: "length D = config_store_size" using config_image_fits [of a] sz store_sizes by (simp add: D_def overlay_def)
  from store_wr_sink_ok [OF g1, of D] off1 lD sz f(2) store_sizes obtain c2 s2 where c2:
    "store_wr_sink c1 D ?s1 = Some (c2, s2)" "wr_good ?s0 (Some (c2, s2))" "wr_written (Some (c2, s2)) = H @ fs_image f @ D"
    "wr_off c2 = 16 + ?p" using wr1 by auto
  from store_wr_flush_last [OF c2(2)] obtain c3 st m where c3: "store_wr_flush c2 s2 = (0, c3, ?s0\<lparr>store_stage := st, drv := (drv ?s0)\<lparr>content := m\<rparr>\<rparr>)"
    "\<not> wr_failed c3" "length st = 65536"
    "same_outside (store_lba ?s0) (store_lba ?s0 + store_capacity_sectors ?s0) (drv ?s0) ((drv ?s0)\<lparr>content := m\<rparr>)"
    "region (?s0\<lparr>store_stage := st, drv := (drv ?s0)\<lparr>content := m\<rparr>\<rparr>) 0 (wr_off c2) = wr_written (Some (c2, s2))" by blast
  let ?s3 = "?s0\<lparr>store_stage := st, drv := (drv ?s0)\<lparr>content := m\<rparr>, store_sectors := bytes_to_sectors (16 + ?p)\<rparr>"
  have img: "region ?s3 0 (16 + ?p) = disk_image s f a"
    using c3(5) c2(3,4) by (simp add: region_def disk_image_def H_def D_def)
  have ver: "store_verify ?p ?s3 = ?s3"
  proof -
    have "store_backend_read (store_lba ?s3) 1 ?s3 = (0, region ?s3 0 512)"
      using read_chunks_ok [of "backend s" "(drv s)\<lparr>content := m\<rparr>" "store_lba s" 1] ok sz(3)
      by (simp add: store_backend_read_def region_def store_ok_def no_errors_def add.commute [of 512 "512 * store_lba s"])
    moreover have "512 \<le> 16 + ?p" using fs_serialized_size_eq f(1) by (simp add: fs_ok_def fs_meta_size_def MAX_F_def MAX_D_def FS_PATH_CAP_def)
    then have "region ?s3 0 512 = take 512 (disk_image s f a)"
      using take_drop_region(1) [of 0 512 "16 + ?p" ?s3] img by simp
    then have "region ?s3 0 512 = store_write_header s ?p @ take 496 (fs_image f @ D)"
      by (simp add: disk_image_def D_def)
    moreover have "?p < 4294967296" using f(2) store_sizes by simp
    ultimately show ?thesis
      using header_fields [of ?p s] ok(3) en by (simp add: store_verify_def store_sized_def)
  qed
  have "store_autosave f a s = store_finish ?p (bytes_to_sectors (16 + ?p)) a (c1, s1)"
    using en u guard c1(1) unfolding store_autosave_def cs1_def H_def Let_def by (simp only: u not_True_eq_False if_False option.case)
  also have "\<dots> = Some ?s3"
  proof -
    have "config_serialize (Some (store_cfgbuf s1)) 16384 a = (0, Some ?buf)"
      using c1(2) by (simp add: config_serialize_def store_sizes)
    then show ?thesis using c2(1) c3(1,2) db ver unfolding store_finish_def D_def [symmetric] by (simp add: Let_def)
  qed
  finally show ?thesis using c3(3,4) img by (intro exI [of _ st] exI [of _ m]) (simp add: region_def add.assoc)
qed

lemma config_load:
  assumes "accounts_ok s" "arrays_ok t" "config_store_size \<le> n"
  shows "\<exists>t'. config_deserialize (Some (config_image s @ r)) n t = (0, t')
    \<and> accounts_ok t' \<and> view_users t' = view_users s \<and> view_groups t' = view_groups s
    \<and> hostname t' = hostname s \<and> is_setup t' = is_setup s"
proof -
  have "config_serialize (Some (config_image s @ r)) n s = (0, Some (config_image s @ r))"
    using assms(3) by (simp add: config_serialize_def overlay_def)
  then show ?thesis using config_roundtrip_aux [OF assms, of "config_image s @ r"] by auto
qed

lemma region_frame [simp]:
  "region (s\<lparr>store_stage := x\<rparr>) a b = region s a b" "region (s\<lparr>store_sectors := y\<rparr>) a b = region s a b"
  "region (s\<lparr>store_cfgbuf := z\<rparr>) a b = region s a b"
  by (simp_all add: region_def)

lemma store_load_ok:
  assumes ok: "store_ok s" "no_errors (drv s)" "store_sized s"
    and f: "fs_ok f" "saveable f" "fs_serialized_size f \<le> fs_store_size" and a: "accounts_ok a"
    and img: "region s 0 (16 + fs_serialized_size f + config_store_size) =
      store_write_header s (fs_serialized_size f + config_store_size) @ fs_image f @ D"
    and D: "D = config_image a @ z" "length D = config_store_size"
    and g: "bufs_ok g" "fpool_base (fs_pool g)" "pool_need f 0 + 24 \<le> pool_size (fs_pool g)" and b: "arrays_ok b"
  shows "\<exists>f' a' s'. store_load g b s = (True, f', a', s') \<and> restored f f' \<and> accounts_ok a'
    \<and> view_users a' = view_users a \<and> view_groups a' = view_groups a \<and> hostname a' = hostname a
    \<and> is_setup a' = is_setup a \<and> store_enabled s'"
proof -
  let ?n = "fs_serialized_size f" and ?p = "fs_serialized_size f + config_store_size"
  have sz: "store_cfg_need s = config_store_size" "store_fs_need s = fs_store_size" "store_capacity_sectors s = 98398"
    "length (store_cfgbuf s) = 16384" "build_lo s < 4294967296" "build_hi s < 4294967296"
    using ok(3) store_sizes by (auto simp: store_sized_def)
  have meta: "8 \<le> ?n" "512 \<le> 16 + ?p"
    using fs_serialized_size_eq f(1) by (auto simp: fs_ok_def fs_meta_size_def MAX_F_def MAX_D_def FS_PATH_CAP_def)
  have lt: "?p < 4294967296" "16 + ?p \<le> 512 * 98398" using f(3) store_sizes by simp_all
  have lf: "length (fs_image f) = ?n" by (rule length_fs_image [OF f(1)])
  define hd512 where "hd512 = region s 0 512"
  have h: "hd512 = store_write_header s ?p @ take 496 (fs_image f @ D)"
    using take_drop_region(1) [of 0 512 "16 + ?p" s] img meta(2) by (simp add: hd512_def add.assoc)
  have l512: "length hd512 = 512" by (simp add: hd512_def)
  have rd: "store_backend_read (store_lba s) 1 s = (0, hd512)"
    using read_chunks_ok [of "backend s" "drv s" "store_lba s" 1] ok sz(3)
    by (simp add: store_backend_read_def hd512_def region_def store_ok_def add.commute [of 512 "512 * store_lba s"])
  define st where "st = overlay (store_stage s) hd512"
  have st: "st = store_write_header s ?p @ (take 496 (fs_image f @ D) @ drop 512 (store_stage s))"
    unfolding st_def overlay_def l512 unfolding h by simp
  have lst: "length st = 65536" using l512 ok(1) by (simp add: st_def overlay_def store_ok_def)
  define s1 where "s1 = s\<lparr>store_stage := st, store_sectors := bytes_to_sectors (16 + ?p)\<rparr>"
  define c where "c = \<lparr>rd_off = 16, rd_end = 16 + ?p, win_off = 0, win_len = 0\<rparr>"
  have s1: "store_ok s1" "no_errors (drv s1)" using ok lst by (simp_all add: s1_def store_ok_def)
  have gd: "rd_ready s1 (c, s1)"
    using s1 lst lt sz(3) unfolding rd_ready_def rd_good_def by (auto simp: c_def s1_def)
  have rest: "rd_rest (c, s1) = fs_image f @ D"
    using take_drop_region(2) [of 0 16 "16 + ?p" s] img by (simp add: rd_rest_def c_def s1_def add.assoc)
  from disk.deserialize_image [OF gd f(2,1) g rest] obtain f' cs' where d: "fs_deserialize_fill store_rd_fill (c, s1) g = (0, f', cs')"
    "restored f f'" "rd_rest cs' = D" "rd_ready s1 cs'" by blast
  have "rd_rest cs' = D @ []" using d(3) by simp
  from disk.fill_next [OF d(4) this D(2)] obtain cs2 where r2: "store_rd_fill cs' config_store_size = (True, D, cs2)" "rd_ready s1 cs2" by blast
  have same: "store_cfg_need (snd cs') = config_store_size" "store_cfg_need (snd cs2) = config_store_size"
    "store_cfgbuf (snd cs2) = store_cfgbuf s"
    using d(4) r2(2) sz(1) by (auto simp: rd_ready_def rd_good_def s1_def)
  have "overlay (store_cfgbuf (snd cs2)) D = config_image a @ (z @ drop config_store_size (store_cfgbuf s))"
    using same(3) D by (simp add: overlay_def)
  with config_load [OF a b, of config_store_size] obtain a' where a': "config_deserialize (Some (overlay (store_cfgbuf (snd cs2)) D)) config_store_size b = (0, a')"
    "accounts_ok a'" "view_users a' = view_users a" "view_groups a' = view_groups a" "hostname a' = hostname a" "is_setup a' = is_setup a"
    by (metis order_refl)
  have u: "u32 (16 + ?p) = 16 + ?p" "u32 (8 + store_cfg_need s) = 8 + config_store_size"
    "u32 (store_fs_need s + store_cfg_need s) = fs_store_size + config_store_size"
    using lt sz store_sizes by simp_all
  have sec: "bytes_to_sectors (16 + ?p) \<le> store_capacity_sectors s" using bytes_to_sectors_le [OF lt(2)] lt sz(3) store_sizes f(3) by simp
  have ns: "\<not> store_capacity_sectors s1 < store_sectors s1" using sec by (simp add: s1_def)
  have hdr: "store_header_valid_at st" "le32_at (drop 4 st) = ?p" "store_header_matches_build_at (s\<lparr>store_stage := st\<rparr>) st"
    unfolding st using header_fields [OF lt(1) sz(5,6)] by (simp_all add: store_header_matches_build_at_def)
  have "store_load g b s = (True, f', a', (snd cs2)\<lparr>store_cfgbuf := overlay (store_cfgbuf (snd cs2)) D, store_enabled := True\<rparr>)"
    using rd hdr u ns meta f(3) sz(1,2) d(1) r2(1) same a'(1)
    unfolding store_load_def st_def [symmetric] c_def [symmetric]
    by (simp add: Let_def st_def [symmetric] s1_def [symmetric] c_def [symmetric])
  then show ?thesis using d(2) a' by simp
qed

section \<open>Properties\<close>

text \<open>C2. Persistence across a reboot: on a drive that reports no errors, saving ends, leaves persistence
  enabled and changes no byte outside the reserved region; loading at the next boot, whatever the
  staging buffer, the configuration buffer, the filesystem and the account tables then hold, restores
  every file and directory with owner and mode, the current directory, the accounts, the groups, the host
  name and the setup flag.\<close>

theorem saved_state_survives_reboot:
  assumes ok: "store_ok s" "no_errors (drv s)" "store_sized s" "store_enabled s"
    and f: "fs_ok f" "saveable f" "pool_size (fs_pool f) \<le> FS_DATA_POOL_SIZE" and a: "accounts_ok a"
    and g: "bufs_ok g" "fpool_base (fs_pool g)" "pool_need f 0 + 24 \<le> pool_size (fs_pool g)" and b: "arrays_ok b"
    and buf: "length st = 65536" "length cb = 16384"
  shows "\<exists>s1 f' a' s2. store_autosave f a s = Some s1 \<and> store_enabled s1
    \<and> same_outside (store_lba s) (store_lba s + store_capacity_sectors s) (drv s) (drv s1)
    \<and> store_load g b (s1\<lparr>store_stage := st, store_cfgbuf := cb, store_enabled := e\<rparr>) = (True, f', a', s2)
    \<and> fs_files f' = fs_files f \<and> fs_dirs f' = fs_dirs f \<and> cwd f' = cwd f \<and> fs_ok f'
    \<and> view_users a' = view_users a \<and> view_groups a' = view_groups a \<and> hostname a' = hostname a
    \<and> is_setup a' = is_setup a \<and> accounts_ok a' \<and> store_enabled s2"
proof -
  have dok: "data_ok f" using f(1) by (simp add: fs_ok_def)
  have "fs_store_size = fs_meta_size + FS_DATA_POOL_SIZE"
    by (simp add: fs_store_size_def fs_meta_size_def FS_DATA_POOL_SIZE_def MAX_F_def MAX_D_def FS_PATH_CAP_def)
  then have sz: "fs_serialized_size f \<le> fs_store_size"
    using fs_serialized_size_eq [OF dok] data_total_le_pool [OF dok] f(3) by simp
  from store_autosave_ok [OF ok f(1) sz, of a] obtain st1 m where sv: "store_autosave f a s = Some (s\<lparr>
      store_cfgbuf := overlay (store_cfgbuf s) (config_image a), store_stage := st1, drv := (drv s)\<lparr>content := m\<rparr>,
      store_sectors := bytes_to_sectors (16 + fs_serialized_size f + config_store_size)\<rparr>)"
    "same_outside (store_lba s) (store_lba s + store_capacity_sectors s) (drv s) ((drv s)\<lparr>content := m\<rparr>)"
    "region (s\<lparr>drv := (drv s)\<lparr>content := m\<rparr>\<rparr>) 0 (16 + fs_serialized_size f + config_store_size) = disk_image s f a"
    by blast
  define s1 where "s1 = s\<lparr>store_cfgbuf := overlay (store_cfgbuf s) (config_image a), store_stage := st1,
      drv := (drv s)\<lparr>content := m\<rparr>, store_sectors := bytes_to_sectors (16 + fs_serialized_size f + config_store_size)\<rparr>"
  define t where "t = s1\<lparr>store_stage := st, store_cfgbuf := cb, store_enabled := e\<rparr>"
  have t: "store_ok t" "no_errors (drv t)" "store_sized t"
    using ok buf by (simp_all add: t_def s1_def store_ok_def no_errors_def store_sized_def)
  define D where "D = overlay (take config_store_size (store_cfgbuf s)) (config_image a)"
  have lD: "length D = config_store_size" "D = config_image a @ drop (length (config_image a)) (take config_store_size (store_cfgbuf s))"
    using config_image_fits [of a] ok(3) by (auto simp: D_def overlay_def store_sized_def store_sizes)
  have img: "region t 0 (16 + fs_serialized_size f + config_store_size) =
      store_write_header t (fs_serialized_size f + config_store_size) @ fs_image f @ D"
    using sv(3) by (simp add: t_def s1_def region_def disk_image_def D_def store_write_header_def)
  from store_load_ok [OF t f(1,2) sz a img lD(2,1) g b] obtain f' a' s2 where L: "store_load g b t = (True, f', a', s2)"
    "restored f f'" "accounts_ok a'" "view_users a' = view_users a" "view_groups a' = view_groups a" "hostname a' = hostname a"
    "is_setup a' = is_setup a" "store_enabled s2" by blast
  note R = restored_maps [OF L(2) f(1)]
  have "store_enabled s1" "drv s1 = (drv s)\<lparr>content := m\<rparr>" using ok(4) by (simp_all add: s1_def)
  then show ?thesis using sv(1,2) L R unfolding t_def s1_def [symmetric] by metis
qed

subsection \<open>Where a save can write\<close>

text \<open>The writer's state, whatever the drive answers: at most one batch is staged, it starts at a sector
  boundary of the image, and it ends before the image does.\<close>

definition in_region :: "store \<Rightarrow> store \<Rightarrow> bool" where
  "in_region s0 s \<longleftrightarrow>
     store_lba s = store_lba s0 \<and> store_capacity_sectors s = store_capacity_sectors s0
     \<and> store_cfg_need s = store_cfg_need s0
     \<and> same_outside (store_lba s0) (store_lba s0 + store_capacity_sectors s0) (drv s0) (drv s)"

definition wr_inv :: "nat \<Rightarrow> store \<Rightarrow> store_wr_ctx \<Rightarrow> store \<Rightarrow> bool" where
  "wr_inv n s0 c s \<longleftrightarrow>
     in_region s0 s \<and> staged c \<le> 65536 \<and> staged c \<le> wr_off c \<and> wr_off c \<le> n \<and> 512 dvd wr_off c - staged c
     \<and> (staged c \<noteq> 0 \<longrightarrow> start_off c = wr_off c - staged c)"

definition room_ok :: "nat \<Rightarrow> store \<Rightarrow> bool" where
  "room_ok n s0 \<longleftrightarrow> n \<le> 512 * store_capacity_sectors s0 \<and> store_lba s0 + store_capacity_sectors s0 < 4294967296 \<and> n < 4294967296"

lemma stage_some_off:
  "stage_some c data s = (c', data', s') \<Longrightarrow> wr_off c + length data < 4294967296 \<Longrightarrow>
   wr_off c' + length data' = wr_off c + length data"
  by (auto simp: stage_some_def Let_def)

lemma stage_some_inv:
  assumes i: "wr_inv n s0 c s" and fit: "wr_off c + length data \<le> n" "room_ok n s0" and st: "stage_some c data s = (c', data', s')"
  shows "wr_inv n s0 c' s' \<and> wr_off c' + length data' \<le> n"
proof -
  define k where "k = min (65536 - staged c) (length data)"
  have c': "c' = (if staged c = 0 then c\<lparr>start_off := wr_off c\<rparr> else c)\<lparr>staged := staged c + k, wr_off := u32 (wr_off c + k)\<rparr>"
    "data' = drop k data" "\<exists>x. s' = s\<lparr>store_stage := x\<rparr>"
    using st by (auto simp: stage_some_def Let_def k_def)
  have k: "k \<le> length data" "staged c + k \<le> 65536" using i by (auto simp: k_def wr_inv_def)
  have u: "u32 (wr_off c + k) = wr_off c + k" using fit k by (simp add: room_ok_def)
  have "wr_off c' = wr_off c + k" "staged c' = staged c + k" using c'(1) u by simp_all
  moreover have "staged c' \<noteq> 0 \<Longrightarrow> start_off c' = wr_off c' - staged c'"
    using c'(1) u i by (auto simp: wr_inv_def split: if_splits)
  ultimately show ?thesis using i fit(1) k c'(2,3) by (auto simp: wr_inv_def in_region_def)
qed

lemma backend_write_frame:
  assumes "lba + n < 4294967296" "store_backend_write lba n b s = (rc, s')"
  shows "\<exists>d. s' = s\<lparr>drv := d\<rparr> \<and> same_outside lba (lba + n) (drv s) d"
proof (cases "n = 0 \<or> store_disk_sectors s < lba + n")
  case True
  then have "s' = s\<lparr>drv := drv s\<rparr>" using assms(2) by (auto simp: store_backend_write_def split: if_splits)
  then show ?thesis using same_outside_refl by blast
next
  case False
  obtain rc1 d where "write_chunks (backend s) (drv s) lba n b = (rc1, d)" by fastforce
  then show ?thesis using False assms write_chunks_frame [of lba n "backend s" "drv s" b rc1 d]
    by (auto simp: store_backend_write_def)
qed

lemma store_wr_flush_inv:
  assumes i: "wr_inv n s0 c s" and r: "room_ok n s0" and fl: "store_wr_flush c s = (rc, c', s')"
  shows "in_region s0 s'" "wr_off c' = wr_off c" "512 dvd staged c \<Longrightarrow> wr_inv n s0 c' s'"
proof -
  have "in_region s0 s' \<and> wr_off c' = wr_off c \<and> (512 dvd staged c \<longrightarrow> wr_inv n s0 c' s')"
  proof (cases "staged c = 0")
    case True
    then show ?thesis using fl i by (simp add: store_wr_flush_def wr_inv_def)
  next
    case False
    define secs where "secs = (staged c + 511) div 512"
    have secs: "u32 (staged c + 511) div 512 = secs" using i by (simp add: wr_inv_def secs_def)
    from fl False obtain x rc1 s1 where w: "store_backend_write (u32 (store_lba s + start_off c div 512)) secs x (s\<lparr>store_stage := x\<rparr>) = (rc1, s1)"
      "s' = s1" "c' = (if rc1 \<noteq> 0 then c\<lparr>wr_failed := True\<rparr> else c\<lparr>staged := 0\<rparr>)"
      unfolding store_wr_flush_def Let_def secs by (auto split: prod.splits if_splits)
    obtain q where q: "wr_off c - staged c = 512 * q" using i by (auto simp: wr_inv_def elim: dvdE)
    have so: "start_off c = 512 * q" "wr_off c = 512 * q + staged c" using i False q by (auto simp: wr_inv_def)
    have "512 * q + staged c \<le> 512 * store_capacity_sectors s0" using so(2) i r by (auto simp: room_ok_def wr_inv_def)
    then have fits: "q + secs \<le> store_capacity_sectors s0" unfolding secs_def by linarith
    have lba: "u32 (store_lba s + start_off c div 512) = store_lba s0 + q" "store_lba s0 + q + secs < 4294967296"
      using i r so(1) fits by (auto simp: wr_inv_def room_ok_def in_region_def)
    from backend_write_frame [OF lba(2) w(1) [unfolded lba(1)]] obtain d where d: "s1 = s\<lparr>store_stage := x, drv := d\<rparr>"
      "same_outside (store_lba s0 + q) (store_lba s0 + q + secs) (drv s) d" by auto
    have "same_outside (store_lba s0) (store_lba s0 + store_capacity_sectors s0) (drv s) d"
      by (rule same_outside_mono [OF d(2)]) (use fits in auto)
    then have reg: "in_region s0 s1" using d(1) i same_outside_trans by (auto simp: wr_inv_def in_region_def)
    moreover have "512 dvd wr_off c" if "512 dvd staged c" using that so(2) by simp
    ultimately show ?thesis using i w(2,3) by (auto simp: wr_inv_def)
  qed
  then show "in_region s0 s'" "wr_off c' = wr_off c" "512 dvd staged c \<Longrightarrow> wr_inv n s0 c' s'" by auto
qed

lemma store_wr_sink_inv:
  assumes "store_wr_sink c data s = Some (c', s')" "wr_inv n s0 c s" "wr_off c + length data \<le> n" "room_ok n s0"
  shows "wr_inv n s0 c' s' \<and> wr_off c' = wr_off c + length data"
proof -
  let ?P = "\<lambda>c data s cs'. wr_inv n s0 c s \<longrightarrow> wr_off c + length data \<le> n \<longrightarrow>
    wr_inv n s0 (fst cs') (snd cs') \<and> wr_off (fst cs') = wr_off c + length data"
  have "?P c data s (c', s')"
  proof (rule store_wr_sink.raw_induct [where P = ?P, OF _ assms(1)])
    fix f :: "store_wr_ctx \<Rightarrow> bytes \<Rightarrow> store \<Rightarrow> (store_wr_ctx \<times> store) option" and c data s cs'
    assume IH: "\<And>c data s y. f c data s = Some y \<Longrightarrow> ?P c data s y"
      and run: "(if data = [] then Some (c, s) else case stage_some c data s of (c, data, s) \<Rightarrow>
        if staged c = 65536 then (case store_wr_flush c s of (rc, c, s) \<Rightarrow> f c data s) else f c data s) = Some cs'"
    show "?P c data s cs'"
    proof (intro impI)
      assume i: "wr_inv n s0 c s" and l: "wr_off c + length data \<le> n"
      obtain c1 d1 s1 where st: "stage_some c data s = (c1, d1, s1)" by (metis prod_cases3)
      have k: "wr_off c1 + length d1 = wr_off c + length data" using stage_some_off [OF st] l assms(4) by (simp add: room_ok_def)
      note i1 = stage_some_inv [OF i l assms(4) st]
      obtain rc c2 s2 where fl: "store_wr_flush c1 s1 = (rc, c2, s2)" by (metis prod_cases3)
      note F = store_wr_flush_inv [OF _ assms(4) fl]
      have "data = [] \<and> cs' = (c, s) \<or> staged c1 = 65536 \<and> f c2 d1 s2 = Some cs' \<or> f c1 d1 s1 = Some cs'"
        using run unfolding st prod.case fl by (simp split: if_splits)
      then consider "data = []" "cs' = (c, s)" | "staged c1 = 65536" "f c2 d1 s2 = Some cs'" | "f c1 d1 s1 = Some cs'"
        by blast
      then show "wr_inv n s0 (fst cs') (snd cs') \<and> wr_off (fst cs') = wr_off c + length data"
      proof cases
        case 1
        then show ?thesis using i by simp
      next
        case 2
        have "wr_inv n s0 c2 s2" "wr_off c2 = wr_off c1" using F(2,3) i1 2(1) by simp_all
        then show ?thesis using IH [OF 2(2)] i1 k by simp
      next
        case 3
        then show ?thesis using IH [OF 3] i1 k by simp
      qed
    qed
  qed
  then show ?thesis using assms(2,3) by simp
qed

lemma wr_emit_None [simp]: "wr_emit None d = None" "foldl wr_emit None ds = None"
proof -
  show n: "wr_emit None d = None" for d by (simp add: wr_emit_def)
  show "foldl wr_emit None ds = None" by (induction ds) (simp_all add: n)
qed

lemma wr_emit_Some [simp]: "wr_emit (Some (c, s)) d = store_wr_sink c d s"
  by (simp add: wr_emit_def)

lemma wr_emit_all_inv:
  assumes "foldl wr_emit (Some (c, s)) ds = Some (c', s')" "wr_inv n s0 c s" "wr_off c + length (concat ds) \<le> n" "room_ok n s0"
  shows "wr_inv n s0 c' s' \<and> wr_off c' = wr_off c + length (concat ds)"
  using assms(1-3)
proof (induction ds arbitrary: c s)
  case (Cons d ds)
  then obtain c1 s1 where e: "store_wr_sink c d s = Some (c1, s1)"
    by (cases "store_wr_sink c d s") auto
  from store_wr_sink_inv [OF e Cons.prems(2) _ assms(4)] Cons.prems(3) have i: "wr_inv n s0 c1 s1" "wr_off c1 = wr_off c + length d"
    by auto
  then show ?case using Cons.IH [of c1 s1] Cons.prems e by simp
qed simp

lemma store_verify_frame [simp]: "drv (store_verify p s) = drv s"
  by (simp add: store_verify_def split: prod.splits)

lemma in_region_cfgbuf [simp]: "in_region s0 (s\<lparr>store_cfgbuf := b\<rparr>) = in_region s0 s"
  by (simp add: in_region_def)

lemma store_finish_region:
  assumes fin: "store_finish p k a (c, s) = Some s'" and i: "wr_inv n s0 c s" and r: "room_ok n s0"
    and n: "wr_off c + store_cfg_need s0 \<le> n"
  shows "same_outside (store_lba s0) (store_lba s0 + store_capacity_sectors s0) (drv s0) (drv s')"
proof -
  let ?b = "snd (config_serialize (Some (store_cfgbuf s)) 16384 a)"
  define s1 where "s1 = s\<lparr>store_cfgbuf := the ?b\<rparr>"
  have i1: "wr_inv n s0 c s1" using i by (simp add: s1_def wr_inv_def)
  have cn: "store_cfg_need s1 = store_cfg_need s0" using i by (simp add: s1_def wr_inv_def in_region_def)
  show ?thesis
  proof (cases "fst (config_serialize (Some (store_cfgbuf s)) 16384 a) \<noteq> 0")
    case True
    then have "s' = s1" using fin by (auto simp: store_finish_def s1_def Let_def split: prod.splits)
    then show ?thesis using i1 by (simp add: wr_inv_def in_region_def)
  next
    case False
    let ?d = "data_bytes (store_cfgbuf s1) (store_cfg_need s1)"
    from fin False obtain c2 s2 where w: "store_wr_sink c ?d s1 = Some (c2, s2)"
      "(case store_wr_flush c2 s2 of (rc, c, s) \<Rightarrow> if rc \<noteq> 0 \<or> wr_failed c then Some s
         else Some (store_verify p (s\<lparr>store_sectors := k\<rparr>))) = Some s'"
      unfolding store_finish_def s1_def Let_def by (auto split: prod.splits option.splits)
    have "wr_off c + length ?d \<le> n" using n cn by (simp add: data_bytes_def)
    from store_wr_sink_inv [OF w(1) i1 this r] have i2: "wr_inv n s0 c2 s2" by blast
    obtain rc c3 s3 where fl: "store_wr_flush c2 s2 = (rc, c3, s3)" by (metis prod_cases3)
    have "drv s' = drv s3" using w(2) fl by (auto split: if_splits)
    then show ?thesis using store_wr_flush_inv(1) [OF i2 r fl] by (simp add: in_region_def)
  qed
qed

text \<open>C14. Whatever errors the drive reports, and however much of a failed write reached it: a save that
  returns has changed no byte of the disk outside the sectors reserved for the Storefile.\<close>

theorem autosave_stays_in_region:
  assumes ok: "store_ok s" "store_sized s" and f: "fs_ok f" and run: "store_autosave f a s = Some s'"
  shows "same_outside (store_lba s) (store_lba s + store_capacity_sectors s) (drv s) (drv s')"
proof (cases "s' = s")
  case False
  let ?n = "fs_serialized_size f" and ?c = "\<lparr>wr_off = 0, staged = 0, start_off = 0, wr_failed = False\<rparr>"
  let ?p = "u32 (?n + store_cfg_need s)"
  have sz: "store_cfg_need s = 5004" "store_fs_need s = 50374376" "store_capacity_sectors s = 98398"
    using ok(2) store_sizes by (auto simp: store_sized_def)
  from run False obtain cs where cs: "foldl wr_emit (Some (?c, s)) (store_write_header s ?p # fs_serialize_chunks f) = Some cs"
    "store_finish ?p (bytes_to_sectors (u32 (16 + ?p))) a cs = Some s'" "?n \<le> store_fs_need s"
    unfolding store_autosave_def fs_serialize_sink_def Let_def by (auto split: if_splits option.splits)
  obtain c1 s1 where cs1: "cs = (c1, s1)" by fastforce
  let ?N = "512 * store_capacity_sectors s"
  have r: "room_ok ?N s" using ok(1) by (simp add: room_ok_def store_ok_def)
  have i0: "wr_inv ?N s ?c s" by (simp add: wr_inv_def in_region_def)
  have l: "length (concat (store_write_header s ?p # fs_serialize_chunks f)) = 16 + ?n"
    using length_fs_image [OF f] by (simp add: fs_image_def)
  have fit: "wr_off ?c + (16 + ?n) \<le> ?N" "16 + ?n + 5004 \<le> ?N" using cs(3) sz by simp_all
  from wr_emit_all_inv [OF cs(1) [unfolded cs1] i0 _ r] l fit have i1: "wr_inv ?N s c1 s1" "wr_off c1 = 16 + ?n" by auto
  show ?thesis using store_finish_region [OF cs(2) [unfolded cs1] i1(1) r] i1(2) fit(2) sz(1) by simp
qed simp

subsection \<open>A drive that rejects every write\<close>

definition all_fail :: "drive \<Rightarrow> bool" where
  "all_fail d \<longleftrightarrow> (\<forall>lba n. wr_err d lba n \<noteq> 0)"

lemma write_chunks_fails:
  assumes "all_fail d" "count \<noteq> 0"
  shows "\<exists>rc m. write_chunks be d lba count b = (rc, d\<lparr>content := m\<rparr>) \<and> rc \<noteq> 0"
proof (cases "be = BACKEND_NONE")
  case True
  then have "write_chunks be d lba count b = (- 1, d\<lparr>content := content d\<rparr>)" using assms(2) by (subst write_chunks.simps) simp
  then show ?thesis by (intro exI [of _ "- 1"] exI [of _ "content d"]) simp
next
  case False
  let ?k = "if count > 255 then 255 else count"
  have "write_chunks be d lba count b = drive_write lba ?k b d"
    using assms False by (subst write_chunks.simps) (simp add: Let_def drive_write_def all_fail_def)
  then show ?thesis using assms(1) by (auto simp: drive_write_def Let_def all_fail_def)
qed

lemma backend_write_fails:
  assumes "all_fail (drv s)" "n \<noteq> 0"
  shows "\<exists>rc d. store_backend_write lba n b s = (rc, s\<lparr>drv := d\<rparr>) \<and> rc \<noteq> 0 \<and> all_fail d"
proof (cases "lba + n > store_disk_sectors s")
  case True
  then have "store_backend_write lba n b s = (- 1, s\<lparr>drv := drv s\<rparr>)" using assms(2) by (simp add: store_backend_write_def)
  then show ?thesis using assms(1) by (intro exI [of _ "- 1"] exI [of _ "drv s"]) simp
next
  case False
  obtain rc m where "write_chunks (backend s) (drv s) lba n b = (rc, (drv s)\<lparr>content := m\<rparr>)" "rc \<noteq> 0"
    using write_chunks_fails [OF assms] by blast
  then show ?thesis using False assms by (intro exI [of _ rc] exI [of _ "(drv s)\<lparr>content := m\<rparr>"])
      (simp add: store_backend_write_def all_fail_def)
qed

text \<open>The batch stays staged, also when the flush fails with a full buffer.\<close>

lemma store_wr_flush_fails:
  assumes "all_fail (drv s)" "staged c \<noteq> 0" "staged c \<le> 65536"
  shows "\<exists>x d. store_wr_flush c s = (- 1, c\<lparr>wr_failed := True\<rparr>, s\<lparr>store_stage := x, drv := d\<rparr>) \<and> all_fail d"
proof -
  let ?n = "u32 (staged c + 511) div 512"
  let ?x = "take (staged c) (store_stage s) @ replicate (?n * 512 - staged c) NUL @ drop (staged c + (?n * 512 - staged c)) (store_stage s)"
  have "?n \<noteq> 0" using assms(2,3) by simp
  from backend_write_fails [OF _ this, of "s\<lparr>store_stage := ?x\<rparr>" "u32 (store_lba s + start_off c div 512)" ?x] assms(1)
  obtain rc d where "store_backend_write (u32 (store_lba s + start_off c div 512)) ?n ?x (s\<lparr>store_stage := ?x\<rparr>)
      = (rc, s\<lparr>store_stage := ?x, drv := d\<rparr>)" "rc \<noteq> 0" "all_fail d" by auto
  then show ?thesis using assms(2) by (intro exI [of _ ?x] exI [of _ d]) (simp add: store_wr_flush_def Let_def)
qed

lemma stage_some_full:
  "staged c = 65536 \<Longrightarrow> \<exists>x. stage_some c data s = (c\<lparr>wr_off := u32 (wr_off c)\<rparr>, data, s\<lparr>store_stage := x\<rparr>)"
  by (simp add: stage_some_def) (rule exI [of _ "store_stage s"], simp)

lemma store_wr_sink_stuck:
  assumes "all_fail (drv s)" "staged c = 65536" "data \<noteq> []"
  shows "store_wr_sink c data s = None"
proof (rule ccontr)
  let ?P = "\<lambda>c data s cs'. all_fail (drv s) \<longrightarrow> staged c = 65536 \<longrightarrow> data = []"
  assume "store_wr_sink c data s \<noteq> None"
  then obtain cs' where run: "store_wr_sink c data s = Some cs'" by blast
  have "?P c data s cs'"
  proof (rule store_wr_sink.raw_induct [where P = ?P, OF _ run])
    fix f :: "store_wr_ctx \<Rightarrow> bytes \<Rightarrow> store \<Rightarrow> (store_wr_ctx \<times> store) option" and c data s cs'
    assume IH: "\<And>c data s y. f c data s = Some y \<Longrightarrow> ?P c data s y"
      and run: "(if data = [] then Some (c, s) else case stage_some c data s of (c, data, s) \<Rightarrow>
        if staged c = 65536 then (case store_wr_flush c s of (rc, c, s) \<Rightarrow> f c data s) else f c data s) = Some cs'"
    show "?P c data s cs'"
    proof (intro impI)
      assume a: "all_fail (drv s)" "staged c = 65536"
      obtain x where st: "stage_some c data s = (c\<lparr>wr_off := u32 (wr_off c)\<rparr>, data, s\<lparr>store_stage := x\<rparr>)"
        using stage_some_full [OF a(2)] by blast
      obtain y d where fl: "store_wr_flush (c\<lparr>wr_off := u32 (wr_off c)\<rparr>) (s\<lparr>store_stage := x\<rparr>) =
          (- 1, c\<lparr>wr_off := u32 (wr_off c), wr_failed := True\<rparr>, s\<lparr>store_stage := y, drv := d\<rparr>)" "all_fail d"
        using store_wr_flush_fails [of "s\<lparr>store_stage := x\<rparr>" "c\<lparr>wr_off := u32 (wr_off c)\<rparr>"] a by auto
      show "data = []" using run IH fl(2) a(2) unfolding st prod.case fl(1) by (auto split: if_splits)
    qed
  qed
  then show False using assms by simp
qed

lemma store_wr_sink_Nil [simp]: "store_wr_sink c [] s = Some (c, s)"
  by (subst store_wr_sink.simps) simp

lemma store_wr_sink_failing:
  assumes f: "all_fail (drv s)" and b: "staged c \<le> 65536"
  shows "(if staged c + length data \<le> 65536
     then \<exists>c' x d. store_wr_sink c data s = Some (c', s\<lparr>store_stage := x, drv := d\<rparr>) \<and> staged c' = staged c + length data \<and> all_fail d
     else store_wr_sink c data s = None)"
proof (cases "data = []")
  case True
  then show ?thesis using f b by (auto intro!: exI [of _ c] exI [of _ "store_stage s"] exI [of _ "drv s"])
next
  case ne: False
  show ?thesis
  proof (cases "staged c = 65536")
    case True
    then show ?thesis using store_wr_sink_stuck [OF f True ne] ne by simp
  next
    case False
    define k where "k = min (65536 - staged c) (length data)"
    have sc: "staged (if staged c = 0 then c\<lparr>start_off := wr_off c\<rparr> else c) = staged c" by simp
    obtain c1 x where st: "stage_some c data s = (c1, drop k data, s\<lparr>store_stage := x\<rparr>)" "staged c1 = staged c + k"
      unfolding stage_some_def Let_def k_def sc by simp
    have un: "store_wr_sink c data s = (if staged c + k = 65536
       then (case store_wr_flush c1 (s\<lparr>store_stage := x\<rparr>) of (rc, c, s) \<Rightarrow> store_wr_sink c (drop k data) s)
       else store_wr_sink c1 (drop k data) (s\<lparr>store_stage := x\<rparr>))"
      using ne st by (subst store_wr_sink.simps) simp
    show ?thesis
    proof (cases "staged c + k = 65536")
      case True
      with store_wr_flush_fails [of "s\<lparr>store_stage := x\<rparr>" c1] st(2) f obtain y d where
        fl: "store_wr_flush c1 (s\<lparr>store_stage := x\<rparr>) = (- 1, c1\<lparr>wr_failed := True\<rparr>, s\<lparr>store_stage := y, drv := d\<rparr>)" "all_fail d" by auto
      have u: "store_wr_sink c data s = store_wr_sink (c1\<lparr>wr_failed := True\<rparr>) (drop k data) (s\<lparr>store_stage := y, drv := d\<rparr>)"
        using un True fl(1) by simp
      show ?thesis
      proof (cases "drop k data = []")
        case e: True
        then have "staged c + length data \<le> 65536" "staged c + length data = 65536" using True k_def by auto
        then show ?thesis using u e st(2) True fl(2) by auto
      next
        case e: False
        then have "\<not> staged c + length data \<le> 65536" using True by simp
        then show ?thesis using u store_wr_sink_stuck [OF _ _ e] st(2) True fl(2) by simp
      qed
    next
      case lt: False
      then have e: "drop k data = []" "k = length data" "staged c + length data \<le> 65536" using b by (auto simp: k_def min_def split: if_splits)
      then have "store_wr_sink c data s = Some (c1, s\<lparr>store_stage := x, drv := drv s\<rparr>)" using un lt by simp
      then have "\<exists>c' x d. store_wr_sink c data s = Some (c', s\<lparr>store_stage := x, drv := d\<rparr>) \<and> staged c' = staged c + length data \<and> all_fail d"
        using e(2) st(2) f by blast
      then show ?thesis using e(3) by simp
    qed
  qed
qed

lemma wr_emit_all_failing:
  assumes "all_fail (drv s)" "staged c \<le> 65536"
  shows "(if staged c + length (concat ds) \<le> 65536
     then \<exists>c' x d. foldl wr_emit (Some (c, s)) ds = Some (c', s\<lparr>store_stage := x, drv := d\<rparr>)
       \<and> staged c' = staged c + length (concat ds) \<and> all_fail d
     else foldl wr_emit (Some (c, s)) ds = None)"
  using assms
proof (induction ds arbitrary: c s)
  case Nil
  then show ?case by (auto intro!: exI [of _ "store_stage s"] exI [of _ "drv s"])
next
  case (Cons d ds)
  note S = store_wr_sink_failing [OF Cons.prems, of d]
  show ?case
  proof (cases "staged c + length d \<le> 65536")
    case True
    with S obtain c1 x e where r: "store_wr_sink c d s = Some (c1, s\<lparr>store_stage := x, drv := e\<rparr>)" "staged c1 = staged c + length d" "all_fail e"
      by auto
    show ?thesis using Cons.IH [of "s\<lparr>store_stage := x, drv := e\<rparr>" c1] r True by (auto simp: add.assoc split: if_splits)
  next
    case False
    then show ?thesis using S by simp
  qed
qed

lemma autosave_failing_aux:
  assumes ok: "store_sized s" "store_enabled s" "all_fail (drv s)"
    and f: "fs_ok f" "fs_serialized_size f \<le> fs_store_size"
  shows "store_autosave f a s = None \<longleftrightarrow> 16 + fs_serialized_size f + config_store_size > 65536"
proof -
  let ?n = "fs_serialized_size f" and ?p = "fs_serialized_size f + config_store_size"
  let ?c = "\<lparr>wr_off = 0, staged = 0, start_off = 0, wr_failed = False\<rparr>"
  let ?ds = "store_write_header s ?p # fs_serialize_chunks f"
  have sz: "store_cfg_need s = config_store_size" "store_fs_need s = fs_store_size" "store_capacity_sectors s = 98398"
    "length (store_cfgbuf s) = 16384" using ok(1) store_sizes by (auto simp: store_sized_def)
  have u: "u32 (?n + store_cfg_need s) = ?p" "u32 (16 + ?p) = 16 + ?p" "u32 (store_capacity_sectors s * 512) = 50379776"
    "u32_sub 50379776 16 = 50379760"
    using f(2) sz store_sizes by (simp_all add: u32_sub_le)
  have guard: "\<not> (?n > store_fs_need s \<or> ?p > 50379760 \<or> bytes_to_sectors (16 + ?p) > store_capacity_sectors s)"
    using f(2) sz store_sizes bytes_to_sectors_le [of "16 + ?p" 98398] by auto
  have run: "store_autosave f a s = (case foldl wr_emit (Some (?c, s)) ?ds of None \<Rightarrow> None
      | Some cs \<Rightarrow> store_finish ?p (bytes_to_sectors (16 + ?p)) a cs)"
    using ok(2) u guard unfolding store_autosave_def fs_serialize_sink_def Let_def
    by (simp only: u not_True_eq_False if_False foldl.simps)
  have l: "length (concat ?ds) = 16 + ?n" using length_fs_image [OF f(1)] by (simp add: fs_image_def)
  have c0: "staged ?c \<le> 65536" by simp
  have W: "if 16 + ?n \<le> 65536 then \<exists>c' x d. foldl wr_emit (Some (?c, s)) ?ds = Some (c', s\<lparr>store_stage := x, drv := d\<rparr>)
       \<and> staged c' = 16 + ?n \<and> all_fail d
     else foldl wr_emit (Some (?c, s)) ?ds = None"
    using wr_emit_all_failing [OF ok(3) c0, of ?ds] unfolding l by (simp only: store_wr_ctx.select_convs add_0)
  show ?thesis
  proof (cases "16 + ?n \<le> 65536")
    case True
    with W obtain c' x d where r: "foldl wr_emit (Some (?c, s)) ?ds = Some (c', s\<lparr>store_stage := x, drv := d\<rparr>)"
      "staged c' = 16 + ?n" "all_fail d" by auto
    let ?buf = "overlay (store_cfgbuf s) (config_image a)"
    let ?s = "s\<lparr>store_stage := x, drv := d, store_cfgbuf := ?buf\<rparr>"
    have cs: "config_serialize (Some (store_cfgbuf s)) 16384 a = (0, Some ?buf)" by (simp add: config_serialize_def store_sizes)
    have D: "length (data_bytes ?buf config_store_size) = config_store_size" by (simp add: data_bytes_def)
    have "store_autosave f a s = None \<longleftrightarrow> store_wr_sink c' (data_bytes ?buf config_store_size) ?s = None"
      using run r(1) cs sz(1) by (simp add: store_finish_def Let_def split: option.split prod.split)
    also have "\<dots> \<longleftrightarrow> \<not> staged c' + config_store_size \<le> 65536"
      using store_wr_sink_failing [of ?s c' "data_bytes ?buf config_store_size"] r(2,3) True unfolding D by (auto split: if_splits)
    finally show ?thesis using r(2) by auto
  next
    case False
    then show ?thesis using run W by simp
  qed
qed

text \<open>A drive that rejects every write: a save of an image of more than one staging buffer (64 KiB) never
  returns, because the writer keeps a batch it could not write and waits for room in the full buffer;
  a smaller image is given up and the save returns.\<close>

theorem autosave_hangs_on_failing_drive:
  assumes ok: "store_sized s" "store_enabled s" "all_fail (drv s)"
    and f: "fs_ok f" "fs_serialized_size f \<le> fs_store_size"
  shows "store_autosave f a s = None \<longleftrightarrow> 16 + fs_serialized_size f + config_store_size > 65536"
  by (rule autosave_failing_aux [OF assms])

subsection \<open>Where the region lies\<close>

text \<open>A deserializer keeps what its source keeps.\<close>

locale source_frame =
  fixes fill :: "'c fill" and P :: "'c \<Rightarrow> bool"
  assumes fill_keeps: "P c \<Longrightarrow> fill c len = (ok, b, c') \<Longrightarrow> P c'"
begin

lemma keeps [simp]: "P c \<Longrightarrow> P (snd (snd (fill c len)))"
  by (metis fill_keeps prod.collapse)

lemma fill_names_keeps [simp]: "P c \<Longrightarrow> P (snd (snd (fill_names fill is tab c)))"
  by (induction "is" arbitrary: tab c) (simp_all add: Let_def case_prod_beta)

lemma fill_sizes_keeps [simp]: "P c \<Longrightarrow> P (snd (snd (fill_sizes fill is tab c)))"
  by (induction "is" arbitrary: tab c) (simp_all add: case_prod_beta)

lemma fill_data_keeps [simp]: "P c \<Longrightarrow> P (snd (snd (fill_data fill is s c)))"
  by (induction "is" arbitrary: s c) (simp_all add: Let_def case_prod_beta)

lemma fill_owners_keeps [simp]: "P c \<Longrightarrow> P (snd (snd (fill_owners fill is tb c)))"
  by (induction "is" arbitrary: tb c) (simp_all add: Let_def case_prod_beta)

lemma keeps_eq:
  "fill c len = (ok, b, c') \<Longrightarrow> P c \<Longrightarrow> P c'"
  "fill_names fill is tab c = (ok, tab', c') \<Longrightarrow> P c \<Longrightarrow> P c'"
  "fill_sizes fill is tz c = (ok, tz', c') \<Longrightarrow> P c \<Longrightarrow> P c'"
  "fill_data fill is s c = (ok, s', c') \<Longrightarrow> P c \<Longrightarrow> P c'"
  "fill_owners fill is tb c = (ok, tb', c') \<Longrightarrow> P c \<Longrightarrow> P c'"
  using keeps [of c len] fill_names_keeps [of c "is" tab] fill_sizes_keeps [of c "is" tz] fill_data_keeps [of c "is" s]
    fill_owners_keeps [of c "is" tb] by (metis snd_conv)+

lemma fill_tail_keeps: "fill_tail fill s c = (rc, s', c') \<Longrightarrow> P c \<Longrightarrow> P c'"
  unfolding fill_tail_def Let_def by (auto split: prod.splits if_splits; meson keeps_eq)

lemma fill_files_keeps: "fill_files fill s c = (rc, s', c') \<Longrightarrow> P c \<Longrightarrow> P c'"
  unfolding fill_files_def Let_def by (auto split: prod.splits if_splits; meson keeps_eq fill_tail_keeps)

lemma deserialize_keeps: "fs_deserialize_fill fill c s = (rc, s', c') \<Longrightarrow> P c \<Longrightarrow> P c'"
  unfolding fs_deserialize_fill_def Let_def by (auto split: prod.splits if_splits; meson keeps_eq fill_files_keeps)

end

text \<open>The fields of the store that saving and loading leave alone.\<close>

definition same_place :: "store \<Rightarrow> store \<Rightarrow> bool" where
  "same_place s t \<longleftrightarrow> store_lba t = store_lba s \<and> store_capacity_sectors t = store_capacity_sectors s
     \<and> store_disk_sectors t = store_disk_sectors s"

lemma same_place_refl [simp]: "same_place s s"
  by (simp add: same_place_def)

lemma same_place_upd [simp]:
  "same_place s (t\<lparr>store_stage := x\<rparr>) = same_place s t" "same_place s (t\<lparr>store_cfgbuf := x\<rparr>) = same_place s t"
  "same_place s (t\<lparr>store_enabled := e\<rparr>) = same_place s t" "same_place s (t\<lparr>store_sectors := n\<rparr>) = same_place s t"
  "same_place s (t\<lparr>drv := d\<rparr>) = same_place s t"
  by (simp_all add: same_place_def)

lemma rd_window_place: "rd_window c t = Some (c', t') \<Longrightarrow> same_place s t \<Longrightarrow> same_place s t'"
  by (auto simp: rd_window_def rd_refill_def Let_def split: if_splits prod.splits)

lemma store_rd_fill_place: "store_rd_fill cs len = (ok, b, cs') \<Longrightarrow> same_place s (snd cs) \<Longrightarrow> same_place s (snd cs')"
proof (induction cs len arbitrary: ok b cs' rule: store_rd_fill.induct)
  case (1 cs len)
  show ?case
  proof (cases "len = 0 \<or> u32 (rd_off (fst cs) + len) > rd_end (fst cs) \<or> rd_window (fst cs) (snd cs) = None")
    case True
    then show ?thesis using 1(2,3) by (subst (asm) store_rd_fill.simps) (auto split: if_splits)
  next
    case False
    then obtain c t where w: "rd_window (fst cs) (snd cs) = Some (c, t)" by auto
    let ?k = "min (win_len c - u32_sub (rd_off c) (win_off c)) len"
    obtain ok' r cs'' where r: "store_rd_fill (c\<lparr>rd_off := u32 (rd_off c + ?k)\<rparr>, t) (len - ?k) = (ok', r, cs'')"
      by (metis prod_cases3)
    have "cs' = cs''" using 1(2) False w r by (subst (asm) store_rd_fill.simps) (simp add: Let_def)
    then show ?thesis using 1(1) [OF _ _ w refl refl refl refl _ , simplified, of ok' r cs''] r rd_window_place [OF w 1(3)] False by simp
  qed
qed

interpretation disk_frame: source_frame store_rd_fill "\<lambda>cs. same_place s (snd cs)" for s
  by unfold_locales (rule store_rd_fill_place)

lemma disk_load_place:
  "fs_deserialize_fill store_rd_fill cs f = (rc, f', cs') \<Longrightarrow> same_place t (snd cs) \<Longrightarrow> same_place t (snd cs')"
  by (rule disk_frame.deserialize_keeps)

lemma store_load_place: "store_load f a t = (ok, f', a', t') \<Longrightarrow> same_place s t \<Longrightarrow> same_place s t'"
  unfolding store_load_def Let_def
  by (auto split: prod.splits if_splits dest!: disk_load_place [where t = s] store_rd_fill_place [where s = s])

lemma store_backend_write_place: "store_backend_write lba n b t = (rc, t') \<Longrightarrow> same_place s t' = same_place s t"
  by (auto simp: store_backend_write_def split: if_splits prod.splits)

lemma store_wr_flush_place: "store_wr_flush c t = (rc, c', t') \<Longrightarrow> same_place s t' = same_place s t"
  by (auto simp: store_wr_flush_def Let_def store_backend_write_place [where s = s] split: if_splits prod.splits)

lemma store_wr_sink_place:
  assumes "store_wr_sink c data t = Some cs'" "same_place s t"
  shows "same_place s (snd cs')"
proof -
  let ?P = "\<lambda>c data t cs'. same_place s t \<longrightarrow> same_place s (snd cs')"
  have "?P c data t cs'"
  proof (rule store_wr_sink.raw_induct [where P = ?P, OF _ assms(1)])
    fix f :: "store_wr_ctx \<Rightarrow> bytes \<Rightarrow> store \<Rightarrow> (store_wr_ctx \<times> store) option" and c data t cs'
    assume IH: "\<And>c data t y. f c data t = Some y \<Longrightarrow> ?P c data t y"
      and run: "(if data = [] then Some (c, t) else case stage_some c data t of (c, data, t) \<Rightarrow>
        if staged c = 65536 then (case store_wr_flush c t of (rc, c, t) \<Rightarrow> f c data t) else f c data t) = Some cs'"
    obtain c1 d1 x where st: "stage_some c data t = (c1, d1, t\<lparr>store_stage := x\<rparr>)" by (simp add: stage_some_def Let_def)
    show "?P c data t cs'"
      using run unfolding st prod.case
      by (auto split: if_splits prod.splits dest!: IH dest: store_wr_flush_place [where s = s])
  qed
  then show ?thesis using assms(2) by simp
qed

lemma wr_emit_all_place: "foldl wr_emit (Some (c, t)) ds = Some cs' \<Longrightarrow> same_place s t \<Longrightarrow> same_place s (snd cs')"
proof (induction ds arbitrary: c t)
  case (Cons d ds)
  then obtain cs1 where "store_wr_sink c d t = Some cs1" by (cases "store_wr_sink c d t") auto
  then show ?case using Cons.IH [of "fst cs1" "snd cs1"] Cons.prems store_wr_sink_place [of c d t cs1 s] by simp
qed auto

lemma store_finish_place: "store_finish p k a (c, t) = Some t' \<Longrightarrow> same_place s t \<Longrightarrow> same_place s t'"
  unfolding store_finish_def Let_def
  by (auto simp: store_verify_def split: prod.splits option.splits if_splits
      dest!: store_wr_sink_place [where s = s] dest: store_wr_flush_place [where s = s])

lemma store_autosave_place: "store_autosave f a t = Some t' \<Longrightarrow> same_place s t \<Longrightarrow> same_place s t'"
  unfolding store_autosave_def fs_serialize_sink_def Let_def foldl.simps(2) [symmetric]
  by (auto simp del: foldl.simps split: if_splits option.splits dest!: wr_emit_all_place [where s = s] store_finish_place [where s = s])

lemma store_init_eq:
  assumes d: "find_disk hw t = Some (n, u)" "n < 4294967296"
    and t: "t = s\<lparr>store_fs_need := fs_store_size, store_cfg_need := config_store_size,
                  store_capacity_sectors := 98398, store_sectors := 1\<rparr>"
  shows "store_init livecd hw mb home f a s =
     (if boot_is_livecd livecd mb then Some (ram_session home f a (u\<lparr>store_disk_sectors := n\<rparr>))
      else if n < 98398 + 16 + 16384 then Some (Panic 57 (n div 2048))
      else case store_load f a (u\<lparr>store_disk_sectors := n, store_lba := n - 98414\<rparr>) of (ok, f, a, s) \<Rightarrow>
        if ok then Some (Booted s f a) else store_fresh mb home f a s)"
    and "store_capacity_sectors u = 98398"
proof -
  let ?u = "u\<lparr>store_disk_sectors := n\<rparr>" and ?v = "u\<lparr>store_disk_sectors := n, store_lba := n - 98414\<rparr>"
  show cap: "store_capacity_sectors u = 98398"
    using d(1) t by (auto simp: find_disk_def split: option.splits)
  have mib: "store_mib_ceil (store_min_disk_sectors x) = 57" if "store_capacity_sectors x = 98398" for x
    using that by (simp add: store_mib_ceil_def store_min_disk_sectors_def)
  have fl: "store_mib_floor n = n div 2048"
    using d(2) div_mult2_eq [of "n * 512" 512 2048] by (simp add: store_mib_floor_def)
  let ?s = "s\<lparr>store_fs_need := fs_store_size, store_cfg_need := config_store_size\<rparr>"
  have arg: "?s\<lparr>store_capacity_sectors := bytes_to_sectors (u32 (16 + store_fs_need ?s + store_cfg_need ?s)), store_sectors := 1\<rparr> = t"
    by (simp add: t store_sizes bytes_to_sectors_def)
  have "n > 98446 \<and> \<not> n - 98414 < 16384 \<longleftrightarrow> \<not> n < 98398 + 16 + 16384" by auto
  then show "store_init livecd hw mb home f a s =
     (if boot_is_livecd livecd mb then Some (ram_session home f a ?u)
      else if n < 98398 + 16 + 16384 then Some (Panic 57 (n div 2048))
      else case store_load f a ?v of (ok, f, a, s) \<Rightarrow> if ok then Some (Booted s f a) else store_fresh mb home f a s)"
    using d(2) cap mib [of ?u] mib [of ?v] fl
    unfolding store_init_def Let_def arg d(1) option.case prod.case by auto
qed


subsection \<open>The size of the pool\<close>

text \<open>Writing a file works on the bytes of the pool and leaves its size alone.\<close>

lemma pool_bytes_keeps:
  "fpool_alloc n P = (r, P') \<Longrightarrow> fpool_bytes P' = fpool_bytes P"
  by (auto simp: fpool_alloc_def split: prod.splits if_splits)

lemma pool_copy_bytes [simp]: "fpool_bytes (pool_copy p q n P) = fpool_bytes P"
  by (induction n) (auto simp: pool_copy_def)

lemma fdata_write_bytes [simp]: "fpool_bytes (fs_pool (fdata_write i off b s)) = fpool_bytes (fs_pool s)"
  by (induction b arbitrary: off s) (auto simp: fdata_put_def split: option.splits)

lemma fs_commit_pool [simp]: "fs_pool (fs_commit_change s) = fs_pool s"
  by (simp add: fs_commit_change_def store_hook_def)

lemma fs_create_file_pool: "fs_create_file p s = (rc, s') \<Longrightarrow> fs_pool s' = fs_pool s"
  by (auto simp: fs_create_file_def may_modify_parent_def fs_deny_def Let_def split: if_splits option.splits prod.splits bool.splits)

lemma fdata_resize_pool: "fdata_resize i n s = (rc, s') \<Longrightarrow> fpool_bytes (fs_pool s') = fpool_bytes (fs_pool s)"
  by (auto simp: fdata_resize_def Let_def dest: pool_bytes_keeps split: if_splits prod.splits option.splits)

lemma fdata_put_bytes [simp]: "fpool_bytes (fs_pool (fdata_put i n c s)) = fpool_bytes (fs_pool s)"
  by (auto simp: fdata_put_def split: option.splits)

lemma write_slot_pool: "write_slot i d n s = (0, s') \<Longrightarrow> fpool_bytes (fs_pool s') = fpool_bytes (fs_pool s)"
  by (auto simp: write_slot_def dest!: fdata_resize_pool split: if_splits prod.splits)

lemma fs_write_file_pool: "fs_write_file p d n s = (0, s') \<Longrightarrow> fpool_bytes (fs_pool s') = fpool_bytes (fs_pool s)"
  by (auto simp: fs_write_file_def Let_def dest!: write_slot_pool fs_create_file_pool split: if_splits prod.splits option.splits)

lemma fs_meta_bytes: "fs_meta_size = 42728"
  by (simp add: fs_meta_size_def MAX_F_def MAX_D_def FS_PATH_CAP_def)

lemma hello_pool: "pool_size (fs_pool hello_fs) = 4096" "fs_serialized_size hello_fs \<le> 46824"
proof -
  show p: "pool_size (fs_pool hello_fs) = 4096" using fs_write_file_pool [OF hello_fs_write] fresh_bufs(3) by simp
  have "data_ok hello_fs" using hello_fs_ok(1) by (simp add: fs_ok_def)
  then show "fs_serialized_size hello_fs \<le> 46824"
    using fs_serialized_size_eq [of hello_fs] data_total_le_pool [of hello_fs] p fs_meta_bytes by simp
qed

subsection \<open>Concrete disks\<close>

definition plain_drive :: "int \<Rightarrow> drive" where
  "plain_drive e = \<lparr>content = (\<lambda>_. NUL), rd_err = (\<lambda>_ _. 0), wr_err = (\<lambda>_ _. e), wr_torn = (\<lambda>_ _. 0)\<rparr>"

definition plain_store :: "int \<Rightarrow> store" where
  "plain_store e =
     \<lparr>store_lba = 16384, store_stage = replicate 65536 NUL, store_cfgbuf = replicate 16384 NUL, store_enabled = True,
      store_sectors = 1, store_capacity_sectors = 98398, store_fs_need = fs_store_size, store_cfg_need = config_store_size,
      store_disk_sectors = 114798, store_channel = 0, store_drive = 0, backend = BACKEND_ATA, drv = plain_drive e,
      build_lo = 1, build_hi = 0\<rparr>"

lemma plain_store_ok: "store_ok (plain_store e)" "store_sized (plain_store e)" "store_enabled (plain_store e)"
    "store_lba (plain_store e) = 16384" "store_capacity_sectors (plain_store e) = 98398" "drv (plain_store e) = plain_drive e"
  using store_sizes(3) by (simp_all add: store_ok_def store_sized_def plain_store_def)

lemma plain_drive_errors: "no_errors (plain_drive 0)" "e \<noteq> 0 \<Longrightarrow> all_fail (plain_drive e)"
  by (simp_all add: no_errors_def all_fail_def plain_drive_def)

theorem saved_state_survives_reboot_witness:
  "\<exists>s1 f' a' s2. store_autosave hello_fs carl_accounts (plain_store 0) = Some s1
    \<and> store_load fresh_fs boot_accounts
        (s1\<lparr>store_stage := replicate 65536 NUL, store_cfgbuf := replicate 16384 NUL, store_enabled := False\<rparr>) = (True, f', a', s2)
    \<and> fs_files f' ''/a'' = Some (''hello'', 0, 420) \<and> view_users a' = [(''root'', [], 0), (''carl'', ''secret'', 1000)]"
proof -
  have P: "pool_size (fs_pool hello_fs) \<le> FS_DATA_POOL_SIZE" "pool_need hello_fs 0 + 24 \<le> pool_size (fs_pool fresh_fs)"
    using hello_pool(1) hello_saveable(2) fresh_bufs(3) by (simp_all add: FS_DATA_POOL_SIZE_def)
  have A: "no_errors (drv (plain_store 0))" "arrays_ok boot_accounts"
    using plain_drive_errors(1) boot_accounts_ok by (simp_all add: plain_store_ok accounts_ok_def)
  from saved_state_survives_reboot [OF plain_store_ok(1) A(1) plain_store_ok(2,3) hello_fs_ok(1) hello_saveable(1) P(1) carl_accounts_ok(1)
      fresh_bufs(1,2) P(2) A(2), of "replicate 65536 NUL" "replicate 16384 NUL" False]
  show ?thesis unfolding hello_fs_ok(2) carl_accounts_ok(2) by (simp only: length_replicate) fastforce
qed

theorem autosave_stays_in_region_witness:
  "\<exists>s'. store_autosave hello_fs carl_accounts (plain_store 1) = Some s' \<and> same_outside 16384 114782 (plain_drive 1) (drv s')"
proof -
  obtain s' where r: "store_autosave hello_fs carl_accounts (plain_store 1) = Some s'"
    using autosave_failing_aux [OF plain_store_ok(2,3), of 1 hello_fs carl_accounts] hello_fs_ok(1) hello_pool(2)
      plain_drive_errors(2) [of 1] by (auto simp: plain_store_ok store_sizes)
  then show ?thesis using autosave_stays_in_region [OF plain_store_ok(1,2) hello_fs_ok(1) r] by (simp add: plain_store_ok)
qed

text \<open>A pool of 40960 bytes holds a file of 20000 bytes, and its image needs more than one batch.\<close>

definition roomy_fs :: fs where
  "roomy_fs = fs_init (boot_fs\<lparr>fs_pool := \<lparr>fpool_base = True, fpool_bytes = 40960, fpool_mem = (\<lambda>_. NUL)\<rparr>\<rparr>)"

lemma roomy_fs_ok:
  "fs_ok roomy_fs" "fs_files roomy_fs = Map.empty" "fs_dirs roomy_fs = [''/'' \<mapsto> (0, 493)]" "cstr (cwd roomy_fs) = ''/''"
  "fs_cur_uid roomy_fs = 0" "pool_blocks (fs_pool roomy_fs) = [(40952, True)]"
proof -
  let ?b = "boot_fs\<lparr>fs_pool := \<lparr>fpool_base = True, fpool_bytes = 40960, fpool_mem = (\<lambda>_. NUL)\<rparr>\<rparr>"
  have b: "bufs_ok ?b" by (simp add: bufs_ok_def boot_fs_def buf_ok_def)
  have P: "fpool_base (fs_pool ?b)" "8 < pool_size (fs_pool ?b)" by simp_all
  show "fs_ok roomy_fs" "fs_files roomy_fs = Map.empty" "fs_dirs roomy_fs = [''/'' \<mapsto> (0, 493)]"
    "cstr (cwd roomy_fs) = ''/''"
    unfolding roomy_fs_def by (rule fs_init_ok [OF b P])+
  show "fs_cur_uid roomy_fs = 0" by (simp add: roomy_fs_def fs_init_def boot_fs_def)
  show "pool_blocks (fs_pool roomy_fs) = [(40952, True)]" using fpool_init_law(3) [OF P] by (simp add: roomy_fs_def fs_init_def)
qed

definition big_fs :: fs where
  "big_fs = snd (fs_write_file (Some ''/a'') (Some (replicate 20000 CHR ''x'')) 20000 roomy_fs)"

lemma big_fs_write: "fs_write_file (Some ''/a'') (Some (replicate 20000 CHR ''x'')) 20000 roomy_fs = (0, big_fs)"
proof -
  have a: "abs_path (cwd roomy_fs) ''/a'' = ''/a''"
    by (simp add: abs_path_def abs_combined_def abs_walk.simps abs_component_def strlen_safe_def Let_def)
  have p: "parent_exists roomy_fs ''/a''" unfolding parent_exists_def a by (simp add: strlen_safe_def Let_def)
  have m: "may_write roomy_fs ''/a''"
    by (simp add: may_write_def may_create_def p a roomy_fs_ok parent_writable_def perm_allows_def split: option.splits)
  have f: "free_file_slot roomy_fs = Some 0" by (simp add: free_file_slot_def find_upt_Some roomy_fs_def fs_init_def MAX_F_def)
  have r: "has_room roomy_fs 20001" using round_up_less [of 4 20001] by (simp add: has_room_def roomy_fs_ok)
  have "fst (fs_write_file (Some ''/a'') (Some (replicate 20000 CHR ''x'')) 20000 roomy_fs) = 0"
    by (rule fs_write_file_succeeds_aux) (use m f r in \<open>simp_all add: roomy_fs_ok MAX_FILE_DATA_def\<close>)
  then show ?thesis by (simp add: big_fs_def prod_eq_iff)
qed

lemma big_fs_size: "fs_ok big_fs" "60516 < fs_serialized_size big_fs" "fs_serialized_size big_fs \<le> fs_store_size"
proof -
  note W = fs_write_file_ok [OF roomy_fs_ok(1) big_fs_write]
  show ok: "fs_ok big_fs" using W by simp
  then have dok: "data_ok big_fs" by (simp add: fs_ok_def)
  have "abs_path (cwd roomy_fs) ''/a'' = ''/a''"
    by (simp add: abs_path_def abs_combined_def abs_walk.simps abs_component_def strlen_safe_def Let_def)
  then obtain m where "fs_files big_fs ''/a'' = Some (data_bytes (replicate 20000 CHR ''x'') 20000, m)" using W by auto
  then obtain i where "file_index big_fs ''/a'' = Some i" "file_bytes big_fs i = data_bytes (replicate 20000 CHR ''x'') 20000"
    using fs_files_Some_iff [of big_fs "''/a''"] by auto
  then have i: "file_index big_fs ''/a'' = Some i" "length (file_bytes big_fs i) = 20000" by (simp_all add: data_bytes_def)
  note u = file_index_used [OF i(1)]
  have "slot_data_ok big_fs i" using data_okD(2) [OF dok, of i] u by simp
  from length_file_bytes [OF this] i(2) have n: "fsize big_fs i = 20000" by simp
  let ?f = "\<lambda>i. if fused big_fs i \<noteq> 0 \<and> fsize big_fs i > 0 then nat (fsize big_fs i) else 0"
  have "?f i \<in> set (map ?f [0..<MAX_F])" unfolding set_map by (rule imageI) (use u in simp)
  from member_le_sum_list [OF this] n u have "20000 \<le> data_total big_fs" by (simp add: data_total_def)
  then show "60516 < fs_serialized_size big_fs" using fs_serialized_size_eq [OF dok] fs_meta_bytes by simp
  have "pool_size (fs_pool big_fs) = 40960"
    using fs_write_file_pool [OF big_fs_write] by (simp add: roomy_fs_def fs_init_def)
  then show "fs_serialized_size big_fs \<le> fs_store_size"
    using fs_serialized_size_eq [OF dok] data_total_le_pool [OF dok] fs_meta_bytes store_sizes by simp
qed

theorem autosave_hangs_on_failing_drive_witness:
  "all_fail (plain_drive 1) \<and> store_autosave big_fs boot_accounts (plain_store 1) = None"
  using autosave_hangs_on_failing_drive [OF plain_store_ok(2,3), of 1 big_fs boot_accounts] big_fs_size plain_drive_errors(2) [of 1]
  by (simp add: plain_store_ok store_sizes)

text \<open>The machine of the last witness has a blank disk of 100 MiB that accepts no write; the seeded filesystem
  fits one batch, so that the first save gives up and returns.\<close>

definition blank_machine :: "nat \<Rightarrow> hardware" where
  "blank_machine n = \<lparr>ata_present = (\<lambda>_ _. Some n), ata_disk = (\<lambda>_ _. plain_drive 1), ahci_present = None, ahci_disk = plain_drive 1\<rparr>"

definition plain_boot :: multiboot where
  "plain_boot = \<lparr>mb_magic = 732803074, mb_addr = 4096, mb_flags = 0, mb_cmdline = None, mb_mods = []\<rparr>"


end
