(* ===== verification/ShellWords.thy ===== *)
theory ShellWords
  imports Accounts FsSerial "HOL-Library.List_Lexorder" "HOL-Library.Multiset"
begin

section \<open>Variables and wildcards of the shell (kernel/kernel.c)\<close>

text \<open>
  What the shell does with the words of a command line before a command sees them: the table of shell
  variables (\<^verbatim>\<open>set_env\<close>, \<^verbatim>\<open>get_env\<close>), the expansion of \<^verbatim>\<open>$NAME\<close> and \<^verbatim>\<open>${NAME}\<close> (\<^verbatim>\<open>expand_vars\<close>), the
  wildcard matcher (\<^verbatim>\<open>glob_match\<close>), the sorting of the matches and the expansion of wildcards
  (\<^verbatim>\<open>expand_globs\<close>).

  The variable table is refined to a map from names to values, the matcher to a relation defined by
  recursion on the pattern, the sort to a sorted permutation, and the expansion loops, which stop at the
  end of the output buffer, to a prefix of the unbounded expansion.

  A \<^verbatim>\<open>const char *\<close> that walks over a string is the rest of the string, an output buffer with its fill
  position is the list of the bytes written so far.
\<close>

abbreviation (input) MAX_ENV_VARS :: nat where "MAX_ENV_VARS \<equiv> 32"
abbreviation (input) ENV_NAME_LEN :: nat where "ENV_NAME_LEN \<equiv> 32"
abbreviation (input) ENV_VALUE_LEN :: nat where "ENV_VALUE_LEN \<equiv> 4096"
abbreviation (input) GLOB_MAX_MATCHES :: nat where "GLOB_MAX_MATCHES \<equiv> 128"
abbreviation (input) GLOB_NAME_LEN :: nat where "GLOB_NAME_LEN \<equiv> 256"

subsection \<open>Shell variables\<close>

record EnvVar =
  env_name :: bytes
  env_value :: bytes
  env_used :: bool

type_synonym env = "nat \<Rightarrow> EnvVar"

definition env_find :: "bytes \<Rightarrow> env \<Rightarrow> nat option" where
  "env_find name e = find (\<lambda>i. env_used (e i) \<and> streq (Some (env_name (e i))) (Some name)) [0..<MAX_ENV_VARS]"

definition put_field :: "nat \<Rightarrow> bytes \<Rightarrow> bytes \<Rightarrow> bytes" where
  "put_field n src dst = (strncpy dst src (n - 1))[n - 1 := NUL]"

definition set_env :: "cptr \<Rightarrow> cptr \<Rightarrow> env \<Rightarrow> env" where
  "set_env name val e =
     (if null_or_empty name then e
      else let v = (case val of None \<Rightarrow> [] | Some v \<Rightarrow> v) in
      case env_find (the name) e of
        Some i \<Rightarrow> e(i := (e i)\<lparr>env_value := put_field ENV_VALUE_LEN v (env_value (e i))\<rparr>)
      | None \<Rightarrow>
          (case find (\<lambda>i. \<not> env_used (e i)) [0..<MAX_ENV_VARS] of
             None \<Rightarrow> e
           | Some i \<Rightarrow> e(i := \<lparr>env_name = put_field ENV_NAME_LEN (the name) (env_name (e i)),
                               env_value = put_field ENV_VALUE_LEN v (env_value (e i)), env_used = True\<rparr>)))"

definition get_env :: "cptr \<Rightarrow> env \<Rightarrow> bytes" where
  "get_env name e =
     (if null_or_empty name then []
      else case env_find (the name) e of None \<Rightarrow> [] | Some i \<Rightarrow> env_value (e i))"

subsection \<open>Expansion of variables\<close>

definition name_start :: "byte \<Rightarrow> bool" where
  "name_start c \<longleftrightarrow> isalpha (of_char c) \<or> c = CHR ''_''"

definition name_char :: "byte \<Rightarrow> bool" where
  "name_char c \<longleftrightarrow> isalnum (of_char c) \<or> c = CHR ''_''"

text \<open>The name behind \<^verbatim>\<open>$\<close> or \<^verbatim>\<open>${\<close> and the rest of the input after it.\<close>

definition plain_name :: "bytes \<Rightarrow> bytes \<times> bytes" where
  "plain_name inp = (let nm = take (ENV_NAME_LEN - 1) (takeWhile name_char inp) in (nm, drop (length nm) inp))"

definition braced_name :: "bytes \<Rightarrow> bytes \<times> bytes" where
  "braced_name inp =
     (let nm = take (ENV_NAME_LEN - 1) (takeWhile (\<lambda>c. c \<noteq> NUL \<and> c \<noteq> CHR ''}'') inp);
          rest = drop (length nm) inp
      in (nm, if chr_at rest 0 = CHR ''}'' then tl rest else rest))"

lemma name_rest_le: "length (snd (plain_name s)) \<le> length s" "length (snd (braced_name s)) \<le> length s"
  by (auto simp: plain_name_def braced_name_def Let_def)

text \<open>\<open>room\<close> is \<^verbatim>\<open>outsize - 1 - oi\<close>.\<close>

function expand_from :: "env \<Rightarrow> nat \<Rightarrow> bytes \<Rightarrow> bytes" where
  "expand_from e room inp =
     (if chr_at inp 0 = NUL \<or> room = 0 then []
      else if hd inp = CHR ''$'' \<and> name_start (chr_at inp 1) then
        let v = take room (cstr (get_env (Some (fst (plain_name (tl inp)))) e))
        in v @ expand_from e (room - length v) (snd (plain_name (tl inp)))
      else if hd inp = CHR ''$'' \<and> chr_at inp 1 = CHR ''{'' then
        let v = take room (cstr (get_env (Some (fst (braced_name (drop 2 inp)))) e))
        in v @ expand_from e (room - length v) (snd (braced_name (drop 2 inp)))
      else hd inp # expand_from e (room - 1) (tl inp))"
  by pat_completeness auto
termination
proof (relation "measure (\<lambda>(e, room, inp). length inp)", goal_cases)
  case (2 e room inp v)
  then have "inp \<noteq> []" by auto
  then show ?case using name_rest_le(1) [of "tl inp"] by (cases inp) auto
next
  case (3 e room inp v)
  then have "inp \<noteq> []" by auto
  then show ?case using name_rest_le(2) [of "drop 2 inp"] by (cases inp) auto
next
  case (4 e room inp)
  then show ?case by (cases inp) auto
qed auto

declare expand_from.simps [simp del]

definition expand_vars :: "cptr \<Rightarrow> nat \<Rightarrow> env \<Rightarrow> bytes" where
  "expand_vars inp outsize e = (case inp of None \<Rightarrow> [] | Some s \<Rightarrow> expand_from e (outsize - 1) s)"

subsection \<open>Matching a wildcard pattern\<close>

text \<open>The state of the loop: \<open>star\<close> holds the pattern behind the last star and the position \<^verbatim>\<open>resume\<close>,
  \<open>p\<close> and \<open>n\<close> are the rests of the pattern and of the name.\<close>

function glob_loop :: "(bytes \<times> bytes) option \<Rightarrow> bytes \<Rightarrow> bytes \<Rightarrow> bool" where
  "glob_loop star p n =
     (if chr_at n 0 = NUL then chr_at (dropWhile (\<lambda>c. c = CHR ''*'') p) 0 = NUL
      else if chr_at p 0 = CHR ''*'' then glob_loop (Some (tl p, n)) (tl p) n
      else if chr_at p 0 = chr_at n 0 then glob_loop star (tl p) (tl n)
      else case star of
             None \<Rightarrow> False
           | Some (ps, resume) \<Rightarrow> glob_loop (Some (ps, tl resume)) ps (tl resume))"
  by pat_completeness auto
termination
proof (relation "measures [\<lambda>(star, p, n). case star of None \<Rightarrow> Suc (length n) | Some (ps, r) \<Rightarrow> max (length r) (length n),
    \<lambda>(star, p, n). length p]", goal_cases)
  case (2 star p n)
  then have "p \<noteq> []" by auto
  then show ?case by (auto split: option.splits simp: max_def)
next
  case (3 star p n)
  then have "p \<noteq> []" "n \<noteq> []" by auto
  then show ?case by (auto split: option.splits simp: max_def)
next
  case (4 star p n x ps resume)
  then have "n \<noteq> []" by auto
  then show ?case using 4 by (cases resume) auto
qed auto

declare glob_loop.simps [simp del]

definition glob_match :: "bytes \<Rightarrow> bytes \<Rightarrow> bool" where
  "glob_match pat name = glob_loop None pat name"

subsection \<open>Sorting the matches\<close>

text \<open>A plain \<^verbatim>\<open>char\<close> is signed on this target.\<close>

definition schar :: "byte \<Rightarrow> int" where
  "schar c = (if (of_char c :: int) < 128 then of_char c else of_char c - 256)"

fun name_cmp_from :: "bytes \<Rightarrow> bytes \<Rightarrow> int" where
  "name_cmp_from (a # as) (b # bs) =
     (if a \<noteq> NUL \<and> b \<noteq> NUL then if a \<noteq> b then if schar a < schar b then - 1 else 1 else name_cmp_from as bs
      else if a = b then 0 else if a \<noteq> NUL then 1 else - 1)"
| "name_cmp_from [] bs = (if chr_at bs 0 = NUL then 0 else - 1)"
| "name_cmp_from as [] = (if chr_at as 0 = NUL then 0 else 1)"

definition glob_name_cmp :: "bytes \<Rightarrow> bytes \<Rightarrow> int" where
  "glob_name_cmp a b = name_cmp_from a b"

text \<open>The inner loop of the insertion sort; the index is \<^verbatim>\<open>b + 1\<close>.\<close>

fun glob_shift :: "bytes list \<Rightarrow> bytes \<Rightarrow> nat \<Rightarrow> bytes list" where
  "glob_shift ns tmp 0 = ns[0 := tmp]"
| "glob_shift ns tmp (Suc b) =
     (if glob_name_cmp (ns ! b) tmp > 0 then glob_shift (ns[Suc b := ns ! b]) tmp b else ns[Suc b := tmp])"

definition glob_sort :: "bytes list \<Rightarrow> bytes list" where
  "glob_sort ns = foldl (\<lambda>ns a. glob_shift ns (ns ! a) a) ns [1..<length ns]"

subsection \<open>Expansion of wildcards\<close>

definition word_gap :: "byte \<Rightarrow> bool" where
  "word_gap c \<longleftrightarrow> c = CHR '' '' \<or> c = CHR 0x09"

text \<open>One line of a listing: the name without the slashes that mark a directory, and the rest.\<close>

definition list_line :: "bytes \<Rightarrow> bytes \<times> bytes" where
  "list_line q =
     (let ln = takeWhile (\<lambda>c. c \<noteq> NUL \<and> c \<noteq> NEWLINE) q; rest = drop (length ln) q
      in (rev (dropWhile (\<lambda>c. c = SLASH) (rev ln)), if chr_at rest 0 \<noteq> NUL then tl rest else rest))"

definition glob_wanted :: "bytes \<Rightarrow> bytes \<Rightarrow> bool" where
  "glob_wanted pat nm \<longleftrightarrow>
     nm \<noteq> [] \<and> length nm < GLOB_NAME_LEN \<and> \<not> (chr_at nm 0 = CHR ''.'' \<and> chr_at pat 0 \<noteq> CHR ''.'') \<and> glob_match pat nm"

lemma list_line_shrinks: "chr_at q 0 \<noteq> NUL \<Longrightarrow> length (snd (list_line q)) < length q"
  by (cases q) (auto simp: list_line_def Let_def)

lemma list_line_rest: "(nm, rest) = list_line q \<Longrightarrow> chr_at q 0 \<noteq> NUL \<Longrightarrow> length rest < length q"
  by (metis list_line_shrinks snd_conv)

function glob_collect :: "bytes \<Rightarrow> nat \<Rightarrow> bytes \<Rightarrow> bytes list" where
  "glob_collect pat left q =
     (if chr_at q 0 = NUL \<or> left = 0 then []
      else case list_line q of (nm, rest) \<Rightarrow>
        if glob_wanted pat nm then nm # glob_collect pat (left - 1) rest else glob_collect pat left rest)"
  by pat_completeness auto
termination
  by (relation "measure (\<lambda>(pat, left, q). length q)") (auto dest: list_line_rest)

declare glob_collect.simps [simp del]

text \<open>Writing the sorted matches: \<open>names\<close> are those left, a name that does not fit ends the loop.\<close>

fun glob_emit :: "nat \<Rightarrow> bytes \<Rightarrow> bytes list \<Rightarrow> bytes \<Rightarrow> bytes" where
  "glob_emit outsize dir [] out = out"
| "glob_emit outsize dir (nm # names) out =
     (if length out + length dir + length nm \<ge> outsize - 1 then out
      else let out = out @ dir @ nm;
               out = (if names \<noteq> [] \<and> length out < outsize - 1 then out @ '' '' else out)
           in glob_emit outsize dir names out)"

definition split_token :: "bytes \<Rightarrow> bytes \<times> bytes" where
  "split_token tok =
     (let pat = rev (takeWhile (\<lambda>c. c \<noteq> SLASH) (rev tok)) in (take (length tok - length pat) tok, pat))"

text \<open>The matches of one word, if it is to be expanded and there are any.\<close>

definition glob_token :: "bytes \<Rightarrow> fs \<Rightarrow> bytes list \<times> fs" where
  "glob_token tok f =
     (if CHR ''*'' \<in> set tok \<and> CHR 0x27 \<notin> set tok \<and> CHR 0x22 \<notin> set tok \<and> CHR 0x5C \<notin> set tok
      then case split_token tok of (dir, pat) \<Rightarrow>
        if length dir < 256 \<and> length pat < 256 \<and> length pat > 0
        then case fs_list_directory (if dir = [] then None else Some dir) True f of (rc, buf, f) \<Rightarrow>
          if rc = 0 then (glob_sort (glob_collect pat GLOB_MAX_MATCHES (the buf)), f) else ([], f)
        else ([], f)
      else ([], f))"

lemma token_shrinks:
  assumes "chr_at (dropWhile word_gap p) 0 \<noteq> NUL"
  shows "length (dropWhile word_gap p) - length (takeWhile (\<lambda>c. c \<noteq> NUL \<and> \<not> word_gap c) (dropWhile word_gap p)) < length p"
proof -
  obtain c q where q: "dropWhile word_gap p = c # q" "c \<noteq> NUL" using assms by (cases "dropWhile word_gap p") auto
  then have "\<not> word_gap c" using hd_dropWhile [of word_gap p] by auto
  then show ?thesis using q length_dropWhile_le [of word_gap p] by simp
qed

function glob_words :: "nat \<Rightarrow> bytes \<Rightarrow> bool \<Rightarrow> bytes \<Rightarrow> fs \<Rightarrow> bytes \<times> fs" where
  "glob_words outsize p first out f =
     (let p = dropWhile word_gap p in
      if chr_at p 0 = NUL then (out, f)
      else let tok = takeWhile (\<lambda>c. c \<noteq> NUL \<and> \<not> word_gap c) p;
               rest = drop (length tok) p;
               out = (if \<not> first \<and> length out < outsize - 1 then out @ '' '' else out)
           in case glob_token tok f of (names, f) \<Rightarrow>
              if names \<noteq> [] then glob_words outsize rest False (glob_emit outsize (fst (split_token tok)) names out) f
              else if length out + length tok < outsize - 1 then glob_words outsize rest False (out @ tok) f
              else (out, f))"
  by pat_completeness auto
termination
  by (relation "measure (\<lambda>(outsize, p, first, out, f). length p)") (auto simp: token_shrinks)

declare glob_words.simps [simp del]

definition expand_globs :: "cptr \<Rightarrow> nat \<Rightarrow> fs \<Rightarrow> bytes \<times> fs" where
  "expand_globs inp outsize f = (case inp of None \<Rightarrow> ([], f) | Some s \<Rightarrow> glob_words outsize s True [] f)"

section \<open>The variable table as a map\<close>

definition env_map :: "env \<Rightarrow> bytes \<rightharpoonup> bytes" where
  "env_map e nm = map_option (\<lambda>i. cstr (env_value (e i))) (env_find nm e)"

definition env_ok :: "env \<Rightarrow> bool" where
  "env_ok e \<longleftrightarrow>
     (\<forall>i<MAX_ENV_VARS. length (env_name (e i)) = 32 \<and> length (env_value (e i)) = 4096)
     \<and> (\<forall>i<MAX_ENV_VARS. \<forall>j<MAX_ENV_VARS. env_used (e i) \<longrightarrow> env_used (e j) \<longrightarrow> cstr (env_name (e i)) = cstr (env_name (e j)) \<longrightarrow> i = j)"

lemma strncpy_from_eq:
  "n \<le> length dst \<Longrightarrow> strncpy_from dst src n = take n (cstr src) @ replicate (n - length (cstr src)) NUL @ drop n dst"
proof (induction n arbitrary: dst src)
  case (Suc n)
  show ?case
  proof (cases "chr_at src 0 = NUL")
    case True
    then have "cstr src = []" by (cases src) auto
    then show ?thesis using True by simp
  next
    case False
    then obtain c r where "src = c # r" "c \<noteq> NUL" by (cases src) auto
    then show ?thesis using Suc.IH [of "tl dst" r] Suc.prems by (cases dst) auto
  qed
qed simp

lemma put_field_law:
  assumes "length dst = n" "0 < n"
  shows "length (put_field n src dst) = n" "cstr (put_field n src dst) = take (n - 1) (cstr src)"
proof -
  let ?k = "n - 1 - length (cstr src)"
  have d: "drop (n - 1) dst = [last dst]" using assms by (cases dst rule: rev_cases) auto
  have e: "strncpy dst src (n - 1) = (take (n - 1) (cstr src) @ replicate ?k NUL) @ [last dst]"
    unfolding strncpy_def using strncpy_from_eq [of "n - 1" dst src] assms d by simp
  have l: "length (take (n - 1) (cstr src) @ replicate ?k NUL) = n - 1" by simp
  have p: "put_field n src dst = take (n - 1) (cstr src) @ replicate ?k NUL @ [NUL]"
    unfolding put_field_def e using l by (metis append.assoc list_update_length)
  show "length (put_field n src dst) = n" using l assms(2) unfolding p by simp
  have "is_cstring (take (n - 1) (cstr src))" using cstr_is_cstring [of src] by (auto simp: is_cstring_def dest: in_set_takeD)
  moreover have "replicate ?k NUL @ [NUL] = NUL # replicate ?k NUL" by (simp add: replicate_append_same)
  ultimately show "cstr (put_field n src dst) = take (n - 1) (cstr src)" unfolding p by simp
qed

lemma env_find_Some:
  "env_ok e \<Longrightarrow> env_find nm e = Some i \<longleftrightarrow> i < MAX_ENV_VARS \<and> env_used (e i) \<and> cstr (env_name (e i)) = cstr nm"
proof -
  assume ok: "env_ok e"
  let ?P = "\<lambda>i. env_used (e i) \<and> cstr (env_name (e i)) = cstr nm"
  have u: "i = j" if "i < 32" "j < 32" "?P i" "?P j" for i j using ok that unfolding env_ok_def by metis
  have "env_find nm e = Some i \<longleftrightarrow> i < 32 \<and> ?P i \<and> (\<forall>j<i. \<not> ?P j)"
    by (simp add: env_find_def find_upt_Some)
  also have "\<dots> \<longleftrightarrow> i < 32 \<and> ?P i" using u [of i] by (metis less_irrefl less_trans)
  finally show ?thesis .
qed

lemma env_find_None:
  "env_find nm e = None \<longleftrightarrow> (\<forall>i<MAX_ENV_VARS. env_used (e i) \<longrightarrow> cstr (env_name (e i)) \<noteq> cstr nm)"
  unfolding env_find_def find_None_iff streq_iff by auto

lemma get_env_map: "cstr nm \<noteq> [] \<Longrightarrow> cstr (get_env (Some nm) e) = (case env_map e nm of None \<Rightarrow> [] | Some v \<Rightarrow> v)"
  by (auto simp: get_env_def env_map_def null_or_empty_def chr_at_0_NUL_iff split: option.splits)

lemma env_ok_update:
  assumes "env_ok e" "i < 32" "length (env_name v) = 32" "length (env_value v) = 4096"
    and "\<And>j. j < 32 \<Longrightarrow> j \<noteq> i \<Longrightarrow> env_used (e j) \<Longrightarrow> cstr (env_name (e j)) \<noteq> cstr (env_name v)"
  shows "env_ok (e(i := v))"
  using assms unfolding env_ok_def by (auto simp: fun_upd_def) metis+

lemma env_map_update:
  assumes ok: "env_ok e" "env_ok (e(i := v))" and i: "i < 32" "env_used v" "cstr (env_name v) = nm" "is_cstring nm"
    and "env_used (e i) \<Longrightarrow> cstr (env_name (e i)) = nm"
  shows "env_map (e(i := v)) (cstr x) = ((env_map e)(nm \<mapsto> cstr (env_value v))) (cstr x)"
proof (cases "cstr x = nm")
  case True
  then have "env_find (cstr x) (e(i := v)) = Some i" using i env_find_Some [OF ok(2)] by simp
  then show ?thesis using True by (simp add: env_map_def)
next
  case False
  have "env_find (cstr x) (e(i := v)) = Some j \<longleftrightarrow> env_find (cstr x) e = Some j" for j
    using False assms env_find_Some [OF ok(1)] env_find_Some [OF ok(2)] by auto
  then have "env_find (cstr x) (e(i := v)) = env_find (cstr x) e" by (metis option.exhaust)
  moreover have "i \<noteq> j" if "env_find (cstr x) e = Some j" for j
    using that False assms env_find_Some [OF ok(1)] by auto
  ultimately show ?thesis using False by (cases "env_find (cstr x) e") (auto simp: env_map_def)
qed

lemma set_env_law:
  assumes ok: "env_ok e" and n: "cstr nm \<noteq> []" "length (cstr nm) \<le> 31"
    and room: "env_map e (cstr nm) \<noteq> None \<or> (\<exists>i<32. \<not> env_used (e i))"
  shows "env_ok (set_env (Some nm) val e)
    \<and> (\<forall>x. env_map (set_env (Some nm) val e) (cstr x) =
         ((env_map e)(cstr nm \<mapsto> take 4095 (cstr (case val of None \<Rightarrow> [] | Some v \<Rightarrow> v)))) (cstr x))"
proof -
  let ?v = "case val of None \<Rightarrow> [] | Some v \<Rightarrow> v"
  have ne: "\<not> null_or_empty (Some nm)" using n(1) by (simp add: null_or_empty_def chr_at_0_NUL_iff)
  have len: "i < 32 \<Longrightarrow> length (env_name (e i)) = 32 \<and> length (env_value (e i)) = 4096" for i
    using ok by (simp add: env_ok_def)
  show ?thesis
  proof (cases "env_find nm e")
    case (Some i)
    let ?u = "(e i)\<lparr>env_value := put_field 4096 ?v (env_value (e i))\<rparr>"
    have i: "i < 32" "env_used (e i)" "cstr (env_name (e i)) = cstr nm" using Some env_find_Some [OF ok] by auto
    have s: "set_env (Some nm) val e = e(i := ?u)" using ne Some by (simp add: set_env_def Let_def)
    have pv: "length (env_value ?u) = 4096" "cstr (env_value ?u) = take 4095 (cstr ?v)"
      using put_field_law [of "env_value (e i)" 4096 ?v] len i(1) by simp_all
    have d: "j < 32 \<Longrightarrow> j \<noteq> i \<Longrightarrow> env_used (e j) \<Longrightarrow> cstr (env_name (e j)) \<noteq> cstr (env_name ?u)" for j
      using ok i unfolding env_ok_def by auto
    have ok': "env_ok (e(i := ?u))" using env_ok_update [OF ok i(1) _ pv(1) d] len i(1) by simp
    show ?thesis unfolding s using ok' env_map_update [OF ok ok' i(1), of "cstr nm"] i pv(2) by auto
  next
    case None
    then have "env_map e (cstr nm) = None" by (simp add: env_map_def env_find_None)
    then obtain i where f: "find (\<lambda>i. \<not> env_used (e i)) [0..<32] = Some i"
      using room find_None_iff [of "\<lambda>i. \<not> env_used (e i)" "[0..<32]"] by (cases "find (\<lambda>i. \<not> env_used (e i)) [0..<32]") auto
    then have i: "i < 32" "\<not> env_used (e i)" by (auto simp: find_upt_Some)
    let ?u = "\<lparr>env_name = put_field 32 nm (env_name (e i)), env_value = put_field 4096 ?v (env_value (e i)), env_used = True\<rparr>"
    have s: "set_env (Some nm) val e = e(i := ?u)" using ne None f by (simp add: set_env_def Let_def)
    have pv: "length (env_value ?u) = 4096" "cstr (env_value ?u) = take 4095 (cstr ?v)"
      using put_field_law [of "env_value (e i)" 4096 ?v] len i(1) by simp_all
    have pn: "length (env_name ?u) = 32" "cstr (env_name ?u) = cstr nm"
      using put_field_law [of "env_name (e i)" 32 nm] len i(1) n(2) by simp_all
    have d: "j < 32 \<Longrightarrow> j \<noteq> i \<Longrightarrow> env_used (e j) \<Longrightarrow> cstr (env_name (e j)) \<noteq> cstr (env_name ?u)" for j
      using None pn(2) env_find_None [of nm e] by auto
    have ok': "env_ok (e(i := ?u))" by (rule env_ok_update [OF ok i(1) pn(1) pv(1) d])
    show ?thesis unfolding s using ok' env_map_update [OF ok ok' i(1), of "cstr nm"] i pv(2) pn(2) by auto
  qed
qed

section \<open>Expansion of variables\<close>

text \<open>The reference: the words of the input are literal bytes and references to variables, and the
  expansion replaces the references by the values.\<close>

datatype piece = Lit byte | Var bytes

function pieces :: "bytes \<Rightarrow> piece list" where
  "pieces inp =
     (if inp = [] then []
      else if hd inp = CHR ''$'' \<and> name_start (chr_at inp 1)
      then Var (fst (plain_name (tl inp))) # pieces (snd (plain_name (tl inp)))
      else if hd inp = CHR ''$'' \<and> chr_at inp 1 = CHR ''{''
      then Var (fst (braced_name (drop 2 inp))) # pieces (snd (braced_name (drop 2 inp)))
      else Lit (hd inp) # pieces (tl inp))"
  by pat_completeness auto
termination
proof (relation "measure length", goal_cases)
  case (2 inp)
  then show ?case using name_rest_le(1) [of "tl inp"] by (cases inp) auto
next
  case (3 inp)
  then show ?case using name_rest_le(2) [of "drop 2 inp"] by (cases inp) auto
qed auto

declare pieces.simps [simp del]

definition piece_text :: "env \<Rightarrow> piece \<Rightarrow> bytes" where
  "piece_text e p = (case p of Lit c \<Rightarrow> [c] | Var nm \<Rightarrow> cstr (get_env (Some nm) e))"

lemma take_split: "take k (a @ b) = take k a @ take (k - length (take k a)) b"
  by (cases "k \<le> length a") auto

lemma is_cstring_tl [simp]: "is_cstring s \<Longrightarrow> is_cstring (tl s)"
  using is_cstring_drop [of s 1] by (simp add: drop_Suc)

lemma expand_from_pieces:
  "is_cstring inp \<Longrightarrow> expand_from e room inp = take room (concat (map (piece_text e) (pieces inp)))"
proof (induction e room inp rule: expand_from.induct)
  case (1 e room inp)
  have ne: "chr_at inp 0 = NUL \<longleftrightarrow> inp = []" using 1(4) by (cases inp) (auto simp: is_cstring_def)
  show ?case
  proof (cases "inp = [] \<or> room = 0")
    case True
    then show ?thesis using ne by (subst expand_from.simps) (auto simp: pieces.simps [of "[]"])
  next
    case False
    let ?a = "plain_name (tl inp)" and ?b = "braced_name (drop 2 inp)"
    have cs: "is_cstring (snd ?a)" "is_cstring (snd ?b)" "is_cstring (tl inp)"
      using 1(4) by (simp_all add: plain_name_def braced_name_def Let_def)
    consider (plain) "hd inp = CHR ''$''" "name_start (chr_at inp 1)"
      | (braced) "\<not> (hd inp = CHR ''$'' \<and> name_start (chr_at inp 1))" "hd inp = CHR ''$''" "chr_at inp 1 = CHR ''{''"
      | (lit) "\<not> (hd inp = CHR ''$'' \<and> name_start (chr_at inp 1))" "\<not> (hd inp = CHR ''$'' \<and> chr_at inp 1 = CHR ''{'')" by blast
    then show ?thesis
    proof cases
      case plain
      let ?v = "cstr (get_env (Some (fst ?a)) e)"
      have "expand_from e room inp = take room ?v @ expand_from e (room - length (take room ?v)) (snd ?a)"
        using False ne plain by (subst expand_from.simps) (simp add: Let_def)
      also have "expand_from e (room - length (take room ?v)) (snd ?a) =
          take (room - length (take room ?v)) (concat (map (piece_text e) (pieces (snd ?a))))"
        using 1(1) [OF _ _ refl cs(1)] False ne plain by simp
      finally show ?thesis using False plain
        by (subst pieces.simps) (simp add: piece_text_def take_split [of room ?v] del: take_append length_take)
    next
      case braced
      let ?v = "cstr (get_env (Some (fst ?b)) e)"
      have "expand_from e room inp = take room ?v @ expand_from e (room - length (take room ?v)) (snd ?b)"
        using False ne braced by (subst expand_from.simps) (simp add: Let_def)
      also have "expand_from e (room - length (take room ?v)) (snd ?b) =
          take (room - length (take room ?v)) (concat (map (piece_text e) (pieces (snd ?b))))"
        using 1(2) [OF _ _ _ refl cs(2)] False ne braced by simp
      finally show ?thesis using False braced
        by (subst pieces.simps) (simp add: piece_text_def take_split [of room ?v] del: take_append length_take)
    next
      case lit
      then have "expand_from e room inp = hd inp # take (room - 1) (concat (map (piece_text e) (pieces (tl inp))))"
        using False ne 1(3) [OF _ lit cs(3)] by (subst expand_from.simps) auto
      then show ?thesis using False lit by (subst pieces.simps) (auto simp: piece_text_def take_Cons')
    qed
  qed
qed

section \<open>The wildcard matcher\<close>

text \<open>The reference: a star stands for any run of characters, every other character for itself.\<close>

fun glob_ref :: "bytes \<Rightarrow> bytes \<Rightarrow> bool" where
  "glob_ref [] n = (n = [])"
| "glob_ref (c # p) n =
     (if c = CHR ''*'' then list_ex (\<lambda>k. glob_ref p (drop k n)) [0..<Suc (length n)]
      else n \<noteq> [] \<and> hd n = c \<and> glob_ref p (tl n))"

lemma glob_ref_star: "glob_ref (CHR ''*'' # p) n \<longleftrightarrow> (\<exists>k\<le>length n. glob_ref p (drop k n))"
proof -
  have "k \<in> set [0..<Suc (length n)] \<longleftrightarrow> k \<le> length n" for k by auto
  then show ?thesis unfolding glob_ref.simps list_ex_iff Bex_def by (simp only: if_True simp_thms)
qed

declare glob_ref.simps(2) [simp del]

lemma glob_ref_lit: "c \<noteq> CHR ''*'' \<Longrightarrow> glob_ref (c # p) n \<longleftrightarrow> n \<noteq> [] \<and> hd n = c \<and> glob_ref p (tl n)"
  by (simp add: glob_ref.simps(2))

text \<open>A star swallows more.\<close>

lemma glob_ref_star_drop: "glob_ref (CHR ''*'' # p) (drop k n) \<Longrightarrow> glob_ref (CHR ''*'' # p) n"
proof -
  assume "glob_ref (CHR ''*'' # p) (drop k n)"
  then obtain j where j: "glob_ref p (drop j (drop k n))" by (auto simp: glob_ref_star)
  show ?thesis
  proof (cases "j + k \<le> length n")
    case True
    then show ?thesis using j unfolding glob_ref_star by (intro exI [of _ "j + k"]) simp
  next
    case False
    then have "glob_ref p (drop (length n) n)" using j by simp
    then show ?thesis unfolding glob_ref_star by blast
  qed
qed

lemma glob_ref_prefix: "CHR ''*'' \<notin> set v \<Longrightarrow> glob_ref (v @ p) n \<longleftrightarrow> take (length v) n = v \<and> glob_ref p (drop (length v) n)"
proof (induction v arbitrary: n)
  case (Cons c v)
  then have c: "c \<noteq> CHR ''*''" "CHR ''*'' \<notin> set v" by auto
  show ?case using Cons.IH [OF c(2), of "tl n"] c(1) by (cases n) (auto simp: glob_ref_lit)
qed simp

lemma glob_ref_Nil: "is_cstring p \<Longrightarrow> glob_ref p [] \<longleftrightarrow> chr_at (dropWhile (\<lambda>c. c = CHR ''*'') p) 0 = NUL"
  by (induction p) (auto simp: glob_ref_star glob_ref_lit is_cstring_def)

text \<open>The matcher remembers only the last star. When it meets another one, the words between them have
  matched at the earliest place, so giving the earlier star more characters cannot help.\<close>

definition star_ok :: "(bytes \<times> bytes) option \<Rightarrow> bytes \<Rightarrow> bytes \<Rightarrow> bool" where
  "star_ok star p n \<longleftrightarrow>
     (case star of None \<Rightarrow> True
      | Some (ps, r) \<Rightarrow> \<exists>v. CHR ''*'' \<notin> set v \<and> ps = v @ p \<and> r = v @ n \<and> is_cstring ps \<and> is_cstring r)"

definition resumes :: "(bytes \<times> bytes) option \<Rightarrow> bool" where
  "resumes star = (case star of None \<Rightarrow> False | Some (ps, r) \<Rightarrow> \<exists>k. 1 \<le> k \<and> k \<le> length r \<and> glob_ref ps (drop k r))"

lemma later_star_wins:
  assumes "star_ok star (CHR ''*'' # p) n" "resumes star"
  shows "glob_ref (CHR ''*'' # p) n"
proof -
  obtain ps r k where s: "star = Some (ps, r)" "glob_ref ps (drop k r)"
    using assms(2) by (auto simp: resumes_def split: option.splits prod.splits)
  with assms(1) obtain v where v: "CHR ''*'' \<notin> set v" "ps = v @ CHR ''*'' # p" "r = v @ n" by (auto simp: star_ok_def)
  have "drop (length v) (drop k r) = drop k (drop (length v) r)" by (simp add: add.commute)
  then have "drop (length v) (drop k r) = drop k n" using v(3) by simp
  then show ?thesis using s(2) v glob_ref_prefix [of v "CHR ''*'' # p" "drop k r"] glob_ref_star_drop by auto
qed

lemma resume_later:
  assumes "r \<noteq> []"
  shows "(\<exists>k\<ge>1. k \<le> length r \<and> glob_ref ps (drop k r)) \<longleftrightarrow>
    glob_ref ps (tl r) \<or> (\<exists>k\<ge>1. k \<le> length (tl r) \<and> glob_ref ps (drop k (tl r)))" (is "?L \<longleftrightarrow> ?R")
proof
  assume ?L
  then obtain k where k: "1 \<le> k" "k \<le> length r" "glob_ref ps (drop k r)" by blast
  then obtain j where "k = Suc j" by (cases k) auto
  then have "glob_ref ps (drop j (tl r))" "j \<le> length (tl r)" using k by (auto simp: drop_Suc)
  then show ?R by (cases j) auto
next
  assume ?R
  then show ?L
  proof (elim disjE exE conjE)
    assume "glob_ref ps (tl r)"
    then show ?L using assms by (intro exI [of _ 1]) (auto simp: drop_Suc Suc_le_eq)
  next
    fix k
    assume "1 \<le> k" "k \<le> length (tl r)" "glob_ref ps (drop k (tl r))"
    then show ?L using assms by (intro exI [of _ "Suc k"]) (auto simp: drop_Suc)
  qed
qed

lemma drop_shorter: "take (length v) (drop k v) = v \<Longrightarrow> 1 \<le> k \<Longrightarrow> k \<le> length v \<Longrightarrow> False"
  by (drule arg_cong [where f = length]) simp

lemma glob_loop_ref:
  "is_cstring p \<Longrightarrow> is_cstring n \<Longrightarrow> star_ok star p n \<Longrightarrow> glob_loop star p n \<longleftrightarrow> glob_ref p n \<or> resumes star"
proof (induction star p n rule: glob_loop.induct)
  case (1 star p n)
  have nil: "chr_at n 0 = NUL \<longleftrightarrow> n = []" using 1(5) by (cases n) (auto simp: is_cstring_def)
  consider (ended) "n = []" | (star) p' where "n \<noteq> []" "p = CHR ''*'' # p'"
    | (match) c p' n' where "c \<noteq> CHR ''*''" "p = c # p'" "n = c # n'"
    | (miss) "n \<noteq> []" "chr_at p 0 \<noteq> CHR ''*''" "chr_at p 0 \<noteq> chr_at n 0"
    using 1(4,5) by (cases p; cases n) (auto simp: is_cstring_def)
  then show ?case
  proof cases
    case ended
    have "\<not> resumes star"
      using 1(6) ended drop_shorter by (auto simp: star_ok_def resumes_def glob_ref_prefix split: option.splits)
    then show ?thesis using ended glob_ref_Nil [OF 1(4)] by (subst glob_loop.simps) simp
  next
    case star
    have c: "is_cstring p'" using 1(4) star by (simp add: is_cstring_def)
    have "glob_loop star p n = glob_loop (Some (p', n)) p' n" using star nil by (subst glob_loop.simps) simp
    also have "\<dots> \<longleftrightarrow> glob_ref p' n \<or> resumes (Some (p', n))"
      using 1(1) nil star c 1(5) by (simp add: star_ok_def)
    also have "\<dots> \<longleftrightarrow> glob_ref p n" unfolding star(2) glob_ref_star resumes_def
      by simp (metis One_nat_def Suc_leI drop0 le0 not_gr_zero)
    finally show ?thesis using later_star_wins [of star p' n] 1(6) star by auto
  next
    case match
    have "star_ok star p' n'" using 1(6) match unfolding star_ok_def
      by (auto split: option.splits intro: exI [of _ "_ @ [c]"])
    moreover have "is_cstring p'" "is_cstring n'" using 1(4,5) match by (simp_all add: is_cstring_def)
    moreover have "glob_loop star p n = glob_loop star p' n'" using match nil by (subst glob_loop.simps) simp
    ultimately show ?thesis using 1(2) match nil by (simp add: glob_ref_lit)
  next
    case miss
    have nr: "\<not> glob_ref p n" using miss by (cases p; cases n) (auto simp: glob_ref_lit)
    show ?thesis
    proof (cases star)
      case None
      then show ?thesis using miss nil nr by (subst glob_loop.simps) (simp add: resumes_def)
    next
      case (Some a)
      obtain ps r where s: "star = Some (ps, r)" using Some by (cases a) auto
      with 1(6) have o: "is_cstring ps" "is_cstring r" "r \<noteq> []" using miss by (auto simp: star_ok_def)
      have "glob_loop star p n = glob_loop (Some (ps, tl r)) ps (tl r)" using miss nil s by (subst glob_loop.simps) simp
      also have "\<dots> \<longleftrightarrow> glob_ref ps (tl r) \<or> resumes (Some (ps, tl r))"
        using 1(3) nil miss s o by (simp add: star_ok_def)
      also have "\<dots> \<longleftrightarrow> resumes star" unfolding s resumes_def using resume_later [OF o(3), of ps] by simp
      finally show ?thesis using nr by simp
    qed
  qed
qed

section \<open>The order of the matches\<close>

definition name_key :: "bytes \<Rightarrow> int list" where
  "name_key a = map schar (cstr a)"

lemma schar_inj: "schar a = schar b \<longleftrightarrow> a = b"
proof -
  have "(of_char c :: int) < 256 \<and> 0 \<le> (of_char c :: int)" for c
    by (metis of_nat_0_le_iff of_nat_less_numeral_iff of_nat_of_char nat_of_char_less_256)
  from this [of a] this [of b]
  have "schar a = schar b \<Longrightarrow> (of_char a :: int) = of_char b" unfolding schar_def by (auto split: if_splits)
  then show ?thesis by auto
qed

lemma glob_name_cmp_key: "glob_name_cmp a b > 0 \<longleftrightarrow> name_key b < name_key a"
proof -
  have "(name_cmp_from a b > 0 \<longleftrightarrow> name_key b < name_key a) \<and> (name_cmp_from a b = 0 \<longleftrightarrow> name_key a = name_key b)"
    by (induction a b rule: name_cmp_from.induct) (auto simp: name_key_def schar_inj chr_at_0_NUL_iff not_less order_le_less)
  then show ?thesis by (simp add: glob_name_cmp_def)
qed

lemma glob_shift_inserts:
  "\<exists>xs1 xs2. xs = xs1 @ xs2 \<and> glob_shift (xs @ h # ys) tmp (length xs) = xs1 @ tmp # xs2 @ ys
     \<and> (\<forall>z\<in>set xs2. name_key tmp < name_key z) \<and> (xs1 \<noteq> [] \<longrightarrow> name_key (last xs1) \<le> name_key tmp)"
proof (induction xs arbitrary: h ys rule: rev_induct)
  case (snoc x xs)
  show ?case
  proof (cases "glob_name_cmp x tmp > 0")
    case True
    have "glob_shift ((xs @ [x]) @ h # ys) tmp (length (xs @ [x])) = glob_shift (xs @ x # x # ys) tmp (length xs)"
      using True by (simp add: nth_append list_update_append)
    moreover obtain xs1 xs2 where "xs = xs1 @ xs2" "glob_shift (xs @ x # x # ys) tmp (length xs) = xs1 @ tmp # xs2 @ x # ys"
      "\<forall>z\<in>set xs2. name_key tmp < name_key z" "xs1 \<noteq> [] \<longrightarrow> name_key (last xs1) \<le> name_key tmp" using snoc.IH [of x "x # ys"] by blast
    ultimately show ?thesis using True
      by (intro exI [of _ xs1] exI [of _ "xs2 @ [x]"]) (auto simp: glob_name_cmp_key)
  next
    case False
    then have "glob_shift ((xs @ [x]) @ h # ys) tmp (length (xs @ [x])) = (xs @ [x]) @ tmp # ys"
      by (simp add: nth_append list_update_append)
    then show ?thesis using False by (intro exI [of _ "xs @ [x]"] exI [of _ "[]"]) (auto simp: glob_name_cmp_key)
  qed
qed simp

lemma glob_sort_step:
  assumes "sorted (map name_key (take k ns))" "k < length ns"
  shows "sorted (map name_key (take (Suc k) (glob_shift ns (ns ! k) k)))" "mset (glob_shift ns (ns ! k) k) = mset ns"
proof -
  have ns: "ns = take k ns @ ns ! k # drop (Suc k) ns" using assms(2) by (simp add: id_take_nth_drop)
  obtain xs1 xs2 where x: "take k ns = xs1 @ xs2" "glob_shift ns (ns ! k) k = xs1 @ ns ! k # xs2 @ drop (Suc k) ns"
    "\<forall>z\<in>set xs2. name_key (ns ! k) < name_key z" "xs1 \<noteq> [] \<longrightarrow> name_key (last xs1) \<le> name_key (ns ! k)"
    using glob_shift_inserts [of "take k ns" "ns ! k" "drop (Suc k) ns" "ns ! k"] ns assms(2) by auto
  have s: "sorted (map name_key (xs1 @ xs2))" using assms(1) x(1) by simp
  have "\<forall>a\<in>set xs1. name_key a \<le> name_key (ns ! k)"
  proof
    fix a assume a: "a \<in> set xs1"
    then have "xs1 \<noteq> []" by auto
    then have "name_key a \<le> name_key (last xs1)"
      using s a by (cases xs1 rule: rev_cases) (auto simp: sorted_append)
    then show "name_key a \<le> name_key (ns ! k)" using x(4) \<open>xs1 \<noteq> []\<close> by auto
  qed
  then have "sorted (map name_key (xs1 @ ns ! k # xs2))" using s x(3) by (auto simp: sorted_append)
  moreover have "take (Suc k) (xs1 @ ns ! k # xs2 @ drop (Suc k) ns) = xs1 @ ns ! k # xs2"
  proof -
    have "length (xs1 @ ns ! k # xs2) = Suc k" using arg_cong [OF x(1), of length] assms(2) by simp
    then have "take (Suc k) ((xs1 @ ns ! k # xs2) @ drop (Suc k) ns) = xs1 @ ns ! k # xs2" by (metis append_eq_conv_conj)
    then show ?thesis by simp
  qed
  ultimately show "sorted (map name_key (take (Suc k) (glob_shift ns (ns ! k) k)))" using x(2) by simp
  show "mset (glob_shift ns (ns ! k) k) = mset ns"
    unfolding x(2) by (subst (2) ns) (simp add: x(1))
qed

lemma glob_sort_law: "sorted (map name_key (glob_sort ns))" "mset (glob_sort ns) = mset ns"
proof -
  let ?f = "\<lambda>ns a. glob_shift ns (ns ! a) a"
  have "sorted (map name_key (take (Suc k) (foldl ?f ns [1..<Suc k]))) \<and> mset (foldl ?f ns [1..<Suc k]) = mset ns"
    if "Suc k \<le> length ns" for k using that
  proof (induction k)
    case 0
    then show ?case by (cases ns) auto
  next
    case (Suc k)
    let ?m = "foldl ?f ns [1..<Suc k]"
    have IH: "sorted (map name_key (take (Suc k) ?m))" "mset ?m = mset ns" using Suc by simp_all
    then have "Suc k < length ?m" using Suc.prems mset_eq_length [of ?m ns] by simp
    then show ?case using glob_sort_step [OF IH(1)] IH(2) by simp
  qed
  note I = this
  have "sorted (map name_key (glob_sort ns)) \<and> mset (glob_sort ns) = mset ns"
  proof (cases ns)
    case (Cons n ms)
    then have "sorted (map name_key (take (length ns) (glob_sort ns))) \<and> mset (glob_sort ns) = mset ns"
      using I [of "length ms"] by (simp add: glob_sort_def)
    moreover have "take (length ns) (glob_sort ns) = glob_sort ns" if "mset (glob_sort ns) = mset ns"
      using mset_eq_length [OF that] by simp
    ultimately show ?thesis by simp
  qed (simp add: glob_sort_def)
  then show "sorted (map name_key (glob_sort ns))" "mset (glob_sort ns) = mset ns" by simp_all
qed

section \<open>The words of a command line\<close>

text \<open>The names of a listing, one per line.\<close>

function list_names :: "bytes \<Rightarrow> bytes list" where
  "list_names q = (if chr_at q 0 = NUL then [] else fst (list_line q) # list_names (snd (list_line q)))"
  by pat_completeness auto
termination
  by (relation "measure length") (auto dest: list_line_shrinks)

declare list_names.simps [simp del]

lemma glob_collect_filter: "glob_collect pat left q = take left (filter (glob_wanted pat) (list_names q))"
proof (induction pat left q rule: glob_collect.induct)
  case (1 pat left q)
  show ?case
  proof (cases "chr_at q 0 = NUL \<or> left = 0")
    case True
    then show ?thesis by (subst glob_collect.simps) (auto simp: list_names.simps [of q])
  next
    case False
    obtain nm rest where l: "list_line q = (nm, rest)" by fastforce
    then show ?thesis using False 1(1) [OF False l [symmetric]] 1(2) [OF False l [symmetric]]
      by (subst glob_collect.simps, subst list_names.simps) (cases left; auto)
  qed
qed

text \<open>The loops never write beyond the buffer.\<close>

lemma glob_emit_fits: "length out \<le> n - 1 \<Longrightarrow> length (glob_emit n dir names out) \<le> n - 1"
  by (induction n dir names out rule: glob_emit.induct) (auto simp: Let_def)

lemma glob_words_fits: "length out \<le> n - 1 \<Longrightarrow> length (fst (glob_words n p first out f)) \<le> n - 1"
proof (induction n p first out f rule: glob_words.induct)
  case (1 n p first out f)
  let ?p = "dropWhile word_gap p"
  let ?tok = "takeWhile (\<lambda>c. c \<noteq> NUL \<and> \<not> word_gap c) ?p"
  let ?out = "if \<not> first \<and> length out < n - 1 then out @ '' '' else out"
  obtain names g where g: "glob_token ?tok f = (names, g)" by fastforce
  have o: "length ?out \<le> n - 1" using 1(3) by auto
  show ?case
  proof (cases "chr_at ?p 0 = NUL")
    case True
    then show ?thesis using 1(3) by (subst glob_words.simps) simp
  next
    case False
    then show ?thesis
      using 1(1) [OF refl False refl refl refl g [symmetric] _ glob_emit_fits [OF o]] 1(2) [OF refl False refl refl refl g [symmetric]] o g
      by (subst glob_words.simps) (auto simp: Let_def)
  qed
qed

lemma in_gap_free: "x \<in> set (takeWhile (\<lambda>c. c \<noteq> NUL \<and> \<not> word_gap c) p) \<Longrightarrow> x \<noteq> NUL \<and> \<not> word_gap x"
  using set_takeWhileD by fastforce

text \<open>The words, and how they are joined again.\<close>

function words_of :: "bytes \<Rightarrow> bytes list" where
  "words_of p =
     (let p = dropWhile word_gap p in
      if chr_at p 0 = NUL then []
      else let tok = takeWhile (\<lambda>c. c \<noteq> NUL \<and> \<not> word_gap c) p in tok # words_of (drop (length tok) p))"
  by pat_completeness auto
termination
  by (relation "measure length") (auto simp: token_shrinks)

declare words_of.simps [simp del]

fun join_words :: "bytes list \<Rightarrow> bytes" where
  "join_words [] = []"
| "join_words [w] = w"
| "join_words (w # ws) = w @ '' '' @ join_words ws"

definition append_words :: "bool \<Rightarrow> bytes \<Rightarrow> bytes list \<Rightarrow> bytes" where
  "append_words first out ws = out @ (if first \<or> ws = [] then [] else '' '') @ join_words ws"

lemma glob_words_plain:
  assumes "\<And>w. w \<in> set (words_of p) \<Longrightarrow> CHR ''*'' \<notin> set w" "length (append_words first out (words_of p)) < n - 1"
  shows "glob_words n p first out f = (append_words first out (words_of p), f)"
  using assms
proof (induction n p first out f rule: glob_words.induct)
  case (1 n p first out f)
  let ?p = "dropWhile word_gap p"
  let ?tok = "takeWhile (\<lambda>c. c \<noteq> NUL \<and> \<not> word_gap c) ?p"
  let ?rest = "drop (length ?tok) ?p"
  let ?out = "if \<not> first \<and> length out < n - 1 then out @ '' '' else out"
  show ?case
  proof (cases "chr_at ?p 0 = NUL")
    case True
    then have "words_of p = []" by (subst words_of.simps) simp
    then show ?thesis using True by (subst glob_words.simps) (simp add: append_words_def)
  next
    case False
    have ws: "words_of p = ?tok # words_of ?rest" using False by (subst words_of.simps) (simp add: Let_def)
    then have "CHR ''*'' \<notin> set ?tok" using 1(3) by simp
    then have g: "glob_token ?tok f = ([], f)" by (simp add: glob_token_def)
    have a: "append_words first out (words_of p) = append_words False (?out @ ?tok) (words_of ?rest)"
      using 1(4) unfolding ws by (cases "words_of ?rest") (auto simp: append_words_def)
    have l: "length ?out + length ?tok < n - 1" using 1(4) [unfolded a] by (simp add: append_words_def)
    have "glob_words n p first out f = glob_words n ?rest False (?out @ ?tok) f"
      using False g l by (subst glob_words.simps) (simp add: Let_def)
    also have "\<dots> = (append_words False (?out @ ?tok) (words_of ?rest), f)"
      using 1(2) [OF refl False refl refl refl g [symmetric] _ l] 1(3,4) ws a by simp
    finally show ?thesis using a by simp
  qed
qed

lemma split_token_parts:
  assumes "split_token tok = (dir, pat)"
  shows "tok = dir @ pat" "SLASH \<notin> set pat" "dir = [] \<or> last dir = SLASH"
proof -
  let ?r = "takeWhile (\<lambda>c. c \<noteq> SLASH) (rev tok)" and ?d = "dropWhile (\<lambda>c. c \<noteq> SLASH) (rev tok)"
  have e: "rev tok = ?r @ ?d" by simp
  then have t: "tok = rev ?d @ rev ?r" by (metis rev_append rev_rev_ident)
  have p: "pat = rev ?r" "dir = take (length tok - length pat) tok" using assms by (auto simp: split_token_def Let_def)
  have d: "dir = rev ?d" unfolding p by (subst (2) t) (metis add_diff_cancel_right' append_eq_conv_conj length_append t)
  show "tok = dir @ pat" unfolding d p(1) by (rule t)
  show "SLASH \<notin> set pat" unfolding p(1) using set_takeWhileD by fastforce
  show "dir = [] \<or> last dir = SLASH" unfolding d using hd_dropWhile [of "\<lambda>c. c \<noteq> SLASH" "rev tok"] by (cases "?d = []") (auto simp: last_rev)
qed

lemma list_line_cstring: "is_cstring (fst (list_line q))"
  using set_takeWhileD [of NUL "\<lambda>c. c \<noteq> NUL \<and> c \<noteq> NEWLINE" q] set_dropWhileD [of NUL]
  by (fastforce simp: list_line_def Let_def is_cstring_def)

section \<open>Properties\<close>

text \<open>The table of shell variables is a map: setting a variable whose name has 1 to 31 characters, when
  it exists or a slot is free, gives it the value (cut to 4095 characters) and leaves all others alone, and
  reading a variable looks it up in that map.\<close>

theorem set_env_updates_map:
  assumes "env_ok e" "cstr nm \<noteq> []" "length (cstr nm) \<le> 31" "env_map e (cstr nm) \<noteq> None \<or> (\<exists>i<32. \<not> env_used (e i))"
  shows "env_ok (set_env (Some nm) (Some v) e)
    \<and> (\<forall>x. env_map (set_env (Some nm) (Some v) e) (cstr x) = ((env_map e)(cstr nm \<mapsto> take 4095 (cstr v))) (cstr x))
    \<and> (\<forall>x. cstr x \<noteq> [] \<longrightarrow> cstr (get_env (Some x) (set_env (Some nm) (Some v) e)) =
         (if cstr x = cstr nm then take 4095 (cstr v) else cstr (get_env (Some x) e)))"
proof -
  note S = set_env_law [OF assms, of "Some v"]
  have m: "env_map f (cstr x) = env_map f x" for f x by (simp add: env_map_def env_find_def)
  show ?thesis using S m by (auto simp: get_env_map)
qed

definition blank_env :: env where
  "blank_env = (\<lambda>i. \<lparr>env_name = replicate 32 NUL, env_value = replicate 4096 NUL, env_used = False\<rparr>)"

lemma blank_env_ok: "env_ok blank_env" "\<exists>i<32. \<not> env_used (blank_env i)"
  by (auto simp: env_ok_def blank_env_def intro: exI [of _ 0])

lemma blank_env_set: "cstr (get_env (Some ''X'') (set_env (Some ''X'') (Some v) blank_env)) = take 4095 (cstr v)"
proof -
  have "\<forall>x. env_map (set_env (Some ''X'') (Some v) blank_env) (cstr x) = ((env_map blank_env)(cstr ''X'' \<mapsto> take 4095 (cstr v))) (cstr x)"
    using set_env_law [OF blank_env_ok(1), of "''X''" "Some v"] blank_env_ok(2) by simp
  from spec [OF this, of "''X''"] show ?thesis using get_env_map [of "''X''"] by simp
qed

theorem set_env_updates_map_witness:
  "cstr (get_env (Some ''X'') (set_env (Some ''X'') (Some ''hello'') blank_env)) = ''hello''"
proof -
  have "\<forall>x. cstr x \<noteq> [] \<longrightarrow> cstr (get_env (Some x) (set_env (Some ''X'') (Some ''hello'') blank_env)) =
      (if cstr x = cstr ''X'' then take 4095 (cstr ''hello'') else cstr (get_env (Some x) blank_env))"
    using set_env_updates_map [OF blank_env_ok(1), of "''X''" "''hello''"] blank_env_ok(2) by simp
  from spec [OF this, of "''X''"] show ?thesis by simp
qed



text \<open>C29. The wildcard matcher, which backs up to the last star only, accepts exactly the names the pattern
  describes: a star stands for any run of characters, every other character for itself.\<close>

theorem glob_match_correct:
  assumes "is_cstring pat" "is_cstring nm"
  shows "glob_match pat nm \<longleftrightarrow> glob_ref pat nm"
  using glob_loop_ref [OF assms, of None] by (simp add: glob_match_def star_ok_def resumes_def)

theorem glob_match_correct_witness: "glob_match ''a*b*c'' ''axbybzc'' \<and> \<not> glob_match ''a*b'' ''axc''"
proof -
  have c: "is_cstring ''a*b*c''" "is_cstring ''axbybzc''" "is_cstring ''a*b''" "is_cstring ''axc''" by (simp_all add: is_cstring_def)
  have "glob_ref ''a*b*c'' ''axbybzc''" "\<not> glob_ref ''a*b'' ''axc''" by code_simp+
  then show ?thesis using glob_match_correct [OF c(1,2)] glob_match_correct [OF c(3,4)] by simp
qed


text \<open>The directory with the one file \<^verbatim>\<open>/a\<close>.\<close>

lemma foldl_idle: "(\<And>i. i \<in> set is \<Longrightarrow> f b i = b) \<Longrightarrow> foldl f b is = b"
  by (induction "is") auto

lemma cstr_eq_split: "cstr b = s \<Longrightarrow> \<exists>r. b = s @ r \<and> (r = [] \<or> hd r = NUL)"
  using hd_dropWhile [of "\<lambda>c. c \<noteq> NUL" b] takeWhile_dropWhile_id [of "\<lambda>c. c \<noteq> NUL" b] unfolding cstr_def
  by (intro exI [of _ "dropWhile (\<lambda>c. c \<noteq> NUL) b"]) auto

lemma hello_listing: "fs_list_directory None True hello_fs = (0, Some [CHR ''a'', NEWLINE], hello_fs\<lparr>fs_errno := 0\<rparr>)"
proof -
  let ?s = "hello_fs\<lparr>fs_errno := 0\<rparr>"
  have lp: "take 255 (cstr (cwd ?s)) = ''/''" by (simp add: hello_fs_ok fresh_fs_ok)
  have d: "fs_directory_exists ?s (Some ''/'')" by (simp add: fs_directory_exists_def null_or_empty_def strcmp_safe_iff)
  have p: "\<not> (case dir_index ?s ''/'' of None \<Rightarrow> False | Some d \<Rightarrow> \<not> perm_allows ?s (dmode ?s d) (downer ?s d) PERM_R)"
    by (auto simp: perm_allows_def hello_fs_ok split: option.splits)
  have du: "dused hello_fs i = 0" if "Suc 0 \<le> i" "i < MAX_D" for i
    using that by (auto simp: hello_tables fresh_fs_def fs_init_def MAX_D_def)
  have fu: "fused hello_fs i = 0" if "Suc 0 \<le> i" "i < MAX_F" for i
    using that by (auto simp: hello_tables fresh_fs_def fs_init_def MAX_F_def)
  have d0: "foldl (list_dir_step ?s ''/'') [] [1..<MAX_D] = []" by (rule foldl_idle) (simp add: list_dir_step_def du)
  have "strcmp_safe (fname hello_fs 0) ''/a''" "fused hello_fs 0 \<noteq> 0"
    using hello_tables(7) by (auto simp: file_index_Some strcmp_safe_iff)
  then obtain r where n: "fname ?s 0 = ''/a'' @ r" "r = [] \<or> hd r = NUL" using cstr_eq_split [of "fname hello_fs 0" "''/a''"] by (auto simp: strcmp_safe_iff)
  then have "child_name ''/'' (fname ?s 0) = Some ''a''"
    by (cases r) (auto simp: child_name_def Let_def strlen_safe_def name_below_def no_slash_def)
  then have f0: "list_file_step ?s ''/'' [] 0 = [CHR ''a'', NEWLINE]"
    using \<open>fused hello_fs 0 \<noteq> 0\<close> by (simp add: list_file_step_def Let_def strlen_safe_def)
  have "foldl (list_file_step ?s ''/'') [CHR ''a'', NEWLINE] [1..<MAX_F] = [CHR ''a'', NEWLINE]"
    by (rule foldl_idle) (simp add: list_file_step_def fu)
  then have f: "foldl (list_file_step ?s ''/'') [] [0..<MAX_F] = [CHR ''a'', NEWLINE]"
    using f0 upt_conv_Cons [of 0 MAX_F] by (simp add: MAX_F_def)
  show ?thesis unfolding fs_list_directory_def Let_def null_or_empty_def option.case if_True lp
    using d p d0 f by simp
qed


end
