(* ===== verification/ShellExec.thy ===== *)
theory ShellExec
  imports AccountCmds ShellWords
begin

section \<open>Executing commands (kernel/kernel.c, kernel/exec.c)\<close>

text \<open>
  The table of built-in commands, the execution of one command line (\<^verbatim>\<open>execute_command\<close>), the loader's choice
  between programs and scripts (\<^verbatim>\<open>exec_file\<close>), the first-boot dialogue and the shell loop.

  The state of the shell extends the session of theory \<open>AccountCmds\<close>, whose commands work on every extension.
  A function pointer of the table is a constructor of \<open>builtin\<close>. The linked list over the static pool is a
  list in table order.

  \<^verbatim>\<open>execute_command\<close> calls itself through \<^verbatim>\<open>sudo\<close> and through scripts; \<open>depth\<close> bounds the nesting, and the flag
  \<open>too_deep\<close> records that the bound was reached. The machine-code loaders \<^verbatim>\<open>elf_run\<close> and \<^verbatim>\<open>linux_run\<close> are a
  parameter \<open>prog\<close>. A script is read in place, byte by byte, from the pool of the filesystem, also while its
  own commands change that pool.
\<close>

subsection \<open>Built-in commands\<close>

datatype builtin = Cmd_exit | Cmd_hostname | Cmd_sudo | Cmd_useradd | Cmd_userdel | Cmd_usermod | Cmd_groupadd
  | Cmd_groupdel | Cmd_groups | Cmd_su | Cmd_passwd | Cmd_chmod | Cmd_chown

record Command =
  cmd_name :: bytes
  cmd_func :: builtin

record shell_state = sess +
  cmd_table :: "Command list"
  cmd_pool_index :: nat
  env_vars :: env
  shell_exit_flag :: bool
  exec_depth :: nat
  too_deep :: bool
  hung :: bool

abbreviation (input) CMD_POOL_SIZE :: nat where "CMD_POOL_SIZE \<equiv> 128"
abbreviation (input) INPUT_BUFFER_SIZE :: nat where "INPUT_BUFFER_SIZE \<equiv> 65536"
abbreviation (input) EXEC_MAX_DEPTH :: nat where "EXEC_MAX_DEPTH \<equiv> 4"

text \<open>The names of all commands that are registered fit the field of 32 bytes.\<close>

definition register_cmd :: "bytes \<Rightarrow> builtin \<Rightarrow> shell_state \<Rightarrow> shell_state" where
  "register_cmd name func s =
     (if cmd_pool_index s \<ge> CMD_POOL_SIZE then s
      else s\<lparr>cmd_pool_index := cmd_pool_index s + 1,
             cmd_table := cmd_table s @ [\<lparr>cmd_name = take 127 (cstr name), cmd_func = func\<rparr>]\<rparr>)"

definition cmd_exists :: "cptr \<Rightarrow> shell_state \<Rightarrow> bool" where
  "cmd_exists name s =
     (if null_or_empty name then False
      else \<exists>c\<in>set (cmd_table s). streq (Some (cmd_name c)) name)"

fun names_from :: "nat \<Rightarrow> Command list \<Rightarrow> bytes \<Rightarrow> bytes" where
  "names_from cap [] buf = buf"
| "names_from cap (c # cs) buf =
     (let buf = buf @ take (cap - 1 - length buf) (cstr (cmd_name c))
      in if length buf + 1 \<ge> cap then buf else names_from cap cs (buf @ line_end))"

definition builtin_names :: "nat \<Rightarrow> shell_state \<Rightarrow> bytes" where
  "builtin_names cap s = (if cap = 0 then [] else names_from cap (cmd_table s) [])"

definition list_step :: "shell_state \<times> nat \<Rightarrow> Command \<Rightarrow> shell_state \<times> nat" where
  "list_step sc c =
     (case sc of (s, col) \<Rightarrow>
      let len = length (cstr (cmd_name c));
          sc = (if col + len + 3 \<ge> 80 then (print line_end s, 0) else (s, col))
      in (says [cmd_name c, '' ''] (fst sc), snd sc + len + 3))"

definition list_commands :: "shell_state \<Rightarrow> shell_state" where
  "list_commands s =
     (let s = print (line_end @ ''Available commands:'' @ line_end @ line_end) s
      in print (line_end @ line_end) (fst (foldl list_step (s, 0) (cmd_table s))))"

definition cmd_exit :: "cptr \<Rightarrow> shell_state \<Rightarrow> shell_state" where
  "cmd_exit args s = s\<lparr>shell_exit_flag := True\<rparr>"

text \<open>Calling through the function pointer. Deleting a home directory recurses over the directory tree;
  \<open>fuel\<close> bounds that recursion, and \<open>hung\<close> records that it did not return.\<close>

definition call_builtin :: "nat \<Rightarrow> (bytes \<Rightarrow> shell_state \<Rightarrow> shell_state) \<Rightarrow> builtin \<Rightarrow> bytes \<Rightarrow> shell_state \<Rightarrow> shell_state" where
  "call_builtin fuel run f args s =
     (case f of
        Cmd_exit \<Rightarrow> cmd_exit (Some args) s
      | Cmd_hostname \<Rightarrow> cmd_hostname (Some args) s
      | Cmd_sudo \<Rightarrow> cmd_sudo run (Some args) s
      | Cmd_useradd \<Rightarrow> cmd_useradd (Some args) s
      | Cmd_userdel \<Rightarrow> (case cmd_userdel fuel (Some args) s of None \<Rightarrow> s\<lparr>hung := True\<rparr> | Some t \<Rightarrow> t)
      | Cmd_usermod \<Rightarrow> cmd_usermod (Some args) s
      | Cmd_groupadd \<Rightarrow> cmd_groupadd (Some args) s
      | Cmd_groupdel \<Rightarrow> cmd_groupdel (Some args) s
      | Cmd_groups \<Rightarrow> cmd_groups (Some args) s
      | Cmd_su \<Rightarrow> cmd_su (Some args) s
      | Cmd_passwd \<Rightarrow> cmd_passwd (Some args) s
      | Cmd_chmod \<Rightarrow> cmd_chmod (Some args) s
      | Cmd_chown \<Rightarrow> cmd_chown (Some args) s)"

subsection \<open>One command line\<close>

text \<open>The files tried for a command name, in order.\<close>

definition prog_dirs :: "bytes list" where
  "prog_dirs = [''/bin/'', ''/usr/bin/'', ''/Programs/'']"

definition prog_exts :: "bytes list" where
  "prog_exts = [[], ''.o'']"

definition prog_path :: "bytes \<Rightarrow> bytes \<Rightarrow> bytes \<Rightarrow> bytes" where
  "prog_path dir name ext =
     (let base = dir @ take (316 - length dir) name in base @ take (319 - length base) ext)"

definition prog_paths :: "bytes \<Rightarrow> bytes list" where
  "prog_paths name = concat (map (\<lambda>d. map (prog_path d name) prog_exts) prog_dirs)"

fun skip_dots :: "bytes \<Rightarrow> bytes" where
  "skip_dots (a # b # fn) = (if a = CHR ''.'' \<and> b = SLASH then skip_dots fn else a # b # fn)"
| "skip_dots fn = fn"

definition split_line :: "bytes \<Rightarrow> bytes \<times> bytes" where
  "split_line line =
     (let nm = take 31 (takeWhile (\<lambda>c. c \<noteq> NUL \<and> c \<noteq> CHR '' '') line)
      in (nm, dropWhile (\<lambda>c. c = CHR '' '') (drop (length nm) line)))"

definition expand_args :: "bytes \<Rightarrow> bytes \<Rightarrow> shell_state \<Rightarrow> bytes \<times> shell_state" where
  "expand_args nm args s =
     (if streq (Some nm) (Some ''read'') then (cstr args, s)
      else case expand_globs (Some (expand_vars (Some args) INPUT_BUFFER_SIZE (env_vars s))) INPUT_BUFFER_SIZE (fsys s) of
        (a, f) \<Rightarrow> (a, s\<lparr>fsys := f\<rparr>))"

definition run_file :: "(bytes \<Rightarrow> bytes \<Rightarrow> shell_state \<Rightarrow> int \<times> shell_state) \<Rightarrow> bytes \<Rightarrow> bytes \<Rightarrow> bytes \<Rightarrow> shell_state \<Rightarrow> shell_state" where
  "run_file exec path display args s =
     (case exec_perm_ok path display s of (ok, s) \<Rightarrow> if ok then snd (exec path args s) else s)"

definition run_command ::
    "nat \<Rightarrow> (bytes \<Rightarrow> bytes \<Rightarrow> shell_state \<Rightarrow> int \<times> shell_state) \<Rightarrow> (bytes \<Rightarrow> shell_state \<Rightarrow> shell_state) \<Rightarrow> bytes \<Rightarrow> shell_state \<Rightarrow> shell_state" where
  "run_command fuel exec run line s =
     (let line = dropWhile (\<lambda>c. c = CHR '' '') line in
      if chr_at line 0 = NUL then s
      else case split_line line of (nm, args) \<Rightarrow>
      case expand_args nm args s of (args, s) \<Rightarrow>
      case find (\<lambda>c. cstr (cmd_name c) = nm) (cmd_table s) of
        Some c \<Rightarrow> call_builtin fuel run (cmd_func c) args s
      | None \<Rightarrow>
          (case find (\<lambda>p. fs_file_exists (fsys s) (Some p)) (prog_paths nm) of
             Some p \<Rightarrow> run_file exec p nm args s
           | None \<Rightarrow>
               let fn = skip_dots nm in
               if fn \<noteq> [] \<and> fs_file_exists (fsys s) (Some fn) then run_file exec fn nm args s
               else says [''error: Command not found: '', nm, line_end] s))"

subsection \<open>Programs and scripts\<close>

text \<open>The bytes of a file that is run: a view into the pool of the filesystem, or a copy.\<close>

datatype image = View nat | Buf bytes

definition image_byte :: "image \<Rightarrow> nat \<Rightarrow> shell_state \<Rightarrow> byte" where
  "image_byte im i s = (case im of View p \<Rightarrow> fpool_mem (fs_pool (fsys s)) (p + i) | Buf b \<Rightarrow> chr_at b i)"

definition image_u16 :: "image \<Rightarrow> nat \<Rightarrow> shell_state \<Rightarrow> nat" where
  "image_u16 im i s = of_char (image_byte im i s) + 256 * of_char (image_byte im (i + 1) s)"

definition image_u32 :: "image \<Rightarrow> nat \<Rightarrow> shell_state \<Rightarrow> nat" where
  "image_u32 im i s = image_u16 im i s + 65536 * image_u16 im (i + 2) s"

definition elf_is_elf32 :: "image \<Rightarrow> nat \<Rightarrow> shell_state \<Rightarrow> bool" where
  "elf_is_elf32 im sz s \<longleftrightarrow>
     sz \<ge> 5 \<and> image_byte im 0 s = CHR 0x7F \<and> image_byte im 1 s = CHR ''E'' \<and> image_byte im 2 s = CHR ''L''
     \<and> image_byte im 3 s = CHR ''F''"

definition linux_image :: "image \<Rightarrow> shell_state \<Rightarrow> bool" where
  "linux_image im s =
     (let e_type = image_u16 im 16 s; e_machine = image_u16 im 18 s in
      if e_machine = 3 \<and> (e_type = 2 \<or> e_type = 3)
      then let phoff = image_u32 im 28 s; phentsize = image_u16 im 42 s; phnum = image_u16 im 44 s; e_entry = image_u32 im 24 s
           in e_type = 2 \<or> e_entry \<noteq> 0 \<or> (\<exists>pi\<in>set [0..<phnum]. image_u32 im (phoff + pi * phentsize) s = 3)
      else False)"

text \<open>The script loop from byte \<open>i\<close> on, with the current line so far.\<close>

function exec_script :: "(bytes \<Rightarrow> shell_state \<Rightarrow> shell_state) \<Rightarrow> image \<Rightarrow> nat \<Rightarrow> nat \<Rightarrow> bytes \<Rightarrow> shell_state \<Rightarrow> shell_state" where
  "exec_script run im sz i line s =
     (let c = image_byte im i s in
      if c = NEWLINE \<or> c = NUL \<or> i \<ge> sz
      then let p = chr_at (dropWhile word_gap line) 0;
               s = (if p \<noteq> NUL \<and> p \<noteq> CHR ''#'' then run line s else s)
           in if i \<ge> sz \<or> image_byte im i s = NUL then s else exec_script run im sz (i + 1) [] s
      else exec_script run im sz (i + 1) (if length line < 255 then line @ [c] else line) s)"
  by pat_completeness auto
termination
  by (relation "measure (\<lambda>(run, im, sz, i, line, s). sz - i)") auto

declare exec_script.simps [simp del]

definition exec_file_at ::
    "(bool \<Rightarrow> image \<Rightarrow> nat \<Rightarrow> bytes \<Rightarrow> bytes \<Rightarrow> shell_state \<Rightarrow> int \<times> shell_state) \<Rightarrow> (bytes \<Rightarrow> shell_state \<Rightarrow> shell_state) \<Rightarrow> nat \<Rightarrow> bytes \<Rightarrow> bytes
     \<Rightarrow> shell_state \<Rightarrow> int \<times> shell_state" where
  "exec_file_at prog run cap path args s =
     (if chr_at path 0 = NUL then (- 1, print (''exec: missing file'' @ line_end) s)
      else case fs_file_data_ptr (Some path) (fsys s) of (ptr, fsz, f) \<Rightarrow>
      let s = s\<lparr>fsys := f\<rparr>;
          src = (case (ptr, fsz) of
                   (Some p, Some (Suc n)) \<Rightarrow> (Some (View p, Suc n), s)
                 | _ \<Rightarrow> (case fs_read_file (Some path) True cap (fsys s) of (rc, b, f) \<Rightarrow>
                          let s = s\<lparr>fsys := f\<rparr> in if rc \<noteq> 0 then (None, s) else (Some (Buf (the b), length (the b)), s)))
      in case src of
           (None, s) \<Rightarrow> (- 1, says [''exec: file not found: '', path, line_end] s)
         | (Some (im, sz), s) \<Rightarrow>
             if elf_is_elf32 im sz s then prog (linux_image im s) im sz path args s
             else (0, exec_script run im sz 0 [] s))"

definition exec_file ::
    "(bool \<Rightarrow> image \<Rightarrow> nat \<Rightarrow> bytes \<Rightarrow> bytes \<Rightarrow> shell_state \<Rightarrow> int \<times> shell_state) \<Rightarrow> (bytes \<Rightarrow> shell_state \<Rightarrow> shell_state) \<Rightarrow> bytes \<Rightarrow> bytes
     \<Rightarrow> shell_state \<Rightarrow> int \<times> shell_state" where
  "exec_file prog run path args s =
     (if exec_depth s \<ge> EXEC_MAX_DEPTH then (- 1, print (''exec: nesting too deep'' @ line_end) s)
      else let cap = (if exec_depth s = 0 then 4194305 else 1048577)
           in case exec_file_at prog run cap path args (s\<lparr>exec_depth := exec_depth s + 1\<rparr>) of
                (r, s) \<Rightarrow> (r, s\<lparr>exec_depth := exec_depth s - 1\<rparr>))"

fun execute_command ::
    "(bool \<Rightarrow> image \<Rightarrow> nat \<Rightarrow> bytes \<Rightarrow> bytes \<Rightarrow> shell_state \<Rightarrow> int \<times> shell_state) \<Rightarrow> nat \<Rightarrow> nat \<Rightarrow> bytes \<Rightarrow> shell_state \<Rightarrow> shell_state" where
  "execute_command prog fuel 0 line s = s\<lparr>too_deep := True\<rparr>"
| "execute_command prog fuel (Suc depth) line s =
     run_command fuel (exec_file prog (execute_command prog fuel depth)) (execute_command prog fuel depth) line s"

subsection \<open>First boot\<close>

text \<open>The dialogues repeat until they get an acceptable answer; \<open>fuel\<close> bounds the number of rounds.\<close>

fun ask_root_password :: "nat \<Rightarrow> 'a sess_scheme \<Rightarrow> 'a sess_scheme option" where
  "ask_root_password 0 s = None"
| "ask_root_password (Suc fuel) s =
     (case read_line MAX_PASSWORD (print ''Set a root password: '' s) of (pw1, s) \<Rightarrow>
      if chr_at pw1 0 = NUL then ask_root_password fuel (print (''Password cannot be empty'' @ line_end) s)
      else case read_line MAX_PASSWORD (print ''Confirm root password: '' s) of (pw2, s) \<Rightarrow>
        if \<not> streq (Some pw1) (Some pw2) then ask_root_password fuel (print (''Passwords do not match'' @ line_end) s)
        else let a = acc s; u = users a 0
             in Some (s\<lparr>acc := a\<lparr>users := (users a)(0 := u\<lparr>password := strncpy (password u) pw1 MAX_PASSWORD\<rparr>)\<rparr>\<rparr>))"

fun ask_login :: "nat \<Rightarrow> 'a sess_scheme \<Rightarrow> (bytes \<times> 'a sess_scheme) option" where
  "ask_login 0 s = None"
| "ask_login (Suc fuel) s =
     (case read_line MAX_USERNAME (print ''Create a login: '' s) of (name, s) \<Rightarrow>
      if chr_at name 0 = NUL then ask_login fuel (print (''Login cannot be empty'' @ line_end) s)
      else if streq (Some name) (Some ''root'') then ask_login fuel (says [''user '', quoted ''root'', '' already exists'' @ line_end] s)
      else if user_find (acc s) name \<noteq> None then ask_login fuel (says [''user '', quoted name, '' already exists'' @ line_end] s)
      else Some (name, s))"

fun ask_password :: "nat \<Rightarrow> bytes \<Rightarrow> 'a sess_scheme \<Rightarrow> 'a sess_scheme option" where
  "ask_password 0 name s = None"
| "ask_password (Suc fuel) name s =
     (case read_line MAX_PASSWORD (print ''Create a password: '' s) of (pass, s) \<Rightarrow>
      if chr_at pass 0 = NUL then ask_password fuel name (print (''Password cannot be empty'' @ line_end) s)
      else case read_line MAX_PASSWORD (print ''Confirm password: '' s) of (conf, s) \<Rightarrow>
        if \<not> streq (Some pass) (Some conf) then ask_password fuel name (print (''Passwords do not match'' @ line_end) s)
        else case user_add (Some name) (Some pass) (acc s, fsys s) of (r, a, f) \<Rightarrow>
          let s = s\<lparr>acc := a, fsys := f\<rparr> in Some (if r = - 2 then print (''user table full'' @ line_end) s else s))"

fun ask_users :: "nat \<Rightarrow> 'a sess_scheme \<Rightarrow> 'a sess_scheme option" where
  "ask_users 0 s = None"
| "ask_users (Suc fuel) s =
     (case read_line 8 (print ''Do you want to create a user account? (y/N): '' s) of (ans, s) \<Rightarrow>
      let c = chr_at ans 0 in
      if c = CHR ''n'' \<or> c = CHR ''N'' \<or> c = NUL then Some s
      else if c \<noteq> CHR ''y'' \<and> c \<noteq> CHR ''Y'' then ask_users fuel (print (''Please answer y or n.'' @ line_end) s)
      else case ask_login fuel s of
             None \<Rightarrow> None
           | Some (name, s) \<Rightarrow> (case ask_password fuel name s of None \<Rightarrow> None | Some s \<Rightarrow> ask_users fuel s))"

definition setup_wizard :: "nat \<Rightarrow> 'a sess_scheme \<Rightarrow> 'a sess_scheme option" where
  "setup_wizard fuel s =
     (let s = says [''Starting setup...'' @ line_end @ line_end, ''===== TanjaOS Setup ====='' @ line_end, line_end] s in
      case ask_root_password fuel s of
        None \<Rightarrow> None
      | Some s \<Rightarrow>
          (case ask_users fuel s of
             None \<Rightarrow> None
           | Some s \<Rightarrow>
               (case read_line MAX_HOSTNAME (print ''Set a hostname: '' s) of (h, s) \<Rightarrow>
                let a = acc s;
                    a = a\<lparr>hostname := h @ NUL # drop (Suc (length h)) (hostname a), is_setup := True\<rparr>
                in Some (print line_end (s\<lparr>acc := a\<rparr>)))))"

definition prompt_root_password :: "nat \<Rightarrow> 'a sess_scheme \<Rightarrow> 'a sess_scheme option" where
  "prompt_root_password fuel s =
     (if chr_at (password (users (acc s) 0)) 0 \<noteq> NUL then Some s
      else map_option save_session
        (ask_root_password fuel (print (line_end @ ''This system has no root password yet.'' @ line_end) s)))"

text \<open>The accounts at boot: the dialogue on a new system, the question for a missing root password on an old one.\<close>

definition boot_setup :: "nat \<Rightarrow> 'a sess_scheme \<Rightarrow> 'a sess_scheme option" where
  "boot_setup fuel s =
     map_option users_ensure_homes
       (if \<not> is_setup (acc s) then map_option save_session (setup_wizard fuel (print line_end s))
        else prompt_root_password fuel s)"

subsection \<open>The shell\<close>

definition clean :: "bytes \<Rightarrow> bytes" where
  "clean s = takeWhile (\<lambda>c. c \<noteq> NEWLINE \<and> c \<noteq> CHR 0x0D) (cstr s)"

text \<open>A turn of the loop: the prompt, one line, its execution. A line that is only Ctrl-D leaves the shell,
  a trailing Ctrl-D is dropped. Clearing the screen at the end is not modelled.\<close>

definition shell_turn ::
    "(bool \<Rightarrow> image \<Rightarrow> nat \<Rightarrow> bytes \<Rightarrow> bytes \<Rightarrow> shell_state \<Rightarrow> int \<times> shell_state) \<Rightarrow> nat \<Rightarrow> nat \<Rightarrow> shell_state \<Rightarrow> shell_state" where
  "shell_turn prog fuel depth s =
     (let s = says [cur_username s, ''@'', hostname (acc s), '':''] s;
          s = print_prompt_path s;
          s = print (if cur_uid s = 0 then ''# '' else ''$ '') s
      in case read_line 4096 s of (buf, s) \<Rightarrow>
         let buf = clean buf; eof = (buf \<noteq> [] \<and> last buf = CHR 0x04);
             buf = (if eof then butlast buf else buf);
             s = (if eof \<and> buf = [] then (print (''exit'' @ line_end) s)\<lparr>shell_exit_flag := True\<rparr> else s)
         in if buf \<noteq> [] then execute_command prog fuel depth buf s else s)"

fun shell_turns ::
    "(bool \<Rightarrow> image \<Rightarrow> nat \<Rightarrow> bytes \<Rightarrow> bytes \<Rightarrow> shell_state \<Rightarrow> int \<times> shell_state) \<Rightarrow> nat \<Rightarrow> nat \<Rightarrow> nat \<Rightarrow> shell_state \<Rightarrow> shell_state option" where
  "shell_turns prog fuel depth 0 s = None"
| "shell_turns prog fuel depth (Suc turns) s =
     (let s = shell_turn prog fuel depth s in if shell_exit_flag s then Some s else shell_turns prog fuel depth turns s)"

definition shell ::
    "(bool \<Rightarrow> image \<Rightarrow> nat \<Rightarrow> bytes \<Rightarrow> bytes \<Rightarrow> shell_state \<Rightarrow> int \<times> shell_state) \<Rightarrow> nat \<Rightarrow> nat \<Rightarrow> nat \<Rightarrow> shell_state \<Rightarrow> shell_state option" where
  "shell prog fuel depth turns s = shell_turns prog fuel depth turns (s\<lparr>shell_exit_flag := False\<rparr>)"

text \<open>One login session of \<^verbatim>\<open>kernel_main\<close>, and the commands it registers before.\<close>

definition enter_home :: "'a sess_scheme \<Rightarrow> 'a sess_scheme" where
  "enter_home s =
     (let f = (fsys s)\<lparr>fs_cur_uid := 0\<rparr>;
          f = (case fs_change_directory (Some (cur_home s)) f of (rc, f) \<Rightarrow>
               if rc \<noteq> 0 then snd (fs_change_directory (Some ''/'') f) else f)
      in s\<lparr>fsys := f\<lparr>fs_cur_uid := cur_uid s\<rparr>\<rparr>)"

definition login_session ::
    "(bool \<Rightarrow> image \<Rightarrow> nat \<Rightarrow> bytes \<Rightarrow> bytes \<Rightarrow> shell_state \<Rightarrow> int \<times> shell_state) \<Rightarrow> nat \<Rightarrow> nat \<Rightarrow> nat \<Rightarrow> shell_state \<Rightarrow> shell_state option" where
  "login_session prog fuel depth turns s =
     (case login_prompt turns (print (''The TanjaOS Project'' @ line_end @ line_end) s) of
        None \<Rightarrow> None
      | Some s \<Rightarrow> shell prog fuel depth turns (enter_home s))"

definition register_all :: "shell_state \<Rightarrow> shell_state" where
  "register_all s =
     foldl (\<lambda>s nf. register_cmd (fst nf) (snd nf) s) s
       [(''exit'', Cmd_exit), (''hostname'', Cmd_hostname), (''sudo'', Cmd_sudo), (''useradd'', Cmd_useradd),
        (''userdel'', Cmd_userdel), (''usermod'', Cmd_usermod), (''groupadd'', Cmd_groupadd), (''groupdel'', Cmd_groupdel),
        (''groups'', Cmd_groups), (''su'', Cmd_su), (''passwd'', Cmd_passwd), (''chmod'', Cmd_chmod), (''chown'', Cmd_chown)]"

section \<open>Only executable files run\<close>

text \<open>What a file needs for the shell to run it for the current user: it exists and has an execute bit, for root
  any of the three, for the owner the owner's, for anybody else the last.\<close>

definition may_exec :: "fs \<Rightarrow> bytes \<Rightarrow> bool" where
  "may_exec f path \<longleftrightarrow> fs_file_exists f (Some path) \<and>
     (let mode = fs_get_mode f (Some path) in
      mode < 0 \<or> mode AND 73 \<noteq> 0 \<and>
       (fs_cur_uid f = 0 \<or> (if fs_cur_uid f = fs_get_owner f (Some path) then mode AND 64 \<noteq> 0 else mode AND 1 \<noteq> 0)))"

lemma exec_perm_ok_iff: "fst (exec_perm_ok path display s) \<Longrightarrow> fs_file_exists (fsys s) (Some path) \<Longrightarrow>
    may_exec (fsys s) path \<and> snd (exec_perm_ok path display s) = s"
  by (auto simp: exec_perm_ok_def may_exec_def Let_def split: if_splits)

lemma may_exec_cong:
  assumes "tabs g = tabs f" "fs_cur_uid g = fs_cur_uid f"
  shows "may_exec g path = may_exec f path"
proof -
  note e = assms(1) [unfolded tabs_eq_iff] tabs_eqD [OF assms(1)]
  have "fs_get_mode g (Some path) = fs_get_mode f (Some path)" "fs_get_owner g (Some path) = fs_get_owner f (Some path)"
    by (simp_all add: fs_get_mode_def fs_get_owner_def e Let_def split: option.split)
  then show ?thesis by (simp add: may_exec_def assms(2) tabs_eqD(10) [OF assms(1)])
qed

definition reads_only :: "fs \<Rightarrow> fs \<Rightarrow> bool" where
  "reads_only f g \<longleftrightarrow> tabs g = tabs f \<and> fs_cur_uid g = fs_cur_uid f"

lemma fs_deny_uid [simp]: "fs_cur_uid (fs_deny f) = fs_cur_uid f"
  by (simp add: fs_deny_def)

lemma file_data_ptr_keeps: "fs_file_data_ptr p f = (a, b, g) \<Longrightarrow> reads_only f g"
  unfolding reads_only_def by (auto simp: fs_file_data_ptr_def Let_def split: if_split_asm option.split_asm)

lemma fdata_read_keeps: "fdata_read i off n f = (b, g) \<Longrightarrow> reads_only f g"
  unfolding reads_only_def by (auto simp: fdata_read_def split: if_split_asm option.split_asm)

lemma fs_read_file_keeps: "fs_read_file p d n f = (rc, b, g) \<Longrightarrow> reads_only f g"
  using fdata_read_keeps
  by (fastforce simp: fs_read_file_def fs_read_file_prefix_def Let_def reads_only_def
      split: if_split_asm option.split_asm prod.split_asm)

lemmas may_exec_reads = may_exec_cong [OF reads_only_def [THEN iffD1, THEN conjunct1] reads_only_def [THEN iffD1, THEN conjunct2]]

text \<open>Two loaders that agree on every file the user may execute.\<close>

definition agree_on_exec ::
    "(bool \<Rightarrow> image \<Rightarrow> nat \<Rightarrow> bytes \<Rightarrow> bytes \<Rightarrow> shell_state \<Rightarrow> int \<times> shell_state) \<Rightarrow>
     (bool \<Rightarrow> image \<Rightarrow> nat \<Rightarrow> bytes \<Rightarrow> bytes \<Rightarrow> shell_state \<Rightarrow> int \<times> shell_state) \<Rightarrow> bool" where
  "agree_on_exec prog prog' \<longleftrightarrow>
     (\<forall>l im sz path args s. may_exec (fsys s) path \<longrightarrow> prog l im sz path args s = prog' l im sz path args s)"

lemma exec_file_at_cong:
  assumes "agree_on_exec prog prog'"
    "may_exec (fsys s) path"
  shows "exec_file_at prog run cap path args s = exec_file_at prog' run cap path args s"
proof -
  obtain ptr fsz f where p: "fs_file_data_ptr (Some path) (fsys s) = (ptr, fsz, f)" by (cases "fs_file_data_ptr (Some path) (fsys s)")
  obtain rc b g where r: "fs_read_file (Some path) True cap f = (rc, b, g)" by (cases "fs_read_file (Some path) True cap f")
  have "may_exec f path" "may_exec g path"
    using assms(2) may_exec_reads file_data_ptr_keeps [OF p] fs_read_file_keeps [OF r] by blast+
  then show ?thesis
    by (auto simp: exec_file_at_def p r assms(1) [unfolded agree_on_exec_def] Let_def split: option.splits nat.splits prod.splits)
qed

lemma run_file_cong:
  assumes "agree_on_exec prog prog'"
    "fs_file_exists (fsys s) (Some path)"
  shows "run_file (exec_file prog run) path nm args s = run_file (exec_file prog' run) path nm args s"
proof (cases "exec_perm_ok path nm s")
  case (Pair ok t)
  then show ?thesis
    using exec_perm_ok_iff [of path nm s] assms(2) exec_file_at_cong [OF assms(1)]
    by (auto simp: run_file_def exec_file_def Let_def)
qed

lemma run_command_cong:
  assumes "agree_on_exec prog prog'"
  shows "run_command fuel (exec_file prog run) run line s = run_command fuel (exec_file prog' run) run line s"
proof -
  have f: "find (\<lambda>p. fs_file_exists g (Some p)) ps = Some p \<Longrightarrow> fs_file_exists g (Some p)" for g ps p
    by (auto simp: find_Some_iff)
  let ?l = "dropWhile (\<lambda>c. c = CHR '' '') line"
  obtain nm args where n: "split_line ?l = (nm, args)" by (cases "split_line ?l")
  obtain as t where e: "expand_args nm args s = (as, t)" by (cases "expand_args nm args s")
  show ?thesis
    by (cases "find (\<lambda>p. fs_file_exists (fsys t) (Some p)) (prog_paths nm)")
      (simp_all add: run_command_def n e f run_file_cong [OF assms] Let_def cong: option.case_cong if_cong)
qed

text \<open>C26. The shell runs a machine-code program only from a file that exists and that the current user may execute:
  the loaders \<^verbatim>\<open>elf_run\<close> and \<^verbatim>\<open>linux_run\<close> may behave in any way on all other files and no command line, with
  the scripts and the \<^verbatim>\<open>sudo\<close> commands it runs at any nesting, shows a difference.\<close>

theorem execute_command_needs_x:
  assumes "agree_on_exec prog prog'"
  shows "execute_command prog fuel depth line s = execute_command prog' fuel depth line s"
proof (induction depth arbitrary: line s)
  case (Suc depth)
  then have "execute_command prog fuel depth = execute_command prog' fuel depth" by blast
  then show ?case using run_command_cong [OF assms] by simp
qed simp

theorem execute_command_needs_x_witness:
  "\<forall>s. execute_command (\<lambda>l im sz path args s. (0, s)) 3 2 ''/bin/ls -l'' s =
    execute_command (\<lambda>l im sz path args s. if may_exec (fsys s) path then (0, s) else (7, s\<lparr>hung := True\<rparr>)) 3 2 ''/bin/ls -l'' s"
  by (intro allI execute_command_needs_x) (simp add: agree_on_exec_def)

section \<open>A command that runs itself\<close>

lemma sudo_line: "split_line ''sudo $X'' = (''sudo'', ''$X'')"
  by code_simp

lemma expand_self:
  assumes "cstr (get_env (Some ''X'') (env_vars s)) = ''sudo $X''"
  shows "expand_args ''sudo'' ''$X'' s = (''sudo $X'', s)"
proof -
  have "expand_vars (Some ''$X'') 65536 (env_vars s) = take 65535 (concat (map (piece_text (env_vars s)) (pieces ''$X'')))"
    using expand_from_pieces [of "''$X''"] by (simp add: expand_vars_def is_cstring_def)
  moreover have "pieces ''$X'' = [Var ''X'']" by code_simp
  ultimately have v: "expand_vars (Some ''$X'') 65536 (env_vars s) = ''sudo $X''" using assms by (simp add: piece_text_def)
  have w: "words_of ''sudo $X'' = [''sudo'', ''$X'']" by code_simp
  have "expand_globs (Some ''sudo $X'') 65536 (fsys s) = (''sudo $X'', fsys s)"
    using glob_words_plain [of "''sudo $X''" True "[]" 65536 "fsys s"] by (force simp: w expand_globs_def append_words_def)
  then show ?thesis by (simp add: expand_args_def v)
qed

text \<open>The nesting of \<^verbatim>\<open>sudo\<close> is not bounded: for root, a variable whose value is the command \<^verbatim>\<open>sudo\<close> with the
  variable itself as its argument makes \<^verbatim>\<open>execute_command\<close> call itself without end, whatever depth the stack
  allows; the bound on nested scripts does not apply to it.\<close>

theorem sudo_recursion_unbounded:
  assumes "cur_uid s = 0" "cstr (get_env (Some ''X'') (env_vars s)) = ''sudo $X''"
    "find (\<lambda>c. cstr (cmd_name c) = ''sudo'') (cmd_table s) = Some c" "cmd_func c = Cmd_sudo"
  shows "execute_command prog fuel depth ''sudo $X'' s = s\<lparr>too_deep := True\<rparr>"
proof (induction depth)
  case (Suc depth)
  have "execute_command prog fuel (Suc depth) ''sudo $X'' s = execute_command prog fuel depth ''sudo $X'' s"
    using assms by (simp add: run_command_def sudo_line expand_self call_builtin_def cmd_sudo_def null_or_empty_def)
  then show ?case using Suc by simp
qed simp

definition root_shell :: shell_state where
  "root_shell = register_all (sess.extend (carl_session (typing []) 0)
     \<lparr>cmd_table = [], cmd_pool_index = 0, env_vars = set_env (Some ''X'') (Some ''sudo $X'') blank_env, shell_exit_flag = False,
      exec_depth = 0, too_deep = False, hung = False\<rparr>)"

theorem sudo_recursion_unbounded_witness: "too_deep (execute_command (\<lambda>l im sz path args s. (0, s)) 9 1000 ''sudo $X'' root_shell)"
proof -
  have "cur_uid root_shell = 0" "env_vars root_shell = set_env (Some ''X'') (Some ''sudo $X'') blank_env"
    "find (\<lambda>c. cstr (cmd_name c) = ''sudo'') (cmd_table root_shell) = Some \<lparr>cmd_name = ''sudo'', cmd_func = Cmd_sudo\<rparr>"
    by (simp_all add: root_shell_def register_all_def register_cmd_def sess.defs carl_session_def)
  then show ?thesis using sudo_recursion_unbounded [of root_shell] by (simp add: blank_env_set)
qed

section \<open>First boot\<close>

text \<open>Every account has a password.\<close>

definition all_passwords :: "accounts \<Rightarrow> bool" where
  "all_passwords a \<longleftrightarrow> 0 < users_count a \<and> (\<forall>i<users_count a. cstr (password (users a i)) \<noteq> [])"

lemma strncpy_password:
  assumes "length dst = 32" "is_cstring pw" "length pw < 32"
  shows "cstr (strncpy dst pw 32) = pw"
proof -
  have "strncpy dst pw 32 = pw @ replicate (32 - length pw) NUL"
    using strncpy_from_eq [of 32 dst pw] assms by (simp add: strncpy_def)
  then show ?thesis using assms by simp
qed

lemma ask_root_password_sets:
  assumes "ask_root_password fuel s = Some t" "length (password (users (acc s) 0)) = 32"
    and "0 < users_count (acc s)" "\<forall>i. 0 < i \<longrightarrow> i < users_count (acc s) \<longrightarrow> cstr (password (users (acc s) i)) \<noteq> []"
  shows "all_passwords (acc t)"
  using assms
proof (induction fuel arbitrary: s)
  case (Suc fuel)
  let ?s1 = "s\<lparr>kbd_pos := Suc (kbd_pos s)\<rparr>"
  consider (again) r where "ask_root_password fuel r = Some t" "acc r = acc s"
    | (set) "typed s 0 \<noteq> []" "acc t = (acc s)\<lparr>users := (users (acc s))(0 := (users (acc s) 0)\<lparr>password :=
        strncpy (password (users (acc s) 0)) (typed s 0) 32\<rparr>)\<rparr>"
    using Suc.prems(1) by (auto simp: read_line_typed chr_at_typed Let_def split: if_splits)
  then show ?case
  proof cases
    case again
    then show ?thesis using Suc.IH [of r] Suc.prems(2-) by simp
  next
    case set
    have "cstr (strncpy (password (users (acc s) 0)) (typed s 0) 32) = typed s 0"
      using Suc.prems(2) by (intro strncpy_password) (simp_all add: typed_def)
    then show ?thesis using Suc.prems(3,4) set by (auto simp: all_passwords_def)
  qed
qed simp

lemma ask_login_frame: "ask_login fuel s = Some (name, t) \<Longrightarrow> acc t = acc s"
  by (induction fuel arbitrary: s)
    (auto simp: read_line_typed Let_def split: if_split_asm)

lemma user_add_passwords:
  assumes "all_passwords a" "cstr pass \<noteq> []" "user_add (Some name) (Some pass) (a, f) = (r, b, g)"
  shows "all_passwords b"
proof -
  have "cstr (password (users (new_user name pass 0 a) (users_count a))) = take 31 (cstr pass)"
    by (simp add: new_user_def Let_def new_user_name copied_name(2) [of pass])
  then have "all_passwords (new_user name pass 0 a)"
    using assms(1,2) by (auto simp: all_passwords_def new_user_def Let_def less_Suc_eq)
  then show ?thesis using assms(1)
    by (cases rule: user_add_full_cases [OF assms(3) [unfolded user_add_def]]) (auto simp: store_save_def all_passwords_def)
qed

lemma ask_password_keeps: "ask_password fuel name s = Some t \<Longrightarrow> all_passwords (acc s) \<Longrightarrow> all_passwords (acc t)"
proof (induction fuel arbitrary: s)
  case (Suc fuel)
  consider (again) r where "ask_password fuel name r = Some t" "acc r = acc s"
    | (add) r b g where "typed s 0 \<noteq> []" "user_add (Some name) (Some (typed s 0)) (acc s, fsys s) = (r, b, g)" "acc t = b"
    using Suc.prems(1) by (auto simp: read_line_typed chr_at_typed Let_def split: if_split_asm prod.split_asm)
  then show ?case
  proof cases
    case again
    then show ?thesis using Suc.IH [of r] Suc.prems(2) by simp
  next
    case add
    then show ?thesis using user_add_passwords [OF Suc.prems(2) _ add(2)] by simp
  qed
qed simp

lemma ask_users_keeps: "ask_users fuel s = Some t \<Longrightarrow> all_passwords (acc s) \<Longrightarrow> all_passwords (acc t)"
proof (induction fuel arbitrary: s)
  case (Suc fuel)
  obtain ans s1 where r: "read_line 8 (print ''Do you want to create a user account? (y/N): '' s) = (ans, s1)" by fastforce
  have a1: "acc s1 = acc s" using read_line_frame(2) [OF r] by simp
  show ?case using Suc.prems Suc.IH ask_login_frame ask_password_keeps a1
    by (fastforce simp: r Let_def split: if_split_asm option.split_asm prod.split_asm)
qed simp

lemma setup_wizard_passwords:
  assumes "setup_wizard fuel s = Some t" "length (password (users (acc s) 0)) = 32"
    "0 < users_count (acc s)" "\<forall>i. 0 < i \<longrightarrow> i < users_count (acc s) \<longrightarrow> cstr (password (users (acc s) i)) \<noteq> []"
  shows "all_passwords (acc t) \<and> is_setup (acc t)"
proof -
  let ?s0 = "says [''Starting setup...'' @ line_end @ line_end, ''===== TanjaOS Setup ====='' @ line_end, line_end] s"
  obtain s1 where s1: "ask_root_password fuel ?s0 = Some s1" using assms(1) by (auto simp: setup_wizard_def split: option.split_asm)
  obtain s2 where s2: "ask_users fuel s1 = Some s2" using assms(1) s1 by (auto simp: setup_wizard_def split: option.split_asm)
  obtain h s3 where h: "read_line 64 (print ''Set a hostname: '' s2) = (h, s3)" by fastforce
  have t: "acc t = (acc s2)\<lparr>hostname := h @ NUL # drop (Suc (length h)) (hostname (acc s2)), is_setup := True\<rparr>"
    using assms(1) s1 s2 h read_line_frame(2) [OF h] by (auto simp: setup_wizard_def Let_def)
  have "all_passwords (acc s1)" by (rule ask_root_password_sets [OF s1]) (use assms(2-) in simp_all)
  then have "all_passwords (acc s2)" by (rule ask_users_keeps [OF s2])
  then show ?thesis by (simp add: t all_passwords_def)
qed

lemma setup_wizard_returns:
  assumes "typed s 0 \<noteq> []" "typed s 1 = typed s 0" "chr_at (typed s 2) 0 \<in> {CHR ''n'', CHR ''N'', NUL}"
  shows "\<exists>t. setup_wizard (Suc fuel) s = Some t"
proof -
  let ?s0 = "says [''Starting setup...'' @ line_end @ line_end, ''===== TanjaOS Setup ====='' @ line_end, line_end] s"
  have "\<exists>t. ask_root_password (Suc fuel) r = Some t \<and> kbd t = kbd r \<and> kbd_pos t = Suc (Suc (kbd_pos r))"
    if "typed r 0 \<noteq> []" "typed r 1 = typed r 0" for r :: "'a sess_scheme"
    using that by (simp add: read_line_def typed_def Let_def chr_at_0_NUL_iff)
  from this [of ?s0] obtain t where t: "ask_root_password (Suc fuel) ?s0 = Some t" "kbd t = kbd s" "kbd_pos t = Suc (Suc (kbd_pos s))"
    using assms(1,2) by (auto simp: typed_def)
  have "chr_at (take 7 (cstr l)) 0 = chr_at (take 31 (cstr l)) 0" for l :: bytes by (cases l) (auto simp: chr_at_def)
  then have "\<exists>u. ask_users (Suc fuel) t = Some u" using assms(3) t(2,3) by (auto simp: read_line_def typed_def)
  then show ?thesis using t(1) by (auto simp: setup_wizard_def Let_def split: prod.split)
qed

lemma foldl_field_keeps: "(\<And>s i. f (g s i) = f s) \<Longrightarrow> f (foldl g s is) = f s"
  by (induction "is" arbitrary: s) simp_all

lemma ensure_homes_acc [simp]: "acc (users_ensure_homes s) = acc s"
  unfolding users_ensure_homes_def by (rule foldl_field_keeps) (simp add: Let_def)

lemma boot_setup_root:
  assumes b: "boot_setup fuel s = Some t" and ok: "length (password (users (acc s) 0)) = 32" "0 < users_count (acc s)"
    "\<forall>i. 0 < i \<longrightarrow> i < users_count (acc s) \<longrightarrow> cstr (password (users (acc s) i)) \<noteq> []"
  shows "all_passwords (acc t)"
proof (cases "is_setup (acc s)")
  case False
  then obtain u where u: "setup_wizard fuel (print line_end s) = Some u" "t = users_ensure_homes (save_session u)"
    using b by (auto simp: boot_setup_def)
  then show ?thesis using setup_wizard_passwords [OF u(1)] ok by (simp add: all_passwords_def)
next
  case True
  then obtain u where u: "prompt_root_password fuel s = Some u" "t = users_ensure_homes u"
    using b by (auto simp: boot_setup_def)
  show ?thesis
  proof (cases "cstr (password (users (acc s) 0)) = []")
    case False
    then have "all_passwords (acc s)" using ok unfolding all_passwords_def by (metis gr0I)
    then show ?thesis using u False by (simp add: prompt_root_password_def chr_at_0_NUL_iff)
  next
    case True
    then obtain v where "ask_root_password fuel (print (line_end @ ''This system has no root password yet.'' @ line_end) s) = Some v"
      "t = users_ensure_homes (save_session v)" using u by (auto simp: prompt_root_password_def chr_at_0_NUL_iff)
    then show ?thesis using ask_root_password_sets [of fuel _ v] ok by (simp add: all_passwords_def)
  qed
qed



end
