(* ===== verification/KHeap.thy ===== *)
theory KHeap
  imports Allocator
begin

section \<open>The kernel heap (kernel/libc.c)\<close>

text \<open>
  \<^verbatim>\<open>malloc\<close>, \<^verbatim>\<open>free\<close>, \<^verbatim>\<open>calloc\<close> and \<^verbatim>\<open>realloc\<close> of the kernel's C library: a doubly linked list of blocks in address
  order over one arena, each block a header of 20 bytes (magic number, total size, next, prev, free flag, all
  32-bit little-endian) followed by its payload. The model keeps the arena as the bytes the code sees: the
  headers are loaded from and stored into the same memory as the payload, in the order of the code's stores.
  An address is an absolute 32-bit address, 0 is the null pointer.

  The walk over the list has no bound in the code. \<open>malloc_from\<close> counts its steps; the flag \<open>heap_stuck\<close> records
  that the walk took more steps than the arena has bytes, which happens only on a list with a cycle, and
  never on a well-formed heap. The messages printed on errors are left out.

  The abstract view is the list of blocks (\<open>heap_rep\<close>). The laws of the interface \<open>block_allocator\<close> are proved for
  the byte-level code, so the lemmas of its clients hold here as they do for the filesystem's pool.
\<close>

abbreviation (input) HDR :: nat where "HDR \<equiv> 20"
abbreviation (input) MALLOC_ALIGN :: nat where "MALLOC_ALIGN \<equiv> 16"
abbreviation (input) MALLOC_MAGIC :: nat where "MALLOC_MAGIC \<equiv> 185649679"

record heap =
  malloc_arena :: nat
  malloc_arena_bytes :: nat
  malloc_ready :: int
  malloc_head :: nat
  heap_mem :: mem
  heap_stuck :: bool

subsection \<open>The code\<close>

text \<open>The fields of a block header.\<close>

abbreviation b_magic :: "mem \<Rightarrow> nat \<Rightarrow> nat" where "b_magic m b \<equiv> ld32 m b"
abbreviation b_size :: "mem \<Rightarrow> nat \<Rightarrow> nat" where "b_size m b \<equiv> ld32 m (b + 4)"
abbreviation b_next :: "mem \<Rightarrow> nat \<Rightarrow> nat" where "b_next m b \<equiv> ld32 m (b + 8)"
abbreviation b_prev :: "mem \<Rightarrow> nat \<Rightarrow> nat" where "b_prev m b \<equiv> ld32 m (b + 12)"
abbreviation b_free :: "mem \<Rightarrow> nat \<Rightarrow> nat" where "b_free m b \<equiv> ld32 m (b + 16)"
abbreviation set_size :: "nat \<Rightarrow> nat \<Rightarrow> mem \<Rightarrow> mem" where "set_size b v m \<equiv> st32 m (b + 4) v"
abbreviation set_next :: "nat \<Rightarrow> nat \<Rightarrow> mem \<Rightarrow> mem" where "set_next b v m \<equiv> st32 m (b + 8) v"
abbreviation set_prev :: "nat \<Rightarrow> nat \<Rightarrow> mem \<Rightarrow> mem" where "set_prev b v m \<equiv> st32 m (b + 12) v"
abbreviation set_free :: "nat \<Rightarrow> nat \<Rightarrow> mem \<Rightarrow> mem" where "set_free b v m \<equiv> st32 m (b + 16) v"

definition malloc_set_arena :: "nat \<Rightarrow> nat \<Rightarrow> heap \<Rightarrow> heap" where
  "malloc_set_arena base bytes h =
     h\<lparr>malloc_arena := base, malloc_arena_bytes := align_down MALLOC_ALIGN bytes, malloc_ready := 0, malloc_head := 0\<rparr>"

definition malloc_init :: "heap \<Rightarrow> heap" where
  "malloc_init h =
     (if malloc_arena h = 0 \<or> malloc_arena_bytes h < 4096 then h\<lparr>malloc_ready := - 1\<rparr>
      else let b = malloc_arena h; m = heap_mem h;
               m = st32 m b MALLOC_MAGIC;
               m = set_size b (malloc_arena_bytes h) m;
               m = set_next b 0 m;
               m = set_prev b 0 m;
               m = set_free b 1 m
           in h\<lparr>malloc_head := b, heap_mem := m, malloc_ready := 1\<rparr>)"

definition malloc_round :: "nat \<Rightarrow> nat" where
  "malloc_round n =
     (let n = u32 (n + HDR); n = align_down MALLOC_ALIGN (u32 (n + (MALLOC_ALIGN - 1)))
      in if n < HDR + MALLOC_ALIGN then HDR + MALLOC_ALIGN else n)"

text \<open>Cutting the rest off a block that is large enough for two.\<close>

definition split_block :: "nat \<Rightarrow> nat \<Rightarrow> mem \<Rightarrow> mem" where
  "split_block need b m =
     (let nb = u32 (b + need);
          m = st32 m nb MALLOC_MAGIC;
          m = set_size nb (b_size m b - need) m;
          m = set_next nb (b_next m b) m;
          m = set_prev nb b m;
          m = set_free nb 1 m;
          m = (if b_next m b \<noteq> 0 then set_prev (b_next m b) nb m else m);
          m = set_next b nb m
      in set_size b need m)"

fun malloc_from :: "nat \<Rightarrow> nat \<Rightarrow> nat \<Rightarrow> mem \<Rightarrow> (nat option \<times> mem) option" where
  "malloc_from 0 need b m = None"
| "malloc_from (Suc steps) need b m =
     (if b = 0 then Some (None, m)
      else if b_free m b = 0 \<or> b_size m b < need then malloc_from steps need (b_next m b) m
      else let m = (if b_size m b \<ge> u32 (need + (HDR + MALLOC_ALIGN)) then split_block need b m else m)
           in Some (Some (u32 (b + HDR)), set_free b 0 m))"

definition malloc :: "nat \<Rightarrow> heap \<Rightarrow> nat option \<times> heap" where
  "malloc n h =
     (let h = (if malloc_ready h = 0 then malloc_init h else h)
      in case malloc_from (malloc_arena_bytes h + 1) (malloc_round n) (malloc_head h) (heap_mem h) of
           None \<Rightarrow> (None, h\<lparr>heap_stuck := True\<rparr>)
         | Some (p, m) \<Rightarrow> (p, h\<lparr>heap_mem := m\<rparr>))"

text \<open>Taking the next block into \<open>b\<close>.\<close>

definition absorb :: "nat \<Rightarrow> mem \<Rightarrow> mem" where
  "absorb b m =
     (let m = set_size b (u32 (b_size m b + b_size m (b_next m b))) m;
          m = set_next b (b_next m (b_next m b)) m
      in if b_next m b \<noteq> 0 then set_prev (b_next m b) b m else m)"

definition absorb_into_prev :: "nat \<Rightarrow> mem \<Rightarrow> mem" where
  "absorb_into_prev b m =
     (let m = set_size (b_prev m b) (u32 (b_size m (b_prev m b) + b_size m b)) m;
          m = set_next (b_prev m b) (b_next m b) m
      in if b_next m b \<noteq> 0 then set_prev (b_next m b) (b_prev m b) m else m)"

definition free_block :: "nat \<Rightarrow> mem \<Rightarrow> mem" where
  "free_block b m =
     (let m = set_free b 1 m;
          m = (if b_next m b \<noteq> 0 \<and> b_free m (b_next m b) \<noteq> 0 then absorb b m else m)
      in if b_prev m b \<noteq> 0 \<and> b_free m (b_prev m b) \<noteq> 0 then absorb_into_prev b m else m)"

definition block_of :: "nat \<Rightarrow> nat" where
  "block_of p = u32 (p + (4294967296 - HDR))"

definition free :: "nat option \<Rightarrow> heap \<Rightarrow> heap" where
  "free ptr h =
     (case ptr of
        None \<Rightarrow> h
      | Some p \<Rightarrow>
          let b = block_of p; m = heap_mem h in
          if b_magic m b \<noteq> MALLOC_MAGIC then h
          else if b_free m b \<noteq> 0 then h
          else h\<lparr>heap_mem := free_block b m\<rparr>)"

definition heap_put :: "nat \<Rightarrow> byte \<Rightarrow> heap \<Rightarrow> heap" where
  "heap_put i c h = h\<lparr>heap_mem := (heap_mem h)(i := c)\<rparr>"

definition calloc :: "nat \<Rightarrow> nat \<Rightarrow> heap \<Rightarrow> nat option \<times> heap" where
  "calloc nmemb sz h =
     (if nmemb \<noteq> 0 \<and> sz > 4294967295 div nmemb then (None, h)
      else case malloc (u32 (nmemb * sz)) h of
        (None, h) \<Rightarrow> (None, h)
      | (Some p, h) \<Rightarrow> (Some p, put_run heap_put p (replicate (u32 (nmemb * sz)) NUL) h))"

definition realloc :: "nat option \<Rightarrow> nat \<Rightarrow> heap \<Rightarrow> nat option \<times> heap" where
  "realloc ptr n h =
     (case ptr of
        None \<Rightarrow> malloc n h
      | Some p \<Rightarrow>
          if n = 0 then (None, free (Some p) h)
          else let b = block_of p; m = heap_mem h in
          if b_magic m b \<noteq> MALLOC_MAGIC then (None, h)
          else let have_n = b_size m b - HDR in
          if have_n \<ge> n then (Some p, h)
          else if b_next m b \<noteq> 0 \<and> b_free m (b_next m b) \<noteq> 0
                  \<and> u32 (b_size m b + b_size m (b_next m b)) \<ge> malloc_round n
          then (Some p, h\<lparr>heap_mem := absorb b m\<rparr>)
          else case malloc n h of
            (None, h) \<Rightarrow> (None, h)
          | (Some q, h) \<Rightarrow> (Some q, free (Some p) (put_run heap_put q (run_of (heap_mem h) p have_n) h)))"

section \<open>The abstract view: a list of blocks\<close>

text \<open>Total size and free flag of each block.\<close>

type_synonym hblocks = "(nat \<times> bool) list"

definition blk :: "mem \<Rightarrow> nat \<Rightarrow> nat \<Rightarrow> bool \<Rightarrow> nat \<Rightarrow> nat \<Rightarrow> bool" where
  "blk m b sz fr pv nx \<longleftrightarrow>
     b_magic m b = MALLOC_MAGIC \<and> b_size m b = sz \<and> b_next m b = nx \<and> b_prev m b = pv \<and> b_free m b = (if fr then 1 else 0)
     \<and> 36 \<le> sz"

text \<open>The list from \<open>b\<close> to the end \<open>e\<close> of the arena, and a part of it that ends before another block.\<close>

fun heap_rep :: "mem \<Rightarrow> nat \<Rightarrow> nat \<Rightarrow> hblocks \<Rightarrow> nat \<Rightarrow> bool" where
  "heap_rep m pv b [] e \<longleftrightarrow> b = e"
| "heap_rep m pv b ((sz, fr) # bl) e \<longleftrightarrow>
     blk m b sz fr pv (if bl = [] then 0 else b + sz) \<and> heap_rep m b (b + sz) bl e"

fun heap_pre :: "mem \<Rightarrow> nat \<Rightarrow> nat \<Rightarrow> hblocks \<Rightarrow> nat \<Rightarrow> nat \<Rightarrow> bool" where
  "heap_pre m pv b [] pv' b' \<longleftrightarrow> pv' = pv \<and> b' = b"
| "heap_pre m pv b ((sz, fr) # bl) pv' b' \<longleftrightarrow> blk m b sz fr pv (b + sz) \<and> heap_pre m b (b + sz) bl pv' b'"

fun h_live :: "nat \<Rightarrow> hblocks \<Rightarrow> (nat \<times> nat) list" where
  "h_live b [] = []"
| "h_live b ((sz, fr) # bl) = (if fr then h_live (b + sz) bl else (b + HDR, sz - HDR) # h_live (b + sz) bl)"

fun in_payload :: "nat \<Rightarrow> hblocks \<Rightarrow> nat \<Rightarrow> bool" where
  "in_payload b [] i \<longleftrightarrow> False"
| "in_payload b ((sz, fr) # bl) i \<longleftrightarrow> \<not> fr \<and> b + HDR \<le> i \<and> i < b + sz \<or> in_payload (b + sz) bl i"

lemma blk_cong: "blk m b sz fr pv nx \<Longrightarrow> (\<And>i. b \<le> i \<Longrightarrow> i < b + 20 \<Longrightarrow> m' i = m i) \<Longrightarrow> blk m' b sz fr pv nx"
  unfolding blk_def by (auto simp: ld32_def)

lemma heap_rep_le: "heap_rep m pv b bl e \<Longrightarrow> b \<le> e \<and> (bl \<noteq> [] \<longrightarrow> b + 36 \<le> e)"
proof (induction bl arbitrary: b pv)
  case (Cons x bl)
  then show ?case by (cases x) (fastforce simp: blk_def)
qed simp

lemma heap_rep_cong: "heap_rep m pv b bl e \<Longrightarrow> (\<And>i. b \<le> i \<Longrightarrow> i < e \<Longrightarrow> m' i = m i) \<Longrightarrow> heap_rep m' pv b bl e"
proof (induction bl arbitrary: b pv)
  case (Cons x bl)
  obtain sz fr where x: "x = (sz, fr)" by (cases x)
  then have "heap_rep m b (b + sz) bl e" "36 \<le> sz" using Cons.prems(1) by (auto simp: blk_def)
  moreover from this have "b + sz \<le> e" using heap_rep_le by blast
  ultimately show ?case using Cons x by (auto intro: blk_cong)
qed simp

lemma heap_pre_le: "heap_pre m pv b bl pv' b' \<Longrightarrow> b \<le> b'"
proof (induction bl arbitrary: b pv)
  case (Cons x bl)
  then show ?case by (cases x) fastforce
qed simp

lemma heap_pre_cong: "heap_pre m pv b bl pv' b' \<Longrightarrow> (\<And>i. b \<le> i \<Longrightarrow> i < b' \<Longrightarrow> m' i = m i) \<Longrightarrow> heap_pre m' pv b bl pv' b'"
proof (induction bl arbitrary: b pv)
  case (Cons x bl)
  obtain sz fr where x: "x = (sz, fr)" by (cases x)
  then have "heap_pre m b (b + sz) bl pv' b'" "36 \<le> sz" using Cons.prems(1) by (auto simp: blk_def)
  moreover from this have "b + sz \<le> b'" using heap_pre_le by blast
  ultimately show ?case using Cons x by (auto intro: blk_cong)
qed simp

lemma heap_rep_append:
  "ys \<noteq> [] \<Longrightarrow> heap_rep m pv b (xs @ ys) e \<longleftrightarrow> (\<exists>p1 b1. heap_pre m pv b xs p1 b1 \<and> heap_rep m p1 b1 ys e)"
proof (induction xs arbitrary: b pv)
  case (Cons x xs)
  then show ?case by (cases x) auto
qed simp

lemma heap_pre_append:
  "heap_pre m pv b (xs @ ys) p2 b2 \<longleftrightarrow> (\<exists>p1 b1. heap_pre m pv b xs p1 b1 \<and> heap_pre m p1 b1 ys p2 b2)"
proof (induction xs arbitrary: b pv)
  case (Cons x xs)
  then show ?case by (cases x) auto
qed simp

section \<open>Allocation is first fit\<close>

fun a_malloc :: "nat \<Rightarrow> hblocks \<Rightarrow> nat \<Rightarrow> nat option \<times> hblocks" where
  "a_malloc n [] b = (None, [])"
| "a_malloc n ((sz, fr) # bl) b =
     (if fr \<and> sz \<ge> n
      then (Some (b + HDR), if sz \<ge> n + 36 then (n, False) # (sz - n, True) # bl else (sz, False) # bl)
      else case a_malloc n bl (b + sz) of (r, bl') \<Rightarrow> (r, (sz, fr) # bl'))"

text \<open>Only the back pointer of the first block changes.\<close>

lemma heap_rep_set_prev:
  assumes "heap_rep m pv b bl e" "bl \<noteq> []" "v < 4294967296"
  shows "heap_rep (set_prev b v m) v b bl e"
proof -
  obtain sz fr bl' where bl: "bl = (sz, fr) # bl'" using assms(2) by (cases bl) auto
  have t: "heap_rep m b (b + sz) bl' e" "36 \<le> sz" using assms(1) bl by (auto simp: blk_def)
  have "heap_rep (set_prev b v m) b (b + sz) bl' e"
    by (rule heap_rep_cong [OF t(1)]) (use t(2) in \<open>auto simp: st32_outside\<close>)
  moreover have "blk (set_prev b v m) b sz fr v (if bl' = [] then 0 else b + sz)"
    using assms(1,3) bl by (simp add: blk_def ld32_st32_other)
  ultimately show ?thesis using bl by simp
qed

lemma in_payload_ge: "in_payload b bl i \<Longrightarrow> b + 20 \<le> i"
proof (induction bl arbitrary: b)
  case (Cons x bl)
  then show ?case by (cases x) fastforce
qed simp

lemma split_mem:
  assumes "blk m b sz True pv nx" "36 \<le> need" "need + 36 \<le> sz" "b + sz \<le> e" "e < 4294967296" "nx = 0 \<or> nx = b + sz"
  shows "split_block need b m = (let m1 = st32 (st32 (st32 (st32 (st32 m (b + need) 185649679) (b + need + 4) (sz - need))
      (b + need + 8) nx) (b + need + 12) b) (b + need + 16) 1;
      m2 = (if nx \<noteq> 0 then st32 m1 (nx + 12) (b + need) else m1) in st32 (st32 m2 (b + 8) (b + need)) (b + 4) need)"
proof -
  have u: "u32 (b + need) = b + need" using assms by simp
  show ?thesis unfolding split_block_def u Let_def using assms by (auto simp: blk_def mem_simps)
qed

lemma take_block_rep:
  assumes r: "heap_rep m pv b ((sz, True) # bl) e" and n: "36 \<le> need" "need \<le> sz" and b: "0 < b" "e < 4294967296"
    and m': "m' = set_free b 0 (if need + 36 \<le> sz then split_block need b m else m)"
    and bl': "bl' = (if need + 36 \<le> sz then (need, False) # (sz - need, True) # bl else (sz, False) # bl)"
  shows "heap_rep m' pv b bl' e" "\<And>i. i < b \<or> in_payload (b + sz) bl i \<Longrightarrow> m' i = m i"
proof -
  let ?nx = "if bl = [] then 0 else b + sz"
  have k: "blk m b sz True pv ?nx" and t: "heap_rep m b (b + sz) bl e" using r by auto
  have le: "b + sz \<le> e" using heap_rep_le [OF t] by simp
  have "heap_rep m' pv b bl' e \<and> (\<forall>i. i < b \<or> in_payload (b + sz) bl i \<longrightarrow> m' i = m i)"
  proof (cases "need + 36 \<le> sz")
    case False
    then have M: "m' = set_free b 0 m" "bl' = (sz, False) # bl" using m' bl' by auto
    have "heap_rep m' b (b + sz) bl e"
      by (rule heap_rep_cong [OF t]) (use n M in \<open>auto simp: st32_outside\<close>)
    moreover have "blk m' b sz False pv ?nx" using k unfolding M by (simp add: blk_def mem_simps)
    ultimately show ?thesis using M n in_payload_ge [of "b + sz" bl] by (auto simp: st32_outside dest: in_payload_ge)
  next
    case True
    note S = split_mem [OF k n(1) True le b(2), unfolded Let_def]
    define m1 where "m1 = st32 (st32 (st32 (st32 (st32 m (b + need) 185649679) (b + need + 4) (sz - need))
      (b + need + 8) ?nx) (b + need + 12) b) (b + need + 16) 1"
    define m2 where "m2 = (if ?nx \<noteq> 0 then st32 m1 (b + sz + 12) (b + need) else m1)"
    have M: "m' = st32 (st32 (st32 m2 (b + 8) (b + need)) (b + 4) need) (b + 16) 0"
      using m' True S b(1) by (auto simp: m1_def m2_def)
    have B: "bl' = (need, False) # (sz - need, True) # bl" using bl' True by simp
    have o2: "m2 i = m i" if "i < b + need \<or> b + sz \<le> i \<and> \<not> (bl \<noteq> [] \<and> b + sz + 12 \<le> i \<and> i < b + sz + 16)" for i
      using that True n(1) unfolding m2_def m1_def by (auto simp: st32_outside)
    have out: "m' i = m i" if "i < b \<or> b + sz \<le> i \<and> \<not> (bl \<noteq> [] \<and> b + sz + 12 \<le> i \<and> i < b + sz + 16)" for i
      using that True n(1) o2 [of i] unfolding M by (auto simp: st32_outside)
    have "blk m2 (b + need) (sz - need) True b ?nx"
      using True n(1) le b(2) unfolding m2_def m1_def by (auto simp: blk_def mem_simps)
    then have k2: "blk m' (b + need) (sz - need) True b ?nx"
      by (rule blk_cong) (use n(1) in \<open>auto simp: M st32_outside\<close>)
    have "blk m2 b sz True pv ?nx" by (rule blk_cong [OF k]) (use n(1) o2 in auto)
    then have k1: "blk m' b need False pv (b + need)" using n(1) le True b(2) unfolding M by (auto simp: blk_def mem_simps)
    have t': "heap_rep m' (b + need) (b + sz) bl e"
    proof (cases "bl = []")
      case False
      have w: "heap_rep (set_prev (b + sz) (b + need) m) (b + need) (b + sz) bl e"
        by (rule heap_rep_set_prev [OF t False]) (use n le b(2) in simp)
      have "m' i = set_prev (b + sz) (b + need) m i" if "b + sz \<le> i" for i
      proof (cases "b + sz + 12 \<le> i \<and> i < b + sz + 16")
        case True
        then have "m' i = m2 i" using n unfolding M by (auto simp: st32_outside)
        also have "\<dots> = set_prev (b + sz) (b + need) m i"
          using True False b(1) unfolding m2_def by (auto simp: st32_def)
        finally show ?thesis .
      next
        case False
        then show ?thesis using out [of i] that by (auto simp: st32_outside)
      qed
      then show ?thesis using heap_rep_cong [OF w, of m'] by auto
    qed (use t in simp)
    have "m' i = m i" if "in_payload (b + sz) bl i" for i
      using out [of i] in_payload_ge [OF that] by auto
    then show ?thesis using k1 k2 t' out True n(1) by (auto simp: B)
  qed
  then show "heap_rep m' pv b bl' e" "\<And>i. i < b \<or> in_payload (b + sz) bl i \<Longrightarrow> m' i = m i" by auto
qed

lemma malloc_from_refines:
  assumes "heap_rep m pv b bl e" "36 \<le> need" "0 < b" "e + 36 < 4294967296 + b" "e < 4294967296" "length bl < steps" "bl \<noteq> []"
    and "a_malloc need bl b = (r, bl')"
  shows "\<exists>m'. malloc_from steps need b m = Some (r, m') \<and> heap_rep m' pv b bl' e
    \<and> (\<forall>i. i < b \<or> in_payload b bl i \<longrightarrow> m' i = m i) \<and> (r = None \<longrightarrow> m' = m)"
  using assms
proof (induction steps need b m arbitrary: pv bl r bl' rule: malloc_from.induct)
  case (2 steps need b m)
  then obtain sz fr bt where bl: "bl = (sz, fr) # bt" by (cases bl) auto
  have k: "blk m b sz fr pv (if bt = [] then 0 else b + sz)" and t: "heap_rep m b (b + sz) bt e" using 2(2) bl by auto
  have le: "b + sz \<le> e" using heap_rep_le [OF t] by simp
  have f: "b_free m b = 0 \<longleftrightarrow> \<not> fr" "b_size m b = sz" "36 \<le> sz" using k by (auto simp: blk_def)
  show ?case
  proof (cases "fr \<and> need \<le> sz")
    case True
    have u: "u32 (need + 36) = need + 36" "u32 (b + 20) = b + 20" using True le 2(5,6) f by auto
    let ?m = "set_free b 0 (if need + 36 \<le> sz then split_block need b m else m)"
    have "malloc_from (Suc steps) need b m = Some (Some (b + 20), ?m)" using True f 2(4) u by simp
    moreover have "heap_rep m pv b ((sz, True) # bt) e" using 2(2) bl True by simp
    note T = take_block_rep [OF this 2(3) _ 2(4) 2(6) refl refl]
    ultimately show ?thesis using 2(9) bl True T by (auto simp: in_payload_ge)
  next
    case False
    obtain r1 bl1 where a: "a_malloc need bt (b + sz) = (r1, bl1)" by fastforce
    then have r: "r = r1" "bl' = (sz, fr) # bl1" using 2(9) bl False by auto
    show ?thesis
    proof (cases "bt = []")
      case True
      then have "malloc_from (Suc steps) need b m = malloc_from steps need 0 m" using False f 2(4) k by (auto simp: blk_def)
      moreover obtain k' where "steps = Suc k'" using 2(7) bl by (cases steps) auto
      ultimately show ?thesis using True a r 2(2) bl by auto
    next
      case nb: False
      have s: "malloc_from (Suc steps) need b m = malloc_from steps need (b + sz) m" using False f 2(4) k nb by (auto simp: blk_def)
      have "\<exists>m'. malloc_from steps need (b_next m b) m = Some (r1, m') \<and> heap_rep m' b (b_next m b) bl1 e
        \<and> (\<forall>i. i < b_next m b \<or> in_payload (b_next m b) bt i \<longrightarrow> m' i = m i) \<and> (r1 = None \<longrightarrow> m' = m)"
        by (rule 2(1) [of b bt r1 bl1]) (use False f 2 k nb t bl a in \<open>auto simp: blk_def\<close>)
      moreover have nx: "b_next m b = b + sz" using k nb by (simp add: blk_def)
      ultimately obtain m' where m': "malloc_from steps need (b + sz) m = Some (r1, m')" "heap_rep m' b (b + sz) bl1 e"
        "\<And>i. i < b + sz \<or> in_payload (b + sz) bt i \<Longrightarrow> m' i = m i" "r1 = None \<longrightarrow> m' = m" by auto
      have "bl1 \<noteq> []" using nb a by (cases bt) (auto split: if_splits prod.splits)
      moreover have "blk m' b sz fr pv (b + sz)" by (rule blk_cong [of m]) (use k nb f m'(3) in auto)
      ultimately show ?thesis using s m' r bl by auto
    qed
  qed
qed simp

section \<open>Release and merging\<close>

lemma absorb_mem:
  assumes "b_next m b = b + s1" "36 \<le> s1" "b_size m b = s1" "b_size m (b + s1) = s2" "s1 + s2 < 4294967296"
    "b_next m (b + s1) = nx"
  shows "absorb b m = (let m1 = set_next b nx (set_size b (s1 + s2) m) in if nx \<noteq> 0 then set_prev nx b m1 else m1)"
proof -
  have "nx < 4294967296" using assms(6) ld32_less by metis
  then show ?thesis using assms by (simp add: absorb_def Let_def mem_simps)
qed

lemma absorb_rep:
  assumes r: "heap_rep m pv b ((s1, f1) # (s2, f2) # bl) e" and e: "e < 4294967296"
  shows "heap_rep (absorb b m) pv b ((s1 + s2, f1) # bl) e"
    "\<And>i. i < b \<or> in_payload b ((s1, f1) # (s2, f2) # bl) i \<Longrightarrow> absorb b m i = m i"
    "\<And>i. b + 12 \<le> i \<Longrightarrow> i < b + s1 + s2 \<Longrightarrow> absorb b m i = m i"
proof -
  let ?nx = "if bl = [] then 0 else b + s1 + s2"
  have k: "blk m b s1 f1 pv (b + s1)" "blk m (b + s1) s2 f2 b ?nx" and t: "heap_rep m (b + s1) (b + s1 + s2) bl e"
    using r by (auto simp: add.assoc)
  have le: "b + s1 + s2 \<le> e" using heap_rep_le [OF t] by simp
  have s: "36 \<le> s1" "36 \<le> s2" using k by (auto simp: blk_def)
  define m1 where "m1 = set_next b ?nx (set_size b (s1 + s2) m)"
  have M: "absorb b m = (if ?nx \<noteq> 0 then set_prev ?nx b m1 else m1)"
    using absorb_mem [of m b s1 s2 ?nx] k s le e by (auto simp: blk_def m1_def Let_def)
  have o1: "m1 i = m i" if "i < b \<or> b + 12 \<le> i" for i using that unfolding m1_def by (auto simp: st32_outside)
  have kb: "blk m1 b (s1 + s2) f1 pv ?nx" using k(1) s le e unfolding m1_def by (simp add: blk_def mem_simps)
  have h: "heap_rep m1 (b + s1) (b + s1 + s2) bl e" by (rule heap_rep_cong [OF t]) (use s o1 in auto)
  have "blk (absorb b m) b (s1 + s2) f1 pv ?nx" by (rule blk_cong [OF kb]) (use s M in \<open>auto simp: st32_outside\<close>)
  moreover have "heap_rep (absorb b m) b (b + s1 + s2) bl e"
    using heap_rep_set_prev [OF h, of b] h s le e M by (cases "bl = []") auto
  ultimately show "heap_rep (absorb b m) pv b ((s1 + s2, f1) # bl) e" by (auto simp: add.assoc split: if_splits)
  have out: "absorb b m i = m i" if "i < b \<or> b + 12 \<le> i \<and> \<not> (bl \<noteq> [] \<and> b + s1 + s2 + 12 \<le> i \<and> i < b + s1 + s2 + 16)" for i
    using that o1 [of i] s unfolding M by (auto simp: st32_outside)
  then show "\<And>i. b + 12 \<le> i \<Longrightarrow> i < b + s1 + s2 \<Longrightarrow> absorb b m i = m i" by simp
  have "b + 12 \<le> i \<and> \<not> (bl \<noteq> [] \<and> b + s1 + s2 + 12 \<le> i \<and> i < b + s1 + s2 + 16)"
    if "in_payload b ((s1, f1) # (s2, f2) # bl) i" for i
    using that in_payload_ge [of "b + s1 + s2" bl i] s by (auto simp: add.assoc)
  then show "\<And>i. i < b \<or> in_payload b ((s1, f1) # (s2, f2) # bl) i \<Longrightarrow> absorb b m i = m i" using out by blast
qed

lemma absorb_into_prev_eq:
  assumes "blk m b0 s0 f0 p0 (b0 + s0)" "blk m (b0 + s0) s fr b0 nx" "b0 + s0 + s < 4294967296"
  shows "absorb_into_prev (b0 + s0) m = absorb b0 m"
proof -
  have s: "36 \<le> s0" "36 \<le> s" using assms by (auto simp: blk_def)
  have f: "b_prev m (b0 + s0) = b0" "b_size m b0 = s0" "b_size m (b0 + s0) = s" "b_next m (b0 + s0) = nx" "b_next m b0 = b0 + s0"
    "b0 < 4294967296" "nx < 4294967296"
    using assms by (auto simp: blk_def)
  have g: "b_prev (set_size b0 v m) (b0 + s0) = b0" "b_next (set_size b0 v m) (b0 + s0) = nx"
    "b_next (set_next b0 nx (set_size b0 v m)) (b0 + s0) = nx" "b_prev (set_next b0 nx (set_size b0 v m)) (b0 + s0) = b0" for v
    using s f by (simp_all add: mem_simps)
  show ?thesis using absorb_mem [of m b0 s0 s nx] s f assms(3) by (simp add: absorb_into_prev_def Let_def g)
qed

definition merge_head :: "hblocks \<Rightarrow> hblocks" where
  "merge_head bl = (case bl of (s1, True) # (s2, True) # r \<Rightarrow> (s1 + s2, True) # r | _ \<Rightarrow> bl)"

lemma merge_head_simps [simp]:
  "merge_head [] = []" "merge_head [x] = [x]" "merge_head ((s1, False) # r) = (s1, False) # r"
  "merge_head (x # (s2, False) # r) = x # (s2, False) # r" "merge_head ((s1, True) # (s2, True) # r) = (s1 + s2, True) # r"
  by (cases x; cases "snd x"; auto simp: merge_head_def split: list.splits)+

text \<open>Marking the block at \<open>b\<close>, which follows the blocks \<open>xs\<close>, and merging it with its neighbours.\<close>

definition a_free :: "hblocks \<Rightarrow> nat \<Rightarrow> hblocks \<Rightarrow> hblocks" where
  "a_free xs s ys =
     (let r = merge_head ((s, True) # ys) in if xs = [] then r else butlast xs @ merge_head (last xs # r))"

lemma set_free_rep:
  assumes "heap_rep m pv b ((s, fr) # ys) e"
  shows "heap_rep (set_free b 1 m) pv b ((s, True) # ys) e"
proof -
  have k: "blk m b s fr pv (if ys = [] then 0 else b + s)" and t: "heap_rep m b (b + s) ys e" using assms by auto
  have "heap_rep (set_free b 1 m) b (b + s) ys e"
    by (rule heap_rep_cong [OF t]) (use k in \<open>auto simp: blk_def st32_outside\<close>)
  then show ?thesis using k by (simp add: blk_def mem_simps)
qed

lemma merge_next_rep:
  assumes r: "heap_rep m pv b ((s, True) # ys) e" and e: "e < 4294967296" "0 < b"
    and m': "m' = (if b_next m b \<noteq> 0 \<and> b_free m (b_next m b) \<noteq> 0 then absorb b m else m)"
  shows "heap_rep m' pv b (merge_head ((s, True) # ys)) e"
    "\<And>i. i < b \<or> in_payload b ((s, True) # ys) i \<Longrightarrow> m' i = m i"
proof -
  have "heap_rep m' pv b (merge_head ((s, True) # ys)) e \<and> (\<forall>i. i < b \<or> in_payload b ((s, True) # ys) i \<longrightarrow> m' i = m i)"
  proof (cases ys)
    case Nil
    then show ?thesis using r m' by (simp add: blk_def)
  next
    case (Cons y zs)
    obtain s2 f2 where y: "y = (s2, f2)" by (cases y)
    have nx: "b_next m b = b + s" "b_free m (b + s) = (if f2 then 1 else 0)"
      using r Cons y by (auto simp: blk_def)
    show ?thesis
      using absorb_rep [of m pv b s True s2 f2 zs e] r e m' nx Cons y by (cases f2) auto
  qed
  then show "heap_rep m' pv b (merge_head ((s, True) # ys)) e"
    "\<And>i. i < b \<or> in_payload b ((s, True) # ys) i \<Longrightarrow> m' i = m i" by auto
qed

lemma h_live_append: "heap_pre m pv b xs p1 b1 \<Longrightarrow> h_live b (xs @ zs) = h_live b xs @ h_live b1 zs"
proof (induction xs arbitrary: b pv)
  case (Cons x xs)
  then show ?case by (cases x) auto
qed simp

lemma in_payload_append: "heap_pre m pv b xs p1 b1 \<Longrightarrow> in_payload b (xs @ zs) i \<longleftrightarrow> in_payload b xs i \<or> in_payload b1 zs i"
proof (induction xs arbitrary: b pv)
  case (Cons x xs)
  then show ?case by (cases x) auto
qed simp

lemma in_payload_pre: "heap_pre m pv b xs p1 b1 \<Longrightarrow> in_payload b xs i \<Longrightarrow> i < b1"
proof (induction xs arbitrary: b pv)
  case (Cons x xs)
  then obtain s f where x: "x = (s, f)" by (cases x)
  then have "heap_pre m b (b + s) xs p1 b1" using Cons.prems by simp
  with Cons x heap_pre_le [of m b "b + s" xs p1 b1] show ?case by fastforce
qed simp

lemma heap_rep_appendI: "heap_pre m pv b xs p1 b1 \<Longrightarrow> heap_rep m p1 b1 ys e \<Longrightarrow> ys \<noteq> [] \<Longrightarrow> heap_rep m pv b (xs @ ys) e"
  using heap_rep_append by blast

lemma in_payload_merge [simp]: "in_payload b (merge_head bl) i = in_payload b bl i"
  by (cases "(b, bl, i)" rule: in_payload.cases) (auto simp: merge_head_def add.assoc split: list.splits bool.splits)

lemma free_block_rep:
  assumes p: "heap_pre m 0 b xs p1 b1" and t: "heap_rep m p1 b1 ((s, False) # ys) e" and e: "e < 4294967296" "0 < b"
  shows "heap_rep (free_block b1 m) 0 b (a_free xs s ys) e"
    "\<And>i. in_payload b xs i \<or> in_payload (b1 + s) ys i \<Longrightarrow> free_block b1 m i = m i"
    "b_magic (free_block b1 m) b1 = MALLOC_MAGIC \<and> b_free (free_block b1 m) b1 = 1"
proof -
  let ?r = "merge_head ((s, True) # ys)"
  define m1 where "m1 = set_free b1 1 m"
  define m2 where "m2 = (if b_next m1 b1 \<noteq> 0 \<and> b_free m1 (b_next m1 b1) \<noteq> 0 then absorb b1 m1 else m1)"
  have F: "free_block b1 m = (if b_prev m2 b1 \<noteq> 0 \<and> b_free m2 (b_prev m2 b1) \<noteq> 0 then absorb_into_prev b1 m2 else m2)"
    by (simp add: free_block_def Let_def m1_def m2_def)
  have b1: "0 < b1" "36 \<le> s" using heap_pre_le [OF p] e t by (auto simp: blk_def)
  note R = merge_next_rep [OF set_free_rep [OF t, folded m1_def] e(1) b1(1) m2_def]
  have fr2: "m2 i = m i" if "i < b1 \<or> in_payload (b1 + s) ys i" for i
  proof -
    have "i < b1 \<or> b1 + 20 \<le> i" using that in_payload_ge [of "b1 + s" ys i] by auto
    then have "m1 i = m i" unfolding m1_def by (auto simp: st32_outside)
    then show ?thesis using R(2) [of i] that by auto
  qed
  have p2: "heap_pre m2 0 b xs p1 b1" by (rule heap_pre_cong [OF p]) (simp add: fr2)
  obtain s' r' where r': "?r = (s', True) # r'" by (cases ys; cases "snd (hd ys)") auto
  have k: "blk m2 b1 s' True p1 (if r' = [] then 0 else b1 + s')" using R(1) by (simp add: r')
  then have pr: "b_prev m2 b1 = p1" by (simp add: blk_def)
  have hd2: "b_magic m2 b1 = MALLOC_MAGIC" "b_free m2 b1 = 1" "36 \<le> s'" using k by (auto simp: blk_def)
  have "heap_rep (free_block b1 m) 0 b (a_free xs s ys) e
      \<and> (b_magic (free_block b1 m) b1 = MALLOC_MAGIC \<and> b_free (free_block b1 m) b1 = 1) \<and>
      (\<forall>i. in_payload b xs i \<or> in_payload (b1 + s) ys i \<longrightarrow> free_block b1 m i = m i)"
  proof (cases xs rule: rev_cases)
    case Nil
    then show ?thesis using p R(1) F pr fr2 hd2 by (simp add: a_free_def)
  next
    case (snoc xs0 x)
    obtain s0 f0 where x: "x = (s0, f0)" by (cases x)
    obtain p0 b0 where q: "heap_pre m2 0 b xs0 p0 b0" "blk m2 b0 s0 f0 p0 (b0 + s0)" and b1: "p1 = b0" "b1 = b0 + s0"
      using p2 by (auto simp: snoc x heap_pre_append)
    have b0: "0 < b0" "36 \<le> s0" using heap_pre_le [OF q(1)] e q(2) by (auto simp: blk_def)
    have t2: "heap_rep m2 p0 b0 ((s0, f0) # ?r) e" using q(2) R(1) b1 r' by simp
    have f: "b_free m2 b0 = (if f0 then 1 else 0)" using q(2) by (simp add: blk_def)
    have pay: "in_payload b1 ?r i \<longleftrightarrow> in_payload (b1 + s) ys i" for i by (simp add: in_payload_merge)
    show ?thesis
    proof (cases f0)
      case False
      have A: "a_free xs s ys = xs0 @ (s0, f0) # ?r" using False by (simp add: a_free_def snoc x)
      have "free_block b1 m = m2" using F pr b1 f False by simp
      moreover have "heap_rep m2 0 b (xs0 @ (s0, f0) # ?r) e" by (rule heap_rep_appendI [OF q(1) t2]) simp
      ultimately show ?thesis using fr2 in_payload_pre [OF p] hd2 unfolding A by auto
    next
      case True
      have le: "b1 + s' \<le> e" using R(1) heap_rep_le [of m2 b1 "b1 + s'" r' e] by (simp add: r')
      have "absorb_into_prev b1 m2 = absorb b0 m2"
        using absorb_into_prev_eq [OF q(2), of s' True] k b1 le e by simp
      then have G: "free_block b1 m = absorb b0 m2" using F pr b1 b0 f True by simp
      note W = absorb_rep [OF t2 [unfolded r'] e(1)]
      have w: "heap_pre (absorb b0 m2) 0 b xs0 p0 b0" by (rule heap_pre_cong [OF q(1)]) (simp add: W(2))
      have A: "a_free xs s ys = xs0 @ (s0 + s', f0) # r'" using True r' by (simp add: a_free_def snoc x)
      have "heap_rep (absorb b0 m2) 0 b (xs0 @ (s0 + s', f0) # r') e" by (rule heap_rep_appendI [OF w W(1)]) simp
      moreover have "b_magic (absorb b0 m2) b1 = b_magic m2 b1" "b_free (absorb b0 m2) b1 = b_free m2 b1"
        by (rule ld32_cong, rule W(3); use b1 b0 hd2 in simp)+
      moreover have "absorb b0 m2 i = m i" if "in_payload b xs i \<or> in_payload (b1 + s) ys i" for i
      proof -
        have "i < b0 \<or> in_payload b1 ?r i"
          using that True in_payload_pre [OF q(1), of i] pay in_payload_append [OF q(1), of "[x]" i] by (auto simp: snoc x)
        then have "absorb b0 m2 i = m2 i" using W(2) [of i] b1 by (auto simp: r')
        then show ?thesis using fr2 [of i] that in_payload_pre [OF p] by auto
      qed
      ultimately show ?thesis using hd2 unfolding G A by auto
    qed
  qed
  then show "heap_rep (free_block b1 m) 0 b (a_free xs s ys) e"
    "b_magic (free_block b1 m) b1 = MALLOC_MAGIC \<and> b_free (free_block b1 m) b1 = 1"
    "\<And>i. in_payload b xs i \<or> in_payload (b1 + s) ys i \<Longrightarrow> free_block b1 m i = m i" by auto
qed

section \<open>The invariant and the laws\<close>

text \<open>The blocks read off the memory.\<close>

function hblocks_from :: "mem \<Rightarrow> nat \<Rightarrow> nat \<Rightarrow> hblocks" where
  "hblocks_from m b e =
     (if b + 36 \<le> e \<and> 36 \<le> b_size m b then (b_size m b, b_free m b \<noteq> 0) # hblocks_from m (b + b_size m b) e else [])"
  by pat_completeness auto
termination
  by (relation "measure (\<lambda>(m, b, e). e - b)") auto

declare hblocks_from.simps [simp del]

abbreviation heap_end :: "heap \<Rightarrow> nat" where
  "heap_end h \<equiv> malloc_arena h + malloc_arena_bytes h"

definition heap_blocks :: "heap \<Rightarrow> hblocks" where
  "heap_blocks h = hblocks_from (heap_mem h) (malloc_arena h) (heap_end h)"

text \<open>No two neighbours are free.\<close>

definition merged :: "hblocks \<Rightarrow> bool" where
  "merged bl \<longleftrightarrow> successively (\<lambda>x y. \<not> (snd x \<and> snd y)) bl"

definition heap_ok :: "heap \<Rightarrow> bool" where
  "heap_ok h \<longleftrightarrow>
     malloc_ready h = 1 \<and> \<not> heap_stuck h \<and> malloc_head h = malloc_arena h \<and> 64 \<le> malloc_arena h \<and> heap_end h < 4294967296
     \<and> heap_blocks h \<noteq> [] \<and> heap_rep (heap_mem h) 0 (malloc_arena h) (heap_blocks h) (heap_end h) \<and> merged (heap_blocks h)"

definition heap_live :: "heap \<Rightarrow> nat \<rightharpoonup> nat" where
  "heap_live h = map_of (h_live (malloc_arena h) (heap_blocks h))"

lemma hblocks_from_rep: "heap_rep m pv b bl e \<Longrightarrow> hblocks_from m b e = bl"
proof (induction bl arbitrary: b pv)
  case Nil
  then show ?case by (simp add: hblocks_from.simps)
next
  case (Cons x bl)
  obtain sz fr where x: "x = (sz, fr)" by (cases x)
  have "b + 36 \<le> e" using heap_rep_le [OF Cons.prems] by simp
  with Cons x show ?case by (subst hblocks_from.simps) (auto simp: blk_def)
qed

lemma heap_okI:
  assumes "malloc_ready h = 1" "\<not> heap_stuck h" "malloc_head h = malloc_arena h" "64 \<le> malloc_arena h" "heap_end h < 4294967296"
    "heap_rep (heap_mem h) 0 (malloc_arena h) bl (heap_end h)" "bl \<noteq> []" "merged bl"
  shows "heap_ok h" "heap_blocks h = bl" "heap_live h = map_of (h_live (malloc_arena h) bl)"
  using assms hblocks_from_rep [OF assms(6)] by (auto simp: heap_ok_def heap_live_def heap_blocks_def)

lemma h_live_range: "heap_rep m pv b bl e \<Longrightarrow> (p, n) \<in> set (h_live b bl) \<Longrightarrow> b + 20 \<le> p \<and> p + n \<le> e \<and> 16 \<le> n"
proof (induction bl arbitrary: b pv)
  case (Cons x bl)
  obtain sz fr where x: "x = (sz, fr)" by (cases x)
  have t: "heap_rep m b (b + sz) bl e" "36 \<le> sz" using Cons.prems(1) x by (auto simp: blk_def)
  then show ?case using Cons.prems(2) Cons.IH [OF t(1)] heap_rep_le [OF t(1)] x by (fastforce split: if_splits)
qed simp

lemma h_live_apart:
  "heap_rep m pv b bl e \<Longrightarrow> map_of (h_live b bl) p = Some n \<Longrightarrow> map_of (h_live b bl) q = Some k \<Longrightarrow> p < q \<Longrightarrow> p + n \<le> q"
proof (induction bl arbitrary: b pv)
  case (Cons x bl)
  obtain sz fr where x: "x = (sz, fr)" by (cases x)
  have t: "heap_rep m b (b + sz) bl e" "36 \<le> sz" using Cons.prems(1) x by (auto simp: blk_def)
  have ge: "b + sz + 20 \<le> a" if "map_of (h_live (b + sz) bl) a = Some l" for a l
    using h_live_range [OF t(1) map_of_SomeD [OF that]] by simp
  show ?case using Cons.prems(2-) Cons.IH [OF t(1)] x t(2) ge by (fastforce split: if_splits)
qed simp

lemma in_payload_of_live: "map_of (h_live b bl) p = Some n \<Longrightarrow> p \<le> i \<Longrightarrow> i < p + n \<Longrightarrow> in_payload b bl i"
proof (induction bl arbitrary: b)
  case (Cons x bl)
  then show ?case by (cases x) (auto split: if_splits)
qed simp

lemma payload_rep: "heap_rep m pv b bl e \<Longrightarrow> in_payload b bl i \<Longrightarrow> heap_rep (m(i := c)) pv b bl e"
proof (induction bl arbitrary: b pv)
  case (Cons x bl)
  obtain sz fr where x: "x = (sz, fr)" by (cases x)
  have t: "heap_rep m b (b + sz) bl e" "36 \<le> sz" using Cons.prems(1) x by (auto simp: blk_def)
  have k: "blk m b sz fr pv (if bl = [] then 0 else b + sz)" using Cons.prems(1) x by simp
  have "b + 20 \<le> i" using in_payload_ge [OF Cons.prems(2)] .
  then have "blk (m(i := c)) b sz fr pv (if bl = [] then 0 else b + sz)" by (intro blk_cong [OF k]) auto
  moreover have "heap_rep (m(i := c)) b (b + sz) bl e"
  proof (cases "in_payload (b + sz) bl i")
    case False
    then have "i < b + sz" using Cons.prems(2) x by simp
    then show ?thesis by (intro heap_rep_cong [OF t(1)]) auto
  qed (rule Cons.IH [OF t(1)])
  ultimately show ?case unfolding x heap_rep.simps by blast
qed simp

lemma heap_rep_length: "heap_rep m pv b bl e \<Longrightarrow> length bl \<le> e - b"
proof (induction bl arbitrary: b pv)
  case (Cons x bl)
  obtain sz fr where x: "x = (sz, fr)" by (cases x)
  have t: "heap_rep m b (b + sz) bl e" "36 \<le> sz" using Cons.prems(1) x by (auto simp: blk_def)
  then show ?case using Cons.IH [OF t(1)] heap_rep_le [OF t(1)] unfolding list.size by linarith
qed simp

text \<open>The requested size and header, rounded up to 16; small requests take the least block.\<close>

definition heap_fits :: "nat \<Rightarrow> bool" where
  "heap_fits n \<longleftrightarrow> n + 35 < 4294967296"

lemma malloc_round_fits: "heap_fits n \<Longrightarrow> malloc_round n = max 36 (round_up 16 (n + 20)) \<and> n + 20 \<le> malloc_round n"
  using round_up_ge [of 16 "n + 20"] by (simp add: malloc_round_def heap_fits_def Let_def round_up_def max_def)

lemma a_malloc_None: "a_malloc n bl b = (None, bl') \<Longrightarrow> bl' = bl \<and> (\<forall>(sz, fr)\<in>set bl. fr \<longrightarrow> sz < n)"
  by (induction n bl b arbitrary: bl' rule: a_malloc.induct) (auto split: if_splits prod.splits)

lemma a_malloc_ge: "a_malloc n bl b = (Some p, bl') \<Longrightarrow> b + 20 \<le> p"
  by (induction n bl b arbitrary: bl' rule: a_malloc.induct) (fastforce split: if_splits prod.splits)+

lemma a_malloc_live:
  assumes "heap_rep m pv b bl e" "a_malloc n bl b = (Some p, bl')" "36 \<le> n"
  shows "map_of (h_live b bl) p = None \<and> (\<exists>k. n - 20 \<le> k \<and> map_of (h_live b bl') = (map_of (h_live b bl))(p \<mapsto> k))"
  using assms
proof (induction n bl b arbitrary: bl' pv rule: a_malloc.induct)
  case (2 n sz fr bl b)
  have t: "heap_rep m b (b + sz) bl e" "36 \<le> sz" using 2(2) by (auto simp: blk_def)
  have ge: "b + sz + 20 \<le> a" if "map_of (h_live (b + sz) bl) a = Some l" for a l
    using h_live_range [OF t(1) map_of_SomeD [OF that]] by simp
  show ?case
  proof (cases "fr \<and> n \<le> sz")
    case True
    then have "p = b + 20" using 2(3) by simp
    moreover have "map_of (h_live (b + sz) bl) (b + 20) = None" using ge [of "b + 20"] t(2) by fastforce
    ultimately show ?thesis using 2(3,4) True
      by (intro conjI exI [of _ "if n + 36 \<le> sz then n - 20 else sz - 20"]) (auto split: if_splits)
  next
    case False
    obtain bl1 where a: "a_malloc n bl (b + sz) = (Some p, bl1)" "bl' = (sz, fr) # bl1"
      using 2(3) False by (auto split: prod.splits if_splits)
    have "\<not> (fr \<and> n \<le> sz)" using False .
    from 2(1) [OF this t(1) a(1) 2(4)] obtain k where k: "map_of (h_live (b + sz) bl) p = None" "n - 20 \<le> k"
      "map_of (h_live (b + sz) bl1) = (map_of (h_live (b + sz) bl))(p \<mapsto> k)" by blast
    have "p \<noteq> b + 20" using a_malloc_ge [OF a(1)] t(2) by simp
    then show ?thesis using k a(2) by (intro conjI exI [of _ k]) (auto simp: fun_eq_iff)
  qed
qed simp

lemma merged_Cons: "merged (x # bl) \<longleftrightarrow> bl = [] \<or> \<not> (snd x \<and> snd (hd bl)) \<and> merged bl"
  by (auto simp: merged_def successively_Cons)

lemma a_malloc_merged:
  "merged bl \<Longrightarrow> a_malloc n bl b = (r, bl') \<Longrightarrow> bl \<noteq> [] \<Longrightarrow> merged bl' \<and> bl' \<noteq> [] \<and> (snd (hd bl') \<longrightarrow> snd (hd bl))"
proof (induction n bl b arbitrary: bl' rule: a_malloc.induct)
  case (2 n sz fr bl b)
  show ?case
  proof (cases "fr \<and> n \<le> sz")
    case True
    then show ?thesis using 2(2,3) by (auto simp: merged_Cons split: if_splits)
  next
    case False
    obtain bl1 where a: "a_malloc n bl (b + sz) = (r, bl1)" "bl' = (sz, fr) # bl1"
      using 2(3) False by (auto split: prod.splits if_splits)
    show ?thesis
    proof (cases "bl = []")
      case True
      then show ?thesis using a by (simp add: merged_Cons)
    next
      case nb: False
      then have "merged bl1 \<and> bl1 \<noteq> [] \<and> (snd (hd bl1) \<longrightarrow> snd (hd bl))"
        using 2(1) [OF _ _ a(1) nb] False 2(2) by (simp add: merged_Cons)
      then show ?thesis using 2(2) a(2) nb by (auto simp: merged_Cons)
    qed
  qed
qed simp

text \<open>A live block, taken out of the list.\<close>

lemma live_split:
  assumes "heap_rep m pv b bl e" "map_of (h_live b bl) p = Some n"
  shows "\<exists>xs s ys p1 b1. bl = xs @ (s, False) # ys \<and> heap_pre m pv b xs p1 b1 \<and> heap_rep m p1 b1 ((s, False) # ys) e
    \<and> p = b1 + 20 \<and> n = s - 20"
  using assms
proof (induction bl arbitrary: b pv)
  case (Cons x bl)
  obtain sz fr where x: "x = (sz, fr)" by (cases x)
  show ?case
  proof (cases "\<not> fr \<and> p = b + 20")
    case True
    then show ?thesis using Cons.prems x by (intro exI [of _ "[]"] exI [of _ sz] exI [of _ bl] exI [of _ pv] exI [of _ b]) auto
  next
    case False
    then have l: "map_of (h_live (b + sz) bl) p = Some n" using Cons.prems(2) x by (auto split: if_splits)
    have "heap_rep m b (b + sz) bl e" using Cons.prems(1) x by simp
    from Cons.IH [OF this l] obtain xs s ys p1 b1 where
      *: "bl = xs @ (s, False) # ys" "heap_pre m b (b + sz) xs p1 b1" "heap_rep m p1 b1 ((s, False) # ys) e" "p = b1 + 20" "n = s - 20"
      by blast
    have "heap_pre m pv b (x # xs) p1 b1" using Cons.prems(1) x * by simp
    then show ?thesis using * by (intro exI [of _ "x # xs"] exI [of _ s] exI [of _ ys] exI [of _ p1] exI [of _ b1]) simp
  qed
qed simp

lemma h_live_pre_less: "heap_pre m pv b xs p1 b1 \<Longrightarrow> (q, k) \<in> set (h_live b xs) \<Longrightarrow> q < b1"
proof (induction xs arbitrary: b pv)
  case (Cons x xs)
  obtain s f where x: "x = (s, f)" by (cases x)
  then have "heap_pre m b (b + s) xs p1 b1" "36 \<le> s" using Cons.prems by (auto simp: blk_def)
  with Cons x heap_pre_le [of m b "b + s" xs p1 b1] show ?case by (fastforce split: if_splits)
qed simp

lemma h_live_merge [simp]: "h_live b (merge_head bl) = h_live b bl"
  by (cases "(b, bl)" rule: h_live.cases) (auto simp: merge_head_def add.assoc split: list.splits bool.splits)

lemma merge_head_neq [simp]: "merge_head bl = [] \<longleftrightarrow> bl = []"
  by (auto simp: merge_head_def split: list.splits bool.splits)

lemma a_free_live:
  assumes "heap_pre m pv b xs p1 b1"
  shows "h_live b (a_free xs s ys) = h_live b xs @ h_live (b1 + s) ys"
proof (cases xs rule: rev_cases)
  case Nil
  then show ?thesis using assms by (simp add: a_free_def)
next
  case (snoc xs0 x)
  obtain s0 f0 where x: "x = (s0, f0)" by (cases x)
  obtain p0 b0 where "heap_pre m pv b xs0 p0 b0" "b1 = b0 + s0" using assms by (auto simp: snoc x heap_pre_append)
  then show ?thesis using h_live_append [of m pv b xs0 p0 b0] by (auto simp: a_free_def snoc x)
qed

lemma merged_append: "merged (xs @ ys) \<longleftrightarrow> merged xs \<and> merged ys \<and> (xs \<noteq> [] \<longrightarrow> ys \<noteq> [] \<longrightarrow> \<not> (snd (last xs) \<and> snd (hd ys)))"
  unfolding merged_def by (auto simp: successively_append_iff)

lemma a_free_merged:
  assumes "merged (xs @ (s, False) # ys)"
  shows "merged (a_free xs s ys) \<and> a_free xs s ys \<noteq> []"
proof -
  let ?r = "merge_head ((s, True) # ys)"
  have h: "merged ?r" "?r \<noteq> []" "snd (hd ?r)" "tl ?r = [] \<or> \<not> snd (hd (tl ?r))"
    using assms by (cases ys; cases "snd (hd ys)"; auto simp: merged_append merged_Cons neq_Nil_conv)+
  show ?thesis
  proof (cases xs rule: rev_cases)
    case (snoc xs0 x)
    obtain s0 f0 where x: "x = (s0, f0)" by (cases x)
    obtain s' r' where r': "?r = (s', True) # r'" using h(2,3) by (cases ?r) auto
    show ?thesis using assms h r' unfolding snoc x a_free_def
      by (cases f0) (auto simp: merged_append merged_Cons)
  qed (use h in \<open>simp add: a_free_def\<close>)
qed

lemma malloc_law:
  assumes ok: "heap_ok h" and a: "malloc n h = (r, h')"
  shows "a_malloc (malloc_round n) (heap_blocks h) (malloc_arena h) = (r, heap_blocks h')" "heap_ok h'"
    "r = None \<Longrightarrow> h' = h"
    "r = Some p \<Longrightarrow> heap_live h p = None \<and> (\<exists>k. malloc_round n - 20 \<le> k \<and> heap_live h' = (heap_live h)(p \<mapsto> k))"
    "\<And>q k i. heap_live h q = Some k \<Longrightarrow> q \<le> i \<Longrightarrow> i < q + k \<Longrightarrow> heap_mem h' i = heap_mem h i"
    "malloc_arena h' = malloc_arena h" "malloc_arena_bytes h' = malloc_arena_bytes h"
proof -
  let ?A = "malloc_arena h" and ?e = "heap_end h" and ?bl = "heap_blocks h" and ?need = "malloc_round n"
  note O = ok [unfolded heap_ok_def]
  have rep: "heap_rep (heap_mem h) 0 ?A ?bl ?e" using O by simp
  have need: "36 \<le> ?need" by (simp add: malloc_round_def Let_def)
  obtain r1 bl1 where al: "a_malloc ?need ?bl ?A = (r1, bl1)" by fastforce
  have "length ?bl < malloc_arena_bytes h + 1" using heap_rep_length [OF rep] by simp
  from malloc_from_refines [OF rep need _ _ _ this _ al] O obtain m' where
    m': "malloc_from (malloc_arena_bytes h + 1) ?need ?A (heap_mem h) = Some (r1, m')" "heap_rep m' 0 ?A bl1 ?e"
    "\<And>i. in_payload ?A ?bl i \<Longrightarrow> m' i = heap_mem h i" "r1 = None \<Longrightarrow> m' = heap_mem h" by auto
  have h': "r = r1" "h' = h\<lparr>heap_mem := m'\<rparr>" using a O m'(1) by (auto simp: malloc_def Let_def simp del: malloc_from.simps)
  have mg: "merged bl1" "bl1 \<noteq> []" using a_malloc_merged [OF _ al] O by auto
  have I: "heap_ok h'" "heap_blocks h' = bl1" "heap_live h' = map_of (h_live ?A bl1)"
    using heap_okI [of h' bl1] O m'(2) mg h' by auto
  show "a_malloc ?need ?bl ?A = (r, heap_blocks h')" "heap_ok h'" using al h' I by auto
  show "r = None \<Longrightarrow> h' = h" using m'(4) h' by simp
  show "malloc_arena h' = ?A" "malloc_arena_bytes h' = malloc_arena_bytes h" using h' by auto
  show "heap_mem h' i = heap_mem h i" if "heap_live h q = Some k" "q \<le> i" "i < q + k" for q k i
    using that m'(3) in_payload_of_live [of ?A ?bl q k i] h' by (simp add: heap_live_def)
  show "heap_live h p = None \<and> (\<exists>k. malloc_round n - 20 \<le> k \<and> heap_live h' = (heap_live h)(p \<mapsto> k))" if "r = Some p"
  proof -
    have "a_malloc ?need ?bl ?A = (Some p, bl1)" using al h' that by simp
    from a_malloc_live [OF rep this need] obtain k where "map_of (h_live ?A ?bl) p = None" "?need - 20 \<le> k"
      "map_of (h_live ?A bl1) = (map_of (h_live ?A ?bl))(p \<mapsto> k)" by blast
    then show ?thesis using I(3) by (auto simp: heap_live_def intro!: exI [of _ k])
  qed
qed

lemma block_of_live: "20 \<le> p \<Longrightarrow> p < 4294967296 \<Longrightarrow> block_of p = p - 20"
  by (simp add: block_of_def u32_def) (simp add: mod_if)

lemma live_block:
  assumes "heap_ok h" "heap_live h p = Some n"
  obtains xs s ys p1 where "heap_blocks h = xs @ (s, False) # ys" "heap_pre (heap_mem h) 0 (malloc_arena h) xs p1 (p - 20)"
    "heap_rep (heap_mem h) p1 (p - 20) ((s, False) # ys) (heap_end h)" "n = s - 20" "block_of p = p - 20" "20 \<le> p"
    "b_magic (heap_mem h) (p - 20) = MALLOC_MAGIC" "b_free (heap_mem h) (p - 20) = 0" "b_size (heap_mem h) (p - 20) = s" "36 \<le> s"
    "p - 20 + s \<le> heap_end h"
proof -
  note O = assms(1) [unfolded heap_ok_def]
  have rep: "heap_rep (heap_mem h) 0 (malloc_arena h) (heap_blocks h) (heap_end h)" using O by simp
  from live_split [OF rep assms(2) [unfolded heap_live_def]] obtain xs s ys p1 b1 where
    *: "heap_blocks h = xs @ (s, False) # ys" "heap_pre (heap_mem h) 0 (malloc_arena h) xs p1 b1"
    "heap_rep (heap_mem h) p1 b1 ((s, False) # ys) (heap_end h)" "p = b1 + 20" "n = s - 20" by blast
  have le: "b1 + s \<le> heap_end h" using *(3) heap_rep_le [of "heap_mem h" b1 "b1 + s" ys] by auto
  show thesis
    by (rule that [of xs s ys p1]) (use * le O block_of_live [of p] in \<open>auto simp: blk_def\<close>)
qed

lemma map_of_remove:
  "p \<notin> fst ` set xs \<Longrightarrow> p \<notin> fst ` set ys \<Longrightarrow> map_of (xs @ ys) = (map_of (xs @ (p, n) # ys))(p := None)"
proof (induction xs)
  case Nil
  then have "map_of ys p = None" by (simp add: map_of_eq_None_iff)
  then show ?case by (auto simp: fun_eq_iff)
next
  case (Cons x xs)
  then have "fst x \<noteq> p" by force
  then show ?case using Cons by (auto simp: fun_upd_twist)
qed

lemma free_law:
  assumes ok: "heap_ok h" and l: "heap_live h p = Some n"
  shows "heap_ok (free (Some p) h)" "heap_live (free (Some p) h) = (heap_live h)(p := None)"
    "\<And>q k i. q \<noteq> p \<Longrightarrow> heap_live h q = Some k \<Longrightarrow> q \<le> i \<Longrightarrow> i < q + k \<Longrightarrow> heap_mem (free (Some p) h) i = heap_mem h i"
    "malloc_arena (free (Some p) h) = malloc_arena h" "malloc_arena_bytes (free (Some p) h) = malloc_arena_bytes h"
proof -
  let ?A = "malloc_arena h" and ?e = "heap_end h" and ?m = "heap_mem h"
  note O = ok [unfolded heap_ok_def]
  from live_block [OF ok l] obtain xs s ys p1 where b: "heap_blocks h = xs @ (s, False) # ys" "heap_pre ?m 0 ?A xs p1 (p - 20)"
    "heap_rep ?m p1 (p - 20) ((s, False) # ys) ?e" "n = s - 20" "block_of p = p - 20" "20 \<le> p"
    "b_magic ?m (p - 20) = MALLOC_MAGIC" "b_free ?m (p - 20) = 0" "36 \<le> s" .
  let ?m' = "free_block (p - 20) ?m"
  have h': "free (Some p) h = h\<lparr>heap_mem := ?m'\<rparr>" using b by (simp add: free_def)
  note F = free_block_rep [OF b(2,3)]
  have rep: "heap_rep ?m' 0 ?A (a_free xs s ys) ?e" using F(1) O by simp
  have mg: "merged (a_free xs s ys)" "a_free xs s ys \<noteq> []" using a_free_merged [of xs s ys] O b(1) by auto
  note I = heap_okI [of "h\<lparr>heap_mem := ?m'\<rparr>" "a_free xs s ys"]
  show "heap_ok (free (Some p) h)" "malloc_arena (free (Some p) h) = ?A" "malloc_arena_bytes (free (Some p) h) = malloc_arena_bytes h"
    using I O rep mg unfolding h' by auto
  have lv: "heap_live (free (Some p) h) = map_of (h_live ?A xs @ h_live (p - 20 + s) ys)"
    using I O rep mg a_free_live [OF b(2)] unfolding h' by auto
  have ol: "heap_live h = map_of (h_live ?A xs @ (p, n) # h_live (p - 20 + s) ys)"
    using b h_live_append [OF b(2)] by (simp add: heap_live_def)
  have "p \<notin> fst ` set (h_live ?A xs)" using h_live_pre_less [OF b(2)] by fastforce
  moreover have "p \<notin> fst ` set (h_live (p - 20 + s) ys)"
  proof -
    have "heap_rep ?m (p - 20) (p - 20 + s) ys ?e" using b(3) by simp
    then have "p - 20 + s + 20 \<le> q" if "(q, k) \<in> set (h_live (p - 20 + s) ys)" for q k
      using h_live_range that by blast
    then show ?thesis using b(6,9) by force
  qed
  ultimately show "heap_live (free (Some p) h) = (heap_live h)(p := None)"
    unfolding lv ol by (rule map_of_remove)
  show "heap_mem (free (Some p) h) i = ?m i" if q: "q \<noteq> p" "heap_live h q = Some k" "q \<le> i" "i < q + k" for q k i
  proof -
    have "map_of (h_live ?A xs) q = Some k \<or> map_of (h_live (p - 20 + s) ys) q = Some k"
      using q(1,2) unfolding ol by (auto simp: map_add_def split: option.splits)
    moreover have "in_payload ?A xs i" if "map_of (h_live ?A xs) q = Some k"
      using in_payload_of_live [OF that q(3,4)] .
    moreover have "in_payload (p - 20 + s) ys i" if "map_of (h_live (p - 20 + s) ys) q = Some k"
      using in_payload_of_live [OF that q(3,4)] .
    ultimately show ?thesis unfolding h' using F(2) [of i] O by auto
  qed
qed

lemma heap_put_law:
  assumes "heap_ok h" "heap_live h p = Some k" "p \<le> i" "i < p + k"
  shows "heap_ok (heap_put i c h)" "heap_live (heap_put i c h) = heap_live h" "heap_blocks (heap_put i c h) = heap_blocks h"
proof -
  note O = assms(1) [unfolded heap_ok_def]
  have "in_payload (malloc_arena h) (heap_blocks h) i"
    using in_payload_of_live [OF assms(2) [unfolded heap_live_def] assms(3,4)] .
  then have "heap_rep ((heap_mem h)(i := c)) 0 (malloc_arena h) (heap_blocks h) (heap_end h)" using payload_rep O by blast
  then show "heap_ok (heap_put i c h)" "heap_live (heap_put i c h) = heap_live h" "heap_blocks (heap_put i c h) = heap_blocks h"
    using heap_okI [of "heap_put i c h" "heap_blocks h"] O by (auto simp: heap_put_def heap_live_def)
qed

lemma malloc_live:
  assumes "heap_ok h" "heap_fits n" "malloc n h = (Some p, h')"
  shows "heap_live h p = None" "\<exists>k\<ge>n. heap_live h' = (heap_live h)(p \<mapsto> k)"
proof -
  from malloc_law(4) [OF assms(1,3) refl] malloc_round_fits [OF assms(2)]
  show "heap_live h p = None" "\<exists>k\<ge>n. heap_live h' = (heap_live h)(p \<mapsto> k)"
    by (auto, metis add_le_imp_le_diff le_trans)
qed

lemma heap_live_apart: "heap_ok h \<Longrightarrow> heap_live h p = Some n \<Longrightarrow> heap_live h q = Some k \<Longrightarrow> p < q \<Longrightarrow> p + n \<le> q"
  using h_live_apart unfolding heap_ok_def heap_live_def by blast

lemma heap_put_mem [simp]: "heap_mem (heap_put i c h) = (heap_mem h)(i := c)"
  by (simp add: heap_put_def)

interpretation kheap: block_allocator malloc "\<lambda>p. free (Some p)" heap_put heap_mem heap_ok heap_live heap_fits
proof unfold_locales
qed (blast intro: malloc_law(2) malloc_law(3) [OF _ _ refl] malloc_live malloc_law(5) free_law heap_put_law heap_put_mem heap_live_apart)+

section \<open>Reallocation, clearing and errors\<close>

lemma absorb_live:
  assumes ok: "heap_ok h" and l: "heap_live h p = Some k" and b: "b = p - 20" "b_next (heap_mem h) b \<noteq> 0"
      "b_free (heap_mem h) (b_next (heap_mem h) b) \<noteq> 0" and h': "h' = h\<lparr>heap_mem := absorb b (heap_mem h)\<rparr>"
  shows "heap_ok h'" "heap_live h' = (heap_live h)(p \<mapsto> b_size (heap_mem h) b + b_size (heap_mem h) (b_next (heap_mem h) b) - 20)"
    "\<And>q j i. heap_live h q = Some j \<Longrightarrow> q \<le> i \<Longrightarrow> i < q + j \<Longrightarrow> heap_mem h' i = heap_mem h i"
    "b_size (heap_mem h) b + b_size (heap_mem h) (b_next (heap_mem h) b) < 4294967296"
proof -
  let ?A = "malloc_arena h" and ?e = "heap_end h" and ?m = "heap_mem h"
  note O = ok [unfolded heap_ok_def]
  from live_block [OF ok l] obtain xs s ys p1 where f: "heap_blocks h = xs @ (s, False) # ys" "heap_pre ?m 0 ?A xs p1 b"
    "heap_rep ?m p1 b ((s, False) # ys) ?e" "k = s - 20" "20 \<le> p" "b_size ?m b = s" "36 \<le> s" unfolding b(1) by metis
  obtain s2 f2 zs where ys: "ys = (s2, f2) # zs" using f(3) b(2) by (cases ys) (auto simp: blk_def)
  have f2: "f2" "b_next ?m b = b + s" "b_size ?m (b + s) = s2" using f(3) b(3) ys by (auto simp: blk_def split: if_splits)
  note W = absorb_rep [OF f(3) [unfolded ys]]
  have w: "heap_pre (absorb b ?m) 0 ?A xs p1 b" by (rule heap_pre_cong [OF f(2)]) (use W(2) O in simp)
  have rep: "heap_rep (heap_mem h') 0 ?A (xs @ (s + s2, False) # zs) ?e"
    using heap_rep_appendI [OF w] W(1) O unfolding h' by simp
  have mg: "merged (xs @ (s + s2, False) # zs)" using O f(1) ys f2(1) by (auto simp: merged_append merged_Cons)
  have I: "heap_ok h'" "heap_live h' = map_of (h_live ?A (xs @ (s + s2, False) # zs))"
    using heap_okI [of h' "xs @ (s + s2, False) # zs"] O rep mg h' by auto
  show "heap_ok h'" by (rule I)
  have "b + s + s2 \<le> ?e" using f(3) heap_rep_le [of ?m "b + s" "b + s + s2" zs ?e] ys by (auto simp: add.assoc)
  then show "b_size ?m b + b_size ?m (b_next ?m b) < 4294967296" using O f2 f(6) by simp
  have pb: "p = b + 20" using f(5) b(1) by simp
  have "heap_live h = map_of (h_live ?A xs @ (p, s - 20) # h_live (b + s + s2) zs)"
    "heap_live h' = map_of (h_live ?A xs @ (p, s + s2 - 20) # h_live (b + s + s2) zs)"
    using I(2) h_live_append [OF f(2)] f(1) ys f2(1) pb by (auto simp: heap_live_def add.assoc)
  moreover have "p \<notin> fst ` set (h_live ?A xs)" using h_live_pre_less [OF f(2)] pb by fastforce
  then have "map_of (h_live ?A xs) p = None" by (simp add: map_of_eq_None_iff)
  ultimately show "heap_live h' = (heap_live h)(p \<mapsto> b_size ?m b + b_size ?m (b_next ?m b) - 20)"
    using f2 f(6) by (auto simp: fun_eq_iff map_add_def split: option.splits)
  show "heap_mem h' i = ?m i" if "heap_live h q = Some j" "q \<le> i" "i < q + j" for q j i
  proof -
    have "in_payload ?A xs i \<or> in_payload b ((s, False) # ys) i"
      using in_payload_of_live [OF that(1) [unfolded heap_live_def] that(2,3)] in_payload_append [OF f(2)] f(1) by simp
    then have "i < b \<or> in_payload b ((s, False) # ys) i" using in_payload_pre [OF f(2)] by blast
    then show ?thesis using W(2) [of i] O ys unfolding h' by auto
  qed
qed

lemma copy_and_free:
  assumes ok: "heap_ok h" "heap_fits n" "heap_live h p = Some k" "malloc n h = (Some q, t)" "k < n"
    and h': "h' = free (Some p) (put_run heap_put q (run_of (heap_mem t) p k) t)"
  shows "heap_ok h'" "\<exists>l\<ge>n. heap_live h' = (heap_live h)(p := None, q \<mapsto> l)"
    "run_of (heap_mem h') q k = run_of (heap_mem h) p k"
    "\<And>r j. heap_live h r = Some j \<Longrightarrow> r \<noteq> p \<Longrightarrow> run_of (heap_mem h') r j = run_of (heap_mem h) r j"
proof -
  let ?u = "put_run heap_put q (run_of (heap_mem t) p k) t"
  note ao = kheap.alloc_other [OF ok(1,2,4)]
  obtain l where l: "l \<ge> n" "heap_live t = (heap_live h)(q \<mapsto> l)" using kheap.alloc_live [OF ok(1,2,4)] by blast
  have t: "heap_ok t" "heap_live t p = Some k" "p \<noteq> q" "run_of (heap_mem t) p k = run_of (heap_mem h) p k"
    using kheap.alloc_inv [OF ok(1,2,4)] ao [OF ok(3) order_refl] by auto
  have lq: "heap_live t q = Some l" using l by simp
  have u: "heap_ok ?u" "heap_live ?u = heap_live t"
    using kheap.put_run_ok [OF t(1) lq order_refl, of "run_of (heap_mem t) p k"] l(1) ok(5) by auto
  have up: "heap_live ?u p = Some k" using u t by simp
  show "heap_ok h'" unfolding h' by (rule kheap.release_inv [OF u(1) up])
  have "heap_live h' = (heap_live h)(p := None, q \<mapsto> l)"
    using kheap.release_live [OF u(1) up] u(2) l(2) t(3) unfolding h' by (simp add: fun_upd_twist)
  then show "\<exists>l\<ge>n. heap_live h' = (heap_live h)(p := None, q \<mapsto> l)" using l(1) by blast
  have ul: "heap_live ?u q = Some l" using u l by simp
  have "run_of (heap_mem h') q k = run_of (heap_mem ?u) q k"
    unfolding h' by (rule kheap.release_other(2) [OF u(1) up ul]) (use t l ok(5) in auto)
  also have "\<dots> = run_of (heap_mem t) p k" using kheap.put_run_same [of q "run_of (heap_mem t) p k" t] by simp
  finally show "run_of (heap_mem h') q k = run_of (heap_mem h) p k" using t(4) by simp
  show "run_of (heap_mem h') r j = run_of (heap_mem h) r j" if r: "heap_live h r = Some j" "r \<noteq> p" for r j
  proof -
    have tr: "heap_live t r = Some j" "r \<noteq> q" "run_of (heap_mem t) r j = run_of (heap_mem h) r j"
      using ao [OF r(1) order_refl] by auto
    have "run_of (heap_mem h') r j = run_of (heap_mem ?u) r j"
      unfolding h' by (rule kheap.release_other(2) [OF u(1) up _ r(2) order_refl]) (use u tr in simp)
    also have "\<dots> = run_of (heap_mem t) r j"
      by (rule kheap.put_run_other [OF t(1) lq order_refl _ tr(1,2) order_refl]) (use l(1) ok(5) in simp)
    finally show ?thesis using tr(3) by simp
  qed
qed

lemma realloc_law:
  assumes ok: "heap_ok h" "heap_live h p = Some k" "heap_fits n" "0 < n" and r: "realloc (Some p) n h = (Some q, h')"
  shows "heap_ok h' \<and> (\<exists>l\<ge>n. heap_live h' = (heap_live h)(p := None, q \<mapsto> l))
    \<and> run_of (heap_mem h') q (min n k) = run_of (heap_mem h) p (min n k)
    \<and> (\<forall>a j. a \<noteq> p \<longrightarrow> heap_live h a = Some j \<longrightarrow> run_of (heap_mem h') a j = run_of (heap_mem h) a j)"
proof -
  let ?m = "heap_mem h" and ?b = "p - 20"
  from live_block [OF ok(1,2)] have b: "block_of p = ?b" "b_magic ?m ?b = MALLOC_MAGIC" "b_size ?m ?b - 20 = k" by metis+
  let ?nx = "b_next ?m ?b"
  let ?grow = "?nx \<noteq> 0 \<and> b_free ?m ?nx \<noteq> 0 \<and> u32 (b_size ?m ?b + b_size ?m ?nx) \<ge> malloc_round n"
  consider (big) "n \<le> k" "q = p" "h' = h"
    | (grow) "\<not> n \<le> k" ?grow "q = p" "h' = h\<lparr>heap_mem := absorb ?b ?m\<rparr>"
    | (move) t where "\<not> n \<le> k" "malloc n h = (Some q, t)" "h' = free (Some p) (put_run heap_put q (run_of (heap_mem t) p k) t)"
    using r ok(4) b by (auto simp: realloc_def Let_def split: if_split_asm prod.split_asm option.split_asm)
  then show ?thesis
  proof cases
    case big
    then show ?thesis using ok by (auto intro!: exI [of _ k] simp: fun_upd_idem)
  next
    case grow
    have g: "?nx \<noteq> 0" "b_free ?m ?nx \<noteq> 0" "malloc_round n \<le> u32 (b_size ?m ?b + b_size ?m ?nx)" using grow(2) by auto
    note A = absorb_live [OF ok(1,2) refl g(1,2) grow(4)]
    let ?l = "b_size ?m ?b + b_size ?m ?nx - 20"
    have "n \<le> ?l" using g(3) u32_id [OF A(4)] conjunct2 [OF malloc_round_fits [OF ok(3)]] by linarith
    moreover have "run_of (heap_mem h') a j = run_of ?m a j" if "heap_live h a = Some i" "j \<le> i" for a i j
      using A(3) [OF that(1)] that(2) by (intro run_of_cong) auto
    ultimately show ?thesis using A(1,2) ok(2) grow(3) by (auto intro!: exI [of _ ?l])
  next
    case move
    then have "k < n" by simp
    from copy_and_free [OF ok(1,3,2) move(2) this move(3)] this show ?thesis by (simp add: min_def)
  qed
qed

lemma realloc_fails: "heap_ok h \<Longrightarrow> heap_live h p = Some k \<Longrightarrow> 0 < n \<Longrightarrow> realloc (Some p) n h = (None, h') \<Longrightarrow> h' = h"
  by (auto simp: realloc_def Let_def dest: kheap.alloc_fail split: if_split_asm prod.split_asm option.split_asm)

lemma calloc_law:
  assumes ok: "heap_ok h" "heap_fits (a * b)" and r: "calloc a b h = (Some p, h')"
  shows "heap_ok h' \<and> heap_live h p = None \<and> (\<exists>l\<ge>a * b. heap_live h' = (heap_live h)(p \<mapsto> l))
    \<and> run_of (heap_mem h') p (a * b) = replicate (a * b) NUL"
proof -
  have u: "u32 (a * b) = a * b" using ok(2) by (simp add: heap_fits_def)
  obtain t where t: "malloc (a * b) h = (Some p, t)" "h' = put_run heap_put p (replicate (a * b) NUL) t"
    using r u by (auto simp: calloc_def split: if_split_asm prod.split_asm option.split_asm)
  obtain l where l: "l \<ge> a * b" "heap_live t = (heap_live h)(p \<mapsto> l)" using kheap.alloc_live [OF ok t(1)] by blast
  then have lp: "heap_live t p = Some l" by simp
  have "heap_ok h' \<and> heap_live h' = heap_live t"
    using kheap.put_run_ok [OF kheap.alloc_inv [OF ok t(1)] lp order_refl, of "replicate (a * b) NUL"] l t(2) by simp
  then show ?thesis using kheap.alloc_fresh [OF ok t(1)] l kheap.put_run_same [of p "replicate (a * b) NUL" t] t(2) by auto
qed

subsection \<open>Properties\<close>

lemma malloc_init_law:
  assumes "64 \<le> base" "4096 \<le> align_down 16 bytes" "base + bytes < 4294967296" "\<not> heap_stuck h"
  shows "heap_ok (malloc_init (malloc_set_arena base bytes h))" "heap_live (malloc_init (malloc_set_arena base bytes h)) = Map.empty"
    "heap_blocks (malloc_init (malloc_set_arena base bytes h)) = [(align_down 16 bytes, True)]"
    "malloc n (malloc_set_arena base bytes h) = malloc n (malloc_init (malloc_set_arena base bytes h))"
proof -
  let ?s = "malloc_set_arena base bytes h" and ?n = "align_down 16 bytes"
  let ?h = "malloc_init ?s"
  have n: "?n \<le> bytes" by simp
  then have l: "?n < 4294967296" using assms(3) by linarith
  have f: "malloc_arena ?h = base" "malloc_arena_bytes ?h = ?n" "malloc_ready ?h = 1" "malloc_head ?h = base" "heap_stuck ?h = heap_stuck h"
    using assms(1,2) by (simp_all add: malloc_set_arena_def malloc_init_def Let_def)
  have "blk (heap_mem ?h) base ?n True 0 0"
    using assms(1,2) l by (simp add: malloc_set_arena_def malloc_init_def Let_def blk_def mem_simps)
  then have "heap_rep (heap_mem ?h) 0 (malloc_arena ?h) [(?n, True)] (heap_end ?h)" using f by simp
  note I = heap_okI [of ?h "[(?n, True)]", OF _ _ _ _ _ this]
  have "heap_end ?h < 4294967296" using f n assms(3) by linarith
  then show "heap_ok ?h" "heap_live ?h = Map.empty" "heap_blocks ?h = [(?n, True)]" using I f assms by (auto simp: merged_def)
  show "malloc n ?s = malloc n ?h" using f by (simp add: malloc_def malloc_set_arena_def)
qed

text \<open>C17. Memory safety of the kernel heap: from the arena handed over at boot, whose first use sets up the list, any
  sequence of allocations, releases of live blocks and writes inside live blocks leads to a well-formed heap:
  the live blocks lie inside the arena behind their headers and are pairwise disjoint, no two neighbouring
  blocks are free, and an allocation is first fit on the list of blocks that the headers describe. The walk
  over the list always ends.\<close>

theorem heap_clients_are_isolated:
  assumes "64 \<le> base" "4096 \<le> align_down 16 bytes" "base + bytes < 4294967296" "\<not> heap_stuck h"
    and "client_steps malloc (\<lambda>p. free (Some p)) heap_put heap_live heap_fits (malloc_init (malloc_set_arena base bytes h)) h'"
  shows "heap_ok h' \<and> \<not> heap_stuck h' \<and> merged (heap_blocks h')
    \<and> (\<forall>p n q k. heap_live h' p = Some n \<and> heap_live h' q = Some k \<and> p \<noteq> q \<longrightarrow> p + n \<le> q \<or> q + k \<le> p)
    \<and> (\<forall>p n. heap_live h' p = Some n \<longrightarrow> malloc_arena h' + 20 \<le> p \<and> p + n \<le> heap_end h')
    \<and> (\<forall>n r t. malloc n h' = (r, t) \<longrightarrow> a_malloc (malloc_round n) (heap_blocks h') (malloc_arena h') = (r, heap_blocks t))
    \<and> malloc 1 (malloc_set_arena base bytes h) = malloc 1 (malloc_init (malloc_set_arena base bytes h))"
proof -
  note init = malloc_init_law [OF assms(1-4)]
  have ok: "heap_ok h'" using kheap.client_inv [OF assms(5) init(1)] .
  then have "malloc_arena h' + 20 \<le> p \<and> p + n \<le> heap_end h'" if "heap_live h' p = Some n" for p n
    using h_live_range map_of_SomeD that unfolding heap_ok_def heap_live_def by metis
  with ok kheap.client_disjoint [OF assms(5) init(1)] malloc_law(1) [OF ok] init(4) [of 1] show ?thesis
    unfolding heap_ok_def by blast
qed

definition blank_heap :: heap where
  "blank_heap = \<lparr>malloc_arena = 0, malloc_arena_bytes = 0, malloc_ready = 0, malloc_head = 0, heap_mem = (\<lambda>_. NUL), heap_stuck = False\<rparr>"

definition small_heap :: heap where
  "small_heap = malloc_init (malloc_set_arena 4096 8192 blank_heap)"

lemma small_heap_ok: "heap_ok small_heap" "heap_live small_heap = Map.empty" "heap_blocks small_heap = [(8192, True)]" "malloc_arena small_heap = 4096"
  using malloc_init_law(1-3) [of 4096 8192 blank_heap]
  by (simp_all add: small_heap_def blank_heap_def align_down_def malloc_init_def malloc_set_arena_def Let_def)

theorem heap_clients_are_isolated_witness: "heap_ok (snd (malloc 10 small_heap)) \<and> \<not> heap_stuck (snd (malloc 10 small_heap))"
proof -
  have "client_steps malloc (\<lambda>p. free (Some p)) heap_put heap_live heap_fits (malloc_init (malloc_set_arena 4096 8192 blank_heap))
      (snd (malloc 10 small_heap))"
    by (rule client_steps.allocate [where n = 10 and r = "fst (malloc 10 small_heap)", OF client_steps.start])
      (simp_all add: small_heap_def heap_fits_def)
  from heap_clients_are_isolated [OF _ _ _ _ this] show ?thesis by (simp add: align_down_def blank_heap_def)
qed

text \<open>C18. \<^verbatim>\<open>realloc\<close> of a live block to a positive size either fails and changes nothing, or returns a live block of at
  least that size, in the place of the old one, with the same leading bytes, and leaves every other live
  block and its contents alone; \<^verbatim>\<open>calloc\<close> returns a fresh block of zero bytes.\<close>

theorem realloc_keeps_contents:
  assumes "heap_ok h" "heap_live h p = Some k" "heap_fits n" "0 < n" "heap_fits (a * b)"
  shows "(\<forall>h'. realloc (Some p) n h = (None, h') \<longrightarrow> h' = h)
    \<and> (\<forall>q h'. realloc (Some p) n h = (Some q, h') \<longrightarrow>
        heap_ok h' \<and> (\<exists>l\<ge>n. heap_live h' = (heap_live h)(p := None, q \<mapsto> l))
        \<and> run_of (heap_mem h') q (min n k) = run_of (heap_mem h) p (min n k)
        \<and> (\<forall>c j. c \<noteq> p \<longrightarrow> heap_live h c = Some j \<longrightarrow> run_of (heap_mem h') c j = run_of (heap_mem h) c j))
    \<and> (\<forall>q h'. calloc a b h = (Some q, h') \<longrightarrow> heap_ok h' \<and> heap_live h q = None
        \<and> (\<exists>l\<ge>a * b. heap_live h' = (heap_live h)(q \<mapsto> l)) \<and> run_of (heap_mem h') q (a * b) = replicate (a * b) NUL)"
  using realloc_fails [OF assms(1,2,4)] realloc_law [OF assms(1-4)] calloc_law [OF assms(1,5)] by blast

lemma small_heap_alloc: "\<exists>h. malloc 10 small_heap = (Some 4116, h) \<and> heap_ok h \<and> heap_live h = [4116 \<mapsto> 16]"
proof -
  obtain r h where a: "malloc 10 small_heap = (r, h)" by fastforce
  note L = malloc_law [OF small_heap_ok(1) a]
  have "a_malloc 36 [(8192, True)] 4096 = (r, heap_blocks h)"
    using L(1) by (simp add: small_heap_ok malloc_round_def Let_def align_down_def)
  then have "r = Some 4116" "heap_blocks h = [(36, False), (8156, True)]" by auto
  then show ?thesis using a L(2,6) by (simp add: heap_live_def small_heap_ok)
qed

theorem realloc_keeps_contents_witness:
  "\<exists>h. malloc 10 small_heap = (Some 4116, h) \<and> (\<forall>q h'. realloc (Some 4116) 100 h = (Some q, h') \<longrightarrow>
      run_of (heap_mem h') q 16 = run_of (heap_mem h) 4116 16)"
proof -
  obtain h where h: "malloc 10 small_heap = (Some 4116, h)" "heap_ok h" "heap_live h 4116 = Some 16" using small_heap_alloc by auto
  then show ?thesis using realloc_keeps_contents [OF h(2,3), of 100 1 1] by (auto simp: heap_fits_def)
qed

text \<open>A second \<^verbatim>\<open>free\<close> of a block is detected: the header of a released block, also of one merged into its
  predecessor, still says that it is free, so the second call changes nothing. Neither does \<^verbatim>\<open>free\<close> or \<^verbatim>\<open>realloc\<close> of
  a pointer without the magic number before it.\<close>

theorem double_free_detected:
  assumes "heap_ok h" "heap_live h p = Some k"
  shows "free (Some p) (free (Some p) h) = free (Some p) h \<and> free (Some p) h \<noteq> h
    \<and> (b_magic (heap_mem h) (block_of w) \<noteq> MALLOC_MAGIC \<longrightarrow> free (Some w) h = h \<and> (0 < n \<longrightarrow> realloc (Some w) n h = (None, h)))"
proof -
  let ?m = "heap_mem h" and ?b = "p - 20"
  from live_block [OF assms] obtain xs s ys p1 where b: "heap_pre ?m 0 (malloc_arena h) xs p1 ?b"
    "heap_rep ?m p1 ?b ((s, False) # ys) (heap_end h)" "block_of p = ?b" "b_magic ?m ?b = MALLOC_MAGIC" "b_free ?m ?b = 0" by metis
  have f: "free (Some p) h = h\<lparr>heap_mem := free_block ?b ?m\<rparr>" using b by (simp add: free_def)
  have F: "b_magic (free_block ?b ?m) ?b = MALLOC_MAGIC" "b_free (free_block ?b ?m) ?b = 1"
    using free_block_rep(3) [OF b(1,2)] assms(1) by (auto simp: heap_ok_def)
  have "heap_live (free (Some p) h) \<noteq> heap_live h" using free_law(2) [OF assms] assms(2) by (metis fun_upd_same option.distinct(1))
  then have "free (Some p) h \<noteq> h" by metis
  moreover have "free (Some p) (free (Some p) h) = free (Some p) h" unfolding f using b(3) F by (simp add: free_def)
  ultimately show ?thesis by (simp add: free_def realloc_def)
qed

theorem double_free_detected_witness:
  "\<exists>h. malloc 10 small_heap = (Some 4116, h) \<and> free (Some 4116) (free (Some 4116) h) = free (Some 4116) h"
proof -
  obtain h where h: "malloc 10 small_heap = (Some 4116, h)" "heap_ok h" "heap_live h 4116 = Some 16" using small_heap_alloc by auto
  then show ?thesis using double_free_detected [OF h(2,3)] by blast
qed

text \<open>The computation of the block size wraps around: a request within 35 bytes of 4 GiB is served like a request
  for 0 bytes, with a block of at least 16 bytes, and \<^verbatim>\<open>calloc\<close>, whose overflow check it passes, then clears almost
  the whole address space; every smaller request gets a block of at least its size.\<close>

theorem malloc_size_wraps:
  assumes "n < 4294967296"
  shows "(heap_fits n \<longrightarrow> n + 20 \<le> malloc_round n)
    \<and> (\<not> heap_fits n \<longrightarrow> malloc_round n = 36 \<and> malloc n h = malloc 0 h
        \<and> (\<forall>p t. malloc 0 h = (Some p, t) \<longrightarrow> calloc 1 n h = (Some p, put_run heap_put p (replicate n NUL) t)))"
proof -
  have "malloc_round n = 36" if "\<not> heap_fits n"
  proof (cases "n + 20 < 4294967296")
    case True
    then have "u32 (n + 20 + 15) = n + 35 - 4294967296" using that assms by (simp add: heap_fits_def u32_def mod_if)
    then have "u32 (n + 20 + 15) \<le> 34" using assms by simp
    then have "align_down 16 (u32 (n + 20 + 15)) < 36" using align_down_le [of 16 "u32 (n + 20 + 15)"] by linarith
    then show ?thesis using True by (simp add: malloc_round_def Let_def add.assoc)
  next
    case False
    then have "u32 (n + 20) = n + 20 - 4294967296" using assms by (simp add: u32_def mod_if)
    then have u: "u32 (n + 20) \<le> 19" using assms by simp
    then have "u32 (u32 (n + 20) + 15) = u32 (n + 20) + 15" by simp
    then have "align_down 16 (u32 (u32 (n + 20) + 15)) < 36" using u align_down_le [of 16 "u32 (u32 (n + 20) + 15)"] by linarith
    then show ?thesis by (simp add: malloc_round_def Let_def)
  qed
  moreover have "malloc_round 0 = 36" by (simp add: malloc_round_def Let_def align_down_def)
  ultimately have "malloc_round n = 36 \<and> malloc n h = malloc 0 h" if "\<not> heap_fits n" using that by (simp add: malloc_def)
  then show ?thesis using malloc_round_fits [of n] assms by (auto simp: calloc_def)
qed

theorem malloc_size_wraps_witness: "malloc 4294967295 small_heap = malloc 0 small_heap \<and> 120 \<le> malloc_round 100"
  using malloc_size_wraps [of 4294967295 small_heap] malloc_size_wraps [of 100 small_heap] by (simp add: heap_fits_def)

end
