(* ===== verification/BootMem.thy ===== *)
theory BootMem
  imports FsPool KHeap
begin

section \<open>Dividing the memory at boot (kernel/kernel.c, kernel/linux.c)\<close>

text \<open>
  What \<^verbatim>\<open>kernel_main\<close> does with the RAM above the kernel image: it reads the memory map of the boot loader, hands out
  the file pool and the malloc arena (\<^verbatim>\<open>kernel_boot_alloc\<close>, \<^verbatim>\<open>boot_size_pools\<close>) and lays out the rest for programs
  (\<^verbatim>\<open>linux_set_layout\<close>). The theory composes the pool of theory \<open>FsPool\<close> and the heap of theory \<open>KHeap\<close>: their state
  before the first allocation is what \<open>boot_size_pools\<close> leaves behind.

  Addresses and sizes are 32-bit numbers; every sum that can leave that range is reduced with \<open>u32\<close>. The memory map
  is read from memory in place. Its loop advances by a length found in the map and does not end on a map whose
  lengths wrap around; \<open>mmap_scan\<close> counts its steps, and the value \<^term>\<open>None\<close> stands for a loop that took more. The
  line of the boot log is left out.
\<close>

record bootmem =
  boot_mem_next :: nat
  boot_mem_top :: nat
  boot_ram_top_bytes :: nat
  pool_at :: nat
  boot_pool :: fpool
  boot_heap :: heap

abbreviation (input) MiB :: nat where "MiB \<equiv> 1048576"

subsection \<open>The boot allocator\<close>

definition kernel_boot_mem_init :: "nat \<Rightarrow> nat \<Rightarrow> bootmem \<Rightarrow> bootmem" where
  "kernel_boot_mem_init start ram_end s =
     s\<lparr>boot_mem_next := align_down 4096 (u32 (start + 4095)), boot_mem_top := align_down 4096 ram_end\<rparr>"

definition kernel_boot_alloc :: "nat \<Rightarrow> bootmem \<Rightarrow> nat \<times> bootmem" where
  "kernel_boot_alloc bytes s =
     (let p = align_down 16 (u32 (boot_mem_next s + 15)) in
      if bytes = 0 then (0, s)
      else if u32 (p + bytes) < p \<or> u32 (p + bytes) > boot_mem_top s then (0, s)
      else (p, s\<lparr>boot_mem_next := u32 (p + bytes)\<rparr>))"

definition kernel_boot_mem_used_end :: "bootmem \<Rightarrow> nat" where
  "kernel_boot_mem_used_end s = boot_mem_next s"

definition kernel_boot_mem_free :: "bootmem \<Rightarrow> nat" where
  "kernel_boot_mem_free s = (if boot_mem_next s < boot_mem_top s then boot_mem_top s - boot_mem_next s else 0)"

subsection \<open>The sizes of the pools\<close>

text \<open>What programs, the malloc arena and the file pool get of the free bytes.\<close>

definition lx_reserve :: "nat \<Rightarrow> nat" where
  "lx_reserve free_bytes =
     (let r = free_bytes div 3;
          r = (if r > 48 * MiB then 48 * MiB else r)
      in if r < 16 * MiB then (let r = free_bytes div 2 in if r > 16 * MiB then 16 * MiB else r) else r)"

definition arena_size :: "nat \<Rightarrow> nat" where
  "arena_size rest =
     (let a = rest div 4;
          a = (if a > 16 * MiB then 16 * MiB else a)
      in if a < 2 * MiB then (if rest > 2 * MiB then 2 * MiB else rest) else a)"

definition fs_pool_max_bytes :: nat where
  "fs_pool_max_bytes = FS_DATA_POOL_SIZE"

definition pool_bytes :: "nat \<Rightarrow> nat \<Rightarrow> nat" where
  "pool_bytes rest arena =
     (let p = (if rest > arena then rest - arena else 0) in if p > fs_pool_max_bytes then fs_pool_max_bytes else p)"

definition boot_size_pools :: "nat \<Rightarrow> bootmem \<Rightarrow> bootmem" where
  "boot_size_pools ram_top s =
     (let s = s\<lparr>boot_ram_top_bytes := ram_top\<rparr>;
          fb = kernel_boot_mem_free s;
          fb = (if fb > MiB then fb - MiB else 0);
          lx = lx_reserve fb;
          rest = (if fb > lx then fb - lx else 0);
          arena = arena_size rest;
          pool = pool_bytes rest arena
      in case kernel_boot_alloc pool s of (pb, s) \<Rightarrow>
         let s = s\<lparr>pool_at := pb, boot_pool := fs_set_pool (pb \<noteq> 0) (if pb \<noteq> 0 then pool else 0) (boot_pool s)\<rparr> in
         case kernel_boot_alloc arena s of (ab, s) \<Rightarrow>
         s\<lparr>boot_heap := malloc_set_arena ab (if ab \<noteq> 0 then arena else 0) (boot_heap s)\<rparr>)"

subsection \<open>The memory map\<close>

text \<open>Highest usable address below 4 GiB, number of bytes of RAM (in 64 bits), and whether any was found.\<close>

record mmap_info =
  map_top :: nat
  map_total :: nat
  have_map :: bool

definition mmap_entry :: "mem \<Rightarrow> nat \<Rightarrow> mmap_info \<Rightarrow> mmap_info" where
  "mmap_entry m p a =
     (let base_lo = ld32 m (p + 4); base_hi = ld32 m (p + 8); len_lo = ld32 m (p + 12); len_hi = ld32 m (p + 16); ty = ld32 m (p + 20) in
      if ty = 1
      then let a = a\<lparr>map_total := (map_total a + (len_hi * 4294967296 + len_lo)) mod 18446744073709551616\<rparr> in
           if base_hi = 0
           then let hi = (if len_lo > 4294967295 - base_lo then 4294967295 else base_lo + len_lo);
                    hi = (if len_hi \<noteq> 0 then 4294967295 else hi);
                    hi = (if hi > 4293918720 then 4293918720 else hi)
                in a\<lparr>map_top := (if hi > map_top a then hi else map_top a), have_map := True\<rparr>
           else a
      else a)"

fun mmap_scan :: "nat \<Rightarrow> mem \<Rightarrow> nat \<Rightarrow> nat \<Rightarrow> mmap_info \<Rightarrow> mmap_info option" where
  "mmap_scan 0 m p e a = None"
| "mmap_scan (Suc steps) m p e a =
     (if u32 (p + 24) \<le> e
      then let step = u32 (ld32 m p + 4); a = mmap_entry m p a
           in if step < 24 then Some a else mmap_scan steps m (u32 (p + step)) e a
      else Some a)"

record mb_memory =
  mb_ok :: bool
  mb_flags :: nat
  mb_mem_lower :: nat
  mb_mem_upper :: nat
  mb_mmap_length :: nat
  mb_mmap_addr :: nat

text \<open>The top of RAM and the installed size in MiB.\<close>

definition ram_layout :: "nat \<Rightarrow> mem \<Rightarrow> mb_memory \<Rightarrow> (nat \<times> nat) option" where
  "ram_layout steps m mb =
     (if \<not> mb_ok mb then Some (128 * MiB, 0)
      else case (if odd (mb_flags mb div 64) \<and> mb_mmap_addr mb \<noteq> 0 \<and> mb_mmap_length mb \<noteq> 0
                 then mmap_scan steps m (mb_mmap_addr mb) (u32 (mb_mmap_addr mb + mb_mmap_length mb))
                        \<lparr>map_top = 0, map_total = 0, have_map = False\<rparr>
                 else Some \<lparr>map_top = 0, map_total = 0, have_map = False\<rparr>) of
             None \<Rightarrow> None
           | Some a \<Rightarrow>
               Some (if have_map a then (map_top a, u32 (map_total a div MiB))
                     else if odd (mb_flags mb) \<and> mb_mem_upper mb > 0
                     then let t = u32 (u32 (mb_mem_lower mb + mb_mem_upper mb) * 1024) in (t, t div MiB)
                     else (128 * MiB, 0)))"

subsection \<open>The regions of programs\<close>

record lx_layout =
  lx_ld_base :: nat
  lx_mmap_base :: nat
  lx_mmap_limit :: nat
  lx_exe_base :: nat
  lx_stack_top :: nat
  lx_brk_limit :: nat

definition win_size :: "nat \<Rightarrow> nat" where
  "win_size avail =
     (let win = (if avail > 4 * MiB then avail - 4 * MiB else 0);
          win = (if win > 40 * MiB then 40 * MiB else win)
      in if win < 4 * MiB then (if avail > MiB then avail div 2 else 0) else win)"

definition window :: "nat \<Rightarrow> nat \<Rightarrow> nat \<Rightarrow> nat" where
  "window mmap_base stack_top brk_limit =
     (let win = win_size (if stack_top > mmap_base then stack_top - mmap_base else 0)
      in if u32 (mmap_base + win) > brk_limit then (if brk_limit > mmap_base then brk_limit - mmap_base else 0) else win)"

definition linux_set_layout :: "nat \<Rightarrow> nat \<Rightarrow> lx_layout \<Rightarrow> lx_layout" where
  "linux_set_layout kernel_end ram_top l =
     (let base = align_down 4096 (u32 (kernel_end + 2 * MiB + 4095));
          l = l\<lparr>lx_ld_base := base, lx_mmap_base := u32 (base + MiB)\<rparr> in
      if ram_top > 524288
      then let l = l\<lparr>lx_stack_top := align_down 4096 (ram_top - 524288)\<rparr>;
               l = l\<lparr>lx_brk_limit := u32 (lx_stack_top l + (4294967296 - MiB))\<rparr>;
               win = window (lx_mmap_base l) (lx_stack_top l) (lx_brk_limit l);
               l = l\<lparr>lx_mmap_limit := u32 (lx_mmap_base l + win)\<rparr>
           in l\<lparr>lx_exe_base := lx_mmap_limit l\<rparr>
      else l\<lparr>lx_stack_top := 0, lx_brk_limit := 0\<rparr>)"

definition linux_applet_region_base :: "lx_layout \<Rightarrow> nat" where
  "linux_applet_region_base l = lx_mmap_base l"

definition linux_applet_region_limit :: "lx_layout \<Rightarrow> nat" where
  "linux_applet_region_limit l = lx_mmap_limit l"

text \<open>The three steps of \<^verbatim>\<open>kernel_main\<close>.\<close>

definition boot_memory :: "nat \<Rightarrow> nat \<Rightarrow> bootmem \<Rightarrow> lx_layout \<Rightarrow> bootmem \<times> lx_layout" where
  "boot_memory kernel_end ram_top s l =
     (let s = boot_size_pools ram_top (kernel_boot_mem_init kernel_end ram_top s)
      in (s, linux_set_layout (kernel_boot_mem_used_end s) ram_top l))"

section \<open>The regions are disjoint\<close>

lemma align_bounds: "0 < a \<Longrightarrow> align_down a n \<le> n \<and> n < align_down a n + a"
  using mod_less_divisor [of a n] mod_less_eq_dividend [of n a] unfolding align_down_def by linarith

lemma boot_alloc_law:
  assumes "0 < n" "boot_mem_next s + 15 + n \<le> boot_mem_top s" "boot_mem_top s < 4294967296"
  shows "\<exists>p. kernel_boot_alloc n s = (p, s\<lparr>boot_mem_next := p + n\<rparr>) \<and> boot_mem_next s \<le> p \<and> p \<le> boot_mem_next s + 15"
proof -
  let ?p = "align_down 16 (boot_mem_next s + 15)"
  have b: "boot_mem_next s \<le> ?p" "?p \<le> boot_mem_next s + 15" using align_bounds [of 16 "boot_mem_next s + 15"] by auto
  have le: "?p + n \<le> boot_mem_top s" using b assms by linarith
  have "u32 (boot_mem_next s + 15) = boot_mem_next s + 15" using assms by simp
  moreover have "u32 (?p + n) = ?p + n" using le assms(3) by (intro u32_id) linarith
  ultimately have "kernel_boot_alloc n s = (?p, s\<lparr>boot_mem_next := ?p + n\<rparr>)" using assms(1) le by (simp add: kernel_boot_alloc_def Let_def)
  then show ?thesis using b by blast
qed

lemma lx_reserve_bounds: "lx_reserve f \<le> f div 2" "min (16 * MiB) (f div 2) \<le> lx_reserve f"
  by (auto simp: lx_reserve_def Let_def)

lemma arena_size_bounds: "arena_size r \<le> r" "arena_size r \<le> 16 * MiB" "8 * MiB \<le> 2 * r \<Longrightarrow> 2 * MiB \<le> arena_size r \<and> arena_size r < r"
  by (auto simp: arena_size_def Let_def)

lemma pool_bytes_bounds: "a \<le> r \<Longrightarrow> pool_bytes r a \<le> r - a" "pool_bytes r a \<le> 48 * MiB" "a < r \<Longrightarrow> 0 < pool_bytes r a"
    "a + 2 * MiB \<le> r \<Longrightarrow> 2 * MiB \<le> pool_bytes r a"
  by (auto simp: pool_bytes_def fs_pool_max_bytes_def FS_DATA_POOL_SIZE_def Let_def)

text \<open>The pools, for a machine with at least 16 MiB above the kernel image.\<close>

lemma boot_size_pools_law:
  assumes k: "boot_mem_next s + 16 * MiB \<le> boot_mem_top s + 4095" "boot_mem_top s \<le> 4293918720" "0 < boot_mem_next s"
    and t: "t = boot_size_pools ram_top s"
  shows "\<exists>P A. 2 * MiB \<le> P \<and> P \<le> 48 * MiB \<and> 2 * MiB \<le> A \<and> boot_mem_next s \<le> pool_at t
    \<and> boot_pool t = fs_set_pool True P (boot_pool s) \<and> pool_at t + P \<le> malloc_arena (boot_heap t)
    \<and> boot_heap t = malloc_set_arena (malloc_arena (boot_heap t)) A (boot_heap s)
    \<and> malloc_arena (boot_heap t) + A = boot_mem_next t \<and> boot_mem_next t + 8 * MiB \<le> boot_mem_top s"
proof -
  define f where "f = boot_mem_top s - boot_mem_next s - MiB"
  define rest where "rest = f - lx_reserve f"
  define A where "A = arena_size rest"
  define P where "P = pool_bytes rest A"
  have f: "15 * MiB \<le> f + 4095" "f + MiB + boot_mem_next s = boot_mem_top s" using k(1) by (auto simp: f_def)
  have lx: "lx_reserve f \<le> f div 2" "7 * MiB + 516096 \<le> lx_reserve f" using lx_reserve_bounds [of f] f by (auto simp: min_def split: if_splits)
  have rest: "rest + lx_reserve f = f" "8 * MiB \<le> 2 * rest" "4 * MiB \<le> rest" using lx f by (auto simp: rest_def)
  have A: "2 * MiB \<le> A" "A < rest" "A \<le> 16 * MiB" "A + 2 * MiB \<le> rest"
    using arena_size_bounds [of rest] rest(2,3) by (auto simp: A_def) (auto simp: arena_size_def Let_def)
  have P: "P + A \<le> rest" "P \<le> 48 * MiB" "0 < P" "2 * MiB \<le> P"
    using pool_bytes_bounds(1,3,4) [of A rest] pool_bytes_bounds(2) [of rest A] A by (auto simp: P_def)
  have top: "boot_mem_next s + MiB + P + A + lx_reserve f \<le> boot_mem_top s" using f(2) rest(1) P(1) by linarith
  let ?s0 = "s\<lparr>boot_ram_top_bytes := ram_top\<rparr>"
  obtain p where p: "kernel_boot_alloc P ?s0 = (p, ?s0\<lparr>boot_mem_next := p + P\<rparr>)" "boot_mem_next s \<le> p" "p \<le> boot_mem_next s + 15"
    using boot_alloc_law [of P ?s0] P top k(2) by auto
  let ?s1 = "?s0\<lparr>boot_mem_next := p + P, pool_at := p, boot_pool := fs_set_pool True P (boot_pool s)\<rparr>"
  obtain q where q: "kernel_boot_alloc A ?s1 = (q, ?s1\<lparr>boot_mem_next := q + A\<rparr>)" "p + P \<le> q" "q \<le> p + P + 15"
    using boot_alloc_law [of A ?s1] A top p(3) k(2) lx(2) by auto
  have fb: "(if kernel_boot_mem_free ?s0 > MiB then kernel_boot_mem_free ?s0 - MiB else 0) = f"
    using f by (auto simp: kernel_boot_mem_free_def f_def)
  have rs: "(if f > lx_reserve f then f - lx_reserve f else 0) = rest" using rest by (simp add: rest_def)
  have T: "t = ?s1\<lparr>boot_mem_next := q + A, boot_heap := malloc_set_arena q A (boot_heap s)\<rparr>"
    unfolding t boot_size_pools_def Let_def fb rs A_def [symmetric] P_def [symmetric] using p k(3) q P(3) by simp
  have "q + A + 8 * MiB \<le> boot_mem_top s" using top p(3) q(3) lx(2) by linarith
  then show ?thesis using P A p q by (intro exI [of _ P] exI [of _ A]) (auto simp: T malloc_set_arena_def)
qed

lemma window_bounds:
  assumes "mb + MiB \<le> st" "br + MiB = st" "st < 4294967296"
  shows "window mb st br \<le> br - mb" "4 * MiB + 503808 \<le> st - mb \<Longrightarrow> 2 * MiB \<le> window mb st br"
proof -
  define w where "w = win_size (st - mb)"
  have a: "(if st > mb then st - mb else 0) = st - mb" by simp
  have w: "w \<le> st - mb" by (auto simp: w_def win_size_def Let_def)
  then have u: "u32 (mb + w) = mb + w" using assms by (intro u32_id) linarith
  have W: "window mb st br = (if mb + w > br then (if br > mb then br - mb else 0) else w)"
    unfolding window_def Let_def a w_def [symmetric] u ..
  show "window mb st br \<le> br - mb" using assms W by auto
  show "2 * MiB \<le> window mb st br" if "4 * MiB + 503808 \<le> st - mb"
  proof -
    have "2 * MiB \<le> w" using that by (auto simp: w_def win_size_def Let_def)
    moreover have "2 * MiB \<le> br - mb" using that assms by linarith
    ultimately show ?thesis using W assms by auto
  qed
qed

lemma linux_layout_law:
  assumes k: "K + 8 * MiB \<le> ram_top" "ram_top \<le> 4293918720" and l: "l' = linux_set_layout K ram_top l"
  shows "K + 2 * MiB \<le> lx_ld_base l'" "lx_ld_base l' + MiB = lx_mmap_base l'" "lx_mmap_base l' + 2 * MiB \<le> lx_mmap_limit l'"
    "lx_mmap_limit l' = lx_exe_base l'" "lx_exe_base l' \<le> lx_brk_limit l'" "lx_brk_limit l' + MiB = lx_stack_top l'"
    "lx_stack_top l' \<le> ram_top" "4096 dvd lx_ld_base l'" "4096 dvd lx_stack_top l'"
proof -
  define base where "base = align_down 4096 (K + 2 * MiB + 4095)"
  define st where "st = align_down 4096 (ram_top - 524288)"
  define br where "br = st - MiB"
  have b: "K + 2 * MiB \<le> base" "base \<le> K + 2 * MiB + 4095" using align_bounds [of 4096 "K + 2 * MiB + 4095"] by (auto simp: base_def)
  have s: "st \<le> ram_top - 524288" "ram_top - 524288 \<le> st + 4095" using align_bounds [of 4096 "ram_top - 524288"] by (auto simp: st_def)
  have sb: "br + MiB = st" "st < 4294967296" "base + MiB + MiB \<le> st" "4 * MiB + 503808 \<le> st - (base + MiB)"
    using b s k by (auto simp: br_def)
  define w where "w = window (base + MiB) st br"
  have w: "w \<le> br - (base + MiB)" "2 * MiB \<le> w" using window_bounds [of "base + MiB" st br] sb by (auto simp: w_def)
  have u: "u32 (K + 2 * MiB + 4095) = K + 2 * MiB + 4095" "u32 (base + MiB) = base + MiB" "u32 (st + (4294967296 - MiB)) = br"
      "u32 (base + MiB + w) = base + MiB + w"
    using k b sb w by (auto simp: u32_def br_def mod_if)
  have L: "lx_ld_base l' = base" "lx_mmap_base l' = base + MiB" "lx_stack_top l' = st" "lx_brk_limit l' = br"
      "lx_mmap_limit l' = base + MiB + w" "lx_exe_base l' = base + MiB + w"
    using k u unfolding l linux_set_layout_def Let_def base_def [symmetric] u(1) by (simp_all add: st_def [symmetric] w_def)
  show "K + 2 * MiB \<le> lx_ld_base l'" "lx_ld_base l' + MiB = lx_mmap_base l'" "lx_mmap_base l' + 2 * MiB \<le> lx_mmap_limit l'"
    "lx_mmap_limit l' = lx_exe_base l'" "lx_exe_base l' \<le> lx_brk_limit l'" "lx_brk_limit l' + MiB = lx_stack_top l'"
    "lx_stack_top l' \<le> ram_top" using L b s sb w by auto
  show "4096 dvd lx_ld_base l'" "4096 dvd lx_stack_top l'" unfolding L by (simp_all add: base_def st_def)
qed

section \<open>The memory map\<close>

text \<open>An entry of the map as the boot loader means it: its length field, base, length and type.\<close>

type_synonym map_entry = "nat \<times> nat \<times> nat \<times> nat"

fun mmap_rep :: "mem \<Rightarrow> nat \<Rightarrow> map_entry list \<Rightarrow> nat \<Rightarrow> bool" where
  "mmap_rep m p [] e \<longleftrightarrow> p \<le> e \<and> e < p + 24"
| "mmap_rep m p ((sz, base, len, ty) # es) e \<longleftrightarrow>
     ld32 m p = sz \<and> 20 \<le> sz \<and> ld32 m (p + 4) + 4294967296 * ld32 m (p + 8) = base
     \<and> ld32 m (p + 12) + 4294967296 * ld32 m (p + 16) = len \<and> ld32 m (p + 20) = ty \<and> mmap_rep m (p + (sz + 4)) es e"

definition ram_entries :: "map_entry list \<Rightarrow> map_entry list" where
  "ram_entries es = filter (\<lambda>(sz, base, len, ty). ty = 1) es"

definition low_ends :: "map_entry list \<Rightarrow> nat list" where
  "low_ends es = map (\<lambda>(sz, base, len, ty). min (base + len) 4293918720) (filter (\<lambda>(sz, base, len, ty). base < 4294967296) (ram_entries es))"

lemma mmap_rep_le: "mmap_rep m p es e \<Longrightarrow> p \<le> e \<and> (es \<noteq> [] \<longrightarrow> p + 24 \<le> e)"
proof (induction es arbitrary: p)
  case (Cons x es)
  then show ?case by (cases x) fastforce
qed simp

lemma mmap_entry_law:
  assumes "ld32 m (p + 4) + 4294967296 * ld32 m (p + 8) = base" "ld32 m (p + 12) + 4294967296 * ld32 m (p + 16) = len" "ld32 m (p + 20) = ty"
  shows "mmap_entry m p a =
    (if ty \<noteq> 1 then a
     else let a = a\<lparr>map_total := (map_total a + len) mod 18446744073709551616\<rparr> in
       if base < 4294967296 then a\<lparr>map_top := max (map_top a) (min (base + len) 4293918720), have_map := True\<rparr> else a)"
proof -
  have lo: "ld32 m (p + 4) < 4294967296" "ld32 m (p + 12) < 4294967296" by simp_all
  have h: "ld32 m (p + 8) = 0 \<longleftrightarrow> base < 4294967296" using assms(1) lo(1) by auto
  have e: "ld32 m (p + 16) * 4294967296 + ld32 m (p + 12) = len" using assms(2) by simp
  let ?bl = "ld32 m (p + 4)" and ?ll = "ld32 m (p + 12)" and ?lh = "ld32 m (p + 16)"
  have "(let hi = (if ?ll > 4294967295 - ?bl then 4294967295 else ?bl + ?ll); hi = (if ?lh \<noteq> 0 then 4294967295 else hi)
      in if hi > 4293918720 then 4293918720 else hi) = min (base + len) 4293918720" if "ld32 m (p + 8) = 0"
    using that assms(1,2) lo by (auto simp: Let_def min_def)
  then show ?thesis unfolding mmap_entry_def Let_def e assms(3) using h by (auto simp: max_def)
qed

lemma mmap_scan_law:
  assumes "mmap_rep m p es e" "e + 24 < 4294967296" "length es < steps" "map_total a < 18446744073709551616"
  shows "mmap_scan steps m p e a = Some \<lparr>map_top = foldl max (map_top a) (low_ends es),
      map_total = (map_total a + (\<Sum>(sz, base, len, ty)\<leftarrow>ram_entries es. len)) mod 18446744073709551616,
      have_map = (have_map a \<or> low_ends es \<noteq> [])\<rparr>"
  using assms
proof (induction steps m p e a arbitrary: es rule: mmap_scan.induct)
  case (2 steps m p e a)
  show ?case
  proof (cases es)
    case Nil
    then have "\<not> u32 (p + 24) \<le> e" using 2(2,3) by simp
    then show ?thesis using Nil 2(5) by (simp add: low_ends_def ram_entries_def)
  next
    case (Cons x xs)
    obtain sz base len ty where x: "x = (sz, base, len, ty)" by (cases x)
    have r: "ld32 m p = sz" "20 \<le> sz" "mmap_rep m (p + (sz + 4)) xs e" using 2(2) Cons x by auto
    have le: "p + (sz + 4) \<le> e" using mmap_rep_le [OF r(3)] by simp
    have E: "mmap_entry m p a = (if ty \<noteq> 1 then a
     else let a = a\<lparr>map_total := (map_total a + len) mod 18446744073709551616\<rparr> in
       if base < 4294967296 then a\<lparr>map_top := max (map_top a) (min (base + len) 4293918720), have_map := True\<rparr> else a)"
      by (rule mmap_entry_law) (use 2(2) Cons x in auto)
    have u: "u32 (p + 24) \<le> e" "u32 (ld32 m p + 4) = sz + 4" "u32 (p + (sz + 4)) = p + (sz + 4)" using le 2(3) r by auto
    have s: "mmap_scan (Suc steps) m p e a = mmap_scan steps m (p + (sz + 4)) e (mmap_entry m p a)"
      using u r(2) by (simp add: Let_def)
    have t: "map_total (mmap_entry m p a) < 18446744073709551616" using 2(5) unfolding E by (simp add: Let_def)
    have "mmap_scan steps m (p + (sz + 4)) e (mmap_entry m p a) = Some \<lparr>map_top = foldl max (map_top (mmap_entry m p a)) (low_ends xs),
      map_total = (map_total (mmap_entry m p a) + (\<Sum>(sz, base, len, ty)\<leftarrow>ram_entries xs. len)) mod 18446744073709551616,
      have_map = (have_map (mmap_entry m p a) \<or> low_ends xs \<noteq> [])\<rparr>"
      using 2(1) [OF u(1) refl refl, unfolded u(2) u(3), of xs] r 2(3,4) t Cons by simp
    then show ?thesis unfolding s Cons x E
      by (auto simp: low_ends_def ram_entries_def Let_def mod_simps add.assoc)
  qed
qed simp

lemma foldl_max: "foldl max (a :: nat) xs = Max (insert a (set xs))"
proof (induction xs arbitrary: a)
  case (Cons x xs)
  then have "foldl max a (x # xs) = Max (insert (max a x) (set xs))" by simp
  also have "\<dots> = Max (insert a (set (x # xs)))" by (cases "xs = []") (auto simp: Max_insert max.assoc insert_commute)
  finally show ?case .
qed simp

text \<open>A map whose lengths wrap around sends the loop back and forth between two entries.\<close>

theorem mmap_scan_cycles:
  assumes "p + 48 \<le> e" "e < 4294967296" "ld32 m p = 20" "ld32 m (p + 24) = 4294967268"
  shows "mmap_scan steps m p e a = None"
proof (induction steps arbitrary: a rule: less_induct)
  case (less steps)
  show ?case
  proof (cases steps)
    case (Suc k)
    have u: "u32 (p + 24) = p + 24" "u32 (p + 24 + 24) \<le> e" "u32 (p + 24 + 4294967272) = p"
      using assms by (auto simp: u32_def mod_if)
    show ?thesis
    proof (cases k)
      case (Suc j)
      then show ?thesis using \<open>steps = Suc k\<close> less [of j] u assms by (simp add: Let_def)
    qed (use Suc u assms in \<open>simp add: Let_def\<close>)
  qed simp
qed

lemma align_down_ge:
  assumes "a dvd k" "k \<le> n"
  shows "k \<le> align_down a n"
proof -
  obtain j where k: "k = a * j" using assms(1) by (elim dvdE)
  have "align_down a n = a * (n div a)" by (simp add: align_down_def minus_mod_eq_mult_div)
  moreover have "j \<le> n div a" if "0 < a" using div_le_mono [OF assms(2), of a] that k by simp
  ultimately show ?thesis using k by (cases "a = 0") auto
qed

subsection \<open>Properties\<close>

text \<open>C19. The memory is divided without overlap: on a machine with at least 17 MiB from the start of the kernel image's end
  to the top of RAM, the file pool, the malloc arena, the dynamic loader's place, the window of programs, the
  room for the heap of a program and its stack follow each other in this order above the kernel image and
  below the top of RAM; the pools have at least 2 MiB each, the window too, and the file pool and the kernel
  heap start out well formed.\<close>

theorem boot_memory_divides:
  assumes k: "4096 \<le> kernel_end" "kernel_end + 17 * MiB \<le> ram_top" "ram_top \<le> 4293918720" "\<not> heap_stuck (boot_heap s)"
    and b: "boot_memory kernel_end ram_top s l = (t, l')"
  shows "kernel_end \<le> pool_at t \<and> pool_at t + pool_size (boot_pool t) \<le> malloc_arena (boot_heap t)
    \<and> heap_end (boot_heap t) + 2 * MiB \<le> lx_ld_base l' \<and> lx_ld_base l' + MiB \<le> linux_applet_region_base l'
    \<and> linux_applet_region_base l' + 2 * MiB \<le> linux_applet_region_limit l' \<and> linux_applet_region_limit l' \<le> lx_exe_base l'
    \<and> lx_exe_base l' \<le> lx_brk_limit l' \<and> lx_brk_limit l' + MiB \<le> lx_stack_top l' \<and> lx_stack_top l' \<le> ram_top
    \<and> 2 * MiB \<le> pool_size (boot_pool t) \<and> 2 * MiB \<le> malloc_arena_bytes (boot_heap t) + 15
    \<and> pool_ok (fpool_init (boot_pool t)) \<and> heap_ok (malloc_init (boot_heap t))"
proof -
  define s0 where "s0 = kernel_boot_mem_init kernel_end ram_top s"
  have t: "t = boot_size_pools ram_top s0" and l': "l' = linux_set_layout (boot_mem_next t) ram_top l"
    using b by (auto simp: boot_memory_def s0_def kernel_boot_mem_used_end_def Let_def)
  have u: "u32 (kernel_end + 4095) = kernel_end + 4095" using k by simp
  have n: "kernel_end \<le> boot_mem_next s0" "boot_mem_next s0 \<le> kernel_end + 4095" "boot_mem_top s0 \<le> ram_top" "ram_top \<le> boot_mem_top s0 + 4095"
    using align_bounds [of 4096 "kernel_end + 4095"] align_bounds [of 4096 ram_top] by (auto simp: s0_def kernel_boot_mem_init_def u)
  have s0: "boot_heap s0 = boot_heap s" "boot_pool s0 = boot_pool s" by (simp_all add: s0_def kernel_boot_mem_init_def)
  have pre: "boot_mem_next s0 + 16 * MiB \<le> boot_mem_top s0 + 4095" "boot_mem_top s0 \<le> 4293918720" "0 < boot_mem_next s0" using n k by auto
  from boot_size_pools_law [OF pre t] obtain P A where
    P: "2 * MiB \<le> P" "P \<le> 48 * MiB" "2 * MiB \<le> A" "boot_mem_next s0 \<le> pool_at t" "boot_pool t = fs_set_pool True P (boot_pool s)"
    "pool_at t + P \<le> malloc_arena (boot_heap t)" "boot_heap t = malloc_set_arena (malloc_arena (boot_heap t)) A (boot_heap s)"
    "malloc_arena (boot_heap t) + A = boot_mem_next t" "boot_mem_next t + 8 * MiB \<le> boot_mem_top s0" unfolding s0 by blast
  have K: "boot_mem_next t + 8 * MiB \<le> ram_top" using P(9) n(3) by linarith
  note L = linux_layout_law [OF K k(3) l']
  have ps: "pool_size (boot_pool t) = align_down 16 P" using fs_set_pool_size [of P] P(2,5) by (simp add: FS_DATA_POOL_SIZE_def min_def)
  have "2 * MiB \<le> align_down 16 P" using P(1) by (intro align_down_ge) auto
  then have pb: "2 * MiB \<le> pool_size (boot_pool t)" "pool_size (boot_pool t) \<le> P" using ps by auto
  have "pool_ok (fpool_init (boot_pool t))" using fpool_init_law(1) [of "boot_pool t"] pb P(5) by (simp add: fs_set_pool_def Let_def)
  moreover have al: "align_down 16 A \<le> A" "A \<le> align_down 16 A + 15" using align_bounds [of 16 A] by auto
  then have h: "malloc_arena_bytes (boot_heap t) = align_down 16 A" by (subst P(7)) (simp add: malloc_set_arena_def)
  have "heap_ok (malloc_init (malloc_set_arena (malloc_arena (boot_heap t)) A (boot_heap s)))"
  proof (rule malloc_init_law(1))
    show "64 \<le> malloc_arena (boot_heap t)" using P(4,6) n(1) k(1) by linarith
    show "4096 \<le> align_down 16 A" using al P(3) by linarith
    show "malloc_arena (boot_heap t) + A < 4294967296" using P(8) K k(3) by linarith
  qed (rule k(4))
  then have "heap_ok (malloc_init (boot_heap t))" using P(7) by simp
  moreover have "heap_end (boot_heap t) + 2 * MiB \<le> lx_ld_base l'" using L(1) P(8) al(1) h by linarith
  ultimately show ?thesis
    using P L n pb al h unfolding linux_applet_region_base_def linux_applet_region_limit_def
    by (intro conjI) (assumption | linarith)+
qed

definition blank_boot :: bootmem where
  "blank_boot = \<lparr>boot_mem_next = 0, boot_mem_top = 0, boot_ram_top_bytes = 0, pool_at = 0,
     boot_pool = \<lparr>fpool_base = False, fpool_bytes = 0, fpool_mem = (\<lambda>_. NUL)\<rparr>, boot_heap = blank_heap\<rparr>"

theorem boot_memory_divides_witness:
  "\<exists>t l'. boot_memory 4194304 134217728 blank_boot \<lparr>lx_ld_base = 0, lx_mmap_base = 0, lx_mmap_limit = 0, lx_exe_base = 0,
      lx_stack_top = 0, lx_brk_limit = 0\<rparr> = (t, l') \<and> heap_ok (malloc_init (boot_heap t)) \<and> lx_stack_top l' \<le> 134217728"
proof -
  let ?l = "\<lparr>lx_ld_base = 0, lx_mmap_base = 0, lx_mmap_limit = 0, lx_exe_base = 0, lx_stack_top = 0, lx_brk_limit = 0\<rparr>"
  obtain t l' where b: "boot_memory 4194304 134217728 blank_boot ?l = (t, l')" by fastforce
  have "\<not> heap_stuck (boot_heap blank_boot)" by (simp add: blank_boot_def blank_heap_def)
  from boot_memory_divides [OF _ _ _ this b] b show ?thesis by auto
qed

text \<open>Reading the memory map: for a well-formed map with some RAM that starts below 4 GiB, the loop ends within one
  step per entry, the top of RAM is the highest end of such a range, kept below the BIOS area at the end of
  the address space, and the installed size is the total of all ranges of RAM.\<close>

theorem ram_layout_reads_map:
  assumes "mb_ok mb" "odd (mb_flags mb div 64)" "mb_mmap_addr mb \<noteq> 0" "mb_mmap_length mb \<noteq> 0"
    and "mmap_rep m (mb_mmap_addr mb) es (mb_mmap_addr mb + mb_mmap_length mb)" "mb_mmap_addr mb + mb_mmap_length mb + 24 < 4294967296"
    and "low_ends es \<noteq> []" "length es < steps" "(\<Sum>(sz, base, len, ty)\<leftarrow>ram_entries es. len) < 4503599627370496"
  shows "ram_layout steps m mb = Some (Max (set (low_ends es)), (\<Sum>(sz, base, len, ty)\<leftarrow>ram_entries es. len) div MiB)
    \<and> Max (set (low_ends es)) \<le> 4293918720"
proof -
  have m: "foldl max 0 (low_ends es) = Max (set (low_ends es))" using assms(7) by (simp add: foldl_max Max_insert)
  have "\<forall>x\<in>set (low_ends es). x \<le> 4293918720" by (auto simp: low_ends_def)
  moreover have "u32 (mb_mmap_addr mb + mb_mmap_length mb) = mb_mmap_addr mb + mb_mmap_length mb" using assms(6) by simp
  moreover have "u32 ((\<Sum>(sz, base, len, ty)\<leftarrow>ram_entries es. len) mod 18446744073709551616 div MiB) = (\<Sum>(sz, base, len, ty)\<leftarrow>ram_entries es. len) div MiB"
    using assms(9) by (intro trans [OF u32_id]) (auto simp: less_mult_imp_div_less)
  ultimately show ?thesis using assms m by (simp add: ram_layout_def mmap_scan_law)
qed

text \<open>A map with one entry: 126 MiB of RAM from 1 MiB on.\<close>

definition one_map :: mem where
  "one_map = st32 (st32 (st32 (st32 (st32 (st32 (\<lambda>_. NUL) 8192 20) 8196 1048576) 8200 0) 8204 132120576) 8208 0) 8212 1"

lemma one_map_rep: "mmap_rep one_map 8192 [(20, 1048576, 132120576, 1)] 8216"
  by (simp add: one_map_def mem_simps)

theorem ram_layout_reads_map_witness:
  "ram_layout 2 one_map \<lparr>mb_ok = True, mb_flags = 64, mb_mem_lower = 0, mb_mem_upper = 0, mb_mmap_length = 24, mb_mmap_addr = 8192\<rparr> =
     Some (133169152, 126)"
  using ram_layout_reads_map [of "\<lparr>mb_ok = True, mb_flags = 64, mb_mem_lower = 0, mb_mem_upper = 0, mb_mmap_length = 24, mb_mmap_addr = 8192\<rparr>"
      one_map "[(20, 1048576, 132120576, 1)]" 2] one_map_rep
  by (simp add: low_ends_def ram_entries_def)

end
