(* ===== verification/ProgramEnv.thy ===== *)
theory ProgramEnv
  imports Prelude
begin

section \<open>What a started program finds and leaves (kernel/libc.c, kernel/libc2.c)\<close>

text \<open>
  The kernel's side of a running program: its argument vector (\<^verbatim>\<open>tanja_setargs\<close>), its exit handlers (\<^verbatim>\<open>atexit\<close>,
  \<^verbatim>\<open>tanja_run_atexit\<close>) and \<^verbatim>\<open>exit\<close>. The entries of \<^verbatim>\<open>tanja_argv\<close> are strings; of the buffer they lie in, the fill
  position is kept. A jump buffer is the list of its words. Machine code is a parameter: the function \<open>code\<close> maps the
  address it starts at, and the argument if it is the entry point of a program, to its effect on the state up to its
  return or, for a program, its \<^verbatim>\<open>exit\<close>. An exit handler always returns here: one that calls \<^verbatim>\<open>exit\<close> while an outer
  program runs is not covered. Debug messages are left out.

  The lemmas show when splitting the arguments returns, and what it yields then, and that the handlers run until none
  is left.
\<close>

record program_env =
  tanja_argc :: nat
  tanja_argv :: "bytes list"
  atexit_funcs :: "nat list"
  tanja_exit_jmp :: "nat list"
  tanja_exit_active :: bool
  tanja_exit_code :: int
  kb_raw_mode :: int
  lx_unwind_reason :: int

definition empty_env :: program_env where
  "empty_env = \<lparr>tanja_argc = 1, tanja_argv = [], atexit_funcs = [], tanja_exit_jmp = [0, 0, 0, 0, 0], tanja_exit_active = False,
     tanja_exit_code = 0, kb_raw_mode = 0, lx_unwind_reason = 0\<rparr>"

subsection \<open>Arguments\<close>

abbreviation (input) is_space :: "byte \<Rightarrow> bool" where "is_space c \<equiv> c = CHR '' ''"

text \<open>One round of the loop: the word that is stored, which ends where the buffer of 1024 bytes is full. A round that
  leaves the pointer and the buffer as they were is repeated forever: \<^term>\<open>None\<close>.\<close>

function args_loop :: "bytes \<Rightarrow> nat \<Rightarrow> bytes list \<Rightarrow> bytes list option" where
  "args_loop s n argv =
     (if s = [] \<or> length argv \<ge> 63 then Some argv
      else let w = take (1023 - n) (takeWhile (\<lambda>c. \<not> is_space c) s); rest = dropWhile is_space (drop (length w) s) in
           if w \<noteq> [] then args_loop rest (n + length w + 1) (argv @ [w])
           else if length rest = length s then None
           else args_loop rest n argv)"
  by pat_completeness auto
termination
proof (relation "measure (\<lambda>(s, n, argv). length s)", goal_cases)
  case (2 s n argv w rest)
  have "length (drop (length w) s) < length s" using 2 by simp
  then show ?case using 2(3) length_dropWhile_le [of is_space "drop (length w) s"] by (simp del: length_drop)
next
  case (3 s n argv w rest)
  then have "rest = dropWhile is_space s" by force
  then show ?case using 3(5) length_dropWhile_le [of is_space s] by simp
qed simp

declare args_loop.simps [simp del]

definition tanja_setargs :: "bytes \<Rightarrow> bytes option \<Rightarrow> ('a) program_env_scheme \<Rightarrow> ('a) program_env_scheme option" where
  "tanja_setargs path args s =
     (case (case args of None \<Rightarrow> Some [path] | Some a \<Rightarrow> args_loop (dropWhile is_space a) 0 [path]) of
        None \<Rightarrow> None
      | Some argv \<Rightarrow> Some (s\<lparr>tanja_argv := argv, tanja_argc := length argv\<rparr>))"

subsection \<open>Exit\<close>

definition atexit :: "nat \<Rightarrow> 'a program_env_scheme \<Rightarrow> int \<times> 'a program_env_scheme" where
  "atexit func s =
     (if length (atexit_funcs s) \<ge> 32 then (- 1, s) else (0, s\<lparr>atexit_funcs := atexit_funcs s @ [func]\<rparr>))"

fun tanja_run_atexit :: "(nat \<Rightarrow> bytes option \<Rightarrow> 'a program_env_scheme \<Rightarrow> 'a program_env_scheme) \<Rightarrow> nat
    \<Rightarrow> 'a program_env_scheme \<Rightarrow> 'a program_env_scheme option" where
  "tanja_run_atexit code 0 s = None"
| "tanja_run_atexit code (Suc fuel) s =
     (if atexit_funcs s = [] then Some s
      else tanja_run_atexit code fuel
             (code (last (atexit_funcs s)) None (s\<lparr>atexit_funcs := butlast (atexit_funcs s)\<rparr>)))"

text \<open>Whether \<^verbatim>\<open>exit\<close> leaves the program, through the jump buffer, or returns to its caller.\<close>

definition exit_program :: "int \<Rightarrow> 'a program_env_scheme \<Rightarrow> bool \<times> 'a program_env_scheme" where
  "exit_program exit_code s =
     (if tanja_exit_active s then (True, s\<lparr>tanja_exit_code := exit_code, lx_unwind_reason := 3\<rparr>) else (False, s))"

section \<open>Splitting the arguments\<close>

text \<open>The reference: the words of a line, and the room that words take in the buffer.\<close>

fun words_of :: "bytes \<Rightarrow> bytes list" where
  "words_of [] = []"
| "words_of (c # s) =
     (if is_space c then words_of s
      else case s of [] \<Rightarrow> [[c]]
        | d # _ \<Rightarrow> if is_space d then [c] # words_of s else (c # hd (words_of s)) # tl (words_of s))"

definition args_room :: "bytes list \<Rightarrow> nat" where
  "args_room ws = (\<Sum>w\<leftarrow>ws. length w + 1)"

lemma args_room_simps [simp]: "args_room [] = 0" "args_room (w # ws) = length w + 1 + args_room ws"
  by (simp_all add: args_room_def)

lemma words_of_dropWhile [simp]: "words_of (dropWhile is_space s) = words_of s"
  by (induction s) auto

lemma words_of_word:
  assumes "s \<noteq> []" "\<not> is_space (hd s)"
  shows "words_of s = takeWhile (\<lambda>c. \<not> is_space c) s # words_of (dropWhile (\<lambda>c. \<not> is_space c) s)"
  using assms
proof (induction s)
  case (Cons c s)
  then show ?case by (cases s) auto
qed simp

lemma drop_taken: "drop (length (takeWhile P s)) s = dropWhile P s"
  by (simp add: dropWhile_eq_drop)

lemma dropped_shorter: "takeWhile P s \<noteq> [] \<Longrightarrow> length (dropWhile P s) < length s"
  using arg_cong [OF takeWhile_dropWhile_id [of P s], of length] unfolding length_append
  by (cases "takeWhile P s") auto

text \<open>The rounds of the loop, for a pointer that is not at a space.\<close>

lemma args_loop_fits:
  assumes "s = [] \<or> \<not> is_space (hd s)" "n + args_room (take (63 - length argv) (words_of s)) \<le> 1024" "length argv \<le> 63"
  shows "args_loop s n argv = Some (argv @ take (63 - length argv) (words_of s))"
  using assms
proof (induction "length s" arbitrary: s n argv rule: less_induct)
  case less
  show ?case
  proof (cases "s = [] \<or> length argv \<ge> 63")
    case True
    then show ?thesis using less.prems by (subst args_loop.simps) auto
  next
    case False
    let ?w = "takeWhile (\<lambda>c. \<not> is_space c) s" and ?d = "dropWhile (\<lambda>c. \<not> is_space c) s"
    let ?r = "dropWhile is_space ?d"
    have ws: "words_of s = ?w # words_of ?r" using words_of_word less.prems(1) False by auto
    obtain k where k: "63 - length argv = Suc k" using False by (cases "63 - length argv") auto
    then have k': "63 - length (argv @ [?w]) = k" by simp
    have room: "n + (length ?w + 1 + args_room (take k (words_of ?r))) \<le> 1024"
      using less.prems(2) unfolding k ws by simp
    have w: "take (1023 - n) ?w = ?w" "?w \<noteq> []" using room False less.prems(1) by (auto simp: takeWhile_eq_Nil_iff)
    have step: "args_loop s n argv = args_loop ?r (n + length ?w + 1) (argv @ [?w])"
      using False w by (subst args_loop.simps) (simp add: Let_def drop_taken)
    have "length ?r < length s"
      using length_dropWhile_le [of is_space ?d] dropped_shorter [OF w(2)] by simp
    then have "args_loop ?r (n + length ?w + 1) (argv @ [?w]) = Some ((argv @ [?w]) @ take k (words_of ?r))"
      unfolding k' [symmetric]
      by (rule less.hyps) (use room False hd_dropWhile [of is_space ?d] k' in auto)
    then show ?thesis unfolding step k ws by simp
  qed
qed

lemma args_loop_full:
  assumes "s \<noteq> []" "\<not> is_space (hd s)" "1023 \<le> n" "length argv < 63"
  shows "args_loop s n argv = None"
proof -
  have "dropWhile is_space s = s" using assms(1,2) by (cases s) auto
  then show ?thesis using assms by (subst args_loop.simps) simp
qed

lemma args_loop_hangs:
  assumes "s = [] \<or> \<not> is_space (hd s)" "n + args_room (take (62 - length argv) (words_of s)) > 1024" "n \<le> 1024" "length argv \<le> 62"
  shows "args_loop s n argv = None"
  using assms
proof (induction "length s" arbitrary: s n argv rule: less_induct)
  case less
  let ?w = "takeWhile (\<lambda>c. \<not> is_space c) s" and ?d = "dropWhile (\<lambda>c. \<not> is_space c) s"
  let ?r = "dropWhile is_space ?d"
  have s: "s \<noteq> []" "\<not> is_space (hd s)" and l: "length argv < 62" using less.prems by (cases "62 - length argv"; auto)+
  have ws: "words_of s = ?w # words_of ?r" using words_of_word [OF s] by simp
  have w: "?w \<noteq> []" using s by (simp add: takeWhile_eq_Nil_iff)
  obtain k where k: "62 - length argv = Suc k" using l by (cases "62 - length argv") auto
  show ?case
  proof (cases "n + length ?w \<le> 1023")
    case True
    have step: "args_loop s n argv = args_loop ?r (n + length ?w + 1) (argv @ [?w])"
      using s l True w by (subst args_loop.simps) (simp add: Let_def drop_taken)
    show ?thesis unfolding step
    proof (rule less.hyps)
      show "length ?r < length s" using length_dropWhile_le [of is_space ?d] dropped_shorter [OF w] by simp
      have "62 - length (argv @ [?w]) = k" using k by simp
      then show "1024 < n + length ?w + 1 + args_room (take (62 - length (argv @ [?w])) (words_of ?r))"
        using less.prems(2) unfolding k ws by simp
    qed (use True l hd_dropWhile [of is_space ?d] in auto)
  next
    case False
    show ?thesis
    proof (cases "n \<ge> 1023")
      case True
      then show ?thesis using args_loop_full s l by simp
    next
      case nf: False
      define w' where "w' = take (1023 - n) ?w"
      have lw: "length w' = 1023 - n" "w' \<noteq> []" using False nf by (auto simp: w'_def)
      have s1: "drop (length w') s \<noteq> []" "\<not> is_space (hd (drop (length w') s))"
      proof -
        have lt: "length w' < length ?w" using False nf lw by simp
        then have "s ! length w' = ?w ! length w'" "?w ! length w' \<in> set ?w" by (rule takeWhile_nth [symmetric], rule nth_mem)
        then have "\<not> is_space (s ! length w')" by (auto dest: set_takeWhileD)
        moreover have "length w' < length s" using lt length_takeWhile_le [of "\<lambda>c. \<not> is_space c" s] by simp
        ultimately show "drop (length w') s \<noteq> []" "\<not> is_space (hd (drop (length w') s))" by (auto simp: hd_drop_conv_nth)
      qed
      then have "dropWhile is_space (drop (length w') s) = drop (length w') s" by (cases "drop (length w') s") auto
      then have "args_loop s n argv = args_loop (drop (length w') s) (n + length w' + 1) (argv @ [w'])"
        using s l lw(2) by (subst args_loop.simps) (simp add: Let_def flip: w'_def)
      also have "\<dots> = None" by (rule args_loop_full) (use s1 lw nf l in auto)
      finally show ?thesis .
    qed
  qed
qed

subsection \<open>Properties\<close>

text \<open>C22. Splitting the arguments of a program: when the first 62 words of the line, each with its terminator, fit into
  the buffer of 1024 bytes, the argument vector is the path followed by these words. When already the first 61 do not
  fit, the loop never ends: the program is not started and the kernel hangs.\<close>

theorem setargs_splits_or_hangs:
  "(args_room (take 62 (words_of a)) \<le> 1024 \<longrightarrow>
      (\<exists>s'. tanja_setargs path (Some a) s = Some s' \<and> tanja_argv s' = path # take 62 (words_of a)
         \<and> tanja_argc s' = length (tanja_argv s') \<and> tanja_argc s' \<le> 63))
   \<and> (args_room (take 61 (words_of a)) > 1024 \<longrightarrow> tanja_setargs path (Some a) s = None)"
proof -
  let ?a = "dropWhile is_space a"
  have h: "?a = [] \<or> \<not> is_space (hd ?a)" using hd_dropWhile [of is_space a] by blast
  show ?thesis
    using args_loop_fits [OF h, of 0 "[path]"] args_loop_hangs [OF h, of 0 "[path]"] by (simp add: tanja_setargs_def)
qed

lemma words_of_long: "words_of (replicate (Suc n) CHR ''x'') = [replicate (Suc n) CHR ''x'']"
  using words_of_word [of "replicate (Suc n) CHR ''x''"] by (simp add: takeWhile_eq_all_conv [THEN iffD2])

theorem setargs_splits_or_hangs_witness:
  "(\<exists>s'. tanja_setargs ''/p'' (Some ''  -a  b'') empty_env = Some s' \<and> tanja_argv s' = [''/p'', ''-a'', ''b''])
   \<and> tanja_setargs ''/p'' (Some (replicate 1024 CHR ''x'')) empty_env = None"
proof -
  have "words_of ''  -a  b'' = [''-a'', ''b'']" by simp
  then have "\<exists>s'. tanja_setargs ''/p'' (Some ''  -a  b'') empty_env = Some s' \<and> tanja_argv s' = [''/p'', ''-a'', ''b'']"
    using setargs_splits_or_hangs [of "''  -a  b''" "''/p''" empty_env] by auto
  moreover have "words_of (replicate 1024 CHR ''x'') = [replicate 1024 CHR ''x'']" using words_of_long [of 1023] by simp
  then have "tanja_setargs ''/p'' (Some (replicate 1024 CHR ''x'')) empty_env = None"
    using setargs_splits_or_hangs [of "replicate 1024 CHR ''x''" "''/p''" empty_env] by simp
  ultimately show ?thesis by blast
qed

section \<open>Exit handlers\<close>

text \<open>Whatever the handlers do, none is left afterwards, also none that an outer program registered before. When they
  register no others, all of them run, the last registered first: a bound above their number suffices, and what can
  be observed of the state is the result of their effects in that order.\<close>

lemma run_atexit_empties: "tanja_run_atexit code fuel s = Some s' \<Longrightarrow> atexit_funcs s' = []"
  by (induction fuel arbitrary: s) (auto split: if_splits)

lemma atexit_bounded: "length (atexit_funcs s) \<le> 32 \<Longrightarrow> length (atexit_funcs (snd (atexit func s))) \<le> 32"
  by (simp add: atexit_def)

lemma run_atexit_order:
  assumes keep: "\<And>a s. atexit_funcs (code a None s) = atexit_funcs s" and obs: "\<And>a s. obs (code a None s) = effect a (obs s)"
    "\<And>fs s. obs (s\<lparr>atexit_funcs := fs\<rparr>) = obs s"
    and "length (atexit_funcs s) < fuel"
  shows "\<exists>s'. tanja_run_atexit code fuel s = Some s' \<and> obs s' = fold effect (rev (atexit_funcs s)) (obs s)"
  using assms(4)
proof (induction fuel arbitrary: s)
  case (Suc fuel)
  show ?case
  proof (cases "atexit_funcs s" rule: rev_cases)
    case (snoc fs f)
    have "length (atexit_funcs (code f None (s\<lparr>atexit_funcs := fs\<rparr>))) < fuel" using Suc.prems snoc by (simp add: keep)
    from Suc.IH [OF this] show ?thesis using snoc by (simp add: keep obs)
  qed simp
qed simp

end
