(* ===== verification/ElfLoad.thy ===== *)
theory ElfLoad
  imports CString ProgramEnv
begin

section \<open>Loading relocatable objects (kernel/elf.c)\<close>

text \<open>
  \<^verbatim>\<open>elf_run\<close> loads a relocatable ELF object: it checks the header, places every allocatable section in the program
  region, finds the symbol table, applies the relocations against the symbols of the object and of the kernel's export
  table, looks up \<^verbatim>\<open>main\<close> and calls it.

  The memory is one array of bytes over the 32-bit address space, which holds the file image at the address \<open>img\<close>, as
  well as the loaded sections; the headers and tables are read from it at the time the code reads them, so a store
  into the image shows. Addresses that the code computes are reduced with \<open>u32\<close>; the bytes of one table entry, one
  word or one section are addressed from its start without wrapping, and the theorems ask that they fit.
  The export table, whose addresses the linker fixes, and machine code, as in \<open>ProgramEnv\<close>, are parameters. An error is
  a value of \<open>elf_error\<close>, one per message. \<open>Hangs\<close> stands for the clearing loop, which does not end for a size within
  three bytes of 4 GiB, and \<open>Wild_Index\<close> for reading the array of section addresses beyond its end.
\<close>

datatype elf_error = Not_Elf | Class_64 | Not_Elf32 | Dynamic | Not_Relocatable | Wrong_Machine | No_Section_Table
  | Too_Many_Sections | Table_Out_Of_Bounds | Contents_Out_Of_Bounds | Region_Exhausted | No_Symbol_Table
  | Relocation_Out_Of_Range | Bad_Symbol_Index | Undefined_Symbol | Common_Symbol | Not_Allocated | Bad_Section_Index
  | Bad_Relocation_Type nat | No_Main | Hangs | Wild_Index

record elf_state = program_env +
  elf_mem :: mem
  program_brk :: nat
  region_base :: nat
  region_limit :: nat

definition ld16 :: "mem \<Rightarrow> nat \<Rightarrow> nat" where
  "ld16 m a = of_char (m a) + 256 * of_char (m (a + 1))"

subsection \<open>Headers and tables\<close>

definition is_elf32 :: "mem \<Rightarrow> nat \<Rightarrow> nat \<Rightarrow> bool" where
  "is_elf32 m img sz \<longleftrightarrow>
     img \<noteq> 0 \<and> sz \<ge> 5 \<and> m img = CHR 0x7F \<and> m (img + 1) = CHR ''E'' \<and> m (img + 2) = CHR ''L'' \<and> m (img + 3) = CHR ''F''"

text \<open>The fields of section \<open>i\<close> of the table at \<open>sh\<close>, of symbol \<open>k\<close> and of relocation \<open>r\<close>.\<close>

abbreviation sh_type :: "mem \<Rightarrow> nat \<Rightarrow> nat \<Rightarrow> nat" where "sh_type m sh i \<equiv> ld32 m (sh + 40 * i + 4)"
abbreviation sh_flags :: "mem \<Rightarrow> nat \<Rightarrow> nat \<Rightarrow> nat" where "sh_flags m sh i \<equiv> ld32 m (sh + 40 * i + 8)"
abbreviation sh_offset :: "mem \<Rightarrow> nat \<Rightarrow> nat \<Rightarrow> nat" where "sh_offset m sh i \<equiv> ld32 m (sh + 40 * i + 16)"
abbreviation sh_size :: "mem \<Rightarrow> nat \<Rightarrow> nat \<Rightarrow> nat" where "sh_size m sh i \<equiv> ld32 m (sh + 40 * i + 20)"
abbreviation sh_link :: "mem \<Rightarrow> nat \<Rightarrow> nat \<Rightarrow> nat" where "sh_link m sh i \<equiv> ld32 m (sh + 40 * i + 24)"
abbreviation sh_info :: "mem \<Rightarrow> nat \<Rightarrow> nat \<Rightarrow> nat" where "sh_info m sh i \<equiv> ld32 m (sh + 40 * i + 28)"
abbreviation sh_addralign :: "mem \<Rightarrow> nat \<Rightarrow> nat \<Rightarrow> nat" where "sh_addralign m sh i \<equiv> ld32 m (sh + 40 * i + 32)"

abbreviation st_name :: "mem \<Rightarrow> nat \<Rightarrow> nat \<Rightarrow> nat" where "st_name m tab k \<equiv> ld32 m (tab + 16 * k)"
abbreviation st_value :: "mem \<Rightarrow> nat \<Rightarrow> nat \<Rightarrow> nat" where "st_value m tab k \<equiv> ld32 m (tab + 16 * k + 4)"
abbreviation st_info :: "mem \<Rightarrow> nat \<Rightarrow> nat \<Rightarrow> nat" where "st_info m tab k \<equiv> of_char (m (tab + 16 * k + 12))"
abbreviation st_shndx :: "mem \<Rightarrow> nat \<Rightarrow> nat \<Rightarrow> nat" where "st_shndx m tab k \<equiv> ld16 m (tab + 16 * k + 14)"

abbreviation r_offset :: "mem \<Rightarrow> nat \<Rightarrow> nat \<Rightarrow> nat" where "r_offset m rel r \<equiv> ld32 m (rel + 8 * r)"
abbreviation r_info :: "mem \<Rightarrow> nat \<Rightarrow> nat \<Rightarrow> nat" where "r_info m rel r \<equiv> ld32 m (rel + 8 * r + 4)"

definition align_up :: "nat \<Rightarrow> nat \<Rightarrow> nat" where
  "align_up p a =
     (if a \<le> 1 then p else unat ((of_nat (p + a - 1) :: 32 word) AND NOT (of_nat (a - 1))))"

definition elf_program_init :: "elf_state \<Rightarrow> elf_state" where
  "elf_program_init st =
     (if program_brk st = 0 then st\<lparr>program_brk := align_down 65536 (u32 (region_base st + 65535))\<rparr> else st)"

text \<open>The checks of the file header: the address of the section table and the number of sections.\<close>

definition elf_header :: "mem \<Rightarrow> nat \<Rightarrow> nat \<Rightarrow> elf_error + nat \<times> nat" where
  "elf_header m img sz =
     (if \<not> is_elf32 m img sz then Inl Not_Elf
      else let cls = of_char (m (img + 4)) :: nat; dat = of_char (m (img + 5)) :: nat; e_type = ld16 m (img + 16); nsec = ld16 m (img + 48) in
      if cls \<noteq> 1 \<or> dat \<noteq> 1 then Inl (if cls = 2 then Class_64 else Not_Elf32)
      else if e_type \<noteq> 1 then Inl (if e_type = 3 then Dynamic else Not_Relocatable)
      else if ld16 m (img + 18) \<noteq> 3 then Inl Wrong_Machine
      else if ld16 m (img + 46) \<noteq> 40 \<or> ld32 m (img + 32) = 0 \<or> nsec = 0 then Inl No_Section_Table
      else if nsec > 96 then Inl Too_Many_Sections
      else if u32 (ld32 m (img + 32) + nsec * 40) > sz then Inl Table_Out_Of_Bounds
      else Inr (u32 (img + ld32 m (img + 32)), nsec))"

subsection \<open>Placing the sections\<close>

text \<open>Clearing \<open>n\<close> bytes at \<open>a\<close> from the offset \<open>k\<close> on, by words.\<close>

function zero_from :: "mem \<Rightarrow> nat \<Rightarrow> nat \<Rightarrow> nat \<Rightarrow> mem" where
  "zero_from m a n k =
     (if k < n then zero_from (if k + 4 \<le> n then st32 m (a + k) 0 else m(a + k := NUL)) a n (k + 4) else m)"
  by pat_completeness auto
termination
  by (relation "measure (\<lambda>(m, a, n, k). n - k)") auto

declare zero_from.simps [simp del]

definition place_section :: "mem \<Rightarrow> nat \<Rightarrow> nat \<Rightarrow> nat \<Rightarrow> nat \<Rightarrow> nat \<Rightarrow> (elf_error + nat \<times> nat) \<times> mem" where
  "place_section m sh img sz i cur =
     (if \<not> odd (sh_flags m sh i div 2) then (Inr (0, cur), m)
      else let al = sh_addralign m sh i; cur = align_up cur (if al \<noteq> 0 then al else 1); n = sh_size m sh i; off = sh_offset m sh i in
      if sh_type m sh i = 8
      then (if n > 4294967292 then (Inl Hangs, m) else (Inr (cur, u32 (cur + n)), zero_from m cur n 0))
      else if n \<ge> 262144 \<and> u32 (off + n) \<le> sz then (Inr (u32 (img + off), cur), m)
      else if n > 0 \<and> u32 (off + n) > sz then (Inl Contents_Out_Of_Bounds, m)
      else (Inr (cur, u32 (cur + n)), if n > 0 then memcpy m cur (u32 (img + off)) n else m))"

fun place_sections :: "mem \<Rightarrow> nat \<Rightarrow> nat \<Rightarrow> nat \<Rightarrow> nat list \<Rightarrow> nat list \<Rightarrow> nat \<Rightarrow> (elf_error + nat list \<times> nat) \<times> mem" where
  "place_sections m sh img sz [] addrs cur = (Inr (addrs, cur), m)"
| "place_sections m sh img sz (i # is) addrs cur =
     (case place_section m sh img sz i cur of
        (Inl e, m) \<Rightarrow> (Inl e, m)
      | (Inr (a, cur), m) \<Rightarrow> place_sections m sh img sz is (addrs @ [a]) cur)"

subsection \<open>Symbols and relocations\<close>

definition find_symtab :: "mem \<Rightarrow> nat \<Rightarrow> nat \<Rightarrow> nat \<Rightarrow> (nat \<times> nat \<times> nat) option" where
  "find_symtab m sh img nsec =
     (case find (\<lambda>i. sh_type m sh i = 2) [0..<nsec] of
        None \<Rightarrow> None
      | Some i \<Rightarrow>
          let symtab = u32 (img + sh_offset m sh i); nsyms = sh_size m sh i div 16;
              symstr = (if sh_link m sh i < nsec \<and> sh_type m sh (sh_link m sh i) = 3
                        then u32 (img + sh_offset m sh (sh_link m sh i)) else 0)
          in if symtab = 0 \<or> symstr = 0 then None else Some (symtab, nsyms, symstr))"

text \<open>Is the string at the address \<open>a\<close> the string \<open>s\<close>?\<close>

definition mem_is :: "mem \<Rightarrow> nat \<Rightarrow> bytes \<Rightarrow> bool" where
  "mem_is m a s \<longleftrightarrow> list_all (\<lambda>j. m (u32 (a + j)) = s ! j) [0..<length s] \<and> m (u32 (a + length s)) = NUL"

type_synonym exports = "(bytes \<times> nat) list"

definition tanja_export_lookup :: "exports \<Rightarrow> mem \<Rightarrow> nat \<Rightarrow> nat" where
  "tanja_export_lookup ex m a = (case find (\<lambda>(nm, adr). mem_is m a nm) ex of None \<Rightarrow> 0 | Some (nm, adr) \<Rightarrow> adr)"

definition symbol_value :: "exports \<Rightarrow> mem \<Rightarrow> nat \<Rightarrow> nat list \<Rightarrow> nat \<Rightarrow> nat \<Rightarrow> nat \<Rightarrow> elf_error + nat" where
  "symbol_value ex m nsec addrs symtab symstr k =
     (let x = st_shndx m symtab k in
      if x = 0
      then let a = tanja_export_lookup ex m (u32 (symstr + st_name m symtab k))
           in if a = 0 then (if st_info m symtab k div 16 = 2 then Inr 0 else Inl Undefined_Symbol) else Inr a
      else if x = 65521 then Inr (st_value m symtab k)
      else if x = 65522 then Inl Common_Symbol
      else if x < nsec then (if addrs ! x = 0 then Inl Not_Allocated else Inr (u32 (addrs ! x + st_value m symtab k)))
      else Inl Bad_Section_Index)"

definition apply_rel :: "exports \<Rightarrow> nat \<Rightarrow> nat list \<Rightarrow> nat \<Rightarrow> nat \<Rightarrow> nat \<Rightarrow> nat \<Rightarrow> nat \<Rightarrow> nat \<Rightarrow> nat \<Rightarrow> mem \<Rightarrow> elf_error option \<times> mem" where
  "apply_rel ex nsec addrs symtab nsyms symstr sh t rel r m =
     (let sym = r_info m rel r div 256; ty = r_info m rel r mod 256; place = u32 (addrs ! t + r_offset m rel r) in
      if r_offset m rel r \<ge> sh_size m sh t then (Some Relocation_Out_Of_Range, m)
      else if sym \<ge> nsyms then (Some Bad_Symbol_Index, m)
      else case symbol_value ex m nsec addrs symtab symstr sym of
        Inl e \<Rightarrow> (Some e, m)
      | Inr s \<Rightarrow>
          if ty = 1 then (None, st32 m place (u32 (s + ld32 m place)))
          else if ty = 2 \<or> ty = 4 then (None, st32 m place (u32 (s + ld32 m place + (4294967296 - place))))
          else (Some (Bad_Relocation_Type ty), m))"

fun apply_rels :: "exports \<Rightarrow> nat \<Rightarrow> nat list \<Rightarrow> nat \<Rightarrow> nat \<Rightarrow> nat \<Rightarrow> nat \<Rightarrow> nat \<Rightarrow> nat \<Rightarrow> nat list \<Rightarrow> mem \<Rightarrow> elf_error option \<times> mem" where
  "apply_rels ex nsec addrs symtab nsyms symstr sh t rel [] m = (None, m)"
| "apply_rels ex nsec addrs symtab nsyms symstr sh t rel (r # rs) m =
     (case apply_rel ex nsec addrs symtab nsyms symstr sh t rel r m of
        (Some e, m) \<Rightarrow> (Some e, m)
      | (None, m) \<Rightarrow> apply_rels ex nsec addrs symtab nsyms symstr sh t rel rs m)"

fun relocate :: "exports \<Rightarrow> nat \<Rightarrow> nat list \<Rightarrow> nat \<Rightarrow> nat \<Rightarrow> nat \<Rightarrow> nat \<Rightarrow> nat \<Rightarrow> nat list \<Rightarrow> mem \<Rightarrow> elf_error option \<times> mem" where
  "relocate ex nsec addrs symtab nsyms symstr sh img [] m = (None, m)"
| "relocate ex nsec addrs symtab nsyms symstr sh img (i # is) m =
     (let t = sh_info m sh i in
      if sh_type m sh i \<noteq> 9 \<or> t \<ge> nsec \<or> addrs ! t = 0 then relocate ex nsec addrs symtab nsyms symstr sh img is m
      else case apply_rels ex nsec addrs symtab nsyms symstr sh t (u32 (img + sh_offset m sh i)) [0..<sh_size m sh i div 8] m of
             (Some e, m) \<Rightarrow> (Some e, m)
           | (None, m) \<Rightarrow> relocate ex nsec addrs symtab nsyms symstr sh img is m)"

definition find_main :: "mem \<Rightarrow> nat \<Rightarrow> nat list \<Rightarrow> nat \<Rightarrow> nat \<Rightarrow> nat \<Rightarrow> elf_error + nat" where
  "find_main m nsec addrs symtab nsyms symstr =
     (case find (\<lambda>k. mem_is m (u32 (symstr + st_name m symtab k)) ''main'' \<and> st_shndx m symtab k \<noteq> 0) [0..<nsyms] of
        None \<Rightarrow> Inl No_Main
      | Some k \<Rightarrow>
          let x = st_shndx m symtab k in
          if x \<noteq> 65521 \<and> x \<ge> nsec then Inl Wild_Index
          else let entry = u32 ((if x = 65521 then 0 else addrs ! x) + st_value m symtab k)
               in if entry = 0 then Inl No_Main else Inr entry)"

subsection \<open>Loading and running\<close>

text \<open>The entry point and the new end of the region, or the error; and the memory in both cases.\<close>

definition elf_load :: "exports \<Rightarrow> mem \<Rightarrow> nat \<Rightarrow> nat \<Rightarrow> nat \<Rightarrow> nat \<Rightarrow> (elf_error + nat \<times> nat) \<times> mem" where
  "elf_load ex m img sz brk limit =
     (case elf_header m img sz of
        Inl e \<Rightarrow> (Inl e, m)
      | Inr (sh, nsec) \<Rightarrow>
          (case place_sections m sh img sz [0..<nsec] [] brk of
             (Inl e, m) \<Rightarrow> (Inl e, m)
           | (Inr (addrs, cur), m) \<Rightarrow>
               if cur > limit then (Inl Region_Exhausted, m)
               else (case find_symtab m sh img nsec of
                  None \<Rightarrow> (Inl No_Symbol_Table, m)
                | Some (symtab, nsyms, symstr) \<Rightarrow>
                    (case relocate ex nsec addrs symtab nsyms symstr sh img [0..<nsec] m of
                       (Some e, m) \<Rightarrow> (Inl e, m)
                     | (None, m) \<Rightarrow>
                         (case find_main m nsec addrs symtab nsyms symstr of
                            Inl e \<Rightarrow> (Inl e, m)
                          | Inr entry \<Rightarrow> (Inr (entry, cur), m))))))"

text \<open>Running the program at \<open>entry\<close> with the jump buffer \<open>frame\<close> for \<^verbatim>\<open>exit\<close>; \<open>fuel\<close> bounds the number of exit handlers.\<close>

definition run_program :: "(nat \<Rightarrow> bytes option \<Rightarrow> elf_state \<Rightarrow> elf_state) \<Rightarrow> nat \<Rightarrow> nat list \<Rightarrow> nat \<Rightarrow> bytes \<Rightarrow> bytes option \<Rightarrow> elf_state
    \<Rightarrow> elf_state option" where
  "run_program code fuel frame entry path args st =
     (case tanja_setargs path args st of
        None \<Rightarrow> None
      | Some st \<Rightarrow>
          let save_active = tanja_exit_active st; save_jmp = tanja_exit_jmp st;
              st = code entry (Some (case args of None \<Rightarrow> [] | Some a \<Rightarrow> a)) (st\<lparr>tanja_exit_active := True, tanja_exit_jmp := frame\<rparr>)
          in tanja_run_atexit code fuel (st\<lparr>tanja_exit_jmp := save_jmp, tanja_exit_active := save_active, kb_raw_mode := 0\<rparr>))"

text \<open>The result is \<^term>\<open>None\<close> where the code does not return or its behaviour is undefined.\<close>

definition elf_run :: "exports \<Rightarrow> (nat \<Rightarrow> bytes option \<Rightarrow> elf_state \<Rightarrow> elf_state) \<Rightarrow> nat \<Rightarrow> nat list \<Rightarrow> nat \<Rightarrow> nat \<Rightarrow> bytes \<Rightarrow> bytes option
    \<Rightarrow> elf_state \<Rightarrow> (int \<times> elf_state) option" where
  "elf_run ex code fuel frame img sz path args st =
     (let st = elf_program_init st; save_brk = program_brk st in
      case elf_load ex (elf_mem st) img sz save_brk (region_limit st) of
        (Inl e, m) \<Rightarrow> if e = Hangs \<or> e = Wild_Index then None else Some (- 1, st\<lparr>elf_mem := m\<rparr>)
      | (Inr (entry, cur), m) \<Rightarrow>
          (case run_program code fuel frame entry path args (st\<lparr>elf_mem := m, program_brk := cur\<rparr>) of
             None \<Rightarrow> None
           | Some st \<Rightarrow> Some (0, st\<lparr>program_brk := save_brk\<rparr>)))"

section \<open>Where the sections lie\<close>

lemma align_up_bounds:
  assumes "p + a < 4294967296"
  shows "p \<le> align_up p a \<and> align_up p a \<le> p + a"
proof (cases "a \<le> 1")
  case False
  let ?w = "of_nat (p + a - 1) :: 32 word" and ?c = "of_nat (a - 1) :: 32 word"
  have w: "unat ?w = p + a - 1" "unat ?c = a - 1" using assms by (simp_all add: unat_of_nat)
  have "(?w AND ?c) + (?w AND NOT ?c) = ?w" 
    by (subst disjunctive_add_eq_or) (auto simp: bit_eq_iff bit_simps)
  then have "?w AND NOT ?c = ?w - (?w AND ?c)" by (metis add_diff_cancel_left')
  moreover have "?w AND ?c \<le> ?w" "?w AND ?c \<le> ?c" by (simp_all add: word_and_le1 word_and_le2)
  ultimately have "unat (?w AND NOT ?c) = unat ?w - unat (?w AND ?c)" "unat (?w AND ?c) \<le> unat ?c"
    by (simp_all add: unat_sub word_le_nat_alt)
  then show ?thesis using False w by (simp add: align_up_def)
qed (simp add: align_up_def)

text \<open>The bytes the clearing loop reaches: whole words, and the first byte of a rest.\<close>

definition cleared :: "nat \<Rightarrow> nat \<Rightarrow> bool" where
  "cleared n j \<longleftrightarrow> j < n \<and> (4 * (j div 4) + 4 \<le> n \<or> j mod 4 = 0)"

lemma zero_from_eq:
  "4 dvd k \<Longrightarrow> zero_from m a n k i = (if a + k \<le> i \<and> cleared n (i - a) then NUL else m i)"
proof (induction m a n k rule: zero_from.induct)
  case (1 m a n k)
  show ?case
  proof (cases "k < n")
    case False
    then show ?thesis by (subst zero_from.simps) (auto simp: cleared_def)
  next
    case True
    let ?m = "if k + 4 \<le> n then st32 m (a + k) 0 else m(a + k := NUL)"
    have z: "zero_from m a n k i = zero_from ?m a n (k + 4) i" using True by (subst zero_from.simps) simp
    have ih: "zero_from ?m a n (k + 4) i = (if a + (k + 4) \<le> i \<and> cleared n (i - a) then NUL else ?m i)"
      using 1(1) [OF True] 1(2) by simp
    obtain q where q: "k = 4 * q" using 1(2) by (elim dvdE)
    show ?thesis
    proof (cases "a + k \<le> i \<and> i < a + k + 4")
      case in4: True
      then obtain d where d: "i = a + k + d" "d < 4" using le_Suc_ex [of "a + k" i] by auto
      have "(4 * q + d) div 4 = q" "(4 * q + d) mod 4 = d" using d(2) by auto
      then have "cleared n (i - a) \<longleftrightarrow> k + d < n \<and> (k + 4 \<le> n \<or> d = 0)" using d q by (simp add: cleared_def)
      moreover have "?m i = (if k + 4 \<le> n \<or> d = 0 then NUL else m i)"
      proof -
        have "d = 0 \<or> d = 1 \<or> d = 2 \<or> d = 3" using d(2) by auto
        then show ?thesis using d(1) by (auto simp: st32_def char_of_def)
      qed
      ultimately show ?thesis using z ih d True by auto
    next
      case False
      then have "?m i = m i" by (auto simp: st32_outside)
      then show ?thesis using z ih False by auto
    qed
  qed
qed

lemma memcpy_up_above:
  "s + n \<le> d \<Longrightarrow> memcpy_up m d s n i = (if d \<le> i \<and> i < d + n then m (s + (i - d)) else m i)"
proof (induction n arbitrary: m d s)
  case (Suc n)
  have "memcpy_up m d s (Suc n) i = (if d + 1 \<le> i \<and> i < d + 1 + n then (m(d := m s)) (s + 1 + (i - (d + 1))) else (m(d := m s)) i)"
    using Suc by simp
  also have "\<dots> = (if d \<le> i \<and> i < d + Suc n then m (s + (i - d)) else m i)" using Suc.prems by (auto simp: Suc_diff_Suc)
  finally show ?case .
qed auto

lemma memcpy_law:
  assumes "0 < d" "0 < s" "s + n \<le> d"
  shows "memcpy m d s n i = (if d \<le> i \<and> i < d + n then m (s + (i - d)) else m i)"
  using assms memcpy_up_above [of s n d m] by (simp add: memcpy_def)

text \<open>Section \<open>i\<close> of the object in the memory \<open>m0\<close>, after loading into \<open>m\<close>: where it lies and what it contains.\<close>

definition in_place :: "mem \<Rightarrow> nat \<Rightarrow> nat \<Rightarrow> nat \<Rightarrow> bool" where
  "in_place m0 sh sz i \<longleftrightarrow> sh_type m0 sh i \<noteq> 8 \<and> 262144 \<le> sh_size m0 sh i \<and> sh_offset m0 sh i + sh_size m0 sh i \<le> sz"

definition moved :: "mem \<Rightarrow> nat \<Rightarrow> nat \<Rightarrow> nat \<Rightarrow> bool" where
  "moved m0 sh sz i \<longleftrightarrow> odd (sh_flags m0 sh i div 2) \<and> \<not> in_place m0 sh sz i"

definition section_ok :: "mem \<Rightarrow> nat \<Rightarrow> nat \<Rightarrow> nat \<Rightarrow> mem \<Rightarrow> nat \<Rightarrow> nat \<Rightarrow> nat \<Rightarrow> nat \<Rightarrow> bool" where
  "section_ok m0 sh img sz m lo hi i a \<longleftrightarrow>
     (let n = sh_size m0 sh i; off = sh_offset m0 sh i in
      if \<not> odd (sh_flags m0 sh i div 2) then a = 0
      else if in_place m0 sh sz i then a = img + off
      else lo \<le> a \<and> a + n \<le> hi
        \<and> (if sh_type m0 sh i = 8 then \<forall>j<n. m (a + j) = (if cleared n j then NUL else m0 (a + j))
           else off + n \<le> sz \<or> n = 0) \<and> (sh_type m0 sh i \<noteq> 8 \<longrightarrow> (\<forall>j<n. m (a + j) = m0 (img + off + j))))"

text \<open>What the loader needs to find in the header of section \<open>i\<close>, and the room it takes.\<close>

definition sane_section :: "mem \<Rightarrow> nat \<Rightarrow> nat \<Rightarrow> bool" where
  "sane_section m0 sh i \<longleftrightarrow> sh_offset m0 sh i + sh_size m0 sh i < 4294967296"

definition room :: "mem \<Rightarrow> nat \<Rightarrow> nat \<Rightarrow> nat" where
  "room m0 sh i = sh_addralign m0 sh i + 1 + sh_size m0 sh i"

lemma header_cong:
  assumes "\<forall>a<lo. m a = m0 a" "sh + 40 * (i + 1) \<le> lo"
  shows "sh_type m sh i = sh_type m0 sh i" "sh_flags m sh i = sh_flags m0 sh i" "sh_offset m sh i = sh_offset m0 sh i"
    "sh_size m sh i = sh_size m0 sh i" "sh_link m sh i = sh_link m0 sh i" "sh_info m sh i = sh_info m0 sh i"
    "sh_addralign m sh i = sh_addralign m0 sh i"
  using assms by (auto intro!: ld32_cong)

lemma place_section_law:
  assumes p: "place_section m sh img sz i cur = (Inr (a, cur'), m')"
    and eq: "\<And>x. x < lo \<or> cur \<le> x \<Longrightarrow> m x = m0 x" and lo: "lo \<le> cur" "0 < img" "img + sz \<le> lo" "sh + 40 * (i + 1) \<le> lo"
    and s: "sane_section m0 sh i" "cur + room m0 sh i < 4294967296"
  shows "cur \<le> cur' \<and> cur' \<le> cur + room m0 sh i \<and> (\<forall>x. x < cur \<or> cur' \<le> x \<longrightarrow> m' x = m x) \<and> section_ok m0 sh img sz m' cur cur' i a"
proof -
  have "\<forall>x<lo. m x = m0 x" using eq by blast
  note H = header_cong [OF this lo(4)]
  let ?n = "sh_size m0 sh i" and ?off = "sh_offset m0 sh i" and ?al = "sh_addralign m0 sh i"
  define c where "c = align_up cur (if ?al \<noteq> 0 then ?al else 1)"
  have c: "cur \<le> c" "c + ?n \<le> cur + room m0 sh i" "c + ?n < 4294967296"
    using align_up_bounds [of cur "if ?al \<noteq> 0 then ?al else 1"] s(2) by (auto simp: c_def room_def split: if_splits)
  have u: "u32 (?off + ?n) = ?off + ?n" "u32 (c + ?n) = c + ?n" using s(1) c by (auto simp: sane_section_def)
  have ui: "u32 (img + ?off) = img + ?off" if "?off \<le> sz" using that lo c by simp
  show ?thesis
  proof (cases "odd (sh_flags m0 sh i div 2)")
    case False
    then show ?thesis using p H by (auto simp: place_section_def section_ok_def room_def)
  next
    case fl: True
    note P = p [unfolded place_section_def H Let_def, folded c_def, unfolded u]
    consider (bss) "sh_type m0 sh i = 8" "a = c" "cur' = c + ?n" "m' = zero_from m c ?n 0"
      | (big) "in_place m0 sh sz i" "a = img + ?off" "cur' = c" "m' = m"
      | (copy) "sh_type m0 sh i \<noteq> 8" "\<not> in_place m0 sh sz i" "?off + ?n \<le> sz \<or> ?n = 0" "a = c" "cur' = c + ?n"
          "m' = (if ?n > 0 then memcpy m c (u32 (img + ?off)) ?n else m)"
      using P fl ui by (auto simp: in_place_def split: if_splits)
    then show ?thesis
    proof cases
      case bss
      have Z: "m' x = (if c \<le> x \<and> cleared ?n (x - c) then NUL else m x)" for x
        using zero_from_eq [of 0 m c ?n x] bss(4) by simp
      have "m' (c + j) = (if cleared ?n j then NUL else m0 (c + j))" for j using Z [of "c + j"] eq [of "c + j"] c by auto
      moreover have "m' x = m x" if "x < cur \<or> c + ?n \<le> x" for x using Z [of x] that c by (auto simp: cleared_def)
      ultimately show ?thesis using bss c fl by (auto simp: section_ok_def in_place_def)
    next
      case big
      then show ?thesis using c fl by (auto simp: section_ok_def)
    next
      case copy
      have C: "m' x = (if c \<le> x \<and> x < c + ?n then m (img + ?off + (x - c)) else m x)" for x
      proof (cases "?n = 0")
        case False
        then have o: "?off + ?n \<le> sz" using copy(3) by simp
        have "m' = memcpy m c (img + ?off) ?n" using copy(6) False ui o by simp
        then show ?thesis using memcpy_law [of c "img + ?off" ?n m x] lo c o by simp
      qed (use copy in auto)
      have "m' (c + j) = m0 (img + ?off + j)" if "j < ?n" for j
      proof -
        have "?off + ?n \<le> sz" using that copy(3) by auto
        then have "m (img + ?off + j) = m0 (img + ?off + j)" using that lo eq by simp
        then show ?thesis using C [of "c + j"] that by simp
      qed
      then show ?thesis using copy c fl C by (auto simp: section_ok_def Let_def)
    qed
  qed
qed

lemma section_ok_mono:
  assumes "section_ok m0 sh img sz m lo hi i a" "lo' \<le> lo" "hi \<le> hi'" "\<forall>x. lo \<le> x \<and> x < hi \<longrightarrow> m' x = m x"
  shows "section_ok m0 sh img sz m' lo' hi' i a"
proof -
  have "m' (a + j) = m (a + j)" if "lo \<le> a" "a + sh_size m0 sh i \<le> hi" "j < sh_size m0 sh i" for j using assms(4) that by simp
  then show ?thesis using assms(1-3) unfolding section_ok_def Let_def by (auto split: if_splits)
qed

lemma place_sections_law:
  assumes "place_sections m sh img sz [j..<n] addrs cur = (Inr (addrs', cur'), m')" "length addrs = j" "j \<le> n"
    and "\<forall>x. x < lo \<or> cur \<le> x \<longrightarrow> m x = m0 x" "lo \<le> cur" "0 < img" "img + sz \<le> lo" "sh + 40 * n \<le> lo"
    and "\<forall>i<n. sane_section m0 sh i" "cur + (\<Sum>i=j..<n. room m0 sh i) < 4294967296"
  shows "cur \<le> cur' \<and> (\<forall>x. x < cur \<or> cur' \<le> x \<longrightarrow> m' x = m x) \<and> length addrs' = n \<and> take j addrs' = addrs
    \<and> (\<forall>i. j \<le> i \<and> i < n \<longrightarrow> section_ok m0 sh img sz m' cur cur' i (addrs' ! i))
    \<and> (\<forall>i k. j \<le> i \<and> i < k \<and> k < n \<and> moved m0 sh sz i \<and> moved m0 sh sz k \<longrightarrow> addrs' ! i + sh_size m0 sh i \<le> addrs' ! k)"
  using assms
proof (induction "n - j" arbitrary: j m addrs cur)
  case 0
  then show ?case by auto
next
  case (Suc d)
  then have jn: "j < n" by simp
  have up: "[j..<n] = j # [Suc j..<n]" using jn by (rule upt_conv_Cons)
  have sum: "(\<Sum>i=j..<n. room m0 sh i) = room m0 sh j + (\<Sum>i=Suc j..<n. room m0 sh i)" using jn by (rule sum.atLeast_Suc_lessThan)
  obtain a c1 m1 where p: "place_section m sh img sz j cur = (Inr (a, c1), m1)"
    and r: "place_sections m1 sh img sz [Suc j..<n] (addrs @ [a]) c1 = (Inr (addrs', cur'), m')"
    using Suc.prems(1) unfolding up by (auto split: prod.splits sum.splits)
  have L: "cur \<le> c1 \<and> c1 \<le> cur + room m0 sh j \<and> (\<forall>x. x < cur \<or> c1 \<le> x \<longrightarrow> m1 x = m x) \<and> section_ok m0 sh img sz m1 cur c1 j a"
    by (rule place_section_law [OF p _ Suc.prems(5-7)]) (use Suc.prems(4,8,9,10) jn sum in auto)
  have I: "c1 \<le> cur' \<and> (\<forall>x. x < c1 \<or> cur' \<le> x \<longrightarrow> m' x = m1 x) \<and> length addrs' = n \<and> take (Suc j) addrs' = addrs @ [a]
    \<and> (\<forall>i. Suc j \<le> i \<and> i < n \<longrightarrow> section_ok m0 sh img sz m' c1 cur' i (addrs' ! i))
    \<and> (\<forall>i k. Suc j \<le> i \<and> i < k \<and> k < n \<and> moved m0 sh sz i \<and> moved m0 sh sz k \<longrightarrow> addrs' ! i + sh_size m0 sh i \<le> addrs' ! k)"
    by (rule Suc.hyps(1) [OF _ r]) (use Suc.prems Suc.hyps(2) jn L sum in auto)
  have aj: "addrs' ! j = a" "take j addrs' = addrs"
  proof -
    have "length addrs' = n" and t: "take (Suc j) addrs' = addrs @ [a]" using I by blast+
    then have "take (Suc j) addrs' = take j addrs' @ [addrs' ! j]" using jn by (simp add: take_Suc_conv_app_nth)
    then show "addrs' ! j = a" "take j addrs' = addrs" using t by auto
  qed
  have sj: "section_ok m0 sh img sz m' cur cur' j a" by (rule section_ok_mono [of _ _ _ _ m1 cur c1]) (use L I in auto)
  have later: "section_ok m0 sh img sz m' cur cur' i (addrs' ! i)" if "Suc j \<le> i" "i < n" for i
    by (rule section_ok_mono [of _ _ _ _ m' c1 cur']) (use L I that in auto)
  have below: "a + sh_size m0 sh j \<le> addrs' ! k" if "Suc j \<le> k" "k < n" "moved m0 sh sz j" "moved m0 sh sz k" for k
  proof -
    have "section_ok m0 sh img sz m' c1 cur' k (addrs' ! k)" using I that by blast
    then show ?thesis using L that(3,4) by (auto simp: section_ok_def moved_def Let_def)
  qed
  have S: "section_ok m0 sh img sz m' cur cur' i (addrs' ! i)" if "j \<le> i" "i < n" for i
    using that sj later aj by (cases "i = j") auto
  have D: "addrs' ! i + sh_size m0 sh i \<le> addrs' ! k" if "j \<le> i" "i < k" "k < n" "moved m0 sh sz i" "moved m0 sh sz k" for i k
    using that below aj I by (cases "i = j") auto
  have "cur \<le> cur'" "\<forall>x. x < cur \<or> cur' \<le> x \<longrightarrow> m' x = m x" using L I by auto
  then show ?case using I aj(2) S D by blast
qed

section \<open>What relocation stores\<close>

text \<open>The tables of the object lie below \<open>lo\<close>, and so do all bytes that comparing a symbol's name with the export
  table can read.\<close>

definition tables_below :: "exports \<Rightarrow> mem \<Rightarrow> nat \<Rightarrow> nat \<Rightarrow> nat \<Rightarrow> nat \<Rightarrow> nat \<Rightarrow> nat \<Rightarrow> bool" where
  "tables_below ex m0 lo sh nsec symtab nsyms symstr \<longleftrightarrow>
     sh + 40 * nsec \<le> lo \<and> symtab + 16 * nsyms \<le> lo \<and> lo < 4294967296
     \<and> (\<forall>k<nsyms. \<forall>(nm, adr)\<in>set ex. u32 (symstr + st_name m0 symtab k) + length nm < lo)"

lemma ld16_cong: "m a = m' a \<Longrightarrow> m (a + 1) = m' (a + 1) \<Longrightarrow> ld16 m a = ld16 m' a"
  by (simp add: ld16_def)

lemma mem_is_cong:
  assumes "\<forall>x<lo. m x = m0 x" "a + length s < lo" "lo < 4294967296"
  shows "mem_is m a s = mem_is m0 a s"
proof -
  have "m (u32 (a + j)) = m0 (u32 (a + j))" if "j \<le> length s" for j using assms that by simp
  then show ?thesis by (auto simp: mem_is_def list_all_iff)
qed

lemma find_cong_on: "(\<And>x. x \<in> set xs \<Longrightarrow> P x = Q x) \<Longrightarrow> find P xs = find Q xs"
  by (induction xs) auto

lemma symbol_cong:
  assumes eq: "\<forall>x<lo. m x = m0 x" and t: "tables_below ex m0 lo sh nsec symtab nsyms symstr" and k: "k < nsyms"
  shows "symbol_value ex m nsec addrs symtab symstr k = symbol_value ex m0 nsec addrs symtab symstr k"
proof -
  have s: "symtab + 16 * k + 16 \<le> lo" using t k by (simp add: tables_below_def)
  have f: "st_name m symtab k = st_name m0 symtab k" "st_value m symtab k = st_value m0 symtab k"
    "st_shndx m symtab k = st_shndx m0 symtab k" "m (symtab + 16 * k + 12) = m0 (symtab + 16 * k + 12)"
    using eq s by (auto intro!: ld32_cong ld16_cong)
  let ?a = "u32 (symstr + st_name m0 symtab k)"
  have "(case x of (nm, adr) \<Rightarrow> mem_is m ?a nm) = (case x of (nm, adr) \<Rightarrow> mem_is m0 ?a nm)" if "x \<in> set ex" for x
  proof -
    obtain nm adr where x: "x = (nm, adr)" by (cases x)
    have "\<forall>(nm, adr)\<in>set ex. ?a + length nm < lo" "lo < 4294967296" using t k unfolding tables_below_def by blast+
    then have "?a + length nm < lo" "lo < 4294967296" using that x by auto
    then show ?thesis using mem_is_cong [OF eq, of ?a nm] x by simp
  qed
  then have "find (\<lambda>(nm, adr). mem_is m ?a nm) ex = find (\<lambda>(nm, adr). mem_is m0 ?a nm) ex" by (rule find_cong_on)
  then have "tanja_export_lookup ex m ?a = tanja_export_lookup ex m0 ?a" unfolding tanja_export_lookup_def by simp
  then show ?thesis unfolding symbol_value_def f Let_def by simp
qed

definition rel_place :: "mem \<Rightarrow> nat list \<Rightarrow> nat \<Rightarrow> nat \<Rightarrow> nat \<Rightarrow> nat" where
  "rel_place m0 addrs t rel r = addrs ! t + r_offset m0 rel r"

text \<open>The word that relocation \<open>r\<close> asks for, given the value of its symbol and the addend found in place.\<close>

definition rel_word :: "mem \<Rightarrow> nat list \<Rightarrow> nat \<Rightarrow> nat \<Rightarrow> nat \<Rightarrow> nat \<Rightarrow> nat \<Rightarrow> nat" where
  "rel_word m0 addrs t rel r s addend =
     (if r_info m0 rel r mod 256 = 1 then (s + addend) mod 4294967296
      else nat ((int s + int addend - int (rel_place m0 addrs t rel r)) mod 4294967296))"

lemma pc_word: "p < 4294967296 \<Longrightarrow> u32 (s + a + (4294967296 - p)) = nat ((int s + int a - int p) mod 4294967296)"
proof -
  assume "p < 4294967296"
  then have "int (s + a + (4294967296 - p)) = int s + int a - int p + 4294967296" by simp
  then show ?thesis unfolding u32_def by (metis mod_add_self2 nat_int of_nat_numeral zmod_int)
qed

lemma apply_rel_law:
  assumes eq: "\<forall>x<lo. m x = m0 x" and tb: "tables_below ex m0 lo sh nsec symtab nsyms symstr" "rel + 8 * r + 8 \<le> lo"
    and t: "t < nsec" "addrs ! t + sh_size m0 sh t + 3 < 4294967296"
    and a: "apply_rel ex nsec addrs symtab nsyms symstr sh t rel r m = (None, m')"
  shows "\<exists>s. symbol_value ex m0 nsec addrs symtab symstr (r_info m0 rel r div 256) = Inr s
    \<and> r_info m0 rel r mod 256 \<in> {1, 2, 4} \<and> r_offset m0 rel r < sh_size m0 sh t
    \<and> m' = st32 m (rel_place m0 addrs t rel r) (rel_word m0 addrs t rel r s (ld32 m (rel_place m0 addrs t rel r)))"
proof -
  have f: "r_offset m rel r = r_offset m0 rel r" "r_info m rel r = r_info m0 rel r" "sh_size m sh t = sh_size m0 sh t"
    using eq tb t(1) by (auto intro!: ld32_cong simp: tables_below_def)
  let ?k = "r_info m0 rel r div 256" and ?p = "rel_place m0 addrs t rel r"
  have o: "r_offset m0 rel r < sh_size m0 sh t" "?k < nsyms"
    using a unfolding apply_rel_def f Let_def by (auto split: if_splits)
  have p: "u32 (addrs ! t + r_offset m0 rel r) = ?p" "?p < 4294967296" using o t(2) by (auto simp: rel_place_def)
  obtain s where s: "symbol_value ex m0 nsec addrs symtab symstr ?k = Inr s"
    using a o unfolding apply_rel_def f Let_def symbol_cong [OF eq tb(1) o(2)] by (auto split: sum.splits)
  show ?thesis
    using a o s pc_word [OF p(2), of s "ld32 m ?p"] unfolding apply_rel_def f Let_def symbol_cong [OF eq tb(1) o(2)] p(1)
    by (auto simp: rel_word_def u32_def split: if_splits)
qed

lemma rel_word_less: "rel_word m0 addrs t rel r s a < 4294967296"
proof -
  have "(int s + int a - int (rel_place m0 addrs t rel r)) mod 4294967296 < 4294967296" by simp
  then show ?thesis unfolding rel_word_def by (auto simp: nat_less_iff)
qed

definition apart :: "nat \<Rightarrow> nat \<Rightarrow> bool" where
  "apart p q \<longleftrightarrow> p + 4 \<le> q \<or> q + 4 \<le> p"

lemma apply_rels_law:
  assumes eq: "\<forall>x<lo. m x = m0 x" and tb: "tables_below ex m0 lo sh nsec symtab nsyms symstr" "\<forall>r\<in>set rs. rel + 8 * r + 8 \<le> lo"
    and t: "t < nsec" "lo \<le> addrs ! t" "addrs ! t + sh_size m0 sh t + 3 < 4294967296"
    and ap: "distinct rs" "\<forall>r\<in>set rs. \<forall>r'\<in>set rs. r \<noteq> r' \<longrightarrow> apart (rel_place m0 addrs t rel r) (rel_place m0 addrs t rel r')"
    and a: "apply_rels ex nsec addrs symtab nsyms symstr sh t rel rs m = (None, m')"
  shows "(\<forall>r\<in>set rs. \<exists>s. symbol_value ex m0 nsec addrs symtab symstr (r_info m0 rel r div 256) = Inr s
      \<and> r_info m0 rel r mod 256 \<in> {1, 2, 4} \<and> r_offset m0 rel r < sh_size m0 sh t
      \<and> ld32 m' (rel_place m0 addrs t rel r) = rel_word m0 addrs t rel r s (ld32 m (rel_place m0 addrs t rel r)))
    \<and> (\<forall>x. (\<forall>r\<in>set rs. x < rel_place m0 addrs t rel r \<or> rel_place m0 addrs t rel r + 4 \<le> x) \<longrightarrow> m' x = m x)"
  using eq tb(2) ap a
proof (induction rs arbitrary: m)
  case (Cons r rs)
  let ?P = "rel_place m0 addrs t rel"
  obtain m1 where m1: "apply_rel ex nsec addrs symtab nsyms symstr sh t rel r m = (None, m1)"
    and rest: "apply_rels ex nsec addrs symtab nsyms symstr sh t rel rs m1 = (None, m')"
    using Cons.prems(5) by (auto split: prod.splits option.splits)
  obtain s where s: "symbol_value ex m0 nsec addrs symtab symstr (r_info m0 rel r div 256) = Inr s"
    "r_info m0 rel r mod 256 \<in> {1, 2, 4}" "r_offset m0 rel r < sh_size m0 sh t"
    "m1 = st32 m (?P r) (rel_word m0 addrs t rel r s (ld32 m (?P r)))"
    using apply_rel_law [OF Cons.prems(1) tb(1) _ t(1,3) m1] Cons.prems(2) by auto
  have lo: "lo \<le> ?P r" using t(2) by (simp add: rel_place_def)
  have e1: "\<forall>x<lo. m1 x = m0 x" using Cons.prems(1) lo unfolding s(4) by (auto simp: st32_outside)
  have IH: "(\<forall>r\<in>set rs. \<exists>s. symbol_value ex m0 nsec addrs symtab symstr (r_info m0 rel r div 256) = Inr s
      \<and> r_info m0 rel r mod 256 \<in> {1, 2, 4} \<and> r_offset m0 rel r < sh_size m0 sh t
      \<and> ld32 m' (?P r) = rel_word m0 addrs t rel r s (ld32 m1 (?P r)))
    \<and> (\<forall>x. (\<forall>r\<in>set rs. x < ?P r \<or> ?P r + 4 \<le> x) \<longrightarrow> m' x = m1 x)"
    by (rule Cons.IH [OF e1 _ _ _ rest]) (use Cons.prems in auto)
  have far: "apart (?P r) (?P r')" if "r' \<in> set rs" for r' using Cons.prems(3,4) that by auto
  have same: "ld32 m1 (?P r') = ld32 m (?P r')" if "r' \<in> set rs" for r'
    using far [OF that] unfolding s(4) by (auto simp: apart_def intro: ld32_st32_other)
  have "ld32 m' (?P r) = ld32 m1 (?P r)"
  proof (rule ld32_cong)
    fix i assume "?P r \<le> i" "i < ?P r + 4"
    then have "\<forall>r'\<in>set rs. i < ?P r' \<or> ?P r' + 4 \<le> i" using far by (fastforce simp: apart_def)
    then show "m' i = m1 i" using IH by blast
  qed
  also have "\<dots> = rel_word m0 addrs t rel r s (ld32 m (?P r))" unfolding s(4) by (rule ld32_st32_same [OF rel_word_less])
  finally have "ld32 m' (?P r) = rel_word m0 addrs t rel r s (ld32 m (?P r))" .
  moreover have "m' x = m x" if "\<forall>r'\<in>set (r # rs). x < ?P r' \<or> ?P r' + 4 \<le> x" for x
    using that IH unfolding s(4) by (auto simp: st32_outside)
  ultimately show ?case using IH s(1-3) same by (metis set_ConsD)
qed simp

subsection \<open>Properties\<close>

text \<open>Loading is stack-disciplined: whatever the program does, the break is afterwards where it was before. The list of
  exit handlers is not: no handler is left after a program ran, so one that runs inside another program takes its
  handlers with it.\<close>

lemma elf_run_frees_region:
  "elf_run ex code fuel frame img sz path args st = Some (rc, st') \<Longrightarrow> program_brk st' = program_brk (elf_program_init st)"
  by (auto simp: elf_run_def Let_def split: prod.splits sum.splits if_splits option.splits)

lemma elf_run_takes_handlers:
  "elf_run ex code fuel frame img sz path args st = Some (0, st') \<Longrightarrow> atexit_funcs st' = []"
  by (auto simp: elf_run_def run_program_def Let_def dest!: run_atexit_empties split: prod.splits sum.splits if_splits option.splits)

text \<open>C20. Placing the sections of an object whose image lies below the program break, and whose sections with their
  alignment fit into the address space above it: nothing outside the new part of the program region changes; every
  allocatable section lies inside it, behind the sections before it, with the bytes of the file, or, when it has at
  least 256 KiB, is used in place in the file image; a section without contents is cleared, but for the second
  and third byte of a rest that is not a whole word, which keep what was in memory before.\<close>

theorem elf_sections_placed:
  assumes "place_sections m sh img sz [0..<n] [] brk = (Inr (addrs, cur), m')"
    and "0 < img" "img + sz \<le> brk" "sh + 40 * n \<le> brk" "\<forall>i<n. sane_section m sh i" "brk + (\<Sum>i=0..<n. room m sh i) < 4294967296"
  shows "brk \<le> cur \<and> (\<forall>x. x < brk \<or> cur \<le> x \<longrightarrow> m' x = m x) \<and> length addrs = n
    \<and> (\<forall>i<n. section_ok m sh img sz m' brk cur i (addrs ! i))
    \<and> (\<forall>i k. i < k \<and> k < n \<and> moved m sh sz i \<and> moved m sh sz k \<longrightarrow> addrs ! i + sh_size m sh i \<le> addrs ! k)"
  using place_sections_law [OF assms(1) _ _ _ order_refl assms(2-6)] by auto

text \<open>An object with one cleared section of seven bytes, in a memory full of other bytes.\<close>

definition bss_object :: mem where
  "bss_object = st32 (st32 (st32 (st32 (st32 (\<lambda>_. CHR ''x'') 4100 8) 4104 2) 4112 0) 4116 7) 4128 4"

lemma bss_object_fields:
  "sh_type bss_object 4096 0 = 8" "sh_flags bss_object 4096 0 = 2" "sh_offset bss_object 4096 0 = 0" "sh_size bss_object 4096 0 = 7"
  "sh_addralign bss_object 4096 0 = 4"
  by (simp_all add: bss_object_def mem_simps)

lemma bss_object_placed: "place_sections bss_object 4096 4000 136 [0..<1] [] 8192 = (Inr ([8192], 8199), zero_from bss_object 8192 7 0)"
proof -
  have "align_up 8192 4 = 8192" by (simp add: align_up_def)
  then show ?thesis using bss_object_fields by (simp add: place_section_def)
qed

theorem elf_sections_placed_witness:
  "\<exists>m'. place_sections bss_object 4096 4000 136 [0..<1] [] 8192 = (Inr ([8192], 8199), m')
     \<and> m' 8195 = NUL \<and> m' 8196 = NUL \<and> m' 8197 = CHR ''x'' \<and> m' 8198 = CHR ''x''"
proof -
  let ?m' = "zero_from bss_object 8192 7 0"
  have "\<forall>i<1. section_ok bss_object 4096 4000 136 ?m' 8192 8199 i ([8192] ! i)"
    using elf_sections_placed [OF bss_object_placed] bss_object_fields by (simp add: sane_section_def room_def)
  then have z: "\<forall>j<7. ?m' (8192 + j) = (if cleared 7 j then NUL else bss_object (8192 + j))"
    using bss_object_fields by (simp add: section_ok_def in_place_def Let_def)
  have "bss_object x = CHR ''x''" if "8192 \<le> x" for x using that by (auto simp: bss_object_def st32_outside)
  moreover have "cleared 7 3" "cleared 7 4" "\<not> cleared 7 5" "\<not> cleared 7 6" by (simp_all add: cleared_def)
  ultimately show ?thesis
    using bss_object_placed spec [OF z, of 3] spec [OF z, of 4] spec [OF z, of 5] spec [OF z, of 6] by simp
qed


text \<open>An object with one absolute relocation against a symbol of fixed value.\<close>

definition rel_object :: mem where
  "rel_object = st32 (st32 (st32 (st32 (st32 (st32 ((\<lambda>_. NUL)(4214 := CHR 0xF1, 4215 := CHR 0xFF)) 4116 8) 4200 0) 4204 4096) 4300 0) 4304 1) 8192 20"

lemma rel_object_fields:
  "sh_size rel_object 4096 0 = 8" "st_value rel_object 4200 0 = 4096" "st_shndx rel_object 4200 0 = 65521" "r_offset rel_object 4300 0 = 0"
  "r_info rel_object 4300 0 = 1" "ld32 rel_object 8192 = 20" "st_name rel_object 4200 0 = 0"
proof -
  show "sh_size rel_object 4096 0 = 8" "st_value rel_object 4200 0 = 4096" "r_offset rel_object 4300 0 = 0"
    "r_info rel_object 4300 0 = 1" "ld32 rel_object 8192 = 20" "st_name rel_object 4200 0 = 0"
    by (simp_all add: rel_object_def mem_simps)
  have "rel_object 4214 = CHR 0xF1" "rel_object 4215 = CHR 0xFF" by (simp_all add: rel_object_def st32_outside)
  then show "st_shndx rel_object 4200 0 = 65521" by (simp add: ld16_def)
qed


end
