(* ===== verification/NetWire.thy ===== *)
theory NetWire
  imports Prelude
begin

section \<open>Numbers, checksums and addresses on the wire (kernel/net.c)\<close>

text \<open>
  Big-endian numbers, the Internet checksum and the text form of addresses. A buffer that is read is a function from
  offsets to bytes (\<^term>\<open>(!) p\<close> for a list \<open>p\<close>); what a sequence of stores writes into a buffer is the list of the
  bytes, put in place by \<open>patch\<close>. Addresses and sequence numbers are \<^typ>\<open>32 word\<close>, ports and lengths natural numbers.

  The lemmas show that reading inverts writing, that a checksum that was stored verifies, and that parsing a dotted
  quad inverts printing it.
\<close>

subsection \<open>Numbers\<close>

abbreviation byte_of :: "nat \<Rightarrow> byte" where "byte_of n \<equiv> char_of n"
abbreviation nat_at :: "(nat \<Rightarrow> byte) \<Rightarrow> nat \<Rightarrow> nat" where "nat_at p i \<equiv> of_char (p i)"

definition rd16 :: "(nat \<Rightarrow> byte) \<Rightarrow> nat \<Rightarrow> nat" where
  "rd16 p i = 256 * nat_at p i + nat_at p (i + 1)"

definition rd32 :: "(nat \<Rightarrow> byte) \<Rightarrow> nat \<Rightarrow> 32 word" where
  "rd32 p i = of_nat (16777216 * nat_at p i + 65536 * nat_at p (i + 1) + 256 * nat_at p (i + 2) + nat_at p (i + 3))"

definition wr16 :: "nat \<Rightarrow> bytes" where
  "wr16 v = [byte_of (v div 256), byte_of v]"

definition wr32 :: "32 word \<Rightarrow> bytes" where
  "wr32 v = [byte_of (unat v div 16777216), byte_of (unat v div 65536), byte_of (unat v div 256), byte_of (unat v)]"

definition patch :: "nat \<Rightarrow> bytes \<Rightarrow> bytes \<Rightarrow> bytes" where
  "patch off bs buf = take off buf @ bs @ drop (off + length bs) buf"

subsection \<open>The Internet checksum\<close>

fun csum_add :: "nat \<Rightarrow> bytes \<Rightarrow> nat" where
  "csum_add s [] = s"
| "csum_add s [a] = u32 (s + 256 * of_char a)"
| "csum_add s (a # b # p) = csum_add (u32 (s + (256 * of_char a + of_char b))) p"

lemma fold_less: "n div 65536 \<noteq> 0 \<Longrightarrow> n mod 65536 + n div 65536 < (n :: nat)"
  using div_mult_mod_eq [of n 65536] by linarith

function csum_fin :: "nat \<Rightarrow> nat" where
  "csum_fin s = (if s div 65536 \<noteq> 0 then csum_fin (s mod 65536 + s div 65536) else 65535 - s)"
  by pat_completeness auto
termination
  by (relation "measure id") (use fold_less in auto)

declare csum_fin.simps [simp del]

subsection \<open>Addresses as text\<close>

abbreviation digit_of :: "nat \<Rightarrow> byte" where "digit_of d \<equiv> char_of (48 + d)"
abbreviation is_digit_byte :: "byte \<Rightarrow> bool" where "is_digit_byte c \<equiv> 48 \<le> (of_char c :: nat) \<and> (of_char c :: nat) \<le> 57"

definition dec_byte :: "nat \<Rightarrow> bytes" where
  "dec_byte b = (if b \<ge> 100 then [digit_of (b div 100)] else []) @ (if b \<ge> 10 then [digit_of (b div 10 mod 10)] else []) @ [digit_of (b mod 10)]"

definition ip_byte :: "32 word \<Rightarrow> nat \<Rightarrow> nat" where
  "ip_byte ip i = unat (drop_bit (i * 8) ip AND 255)"

definition ip_str :: "32 word \<Rightarrow> bytes" where
  "ip_str ip = concat (map (\<lambda>i. dec_byte (ip_byte ip i) @ (if i \<noteq> 0 then ''.'' else [])) [3, 2, 1, 0])"

fun dotted_loop :: "bytes \<Rightarrow> 32 word \<Rightarrow> nat \<Rightarrow> int \<Rightarrow> 32 word option" where
  "dotted_loop [] v parts cur =
     (if cur < 0 then None else if parts + 1 \<noteq> 4 then None else Some (push_bit 8 v OR of_int cur))"
| "dotted_loop (c # s) v parts cur =
     (if is_digit_byte c then
        let cur = (if cur < 0 then 0 else cur) * 10 + (int (of_char c) - 48)
        in if cur > 255 then None else dotted_loop s v parts cur
      else if c = CHR ''.'' then
        if cur < 0 then None else dotted_loop s (push_bit 8 v OR of_int cur) (parts + 1) (- 1)
      else None)"

definition parse_dotted :: "bytes \<Rightarrow> 32 word option" where
  "parse_dotted s = dotted_loop s 0 0 (- 1)"

section \<open>Reading what was written\<close>

lemma rd16_wr16: "p i = wr16 v ! 0 \<Longrightarrow> p (i + 1) = wr16 v ! 1 \<Longrightarrow> rd16 p i = v mod 65536"
  using mod_mult2_eq [of v 256 256] by (simp add: rd16_def wr16_def)

lemma rd16_less: "rd16 p i < 65536"
  using of_char_less [of "p i"] of_char_less [of "p (i + 1)"] unfolding rd16_def by linarith

lemma rd32_wr32:
  assumes "\<And>k. k < 4 \<Longrightarrow> p (i + k) = wr32 v ! k"
  shows "rd32 p i = v"
proof -
  have p: "p i = wr32 v ! 0" "p (i + 1) = wr32 v ! 1" "p (i + 2) = wr32 v ! 2" "p (i + 3) = wr32 v ! 3"
    using assms [of 0] assms [of 1] assms [of 2] assms [of 3] by auto
  have "unat v < 4294967296" using unsigned_less [of v] by simp
  then have "16777216 * (unat v div 16777216 mod 256) + 65536 * (unat v div 65536 mod 256) + 256 * (unat v div 256 mod 256)
      + unat v mod 256 = unat v" using le32_split [of "unat v"] by simp
  then have "rd32 p i = of_nat (unat v)" unfolding rd32_def p wr32_def by (simp only: of_char_of nth_Cons_0 nth_Cons_Suc One_nat_def numeral_2_eq_2 numeral_3_eq_3)
  then show ?thesis by simp
qed

lemma length_patch [simp]: "off + length bs \<le> length buf \<Longrightarrow> length (patch off bs buf) = length buf"
  by (simp add: patch_def)

lemma nth_patch:
  "off + length bs \<le> length buf \<Longrightarrow> i < length buf \<Longrightarrow>
     patch off bs buf ! i = (if off \<le> i \<and> i < off + length bs then bs ! (i - off) else buf ! i)"
  by (auto simp: patch_def nth_append)

lemma length_wr [simp]: "length (wr16 v) = 2" "length (wr32 w) = 4"
  by (simp_all add: wr16_def wr32_def)

lemma rd16_mid: "v < 65536 \<Longrightarrow> length a = i \<Longrightarrow> rd16 ((!) (a @ wr16 v @ b)) i = v"
  using rd16_wr16 [of "(!) (a @ wr16 v @ b)" i v] by (simp add: nth_append wr16_def)

lemma rd32_mid: "length a = i \<Longrightarrow> rd32 ((!) (a @ wr32 v @ b)) i = v"
  by (rule rd32_wr32) (simp add: nth_append)

subsection \<open>The checksum verifies\<close>

lemma csum_fin_le: "csum_fin s \<le> 65535"
  by (induction s rule: csum_fin.induct) (subst csum_fin.simps, auto)

text \<open>Folding keeps the residue modulo 65535 and never turns a positive sum into zero.\<close>

lemma csum_fin_residue: "0 < s \<Longrightarrow> (s + csum_fin s) mod 65535 = 0 \<and> csum_fin s < 65535"
proof (induction s rule: csum_fin.induct)
  case (1 s)
  have e: "csum_fin s = (if s div 65536 \<noteq> 0 then csum_fin (s mod 65536 + s div 65536) else 65535 - s)" by (rule csum_fin.simps)
  show ?case
  proof (cases "s div 65536 = 0")
    case True
    then have "csum_fin s = 65535 - s" "s < 65536" using e by auto
    then show ?thesis using 1(2) by simp
  next
    case False
    let ?t = "s mod 65536 + s div 65536"
    have IH: "(?t + csum_fin ?t) mod 65535 = 0 \<and> csum_fin ?t < 65535" using 1(1) [OF False] False by simp
    have "s + csum_fin ?t = (?t + csum_fin ?t) + 65535 * (s div 65536)" using div_mult_mod_eq [of s 65536] by linarith
    then have "(s + csum_fin ?t) mod 65535 = (?t + csum_fin ?t) mod 65535" by (metis mod_mult_self2)
    then show ?thesis using IH False e by simp
  qed
qed

lemma csum_fin_zero: "0 < s \<Longrightarrow> s mod 65535 = 0 \<Longrightarrow> csum_fin s = 0"
  using csum_fin_residue [of s] by (metis add_0 mod_add_left_eq mod_less)

text \<open>Without wrap-around of the 32-bit accumulator the sum is the sum of the big-endian words.\<close>

fun word_sum :: "bytes \<Rightarrow> nat" where
  "word_sum [] = 0"
| "word_sum [a] = 256 * of_char a"
| "word_sum (a # b # p) = 256 * of_char a + of_char b + word_sum p"

lemma word_sum_le: "word_sum p \<le> 65535 * length p"
proof (induction p rule: word_sum.induct)
  case (2 a)
  have "256 * of_char a \<le> (65535 :: nat)" using of_char_less [of a] by linarith
  then show ?case by simp
next
  case (3 a b p)
  have "256 * of_char a + of_char b \<le> (65535 :: nat)" using of_char_less [of a] of_char_less [of b] by linarith
  then show ?case using 3 by simp
qed simp

lemma csum_add_sum: "s + word_sum p < 4294967296 \<Longrightarrow> csum_add s p = s + word_sum p"
  by (induction s p rule: csum_add.induct) (auto simp: ac_simps)

lemma word_sum_append: "even (length p) \<Longrightarrow> word_sum (p @ q) = word_sum p + word_sum q"
  by (induction p rule: word_sum.induct) auto

lemma word_sum_wr16: "v < 65536 \<Longrightarrow> word_sum (wr16 v @ q) = v + word_sum q"
  using mod_mult2_eq [of v 256 256] by (simp add: wr16_def)

lemma word_sum_wr16_only [simp]: "v < 65536 \<Longrightarrow> word_sum (wr16 v) = v"
  using word_sum_wr16 [of v "[]"] by simp

text \<open>A packet whose checksum field at an even offset was zero verifies once the checksum is stored there; the sum may
  start with that of a pseudo header.\<close>

lemma stored_checksum_verifies:
  assumes "even (length a)" "s + 65535 * (length a + length b + 2) < 4294967296 - 65536" "0 < s + word_sum (a @ wr16 0 @ b)"
  shows "csum_fin (csum_add s (a @ wr16 (csum_fin (csum_add s (a @ wr16 0 @ b))) @ b)) = 0"
proof -
  let ?S = "s + word_sum (a @ wr16 0 @ b)" and ?c = "csum_fin (csum_add s (a @ wr16 0 @ b))"
  have le: "word_sum a \<le> 65535 * length a" "word_sum b \<le> 65535 * length b" by (rule word_sum_le)+
  have z: "word_sum (a @ wr16 0 @ b) = word_sum a + word_sum b" using assms(1) by (simp add: word_sum_append word_sum_wr16)
  have c: "?c = csum_fin ?S" using csum_add_sum [of s "a @ wr16 0 @ b"] le z assms(2) by simp
  have c': "?c < 65536" using csum_fin_le [of "csum_add s (a @ wr16 0 @ b)"] by simp
  then have e: "csum_add s (a @ wr16 ?c @ b) = ?S + ?c"
    using csum_add_sum [of s "a @ wr16 ?c @ b"] le z assms(1,2) by (simp add: word_sum_append word_sum_wr16)
  have "csum_fin (?S + csum_fin ?S) = 0" by (rule csum_fin_zero) (use csum_fin_residue [OF assms(3)] assms(3) in auto)
  then show ?thesis unfolding e unfolding c .
qed

subsection \<open>Dotted quads\<close>

lemma dotted_loop_digit:
  "d < 10 \<Longrightarrow> dotted_loop (digit_of d # s) v parts cur =
     (let cur = (if cur < 0 then 0 else cur) * 10 + int d in if cur > 255 then None else dotted_loop s v parts cur)"
  by (simp add: Let_def)

lemma dotted_loop_byte: "b < 256 \<Longrightarrow> dotted_loop (dec_byte b @ s) v parts (- 1) = dotted_loop s v parts (int b)"
proof -
  assume b: "b < 256"
  note [simp del] = dotted_loop.simps
  consider "b < 10" | "10 \<le> b" "b < 100" | "100 \<le> b" by linarith
  then show ?thesis
  proof cases
    case 1
    then show ?thesis by (simp add: dec_byte_def dotted_loop_digit)
  next
    case 2
    then have "b div 10 < 10" "b div 10 mod 10 = b div 10" by simp_all
    moreover have "int (b div 10) * 10 + int (b mod 10) = int b" by (simp add: of_nat_div of_nat_mod)
    ultimately show ?thesis using 2 by (simp add: dec_byte_def dotted_loop_digit Let_def)
  next
    case 3
    have e: "(b div 100 * 10 + b div 10 mod 10) * 10 + b mod 10 = b" "b div 100 * 10 + b div 10 mod 10 = b div 10"
      using div_mult_mod_eq [of b 10] div_mult_mod_eq [of "b div 10" 10] by (simp_all add: div_mult2_eq [symmetric])
    then have "(int (b div 100) * 10 + int (b div 10 mod 10)) * 10 + int (b mod 10) = int b"
      "int (b div 100) * 10 + int (b div 10 mod 10) = int (b div 10)" by (metis of_nat_add of_nat_mult of_nat_numeral)+
    moreover have "b div 100 < 10" "int (b div 10) \<le> 255" "int (b div 100) \<le> 255" "int b \<le> 255" using b by (auto simp: zdiv_int)
    ultimately show ?thesis using 3 b by (simp add: dec_byte_def dotted_loop_digit Let_def del: of_nat_div of_nat_mod)
  qed
qed

lemma ip_byte_less: "ip_byte ip i < 256"
proof -
  have "ip_byte ip i \<le> unat (255 :: 32 word)" unfolding ip_byte_def by (rule word_and_le1 [THEN word_le_nat_alt [THEN iffD1]])
  then show ?thesis by simp
qed

lemma ip_byte_word: "of_nat (ip_byte ip i) = take_bit 8 (drop_bit (i * 8) ip)"
  by (simp add: ip_byte_def take_bit_eq_mask mask_eq_exp_minus_1)

lemma ip_bytes_join:
  "push_bit 8 (push_bit 8 (push_bit 8 (of_nat (ip_byte ip 3)) OR of_nat (ip_byte ip 2)) OR of_nat (ip_byte ip 1)) OR of_nat (ip_byte ip 0) = ip"
proof (rule bit_word_eqI)
  fix n :: nat
  assume n: "n < LENGTH(32)"
  consider "n < 8" | "8 \<le> n" "n < 16" | "16 \<le> n" "n < 24" | "24 \<le> n" by linarith
  then show "bit (push_bit 8 (push_bit 8 (push_bit 8 (of_nat (ip_byte ip 3)) OR of_nat (ip_byte ip 2)) OR of_nat (ip_byte ip 1))
      OR of_nat (ip_byte ip 0) :: 32 word) n = bit ip n"
    unfolding ip_byte_word by cases (use n in \<open>auto simp: bit_simps\<close>)
qed

text \<open>Parsing the dotted form of an address gives the address back, for all addresses.\<close>

theorem parse_ip_str: "parse_dotted (ip_str ip) = Some ip"
proof -
  have "ip_str ip = dec_byte (ip_byte ip 3) @ CHR ''.'' # dec_byte (ip_byte ip 2) @ CHR ''.'' # dec_byte (ip_byte ip 1) @ CHR ''.''
      # dec_byte (ip_byte ip 0) @ []"
    by (simp add: ip_str_def)
  then show ?thesis using ip_bytes_join [of ip] unfolding parse_dotted_def by (simp add: dotted_loop_byte [OF ip_byte_less] dotted_loop_byte [OF ip_byte_less, where s = "[]", simplified])
qed
end
