(* ===== verification/NetStack.thy ===== *)
theory NetStack
  imports NetWire
begin

section \<open>The network stack (kernel/net.c)\<close>

text \<open>
  ARP, IPv4, ICMP echo, UDP and the single-connection TCP client, all driven by polling the network card. The static
  variables of net.c are the fields of \<open>net\<close>; \<open>tc\<close> is its TCP connection.

  Sending a packet may wait for an ARP answer and poll the card while it waits, so handling one frame can handle others
  in between, and so on. The operations that may poll therefore take the poll function as their first argument, and
  \<open>net_poll_inner\<close> ties the knot: its first argument bounds how deep polls nest (\<open>net_stuck\<close> records that the bound was
  reached; the code has no bound but the stack). The buffers \<^verbatim>\<open>seg\<close>, \<^verbatim>\<open>r\<close> and \<^verbatim>\<open>d\<close> that such operations fill before they wait are
  static in the code and so are fields here, and \<open>ip_send\<close> reads its data after waiting, as the code does.

  The card and the clock are scripts: \<open>nic_rx\<close> has what the successive calls of \<^verbatim>\<open>recv\<close> return (an empty list where there is
  no frame), \<open>nic_sent\<close> the frames handed to \<^verbatim>\<open>send\<close>, \<open>nic_rc\<close> the result of the n-th one. Time passes in \<^verbatim>\<open>hlt\<close>: \<open>naps\<close>
  has the milliseconds of the successive sleeps, \<open>link_up\<close> the successive answers about the cable, and \<open>max_naps\<close> bounds the sleeps of one wait (\<open>net_stuck\<close> again).
\<close>

datatype tcp_state = TS_CLOSED | TS_SYN_SENT | TS_ESTAB | TS_CLOSE_WAIT

abbreviation (input) T_RING :: nat where "T_RING \<equiv> 1048576"

record arp_entry =
  arp_ip :: "32 word"
  arp_mac :: bytes
  arp_ok :: bool

record tcb =
  ts :: tcp_state
  rip :: "32 word"
  rport :: nat
  lport :: nat
  snd_una :: "32 word"
  snd_nxt :: "32 word"
  rcv_nxt :: "32 word"
  mss :: nat
  fin :: bool
  rst :: bool
  ring :: "nat \<Rightarrow> byte"
  rhead :: nat
  rtail :: nat
  rcount :: nat

record net =
  nic_ok :: bool
  nic_mac :: bytes
  nic_rx :: "bytes list"
  nic_sent :: "bytes list"
  nic_rc :: "nat \<Rightarrow> int"
  uptime :: "32 word"
  naps :: "nat list"
  max_naps :: nat
  st_rx :: "32 word"
  st_tx :: "32 word"
  st_txerr :: "32 word"
  cfg_ip :: "32 word"
  cfg_mask :: "32 word"
  cfg_gw :: "32 word"
  cfg_dns :: "32 word"
  arp_tab :: "nat \<Rightarrow> arp_entry"
  arp_next :: nat
  ip_id :: nat
  ping_got :: bool
  ping_seq :: nat
  us_port :: nat
  us_ready :: bool
  us_src :: "32 word"
  us_sport :: nat
  us_len :: nat
  us_buf :: mem
  tc :: tcb
  seg_buf :: bytes
  icmp_buf :: bytes
  udp_buf :: bytes
  in_dhcp :: bool
  last_link :: bool
  last_link_check :: "32 word"
  link_up :: "bool list"
  net_stuck :: bool

type_synonym poll = "net \<Rightarrow> net"

subsection \<open>Waiting\<close>

definition hlt :: "net \<Rightarrow> net" where
  "hlt s = (case naps s of [] \<Rightarrow> s\<lparr>uptime := uptime s + 1\<rparr> | n # ns \<Rightarrow> s\<lparr>uptime := uptime s + of_nat n, naps := ns\<rparr>)"

text \<open>The loops \<^verbatim>\<open>while (get_uptime_ms() - t0 < limit) { net_poll_inner(); if (done) ...; hlt; }\<close>: was the condition met in time?\<close>

primrec wait_for :: "nat \<Rightarrow> poll \<Rightarrow> (net \<Rightarrow> bool) \<Rightarrow> nat \<Rightarrow> 32 word \<Rightarrow> net \<Rightarrow> bool \<times> net" where
  "wait_for 0 poll cond limit t0 s = (False, s\<lparr>net_stuck := True\<rparr>)"
| "wait_for (Suc n) poll cond limit t0 s =
     (if uptime s - t0 < of_nat limit
      then let s = poll s in if cond s then (True, s) else wait_for n poll cond limit t0 (hlt s)
      else (False, s))"

subsection \<open>ARP and Ethernet\<close>

abbreviation BCAST :: bytes where "BCAST \<equiv> replicate 6 (CHR 0xFF)"

definition arp_find :: "32 word \<Rightarrow> net \<Rightarrow> nat option" where
  "arp_find ip s = find (\<lambda>i. arp_ok (arp_tab s i) \<and> arp_ip (arp_tab s i) = ip) [0..<8]"

definition arp_learn :: "32 word \<Rightarrow> bytes \<Rightarrow> net \<Rightarrow> net" where
  "arp_learn ip mac s =
     (case arp_find ip s of
        Some i \<Rightarrow> s\<lparr>arp_tab := (arp_tab s)(i := (arp_tab s i)\<lparr>arp_mac := mac\<rparr>)\<rparr>
      | None \<Rightarrow> s\<lparr>arp_tab := (arp_tab s)(arp_next s := \<lparr>arp_ip = ip, arp_mac = mac, arp_ok = True\<rparr>), arp_next := (arp_next s + 1) mod 8\<rparr>)"

definition arp_lookup :: "32 word \<Rightarrow> net \<Rightarrow> bytes option" where
  "arp_lookup ip s = map_option (\<lambda>i. arp_mac (arp_tab s i)) (arp_find ip s)"

definition eth_send :: "bytes \<Rightarrow> nat \<Rightarrow> bytes \<Rightarrow> net \<Rightarrow> int \<times> net" where
  "eth_send dst type payload s =
     (if \<not> nic_ok s \<or> length payload > 1500 then (- 1, s)
      else let r = nic_rc s (length (nic_sent s));
               s = s\<lparr>nic_sent := nic_sent s @ [dst @ nic_mac s @ wr16 type @ payload]\<rparr>
           in (r, if r = 0 then s\<lparr>st_tx := st_tx s + 1\<rparr> else s\<lparr>st_txerr := st_txerr s + 1\<rparr>))"

definition arp_send :: "nat \<Rightarrow> bytes option \<Rightarrow> 32 word \<Rightarrow> net \<Rightarrow> net" where
  "arp_send op tmac tip s =
     (let p = wr16 1 @ wr16 0x0800 @ [CHR 0x06, CHR 0x04] @ wr16 op @ nic_mac s @ wr32 (cfg_ip s)
              @ (case tmac of Some m \<Rightarrow> m | None \<Rightarrow> replicate 6 NUL) @ wr32 tip
      in snd (eth_send (if op = 1 then BCAST else the tmac) 0x0806 p s))"

definition arp_in :: "bytes \<Rightarrow> net \<Rightarrow> net" where
  "arp_in p s =
     (if length p < 28 \<or> rd16 ((!) p) 0 \<noteq> 1 \<or> rd16 ((!) p) 2 \<noteq> 0x0800 then s
      else let op = rd16 ((!) p) 6; sip = rd32 ((!) p) 14; tip = rd32 ((!) p) 24; smac = take 6 (drop 8 p);
               s = (if sip \<noteq> 0 then arp_learn sip smac s else s)
           in if op = 1 \<and> cfg_ip s \<noteq> 0 \<and> tip = cfg_ip s then arp_send 2 (Some smac) sip s else s)"

primrec arp_tries :: "nat \<Rightarrow> poll \<Rightarrow> 32 word \<Rightarrow> net \<Rightarrow> bytes option \<times> net" where
  "arp_tries 0 poll hop s = (None, s)"
| "arp_tries (Suc n) poll hop s =
     (let s = arp_send 1 None hop s in
      case wait_for (max_naps s) poll (\<lambda>s. arp_lookup hop s \<noteq> None) 300 (uptime s) s of
        (True, s) \<Rightarrow> (arp_lookup hop s, s)
      | (False, s) \<Rightarrow> arp_tries n poll hop s)"

definition arp_resolve :: "poll \<Rightarrow> 32 word \<Rightarrow> net \<Rightarrow> bytes option \<times> net" where
  "arp_resolve poll ip s =
     (if ip = 0xFFFFFFFF then (Some BCAST, s)
      else let hop = (if (ip XOR cfg_ip s) AND cfg_mask s = 0 then ip else cfg_gw s) in
      if hop = 0 then (None, s)
      else case arp_lookup hop s of
        Some m \<Rightarrow> (Some m, s)
      | None \<Rightarrow> arp_tries 4 poll hop s)"

subsection \<open>IPv4, ICMP and UDP\<close>

definition ip_packet :: "nat \<Rightarrow> nat \<Rightarrow> 32 word \<Rightarrow> 32 word \<Rightarrow> bytes \<Rightarrow> bytes" where
  "ip_packet proto ident src dst data =
     (let h = [CHR 0x45, NUL] @ wr16 (20 + length data) @ wr16 ident @ wr16 0x4000 @ [CHR 0x40, byte_of proto];
          a = wr32 src @ wr32 dst
      in h @ wr16 (csum_fin (csum_add 0 (h @ wr16 0 @ a))) @ a @ data)"

definition ip_send :: "poll \<Rightarrow> nat \<Rightarrow> 32 word \<Rightarrow> (net \<Rightarrow> bytes) \<Rightarrow> nat \<Rightarrow> net \<Rightarrow> int \<times> net" where
  "ip_send poll proto dst data len s =
     (if len > 1480 then (- 1, s)
      else case arp_resolve poll dst s of
        (None, s) \<Rightarrow> (- 1, s)
      | (Some mac, s) \<Rightarrow>
          let s = s\<lparr>ip_id := (ip_id s + 1) mod 65536\<rparr>
          in eth_send mac 0x0800 (ip_packet proto (ip_id s) (cfg_ip s) dst (take len (data s))) s)"

abbreviation (input) PING_ID :: nat where "PING_ID \<equiv> 0x544A"

definition echo_reply :: "bytes \<Rightarrow> bytes" where
  "echo_reply p =
     (let r = patch 2 (wr16 0) (patch 0 [NUL] p) in patch 2 (wr16 (csum_fin (csum_add 0 r))) r)"

definition icmp_in :: "poll \<Rightarrow> 32 word \<Rightarrow> bytes \<Rightarrow> net \<Rightarrow> net" where
  "icmp_in poll src p s =
     (if length p < 8 then s
      else if p ! 0 = CHR 0x08 \<and> cfg_ip s \<noteq> 0 then
        if length p > 1480 then s
        else snd (ip_send poll 1 src icmp_buf (length p) (s\<lparr>icmp_buf := patch 0 (echo_reply p) (icmp_buf s)\<rparr>))
      else if p ! 0 = NUL \<and> rd16 ((!) p) 4 = PING_ID \<and> rd16 ((!) p) 6 = ping_seq s then s\<lparr>ping_got := True\<rparr>
      else s)"

definition udp_send :: "poll \<Rightarrow> 32 word \<Rightarrow> nat \<Rightarrow> nat \<Rightarrow> bytes \<Rightarrow> net \<Rightarrow> int \<times> net" where
  "udp_send poll dst sport dport data s =
     (if length data > 1472 then (- 1, s)
      else ip_send poll 17 dst udp_buf (8 + length data)
             (s\<lparr>udp_buf := patch 0 (wr16 sport @ wr16 dport @ wr16 (8 + length data) @ wr16 0 @ data) (udp_buf s)\<rparr>))"

definition udp_in :: "32 word \<Rightarrow> bytes \<Rightarrow> net \<Rightarrow> net" where
  "udp_in src p s =
     (if length p < 8 \<or> us_ready s then s
      else if rd16 ((!) p) 2 \<noteq> us_port s \<or> us_port s = 0 then s
      else let n = rd16 ((!) p) 4 in
      if n < 8 \<or> n > length p then s
      else let n = min (n - 8) 600 in
           s\<lparr>us_buf := (\<lambda>i. if i < n then p ! (8 + i) else us_buf s i), us_len := n, us_src := src, us_sport := rd16 ((!) p) 0,
             us_ready := True\<rparr>)"

subsection \<open>TCP segments\<close>

text \<open>The bits of the flags: FIN 0, SYN 1, RST 2, PSH 3, ACK 4.\<close>

definition tcp_packet :: "32 word \<Rightarrow> tcb \<Rightarrow> 32 word \<Rightarrow> nat \<Rightarrow> bytes \<Rightarrow> bool \<Rightarrow> bytes" where
  "tcp_packet src t seq flags data mss_opt =
     (let hl = (if mss_opt then 24 else 20);
          pre = wr16 (lport t) @ wr16 (rport t) @ wr32 seq @ wr32 (if bit flags 4 then rcv_nxt t else 0)
                @ [byte_of (hl div 4 * 16), byte_of flags] @ wr16 (min 65535 (T_RING - rcount t));
          post = wr16 0 @ (if mss_opt then [CHR 0x02, CHR 0x04] @ wr16 1460 else []) @ data;
          ph = wr32 src @ wr32 (rip t) @ [NUL, CHR 0x06] @ wr16 (hl + length data)
      in pre @ wr16 (csum_fin (csum_add (csum_add 0 ph) (pre @ wr16 0 @ post))) @ post)"

definition tcp_tx :: "poll \<Rightarrow> 32 word \<Rightarrow> nat \<Rightarrow> bytes \<Rightarrow> bool \<Rightarrow> net \<Rightarrow> int \<times> net" where
  "tcp_tx poll seq flags data mss_opt s =
     (let n = (if mss_opt then 24 else 20) + length data in
      if n > 1480 then (- 1, s)
      else ip_send poll 6 (rip (tc s)) seg_buf n
             (s\<lparr>seg_buf := patch 0 (tcp_packet (cfg_ip s) (tc s) seq flags data mss_opt) (seg_buf s)\<rparr>))"

text \<open>The options of a SYN segment, from the offset \<open>o\<close> on.\<close>

function tcp_options :: "bytes \<Rightarrow> nat \<Rightarrow> nat \<Rightarrow> nat \<Rightarrow> nat" where
  "tcp_options p hl off m =
     (if off + 1 < hl then
        if p ! off = NUL then m
        else if p ! off = CHR 0x01 then tcp_options p hl (off + 1) m
        else let l = of_char (p ! (off + 1)) in
             if l < 2 \<or> off + l > hl then m
             else tcp_options p hl (off + l) (if p ! off = CHR 0x02 \<and> l = 4 then rd16 ((!) p) (off + 2) else m)
      else m)"
  by pat_completeness auto
termination
  by (relation "measure (\<lambda>(p, hl, off, m). hl - off)") auto

declare tcp_options.simps [simp del]

primrec ring_put :: "bytes \<Rightarrow> tcb \<Rightarrow> tcb" where
  "ring_put [] t = t"
| "ring_put (b # d) t = ring_put d (t\<lparr>ring := (ring t)(rhead t := b), rhead := (rhead t + 1) mod T_RING\<rparr>)"

definition take_data :: "bytes \<Rightarrow> tcb \<Rightarrow> tcb \<times> bool" where
  "take_data d t =
     (let n = min (length d) (T_RING - rcount t); t = ring_put (take n d) t
      in (t\<lparr>rcount := rcount t + n, rcv_nxt := rcv_nxt t + of_nat n\<rparr>, n < length d))"

text \<open>The data of a segment: the new state, and whether a FIN in the segment is out of order.\<close>

definition tcp_data :: "32 word \<Rightarrow> bytes \<Rightarrow> tcb \<Rightarrow> tcb \<times> bool" where
  "tcp_data seq d t =
     (if d = [] then (t, False)
      else if seq = rcv_nxt t then take_data d t
      else if sint (rcv_nxt t - seq) > 0 \<and> sint (seq + of_nat (length d) - rcv_nxt t) > 0
      then take_data (drop (unat (rcv_nxt t - seq)) d) t
      else (t, True))"

definition tcp_ack :: "32 word \<Rightarrow> tcb \<Rightarrow> tcb" where
  "tcp_ack ack t = (if sint (ack - snd_una t) > 0 \<and> sint (ack - snd_nxt t) \<le> 0 then t\<lparr>snd_una := ack\<rparr> else t)"

definition tcp_fin :: "tcb \<Rightarrow> tcb" where
  "tcp_fin t = t\<lparr>rcv_nxt := rcv_nxt t + 1, fin := True, ts := (if ts t = TS_ESTAB then TS_CLOSE_WAIT else ts t)\<rparr>"

text \<open>A segment of an open connection: must it be acknowledged, and the new state.\<close>

definition tcp_segment :: "32 word \<Rightarrow> 32 word \<Rightarrow> nat \<Rightarrow> bytes \<Rightarrow> tcb \<Rightarrow> bool \<times> tcb" where
  "tcp_segment seq ack fl d t =
     (let t = (if bit fl 4 then tcp_ack ack t else t); (t, no_fin) = tcp_data seq d t in
      if bit fl 0 \<and> \<not> no_fin \<and> seq + of_nat (length d) = rcv_nxt t then (True, tcp_fin t) else (d \<noteq> [], t))"

definition tcp_in :: "poll \<Rightarrow> 32 word \<Rightarrow> bytes \<Rightarrow> net \<Rightarrow> net" where
  "tcp_in poll src p s =
     (let t = tc s in
      if length p < 20 \<or> ts t = TS_CLOSED then s
      else if src \<noteq> rip t \<or> rd16 ((!) p) 0 \<noteq> rport t \<or> rd16 ((!) p) 2 \<noteq> lport t then s
      else let seq = rd32 ((!) p) 4; ack = rd32 ((!) p) 8; hl = of_char (p ! 12) div 16 * 4; fl = (of_char (p ! 13) :: nat) in
      if hl < 20 \<or> hl > length p then s
      else if bit fl 2 then s\<lparr>tc := t\<lparr>rst := True, ts := TS_CLOSED\<rparr>\<rparr>
      else if ts t = TS_SYN_SENT then
        if bit fl 1 \<and> bit fl 4 \<and> ack = snd_nxt t
        then snd (tcp_tx poll (snd_nxt t) 16 [] False
               (s\<lparr>tc := t\<lparr>rcv_nxt := seq + 1, snd_una := ack, mss := min 1460 (tcp_options p hl 20 536), ts := TS_ESTAB\<rparr>\<rparr>))
        else s
      else case tcp_segment seq ack fl (drop hl p) t of
        (need_ack, t) \<Rightarrow>
          if need_ack then snd (tcp_tx poll (snd_nxt t) 16 [] False (s\<lparr>tc := t\<rparr>)) else s\<lparr>tc := t\<rparr>)"

subsection \<open>Receiving frames\<close>

text \<open>The checks of an IP packet: protocol, source, destination and payload.\<close>

definition ip_parse :: "bytes \<Rightarrow> (nat \<times> 32 word \<times> 32 word \<times> bytes) option" where
  "ip_parse p =
     (if length p < 20 \<or> of_char (p ! 0) div 16 \<noteq> (4 :: nat) then None
      else let ihl = of_char (p ! 0) mod 16 * 4; tot = rd16 ((!) p) 2 in
      if ihl < 20 \<or> tot < ihl \<or> tot > length p then None
      else if rd16 ((!) p) 6 mod 16384 \<noteq> 0 then None
      else Some (of_char (p ! 9), rd32 ((!) p) 12, rd32 ((!) p) 16, take (tot - ihl) (drop ihl p)))"

definition ip_in :: "poll \<Rightarrow> bytes \<Rightarrow> net \<Rightarrow> net" where
  "ip_in poll p s =
     (case ip_parse p of
        None \<Rightarrow> s
      | Some (proto, src, dst, pl) \<Rightarrow>
          if cfg_ip s \<noteq> 0 \<and> dst \<noteq> cfg_ip s \<and> dst \<noteq> 0xFFFFFFFF then s
          else if proto = 1 then icmp_in poll src pl s
          else if proto = 6 then tcp_in poll src pl s
          else if proto = 17 then udp_in src pl s
          else s)"

definition frame_in :: "poll \<Rightarrow> bytes \<Rightarrow> net \<Rightarrow> net" where
  "frame_in poll f s =
     (if length f < 14 then s
      else let s = s\<lparr>st_rx := st_rx s + 1\<rparr>; type = rd16 ((!) f) 12 in
      if type = 0x0806 then arp_in (drop 14 f) s else if type = 0x0800 then ip_in poll (drop 14 f) s else s)"

primrec poll_frames :: "nat \<Rightarrow> poll \<Rightarrow> net \<Rightarrow> net" where
  "poll_frames 0 poll s = s"
| "poll_frames (Suc budget) poll s =
     (case nic_rx s of
        [] \<Rightarrow> s
      | f # fs \<Rightarrow>
          let s = s\<lparr>nic_rx := fs\<rparr> in if f = [] then s else poll_frames budget poll (frame_in poll (take 2048 f) s))"

primrec net_poll_inner :: "nat \<Rightarrow> net \<Rightarrow> net" where
  "net_poll_inner 0 s = s\<lparr>net_stuck := True\<rparr>"
| "net_poll_inner (Suc depth) s = (if nic_ok s then poll_frames 32 (net_poll_inner depth) s else s)"

subsection \<open>The TCP client\<close>

definition tcp_reset :: "32 word \<Rightarrow> nat \<Rightarrow> net \<Rightarrow> tcb" where
  "tcp_reset ip port s =
     (let iss = uptime s * 2654435761 + 0x1234567 in
      \<lparr>ts = TS_SYN_SENT, rip = ip, rport = port, lport = 49152 + unat (uptime s) mod 10000, snd_una = iss, snd_nxt = iss + 1,
       rcv_nxt = 0, mss = 0, fin = False, rst = False, ring = (\<lambda>_. NUL), rhead = 0, rtail = 0, rcount = 0\<rparr>)"

definition set_ts :: "tcp_state \<Rightarrow> net \<Rightarrow> net" where
  "set_ts st s = s\<lparr>tc := (tc s)\<lparr>ts := st\<rparr>\<rparr>"

abbreviation (input) NET_E_CONNECT :: int where "NET_E_CONNECT \<equiv> - 3"

primrec connect_tries :: "nat \<Rightarrow> poll \<Rightarrow> 32 word \<Rightarrow> net \<Rightarrow> int \<times> net" where
  "connect_tries 0 poll iss s = (NET_E_CONNECT, set_ts TS_CLOSED s)"
| "connect_tries (Suc n) poll iss s =
     (case tcp_tx poll iss 2 [] True s of
        (r, s) \<Rightarrow>
          if r \<noteq> 0 then (NET_E_CONNECT, set_ts TS_CLOSED s)
          else (case wait_for (max_naps s) poll (\<lambda>s. ts (tc s) = TS_ESTAB \<or> rst (tc s)) 1000 (uptime s) s of
                  (True, s) \<Rightarrow> (if ts (tc s) = TS_ESTAB then 0 else NET_E_CONNECT, s)
                | (False, s) \<Rightarrow> connect_tries n poll iss s))"

definition tcp_connect :: "poll \<Rightarrow> 32 word \<Rightarrow> nat \<Rightarrow> net \<Rightarrow> int \<times> net" where
  "tcp_connect poll ip port s =
     (let s = s\<lparr>tc := tcp_reset ip port s\<rparr> in connect_tries 4 poll (snd_una (tc s)) s)"

definition all_acked :: "net \<Rightarrow> bool" where
  "all_acked s \<longleftrightarrow> sint (snd_una (tc s) - snd_nxt (tc s)) \<ge> 0"

definition conn_dead :: "net \<Rightarrow> bool" where
  "conn_dead s \<longleftrightarrow> rst (tc s) \<or> ts (tc s) = TS_CLOSED"

text \<open>The attempts to send one segment: \<^term>\<open>None\<close> where \<open>tcp_send\<close> gives up, otherwise whether it was acknowledged.\<close>

primrec send_tries :: "nat \<Rightarrow> poll \<Rightarrow> 32 word \<Rightarrow> bytes \<Rightarrow> net \<Rightarrow> bool option \<times> net" where
  "send_tries 0 poll seq d s = (Some False, s)"
| "send_tries (Suc n) poll seq d s =
     (case tcp_tx poll seq 24 d False s of
        (r, s) \<Rightarrow>
          if r \<noteq> 0 then (None, s)
          else (case wait_for (max_naps s) poll (\<lambda>s. conn_dead s \<or> all_acked s) 500 (uptime s) s of
                  (True, s) \<Rightarrow> (if conn_dead s then None else Some True, s)
                | (False, s) \<Rightarrow> send_tries n poll seq d s))"

text \<open>\<open>tcp_send\<close> has no bound on the number of segments: \<^term>\<open>None\<close> when the first argument is used up.\<close>

primrec tcp_send :: "nat \<Rightarrow> poll \<Rightarrow> bytes \<Rightarrow> net \<Rightarrow> (int \<times> net) option" where
  "tcp_send 0 poll data s = None"
| "tcp_send (Suc fuel) poll data s =
     (if data = [] then Some (0, s)
      else let n = min (length data) (mss (tc s)); seq = snd_nxt (tc s);
               s = s\<lparr>tc := (tc s)\<lparr>snd_nxt := seq + of_nat n\<rparr>\<rparr> in
      case send_tries 6 poll seq (take n data) s of
        (Some True, s) \<Rightarrow> tcp_send fuel poll (drop n data) s
      | (_, s) \<Rightarrow> Some (- 1, s))"

primrec ring_get :: "nat \<Rightarrow> tcb \<Rightarrow> bytes \<times> tcb" where
  "ring_get 0 t = ([], t)"
| "ring_get (Suc n) t =
     (if rcount t = 0 then ([], t)
      else case ring_get n (t\<lparr>rtail := (rtail t + 1) mod T_RING, rcount := rcount t - 1\<rparr>) of
             (d, t') \<Rightarrow> (ring t (rtail t) # d, t'))"

text \<open>The result code of \<open>tcp_recv\<close> and the bytes it stored.\<close>

primrec tcp_recv_loop :: "nat \<Rightarrow> poll \<Rightarrow> nat \<Rightarrow> int \<Rightarrow> 32 word \<Rightarrow> net \<Rightarrow> int \<times> bytes \<times> net" where
  "tcp_recv_loop 0 poll cap timeout t0 s = (- 1, [], s\<lparr>net_stuck := True\<rparr>)"
| "tcp_recv_loop (Suc n) poll cap timeout t0 s =
     (let s = poll s in
      if rcount (tc s) \<noteq> 0 then
        let before = T_RING - rcount (tc s); (d, t) = ring_get cap (tc s); s = s\<lparr>tc := t\<rparr>;
            s = (if before < 2920 \<and> T_RING - rcount t \<ge> 2920 \<and> ts t \<noteq> TS_CLOSED then snd (tcp_tx poll (snd_nxt t) 16 [] False s) else s)
        in (int (length d), d, s)
      else if fin (tc s) then (0, [], s)
      else if rst (tc s) then (- 2, [], s)
      else if timeout > 0 \<and> sint (uptime s - t0) \<ge> timeout then (- 1, [], s)
      else tcp_recv_loop n poll cap timeout t0 (hlt s))"

definition tcp_recv :: "poll \<Rightarrow> nat \<Rightarrow> int \<Rightarrow> net \<Rightarrow> int \<times> bytes \<times> net" where
  "tcp_recv poll cap timeout s = tcp_recv_loop (max_naps s) poll cap timeout (uptime s) s"

definition tcp_close :: "poll \<Rightarrow> net \<Rightarrow> net" where
  "tcp_close poll s =
     set_ts TS_CLOSED
       (if ts (tc s) = TS_ESTAB \<or> ts (tc s) = TS_CLOSE_WAIT then
          let seq = snd_nxt (tc s); s = snd (tcp_tx poll seq 17 [] False (s\<lparr>tc := (tc s)\<lparr>snd_nxt := seq + 1\<rparr>\<rparr>))
          in snd (wait_for (max_naps s) poll all_acked 500 (uptime s) s)
        else s)"

end
