(* ===== verification/NetTcp.thy ===== *)
theory NetTcp
  imports NetStack "HOL-Library.Sublist"
begin

section \<open>What the TCP client delivers\<close>

text \<open>
  The locale \<open>tcp_frames\<close> is the contract between the TCP state machine and the rest of the stack: a property of the
  connection that segments of acceptable frames keep is kept by polling at any depth, by everything that waits, and
  by sending. It is interpreted twice: for the received stream and for the segment size.

  The main theorem says that the bytes a program receives are a prefix of the bytes the peer sent, however the frames
  are lost, repeated, reordered or resegmented, and that a clean end of file comes only after the last byte; a second
  one when sending returns.
\<close>

subsection \<open>Segments in frames\<close>

definition tcp_of :: "bytes \<Rightarrow> (32 word \<times> bytes) option" where
  "tcp_of f =
     (if length f < 14 \<or> rd16 ((!) f) 12 \<noteq> 0x0800 then None
      else case ip_parse (drop 14 f) of None \<Rightarrow> None | Some (proto, src, dst, pl) \<Rightarrow> if proto = 6 then Some (src, pl) else None)"

abbreviation tcp_hl :: "bytes \<Rightarrow> nat" where "tcp_hl p \<equiv> of_char (p ! 12) div 16 * 4"
abbreviation tcp_fl :: "bytes \<Rightarrow> nat" where "tcp_fl p \<equiv> of_char (p ! 13)"

text \<open>The segment belongs to the connection and its header is well formed.\<close>

definition for_conn :: "32 word \<Rightarrow> nat \<Rightarrow> nat \<Rightarrow> 32 word \<Rightarrow> bytes \<Rightarrow> bool" where
  "for_conn rip' rport' lport' src p \<longleftrightarrow>
     length p \<ge> 20 \<and> src = rip' \<and> rd16 ((!) p) 0 = rport' \<and> rd16 ((!) p) 2 = lport' \<and> 20 \<le> tcp_hl p \<and> tcp_hl p \<le> length p"

definition established :: "bytes \<Rightarrow> tcb \<Rightarrow> tcb" where
  "established p t =
     t\<lparr>rcv_nxt := rd32 ((!) p) 4 + 1, snd_una := rd32 ((!) p) 8, mss := min 1460 (tcp_options p (tcp_hl p) 20 536), ts := TS_ESTAB\<rparr>"

text \<open>What no operation but \<open>tcp_in\<close> and the calls of the program changes.\<close>

lemma same_conn [simp]:
  "tc (hlt s) = tc s" "nic_rx (hlt s) = nic_rx s"
  "tc (arp_learn ip m s) = tc s" "nic_rx (arp_learn ip m s) = nic_rx s"
  "tc (snd (eth_send d ty pl s)) = tc s" "nic_rx (snd (eth_send d ty pl s)) = nic_rx s"
  "tc (udp_in src p s) = tc s" "nic_rx (udp_in src p s) = nic_rx s"
  by (simp_all add: hlt_def arp_learn_def eth_send_def udp_in_def Let_def split: list.split option.split)

lemma same_conn_arp_send [simp]: "tc (arp_send op tm tip s) = tc s" "nic_rx (arp_send op tm tip s) = nic_rx s"
  by (simp_all add: arp_send_def Let_def)

lemma same_conn_arp_in [simp]: "tc (arp_in p s) = tc s" "nic_rx (arp_in p s) = nic_rx s"
  by (simp_all add: arp_in_def Let_def)

locale tcp_frames =
  fixes J :: "tcb \<Rightarrow> bool" and H :: "bytes \<Rightarrow> bool"
  assumes reset: "J t \<Longrightarrow> J (t\<lparr>rst := True, ts := TS_CLOSED\<rparr>)"
    and syn: "H f \<Longrightarrow> tcp_of f = Some (src, p) \<Longrightarrow> for_conn (rip t) (rport t) (lport t) src p \<Longrightarrow> J t \<Longrightarrow> ts t = TS_SYN_SENT
      \<Longrightarrow> bit (tcp_fl p) 1 \<Longrightarrow> rd32 ((!) p) 8 = snd_nxt t \<Longrightarrow> \<not> bit (tcp_fl p) 2 \<Longrightarrow> J (established p t)"
    and segment: "H f \<Longrightarrow> tcp_of f = Some (src, p) \<Longrightarrow> for_conn (rip t) (rport t) (lport t) src p \<Longrightarrow> J t \<Longrightarrow> ts t \<noteq> TS_SYN_SENT \<Longrightarrow> ts t \<noteq> TS_CLOSED
      \<Longrightarrow> \<not> bit (tcp_fl p) 2 \<Longrightarrow> J (snd (tcp_segment (rd32 ((!) p) 4) (rd32 ((!) p) 8) (tcp_fl p) (drop (tcp_hl p) p) t))"
    and close: "J t \<Longrightarrow> J (t\<lparr>ts := TS_CLOSED\<rparr>)"
    and sent: "J t \<Longrightarrow> J (t\<lparr>snd_nxt := x\<rparr>)"
begin

definition ok :: "net \<Rightarrow> bool" where
  "ok s \<longleftrightarrow> J (tc s) \<and> list_all (\<lambda>f. H (take 2048 f)) (nic_rx s)"

definition keeps :: "poll \<Rightarrow> bool" where
  "keeps poll \<longleftrightarrow> (\<forall>s. ok s \<longrightarrow> ok (poll s))"

lemma ok_same: "tc s' = tc s \<Longrightarrow> nic_rx s' = nic_rx s \<Longrightarrow> ok s' = ok s"
  by (simp add: ok_def)

lemma ok_wait_for: "keeps poll \<Longrightarrow> ok s \<Longrightarrow> ok (snd (wait_for n poll cond limit t0 s))"
proof (induction n arbitrary: s)
  case 0
  then show ?case using ok_same [of "s\<lparr>net_stuck := True\<rparr>" s] by simp
next
  case (Suc n)
  have "ok (poll s)" "ok (hlt (poll s))" using Suc.prems ok_same [of "hlt (poll s)" "poll s"] by (simp_all add: keeps_def)
  then show ?case using Suc by (simp add: Let_def)
qed

lemma ok_arp_tries: "keeps poll \<Longrightarrow> ok s \<Longrightarrow> ok (snd (arp_tries n poll hop s))"
proof (induction n arbitrary: s)
  case (Suc n)
  let ?s = "arp_send 1 None hop s"
  have "ok ?s" using Suc.prems(2) ok_same [of ?s s] by simp
  then have "ok (snd (wait_for (max_naps ?s) poll (\<lambda>s. arp_lookup hop s \<noteq> None) 300 (uptime ?s) ?s))"
    using ok_wait_for Suc.prems(1) by blast
  then show ?case using Suc by (auto simp: Let_def split: prod.splits bool.splits)
qed simp

lemma ok_arp_resolve: "keeps poll \<Longrightarrow> ok s \<Longrightarrow> ok (snd (arp_resolve poll ip s))"
  using ok_arp_tries [of poll] by (auto simp: arp_resolve_def Let_def split: option.splits)

lemma ok_ip_send:
  assumes "keeps poll" "ok s"
  shows "ok (snd (ip_send poll proto dst data len s))"
proof (cases "arp_resolve poll dst s")
  case (Pair r s1)
  have "ok s1" using ok_arp_resolve [OF assms, of dst] Pair by simp
  then have "ok (snd (eth_send m ty pl (s1\<lparr>ip_id := k\<rparr>)))" for m ty pl k
    using ok_same [of "snd (eth_send m ty pl (s1\<lparr>ip_id := k\<rparr>))" s1] by simp
  then show ?thesis using Pair assms(2) \<open>ok s1\<close> by (simp add: ip_send_def Let_def split: option.splits)
qed

lemma ok_buffers: "ok (s\<lparr>seg_buf := b\<rparr>) = ok s" "ok (s\<lparr>icmp_buf := b\<rparr>) = ok s" "ok (s\<lparr>udp_buf := b\<rparr>) = ok s" "ok (s\<lparr>ping_got := g\<rparr>) = ok s"
    "ok (s\<lparr>st_rx := c\<rparr>) = ok s"
  by (simp_all add: ok_def)

lemma ok_tcp_tx: "keeps poll \<Longrightarrow> ok s \<Longrightarrow> ok (snd (tcp_tx poll seq fl d mo s))"
  by (simp add: tcp_tx_def Let_def ok_ip_send ok_buffers)

lemma ok_udp_send: "keeps poll \<Longrightarrow> ok s \<Longrightarrow> ok (snd (udp_send poll dst sp dp d s))"
  by (simp add: udp_send_def ok_ip_send ok_buffers)

lemma ok_icmp_in: "keeps poll \<Longrightarrow> ok s \<Longrightarrow> ok (icmp_in poll src p s)"
  by (simp add: icmp_in_def ok_ip_send ok_buffers)

lemma ok_tcp_in:
  assumes poll: "keeps poll" and s: "ok s" and f: "H f" "tcp_of f = Some (src, p)"
  shows "ok (tcp_in poll src p s)"
proof -
  let ?t = "tc s" and ?seq = "rd32 ((!) p) 4" and ?ack = "rd32 ((!) p) 8"
  have J: "J ?t" and rx: "list_all (\<lambda>f. H (take 2048 f)) (nic_rx s)" using s by (auto simp: ok_def)
  have upd: "ok (s\<lparr>tc := t\<rparr>)" if "J t" for t using that rx by (simp add: ok_def)
  show ?thesis
  proof (cases "ts ?t \<noteq> TS_CLOSED \<and> for_conn (rip ?t) (rport ?t) (lport ?t) src p")
    case False
    then show ?thesis using s by (auto simp: tcp_in_def for_conn_def Let_def)
  next
    case True
    have e: "tcp_in poll src p s =
      (if bit (tcp_fl p) 2 then s\<lparr>tc := ?t\<lparr>rst := True, ts := TS_CLOSED\<rparr>\<rparr>
       else if ts ?t = TS_SYN_SENT then
         if bit (tcp_fl p) 1 \<and> bit (tcp_fl p) 4 \<and> ?ack = snd_nxt ?t
         then snd (tcp_tx poll (snd_nxt ?t) 16 [] False (s\<lparr>tc := established p ?t\<rparr>)) else s
       else case tcp_segment ?seq ?ack (tcp_fl p) (drop (tcp_hl p) p) ?t of
         (need_ack, t) \<Rightarrow> if need_ack then snd (tcp_tx poll (snd_nxt t) 16 [] False (s\<lparr>tc := t\<rparr>)) else s\<lparr>tc := t\<rparr>)"
      using True by (simp add: tcp_in_def for_conn_def established_def Let_def)
    have "J (snd (tcp_segment ?seq ?ack (tcp_fl p) (drop (tcp_hl p) p) ?t))" if "ts ?t \<noteq> TS_SYN_SENT" "\<not> bit (tcp_fl p) 2"
      using segment [OF f] True J that by blast
    moreover have "J (established p ?t)" if "ts ?t = TS_SYN_SENT" "bit (tcp_fl p) 1" "?ack = snd_nxt ?t" "\<not> bit (tcp_fl p) 2"
      using syn [OF f] True J that by blast
    ultimately show ?thesis unfolding e using s upd reset [OF J] ok_tcp_tx [OF poll] by (auto split: prod.splits)
  qed
qed

lemma ok_frame_in:
  assumes poll: "keeps poll" and s: "ok s" and f: "H f"
  shows "ok (frame_in poll f s)"
proof -
  have "ok (ip_in poll (drop 14 f) s')" if "ok s'" "14 \<le> length f" "rd16 ((!) f) 12 = 0x0800" for s'
    using that ok_icmp_in [OF poll] ok_tcp_in [OF poll that(1) f] ok_same [OF same_conn(7,8)]
    by (auto simp: ip_in_def tcp_of_def split: option.splits)
  moreover have "ok (arp_in p s') = ok s'" for p s' by (simp add: ok_def)
  ultimately show ?thesis using s by (auto simp: frame_in_def Let_def ok_buffers)
qed

lemma ok_poll_frames: "keeps poll \<Longrightarrow> ok s \<Longrightarrow> ok (poll_frames n poll s)"
proof (induction n arbitrary: s)
  case (Suc n)
  show ?case
  proof (cases "nic_rx s")
    case (Cons f fs)
    then have "ok (s\<lparr>nic_rx := fs\<rparr>)" "H (take 2048 f)" using Suc.prems(2) by (auto simp: ok_def)
    then show ?thesis using Suc Cons ok_frame_in [of poll] by (simp add: Let_def)
  qed (use Suc in simp)
qed simp

lemma ok_poll: "ok s \<Longrightarrow> ok (net_poll_inner depth s)"
proof (induction depth arbitrary: s)
  case 0
  then show ?case by (simp add: ok_def)
next
  case (Suc depth)
  then have "keeps (net_poll_inner depth)" by (simp add: keeps_def)
  then show ?case using ok_poll_frames Suc.prems by simp
qed

lemma keeps_poll: "keeps (net_poll_inner depth)"
  by (simp add: keeps_def ok_poll)

lemma ok_set_nxt: "ok s \<Longrightarrow> ok (s\<lparr>tc := (tc s)\<lparr>snd_nxt := x\<rparr>\<rparr>)"
  by (simp add: ok_def sent)

lemma ok_send_tries: "keeps poll \<Longrightarrow> ok s \<Longrightarrow> ok (snd (send_tries n poll seq d s))"
proof (induction n arbitrary: s)
  case (Suc n)
  obtain r s1 where t: "tcp_tx poll seq 24 d False s = (r, s1)" by fastforce
  then have "ok s1" using ok_tcp_tx [OF Suc.prems, of seq 24 d False] by simp
  obtain g s2 where w: "wait_for (max_naps s1) poll (\<lambda>s. conn_dead s \<or> all_acked s) 500 (uptime s1) s1 = (g, s2)" by fastforce
  then have "ok s2" using ok_wait_for [OF Suc.prems(1) \<open>ok s1\<close>] by (metis snd_conv)
  then have "ok (snd (send_tries n poll seq d s2))" using Suc.IH Suc.prems(1) by blast
  then show ?case using \<open>ok s1\<close> \<open>ok s2\<close> t w by (cases g) simp_all
qed simp

lemma ok_tcp_send: "keeps poll \<Longrightarrow> ok s \<Longrightarrow> tcp_send fuel poll d s = Some (r, s') \<Longrightarrow> ok s'"
proof (induction fuel arbitrary: d s)
  case (Suc fuel)
  let ?n = "min (length d) (mss (tc s))"
  let ?s = "s\<lparr>tc := (tc s)\<lparr>snd_nxt := snd_nxt (tc s) + of_nat ?n\<rparr>\<rparr>"
  obtain a s1 where a: "send_tries 6 poll (snd_nxt (tc s)) (take ?n d) ?s = (a, s1)" by fastforce
  then have "ok s1" using ok_send_tries [OF Suc.prems(1) ok_set_nxt [OF Suc.prems(2)], of 6 "snd_nxt (tc s)" "take ?n d" "snd_nxt (tc s) + of_nat ?n"] by simp
  show ?case
  proof (cases "d \<noteq> [] \<and> a = Some True")
    case True
    then have "tcp_send fuel poll (drop ?n d) s1 = Some (r, s')" using Suc.prems(3) a by (simp add: Let_def)
    then show ?thesis using Suc.IH [OF Suc.prems(1) \<open>ok s1\<close>] by blast
  next
    case False
    then have "s' = s \<or> s' = s1" using Suc.prems(3) a by (cases a) (auto simp: Let_def split: if_splits)
    then show ?thesis using Suc.prems(2) \<open>ok s1\<close> by blast
  qed
qed simp

lemma ok_closed: "ok s \<Longrightarrow> ok (set_ts TS_CLOSED s)"
  by (simp add: ok_def set_ts_def close)

lemma ok_tcp_close: "keeps poll \<Longrightarrow> ok s \<Longrightarrow> ok (tcp_close poll s)"
  unfolding tcp_close_def Let_def using ok_tcp_tx ok_wait_for ok_set_nxt ok_closed by simp

lemma ok_connect_tries: "keeps poll \<Longrightarrow> ok s \<Longrightarrow> ok (snd (connect_tries n poll iss s))"
proof (induction n arbitrary: s)
  case (Suc n)
  obtain r s1 where t: "tcp_tx poll iss 2 [] True s = (r, s1)" by fastforce
  then have "ok s1" using ok_tcp_tx [OF Suc.prems, of iss 2 "[]" True] by simp
  obtain g s2 where w: "wait_for (max_naps s1) poll (\<lambda>s. ts (tc s) = TS_ESTAB \<or> rst (tc s)) 1000 (uptime s1) s1 = (g, s2)" by fastforce
  then have "ok s2" using ok_wait_for [OF Suc.prems(1) \<open>ok s1\<close>] by (metis snd_conv)
  then have "ok (snd (connect_tries n poll iss s2))" using Suc.IH Suc.prems(1) by blast
  then show ?case using ok_closed [OF \<open>ok s1\<close>] \<open>ok s2\<close> t w by (cases g) simp_all
qed (simp add: ok_closed)

end

section \<open>The receive ring\<close>

definition ring_bytes :: "tcb \<Rightarrow> bytes" where
  "ring_bytes t = map (\<lambda>i. ring t ((rtail t + i) mod T_RING)) [0..<rcount t]"

definition ring_wf :: "tcb \<Rightarrow> bool" where
  "ring_wf t \<longleftrightarrow> rcount t \<le> T_RING \<and> rtail t < T_RING \<and> rhead t = (rtail t + rcount t) mod T_RING"

lemma length_ring_bytes [simp]: "length (ring_bytes t) = rcount t"
  by (simp add: ring_bytes_def)

lemma mod_add_neq:
  assumes "i < c" "c < m"
  shows "(a + i) mod m \<noteq> (a + c) mod (m :: nat)"
proof
  assume "(a + i) mod m = (a + c) mod m"
  then have "m dvd a + c - (a + i)" using assms by (metis add_le_cancel_left less_imp_le mod_eq_dvd_iff_nat)
  then have "m dvd c - i" by simp
  then show False using assms nat_dvd_not_less [of "c - i" m] by simp
qed

lemma ring_put_other [simp]:
  "rip (ring_put d t) = rip t" "rport (ring_put d t) = rport t" "lport (ring_put d t) = lport t" "ts (ring_put d t) = ts t"
  "fin (ring_put d t) = fin t" "rcv_nxt (ring_put d t) = rcv_nxt t" "rtail (ring_put d t) = rtail t" "rcount (ring_put d t) = rcount t"
  "mss (ring_put d t) = mss t"
  by (induction d arbitrary: t) simp_all

lemma ring_put_rcount: "ring_put d (t\<lparr>rcount := c\<rparr>) = (ring_put d t)\<lparr>rcount := c\<rparr>"
proof (induction d arbitrary: t)
  case (Cons b d)
  let ?u = "t\<lparr>ring := (ring t)(rhead t := b), rhead := (rhead t + 1) mod T_RING\<rparr>"
  have "ring_put (b # d) (t\<lparr>rcount := c\<rparr>) = ring_put d (?u\<lparr>rcount := c\<rparr>)" by (cases t) simp
  also have "\<dots> = (ring_put d ?u)\<lparr>rcount := c\<rparr>" by (rule Cons.IH)
  finally show ?case by (simp only: ring_put.simps)
qed simp

lemma ring_put_bytes:
  assumes "ring_wf t" "rcount t + length d \<le> T_RING"
  shows "ring_bytes ((ring_put d t)\<lparr>rcount := rcount t + length d\<rparr>) = ring_bytes t @ d
    \<and> ring_wf ((ring_put d t)\<lparr>rcount := rcount t + length d\<rparr>)"
  using assms
proof (induction d arbitrary: t)
  case (Cons b d)
  let ?t = "t\<lparr>ring := (ring t)(rhead t := b), rhead := (rhead t + 1) mod T_RING, rcount := rcount t + 1\<rparr>"
  have "rcount t < T_RING" "rhead t = (rtail t + rcount t) mod T_RING" using Cons.prems by (auto simp: ring_wf_def)
  then have b: "ring_bytes ?t = ring_bytes t @ [b]" using mod_add_neq [of _ "rcount t" T_RING "rtail t"] by (auto simp: ring_bytes_def)
  have "ring_wf ?t" using Cons.prems by (auto simp: ring_wf_def mod_simps)
  moreover have "rcount ?t + length d \<le> T_RING" using Cons.prems(2) by simp
  ultimately have "ring_bytes ((ring_put d ?t)\<lparr>rcount := rcount ?t + length d\<rparr>) = ring_bytes ?t @ d
    \<and> ring_wf ((ring_put d ?t)\<lparr>rcount := rcount ?t + length d\<rparr>)" by (rule Cons.IH)
  moreover have "(ring_put d ?t)\<lparr>rcount := rcount ?t + length d\<rparr> = (ring_put (b # d) t)\<lparr>rcount := rcount t + length (b # d)\<rparr>"
    using ring_put_rcount [where d = d and t = "t\<lparr>ring := (ring t)(rhead t := b), rhead := (rhead t + 1) mod T_RING\<rparr>" and c = "rcount t + 1"] by simp
  ultimately show ?case using b by simp
qed simp

lemma ring_get_take:
  assumes "ring_wf t"
  shows "\<exists>k. ring_get n t = (take n (ring_bytes t), t\<lparr>rtail := k, rcount := rcount t - n\<rparr>)
    \<and> ring_bytes (t\<lparr>rtail := k, rcount := rcount t - n\<rparr>) = drop n (ring_bytes t) \<and> ring_wf (t\<lparr>rtail := k, rcount := rcount t - n\<rparr>)"
  using assms
proof (induction n arbitrary: t)
  case 0
  then show ?case by (intro exI [of _ "rtail t"]) simp
next
  case (Suc n)
  show ?case
  proof (cases "rcount t")
    case 0
    then have e: "ring_bytes t = []" by (simp add: ring_bytes_def)
    show ?thesis using 0 e Suc.prems by (intro exI [of _ "rtail t"]) (simp add: ring_bytes_def ring_wf_def)
  next
    case (Suc c)
    let ?t = "t\<lparr>rtail := (rtail t + 1) mod T_RING, rcount := rcount t - 1\<rparr>"
    have wf: "ring_wf ?t" using Suc.prems Suc by (auto simp: ring_wf_def mod_simps)
    have b: "ring_bytes t = ring t (rtail t) # ring_bytes ?t"
      using Suc Suc.prems by (simp add: ring_bytes_def upt_conv_Cons map_Suc_upt [symmetric] ring_wf_def mod_simps comp_def del: upt_Suc)
    obtain k where k: "ring_get n ?t = (take n (ring_bytes ?t), ?t\<lparr>rtail := k, rcount := rcount ?t - n\<rparr>)"
      "ring_bytes (?t\<lparr>rtail := k, rcount := rcount ?t - n\<rparr>) = drop n (ring_bytes ?t)" "ring_wf (?t\<lparr>rtail := k, rcount := rcount ?t - n\<rparr>)"
      using Suc.IH [OF wf] by blast
    have "?t\<lparr>rtail := k, rcount := rcount ?t - n\<rparr> = t\<lparr>rtail := k, rcount := rcount t - Suc n\<rparr>" by simp
    then show ?thesis using k b Suc by (intro exI [of _ k]) simp
  qed
qed

section \<open>The received stream\<close>

lemma sint_diff: "a < 2147483648 \<Longrightarrow> b < 2147483648 \<Longrightarrow> sint (of_nat a - of_nat b :: 32 word) = int a - int b"
proof -
  assume "a < 2147483648" "b < 2147483648"
  moreover have "(of_nat a - of_nat b :: 32 word) = word_of_int (int a - int b)" by simp
  ultimately show ?thesis by (simp only: sint_sbintrunc' signed_take_bit_int_eq_self_iff) simp
qed

text \<open>The segments a peer with initial sequence number \<open>irs\<close> may send for the stream \<open>S\<close>, split, repeated and in any order;
  pure acknowledgements and resets may come at any time.\<close>

definition peer_segment :: "32 word \<Rightarrow> bytes \<Rightarrow> bytes \<Rightarrow> bool" where
  "peer_segment irs S p =
     (let d = drop (tcp_hl p) p; k = unat (rd32 ((!) p) 4 - irs - 1) in
      bit (tcp_fl p) 2
      \<or> (if bit (tcp_fl p) 1 then rd32 ((!) p) 4 = irs \<and> d = [] \<and> \<not> bit (tcp_fl p) 0
         else (d \<noteq> [] \<longrightarrow> k + length d \<le> length S \<and> take (length d) (drop k S) = d)
            \<and> (bit (tcp_fl p) 0 \<longrightarrow> k + length d = length S)))"

definition peer_frame :: "32 word \<times> nat \<times> nat \<Rightarrow> 32 word \<Rightarrow> bytes \<Rightarrow> bytes \<Rightarrow> bool" where
  "peer_frame c irs S f =
     (case tcp_of f of
        None \<Rightarrow> True
      | Some (src, p) \<Rightarrow> for_conn (fst c) (fst (snd c)) (snd (snd c)) src p \<longrightarrow> peer_segment irs S p)"

text \<open>What the program got and what waits in the ring is a prefix of the stream, and the next expected sequence number
  is that of its end; \<open>fin\<close> is set only at the end of the stream.\<close>

definition stream_inv :: "32 word \<times> nat \<times> nat \<Rightarrow> 32 word \<Rightarrow> bytes \<Rightarrow> bytes \<Rightarrow> tcb \<Rightarrow> bool" where
  "stream_inv c irs S got t \<longleftrightarrow>
     c = (rip t, rport t, lport t) \<and> ring_wf t \<and> prefix (got @ ring_bytes t) S
     \<and> (fin t \<longrightarrow> got @ ring_bytes t = S)
     \<and> (ts t = TS_SYN_SENT \<longrightarrow> got @ ring_bytes t = [] \<and> \<not> fin t)
     \<and> (ts t = TS_ESTAB \<or> ts t = TS_CLOSE_WAIT \<longrightarrow>
          rcv_nxt t = irs + 1 + of_nat (length (got @ ring_bytes t) + (if fin t then 1 else 0)))"

lemma take_data_stream:
  assumes "ring_wf t" "prefix (got @ ring_bytes t @ d) S"
  shows "\<exists>t'. take_data d t = (t', got @ ring_bytes t' \<noteq> got @ ring_bytes t @ d) \<and> ring_wf t' \<and> prefix (got @ ring_bytes t') S
    \<and> length (ring_bytes t') \<le> rcount t + length d
    \<and> rcv_nxt t' = rcv_nxt t + of_nat (rcount t' - rcount t) \<and> rcount t \<le> rcount t'
    \<and> rip t' = rip t \<and> rport t' = rport t \<and> lport t' = lport t \<and> ts t' = ts t \<and> fin t' = fin t"
proof -
  define n where "n = min (length d) (T_RING - rcount t)"
  let ?u = "(ring_put (take n d) t)\<lparr>rcount := rcount t + n\<rparr>"
  let ?t = "?u\<lparr>rcv_nxt := rcv_nxt t + of_nat n\<rparr>"
  have "rcount t \<le> T_RING" using assms(1) by (simp add: ring_wf_def)
  then have l: "length (take n d) = n" "rcount t + n \<le> T_RING" by (auto simp: n_def)
  then have p: "ring_bytes ?u = ring_bytes t @ take n d" "ring_wf ?u" using ring_put_bytes [OF assms(1), of "take n d"] by simp_all
  have e: "ring_bytes ?t = ring_bytes ?u" "ring_wf ?t = ring_wf ?u" by (simp_all add: ring_bytes_def ring_wf_def)
  have "prefix (got @ ring_bytes t @ take n d) (got @ ring_bytes t @ d)" by (simp add: take_is_prefix)
  then have "prefix (got @ ring_bytes ?t) S" using assms(2) e p by (metis prefix_order.trans)
  moreover have "take_data d t = (?t, n < length d)" by (simp add: take_data_def Let_def flip: n_def)
  moreover have "(n < length d) = (got @ ring_bytes ?t \<noteq> got @ ring_bytes t @ d)" using p e l by (metis append_same_eq linorder_not_le nat_less_le same_append_eq take_all_iff)
  moreover have "rcount ?t = rcount t + n" by simp
  ultimately show ?thesis using e p l by (intro exI [of _ ?t]) (auto simp: n_def)
qed
lemma prefix_slice:
  assumes "prefix xs S" "k \<le> length xs" "length xs \<le> k + length d" "take (length d) (drop k S) = d"
  shows "prefix (xs @ drop (length xs - k) d) S"
proof -
  let ?r = "length xs"
  have xs: "xs = take ?r S" using assms(1) by (metis append_eq_conv_conj prefix_def)
  have "drop (?r - k) d = take (k + length d - ?r) (drop ?r S)"
    using assms(2,3) by (subst assms(4) [symmetric]) (simp add: drop_take add.commute)
  then have "xs @ drop (?r - k) d = take (?r + (k + length d - ?r)) S" by (subst xs) (simp add: take_add)
  then show ?thesis by (metis take_is_prefix)
qed

lemma tcp_data_stream:
  assumes inv: "stream_inv c irs S got t" and ts: "ts t = TS_ESTAB \<or> ts t = TS_CLOSE_WAIT" and S: "length S < 2147483647"
    and d: "d \<noteq> []" "unat (seq - irs - 1) + length d \<le> length S" "take (length d) (drop (unat (seq - irs - 1)) S) = d"
  shows "stream_inv c irs S got (fst (tcp_data seq d t)) \<and> ts (fst (tcp_data seq d t)) = ts t"
proof -
  define k r R where "k = unat (seq - irs - 1)" and "r = length (got @ ring_bytes t)" and "R = r + (if fin t then 1 else 0)"
  have wf: "ring_wf t" and pre: "prefix (got @ ring_bytes t) S" and fin: "fin t \<longrightarrow> r = length S" and nxt: "rcv_nxt t = irs + 1 + of_nat R"
    using inv ts by (auto simp: stream_inv_def r_def R_def)
  have seq: "seq = irs + 1 + of_nat k" by (simp add: k_def)
  have "r \<le> length S" using prefix_length_le [OF pre] by (simp add: r_def)
  then have lt: "k < 2147483648" "R < 2147483648" "k + length d < 2147483648" using S d(2) by (auto simp: R_def k_def)
  have s1: "sint (rcv_nxt t - seq) = int R - int k" using sint_diff [OF lt(2,1)] by (simp add: nxt seq)
  have "seq + of_nat (length d) - rcv_nxt t = of_nat (k + length d) - of_nat R" by (simp add: nxt seq)
  then have s2: "sint (seq + of_nat (length d) - rcv_nxt t) = int (k + length d) - int R" using sint_diff [OF lt(3,2)] by metis
  have eq: "seq = rcv_nxt t \<longleftrightarrow> k = R" using s1 by (auto simp: nxt seq)
  show ?thesis
  proof (cases "k \<le> R \<and> R < k + length d")
    case False
    then have "tcp_data seq d t = (t, True)" using d(1) eq s1 s2 by (auto simp: tcp_data_def)
    then show ?thesis using inv by simp
  next
    case True
    have u: "unat (rcv_nxt t - seq) = R - k"
    proof -
      have "rcv_nxt t - seq = of_nat (R - k)" using True by (simp add: nxt seq of_nat_diff)
      then show ?thesis using lt(2) by (simp add: unat_of_nat take_bit_eq_mod)
    qed
    have D: "tcp_data seq d t = take_data (drop (R - k) d) t"
      using u d(1) eq s1 s2 True by (auto simp: tcp_data_def)
    have nf: "\<not> fin t" and Rr: "R = r" using True fin d(2) by (auto simp: R_def k_def)
    have "prefix (got @ ring_bytes t @ drop (R - k) d) S"
      using prefix_slice [OF pre, of k d] True d(3) by (simp add: Rr r_def k_def)
    from take_data_stream [OF wf this] obtain t' where t': "fst (tcp_data seq d t) = t'" "ring_wf t'" "prefix (got @ ring_bytes t') S"
      "rcv_nxt t' = rcv_nxt t + of_nat (rcount t' - rcount t)" "rcount t \<le> rcount t'"
      "rip t' = rip t" "rport t' = rport t" "lport t' = lport t" "ts t' = ts t" "fin t' = fin t" unfolding D by auto
    have "rcv_nxt t' = irs + 1 + of_nat (length (got @ ring_bytes t'))"
      using t'(4,5) nxt Rr by (simp add: r_def of_nat_diff)
    then show ?thesis using t' inv nf ts by (auto simp: stream_inv_def)
  qed
qed

lemma stream_ack [simp]: "stream_inv c irs S got (tcp_ack a t) = stream_inv c irs S got t" "ts (tcp_ack a t) = ts t"
  by (simp_all add: tcp_ack_def stream_inv_def ring_wf_def ring_bytes_def)

lemma tcp_fin_stream:
  assumes inv: "stream_inv c irs S got t" and ts: "ts t = TS_ESTAB \<or> ts t = TS_CLOSE_WAIT" and S: "length S < 2147483647"
    and f: "rcv_nxt t = irs + 1 + of_nat (length S)"
  shows "stream_inv c irs S got (tcp_fin t)"
proof -
  have pre: "prefix (got @ ring_bytes t) S" "rcv_nxt t = irs + 1 + of_nat (length (got @ ring_bytes t) + (if fin t then 1 else 0))"
    "fin t \<longrightarrow> got @ ring_bytes t = S" using inv ts by (auto simp: stream_inv_def)
  have "length (got @ ring_bytes t) \<le> length S" using pre(1) prefix_length_le by blast
  then have "length (got @ ring_bytes t) + (if fin t then 1 else 0) < 2147483648" using S by simp
  moreover have "(of_nat (length S) :: 32 word) = of_nat (length (got @ ring_bytes t) + (if fin t then 1 else 0))"
    using pre(2) f by simp
  ultimately have "length S = length (got @ ring_bytes t) + (if fin t then 1 else 0)"
    using S sint_diff [of "length S" "length (got @ ring_bytes t) + (if fin t then 1 else 0)"] by simp
  then have "got @ ring_bytes t = S" "\<not> fin t" using pre by (auto simp: prefix_def split: if_splits)
  then show ?thesis using inv ts f by (auto simp: stream_inv_def tcp_fin_def ring_wf_def ring_bytes_def)
qed

lemma of_nat_unat_add: "of_nat (unat w + n) = w + (of_nat n :: 32 word)"
  by simp

lemma tcp_segment_stream:
  assumes inv: "stream_inv c irs S got t" and ts: "ts t \<noteq> TS_SYN_SENT" "ts t \<noteq> TS_CLOSED" and S: "length S < 2147483647"
    and p: "peer_segment irs S p" "\<not> bit (tcp_fl p) 2"
  shows "stream_inv c irs S got (snd (tcp_segment (rd32 ((!) p) 4) ack (tcp_fl p) (drop (tcp_hl p) p) t))"
proof -
  let ?seq = "rd32 ((!) p) 4" and ?d = "drop (tcp_hl p) p" and ?fl = "tcp_fl p"
  define t1 where "t1 = (if bit ?fl 4 then tcp_ack ack t else t)"
  obtain t2 nf where t2: "tcp_data ?seq ?d t1 = (t2, nf)" by fastforce
  have t1: "stream_inv c irs S got t1" "ts t1 = TS_ESTAB \<or> ts t1 = TS_CLOSE_WAIT" using inv ts by (auto simp: t1_def intro: tcp_state.exhaust)
  have i2: "stream_inv c irs S got t2 \<and> ts t2 = ts t1"
  proof (cases "?d = []")
    case True
    then show ?thesis using t1 t2 by (simp add: tcp_data_def)
  next
    case False
    then have "\<not> bit ?fl 1" "unat (?seq - irs - 1) + length ?d \<le> length S" "take (length ?d) (drop (unat (?seq - irs - 1)) S) = ?d"
      using p by (auto simp: peer_segment_def Let_def split: if_splits)
    then show ?thesis using tcp_data_stream [OF t1 S False, of ?seq] t2 by simp
  qed
  have "rcv_nxt t2 = irs + 1 + of_nat (length S)" if "bit ?fl 0" "?seq + of_nat (length ?d) = rcv_nxt t2"
  proof -
    have e: "unat (?seq - irs - 1) + length ?d = length S" using that(1) p by (auto simp: peer_segment_def Let_def split: if_splits)
    have "(of_nat (length S) :: 32 word) = ?seq - irs - 1 + of_nat (length ?d)" by (subst e [symmetric]) (rule of_nat_unat_add)
    then show ?thesis using that(2) by simp
  qed
  then show ?thesis using i2 tcp_fin_stream [OF _ _ S, of c irs got t2] t1(2) t2 
    unfolding tcp_segment_def t1_def [symmetric] by auto
qed

lemma established_stream:
  assumes "stream_inv c irs S got t" "ts t = TS_SYN_SENT" "peer_segment irs S p" "bit (tcp_fl p) 1" "\<not> bit (tcp_fl p) 2"
  shows "stream_inv c irs S got (established p t)"
  using assms by (auto simp: stream_inv_def established_def peer_segment_def Let_def ring_wf_def ring_bytes_def)

lemma stream_inv_upd:
  "stream_inv c irs S got t \<Longrightarrow> stream_inv c irs S got (t\<lparr>rst := True, ts := TS_CLOSED\<rparr>)"
  "stream_inv c irs S got t \<Longrightarrow> stream_inv c irs S got (t\<lparr>ts := TS_CLOSED\<rparr>)"
  "stream_inv c irs S got (t\<lparr>snd_nxt := x\<rparr>) = stream_inv c irs S got t"
  by (simp_all add: stream_inv_def ring_wf_def ring_bytes_def)

text \<open>A stream of at most 2 GiB less two bytes, so that sequence numbers compare as positions do.\<close>

definition peer_stream :: "32 word \<times> nat \<times> nat \<Rightarrow> 32 word \<Rightarrow> bytes \<Rightarrow> bytes \<Rightarrow> bool" where
  "peer_stream c irs S f \<longleftrightarrow> length S < 2147483647 \<and> peer_frame c irs S f"

interpretation stream: tcp_frames "stream_inv c irs S got" "peer_stream c irs S" for c irs S got
proof (unfold_locales, goal_cases)
  case (2 f src p t)
  then have "peer_segment irs S p" by (auto simp: peer_stream_def peer_frame_def stream_inv_def)
  then show ?case using established_stream 2 by blast
next
  case (3 f src p t)
  then have "peer_segment irs S p" "length S < 2147483647" by (auto simp: peer_stream_def peer_frame_def stream_inv_def)
  then show ?case using tcp_segment_stream 3 by blast
qed (simp_all add: stream_inv_upd)

subsection \<open>Receiving\<close>

lemma recv_loop_stream:
  assumes "stream.ok c irs S got s" "tcp_recv_loop n (net_poll_inner depth) cap timeout t0 s = (r, d, s')"
  shows "stream.ok c irs S (got @ d) s' \<and> (r = 0 \<and> 0 < cap \<longrightarrow> got @ d = S)"
  using assms
proof (induction n arbitrary: s)
  case 0
  then show ?case by (auto simp: stream.ok_def)
next
  case (Suc n)
  let ?s = "net_poll_inner depth s" and ?poll = "net_poll_inner depth"
  have ok: "stream.ok c irs S got ?s" using stream.ok_poll Suc.prems(1) by blast
  then have inv: "stream_inv c irs S got (tc ?s)" and wf: "ring_wf (tc ?s)" by (auto simp: stream.ok_def stream_inv_def)
  show ?case
  proof (cases "rcount (tc ?s) = 0")
    case False
    obtain k where k: "ring_get cap (tc ?s) = (take cap (ring_bytes (tc ?s)), (tc ?s)\<lparr>rtail := k, rcount := rcount (tc ?s) - cap\<rparr>)"
      "ring_bytes ((tc ?s)\<lparr>rtail := k, rcount := rcount (tc ?s) - cap\<rparr>) = drop cap (ring_bytes (tc ?s))"
      "ring_wf ((tc ?s)\<lparr>rtail := k, rcount := rcount (tc ?s) - cap\<rparr>)" using ring_get_take [OF wf, of cap] by blast
    define t where "t = (tc ?s)\<lparr>rtail := k, rcount := rcount (tc ?s) - cap\<rparr>"
    have d: "d = take cap (ring_bytes (tc ?s))" "r = int (length d)"
      and s': "s' = ?s\<lparr>tc := t\<rparr> \<or> s' = snd (tcp_tx ?poll (snd_nxt t) 16 [] False (?s\<lparr>tc := t\<rparr>))"
      using Suc.prems(2) False k(1) unfolding t_def by (auto simp: Let_def split: if_splits)
    have "stream_inv c irs S (got @ d) t" using inv k(2,3) unfolding stream_inv_def t_def d(1) by simp
    then have "stream.ok c irs S (got @ d) (?s\<lparr>tc := t\<rparr>)" using ok by (simp add: stream.ok_def)
    then have "stream.ok c irs S (got @ d) s'" using s' stream.ok_tcp_tx [OF stream.keeps_poll] by blast
    then show ?thesis using d False by auto
  next
    case True
    have "ring_bytes (tc ?s) = []" using True by (simp add: ring_bytes_def)
    then have e: "fin (tc ?s) \<longrightarrow> got = S" using inv by (simp add: stream_inv_def)
    show ?thesis
    proof (cases "fin (tc ?s) \<or> rst (tc ?s) \<or> timeout > 0 \<and> sint (uptime ?s - t0) \<ge> timeout")
      case True
      then show ?thesis using Suc.prems(2) \<open>rcount (tc ?s) = 0\<close> ok e by (auto simp: Let_def split: if_splits)
    next
      case False
      then have "tcp_recv_loop n ?poll cap timeout t0 (hlt ?s) = (r, d, s')" using Suc.prems(2) True by (auto simp: Let_def split: if_splits)
      moreover have "stream.ok c irs S got (hlt ?s)" using ok by (simp add: stream.ok_def)
      ultimately show ?thesis using Suc.IH by blast
    qed
  qed
qed

text \<open>What a program does with an open connection, and the bytes it got so far. Everything else on the machine may change
  the network state as well, but for the connection and the frames to come.\<close>

inductive program_run :: "nat \<Rightarrow> net \<Rightarrow> bytes \<Rightarrow> net \<Rightarrow> bool" for depth s0 where
  start: "program_run depth s0 [] s0"
| polled: "program_run depth s0 got s \<Longrightarrow> program_run depth s0 got (net_poll_inner depth s)"
| sent: "program_run depth s0 got s \<Longrightarrow> tcp_send fuel (net_poll_inner depth) d s = Some (r, s') \<Longrightarrow> program_run depth s0 got s'"
| received: "program_run depth s0 got s \<Longrightarrow> tcp_recv (net_poll_inner depth) cap timeout s = (r, d, s') \<Longrightarrow> program_run depth s0 (got @ d) s'"
| other: "program_run depth s0 got s \<Longrightarrow> tc s' = tc s \<Longrightarrow> nic_rx s' = nic_rx s \<Longrightarrow> program_run depth s0 got s'"

lemma program_run_stream: "program_run depth s0 got s \<Longrightarrow> stream.ok c irs S [] s0 \<Longrightarrow> stream.ok c irs S got s"
proof (induction rule: program_run.induct)
  case (polled got s)
  then show ?case using stream.ok_poll by blast
next
  case (sent got s fuel d r s')
  then show ?case using stream.ok_tcp_send [OF stream.keeps_poll] by blast
next
  case (received got s cap timeout r d s')
  then show ?case using recv_loop_stream unfolding tcp_recv_def by blast
next
  case (other got s s')
  then show ?case using stream.ok_same by blast
qed simp

text \<open>The connection \<open>tcp_connect\<close> sets up, as seen by the peer.\<close>

definition conn_of :: "32 word \<Rightarrow> nat \<Rightarrow> net \<Rightarrow> 32 word \<times> nat \<times> nat" where
  "conn_of ip port s = (ip, port, 49152 + unat (uptime s) mod 10000)"

lemma connect_stream:
  assumes "tcp_connect (net_poll_inner depth) ip port s = (r, s0)" "\<forall>f\<in>set (nic_rx s). peer_stream (conn_of ip port s) irs S (take 2048 f)"
  shows "stream.ok (conn_of ip port s) irs S [] s0"
proof -
  let ?s = "s\<lparr>tc := tcp_reset ip port s\<rparr>"
  have "stream_inv (conn_of ip port s) irs S [] (tcp_reset ip port s)"
    by (simp add: stream_inv_def tcp_reset_def conn_of_def Let_def ring_wf_def ring_bytes_def)
  then have "stream.ok (conn_of ip port s) irs S [] ?s" using assms(2) by (simp add: stream.ok_def list_all_iff)
  then show ?thesis using stream.ok_connect_tries [OF stream.keeps_poll] assms(1) by (metis (no_types, lifting) snd_conv tcp_connect_def)
qed

section \<open>The segment size\<close>

interpretation sized: tcp_frames "\<lambda>t. ts t \<noteq> TS_SYN_SENT \<and> mss t = m" "\<lambda>f. True" for m
proof (unfold_locales, goal_cases)
  case (3 f src p t)
  have a: "mss (tcp_ack a u) = mss u" "ts (tcp_ack a u) = ts u" for a u by (simp_all add: tcp_ack_def)
  have "mss (fst (take_data d u)) = mss u \<and> ts (fst (take_data d u)) = ts u" for d u by (simp add: take_data_def Let_def)
  then have "mss (fst (tcp_data q d u)) = mss u \<and> ts (fst (tcp_data q d u)) = ts u" for q d u by (simp add: tcp_data_def)
  then have "mss u' = mss u \<and> ts u' = ts u" if "tcp_data q d u = (u', b)" for q d u u' b using that by (metis fst_conv)
  then show ?case using 3 a by (auto simp: tcp_segment_def tcp_fin_def Let_def split: prod.splits)
qed simp_all

lemma tcp_send_returns_fuel:
  assumes "sized.ok m s" "0 < m" "length d < fuel"
  shows "\<exists>r s'. tcp_send fuel (net_poll_inner depth) d s = Some (r, s')"
  using assms(1,3)
proof (induction fuel arbitrary: d s)
  case (Suc fuel)
  let ?n = "min (length d) (mss (tc s))"
  let ?s = "s\<lparr>tc := (tc s)\<lparr>snd_nxt := snd_nxt (tc s) + of_nat ?n\<rparr>\<rparr>"
  obtain a s1 where a: "send_tries 6 (net_poll_inner depth) (snd_nxt (tc s)) (take ?n d) ?s = (a, s1)" by fastforce
  have ok: "sized.ok m s1"
    using sized.ok_send_tries [OF sized.keeps_poll sized.ok_set_nxt [OF Suc.prems(1)], of 6 depth "snd_nxt (tc s)" "take ?n d" "snd_nxt (tc s) + of_nat ?n"] a by simp
  show ?case
  proof (cases "d \<noteq> [] \<and> a = Some True")
    case True
    have "mss (tc s) = m" using Suc.prems(1) by (simp add: sized.ok_def)
    then have "length (drop ?n d) < fuel" using True Suc.prems(2) assms(2) by (cases d) auto
    then show ?thesis using Suc.IH [OF ok] True a by (simp add: Let_def)
  next
    case False
    then show ?thesis using a by (cases a) (auto simp: Let_def)
  qed
qed simp

text \<open>Sending without waiting: the next hop is known and the card takes every frame.\<close>

definition route :: "32 word \<Rightarrow> net \<Rightarrow> 32 word" where
  "route ip s = (if (ip XOR cfg_ip s) AND cfg_mask s = 0 then ip else cfg_gw s)"

definition can_reach :: "32 word \<Rightarrow> net \<Rightarrow> bool" where
  "can_reach ip s \<longleftrightarrow> nic_ok s \<and> nic_rc s = (\<lambda>_. 0) \<and> route ip s \<noteq> 0 \<and> arp_lookup (route ip s) s \<noteq> None"

definition only_sent :: "net \<Rightarrow> net \<Rightarrow> bool" where
  "only_sent s s' \<longleftrightarrow> (\<exists>b k x y. s' = s\<lparr>seg_buf := b, ip_id := k, nic_sent := x, st_tx := y\<rparr>)"

lemma only_sentD:
  "only_sent s s' \<Longrightarrow> tc s' = tc s \<and> nic_rx s' = nic_rx s \<and> nic_ok s' = nic_ok s \<and> nic_rc s' = nic_rc s \<and> uptime s' = uptime s
     \<and> max_naps s' = max_naps s \<and> cfg_ip s' = cfg_ip s \<and> cfg_mask s' = cfg_mask s \<and> cfg_gw s' = cfg_gw s \<and> arp_tab s' = arp_tab s"
  by (auto simp: only_sent_def)

lemma only_sent_reach: "only_sent s s' \<Longrightarrow> can_reach ip s' = can_reach ip s"
  using only_sentD [of s s'] by (simp add: can_reach_def route_def arp_lookup_def arp_find_def)

lemma arp_resolve_direct: "can_reach ip s \<Longrightarrow> \<exists>m. arp_resolve poll ip s = (Some m, s)"
  unfolding arp_resolve_def can_reach_def Let_def route_def [symmetric] by auto

lemma tcp_tx_direct:
  assumes "can_reach (rip (tc s)) s" "length d \<le> 1456"
  shows "\<exists>s'. tcp_tx poll seq fl d mo s = (0, s') \<and> only_sent s s'"
proof -
  define n b where "n = (if mo then 24 else 20) + length d" and "b = patch 0 (tcp_packet (cfg_ip s) (tc s) seq fl d mo) (seg_buf s)"
  let ?s = "s\<lparr>seg_buf := b\<rparr>"
  have n: "n \<le> 1480" using assms(2) by (simp add: n_def)
  have "can_reach (rip (tc s)) ?s = can_reach (rip (tc s)) s" by (simp add: can_reach_def route_def arp_lookup_def arp_find_def)
  then have r: "can_reach (rip (tc s)) ?s" using assms(1) by simp
  then obtain m where m: "arp_resolve poll (rip (tc s)) ?s = (Some m, ?s)" using arp_resolve_direct by blast
  let ?u = "?s\<lparr>ip_id := (ip_id s + 1) mod 65536\<rparr>"
  let ?p = "ip_packet 6 (ip_id ?u) (cfg_ip ?u) (rip (tc s)) (take n (seg_buf ?u))"
  have e: "tcp_tx poll seq fl d mo s = eth_send m 0x0800 ?p ?u"
    using n m by (simp add: tcp_tx_def ip_send_def Let_def flip: n_def b_def)
  have "length ?p \<le> 1500" using n by (simp add: ip_packet_def Let_def)
  then have "\<exists>x y. eth_send m 0x0800 ?p ?u = (0, ?u\<lparr>nic_sent := x, st_tx := y\<rparr>)"
    using r by (simp add: eth_send_def can_reach_def) blast
  then obtain x y where "eth_send m 0x0800 ?p ?u = (0, ?u\<lparr>nic_sent := x, st_tx := y\<rparr>)" by blast
  moreover have "only_sent s (?u\<lparr>nic_sent := x, st_tx := y\<rparr>)" unfolding only_sent_def by blast
  ultimately show ?thesis unfolding e by blast
qed

lemma poll_silent: "nic_rx s = [] \<Longrightarrow> net_poll_inner (Suc depth) s = s"
  by (simp add: numeral_nat)

text \<open>An idle connection to a silent peer that announced a segment size of zero.\<close>

definition zero_mss :: "net \<Rightarrow> bool" where
  "zero_mss s \<longleftrightarrow> mss (tc s) = 0 \<and> \<not> conn_dead s \<and> all_acked s \<and> can_reach (rip (tc s)) s \<and> nic_rx s = [] \<and> 0 < max_naps s"

lemma zero_mss_hangs: "zero_mss s \<Longrightarrow> d \<noteq> [] \<Longrightarrow> tcp_send fuel (net_poll_inner (Suc depth)) d s = None"
proof (induction fuel arbitrary: s)
  case (Suc fuel)
  let ?poll = "net_poll_inner (Suc depth)" and ?seq = "snd_nxt (tc s)"
  have z: "mss (tc s) = 0" "can_reach (rip (tc s)) s" "nic_rx s = []" "0 < max_naps s" "\<not> conn_dead s" "all_acked s"
    using Suc.prems(1) by (auto simp: zero_mss_def)
  obtain s1 where s1: "tcp_tx ?poll ?seq 24 [] False s = (0, s1)" "only_sent s s1" using tcp_tx_direct [OF z(2), of "[]" ?poll ?seq 24 False] by auto
  have o: "tc s1 = tc s" "nic_rx s1 = []" "max_naps s1 = max_naps s" using only_sentD [OF s1(2)] z(3) by auto
  have c: "\<not> conn_dead s1" "all_acked s1" using z(5,6) o by (simp_all add: conn_dead_def all_acked_def)
  obtain k where k: "max_naps s1 = Suc k" using z(4) o(3) by (metis gr0_implies_Suc)
  have "wait_for (max_naps s1) ?poll (\<lambda>s. conn_dead s \<or> all_acked s) 500 (uptime s1) s1 = (True, s1)"
    unfolding k using poll_silent [OF o(2)] c by simp
  then have "send_tries (Suc j) ?poll ?seq [] s = (Some True, s1)" for j using s1(1) c by simp
  from this [of 5] have "send_tries 6 ?poll ?seq (take (min (length d) (mss (tc s))) d) s = (Some True, s1)" using z(1) by simp
  then have "tcp_send (Suc fuel) ?poll d s = tcp_send fuel ?poll d s1" using Suc.prems(2) z(1) by (simp add: Let_def del: net_poll_inner.simps)
  moreover have "zero_mss s1" using z c o s1(2) only_sent_reach [OF s1(2)] by (simp add: zero_mss_def)
  ultimately show ?case using Suc.IH [OF _ Suc.prems(2), of s1] by metis
qed simp

end
