(* ===== verification/NetProps.thy ===== *)
theory NetProps
  imports NetTcp
begin

section \<open>What the network stack guarantees\<close>

text \<open>
  What \<open>tcp_tx\<close> puts on the wire is what the receiving side of the stack parses, with checksums that verify; what a
  program receives; and when sending returns.
\<close>

subsection \<open>Building and parsing packets\<close>

lemma ip_parse_packet:
  assumes "length data \<le> 1480" "proto < 256"
  shows "ip_parse (ip_packet proto ident src dst data) = Some (proto, src, dst, data)"
proof -
  define c where "c = csum_fin (csum_add 0 (([CHR 0x45, NUL] @ wr16 (20 + length data) @ wr16 ident @ wr16 0x4000 @ [CHR 0x40, byte_of proto])
      @ wr16 0 @ wr32 src @ wr32 dst))"
  let ?p = "[CHR 0x45, NUL] @ wr16 (20 + length data) @ wr16 ident @ wr16 0x4000 @ [CHR 0x40, byte_of proto] @ wr16 c @ wr32 src @ wr32 dst @ data"
  have p: "ip_packet proto ident src dst data = ?p" by (simp add: ip_packet_def Let_def c_def)
  have "rd16 ((!) ?p) 2 = 20 + length data"
    using rd16_mid [of "20 + length data" "[CHR 0x45, NUL]" 2] assms(1) by simp
  moreover have "rd16 ((!) ?p) 6 = 0x4000"
    using rd16_mid [of "0x4000" "[CHR 0x45, NUL] @ wr16 (20 + length data) @ wr16 ident" 6] by simp
  moreover have "rd32 ((!) ?p) 12 = src"
    using rd32_mid [of "[CHR 0x45, NUL] @ wr16 (20 + length data) @ wr16 ident @ wr16 0x4000 @ [CHR 0x40, byte_of proto] @ wr16 c" 12] by simp
  moreover have "rd32 ((!) ?p) 16 = dst"
    using rd32_mid [of "[CHR 0x45, NUL] @ wr16 (20 + length data) @ wr16 ident @ wr16 0x4000 @ [CHR 0x40, byte_of proto] @ wr16 c @ wr32 src" 16] by simp
  moreover have "?p ! 0 = CHR 0x45" "?p ! 9 = byte_of proto" by (simp_all add: nth_append wr16_def)
  moreover have "drop 20 ?p = data" "length ?p = 20 + length data" by (simp_all add: wr16_def wr32_def)
  ultimately show ?thesis using assms(2) unfolding p ip_parse_def Let_def by simp
qed

lemma ip_packet_checksum:
  assumes "length data \<le> 1480"
  shows "csum_fin (csum_add 0 (take 20 (ip_packet proto ident src dst data))) = 0"
proof -
  let ?h = "[CHR 0x45, NUL] @ wr16 (20 + length data) @ wr16 ident @ wr16 0x4000 @ [CHR 0x40, byte_of proto]" and ?a = "wr32 src @ wr32 dst"
  have "word_sum (?h @ wr16 0 @ ?a) > 0" by (simp add: wr16_def)
  then have "csum_fin (csum_add 0 (?h @ wr16 (csum_fin (csum_add 0 (?h @ wr16 0 @ ?a))) @ ?a)) = 0"
    by (intro stored_checksum_verifies) simp_all
  then show ?thesis by (simp add: ip_packet_def Let_def)
qed
definition tcp_pre :: "tcb \<Rightarrow> 32 word \<Rightarrow> nat \<Rightarrow> bool \<Rightarrow> bytes" where
  "tcp_pre t seq flags mo =
     wr16 (lport t) @ wr16 (rport t) @ wr32 seq @ wr32 (if bit flags 4 then rcv_nxt t else 0)
     @ [byte_of ((if mo then 24 else 20) div 4 * 16), byte_of flags] @ wr16 (min 65535 (T_RING - rcount t))"

definition tcp_post :: "bytes \<Rightarrow> bool \<Rightarrow> bytes" where
  "tcp_post data mo = wr16 0 @ (if mo then [CHR 0x02, CHR 0x04] @ wr16 1460 else []) @ data"

definition pseudo_header :: "32 word \<Rightarrow> 32 word \<Rightarrow> nat \<Rightarrow> bytes" where
  "pseudo_header src dst n = wr32 src @ wr32 dst @ [NUL, CHR 0x06] @ wr16 n"

lemma tcp_packet_split:
  "tcp_packet src t seq flags data mo =
     tcp_pre t seq flags mo
     @ wr16 (csum_fin (csum_add (csum_add 0 (pseudo_header src (rip t) ((if mo then 24 else 20) + length data)))
         (tcp_pre t seq flags mo @ wr16 0 @ tcp_post data mo)))
     @ tcp_post data mo"
  by (simp add: tcp_packet_def tcp_pre_def tcp_post_def pseudo_header_def Let_def)

lemma length_tcp_packet [simp]: "length (tcp_packet src t seq flags data mo) = (if mo then 24 else 20) + length data"
  by (simp add: tcp_packet_split tcp_pre_def tcp_post_def)

lemma tcp_packet_fields:
  assumes "lport t < 65536" "rport t < 65536" "fl < 256"
  shows "rd16 ((!) (tcp_packet src t seq fl d mo)) 0 = lport t"
    and "rd16 ((!) (tcp_packet src t seq fl d mo)) 2 = rport t"
    and "rd32 ((!) (tcp_packet src t seq fl d mo)) 4 = seq"
    and "rd32 ((!) (tcp_packet src t seq fl d mo)) 8 = (if bit fl 4 then rcv_nxt t else 0)"
    and "tcp_hl (tcp_packet src t seq fl d mo) = (if mo then 24 else 20)"
    and "tcp_fl (tcp_packet src t seq fl d mo) = fl"
    and "drop (if mo then 24 else 20) (tcp_packet src t seq fl d mo) = d"
    and "mo \<Longrightarrow> tcp_options (tcp_packet src t seq fl d mo) 24 20 536 = 1460"
proof -
  define c where "c = csum_fin (csum_add (csum_add 0 (pseudo_header src (rip t) ((if mo then 24 else 20) + length d)))
      (tcp_pre t seq fl mo @ wr16 0 @ tcp_post d mo))"
  let ?a = "wr32 (if bit fl 4 then rcv_nxt t else 0)" and ?w = "wr16 (min 65535 (T_RING - rcount t))"
  let ?f = "[byte_of ((if mo then 24 else 20) div 4 * 16), byte_of fl]"
  let ?p = "wr16 (lport t) @ wr16 (rport t) @ wr32 seq @ ?a @ ?f @ ?w @ wr16 c @ tcp_post d mo"
  have p: "tcp_packet src t seq fl d mo = ?p" by (simp add: tcp_packet_split tcp_pre_def c_def)
  show "rd16 ((!) (tcp_packet src t seq fl d mo)) 0 = lport t" unfolding p using rd16_mid [OF assms(1), of "[]"] by simp
  show "rd16 ((!) (tcp_packet src t seq fl d mo)) 2 = rport t" unfolding p using rd16_mid [OF assms(2), of "wr16 (lport t)"] by simp
  show "rd32 ((!) (tcp_packet src t seq fl d mo)) 4 = seq" unfolding p using rd32_mid [of "wr16 (lport t) @ wr16 (rport t)" 4] by simp
  show "rd32 ((!) (tcp_packet src t seq fl d mo)) 8 = (if bit fl 4 then rcv_nxt t else 0)"
    unfolding p using rd32_mid [of "wr16 (lport t) @ wr16 (rport t) @ wr32 seq" 8] by simp
  have f: "?p ! 12 = ?f ! 0" "?p ! 13 = ?f ! 1" by (simp_all add: nth_append wr16_def wr32_def)
  show "tcp_hl (tcp_packet src t seq fl d mo) = (if mo then 24 else 20)" unfolding p f by simp
  show "tcp_fl (tcp_packet src t seq fl d mo) = fl" unfolding p f using assms(3) by simp
  show "drop (if mo then 24 else 20) (tcp_packet src t seq fl d mo) = d" unfolding p by (simp add: wr16_def wr32_def tcp_post_def)
  show "tcp_options (tcp_packet src t seq fl d mo) 24 20 536 = 1460" if mo
  proof -
    have "?p ! 20 = CHR 0x02" "?p ! 21 = CHR 0x04" using that by (simp_all add: nth_append wr16_def wr32_def tcp_post_def)
    moreover have "rd16 ((!) ?p) 22 = 1460"
      using rd16_mid [of 1460 "wr16 (lport t) @ wr16 (rport t) @ wr32 seq @ ?a @ ?f @ ?w @ wr16 c @ wr16 0 @ [CHR 0x02, CHR 0x04]" 22] that
      by (simp add: tcp_post_def)
    ultimately have "tcp_options ?p 24 20 536 = tcp_options ?p 24 24 1460" by (subst tcp_options.simps) (simp add: Let_def)
    also have "\<dots> = 1460" by (subst tcp_options.simps) simp
    finally show ?thesis unfolding p .
  qed
qed

lemma csum_add_pseudo: "csum_add 0 (pseudo_header src dst n) \<le> 65535 * 12"
proof -
  have "word_sum (pseudo_header src dst n) \<le> 65535 * 12" using word_sum_le [of "pseudo_header src dst n"] by (simp add: pseudo_header_def)
  then show ?thesis using csum_add_sum [of 0 "pseudo_header src dst n"] by simp
qed

lemma tcp_packet_checksum:
  assumes "length d \<le> 1460"
  shows "csum_fin (csum_add (csum_add 0 (pseudo_header src (rip t) ((if mo then 24 else 20) + length d))) (tcp_packet src t seq fl d mo)) = 0"
  unfolding tcp_packet_split
proof (rule stored_checksum_verifies)
  let ?s = "csum_add 0 (pseudo_header src (rip t) ((if mo then 24 else 20) + length d))"
  have "length (tcp_pre t seq fl mo) = 16" "length (tcp_post d mo) \<le> 6 + length d" by (simp_all add: tcp_pre_def tcp_post_def)
  then show "even (length (tcp_pre t seq fl mo))" "?s + 65535 * (length (tcp_pre t seq fl mo) + length (tcp_post d mo) + 2) < 4294967296 - 65536"
    using csum_add_pseudo [of src "rip t" "(if mo then 24 else 20) + length d"] assms by simp_all
  have "word_sum (tcp_pre t seq fl mo) > 0" by (simp add: tcp_pre_def wr16_def wr32_def)
  then show "0 < ?s + word_sum (tcp_pre t seq fl mo @ wr16 0 @ tcp_post d mo)"
    using word_sum_append [of "tcp_pre t seq fl mo"] \<open>length (tcp_pre t seq fl mo) = 16\<close> by simp
qed

lemma tcp_tx_frame:
  assumes "can_reach (rip (tc s)) s" "length d \<le> 1456" "length (seg_buf s) = 1480"
  shows "\<exists>mac ident s'. tcp_tx poll seq fl d mo s = (0, s') \<and> nic_sent s' = nic_sent s @ [mac @ nic_mac s @ wr16 0x0800
      @ ip_packet 6 ident (cfg_ip s) (rip (tc s)) (tcp_packet (cfg_ip s) (tc s) seq fl d mo)]"
proof -
  let ?t = "tcp_packet (cfg_ip s) (tc s) seq fl d mo"
  define n b where "n = (if mo then 24 else 20) + length d" and "b = patch 0 ?t (seg_buf s)"
  let ?s = "s\<lparr>seg_buf := b\<rparr>"
  have n: "n \<le> 1480" "take n b = ?t" using assms(2) by (simp_all add: n_def b_def patch_def)
  have "can_reach (rip (tc s)) ?s = can_reach (rip (tc s)) s" by (simp add: can_reach_def route_def arp_lookup_def arp_find_def)
  then have r: "can_reach (rip (tc s)) ?s" using assms(1) by simp
  then obtain m where m: "arp_resolve poll (rip (tc s)) ?s = (Some m, ?s)" using arp_resolve_direct by blast
  let ?u = "?s\<lparr>ip_id := (ip_id s + 1) mod 65536\<rparr>"
  let ?p = "ip_packet 6 (ip_id ?u) (cfg_ip s) (rip (tc s)) ?t"
  have e: "tcp_tx poll seq fl d mo s = eth_send m 0x0800 ?p ?u"
    using n m by (simp add: tcp_tx_def ip_send_def Let_def flip: n_def b_def)
  have "length ?p \<le> 1500" using assms(2) by (simp add: ip_packet_def Let_def)
  then show ?thesis unfolding e using r by (auto simp: eth_send_def can_reach_def)
qed

lemma recv_length: "fst (tcp_recv_loop n poll cap timeout t0 s) = 0 \<Longrightarrow> fst (snd (tcp_recv_loop n poll cap timeout t0 s)) = []"
  by (induction n arbitrary: s) (auto simp: Let_def split: prod.splits if_splits)

subsection \<open>Properties\<close>

text \<open>C8. What \<open>tcp_tx\<close> puts on the wire when the next hop is known: one Ethernet frame whose payload the receiving side of
  the stack accepts as an IP packet with the same addresses and a verifying header checksum, and whose segment verifies
  against its pseudo header and carries exactly the ports, sequence number, acknowledgement, flags and data.\<close>

theorem segments_on_the_wire:
  assumes "can_reach (rip (tc s)) s" "length d \<le> 1456" "length (seg_buf s) = 1480" "lport (tc s) < 65536" "rport (tc s) < 65536" "fl < 256"
  shows "\<exists>mac q p s'. tcp_tx poll seq fl d mo s = (0, s') \<and> nic_sent s' = nic_sent s @ [mac @ nic_mac s @ wr16 0x0800 @ q]
    \<and> ip_parse q = Some (6, cfg_ip s, rip (tc s), p) \<and> csum_fin (csum_add 0 (take 20 q)) = 0
    \<and> csum_fin (csum_add (csum_add 0 (pseudo_header (cfg_ip s) (rip (tc s)) (length p))) p) = 0
    \<and> rd16 ((!) p) 0 = lport (tc s) \<and> rd16 ((!) p) 2 = rport (tc s) \<and> rd32 ((!) p) 4 = seq
    \<and> (bit fl 4 \<longrightarrow> rd32 ((!) p) 8 = rcv_nxt (tc s)) \<and> tcp_fl p = fl \<and> drop (tcp_hl p) p = d
    \<and> (mo \<longrightarrow> tcp_options p (tcp_hl p) 20 536 = 1460)"
proof -
  let ?p = "tcp_packet (cfg_ip s) (tc s) seq fl d mo"
  obtain mac ident s' where f: "tcp_tx poll seq fl d mo s = (0, s')"
    "nic_sent s' = nic_sent s @ [mac @ nic_mac s @ wr16 0x0800 @ ip_packet 6 ident (cfg_ip s) (rip (tc s)) ?p]"
    using tcp_tx_frame [OF assms(1-3)] by blast
  let ?q = "ip_packet 6 ident (cfg_ip s) (rip (tc s)) ?p"
  have "length ?p \<le> 1480" using assms(2) by simp
  then have "ip_parse ?q = Some (6, cfg_ip s, rip (tc s), ?p)" "csum_fin (csum_add 0 (take 20 ?q)) = 0"
    by (simp_all add: ip_parse_packet ip_packet_checksum)
  moreover have "csum_fin (csum_add (csum_add 0 (pseudo_header (cfg_ip s) (rip (tc s)) (length ?p))) ?p) = 0"
    using tcp_packet_checksum [of d "cfg_ip s" "tc s" mo seq fl] assms(2) by simp
  moreover note tcp_packet_fields [OF assms(4-6), where src = "cfg_ip s" and seq = seq and d = d and mo = mo]
  ultimately show ?thesis using f by - (rule exI [of _ mac], rule exI [of _ ?q], rule exI [of _ ?p], rule exI [of _ s'], cases mo, simp_all)
qed

text \<open>C7. The bytes a program receives over a connection are a prefix of the peer's stream, whatever the network does: the
  frames that arrive may be split, repeated, reordered or lost, may come while the stack waits for something else, and
  may be mixed with any other traffic, as long as segments of this connection carry the bytes of the stream at
  their position. A receive that reports the end of the stream does so only when all of it was delivered.\<close>

theorem tcp_stream_in_order:
  assumes "tcp_connect (net_poll_inner depth) ip port s = (0, s0)"
    and "\<forall>f\<in>set (nic_rx s). peer_stream (conn_of ip port s) irs S (take 2048 f)"
    and "program_run depth s0 got s1"
  shows "prefix got S
    \<and> (\<forall>cap timeout d s2. 0 < cap \<and> tcp_recv (net_poll_inner depth) cap timeout s1 = (0, d, s2) \<longrightarrow> got = S)"
proof -
  have ok: "stream.ok (conn_of ip port s) irs S got s1" using program_run_stream [OF assms(3) connect_stream [OF assms(1,2)]] .
  then have p: "prefix (got @ ring_bytes (tc s1)) S" by (simp add: stream.ok_def stream_inv_def)
  have "got = S" if "0 < cap" "tcp_recv (net_poll_inner depth) cap timeout s1 = (0, d, s2)" for cap timeout d s2
  proof -
    have e: "got @ d = S" using recv_loop_stream [OF ok that(2) [unfolded tcp_recv_def]] that(1) by simp
    have "d = []" using that(2) recv_length [of "max_naps s1" "net_poll_inner depth" cap timeout "uptime s1" s1] by (simp add: tcp_recv_def)
    then show ?thesis using e by simp
  qed
  then show ?thesis using p append_prefixD by blast
qed


subsection \<open>A connection\<close>

text \<open>A machine 10.0.2.15 that knows the address of its neighbour 10.0.2.2, and what the neighbour answers to a connection:
  it accepts and sends two bytes.\<close>

definition me :: "32 word" where "me = 0x0A00020F"
definition peer :: "32 word" where "peer = 0x0A000202"

definition blank_tcb :: tcb where
  "blank_tcb = \<lparr>ts = TS_CLOSED, rip = 0, rport = 0, lport = 0, snd_una = 0, snd_nxt = 0, rcv_nxt = 0, mss = 0, fin = False,
     rst = False, ring = (\<lambda>_. NUL), rhead = 0, rtail = 0, rcount = 0\<rparr>"

definition blank_net :: net where
  "blank_net = \<lparr>nic_ok = True, nic_mac = replicate 6 (CHR 0x02), nic_rx = [], nic_sent = [], nic_rc = (\<lambda>_. 0), uptime = 0, naps = [],
     max_naps = 9, st_rx = 0, st_tx = 0, st_txerr = 0, cfg_ip = me, cfg_mask = 0xFFFFFF00, cfg_gw = 0, cfg_dns = 0,
     arp_tab = (\<lambda>_. \<lparr>arp_ip = peer, arp_mac = replicate 6 (CHR 0x04), arp_ok = True\<rparr>), arp_next = 0, ip_id = 0, ping_got = False,
     ping_seq = 0, us_port = 0, us_ready = False, us_src = 0, us_sport = 0, us_len = 0, us_buf = (\<lambda>_. NUL), tc = blank_tcb,
     seg_buf = replicate 1480 NUL, icmp_buf = replicate 1480 NUL, udp_buf = replicate 1480 NUL, in_dhcp = False,
     last_link = True, last_link_check = 0, link_up = [], net_stuck = False\<rparr>"

definition peer_tcb :: tcb where
  "peer_tcb = blank_tcb\<lparr>rip := me, rport := 49152, lport := 80, rcv_nxt := 19088744\<rparr>"

definition peer_sends :: "32 word \<Rightarrow> nat \<Rightarrow> bytes \<Rightarrow> bytes" where
  "peer_sends seq fl d = replicate 12 NUL @ wr16 0x0800 @ ip_packet 6 7 peer me (tcp_packet peer peer_tcb seq fl d False)"

definition answers :: net where
  "answers = blank_net\<lparr>nic_rx := [peer_sends 1000 18 [], peer_sends 1001 24 ''hi'']\<rparr>"

lemma reach_same:
  "nic_ok s = nic_ok u \<Longrightarrow> nic_rc s = nic_rc u \<Longrightarrow> cfg_ip s = cfg_ip u \<Longrightarrow> cfg_mask s = cfg_mask u \<Longrightarrow> cfg_gw s = cfg_gw u
     \<Longrightarrow> arp_tab s = arp_tab u \<Longrightarrow> can_reach ip s = can_reach ip u"
  by (simp add: can_reach_def route_def arp_lookup_def arp_find_def)

lemma peer_reachable: "can_reach peer blank_net"
proof -
  have "find (\<lambda>i. arp_ok (arp_tab blank_net i) \<and> arp_ip (arp_tab blank_net i) = peer) [0..<8] = Some 0" by (simp add: blank_net_def upt_conv_Cons)
  then show ?thesis by (simp add: can_reach_def route_def arp_lookup_def arp_find_def) (simp add: blank_net_def me_def peer_def)
qed

lemma peer_sends_frame:
  assumes "length d \<le> 1456" "fl < 256"
  shows "length (peer_sends seq fl d) \<le> 2048" "tcp_of (peer_sends seq fl d) = Some (peer, tcp_packet peer peer_tcb seq fl d False)"
    "cfg_ip s = me \<Longrightarrow> frame_in poll (peer_sends seq fl d) s = tcp_in poll peer (tcp_packet peer peer_tcb seq fl d False) (s\<lparr>st_rx := st_rx s + 1\<rparr>)"
proof -
  let ?p = "tcp_packet peer peer_tcb seq fl d False"
  have l: "length (ip_packet 6 7 peer me ?p) = 40 + length d" by (simp add: ip_packet_def Let_def)
  have p: "ip_parse (ip_packet 6 7 peer me ?p) = Some (6, peer, me, ?p)" using assms(1) by (simp add: ip_parse_packet)
  have d: "drop 14 (peer_sends seq fl d) = ip_packet 6 7 peer me ?p" by (simp add: peer_sends_def)
  have t: "rd16 ((!) (peer_sends seq fl d)) 12 = 0x0800" unfolding peer_sends_def by (rule rd16_mid) simp_all
  have n: "length (peer_sends seq fl d) = 54 + length d" using l by (simp add: peer_sends_def)
  show "length (peer_sends seq fl d) \<le> 2048" using n assms(1) by simp
  show "tcp_of (peer_sends seq fl d) = Some (peer, ?p)" using t d p n by (simp add: tcp_of_def)
  show "frame_in poll (peer_sends seq fl d) s = tcp_in poll peer ?p (s\<lparr>st_rx := st_rx s + 1\<rparr>)" if "cfg_ip s = me"
    using t d p n that by (simp add: frame_in_def ip_in_def me_def)
qed

lemma peer_fields:
  assumes "fl < 256"
  shows "for_conn peer 80 49152 peer (tcp_packet peer peer_tcb seq fl d False)"
    "rd32 ((!) (tcp_packet peer peer_tcb seq fl d False)) 4 = seq"
    "bit fl 4 \<Longrightarrow> rd32 ((!) (tcp_packet peer peer_tcb seq fl d False)) 8 = 19088744"
    "tcp_hl (tcp_packet peer peer_tcb seq fl d False) = 20" "tcp_fl (tcp_packet peer peer_tcb seq fl d False) = fl"
    "drop 20 (tcp_packet peer peer_tcb seq fl d False) = d"
  using tcp_packet_fields [OF _ _ assms, where t = peer_tcb and src = peer and seq = seq and d = d and mo = False]
  by (simp_all add: for_conn_def peer_tcb_def)

text \<open>The answers accept the connection and deliver the two bytes, in one poll.\<close>

lemma syn_ack_accepted:
  assumes "can_reach peer s" "rip (tc s) = peer" "rport (tc s) = 80" "lport (tc s) = 49152" "ts (tc s) = TS_SYN_SENT" "snd_nxt (tc s) = 19088744"
  shows "\<exists>s'. tcp_in poll peer (tcp_packet peer peer_tcb 1000 18 [] False) s = s'
    \<and> only_sent (s\<lparr>tc := established (tcp_packet peer peer_tcb 1000 18 [] False) (tc s)\<rparr>) s'"
proof -
  let ?p = "tcp_packet peer peer_tcb 1000 18 [] False"
  let ?s = "s\<lparr>tc := established ?p (tc s)\<rparr>"
  have "bit (18 :: nat) 4" "bit (18 :: nat) 1" "\<not> bit (18 :: nat) 2" by (simp_all add: bit_iff_odd)
  then have "tcp_in poll peer ?p s = snd (tcp_tx poll (snd_nxt (tc s)) 16 [] False ?s)"
    using assms peer_fields [of 18 1000 "[]"] by (simp add: tcp_in_def established_def for_conn_def)
  moreover have "can_reach (rip (tc ?s)) ?s" using assms(1,2) reach_same [of ?s s peer] by (simp add: established_def)
  ultimately show ?thesis using tcp_tx_direct [of ?s "[]"] by (metis length_0_conv le0 list.size(3) snd_conv)
qed

lemma data_accepted:
  assumes "can_reach peer s" "rip (tc s) = peer" "rport (tc s) = 80" "lport (tc s) = 49152" "ts (tc s) = TS_ESTAB" "rcv_nxt (tc s) = 1001"
    "rhead (tc s) = 0" "rcount (tc s) = 0" "rtail (tc s) = 0"
  shows "\<exists>t s'. tcp_in poll peer (tcp_packet peer peer_tcb 1001 24 ''hi'' False) s = s' \<and> only_sent (s\<lparr>tc := t\<rparr>) s'
    \<and> ts t = TS_ESTAB \<and> ring_bytes t = ''hi'' \<and> ring_wf t"
proof -
  let ?p = "tcp_packet peer peer_tcb 1001 24 ''hi'' False"
  have b: "bit (24 :: nat) 4" "\<not> bit (24 :: nat) 0" "\<not> bit (24 :: nat) 2" by (simp_all add: bit_iff_odd)
  define t0 where "t0 = tcp_ack 19088744 (tc s)"
  have t0: "rip t0 = peer" "rcv_nxt t0 = 1001" "rhead t0 = 0" "rcount t0 = 0" "rtail t0 = 0" "ts t0 = TS_ESTAB"
    using assms by (simp_all add: t0_def tcp_ack_def)
  define t where "t = (ring_put ''hi'' t0)\<lparr>rcount := 2, rcv_nxt := 1003\<rparr>"
  have "tcp_segment 1001 19088744 24 ''hi'' (tc s) = (True, t)"
    using b t0 by (simp add: tcp_segment_def tcp_data_def take_data_def Let_def t_def flip: t0_def)
  then have "tcp_in poll peer ?p s = snd (tcp_tx poll (snd_nxt t) 16 [] False (s\<lparr>tc := t\<rparr>))"
    using assms b peer_fields [of 24 1001 "''hi''"] by (simp add: tcp_in_def for_conn_def)
  moreover have "can_reach (rip (tc (s\<lparr>tc := t\<rparr>))) (s\<lparr>tc := t\<rparr>)" using assms(1) t0(1) reach_same [of "s\<lparr>tc := t\<rparr>" s peer] by (simp add: t_def)
  ultimately have "\<exists>s'. tcp_in poll peer ?p s = s' \<and> only_sent (s\<lparr>tc := t\<rparr>) s'" using tcp_tx_direct [of "s\<lparr>tc := t\<rparr>" "[]"] by (metis length_0_conv le0 list.size(3) snd_conv)
  moreover have "ts t = TS_ESTAB" "ring_bytes t = ''hi''" "ring_wf t" using t0 by (simp_all add: t_def ring_bytes_def ring_wf_def upt_conv_Cons)
  ultimately show ?thesis by blast
qed

lemma answers_connect:
  "\<exists>s0. tcp_connect (net_poll_inner 1) peer 80 answers = (0, s0) \<and> ring_bytes (tc s0) = ''hi'' \<and> ring_wf (tc s0) \<and> nic_rx s0 = [] \<and> 0 < max_naps s0"
proof -
  let ?poll = "net_poll_inner 1" and ?t = "tcp_reset peer 80 answers"
  let ?s = "answers\<lparr>tc := ?t\<rparr>"
  have t: "rip ?t = peer" "rport ?t = 80" "lport ?t = 49152" "ts ?t = TS_SYN_SENT" "snd_nxt ?t = 19088744" "snd_una ?t = 19088743"
    "rhead ?t = 0" "rcount ?t = 0" "rtail ?t = 0"
    by (simp_all add: tcp_reset_def answers_def blank_net_def Let_def)
  have "can_reach peer ?s" using peer_reachable reach_same [of ?s blank_net peer] by (simp add: answers_def)
  then obtain s1 where s1: "tcp_tx ?poll 19088743 2 [] True ?s = (0, s1)" "only_sent ?s s1" using tcp_tx_direct [of ?s "[]" ?poll 19088743 2 True] t(1) by auto
  note o1 = only_sentD [OF s1(2)]
  let ?f1 = "peer_sends 1000 18 []" and ?f2 = "peer_sends 1001 24 ''hi''"
  let ?a = "s1\<lparr>nic_rx := [?f2], st_rx := st_rx s1 + 1\<rparr>" and ?p = "tcp_packet peer peer_tcb 1000 18 [] False"
  have ra: "can_reach peer ?a" using \<open>can_reach peer ?s\<close> o1 reach_same [of ?a ?s peer] by simp
  obtain s2 where s2: "tcp_in (net_poll_inner 0) peer ?p ?a = s2" "only_sent (?a\<lparr>tc := established ?p (tc ?a)\<rparr>) s2"
    using syn_ack_accepted [OF ra] o1 t by auto
  note o2 = only_sentD [OF s2(2)]
  let ?b = "s2\<lparr>nic_rx := [], st_rx := st_rx s2 + 1\<rparr>"
  have rb: "can_reach peer ?b" using ra o2 reach_same [of ?b ?a peer] by simp
  have "established ?p (tc s1) = (tc s1)\<lparr>rcv_nxt := 1001, snd_una := 19088744, mss := mss (established ?p (tc s1)), ts := TS_ESTAB\<rparr>"
    using peer_fields [of 18 1000 "[]"] by (simp add: established_def bit_iff_odd)
  then have e: "rip (tc ?b) = peer" "rport (tc ?b) = 80" "lport (tc ?b) = 49152" "ts (tc ?b) = TS_ESTAB" "rcv_nxt (tc ?b) = 1001"
    "rhead (tc ?b) = 0" "rcount (tc ?b) = 0" "rtail (tc ?b) = 0" using o1 o2 t peer_fields [of 18 1000 "[]"] by (simp_all add: established_def bit_iff_odd)
  obtain u s3 where s3: "tcp_in (net_poll_inner 0) peer (tcp_packet peer peer_tcb 1001 24 ''hi'' False) ?b = s3" "only_sent (?b\<lparr>tc := u\<rparr>) s3"
    "ts u = TS_ESTAB" "ring_bytes u = ''hi''" "ring_wf u" using data_accepted [OF rb e, of "net_poll_inner 0"] by blast
  note o3 = only_sentD [OF s3(2)]
  have ip: "cfg_ip s1 = me" "cfg_ip s2 = me" using o1 o2 by (simp_all add: answers_def blank_net_def)
  have ok: "nic_ok s1" "nic_rx s1 = [?f1, ?f2]" "max_naps s1 = Suc 8" "nic_rx s2 = [?f2]" using o1 o2 by (simp_all add: answers_def blank_net_def)
  have "poll_frames (Suc (Suc (Suc n))) (net_poll_inner 0) s1 = s3" for n
    using ok ip s2(1) s3(1) o3 peer_sends_frame [where d = "[]" and fl = 18 and seq = 1000] peer_sends_frame [where d = "''hi''" and fl = 24 and seq = 1001]
    by (simp add: Let_def peer_sends_def [of 1000] peer_sends_def [of 1001])
  from this [of 29] have "net_poll_inner 1 s1 = s3" using ok(1) by simp
  then have "wait_for (Suc n) ?poll (\<lambda>s. ts (tc s) = TS_ESTAB \<or> rst (tc s)) 1000 (uptime s1) s1 = (True, s3)" for n
    using o3 s3(3) by (simp del: net_poll_inner.simps)
  then have "wait_for (max_naps s1) ?poll (\<lambda>s. ts (tc s) = TS_ESTAB \<or> rst (tc s)) 1000 (uptime s1) s1 = (True, s3)" unfolding ok(3) .
  then have "connect_tries (Suc n) ?poll 19088743 ?s = (0, s3)" for n using s1(1) o3 s3(3) by (simp del: net_poll_inner.simps)
  from this [of 3] have "tcp_connect ?poll peer 80 answers = (0, s3)" using t(6) by (simp add: tcp_connect_def del: net_poll_inner.simps)
  then show ?thesis using o3 s3 ok o1 o2 by auto
qed

lemma answers_honest: "\<forall>f\<in>set (nic_rx answers). peer_stream (conn_of peer 80 answers) 1000 ''hi there'' (take 2048 f)"
proof -
  have c: "conn_of peer 80 answers = (peer, 80, 49152)" by (simp add: conn_of_def answers_def blank_net_def)
  have "peer_segment 1000 ''hi there'' (tcp_packet peer peer_tcb 1000 18 [] False)"
    using peer_fields [of 18 1000 "[]"] by (simp add: peer_segment_def bit_iff_odd)
  moreover have "peer_segment 1000 ''hi there'' (tcp_packet peer peer_tcb 1001 24 ''hi'' False)"
    using peer_fields [of 24 1001 "''hi''"] by (simp add: peer_segment_def bit_iff_odd)
  ultimately show ?thesis
    using peer_sends_frame [where d = "[]" and fl = 18 and seq = 1000] peer_sends_frame [where d = "''hi''" and fl = 24 and seq = 1001]
    by (simp add: answers_def peer_stream_def peer_frame_def c)
qed

theorem tcp_stream_in_order_witness:
  "\<exists>s0 s1. tcp_connect (net_poll_inner 1) peer 80 answers = (0, s0) \<and> tcp_recv (net_poll_inner 1) 100 0 s0 = (2, ''hi'', s1)
     \<and> prefix ''hi'' ''hi there'' \<and> (\<forall>cap timeout d s2. 0 < cap \<longrightarrow> tcp_recv (net_poll_inner 1) cap timeout s1 \<noteq> (0, d, s2))"
proof -
  obtain s0 where s0: "tcp_connect (net_poll_inner 1) peer 80 answers = (0, s0)" "ring_bytes (tc s0) = ''hi''" "ring_wf (tc s0)"
    "nic_rx s0 = []" "0 < max_naps s0" using answers_connect by blast
  obtain k where k: "max_naps s0 = Suc k" using s0(5) by (metis gr0_implies_Suc)
  have "rcount (tc s0) \<noteq> 0" using s0(2) length_ring_bytes [of "tc s0"] by auto
  moreover obtain t where "ring_get 100 (tc s0) = (''hi'', t)" using ring_get_take [OF s0(3), of 100] s0(2) by auto
  moreover have "net_poll_inner 1 s0 = s0" using poll_silent [OF s0(4), of 0] by simp
  ultimately have "\<exists>s1. tcp_recv (net_poll_inner 1) 100 0 s0 = (2, ''hi'', s1)"
    unfolding tcp_recv_def k by (simp add: Let_def split: prod.splits)
  then obtain s1 where s1: "tcp_recv (net_poll_inner 1) 100 0 s0 = (2, ''hi'', s1)" by blast
  then have "program_run 1 s0 ([] @ ''hi'') s1" using program_run.received [OF program_run.start] by blast
  then have p: "prefix ([] @ ''hi'') ''hi there'' \<and> (\<forall>cap timeout d s2. 0 < cap \<and> tcp_recv (net_poll_inner 1) cap timeout s1 = (0, d, s2) \<longrightarrow> [] @ ''hi'' = ''hi there'')"
    by (rule tcp_stream_in_order [OF s0(1) answers_honest])
  have ne: "[] @ ''hi'' \<noteq> ''hi there''" by simp
  have "tcp_recv (net_poll_inner 1) cap timeout s1 \<noteq> (0, d, s2)" if "0 < cap" for cap timeout d s2 using that p ne by blast
  moreover have "prefix ''hi'' ''hi there''" using p by simp
  ultimately show ?thesis using s0(1) s1 by blast
qed

theorem segments_on_the_wire_witness:
  "\<exists>mac q p s'. tcp_tx (net_poll_inner 1) 5 24 ''GET'' False (blank_net\<lparr>tc := blank_tcb\<lparr>rip := peer\<rparr>\<rparr>) = (0, s')
     \<and> nic_sent s' = [mac @ replicate 6 (CHR 0x02) @ wr16 0x0800 @ q] \<and> ip_parse q = Some (6, me, peer, p)
     \<and> csum_fin (csum_add 0 (take 20 q)) = 0 \<and> rd32 ((!) p) 4 = 5 \<and> drop (tcp_hl p) p = ''GET''"
proof -
  let ?s = "blank_net\<lparr>tc := blank_tcb\<lparr>rip := peer\<rparr>\<rparr>"
  have "can_reach peer ?s" using peer_reachable reach_same [of ?s blank_net peer] by simp
  then show ?thesis
    using segments_on_the_wire [of ?s "''GET''" 24 "net_poll_inner 1" 5 False] by (simp add: blank_net_def blank_tcb_def) blast
qed

text \<open>The options of a SYN segment that make the segment size zero, and the two cases of sending.\<close>

lemma mss_option_zero: "tcp_options (replicate 20 NUL @ [CHR 0x02, CHR 0x04, NUL, NUL]) 24 20 536 = 0"
proof -
  let ?p = "replicate 20 NUL @ [CHR 0x02, CHR 0x04, NUL, NUL]"
  have "?p ! 20 = CHR 0x02" "?p ! 21 = CHR 0x04" "?p ! 22 = NUL" "?p ! 23 = NUL" by (simp_all add: nth_append)
  then have "tcp_options ?p 24 20 536 = tcp_options ?p 24 24 0" by (subst tcp_options.simps) (simp add: Let_def rd16_def)
  also have "\<dots> = 0" by (subst tcp_options.simps) simp
  finally show ?thesis .
qed


end
