(* ===== verification/NetServices.thy ===== *)
theory NetServices
  imports NetStack
begin

section \<open>DHCP, DNS and ping (kernel/net.c)\<close>

text \<open>
  The clients on top of UDP and ICMP and the poll of the idle loop. The datagram a client waits for is the first \<open>us_len\<close>
  bytes of the static buffer \<^verbatim>\<open>us.buf\<close>, which keeps the bytes of earlier and longer datagrams behind them; the parsers
  take the buffer as a function of the offset and the length, and the main theorem says that they depend on no byte
  behind it. The number of rounds of one dialogue is bounded by \<open>max_naps\<close>, as the waits are.
\<close>

subsection \<open>DHCP\<close>

definition pad_to :: "nat \<Rightarrow> bytes \<Rightarrow> bytes" where
  "pad_to n b = b @ replicate (n - length b) NUL"

definition dhcp_build :: "bytes \<Rightarrow> 32 word \<Rightarrow> nat \<Rightarrow> 32 word \<Rightarrow> 32 word \<Rightarrow> bytes" where
  "dhcp_build mac xid type req_ip srv =
     (let head = pad_to 28 (pad_to 10 ([CHR 0x01, CHR 0x01, CHR 0x06, NUL] @ wr32 xid) @ wr16 0x8000);
          fixed = pad_to 236 (head @ mac) @ wr32 0x63825363
      in pad_to 300
           (fixed @ [byte_of 53, byte_of 1, byte_of type] @ [byte_of 61, byte_of 7, byte_of 1] @ mac
            @ (if req_ip \<noteq> 0 then [byte_of 50, byte_of 4] @ wr32 req_ip else [])
            @ (if srv \<noteq> 0 then [byte_of 54, byte_of 4] @ wr32 srv else [])
            @ [byte_of 55, byte_of 3, byte_of 1, byte_of 3, byte_of 6, byte_of 255]))"

record dhcp_params =
  yi :: "32 word"
  dsrv :: "32 word"
  dmask :: "32 word"
  dgw :: "32 word"
  ddns :: "32 word"

definition dhcp_option :: "mem \<Rightarrow> nat \<Rightarrow> nat \<Rightarrow> nat \<Rightarrow> nat \<times> dhcp_params \<Rightarrow> nat \<times> dhcp_params" where
  "dhcp_option p v c l st =
     (case st of (type, ps) \<Rightarrow>
        if c = 53 \<and> l \<ge> 1 then (nat_at p v, ps)
        else if c = 54 \<and> l \<ge> 4 then (type, ps\<lparr>dsrv := rd32 p v\<rparr>)
        else if c = 1 \<and> l \<ge> 4 then (type, ps\<lparr>dmask := rd32 p v\<rparr>)
        else if c = 3 \<and> l \<ge> 4 then (type, ps\<lparr>dgw := rd32 p v\<rparr>)
        else if c = 6 \<and> l \<ge> 4 then (type, ps\<lparr>ddns := rd32 p v\<rparr>)
        else (type, ps))"

function dhcp_options :: "mem \<Rightarrow> nat \<Rightarrow> nat \<Rightarrow> nat \<times> dhcp_params \<Rightarrow> nat \<times> dhcp_params" where
  "dhcp_options p len i st =
     (if i < len \<and> nat_at p i \<noteq> 255 then
        if nat_at p i = 0 then dhcp_options p len (i + 1) st
        else if i + 1 \<ge> len then st
        else let l = nat_at p (i + 1) in
             if i + 2 + l > len then st else dhcp_options p len (i + 2 + l) (dhcp_option p (i + 2) (nat_at p i) l st)
      else st)"
  by pat_completeness auto
termination
  by (relation "measure (\<lambda>(p, len, i, st). len - i)") auto

declare dhcp_options.simps [simp del]

definition dhcp_parse :: "bytes \<Rightarrow> mem \<Rightarrow> nat \<Rightarrow> 32 word \<Rightarrow> dhcp_params \<Rightarrow> nat \<times> dhcp_params" where
  "dhcp_parse mac p len xid ps =
     (if len < 241 \<or> nat_at p 0 \<noteq> 2 \<or> rd32 p 4 \<noteq> xid \<or> rd32 p 236 \<noteq> 0x63825363 then (0, ps)
      else if \<not> list_all (\<lambda>k. p (28 + k) = mac ! k) [0..<6] then (0, ps)
      else dhcp_options p len 240 (0, ps\<lparr>yi := rd32 p 16\<rparr>))"

primrec udp_wait_loop :: "nat \<Rightarrow> poll \<Rightarrow> int \<Rightarrow> 32 word \<Rightarrow> net \<Rightarrow> bool \<times> net" where
  "udp_wait_loop 0 poll timeout t0 s = (False, s\<lparr>net_stuck := True\<rparr>)"
| "udp_wait_loop (Suc n) poll timeout t0 s =
     (if us_ready s then (True, s)
      else let s = poll s in
           if sint (uptime s - t0) \<ge> timeout then (False, s)
           else udp_wait_loop n poll timeout t0 (if us_ready s then s else hlt s))"

definition udp_wait :: "poll \<Rightarrow> int \<Rightarrow> net \<Rightarrow> bool \<times> net" where
  "udp_wait poll timeout s = udp_wait_loop (max_naps s) poll timeout (uptime s) s"

text \<open>Waiting for an OFFER: whether it came, and the parameters.\<close>

primrec dhcp_offer :: "nat \<Rightarrow> poll \<Rightarrow> 32 word \<Rightarrow> 32 word \<Rightarrow> dhcp_params \<Rightarrow> net \<Rightarrow> bool \<times> dhcp_params \<times> net" where
  "dhcp_offer 0 poll xid t0 ps s = (False, ps, s\<lparr>net_stuck := True\<rparr>)"
| "dhcp_offer (Suc n) poll xid t0 ps s =
     (if sint (uptime s - t0) < 2000 then
        (case udp_wait poll (2000 - sint (uptime s - t0)) s of
           (False, s) \<Rightarrow> (False, ps, s)
         | (True, s) \<Rightarrow>
             (case dhcp_parse (nic_mac s) (us_buf s) (us_len s) xid ps of
                (type, ps) \<Rightarrow>
                  let s = s\<lparr>us_ready := False\<rparr> in if type = 2 then (True, ps, s) else dhcp_offer n poll xid t0 ps s))
      else (False, ps, s))"

text \<open>Waiting for the ACK, which configures the interface.\<close>

primrec dhcp_ack :: "nat \<Rightarrow> poll \<Rightarrow> 32 word \<Rightarrow> 32 word \<Rightarrow> 32 word \<Rightarrow> dhcp_params \<Rightarrow> net \<Rightarrow> bool \<times> net" where
  "dhcp_ack 0 poll xid t0 offer ps s = (False, s\<lparr>net_stuck := True\<rparr>)"
| "dhcp_ack (Suc n) poll xid t0 offer ps s =
     (if sint (uptime s - t0) < 2000 then
        (case udp_wait poll (2000 - sint (uptime s - t0)) s of
           (False, s) \<Rightarrow> (False, s)
         | (True, s) \<Rightarrow>
             (case dhcp_parse (nic_mac s) (us_buf s) (us_len s) xid ps of
                (type, ps) \<Rightarrow>
                  let s = s\<lparr>us_ready := False\<rparr> in
                  if type = 5
                  then (True, s\<lparr>cfg_ip := (if yi ps \<noteq> 0 then yi ps else offer), cfg_mask := (if dmask ps \<noteq> 0 then dmask ps else 0xFFFFFF00),
                          cfg_gw := dgw ps, cfg_dns := ddns ps\<rparr>)
                  else if type = 6 then (False, s)
                  else dhcp_ack n poll xid t0 offer ps s))
      else (False, s))"

abbreviation (input) no_params :: dhcp_params where
  "no_params \<equiv> \<lparr>yi = 0, dsrv = 0, dmask = 0, dgw = 0, ddns = 0\<rparr>"

primrec dhcp_attempts :: "nat \<Rightarrow> poll \<Rightarrow> 32 word \<Rightarrow> net \<Rightarrow> int \<times> net" where
  "dhcp_attempts 0 poll xid s = (- 1, s)"
| "dhcp_attempts (Suc n) poll xid s =
     (let s = snd (udp_send poll 0xFFFFFFFF 68 67 (dhcp_build (nic_mac s) xid 1 0 0) s) in
      case dhcp_offer (max_naps s) poll xid (uptime s) no_params s of
        (False, ps, s) \<Rightarrow> dhcp_attempts n poll xid s
      | (True, ps, s) \<Rightarrow>
          let s = snd (udp_send poll 0xFFFFFFFF 68 67 (dhcp_build (nic_mac s) xid 3 (yi ps) (dsrv ps)) s) in
          (case dhcp_ack (max_naps s) poll xid (uptime s) (yi ps) ps s of
             (True, s) \<Rightarrow> (0, s)
           | (False, s) \<Rightarrow> dhcp_attempts n poll xid s))"

definition clear_config :: "net \<Rightarrow> net" where
  "clear_config s =
     s\<lparr>cfg_ip := 0, cfg_mask := 0, cfg_gw := 0, cfg_dns := 0, arp_tab := (\<lambda>_. \<lparr>arp_ip = 0, arp_mac = replicate 6 NUL, arp_ok = False\<rparr>)\<rparr>"

definition net_dhcp :: "poll \<Rightarrow> net \<Rightarrow> int \<times> net" where
  "net_dhcp poll s =
     (if \<not> nic_ok s then (- 1, s)
      else let s = clear_config (s\<lparr>in_dhcp := True\<rparr>);
               xid = uptime s XOR of_nat (256 * of_char (nic_mac s ! 4) + of_char (nic_mac s ! 5)) XOR 0x54414E4A;
               (rc, s) = dhcp_attempts 3 poll xid (s\<lparr>us_port := 68, us_ready := False\<rparr>)
           in (rc, s\<lparr>us_port := 0, us_ready := False, in_dhcp := False\<rparr>))"

subsection \<open>DNS\<close>

text \<open>The labels of a host name: \<^term>\<open>None\<close> for an empty or too long one.\<close>

function dns_labels :: "bytes \<Rightarrow> bytes option" where
  "dns_labels s =
     (if s = [] then Some []
      else let l = takeWhile (\<lambda>c. c \<noteq> CHR ''.'') s in
           if length l < 1 \<or> length l > 63 then None
           else map_option (\<lambda>q. byte_of (length l) # l @ q) (dns_labels (drop (length l + 1) s)))"
  by pat_completeness auto
termination
  by (relation "measure length") auto

declare dns_labels.simps [simp del]

definition dns_query :: "nat \<Rightarrow> bytes \<Rightarrow> bytes option" where
  "dns_query ident host =
     map_option (\<lambda>q. wr16 ident @ wr16 0x0100 @ wr16 1 @ wr16 0 @ wr16 0 @ wr16 0 @ q @ [NUL] @ wr16 1 @ wr16 1) (dns_labels host)"

function dns_skip_name :: "mem \<Rightarrow> nat \<Rightarrow> nat \<Rightarrow> nat option" where
  "dns_skip_name p len i =
     (if i < len then
        if nat_at p i = 0 then Some (i + 1)
        else if nat_at p i div 64 = 3 then Some (i + 2)
        else dns_skip_name p len (i + nat_at p i + 1)
      else None)"
  by pat_completeness auto
termination
  by (relation "measure (\<lambda>(p, len, i). len - i)") auto

declare dns_skip_name.simps [simp del]

primrec dns_questions :: "nat \<Rightarrow> mem \<Rightarrow> nat \<Rightarrow> nat \<Rightarrow> nat option" where
  "dns_questions 0 p len pos = Some pos"
| "dns_questions (Suc qd) p len pos =
     (case dns_skip_name p len pos of None \<Rightarrow> None | Some pos \<Rightarrow> dns_questions qd p len (pos + 4))"

primrec dns_answers :: "nat \<Rightarrow> mem \<Rightarrow> nat \<Rightarrow> nat \<Rightarrow> 32 word option" where
  "dns_answers 0 p len pos = None"
| "dns_answers (Suc an) p len pos =
     (case dns_skip_name p len pos of
        None \<Rightarrow> None
      | Some pos \<Rightarrow>
          if pos + 10 > len then None
          else let type = rd16 p pos; rdl = rd16 p (pos + 8); pos = pos + 10 in
               if pos + rdl > len then None
               else if type = 1 \<and> rdl = 4 then Some (rd32 p pos)
               else dns_answers an p len (pos + rdl))"

datatype dns_outcome = Not_Ours | No_Address | Address "32 word"

definition dns_reply :: "mem \<Rightarrow> nat \<Rightarrow> nat \<Rightarrow> dns_outcome" where
  "dns_reply r rl ident =
     (if rl < 12 \<or> rd16 r 0 \<noteq> ident \<or> nat_at r 2 < 128 then Not_Ours
      else if nat_at r 3 mod 16 \<noteq> 0 then No_Address
      else case dns_questions (rd16 r 4) r rl 12 of
        None \<Rightarrow> No_Address
      | Some pos \<Rightarrow> (case dns_answers (rd16 r 6) r rl pos of None \<Rightarrow> No_Address | Some ip \<Rightarrow> Address ip))"

abbreviation (input) NET_E_NONET :: int where "NET_E_NONET \<equiv> - 1"
abbreviation (input) NET_E_DNS :: int where "NET_E_DNS \<equiv> - 2"

text \<open>Waiting for the reply to one query: \<^term>\<open>None\<close> when the time is up.\<close>

primrec resolve_wait :: "nat \<Rightarrow> poll \<Rightarrow> nat \<Rightarrow> 32 word \<Rightarrow> net \<Rightarrow> dns_outcome option \<times> net" where
  "resolve_wait 0 poll ident t0 s = (None, s\<lparr>net_stuck := True\<rparr>)"
| "resolve_wait (Suc n) poll ident t0 s =
     (if sint (uptime s - t0) < 1500 then
        (case udp_wait poll (1500 - sint (uptime s - t0)) s of
           (False, s) \<Rightarrow> (None, s)
         | (True, s) \<Rightarrow>
             let s = s\<lparr>us_ready := False\<rparr>; r = dns_reply (us_buf s) (us_len s) ident in
             if r = Not_Ours then resolve_wait n poll ident t0 s else (Some r, s))
      else (None, s))"

primrec resolve_tries :: "nat \<Rightarrow> poll \<Rightarrow> nat \<Rightarrow> bytes \<Rightarrow> net \<Rightarrow> int \<times> 32 word option \<times> net" where
  "resolve_tries 0 poll ident q s = (NET_E_DNS, None, s\<lparr>us_port := 0\<rparr>)"
| "resolve_tries (Suc n) poll ident q s =
     (let s = snd (udp_send poll (cfg_dns s) (us_port s) 53 q s) in
      case resolve_wait (max_naps s) poll ident (uptime s) s of
        (None, s) \<Rightarrow> resolve_tries n poll ident q s
      | (Some (Address ip), s) \<Rightarrow> (0, Some ip, s\<lparr>us_port := 0\<rparr>)
      | (Some _, s) \<Rightarrow> (NET_E_DNS, None, s\<lparr>us_port := 0\<rparr>))"

definition net_resolve :: "poll \<Rightarrow> bytes \<Rightarrow> net \<Rightarrow> int \<times> 32 word option \<times> net" where
  "net_resolve poll host s =
     (case parse_dotted host of
        Some ip \<Rightarrow> (0, Some ip, s)
      | None \<Rightarrow>
          if \<not> nic_ok s \<or> cfg_ip s = 0 \<or> cfg_dns s = 0 then (NET_E_NONET, None, s)
          else if length host < 1 \<or> length host > 200 then (NET_E_DNS, None, s)
          else let ident = unat (uptime s XOR 0xA5A5) mod 65536 in
          (case dns_query ident host of
             None \<Rightarrow> (NET_E_DNS, None, s)
           | Some q \<Rightarrow> resolve_tries 3 poll ident q (s\<lparr>us_port := 40000 + unat (uptime s) mod 2000, us_ready := False\<rparr>)))"

subsection \<open>Ping, static configuration and the poll of the idle loop\<close>

definition ping_packet :: "nat \<Rightarrow> bytes" where
  "ping_packet seq =
     (let p = [CHR 0x08, NUL] @ wr16 0 @ wr16 PING_ID @ wr16 seq @ map (\<lambda>i. byte_of (97 + i mod 23)) [8..<40]
      in patch 2 (wr16 (csum_fin (csum_add 0 p))) p)"

primrec ping_wait :: "nat \<Rightarrow> poll \<Rightarrow> int \<Rightarrow> 32 word \<Rightarrow> net \<Rightarrow> int \<times> net" where
  "ping_wait 0 poll timeout t0 s = (- 1, s\<lparr>net_stuck := True\<rparr>)"
| "ping_wait (Suc n) poll timeout t0 s =
     (if sint (uptime s - t0) < timeout
      then let s = poll s in if ping_got s then (sint (uptime s - t0), s) else ping_wait n poll timeout t0 (hlt s)
      else (- 1, s))"

definition net_ping :: "poll \<Rightarrow> 32 word \<Rightarrow> int \<Rightarrow> net \<Rightarrow> int \<times> net" where
  "net_ping poll ip timeout s =
     (if \<not> nic_ok s \<or> cfg_ip s = 0 then (NET_E_NONET, s)
      else let s = s\<lparr>ping_seq := (ping_seq s + 1) mod 65536, ping_got := False\<rparr>; t0 = uptime s; p = ping_packet (ping_seq s) in
      case ip_send poll 1 ip (\<lambda>_. p) 40 s of
        (r, s) \<Rightarrow> if r \<noteq> 0 then (- 1, s) else ping_wait (max_naps s) poll timeout t0 s)"

definition net_set_static :: "32 word \<Rightarrow> 32 word \<Rightarrow> 32 word \<Rightarrow> 32 word \<Rightarrow> net \<Rightarrow> int \<times> net" where
  "net_set_static ip msk gw dns s =
     (if \<not> nic_ok s then (- 1, s) else (0, (clear_config s)\<lparr>cfg_ip := ip, cfg_mask := msk, cfg_gw := gw, cfg_dns := dns\<rparr>))"

definition nic_link :: "net \<Rightarrow> bool \<times> net" where
  "nic_link s = (case link_up s of [] \<Rightarrow> (False, s) | l # ls \<Rightarrow> (l, s\<lparr>link_up := ls\<rparr>))"

definition net_poll :: "nat \<Rightarrow> net \<Rightarrow> net" where
  "net_poll depth s =
     (if \<not> nic_ok s then s
      else let s = net_poll_inner depth s in
      if uptime s - last_link_check s \<ge> 1000 then
        (case nic_link (s\<lparr>last_link_check := uptime s\<rparr>) of
           (l, s) \<Rightarrow>
             (if l \<and> \<not> last_link s \<and> cfg_ip s = 0 \<and> \<not> in_dhcp s
              then snd (net_dhcp (net_poll_inner depth) (s\<lparr>last_link := l\<rparr>)) else s)\<lparr>last_link := l\<rparr>)
      else s)"

section \<open>Replies are read within their length\<close>

lemma rd16_cong: "p i = q i \<Longrightarrow> p (i + 1) = q (i + 1) \<Longrightarrow> rd16 p i = rd16 q i"
  by (simp add: rd16_def)

lemma rd32_cong: "(\<And>k. k < 4 \<Longrightarrow> p (i + k) = q (i + k)) \<Longrightarrow> rd32 p i = rd32 q i"
proof -
  assume a: "\<And>k. k < 4 \<Longrightarrow> p (i + k) = q (i + k)"
  show ?thesis using a [of 0] a [of 1] a [of 2] a [of 3] by (simp add: rd32_def)
qed

lemma dhcp_option_cong:
  assumes "\<forall>i<len. p i = q i" "v + l \<le> len"
  shows "dhcp_option p v c l st = dhcp_option q v c l st"
proof -
  have "p v = q v" if "l \<ge> 1" using assms that by simp
  moreover have "rd32 p v = rd32 q v" if "l \<ge> 4" using assms that by (intro rd32_cong) simp
  ultimately show ?thesis by (cases st) (auto simp: dhcp_option_def)
qed

lemma dhcp_options_cong: "\<forall>i<len. p i = q i \<Longrightarrow> dhcp_options p len i st = dhcp_options q len i st"
proof (induction p len i st rule: dhcp_options.induct)
  case (1 p len i st)
  show ?case
  proof (cases "i < len \<and> nat_at p i \<noteq> 255")
    case True
    then have pi: "q i = p i" using 1(3) by simp
    consider "nat_at p i = 0" | "nat_at p i \<noteq> 0" "i + 1 \<ge> len" | "nat_at p i \<noteq> 0" "i + 1 < len" by linarith
    then show ?thesis
    proof cases
      case 1
      then have "dhcp_options p len i st = dhcp_options p len (i + 1) st" "dhcp_options q len i st = dhcp_options q len (i + 1) st"
        using True pi by (subst dhcp_options.simps, simp)+
      then show ?thesis using "1.IH"(1) [OF True 1 "1.prems"] by simp
    next
      case 2
      then show ?thesis using True pi by (subst (1 2) dhcp_options.simps) simp
    next
      case 3
      then have pl: "q (i + 1) = p (i + 1)" using 1(3) by simp
      have o: "dhcp_option q (i + 2) c (nat_at p (i + 1)) st = dhcp_option p (i + 2) c (nat_at p (i + 1)) st" if "i + 2 + nat_at p (i + 1) \<le> len" for c
        using dhcp_option_cong [OF "1.prems", of "i + 2" "nat_at p (i + 1)" c st] that by simp
      let ?l = "nat_at p (i + 1)"
      show ?thesis
      proof (cases "i + 2 + ?l > len")
        case True
        then have "dhcp_options p len i st = st" "dhcp_options q len i st = st"
          using 3 \<open>i < len \<and> nat_at p i \<noteq> 255\<close> pi pl by (subst dhcp_options.simps, simp add: Let_def)+
        then show ?thesis by simp
      next
        case False
        then have "dhcp_options p len i st = dhcp_options p len (i + 2 + ?l) (dhcp_option p (i + 2) (nat_at p i) ?l st)"
          "dhcp_options q len i st = dhcp_options q len (i + 2 + ?l) (dhcp_option p (i + 2) (nat_at p i) ?l st)"
          using 3 \<open>i < len \<and> nat_at p i \<noteq> 255\<close> pi pl o by (subst dhcp_options.simps, simp add: Let_def)+
        then show ?thesis using "1.IH"(2) [OF True _ _ refl False "1.prems"] 3 by simp
      qed
    qed
  next
    case False
    then have "\<not> (i < len \<and> nat_at q i \<noteq> 255)" using 1(3) by auto
    then show ?thesis using False by (subst (1 2) dhcp_options.simps) simp
  qed
qed

lemma dhcp_parse_cong:
  assumes "\<forall>i<len. p i = q i"
  shows "dhcp_parse mac p len xid ps = dhcp_parse mac q len xid ps"
proof (cases "len < 241")
  case False
  then have e: "p i = q i" if "i < 241" for i using assms that by simp
  have r: "rd32 p i = rd32 q i" if "i \<le> 236" for i using e that by (intro rd32_cong) simp
  have "p 0 = q 0" "rd32 p 4 = rd32 q 4" "rd32 p 236 = rd32 q 236" "rd32 p 16 = rd32 q 16" using e r by simp_all
  moreover have "list_all (\<lambda>k. p (28 + k) = mac ! k) [0..<6] = list_all (\<lambda>k. q (28 + k) = mac ! k) [0..<6]" using e by (simp add: list_all_iff)
  ultimately show ?thesis using dhcp_options_cong [OF assms] unfolding dhcp_parse_def by simp
qed (simp add: dhcp_parse_def)

lemma dns_skip_name_cong: "\<forall>i<len. p i = q i \<Longrightarrow> dns_skip_name p len i = dns_skip_name q len i"
proof (induction p len i rule: dns_skip_name.induct)
  case (1 p len i)
  show ?case
  proof (cases "i < len")
    case True
    then have "q i = p i" using 1(2) by simp
    then show ?thesis using True 1 by (subst (1 2) dns_skip_name.simps) simp
  qed (subst (1 2) dns_skip_name.simps, simp)
qed

lemma dns_questions_cong: "\<forall>i<len. p i = q i \<Longrightarrow> dns_questions n p len pos = dns_questions n q len pos"
  by (induction n arbitrary: pos) (simp_all add: dns_skip_name_cong [of len p q] split: option.split)

lemma dns_answers_cong: "\<forall>i<len. p i = q i \<Longrightarrow> dns_answers n p len pos = dns_answers n q len pos"
proof (induction n arbitrary: pos)
  case (Suc n)
  show ?case
  proof (cases "dns_skip_name q len pos")
    case (Some k)
    show ?thesis
    proof (cases "k + 10 > len")
      case False
      then have "rd16 p k = rd16 q k" "rd16 p (k + 8) = rd16 q (k + 8)" using Suc.prems by (auto intro!: rd16_cong)
      moreover have "rd32 p (k + 10) = rd32 q (k + 10)" if "k + 10 + 4 \<le> len" using Suc.prems that by (intro rd32_cong) simp
      ultimately show ?thesis using Suc Some dns_skip_name_cong [OF Suc.prems] by (auto simp: Let_def)
    qed (use Some dns_skip_name_cong [OF Suc.prems] in simp)
  qed (use dns_skip_name_cong [OF Suc.prems] in simp)
qed simp

lemma dns_reply_cong:
  assumes "\<forall>i<len. p i = q i"
  shows "dns_reply p len ident = dns_reply q len ident"
proof (cases "len < 12")
  case False
  then have e: "p i = q i" if "i < 12" for i using assms that by simp
  then have "rd16 p 0 = rd16 q 0" "rd16 p 4 = rd16 q 4" "rd16 p 6 = rd16 q 6" "p 2 = q 2" "p 3 = q 3" by (simp_all add: rd16_def)
  then show ?thesis unfolding dns_reply_def by (simp add: dns_questions_cong [OF assms] dns_answers_cong [OF assms] split: option.split)
qed (simp add: dns_reply_def)

section \<open>A query and its answer\<close>

text \<open>The reply of a name server to a query: the question is repeated and the answer points back to the name in it.\<close>

definition dns_answer :: "nat \<Rightarrow> bytes \<Rightarrow> 32 word \<Rightarrow> 32 word \<Rightarrow> bytes" where
  "dns_answer ident q ttl ip =
     wr16 ident @ wr16 0x8180 @ wr16 1 @ wr16 1 @ wr16 0 @ wr16 0 @ drop 12 q
     @ [CHR 0xC0, CHR 0x0C] @ wr16 1 @ wr16 1 @ wr32 ttl @ wr16 4 @ wr32 ip"

lemma dns_skip_labels:
  assumes "dns_labels host = Some q" "\<forall>k<length q + 1. p (i + k) = (q @ [NUL]) ! k" "i + length q < len"
  shows "dns_skip_name p len i = Some (i + length q + 1)"
  using assms
proof (induction host arbitrary: q i rule: dns_labels.induct)
  case (1 host)
  show ?case
  proof (cases "host = []")
    case True
    then have "q = []" using 1(2) by (simp add: dns_labels.simps)
    then show ?thesis using 1(3,4) by (subst dns_skip_name.simps) simp
  next
    case False
    let ?l = "takeWhile (\<lambda>c. c \<noteq> CHR ''.'') host"
    have "(if length ?l < 1 \<or> length ?l > 63 then None
        else map_option (\<lambda>q. byte_of (length ?l) # ?l @ q) (dns_labels (drop (length ?l + 1) host))) = Some q"
      using False 1(2) by (subst (asm) dns_labels.simps) (simp add: Let_def)
    then obtain r where l: "1 \<le> length ?l" "length ?l \<le> 63" and r: "dns_labels (drop (length ?l + 1) host) = Some r"
      and q: "q = byte_of (length ?l) # ?l @ r" by (auto simp: Suc_le_eq split: if_splits)
    have pi: "p i = byte_of (length ?l)" using 1(3) q by (auto dest: spec [of _ 0])
    have "p (i + length ?l + 1 + k) = (r @ [NUL]) ! k" if "k < length r + 1" for k
      using spec [OF 1(3), of "length ?l + 1 + k"] that unfolding q by (simp add: nth_append add.commute add.left_commute)
    then have "dns_skip_name p len (i + length ?l + 1) = Some (i + length ?l + 1 + length r + 1)"
      using "1.IH" [OF False refl _ r, of "i + length ?l + 1"] l 1(4) q by (auto simp: Suc_le_eq)
    moreover have "dns_skip_name p len i = dns_skip_name p len (i + length ?l + 1)"
      using l pi 1(4) by (subst dns_skip_name.simps) (auto simp: Suc_le_eq)
    ultimately show ?thesis using q by simp
  qed
qed

lemma nth_mid: "length a = i \<Longrightarrow> k < length b \<Longrightarrow> (a @ b @ c) ! (i + k) = b ! k"
  by (simp add: nth_append)

lemma dns_answer_found:
  assumes "dns_query ident host = Some q" "ident < 65536"
  shows "dns_reply ((!) (dns_answer ident q ttl ip)) (length (dns_answer ident q ttl ip)) ident = Address ip"
proof -
  obtain l where l: "dns_labels host = Some l" and q: "drop 12 q = l @ [NUL] @ wr16 1 @ wr16 1"
    using assms(1) by (auto simp: dns_query_def)
  let ?h = "wr16 ident @ wr16 0x8180 @ wr16 1 @ wr16 1 @ wr16 0 @ wr16 0"
  let ?q = "?h @ l @ [NUL] @ wr16 1 @ wr16 1" and ?t = "wr16 1 @ wr32 ttl @ wr16 4 @ wr32 ip"
  let ?r = "?q @ [CHR 0xC0, CHR 0x0C] @ wr16 1 @ ?t"
  have r: "dns_answer ident q ttl ip = ?r" by (simp add: dns_answer_def q)
  have n: "length ?q = 17 + length l" "length ?r = 33 + length l" by simp_all
  have "dns_skip_name ((!) ?r) (length ?r) 12 = Some (12 + length l + 1)"
  proof (rule dns_skip_labels [OF l])
    show "\<forall>k<length l + 1. ?r ! (12 + k) = (l @ [NUL]) ! k"
      using nth_mid [of ?h 12 _ "l @ [NUL]" "wr16 1 @ wr16 1 @ [CHR 0xC0, CHR 0x0C] @ wr16 1 @ ?t"] by simp
  qed (use n in simp)
  then have qs: "dns_questions 1 ((!) ?r) (length ?r) 12 = Some (17 + length l)" by simp
  have c: "?r ! (17 + length l) = CHR 0xC0" using nth_mid [of ?q "17 + length l" 0 "[CHR 0xC0, CHR 0x0C]" "wr16 1 @ ?t"] n(1) by simp
  have sk: "dns_skip_name ((!) ?r) (length ?r) (17 + length l) = Some (19 + length l)"
    using n(2) c by (subst dns_skip_name.simps) simp
  have ty: "rd16 ((!) ?r) (19 + length l) = 1" using rd16_mid [of 1 "?q @ [CHR 0xC0, CHR 0x0C]" "19 + length l" ?t] n(1) by simp
  have rdl: "rd16 ((!) ?r) (27 + length l) = 4"
    using rd16_mid [of 4 "?q @ [CHR 0xC0, CHR 0x0C] @ wr16 1 @ wr16 1 @ wr32 ttl" "27 + length l" "wr32 ip"] n(1) by simp
  have ad: "rd32 ((!) ?r) (29 + length l) = ip"
    using rd32_mid [of "?q @ [CHR 0xC0, CHR 0x0C] @ wr16 1 @ wr16 1 @ wr32 ttl @ wr16 4" "29 + length l" ip "[]"] n(1) by simp
  have an: "dns_answers 1 ((!) ?r) (length ?r) (17 + length l) = Some ip" using n(2) sk ty rdl ad by (simp add: Let_def ac_simps)
  have id: "rd16 ((!) ?r) 0 = ident" using rd16_mid [of ident "[]" 0] assms(2) by simp
  have qd: "rd16 ((!) ?r) 4 = 1" using rd16_mid [of 1 "wr16 ident @ wr16 0x8180" 4] by simp
  have ac: "rd16 ((!) ?r) 6 = 1" using rd16_mid [of 1 "wr16 ident @ wr16 0x8180 @ wr16 1" 6] by simp
  have "nat_at ((!) ?r) 2 = 129" "nat_at ((!) ?r) 3 = 128" by (simp_all add: wr16_def)
  then show ?thesis unfolding r using qs an id qd ac by (simp add: dns_reply_def)
qed

subsection \<open>Properties\<close>

text \<open>C35. The parsers of DHCP and DNS replies read no byte behind the datagram: the result does not depend on what an
  earlier datagram left in the buffer.\<close>

theorem replies_read_in_bounds:
  assumes "\<forall>i<len. p i = q i"
  shows "dhcp_parse mac p len xid ps = dhcp_parse mac q len xid ps \<and> dns_reply p len ident = dns_reply q len ident"
  using dhcp_parse_cong [OF assms] dns_reply_cong [OF assms] by simp


lemma example_query: "\<exists>q. dns_query 7 ''a.bc'' = Some q"
proof -
  have "dns_labels [] = Some []" by (subst dns_labels.simps) simp
  then have "\<exists>q. dns_labels ''bc'' = Some q" by (subst dns_labels.simps) simp
  then have "\<exists>q. dns_labels ''a.bc'' = Some q" by (subst dns_labels.simps) auto
  then show ?thesis by (auto simp: dns_query_def)
qed


theorem replies_read_in_bounds_witness:
  "dhcp_parse (replicate 6 NUL) (\<lambda>i. if i < 3 then NUL else CHR ''x'') 3 1 no_params = dhcp_parse (replicate 6 NUL) (\<lambda>_. NUL) 3 1 no_params
   \<and> dns_reply (\<lambda>i. if i < 12 then CHR 0x80 else CHR ''x'') 12 0x8080 = dns_reply (\<lambda>_. CHR 0x80) 12 0x8080"
  using replies_read_in_bounds [of 3 "\<lambda>i. if i < 3 then NUL else CHR ''x''" "\<lambda>_. NUL" "replicate 6 NUL" 1 "no_params" 0]
    replies_read_in_bounds [of 12 "\<lambda>i. if i < 12 then CHR 0x80 else CHR ''x''" "\<lambda>_. CHR 0x80" "replicate 6 NUL" 1 "no_params" "0x8080"] by simp

end
