(* ===== verification/NetHttp.thy ===== *)
theory NetHttp
  imports NetWire CString
begin

section \<open>Addresses and bodies of HTTP (kernel/net.c)\<close>

text \<open>
  The parts of the HTTP client that work on text: splitting a URL, finding the end of the headers and decoding a
  chunked body in place. A \<^verbatim>\<open>const char *\<close> that walks over a string is the rest of the string, a host or path
  buffer the bytes written so far. \<open>dechunk\<close> works in the buffer as the code does; \<open>Wild\<close> stands for the copy whose
  length passed the 32-bit check by wrapping around, which overwrites memory far behind the buffer.

  The main theorem says that decoding inverts chunked encoding. The requests themselves, which need TLS or a
  connection, are not modelled.
\<close>

subsection \<open>URLs\<close>

abbreviation (input) NET_E_URL :: int where "NET_E_URL \<equiv> - 7"

record url =
  u_tls :: bool
  u_host :: bytes
  u_port :: nat
  u_path :: bytes

fun url_port :: "bytes \<Rightarrow> nat \<Rightarrow> nat \<times> bytes" where
  "url_port (c # s) p = (if is_digit_byte c then url_port s (u32 (p * 10 + (of_char c - 48))) else (p, c # s))"
| "url_port [] p = (p, [])"

definition parse_url :: "bytes \<Rightarrow> nat \<Rightarrow> nat \<Rightarrow> int + url" where
  "parse_url u hcap pcap =
     (let scheme = (if strncasecmp (Some u) (Some ''https://'') 8 = 0 then Some (True, drop 8 u)
                    else if strncasecmp (Some u) (Some ''http://'') 7 = 0 then Some (False, drop 7 u) else None) in
      case scheme of
        None \<Rightarrow> Inl NET_E_URL
      | Some (tls, u) \<Rightarrow>
          let host = take (hcap - 1) (takeWhile (\<lambda>c. c \<noteq> SLASH \<and> c \<noteq> CHR '':'') u); u = drop (length host) u in
          if host = [] then Inl NET_E_URL
          else let has_port = chr_at u 0 = CHR '':'';
                   (port, u) = (if has_port then url_port (drop 1 u) 0 else (if tls then 443 else 80, u)) in
          if has_port \<and> (port = 0 \<or> port > 65535) then Inl NET_E_URL
          else if u \<noteq> [] \<and> chr_at u 0 \<noteq> SLASH then Inl NET_E_URL
          else Inr \<lparr>u_tls = tls, u_host = host, u_port = port, u_path = take (pcap - 1) (if u = [] then ''/'' else u)\<rparr>)"

definition find_hdr_end :: "bytes \<Rightarrow> nat option" where
  "find_hdr_end b =
     map_option (\<lambda>i. i + 4)
       (find (\<lambda>i. b ! i = CHR 0x0D \<and> b ! (i + 1) = NEWLINE \<and> b ! (i + 2) = CHR 0x0D \<and> b ! (i + 3) = NEWLINE) [0..<length b - 3])"

subsection \<open>Chunked bodies\<close>

definition hex_val :: "byte \<Rightarrow> nat option" where
  "hex_val c =
     (let v = of_char c in
      if 48 \<le> v \<and> v \<le> 57 then Some (v - 48)
      else if 97 \<le> v \<and> v \<le> 102 then Some (v - 97 + 10)
      else if 65 \<le> v \<and> v \<le> 70 then Some (v - 65 + 10)
      else None)"

definition chunk_size :: "bytes \<Rightarrow> nat" where
  "chunk_size ds = foldl (\<lambda>sz c. u32 (sz * 16 + the (hex_val c))) 0 ds"

datatype dechunked = Bad_Chunk | Decoded bytes | Wild

text \<open>The position behind a chunk, without the line end that may follow.\<close>

definition skip_crlf :: "bytes \<Rightarrow> nat \<Rightarrow> nat \<Rightarrow> nat" where
  "skip_crlf b n i =
     (let i = (if i < n \<and> b ! i = CHR 0x0D then i + 1 else i)
      in if i < n \<and> b ! i = NEWLINE then i + 1 else i)"

lemma skip_crlf_ge: "i \<le> skip_crlf b n i"
  by (simp add: skip_crlf_def Let_def)

text \<open>What is left to read of the first \<open>n\<close> bytes.\<close>

abbreviation unread :: "bytes \<Rightarrow> nat \<Rightarrow> nat \<Rightarrow> bytes" where "unread b n i \<equiv> drop i (take n b)"

function dechunk_loop :: "bytes \<Rightarrow> nat \<Rightarrow> nat \<Rightarrow> nat \<Rightarrow> dechunked" where
  "dechunk_loop b n i out =
     (let ds = takeWhile (\<lambda>c. hex_val c \<noteq> None) (unread b n i); sz = chunk_size ds; j = i + length ds;
          k = j + length (takeWhile (\<lambda>c. c \<noteq> NEWLINE) (unread b n j)) + 1;
          b' = patch out (take sz (drop k b)) b in
      if ds = [] then Bad_Chunk
      else if sz = 0 then Decoded (take out b)
      else if u32 (k + sz) > n then Bad_Chunk
      else if k + sz > n then Wild
      else dechunk_loop b' n (skip_crlf b' n (k + sz)) (out + sz))"
  by pat_completeness auto
termination
proof (relation "measure (\<lambda>(b, n, i, out). n - i)", goal_cases)
  case (2 b n i out ds sz j k b')
  have "i < n" using 2(1,6) by (cases "i < n") auto
  moreover have "i < k" using 2(3,4) by simp
  ultimately show ?case using skip_crlf_ge [of "k + sz" b' n] by simp
qed simp

declare dechunk_loop.simps [simp del]

definition dechunk :: "bytes \<Rightarrow> dechunked" where
  "dechunk b = dechunk_loop b (length b) 0 0"

section \<open>Decoding inverts encoding\<close>

text \<open>A chunked body: each piece with its size in hexadecimal, and a piece of size zero at the end.\<close>

fun hex_digits :: "nat \<Rightarrow> bytes" where
  "hex_digits n = (if n < 16 then [''0123456789abcdef'' ! n] else hex_digits (n div 16) @ [''0123456789abcdef'' ! (n mod 16)])"

declare hex_digits.simps [simp del]

abbreviation (input) CRLF :: bytes where "CRLF \<equiv> [CHR 0x0D, NEWLINE]"

definition chunk :: "bytes \<Rightarrow> bytes" where
  "chunk c = hex_digits (length c) @ CRLF @ c @ CRLF"

definition chunked :: "bytes list \<Rightarrow> bytes" where
  "chunked cs = concat (map chunk cs) @ ''0'' @ CRLF @ CRLF"

lemma hex_digit: "d < 16 \<Longrightarrow> hex_val (''0123456789abcdef'' ! d) = Some d"
proof -
  assume "d < 16"
  moreover have "\<forall>d\<in>set [0..<16]. hex_val (''0123456789abcdef'' ! d) = Some d" by code_simp
  ultimately show ?thesis by simp
qed

lemma hex_digits_all: "\<forall>c\<in>set (hex_digits n). hex_val c \<noteq> None"
proof (induction n rule: hex_digits.induct)
  case (1 n)
  then show ?case using hex_digit [of n] hex_digit [of "n mod 16"] by (subst hex_digits.simps) auto
qed

lemma chunk_size_append: "chunk_size (ds @ [c]) = u32 (chunk_size ds * 16 + the (hex_val c))"
  by (simp add: chunk_size_def)

lemma chunk_size_hex: "n < 4294967296 \<Longrightarrow> chunk_size (hex_digits n) = n"
proof (induction n rule: hex_digits.induct)
  case (1 n)
  show ?case
  proof (cases "n < 16")
    case True
    then show ?thesis using hex_digit [OF True] by (subst hex_digits.simps) (simp add: chunk_size_def)
  next
    case False
    have "chunk_size (hex_digits (n div 16)) = n div 16" using 1 False by simp
    then show ?thesis using 1(2) False hex_digit [of "n mod 16"] by (subst hex_digits.simps) (simp add: chunk_size_append)
  qed
qed

lemma hex_digits_ne: "hex_digits n \<noteq> []"
  by (subst hex_digits.simps) simp

text \<open>One round of the loop, for a buffer whose unread part starts with a chunk.\<close>

lemma takeWhile_hex: "takeWhile (\<lambda>c. hex_val c \<noteq> None) (hex_digits m @ CHR 0x0D # r) = hex_digits m"
proof -
  have "hex_val (CHR 0x0D) = None" by code_simp
  then show ?thesis using hex_digits_all [of m] by (simp add: takeWhile_append)
qed

lemma dechunk_step:
  assumes b: "drop i b = chunk c @ r" and c: "c \<noteq> []" and n: "length b < 2147483648" and o: "out \<le> i"
  shows "\<exists>b'. dechunk_loop b (length b) i out = dechunk_loop b' (length b') (i + length (chunk c)) (out + length c)
    \<and> length b' = length b \<and> take (out + length c) b' = take out b @ c \<and> drop (i + length (chunk c)) b' = r"
proof -
  let ?h = "hex_digits (length c)"
  define j k where "j = i + length ?h" and "k = i + length ?h + 2"
  have i: "i < length b" using b c by (metis append_is_Nil_conv chunk_def drop_all linorder_not_less)
  have le: "length b = i + length (chunk c) + length r" using b i by (metis add.assoc le_add_diff_inverse length_append length_drop less_imp_le)
  have lc: "length (chunk c) = length ?h + length c + 4" by (simp add: chunk_def)
  have ds: "takeWhile (\<lambda>x. hex_val x \<noteq> None) (unread b (length b) i) = ?h" using b takeWhile_hex [of "length c"] by (simp add: chunk_def)
  have sz: "chunk_size ?h = length c" using chunk_size_hex [of "length c"] le lc n by simp
  have dj: "drop j b = CRLF @ c @ CRLF @ r" using b by (simp add: j_def chunk_def flip: drop_drop add.commute [of "length ?h"])
  then have nl: "length (takeWhile (\<lambda>x. x \<noteq> NEWLINE) (unread b (length b) j)) = 1" by simp
  have dk: "drop k b = c @ CRLF @ r"
  proof -
    have "drop k b = drop 2 (drop j b)" by (simp add: j_def k_def add.commute)
    then show ?thesis unfolding dj by simp
  qed
  define b' where "b' = patch out c b"
  have lb: "length b' = length b" using o le lc by (simp add: b'_def)
  have db: "drop m b' = drop m b" if "out + length c \<le> m" for m using that o le lc by (simp add: b'_def patch_def)
  have out: "out + length c \<le> k + length c" using o by (simp add: k_def)
  have dkc: "drop (k + length c) b' = CRLF @ r"
  proof -
    have "drop (k + length c) b = drop (length c) (drop k b)" by (simp add: add.commute)
    then show ?thesis using db [OF out] unfolding dk by simp
  qed
  have sk: "skip_crlf b' (length b) (k + length c) = k + length c + 2"
  proof -
    have "b' ! (k + length c) = CHR 0x0D" "b' ! (k + length c + 1) = NEWLINE" "k + length c + 1 < length b"
      using nth_via_drop [OF dkc [simplified]] arg_cong [OF dkc, of "\<lambda>x. x ! 1"] arg_cong [OF dkc, of length] lb le lc by (auto simp: k_def)
    then show ?thesis by (simp add: skip_crlf_def)
  qed
  have e: "k + length c + 2 = i + length (chunk c)" by (simp add: lc k_def)
  have "u32 (k + length c) = k + length c" "k + length c \<le> length b" using le lc n by (simp_all add: k_def)
  then have "dechunk_loop b (length b) i out = dechunk_loop b' (length b') (i + length (chunk c)) (out + length c)"
    using ds sz nl dk c sk e hex_digits_ne [of "length c"]
    by (subst dechunk_loop.simps) (simp add: Let_def lb b'_def [symmetric] flip: j_def, simp add: j_def k_def b'_def)
  moreover have "take (out + length c) b' = take out b @ c" using o i by (simp add: b'_def patch_def)
  moreover have "drop (i + length (chunk c)) b' = r"
  proof -
    have "drop (i + length (chunk c)) b' = drop 2 (drop (k + length c) b')" by (simp add: e [symmetric] add.commute)
    then show ?thesis unfolding dkc by simp
  qed
  ultimately show ?thesis using lb by blast
qed
lemma dechunk_last: "drop i b = ''0'' @ CRLF @ CRLF \<Longrightarrow> dechunk_loop b (length b) i out = Decoded (take out b)"
proof -
  assume "drop i b = ''0'' @ CRLF @ CRLF"
  moreover have "hex_val (CHR ''0'') = Some 0" "hex_val (CHR 0x0D) = None" by code_simp+
  ultimately have "takeWhile (\<lambda>c. hex_val c \<noteq> None) (unread b (length b) i) = ''0''" "chunk_size ''0'' = 0" by (simp_all add: chunk_size_def)
  then show ?thesis by (subst dechunk_loop.simps) (simp add: Let_def)
qed

lemma dechunk_loop_chunked:
  assumes "drop i b = chunked cs" "[] \<notin> set cs" "length b < 2147483648" "out \<le> i"
  shows "dechunk_loop b (length b) i out = Decoded (take out b @ concat cs)"
  using assms
proof (induction cs arbitrary: i b out)
  case Nil
  then show ?case using dechunk_last by (simp add: chunked_def)
next
  case (Cons c cs)
  have "drop i b = chunk c @ chunked cs" using Cons.prems(1) by (simp add: chunked_def)
  from dechunk_step [OF this _ Cons.prems(3,4)] obtain b' where b':
    "dechunk_loop b (length b) i out = dechunk_loop b' (length b') (i + length (chunk c)) (out + length c)"
    "length b' = length b" "take (out + length c) b' = take out b @ c" "drop (i + length (chunk c)) b' = chunked cs" using Cons.prems(2) by auto
  have "dechunk_loop b' (length b') (i + length (chunk c)) (out + length c) = Decoded (take (out + length c) b' @ concat cs)"
    by (rule Cons.IH) (use b' Cons.prems in \<open>auto simp: chunk_def\<close>)
  then show ?case using b' by simp
qed

subsection \<open>Properties\<close>

text \<open>C33. Decoding a chunked body in place inverts the encoding: for every list of non-empty pieces whose encoding fits
  the 31 bits of a result, the decoded bytes are the pieces in order.\<close>

theorem dechunk_decodes:
  assumes "[] \<notin> set cs" "length (chunked cs) < 2147483648"
  shows "dechunk (chunked cs) = Decoded (concat cs)"
  using dechunk_loop_chunked [of 0 "chunked cs" cs 0] assms by (simp add: dechunk_def)

theorem dechunk_decodes_witness: "dechunk (chunked [''hello '', ''world'']) = Decoded ''hello world''"
proof -
  have "length (hex_digits n) = 1" if "n < 16" for n using that by (subst hex_digits.simps) simp
  then have "length (chunked [''hello '', ''world'']) < 2147483648" by (simp add: chunked_def chunk_def)
  then show ?thesis using dechunk_decodes [of "[''hello '', ''world'']"] by simp
qed

text \<open>A chunk size close to 4 GiB passes the check, because the sum wraps around, and the copy leaves the buffer.\<close>

theorem dechunk_size_wraps: "dechunk (''FFFFFFFF'' @ CRLF) = Wild"
proof -
  have "takeWhile (\<lambda>c. hex_val c \<noteq> None) (''FFFFFFFF'' @ CRLF) = ''FFFFFFFF''" by code_simp
  moreover have "chunk_size ''FFFFFFFF'' = 4294967295"
  proof -
    have "the (hex_val (CHR ''F'')) = 15" by code_simp
    then show ?thesis by (simp add: chunk_size_def u32_def)
  qed
  ultimately show ?thesis unfolding dechunk_def by (subst dechunk_loop.simps) (simp add: Let_def u32_def)
qed

text \<open>The end of the headers is behind the first empty line.\<close>

lemma find_hdr_end_some:
  assumes "find_hdr_end b = Some e"
  shows "4 \<le> e \<and> e \<le> length b \<and> take 4 (drop (e - 4) b) = CRLF @ CRLF"
proof -
  obtain i where i: "e = i + 4" "i < length b - 3"
    "b ! i = CHR 0x0D" "b ! (i + 1) = NEWLINE" "b ! (i + 2) = CHR 0x0D" "b ! (i + 3) = NEWLINE"
    using assms by (auto simp: find_hdr_end_def find_Some_iff)
  then have "i + 3 < length b" by simp
  then have "drop i b = b ! i # b ! (i + 1) # b ! (i + 2) # b ! (i + 3) # drop (i + 4) b"
    by (simp add: Cons_nth_drop_Suc numeral_eq_Suc)
  then show ?thesis using i by simp
qed

lemma find_hdr_end_first:
  assumes "find_hdr_end b = Some e" "i + 4 < e"
  shows "take 4 (drop i b) \<noteq> CRLF @ CRLF"
proof
  assume a: "take 4 (drop i b) = CRLF @ CRLF"
  have "take 4 (drop i b) ! k = b ! (i + k)" if "k < 4" "i + 4 < length b" for k using that by simp
  moreover have "i + 4 < length b" using find_hdr_end_some [OF assms(1)] assms(2) by simp
  ultimately have "b ! (i + k) = (CRLF @ CRLF) ! k" if "k < 4" for k using a that by metis
  from this [of 0] this [of 1] this [of 2] this [of 3]
  have "b ! i = CHR 0x0D" "b ! (i + 1) = NEWLINE" "b ! (i + 2) = CHR 0x0D" "b ! (i + 3) = NEWLINE" by simp_all
  then show False using assms by (auto simp: find_hdr_end_def find_Some_iff)
qed

end
