(* ===== verification/LinuxFd.thy ===== *)
theory LinuxFd
  imports FsReach
begin

section \<open>Files of Linux programs (kernel/linux.c)\<close>

text \<open>
  The file descriptors of a Linux program and the system calls on them, as operations on the filesystem. The static
  variables of linux.c are the fields of \<open>lx\<close>, a descriptor is an \<open>lfile\<close>. A descriptor that only reads points into the
  file pool; one that writes works on a copy in one of two staging slots of 2 MiB, which is written back when the
  descriptor is closed or the program ends.

  The data pointer of a descriptor is an \<open>fptr\<close>: null, an offset in the file pool, a slot, or the buffer with the
  listing of a directory. The slots are one array, as in the code, so a store behind the first one reaches the second;
  \<open>lx_wild\<close> records an access behind both. Results are the values of \<^verbatim>\<open>eax\<close> as signed numbers, an error number \<open>e\<close> is
  \<open>- e\<close>; what a call stores in the buffer of the program is the list of bytes in its result. Lines typed are read from
  \<open>lx_kbd\<close> (\<^term>\<open>None\<close> for the end of input), text written to the console is appended to \<open>console\<close>. Buffers of
  programs are not null.
\<close>

datatype fptr = Null | Pool nat | Scratch nat | Listing

record lfile =
  lf_used :: bool
  lf_dir :: bool
  lf_writable :: bool
  lf_dirty :: bool
  lf_append :: bool
  lf_zero :: bool
  lf_path :: bytes
  lf_pos :: nat
  lf_len :: nat
  lf_dpos :: nat
  lf_data :: fptr
  lf_cap :: nat
  lf_slot :: "nat option"

record lx =
  lfs :: fs
  lfd :: "nat \<Rightarrow> lfile"
  scratch :: mem
  slot_used :: "nat \<Rightarrow> bool"
  dir_list :: mem
  lx_stdin :: bytes
  lx_kbd :: "bytes option list"
  console :: bytes
  lx_wild :: bool

abbreviation (input) LINUX_MAX_FD :: nat where "LINUX_MAX_FD \<equiv> 6"
abbreviation (input) SLOT_BYTES :: nat where "SLOT_BYTES \<equiv> 2097152"
abbreviation (input) LX_FILE_MAX :: nat where "LX_FILE_MAX \<equiv> 33554432"

abbreviation (input) ENOENT :: int where "ENOENT \<equiv> - 2"
abbreviation (input) EBADF :: int where "EBADF \<equiv> - 9"
abbreviation (input) ENOMEM :: int where "ENOMEM \<equiv> - 12"
abbreviation (input) EACCES :: int where "EACCES \<equiv> - 13"
abbreviation (input) EEXIST :: int where "EEXIST \<equiv> - 17"
abbreviation (input) ENOTDIR :: int where "ENOTDIR \<equiv> - 20"
abbreviation (input) EISDIR :: int where "EISDIR \<equiv> - 21"
abbreviation (input) EINVAL :: int where "EINVAL \<equiv> - 22"
abbreviation (input) EMFILE :: int where "EMFILE \<equiv> - 24"
abbreviation (input) ENOSPC :: int where "ENOSPC \<equiv> - 28"

text \<open>The flags of \<^verbatim>\<open>open\<close> by their bits: O_WRONLY 0, O_RDWR 1, O_CREAT 6, O_EXCL 7, O_TRUNC 9, O_APPEND 10.\<close>

definition s32 :: "int \<Rightarrow> int" where
  "s32 i = (i + 2147483648) mod 4294967296 - 2147483648"

subsection \<open>Memory behind a descriptor\<close>

definition put_at :: "nat \<Rightarrow> bytes \<Rightarrow> mem \<Rightarrow> mem" where
  "put_at a bs m = (\<lambda>i. if a \<le> i \<and> i < a + length bs then bs ! (i - a) else m i)"

definition get_at :: "nat \<Rightarrow> nat \<Rightarrow> mem \<Rightarrow> bytes" where
  "get_at a n m = map m [a..<a + n]"

definition ptr_read :: "fptr \<Rightarrow> nat \<Rightarrow> nat \<Rightarrow> lx \<Rightarrow> bytes" where
  "ptr_read p off n s =
     (case p of
        Null \<Rightarrow> replicate n NUL
      | Pool q \<Rightarrow> pool_read (q + off) n (fs_pool (lfs s))
      | Scratch k \<Rightarrow> get_at (k * SLOT_BYTES + off) n (scratch s)
      | Listing \<Rightarrow> get_at off n (dir_list s))"

definition ptr_write :: "fptr \<Rightarrow> nat \<Rightarrow> bytes \<Rightarrow> lx \<Rightarrow> lx" where
  "ptr_write p off bs s =
     (case p of
        Null \<Rightarrow> s\<lparr>lx_wild := True\<rparr>
      | Pool q \<Rightarrow> s\<lparr>lfs := (lfs s)\<lparr>fs_pool := pool_write (q + off) bs (fs_pool (lfs s))\<rparr>\<rparr>
      | Scratch k \<Rightarrow>
          s\<lparr>scratch := put_at (k * SLOT_BYTES + off) bs (scratch s),
            lx_wild := (lx_wild s \<or> k * SLOT_BYTES + off + length bs > 2 * SLOT_BYTES)\<rparr>
      | Listing \<Rightarrow> s\<lparr>dir_list := put_at off bs (dir_list s)\<rparr>)"

definition on_fd :: "nat \<Rightarrow> (lfile \<Rightarrow> lfile) \<Rightarrow> lx \<Rightarrow> lx" where
  "on_fd i g s = s\<lparr>lfd := (lfd s)(i := g (lfd s i))\<rparr>"

subsection \<open>Staging slots, paths and descriptors\<close>

definition slot_claim :: "lx \<Rightarrow> nat option \<times> lx" where
  "slot_claim s =
     (case find (\<lambda>i. \<not> slot_used s i) [0..<2] of
        Some i \<Rightarrow> (Some i, s\<lparr>slot_used := (slot_used s)(i := True)\<rparr>)
      | None \<Rightarrow> (None, s))"

definition slot_release :: "nat option \<Rightarrow> lx \<Rightarrow> lx" where
  "slot_release k s =
     (case k of None \<Rightarrow> s | Some k \<Rightarrow> if k < 2 then s\<lparr>slot_used := (slot_used s)(k := False)\<rparr> else s)"

definition lxnorm :: "cptr \<Rightarrow> fs \<Rightarrow> cptr" where
  "lxnorm path s =
     (case path of
        None \<Rightarrow> None
      | Some p \<Rightarrow>
          if chr_at p 0 = NUL then Some p
          else if chr_at p 0 = CHR ''.'' \<and> (chr_at p 1 = NUL \<or> chr_at p 1 = SLASH \<and> chr_at p 2 = NUL)
          then Some (fs_get_current_path s)
          else Some (take 255 (cstr (if chr_at p 0 = CHR ''.'' \<and> chr_at p 1 = SLASH then drop 2 p else p))))"

definition fd_get :: "nat \<Rightarrow> lx \<Rightarrow> lfile option" where
  "fd_get fd s = (if fd < 3 \<or> fd \<ge> LINUX_MAX_FD \<or> \<not> lf_used (lfd s fd) then None else Some (lfd s fd))"

definition free_fd :: "lx \<Rightarrow> nat option" where
  "free_fd s = find (\<lambda>i. \<not> lf_used (lfd s i)) [3..<LINUX_MAX_FD]"

definition fd_flush :: "nat \<Rightarrow> lx \<Rightarrow> lx" where
  "fd_flush i s =
     (let f = lfd s i in
      on_fd i (\<lambda>f. f\<lparr>lf_dirty := False\<rparr>)
        (if lf_dirty f \<and> lf_writable f \<and> \<not> lf_zero f
         then s\<lparr>lfs := snd (fs_write_file (Some (lf_path f)) (if lf_data f = Null then None else Some (ptr_read (lf_data f) 0 (lf_len f) s))
                  (lf_len f) (lfs s))\<rparr>
         else s))"

definition fd_flush_all :: "lx \<Rightarrow> lx" where
  "fd_flush_all s = foldl (\<lambda>s i. if lf_used (lfd s i) then fd_flush i s else s) s [0..<LINUX_MAX_FD]"

text \<open>A descriptor after \<^verbatim>\<open>memset\<close>, and the table with which a program starts.\<close>

definition zero_file :: lfile where
  "zero_file = \<lparr>lf_used = False, lf_dir = False, lf_writable = False, lf_dirty = False, lf_append = False, lf_zero = False,
     lf_path = [], lf_pos = 0, lf_len = 0, lf_dpos = 0, lf_data = Null, lf_cap = 0, lf_slot = Some 0\<rparr>"

definition start_fds :: "lx \<Rightarrow> lx" where
  "start_fds s = s\<lparr>slot_used := (\<lambda>_. False), lfd := (\<lambda>i. zero_file\<lparr>lf_used := i < 3\<rparr>), lx_stdin := []\<rparr>"

subsection \<open>Opening\<close>

definition open_fail :: "nat \<Rightarrow> bool \<Rightarrow> int \<Rightarrow> lx \<Rightarrow> int \<times> lx" where
  "open_fail i release e s =
     (e, (if release then slot_release (lf_slot (lfd s i)) else id) (on_fd i (\<lambda>f. f\<lparr>lf_used := False\<rparr>) s))"

definition open_dir :: "nat \<Rightarrow> bytes \<Rightarrow> lx \<Rightarrow> int \<times> lx" where
  "open_dir i p s =
     (let s = on_fd i (\<lambda>f. f\<lparr>lf_dir := True\<rparr>) s in
      case fs_list_directory (Some p) True (lfs s) of
        (rc, b, t) \<Rightarrow>
          let l = (case b of Some l \<Rightarrow> l | None \<Rightarrow> []); s = ptr_write Listing 0 (l @ [NUL]) (s\<lparr>lfs := t\<rparr>) in
          if rc \<noteq> 0 then open_fail i False EACCES s
          else (int i, on_fd i (\<lambda>f. f\<lparr>lf_len := length l, lf_data := Listing, lf_path := take 255 p\<rparr>) s))"

definition open_new :: "nat \<Rightarrow> bytes \<Rightarrow> nat \<Rightarrow> lx \<Rightarrow> int \<times> lx" where
  "open_new i p flags s =
     (if \<not> bit flags 6 then open_fail i True ENOENT s
      else if bit flags 7 then open_fail i True EEXIST s
      else case fs_create_file (Some p) (lfs s) of
        (cr, t) \<Rightarrow>
          let s = s\<lparr>lfs := t\<rparr> in
          if cr \<noteq> 0 then open_fail i True (if cr = - 2 then EACCES else ENOENT) s
          else (int i, on_fd i (\<lambda>f. f\<lparr>lf_path := take 255 p, lf_len := 0, lf_dirty := True\<rparr>) s))"

definition open_modes :: "nat \<Rightarrow> bytes \<Rightarrow> nat \<Rightarrow> lx \<Rightarrow> int \<times> lx" where
  "open_modes i p flags s =
     (let s = on_fd i (\<lambda>f. f\<lparr>lf_path := take 255 p\<rparr>) s;
          s = (if bit flags 9 \<and> lf_writable (lfd s i) then on_fd i (\<lambda>f. f\<lparr>lf_len := 0, lf_dirty := True\<rparr>) s else s);
          s = (if bit flags 10 then on_fd i (\<lambda>f. f\<lparr>lf_append := True, lf_pos := lf_len f\<rparr>) s else s)
      in (int i, s))"

definition open_file :: "nat \<Rightarrow> bytes \<Rightarrow> nat \<Rightarrow> lx \<Rightarrow> int \<times> lx" where
  "open_file i p flags s =
     (if \<not> lf_writable (lfd s i) then
        (case fs_file_data_ptr (Some p) (lfs s) of
           (d, sz, t) \<Rightarrow>
             let s = s\<lparr>lfs := t\<rparr> in
             if d = None \<and> fs_errno t = 13 then open_fail i False EACCES s
             else open_modes i p flags
                    (on_fd i (\<lambda>f. f\<lparr>lf_data := (case d of None \<Rightarrow> Null | Some q \<Rightarrow> Pool q),
                       lf_len := (case sz of None \<Rightarrow> LX_FILE_MAX | Some n \<Rightarrow> n), lf_zero := True\<rparr>) s))
      else
        (case fs_read_file (Some p) True LX_FILE_MAX (lfs s) of
           (rc, b, t) \<Rightarrow>
             let s = s\<lparr>lfs := t\<rparr>; c = (case b of Some c \<Rightarrow> c | None \<Rightarrow> []);
                 s = (if b = None then s else ptr_write (lf_data (lfd s i)) 0 (c @ [NUL]) s) in
             if rc \<noteq> 0 then open_fail i True EACCES s
             else if length c > lf_cap (lfd s i) then open_fail i True ENOSPC s
             else open_modes i p flags (on_fd i (\<lambda>f. f\<lparr>lf_len := length c\<rparr>) s)))"

definition open_at :: "nat \<Rightarrow> bytes \<Rightarrow> nat \<Rightarrow> lx \<Rightarrow> int \<times> lx" where
  "open_at i p flags s =
     (if fs_directory_exists (lfs s) (Some p) then open_dir i p s
      else if \<not> fs_file_exists (lfs s) (Some p) then open_new i p flags s
      else open_file i p flags s)"

definition sys_open :: "cptr \<Rightarrow> nat \<Rightarrow> lx \<Rightarrow> int \<times> lx" where
  "sys_open path flags s =
     (if null_or_empty path then (ENOENT, s)
      else let p = lxnorm path (lfs s) in
      if null_or_empty p then (ENOENT, s)
      else case free_fd s of
        None \<Rightarrow> (ENOMEM, s)
      | Some i \<Rightarrow>
          let w = bit flags 0 \<or> bit flags 1;
              s = on_fd i (\<lambda>_. zero_file\<lparr>lf_used := True, lf_slot := None, lf_writable := w\<rparr>) s;
              (k, s) = (if w then slot_claim s else (None, s)) in
          if w \<and> k = None then open_fail i False ENOMEM s
          else open_at i (the p) flags
                 (case k of None \<Rightarrow> s | Some k \<Rightarrow> on_fd i (\<lambda>f. f\<lparr>lf_slot := Some k, lf_data := Scratch k, lf_cap := SLOT_BYTES\<rparr>) s))"

subsection \<open>Closing, reading and writing\<close>

definition slot_shared :: "nat \<Rightarrow> lx \<Rightarrow> bool" where
  "slot_shared fd s = list_ex (\<lambda>i. lf_used (lfd s i) \<and> i \<noteq> fd \<and> lf_slot (lfd s i) = lf_slot (lfd s fd)) [3..<LINUX_MAX_FD]"

definition sys_close :: "nat \<Rightarrow> lx \<Rightarrow> int \<times> lx" where
  "sys_close fd s =
     (case fd_get fd s of
        None \<Rightarrow> (EBADF, s)
      | Some f \<Rightarrow>
          let s = fd_flush fd s; s = (if slot_shared fd s then s else slot_release (lf_slot (lfd s fd)) s)
          in (0, on_fd fd (\<lambda>f. f\<lparr>lf_slot := None, lf_used := False\<rparr>) s))"

text \<open>A read of the terminal: the rest of the line, or a new line when nothing is left of the last.\<close>

definition read_tty :: "nat \<Rightarrow> lx \<Rightarrow> int \<times> bytes \<times> lx" where
  "read_tty count s =
     (if count = 0 then (0, [], s)
      else let s = (if lx_stdin s \<noteq> [] then s
                    else case lx_kbd s of
                      [] \<Rightarrow> s
                    | None # ks \<Rightarrow> s\<lparr>lx_kbd := ks\<rparr>
                    | Some l # ks \<Rightarrow> s\<lparr>lx_kbd := ks, lx_stdin := l @ [NEWLINE]\<rparr>);
               b = take count (lx_stdin s)
           in (int (length b), b, s\<lparr>lx_stdin := drop count (lx_stdin s)\<rparr>))"

definition read_bytes :: "nat \<Rightarrow> nat \<Rightarrow> lx \<Rightarrow> int \<times> bytes \<times> lx" where
  "read_bytes fd count s =
     (let f = lfd s fd in
      if lf_pos f \<ge> lf_len f then (0, [], s)
      else let n = min count (lf_len f - lf_pos f) in
           (int n, ptr_read (lf_data f) (lf_pos f) n s, on_fd fd (\<lambda>f. f\<lparr>lf_pos := lf_pos f + n\<rparr>) s))"

definition sys_read :: "nat \<Rightarrow> nat \<Rightarrow> lx \<Rightarrow> int \<times> bytes \<times> lx" where
  "sys_read fd count s =
     (if fd = 0 \<and> \<not> (lf_used (lfd s 0) \<and> lf_path (lfd s 0) \<noteq> [] \<and> \<not> lf_dir (lfd s 0)) then read_tty count s
      else case fd_get fd s of
        None \<Rightarrow> (EBADF, [], s)
      | Some f \<Rightarrow>
          if lf_dir f then (EISDIR, [], s)
          else if lf_zero f then
            (case fs_file_data_ptr (Some (lf_path f)) (lfs s) of
               (d, sz, t) \<Rightarrow>
                 let s = s\<lparr>lfs := t\<rparr> in
                 case d of
                   None \<Rightarrow> if fs_errno t = 13 then (EACCES, [], s) else (0, [], on_fd fd (\<lambda>f. f\<lparr>lf_len := 0\<rparr>) s)
                 | Some q \<Rightarrow> read_bytes fd count (on_fd fd (\<lambda>f. f\<lparr>lf_data := Pool q, lf_len := the sz\<rparr>) s))
          else read_bytes fd count s)"

definition put_bytes :: "nat \<Rightarrow> bytes \<Rightarrow> lx \<Rightarrow> int \<times> lx" where
  "put_bytes fd d s =
     (let f = lfd s fd; room = u32 (4294967296 + lf_cap f - lf_pos f); n = min (length d) room in
      (int n, on_fd fd (\<lambda>f. f\<lparr>lf_pos := lf_pos f + n, lf_len := max (lf_len f) (lf_pos f + n), lf_dirty := True\<rparr>)
                (ptr_write (lf_data f) (lf_pos f) (take n d) s)))"

definition sys_write :: "nat \<Rightarrow> bytes \<Rightarrow> lx \<Rightarrow> int \<times> lx" where
  "sys_write fd d s =
     (if (fd = 1 \<or> fd = 2) \<and> \<not> (lf_used (lfd s fd) \<and> lf_writable (lfd s fd) \<and> lf_path (lfd s fd) \<noteq> [])
      then (int (length d), s\<lparr>console := console s @ d\<rparr>)
      else case fd_get fd s of
        None \<Rightarrow> (EBADF, s)
      | Some f \<Rightarrow>
          if \<not> lf_writable f then (EBADF, s)
          else if lf_dir f then (EISDIR, s)
          else let s = (if lf_append f then on_fd fd (\<lambda>f. f\<lparr>lf_pos := lf_len f\<rparr>) s else s); f = lfd s fd in
          if lf_pos f > lf_len f then
            if lf_pos f > lf_cap f then (ENOSPC, s)
            else put_bytes fd d (on_fd fd (\<lambda>f. f\<lparr>lf_len := lf_pos f\<rparr>)
                   (ptr_write (lf_data f) (lf_len f) (replicate (lf_pos f - lf_len f) NUL) s))
          else put_bytes fd d s)"

primrec writev_loop :: "nat \<Rightarrow> bytes list \<Rightarrow> int \<Rightarrow> lx \<Rightarrow> int \<times> lx" where
  "writev_loop fd [] tot s = (tot, s)"
| "writev_loop fd (b # bs) tot s =
     (case sys_write fd b s of
        (w, s) \<Rightarrow>
          if w = EBADF then (w, s)
          else if 0 \<le> w \<and> w < int (length b) then (s32 (tot + w), s)
          else writev_loop fd bs (s32 (tot + w)) s)"

definition sys_writev :: "nat \<Rightarrow> bytes list \<Rightarrow> lx \<Rightarrow> int \<times> lx" where
  "sys_writev fd iov s = writev_loop fd iov 0 s"

definition sys_pread64 :: "nat \<Rightarrow> nat \<Rightarrow> nat \<Rightarrow> lx \<Rightarrow> int \<times> bytes" where
  "sys_pread64 fd count off s =
     (case fd_get fd s of
        None \<Rightarrow> (EBADF, [])
      | Some f \<Rightarrow>
          if lf_dir f then (EBADF, [])
          else let n = min count (lf_len f - off) in (int n, ptr_read (lf_data f) off n s))"

text \<open>The loop of \<^verbatim>\<open>readv\<close> over the lengths of the buffers.\<close>

primrec readv_loop :: "nat \<Rightarrow> nat list \<Rightarrow> int \<Rightarrow> bytes \<Rightarrow> lx \<Rightarrow> int \<times> bytes \<times> lx" where
  "readv_loop fd [] tot out s = (tot, out, s)"
| "readv_loop fd (n # ns) tot out s =
     (case sys_read fd n s of
        (rd, b, s) \<Rightarrow>
          if rd < 0 then (rd, out @ b, s)
          else if rd < int n then (s32 (tot + rd), out @ b, s)
          else readv_loop fd ns (s32 (tot + rd)) (out @ b) s)"

subsection \<open>Seeking and listing\<close>

definition seek_new_pos :: "lfile \<Rightarrow> int \<Rightarrow> nat \<Rightarrow> int" where
  "seek_new_pos f off whence =
     (let np = (\<lambda>base. let np = s32 (base + off) in if np < 0 then EINVAL else np) in
      if whence = 0 then np 0
      else if whence = 1 then np (s32 (int (lf_pos f)))
      else if whence = 2 then np (s32 (int (lf_len f)))
      else EINVAL)"

definition sys_lseek :: "nat \<Rightarrow> int \<Rightarrow> nat \<Rightarrow> lx \<Rightarrow> int \<times> lx" where
  "sys_lseek fd off whence s =
     (case fd_get fd s of
        None \<Rightarrow> (EBADF, s)
      | Some f \<Rightarrow>
          let np = seek_new_pos f off whence in
          if np = EINVAL then (np, s)
          else (np, on_fd fd (\<lambda>f. f\<lparr>lf_pos := nat np, lf_dpos := (if lf_dir f then nat np else lf_dpos f)\<rparr>) s))"

text \<open>The second component is the offset stored through the result pointer.\<close>

definition sys_llseek :: "nat \<Rightarrow> nat \<Rightarrow> int \<Rightarrow> nat \<Rightarrow> lx \<Rightarrow> int \<times> int option \<times> lx" where
  "sys_llseek fd off_hi off_lo whence s =
     (case fd_get fd s of
        None \<Rightarrow> (EBADF, None, s)
      | Some f \<Rightarrow>
          if off_hi \<noteq> 0 then (EINVAL, None, s)
          else let np = seek_new_pos f off_lo whence in
          if np = EINVAL then (np, None, s)
          else (0, Some np, on_fd fd (\<lambda>f. f\<lparr>lf_pos := nat np\<rparr>) s))"

definition le_bytes :: "nat \<Rightarrow> nat \<Rightarrow> bytes" where
  "le_bytes n v = map (\<lambda>i. char_of (v div 256 ^ i)) [0..<n]"

definition dirent :: "nat \<Rightarrow> nat \<Rightarrow> bool \<Rightarrow> bytes \<Rightarrow> bytes" where
  "dirent need reclen is_dir name =
     (let b = le_bytes 8 need @ le_bytes 8 need @ le_bytes 2 reclen @ [if is_dir then CHR 0x04 else CHR 0x08] @ name
      in b @ replicate (reclen - length b) NUL)"

text \<open>The records for the listing \<open>l\<close> from the position \<open>pos\<close> on, and the position where the loop stops.\<close>

function dirents :: "bytes \<Rightarrow> nat \<Rightarrow> nat \<Rightarrow> nat \<Rightarrow> bytes \<times> nat" where
  "dirents l bufsize pos filled =
     (if pos < length l then
        let raw = take 256 (takeWhile (\<lambda>c. c \<noteq> NEWLINE) (drop pos l)); end = pos + length raw;
            next = (if end < length l then end + 1 else end) in
        if raw = [] then dirents l bufsize next filled
        else let is_dir = last raw = SLASH; name = (if is_dir then butlast raw else raw);
                 reclen = round_up 8 (19 + length name + 1); need = filled + reclen in
             if need > bufsize then ([], next)
             else case dirents l bufsize next need of (b, p) \<Rightarrow> (dirent need reclen is_dir name @ b, p)
      else ([], pos))"
  by pat_completeness auto
termination
  by (relation "measure (\<lambda>(l, n, pos, filled). length l - pos)") auto

declare dirents.simps [simp del]

definition sys_getdents64 :: "nat \<Rightarrow> nat \<Rightarrow> lx \<Rightarrow> int \<times> bytes \<times> lx" where
  "sys_getdents64 fd bufsize s =
     (case fd_get fd s of
        None \<Rightarrow> (EBADF, [], s)
      | Some f \<Rightarrow>
          if \<not> lf_dir f then (ENOTDIR, [], s)
          else if bufsize < 32 then (EINVAL, [], s)
          else case dirents (ptr_read (lf_data f) 0 (lf_len f) s) bufsize (lf_dpos f) 0 of
            (b, p) \<Rightarrow> (int (length b), b, on_fd fd (\<lambda>f. f\<lparr>lf_dpos := p\<rparr>) s))"

subsection \<open>Other calls on descriptors and paths\<close>

definition sys_dup :: "nat \<Rightarrow> lx \<Rightarrow> int \<times> lx" where
  "sys_dup oldfd s =
     (case fd_get oldfd s of
        None \<Rightarrow> (EBADF, s)
      | Some f \<Rightarrow>
          (case free_fd s of
             None \<Rightarrow> (EMFILE, s)
           | Some n \<Rightarrow> (int n, on_fd n (\<lambda>_. f) s)))"

definition sys_dup2 :: "nat \<Rightarrow> nat \<Rightarrow> lx \<Rightarrow> int \<times> lx" where
  "sys_dup2 oldfd newfd s =
     (case fd_get oldfd s of
        None \<Rightarrow> (EBADF, s)
      | Some f \<Rightarrow>
          if newfd \<ge> LINUX_MAX_FD then (EBADF, s)
          else if newfd = oldfd then (int newfd, s)
          else let s = (if lf_used (lfd s newfd) then fd_flush newfd s else s)
               in (int newfd, on_fd newfd (\<lambda>_. (lfd s oldfd)\<lparr>lf_used := True\<rparr>) s))"

definition sys_ftruncate :: "nat \<Rightarrow> nat \<Rightarrow> lx \<Rightarrow> int \<times> lx" where
  "sys_ftruncate fd len s =
     (case fd_get fd s of
        None \<Rightarrow> (EBADF, s)
      | Some f \<Rightarrow>
          if lf_dir f then (EISDIR, s)
          else if len > LX_FILE_MAX then (EINVAL, s)
          else let s = (if len < lf_len f then ptr_write (lf_data f) len (replicate (lf_len f - len) NUL) s else s)
               in (0, on_fd fd (\<lambda>f. f\<lparr>lf_len := len, lf_pos := min (lf_pos f) len, lf_dirty := True\<rparr>) s))"

definition sys_access :: "cptr \<Rightarrow> lx \<Rightarrow> int" where
  "sys_access path s =
     (let p = lxnorm path (lfs s) in
      if p = None then ENOENT else if fs_file_exists (lfs s) p \<or> fs_directory_exists (lfs s) p then 0 else ENOENT)"

definition sys_getcwd :: "nat \<Rightarrow> lx \<Rightarrow> int \<times> bytes" where
  "sys_getcwd bufsize s =
     (let path = fs_get_current_path (lfs s) in
      if bufsize < 2 then (EINVAL, [])
      else if length path > bufsize - 1 then (ENOMEM, take (bufsize - 1) path)
      else (int (length path), path @ [NUL]))"

definition sys_unlink :: "cptr \<Rightarrow> lx \<Rightarrow> int \<times> lx" where
  "sys_unlink path s =
     (let p = lxnorm path (lfs s) in
      if p = None \<or> \<not> fs_file_exists (lfs s) p then (ENOENT, s)
      else case fs_delete_file p (lfs s) of (rc, t) \<Rightarrow> (if rc = 0 then 0 else - 1, s\<lparr>lfs := t\<rparr>))"

text \<open>The copy of a renamed file, 64 KiB at a time.\<close>

function rename_copy :: "cptr \<Rightarrow> cptr \<Rightarrow> nat \<Rightarrow> nat \<Rightarrow> fs \<Rightarrow> int \<times> fs" where
  "rename_copy obuf nbuf total_len off t =
     (if off < total_len then
        case fs_read_file_range obuf off True (min (total_len - off) 65536) t of
          (rc, b, t) \<Rightarrow>
            let c = (case b of Some c \<Rightarrow> c | None \<Rightarrow> []) in
            if rc \<noteq> 0 \<or> c = [] then (- 1, snd (fs_delete_file nbuf t))
            else case fs_append_file nbuf (Some c) (length c) t of
              (rc, t) \<Rightarrow>
                if rc \<noteq> 0 then (- 1, snd (fs_delete_file nbuf t))
                else rename_copy obuf nbuf total_len (off + length c) t
      else (0, snd (fs_delete_file obuf t)))"
  by pat_completeness auto
termination
  by (relation "measure (\<lambda>(obuf, nbuf, total_len, off, t). total_len - off)") (auto intro!: diff_less_mono2)

declare rename_copy.simps [simp del]

definition sys_rename :: "cptr \<Rightarrow> cptr \<Rightarrow> lx \<Rightarrow> int \<times> lx" where
  "sys_rename oldp newp s =
     (if oldp = None \<or> newp = None then (ENOENT, s)
      else let obuf = map_option (\<lambda>p. take 255 (cstr p)) (lxnorm oldp (lfs s)); nbuf = map_option (\<lambda>p. take 255 (cstr p)) (lxnorm newp (lfs s)) in
      if \<not> fs_file_exists (lfs s) obuf then (ENOENT, s)
      else if fs_file_exists (lfs s) nbuf then (EEXIST, s)
      else case fs_get_file_size obuf (lfs s) of
        (n, t) \<Rightarrow>
          (case fs_create_file nbuf t of
             (rc, t) \<Rightarrow>
               if rc \<noteq> 0 then (- 1, s\<lparr>lfs := t\<rparr>)
               else case rename_copy obuf nbuf n 0 t of (r, t) \<Rightarrow> (r, s\<lparr>lfs := t\<rparr>)))"

subsection \<open>The dispatch of system calls\<close>

text \<open>
  The calls on files and directories. \<^verbatim>\<open>openat\<close> and \<^verbatim>\<open>faccessat\<close> are \<open>Open\<close> and \<open>Access\<close>: the code ignores their directory.
  The signals that end a program write its files back as \<open>Exit\<close> does.
\<close>

datatype lx_call =
    Open cptr nat | Creat cptr | Close nat | Read nat nat | Pread64 nat nat nat | Write nat bytes | Writev nat "bytes list"
  | Lseek nat int nat | Llseek nat nat int nat | Getdents64 nat nat | Ftruncate nat nat | Dup nat | Dup2 nat nat
  | Readv nat "nat list" | Getcwd nat | Access cptr | Unlink cptr | Rename cptr cptr | Chdir cptr | Chmod cptr int | Mkdir cptr | Rmdir cptr | Exit int

definition fs_result :: "int \<Rightarrow> int \<times> fs \<Rightarrow> lx \<Rightarrow> int \<times> bytes \<times> lx" where
  "fs_result e r s = (if fst r = 0 then 0 else e, [], s\<lparr>lfs := snd r\<rparr>)"

abbreviation quiet :: "int \<times> lx \<Rightarrow> int \<times> bytes \<times> lx" where "quiet r \<equiv> (fst r, [], snd r)"

fun linux_syscall :: "lx_call \<Rightarrow> lx \<Rightarrow> int \<times> bytes \<times> lx" where
  "linux_syscall (Open p flags) s = quiet (sys_open p flags s)"
| "linux_syscall (Creat p) s = quiet (sys_open p (1 + 64 + 512) s)"
| "linux_syscall (Close fd) s = quiet (sys_close fd s)"
| "linux_syscall (Read fd n) s = sys_read fd n s"
| "linux_syscall (Readv fd ns) s = readv_loop fd ns 0 [] s"
| "linux_syscall (Getcwd n) s = (case sys_getcwd n s of (r, b) \<Rightarrow> (r, b, s))"
| "linux_syscall (Pread64 fd n off) s = (case sys_pread64 fd n off s of (r, b) \<Rightarrow> (r, b, s))"
| "linux_syscall (Write fd d) s = quiet (sys_write fd d s)"
| "linux_syscall (Writev fd iov) s = quiet (sys_writev fd iov s)"
| "linux_syscall (Lseek fd off wh) s = quiet (sys_lseek fd off wh s)"
| "linux_syscall (Llseek fd hi lo wh) s = (case sys_llseek fd hi lo wh s of (r, np, s) \<Rightarrow> (r, case np of None \<Rightarrow> [] | Some np \<Rightarrow> le_bytes 8 (nat np), s))"
| "linux_syscall (Getdents64 fd n) s = sys_getdents64 fd n s"
| "linux_syscall (Ftruncate fd len) s = quiet (sys_ftruncate fd len s)"
| "linux_syscall (Dup fd) s = quiet (sys_dup fd s)"
| "linux_syscall (Dup2 a b) s = quiet (sys_dup2 a b s)"
| "linux_syscall (Access p) s = (sys_access p s, [], s)"
| "linux_syscall (Unlink p) s = quiet (sys_unlink p s)"
| "linux_syscall (Rename p q) s = quiet (sys_rename p q s)"
| "linux_syscall (Chdir p) s = fs_result ENOENT (fs_change_directory (lxnorm p (lfs s)) (lfs s)) s"
| "linux_syscall (Chmod p m) s = fs_result (- 1) (fs_chmod (lxnorm p (lfs s)) m (lfs s)) s"
| "linux_syscall (Mkdir p) s = fs_result (- 1) (fs_create_directory (lxnorm p (lfs s)) (lfs s)) s"
| "linux_syscall (Rmdir p) s = fs_result (- 1) (fs_delete_directory (lxnorm p (lfs s)) (lfs s)) s"
| "linux_syscall (Exit code) s = (code, [], fd_flush_all s)"

end
