(* ===== verification/LinuxInv.thy ===== *)
theory LinuxInv
  imports LinuxFd
begin

section \<open>The invariant of the descriptors of a Linux program\<close>

text \<open>
  \<open>lx_ok\<close> says that every open descriptor is well formed: one that writes has a staging slot that is in use, works inside
  it and shares it only with its duplicates; no access has left the slots; the filesystem invariant holds. The theory
  shows that every system call keeps it, and has the locale \<open>fs_steps\<close> for what a sequence of filesystem
  operations does: a relation that every operation used by the system calls respects holds between the filesystems
  before and after each call.
\<close>

definition fd_ok :: "lx \<Rightarrow> lfile \<Rightarrow> bool" where
  "fd_ok s f \<longleftrightarrow>
     (if lf_writable f
      then \<exists>k<2. lf_slot f = Some k \<and> slot_used s k
             \<and> (lf_dir f \<or> lf_data f = Scratch k \<and> lf_cap f = SLOT_BYTES \<and> lf_len f \<le> SLOT_BYTES \<and> \<not> lf_zero f)
      else lf_slot f = None)
     \<and> (lf_dir f \<longrightarrow> lf_data f = Listing)"

text \<open>Two open descriptors of different files with the same slot.\<close>

definition clash :: "lfile \<Rightarrow> lfile \<Rightarrow> bool" where
  "clash f g \<longleftrightarrow> lf_used f \<and> lf_used g \<and> lf_slot f = lf_slot g \<and> lf_slot f \<noteq> None \<and> (lf_path f \<noteq> lf_path g \<or> lf_dir f \<noteq> lf_dir g)"

text \<open>The invariant for the descriptors in \<open>A\<close>.\<close>

definition lx_ok_on :: "nat set \<Rightarrow> lx \<Rightarrow> bool" where
  "lx_ok_on A s \<longleftrightarrow> fs_ok (lfs s) \<and> \<not> lx_wild s \<and> (\<forall>i\<in>A. lf_used (lfd s i) \<longrightarrow> fd_ok s (lfd s i))
     \<and> (\<forall>i\<in>A. \<forall>j\<in>A. \<not> clash (lfd s i) (lfd s j))"

abbreviation lx_ok :: "lx \<Rightarrow> bool" where "lx_ok \<equiv> lx_ok_on {3..<6}"

subsection \<open>Frames of the helpers\<close>

lemma on_fd_simps [simp]:
  "lfs (on_fd i g s) = lfs s" "scratch (on_fd i g s) = scratch s" "slot_used (on_fd i g s) = slot_used s"
  "dir_list (on_fd i g s) = dir_list s" "lx_wild (on_fd i g s) = lx_wild s" "console (on_fd i g s) = console s"
  "lfd (on_fd i g s) j = (if j = i then g (lfd s i) else lfd s j)"
  by (simp_all add: on_fd_def)

lemma slot_release_simps [simp]:
  "lfs (slot_release k s) = lfs s" "lfd (slot_release k s) = lfd s" "lx_wild (slot_release k s) = lx_wild s"
  "scratch (slot_release k s) = scratch s" "slot_release None s = s"
  by (simp_all add: slot_release_def split: option.split)

lemma ptr_write_simps [simp]:
  "lfd (ptr_write p off d s) = lfd s" "slot_used (ptr_write p off d s) = slot_used s"
  "p \<noteq> Listing \<Longrightarrow> dir_list (ptr_write p off d s) = dir_list s"
  by (simp_all add: ptr_write_def split: fptr.split)

lemma ptr_write_scratch [simp]:
  "lfs (ptr_write (Scratch k) off d s) = lfs s" "lfs (ptr_write Listing off d s) = lfs s"
  "scratch (ptr_write (Scratch k) off d s) = put_at (k * SLOT_BYTES + off) d (scratch s)"
  "lx_wild (ptr_write Listing off d s) = lx_wild s" "scratch (ptr_write Listing off d s) = scratch s"
  by (simp_all add: ptr_write_def)

lemma ptr_write_wild [simp]:
  "k < 2 \<Longrightarrow> off + length d \<le> SLOT_BYTES \<Longrightarrow> lx_wild (ptr_write (Scratch k) off d s) = lx_wild s"
  by (auto simp: ptr_write_def less_2_cases_iff)

lemma fd_ok_cong: "slot_used t = slot_used s \<Longrightarrow> fd_ok t f = fd_ok s f"
  by (simp add: fd_ok_def)

lemma fd_ok_frame [simp]:
  "fd_ok (on_fd i g s) f = fd_ok s f" "fd_ok (ptr_write p off d s) f = fd_ok s f" "fd_ok (s\<lparr>lfs := t\<rparr>) f = fd_ok s f"
  by (simp_all add: fd_ok_def)

lemma fd_get_Some: "fd_get i s = Some f \<longleftrightarrow> i \<in> {3..<6} \<and> lf_used (lfd s i) \<and> f = lfd s i"
  by (auto simp: fd_get_def)

lemma fd_get_None: "fd_get i s = None \<longleftrightarrow> \<not> (i \<in> {3..<6} \<and> lf_used (lfd s i))"
  by (auto simp: fd_get_def)

subsection \<open>Changing the state under the invariant\<close>

lemma lx_ok_cong:
  assumes "lx_ok_on A s" "\<And>i. i \<in> A \<Longrightarrow> lfd t i = lfd s i" "slot_used t = slot_used s" "fs_ok (lfs t)" "\<not> lx_wild t"
  shows "lx_ok_on A t"
  using assms by (simp add: lx_ok_on_def fd_ok_cong [of t s])

lemma lx_ok_outside: "i \<notin> A \<Longrightarrow> lx_ok_on A s \<Longrightarrow> lx_ok_on A (on_fd i g s)"
  by (rule lx_ok_cong) (auto simp: lx_ok_on_def)

lemma clash_sym: "clash f g \<longleftrightarrow> clash g f"
  unfolding clash_def by metis

lemma lx_ok_insert:
  assumes "lx_ok_on A s" "lf_used (lfd s i) \<Longrightarrow> fd_ok s (lfd s i)" "\<And>j. j \<in> A \<Longrightarrow> \<not> clash (lfd s i) (lfd s j)"
  shows "lx_ok_on (insert i A) s"
proof -
  have "\<not> clash (lfd s i) (lfd s i)" by (simp add: clash_def)
  moreover have "\<not> clash (lfd s j) (lfd s i)" if "j \<in> A" for j using assms(3) [OF that] clash_sym by blast
  ultimately show ?thesis using assms by (simp add: lx_ok_on_def)
qed

lemma lx_ok_subset: "lx_ok_on A s \<Longrightarrow> B \<subseteq> A \<Longrightarrow> lx_ok_on B s"
  unfolding lx_ok_on_def by (simp add: subset_iff)

lemma lx_okD:
  assumes "lx_ok_on A s" "i \<in> A"
  shows "lf_used (lfd s i) \<Longrightarrow> fd_ok s (lfd s i)" "j \<in> A \<Longrightarrow> \<not> clash (lfd s i) (lfd s j)"
  using assms by (simp_all add: lx_ok_on_def)

lemma fd_ok_slot_used:
  assumes "fd_ok s f" "\<And>k. lf_slot f = Some k \<Longrightarrow> slot_used t k"
  shows "fd_ok t f"
  using assms by (auto simp: fd_ok_def)

lemma lx_ok_release:
  assumes "lx_ok_on A s" "\<And>j. j \<in> A \<Longrightarrow> lf_used (lfd s j) \<Longrightarrow> lf_slot (lfd s j) \<noteq> k \<or> k = None"
  shows "lx_ok_on A (slot_release k s)"
proof -
  have "fd_ok (slot_release k s) (lfd s i)" if i: "i \<in> A" "lf_used (lfd s i)" for i
  proof (rule fd_ok_slot_used [OF lx_okD(1) [OF assms(1) i]])
    fix k' assume k': "lf_slot (lfd s i) = Some k'"
    then have "slot_used s k'" using lx_okD(1) [OF assms(1) i] by (auto simp: fd_ok_def split: if_splits)
    then show "slot_used (slot_release k s) k'" using k' assms(2) [OF i] by (auto simp: slot_release_def split: option.split)
  qed
  then show ?thesis using assms(1) by (simp add: lx_ok_on_def)
qed

lemma fd_split: "i \<in> {3..<6 :: nat} \<Longrightarrow> insert i ({3..<6} - {i}) = {3..<6}"
  by auto

text \<open>A change of one open descriptor that keeps its kind, path and slot.\<close>

lemma lx_ok_update:
  assumes ok: "lx_ok s" and i: "i \<in> {3..<6}"
    and g: "lf_used (g (lfd s i)) = lf_used (lfd s i)" "lf_slot (g (lfd s i)) = lf_slot (lfd s i)" "lf_path (g (lfd s i)) = lf_path (lfd s i)"
      "lf_dir (g (lfd s i)) = lf_dir (lfd s i)" "lf_used (lfd s i) \<Longrightarrow> fd_ok s (lfd s i) \<Longrightarrow> fd_ok s (g (lfd s i))"
  shows "lx_ok (on_fd i g s)"
proof -
  have "lx_ok_on ({3..<6} - {i}) (on_fd i g s)" using lx_ok_subset [OF ok, of "{3..<6} - {i}"] by (intro lx_ok_outside) auto
  then have "lx_ok_on (insert i ({3..<6} - {i})) (on_fd i g s)"
  proof (rule lx_ok_insert)
    show "fd_ok (on_fd i g s) (lfd (on_fd i g s) i)" if "lf_used (lfd (on_fd i g s) i)"
      using that lx_okD(1) [OF ok i] g by simp
    have "clash (g (lfd s i)) f = clash (lfd s i) f" for f using g by (simp add: clash_def)
    then show "\<not> clash (lfd (on_fd i g s) i) (lfd (on_fd i g s) j)" if "j \<in> {3..<6} - {i}" for j
      using that lx_okD(2) [OF ok i] by simp
  qed
  then show ?thesis using fd_split [OF i] by simp
qed

lemma fd_okD:
  assumes "lx_ok s" "fd_get i s = Some f" "lf_writable f" "\<not> lf_dir f"
  obtains k where "k < 2" "lf_slot f = Some k" "slot_used s k" "lf_data f = Scratch k" "lf_cap f = SLOT_BYTES" "lf_len f \<le> SLOT_BYTES" "\<not> lf_zero f"
proof -
  have i: "i \<in> {3..<6}" "lf_used (lfd s i)" "f = lfd s i" using assms(2) by (simp_all only: fd_get_Some)
  have "fd_ok s f" using lx_okD(1) [OF assms(1) i(1,2)] i(3) by simp
  then have "\<exists>k<2. lf_slot f = Some k \<and> slot_used s k \<and> lf_data f = Scratch k \<and> lf_cap f = SLOT_BYTES \<and> lf_len f \<le> SLOT_BYTES \<and> \<not> lf_zero f"
    using assms(3,4) by (simp add: fd_ok_def)
  then show ?thesis using that by blast
qed

subsection \<open>Opening keeps the invariant\<close>

text \<open>While descriptor \<open>i\<close> is being opened: the others are well formed, and its slot, if it has one, is its own.\<close>

definition fd_opening :: "nat \<Rightarrow> lx \<Rightarrow> bool" where
  "fd_opening i s \<longleftrightarrow> i \<in> {3..<6} \<and> lx_ok_on ({3..<6} - {i}) s \<and> lf_used (lfd s i) \<and> \<not> lf_zero (lfd s i) \<and> \<not> lf_dir (lfd s i)
     \<and> (\<forall>j\<in>{3..<6} - {i}. lf_used (lfd s j) \<longrightarrow> lf_slot (lfd s j) \<noteq> lf_slot (lfd s i) \<or> lf_slot (lfd s i) = None)
     \<and> (if lf_writable (lfd s i)
        then \<exists>k<2. lf_slot (lfd s i) = Some k \<and> slot_used s k \<and> lf_data (lfd s i) = Scratch k \<and> lf_cap (lfd s i) = SLOT_BYTES \<and> lf_len (lfd s i) = 0
        else lf_slot (lfd s i) = None)"

lemma fd_openingD:
  assumes "fd_opening i s"
  shows "i \<in> {3..<6}" "lx_ok_on ({3..<6} - {i}) s" "lf_used (lfd s i)" "\<not> lf_zero (lfd s i) \<and> \<not> lf_dir (lfd s i)"
    "j \<in> {3..<6} - {i} \<Longrightarrow> lf_used (lfd s j) \<Longrightarrow> lf_slot (lfd s j) \<noteq> lf_slot (lfd s i) \<or> lf_slot (lfd s i) = None"
    "\<not> lf_writable (lfd s i) \<Longrightarrow> lf_slot (lfd s i) = None"
    "lf_writable (lfd s i) \<Longrightarrow> \<exists>k<2. lf_slot (lfd s i) = Some k \<and> slot_used s k \<and> lf_data (lfd s i) = Scratch k \<and> lf_cap (lfd s i) = SLOT_BYTES
       \<and> lf_len (lfd s i) = 0"
  using assms by (auto simp: fd_opening_def split: if_splits)

lemma fd_opening_fs: "fd_opening i s \<Longrightarrow> fs_ok t \<Longrightarrow> fd_opening i (s\<lparr>lfs := t\<rparr>)"
  using lx_ok_cong [of "{3..<6} - {i}" s "s\<lparr>lfs := t\<rparr>"] by (simp add: fd_opening_def) (simp add: lx_ok_on_def)

text \<open>The end of an open: the invariant holds again, whether the descriptor stays closed or has become well formed.\<close>

lemma fd_opening_closed:
  assumes o: "fd_opening i s" and u: "lfd t i = f" "\<not> lf_used f"
    and t: "\<And>j. j \<noteq> i \<Longrightarrow> lfd t j = lfd s j" "slot_used t = slot_used s" "fs_ok (lfs t)" "\<not> lx_wild t"
  shows "lx_ok t"
proof -
  have "lx_ok_on ({3..<6} - {i}) t" using lx_ok_cong [OF fd_openingD(2) [OF o]] t by simp
  then have "lx_ok_on (insert i ({3..<6} - {i})) t" by (rule lx_ok_insert) (use u in \<open>auto simp: clash_def\<close>)
  then show ?thesis using fd_split [OF fd_openingD(1) [OF o]] by simp
qed

lemma fd_opening_done:
  assumes o: "fd_opening i s" and f: "fd_ok s f" "lf_slot f = lf_slot (lfd s i)" "lfd t i = f"
    and t: "\<And>j. j \<noteq> i \<Longrightarrow> lfd t j = lfd s j" "slot_used t = slot_used s" "fs_ok (lfs t)" "\<not> lx_wild t"
  shows "lx_ok t"
proof -
  have "lx_ok_on ({3..<6} - {i}) t" using lx_ok_cong [OF fd_openingD(2) [OF o]] t by simp
  then have "lx_ok_on (insert i ({3..<6} - {i})) t"
  proof (rule lx_ok_insert)
    show "fd_ok t (lfd t i)" using f fd_ok_cong [OF t(2)] by simp
    show "\<not> clash (lfd t i) (lfd t j)" if "j \<in> {3..<6} - {i}" for j
      using fd_openingD(5) [OF o that] t(1) [of j] f that by (auto simp: clash_def)
  qed
  then show ?thesis using fd_split [OF fd_openingD(1) [OF o]] by simp
qed

lemma open_fail_ok:
  assumes o: "fd_opening i s" and t: "open_fail i b e s = (r, t)"
  shows "lx_ok t"
proof -
  let ?u = "on_fd i (\<lambda>f. f\<lparr>lf_used := False\<rparr>) s"
  have u: "lx_ok ?u" by (rule fd_opening_closed [OF o refl]) (use fd_openingD(2) [OF o] in \<open>auto simp: lx_ok_on_def\<close>)
  then have "lx_ok (slot_release (lf_slot (lfd s i)) ?u)"
    by (rule lx_ok_release) (use fd_openingD(5) [OF o] in \<open>auto split: if_splits\<close>)
  then show ?thesis using t u by (auto simp: open_fail_def split: if_splits)
qed

lemma read_only_errno:
  "fs_file_data_ptr path s = (d, n, t) \<Longrightarrow> tabs t = tabs s \<and> fs_cur_uid t = fs_cur_uid s"
  by (auto simp: fs_file_data_ptr_def Let_def split: if_splits option.splits)

lemma fs_read_file_frame:
  "fs_ok s \<Longrightarrow> n < 4294967295 \<Longrightarrow> fs_read_file (Some p) True n s = (rc, b, t) \<Longrightarrow> tabs t = tabs s \<and> fs_cur_uid t = fs_cur_uid s"
  by (simp add: fs_read_file_law split: option.splits if_splits prod.splits) auto

lemma open_dir_ok:
  assumes o: "fd_opening i s" and t: "open_dir i p s = (r, t)"
  shows "lx_ok t"
proof -
  let ?s = "on_fd i (\<lambda>f. f\<lparr>lf_dir := True\<rparr>) s"
  obtain rc b u where l: "fs_list_directory (Some p) True (lfs s) = (rc, b, u)" by (metis prod_cases3)
  then have u: "fs_ok u" using tabs_eqD(1) [of u "lfs s"] fs_list_directory_frame [OF l] fd_openingD(2) [OF o] by (simp add: lx_ok_on_def)
  define v where "v = ptr_write Listing 0 ((case b of Some l \<Rightarrow> l | None \<Rightarrow> []) @ [NUL]) (?s\<lparr>lfs := u\<rparr>)"
  have w: "\<not> lx_wild s" using fd_openingD(2) [OF o] by (simp add: lx_ok_on_def)
  show ?thesis
  proof (cases "rc = 0")
    case True
    then have e: "t = on_fd i (\<lambda>f. f\<lparr>lf_len := length (case b of Some l \<Rightarrow> l | None \<Rightarrow> []), lf_data := Listing, lf_path := take 255 p\<rparr>) v"
      using t l by (simp add: open_dir_def v_def Let_def)
    show ?thesis
    proof (rule fd_opening_done [OF o _ _ refl])
      show "fd_ok s (lfd t i)" using fd_openingD(6,7) [OF o] by (auto simp: e v_def fd_ok_def)
    qed (use u w in \<open>simp_all add: e v_def\<close>)
  next
    case False
    then have e: "t = on_fd i (\<lambda>f. f\<lparr>lf_used := False\<rparr>) v" using t l by (simp add: open_dir_def v_def Let_def open_fail_def)
    show ?thesis by (rule fd_opening_closed [OF o refl]) (use u w in \<open>simp_all add: e v_def\<close>)
  qed
qed

lemma open_new_ok:
  assumes o: "fd_opening i s" and t: "open_new i p flags s = (r, t)"
  shows "lx_ok t"
proof -
  obtain cr u where c: "fs_create_file (Some p) (lfs s) = (cr, u)" by fastforce
  then have u: "fs_ok u" using fs_create_file_keeps [of "lfs s" "Some p"] fd_openingD(2) [OF o] by (simp add: lx_ok_on_def)
  have w: "\<not> lx_wild s" using fd_openingD(2) [OF o] by (simp add: lx_ok_on_def)
  consider (fail) b e s' where "fd_opening i s'" "open_fail i b e s' = (r, t)"
    | (created) "t = on_fd i (\<lambda>f. f\<lparr>lf_path := take 255 p, lf_len := 0, lf_dirty := True\<rparr>) (s\<lparr>lfs := u\<rparr>)"
    using t c o fd_opening_fs [OF o u] by (auto simp: open_new_def Let_def split: if_splits)
  then show ?thesis
  proof cases
    case created
    show ?thesis
    proof (rule fd_opening_done [OF o _ _ refl])
      show "fd_ok s (lfd t i)" using fd_openingD(4,6,7) [OF o] created fd_openingD(7) [OF o]
        by (cases "lf_dir (lfd s i)") (auto simp: fd_ok_def)
    qed (use u w in \<open>simp_all add: created\<close>)
  qed (rule open_fail_ok)
qed

lemma open_modes_eq:
  "open_modes i p flags s =
     (int i, on_fd i (\<lambda>f. let n = (if bit flags 9 \<and> lf_writable f then 0 else lf_len f) in
        f\<lparr>lf_path := take 255 p, lf_len := n, lf_dirty := (lf_dirty f \<or> bit flags 9 \<and> lf_writable f),
          lf_append := (lf_append f \<or> bit flags 10), lf_pos := (if bit flags 10 then n else lf_pos f)\<rparr>) s)"
  by (auto simp: open_modes_def on_fd_def Let_def fun_eq_iff)

definition fits_slot :: "bytes \<Rightarrow> fs \<Rightarrow> bool" where
  "fits_slot p t \<longleftrightarrow> (case fs_files t (abs_path (cwd t) p) of None \<Rightarrow> True | Some (b, u, m) \<Rightarrow> length b < SLOT_BYTES)"

text \<open>What reading the file into the slot leaves behind.\<close>

lemma stage_file:
  assumes ok: "fs_ok f" and fit: "fits_slot p f" and r: "fs_read_file (Some p) True LX_FILE_MAX f = (rc, b, u)"
  obtains c where "b = Some c" "length c < SLOT_BYTES" "tabs u = tabs f" "fs_cur_uid u = fs_cur_uid f"
    "rc = 0 \<Longrightarrow> \<exists>o' m. fs_files f (abs_path (cwd f) p) = Some (c, o', m)"
proof -
  obtain c where "b = Some c" "length c < SLOT_BYTES" "rc = 0 \<Longrightarrow> \<exists>o' m. fs_files f (abs_path (cwd f) p) = Some (c, o', m)"
    using r fit ok by (auto simp: fs_read_file_law fits_slot_def split: option.splits prod.splits if_splits)
  then show ?thesis using that fs_read_file_frame [OF ok _ r] by simp
qed

lemma open_file_ok:
  assumes o: "fd_opening i s" and fit: "lf_writable (lfd s i) \<Longrightarrow> fits_slot p (lfs s)" and t: "open_file i p flags s = (r, t)"
  shows "lx_ok t"
proof (cases "lf_writable (lfd s i)")
  case False
  obtain d n u where d: "fs_file_data_ptr (Some p) (lfs s) = (d, n, u)" by (metis prod_cases3)
  have u: "fs_ok u" using read_only_errno [OF d] tabs_eqD(1) [of u "lfs s"] fd_openingD(2) [OF o] by (simp add: lx_ok_on_def)
  have w: "\<not> lx_wild s" using fd_openingD(2) [OF o] by (simp add: lx_ok_on_def)
  show ?thesis
  proof (cases "d = None \<and> fs_errno u = 13")
    case True
    then show ?thesis using open_fail_ok [OF fd_opening_fs [OF o u]] t d False by (simp add: open_file_def)
  next
    case ok: False
    show ?thesis
      by (rule fd_opening_done [OF o _ _ refl])
        (use ok t d False u w fd_openingD(4,6) [OF o] in \<open>auto simp: open_file_def open_modes_eq fd_ok_def Let_def\<close>)
  qed
next
  case w: True
  obtain k where k: "k < 2" "lf_slot (lfd s i) = Some k" "slot_used s k" "lf_data (lfd s i) = Scratch k" "lf_cap (lfd s i) = SLOT_BYTES"
    using fd_openingD(7) [OF o w] by auto
  have ok: "fs_ok (lfs s)" "\<not> lx_wild s" using fd_openingD(2) [OF o] by (simp_all add: lx_ok_on_def)
  obtain rc b u where r: "fs_read_file (Some p) True LX_FILE_MAX (lfs s) = (rc, b, u)" by (metis prod_cases3)
  obtain c where c: "b = Some c" "length c < SLOT_BYTES" "tabs u = tabs (lfs s)"
    using stage_file [OF ok(1) fit [OF w] r] by metis
  define v where "v = ptr_write (Scratch k) 0 (c @ [NUL]) (s\<lparr>lfs := u\<rparr>)"
  have u: "fs_ok u" using ok tabs_eqD(1) [OF c(3)] by simp
  have v: "lfd v = lfd s" "slot_used v = slot_used s" "lfs v = u" "\<not> lx_wild v" using k(1) c(2) ok by (simp_all add: v_def)
  have e: "(if rc \<noteq> 0 then open_fail i True EACCES v else open_modes i p flags (on_fd i (\<lambda>f. f\<lparr>lf_len := length c\<rparr>) v)) = (r, t)"
    using t w r c k by (cases "rc = 0") (simp_all add: open_file_def v_def Let_def)
  show ?thesis
  proof (cases "rc = 0")
    case False
    have "lx_ok_on ({3..<6} - {i}) v" using lx_ok_cong [OF fd_openingD(2) [OF o], of v] v u by simp
    then have "fd_opening i v" using o v(1,2) by (simp add: fd_opening_def)
    then show ?thesis using open_fail_ok e False by auto
  next
    case True
    show ?thesis
      by (rule fd_opening_done [OF o _ _ refl])
        (use True w e v u c(2) k fd_openingD(4) [OF o] in \<open>auto simp: open_modes_eq fd_ok_def Let_def\<close>)
  qed
qed

lemma free_fd_Some: "free_fd s = Some i \<Longrightarrow> i \<in> {3..<6} \<and> \<not> lf_used (lfd s i)"
  by (simp only: free_fd_def find_upt_Some) auto

lemma slot_claim_cases:
  obtains "slot_claim s = (None, s)" "\<forall>k<2. slot_used s k" | k where "k < 2" "\<not> slot_used s k" "slot_claim s = (Some k, s\<lparr>slot_used := (slot_used s)(k := True)\<rparr>)"
  using that by (cases "find (\<lambda>i. \<not> slot_used s i) [0..<2]") (simp_all add: slot_claim_def find_upt_Some find_None_iff del: upt_0 find.simps)

text \<open>The state in which the three cases of an open start.\<close>

lemma sys_open_cases:
  assumes ok: "lx_ok s" and r: "sys_open path flags s = (r, t)"
  obtains (none) "lx_ok t" "r < 0" "lfs t = lfs s"
      "null_or_empty path \<or> null_or_empty (lxnorm path (lfs s)) \<or> free_fd s = None \<or> (bit flags 0 \<or> bit flags 1) \<and> (\<forall>k<2. slot_used s k)"
  | (started) i p s' where "fd_opening i s'" "lfs s' = lfs s" "lxnorm path (lfs s) = Some p" "chr_at p 0 \<noteq> NUL"
      "lf_writable (lfd s' i) \<longleftrightarrow> bit flags 0 \<or> bit flags 1" "scratch s' = scratch s" "\<And>j. j \<noteq> i \<Longrightarrow> lfd s' j = lfd s j"
      "lf_pos (lfd s' i) = 0" "\<not> lf_append (lfd s' i)" "lf_len (lfd s' i) = 0" "lf_dpos (lfd s' i) = 0"
      "open_at i p flags s' = (r, t)" "free_fd s = Some i"
proof (cases "null_or_empty path \<or> null_or_empty (lxnorm path (lfs s)) \<or> free_fd s = None")
  case True
  then have "t = s \<and> r < 0" using r
    by (cases "null_or_empty path"; cases "null_or_empty (lxnorm path (lfs s))") (auto simp: sys_open_def Let_def)
  then show ?thesis using none ok True by blast
next
  case nn: False
  then obtain i p where i: "free_fd s = Some i" and p: "lxnorm path (lfs s) = Some p" "chr_at p 0 \<noteq> NUL"
    by (auto simp: null_or_empty_def split: option.splits)
  note i3 = free_fd_Some [OF i]
  let ?w = "bit flags 0 \<or> bit flags 1" and ?A = "{3..<6} - {i}"
  define a where "a = on_fd i (\<lambda>_. zero_file\<lparr>lf_used := True, lf_slot := None, lf_writable := ?w\<rparr>) s"
  have a: "lx_ok_on ?A a" unfolding a_def using lx_ok_subset [OF ok, of ?A] by (intro lx_ok_outside) auto
  show ?thesis
  proof (cases ?w)
    case False
    have "fd_opening i a" using a i3 False by (simp add: fd_opening_def a_def zero_file_def)
    then show ?thesis using started [of i a p] r False nn i p by (simp add: sys_open_def Let_def a_def zero_file_def)
  next
    case w: True
    show ?thesis
    proof (cases rule: slot_claim_cases [of a])
      case 1
      let ?t = "on_fd i (\<lambda>f. f\<lparr>lf_used := False\<rparr>) a"
      have t: "t = ?t" "r = ENOMEM" using r w nn i p 1(1) by (simp_all add: sys_open_def Let_def a_def open_fail_def)
      have "lx_ok_on (insert i ?A) ?t" by (rule lx_ok_insert [OF lx_ok_outside [OF _ a]]) (auto simp: clash_def)
      then show ?thesis using none t fd_split [of i] i3 w 1(2) by (simp add: a_def)
    next
      case (2 k)
      define b where "b = on_fd i (\<lambda>f. f\<lparr>lf_slot := Some k, lf_data := Scratch k, lf_cap := SLOT_BYTES\<rparr>) (a\<lparr>slot_used := (slot_used a)(k := True)\<rparr>)"
      have "fd_ok b (lfd b j)" "lf_slot (lfd b j) \<noteq> Some k" if j: "j \<in> ?A" "lf_used (lfd b j)" for j
      proof -
        have f: "fd_ok a (lfd a j)" "lfd b j = lfd a j" using lx_okD(1) [OF a j(1)] j by (simp_all add: b_def)
        then show "lf_slot (lfd b j) \<noteq> Some k" using 2(2) by (auto simp: fd_ok_def split: if_splits)
        show "fd_ok b (lfd b j)" using f by (auto intro: fd_ok_slot_used simp: b_def fd_ok_def split: if_splits)
      qed
      moreover have "\<not> clash (lfd b j) (lfd b l)" if "j \<in> ?A" "l \<in> ?A" for j l
        using lx_okD(2) [OF a that] that by (simp add: b_def)
      ultimately have "lx_ok_on ?A b" and "\<forall>j\<in>?A. lf_used (lfd b j) \<longrightarrow> lf_slot (lfd b j) \<noteq> Some k"
        using a by (simp_all add: lx_ok_on_def b_def)
      then have "fd_opening i b" using i3 w 2(1) by (auto simp: fd_opening_def b_def a_def zero_file_def)
      then show ?thesis using started [of i b p] r w nn i p 2(3) by (simp add: sys_open_def Let_def a_def b_def zero_file_def)
    qed
  qed
qed

lemma sys_open_ok:
  assumes ok: "lx_ok s" and r: "sys_open path flags s = (r, t)"
    and fit: "\<And>p. bit flags 0 \<or> bit flags 1 \<Longrightarrow> lxnorm path (lfs s) = Some p \<Longrightarrow> fits_slot p (lfs s)"
  shows "lx_ok t"
  using ok r
proof (cases rule: sys_open_cases)
  case (started i p s')
  have w: "lf_writable (lfd s' i) \<Longrightarrow> fits_slot p (lfs s')" using fit [of p] started by auto
  show ?thesis using started(12) open_dir_ok [OF started(1)] open_new_ok [OF started(1)] open_file_ok [OF started(1) w]
    by (auto simp: open_at_def split: if_splits)
qed

subsection \<open>The other calls keep the invariant\<close>

lemma lx_ok_fs: "lx_ok s \<Longrightarrow> fs_ok (lfs s)"
  by (simp add: lx_ok_on_def)

lemma lx_ok_set_fs: "lx_ok_on A s \<Longrightarrow> fs_ok t \<Longrightarrow> lx_ok_on A (s\<lparr>lfs := t\<rparr>)"
  by (rule lx_ok_cong) (simp_all add: lx_ok_on_def)

text \<open>A change of positions, or of a descriptor that does not write.\<close>

lemma lx_ok_pos:
  assumes "lx_ok s"
    and g: "\<And>f. lf_used (g f) = lf_used f \<and> lf_slot (g f) = lf_slot f \<and> lf_path (g f) = lf_path f \<and> lf_dir (g f) = lf_dir f \<and> lf_writable (g f) = lf_writable f
      \<and> lf_zero (g f) = lf_zero f \<and> lf_cap (g f) = lf_cap f"
    and "lf_writable (lfd s i) \<or> lf_dir (lfd s i) \<Longrightarrow> lf_data (g (lfd s i)) = lf_data (lfd s i)"
    and "lf_used (lfd s i) \<Longrightarrow> lf_writable (lfd s i) \<Longrightarrow> \<not> lf_dir (lfd s i) \<Longrightarrow> lf_len (lfd s i) \<le> SLOT_BYTES \<Longrightarrow> lf_len (g (lfd s i)) \<le> SLOT_BYTES"
  shows "lx_ok (on_fd i g s)"
proof (cases "i \<in> {3..<6}")
  case True
  show ?thesis
  proof (rule lx_ok_update [OF assms(1) True])
    show "fd_ok s (g (lfd s i))" if "lf_used (lfd s i)" "fd_ok s (lfd s i)"
      using that assms(3,4) g [of "lfd s i"] by (auto simp: fd_ok_def split: if_splits)
  qed (use g in simp_all)
qed (use assms(1) lx_ok_outside in blast)

lemma fd_flush_frame:
  "lfd (fd_flush i s) j = (if j = i then (lfd s i)\<lparr>lf_dirty := False\<rparr> else lfd s j)" "slot_used (fd_flush i s) = slot_used s"
  by (simp_all add: fd_flush_def Let_def)

lemma fd_flush_ok: "lx_ok s \<Longrightarrow> lx_ok (fd_flush i s)"
  by (simp add: fd_flush_def Let_def) (intro conjI impI lx_ok_pos lx_ok_set_fs fs_write_file_keeps lx_ok_fs; simp)

lemma fd_flush_all_ok: "lx_ok s \<Longrightarrow> lx_ok (fd_flush_all s)"
  unfolding fd_flush_all_def by (rule foldl_keeps) (simp_all add: fd_flush_ok)

lemma sys_close_ok:
  assumes ok: "lx_ok s" and t: "sys_close fd s = (r, t)"
  shows "lx_ok t"
proof (cases "fd_get fd s")
  case (Some f)
  define u where "u = fd_flush fd s"
  let ?k = "lf_slot (lfd u fd)" and ?A = "{3..<6} - {fd}"
  define v where "v = (if slot_shared fd u then u else slot_release ?k u)"
  have u: "lx_ok_on ?A u" using lx_ok_subset [OF fd_flush_ok [OF ok, of fd], of ?A] by (auto simp: u_def)
  have "lx_ok_on ?A (slot_release ?k u)" if "\<not> slot_shared fd u"
    by (rule lx_ok_release [OF u]) (use that in \<open>simp only: slot_shared_def list_ex_iff set_upt; blast\<close>)
  then have v: "lx_ok_on ?A v" using u by (simp add: v_def)
  have e: "t = on_fd fd (\<lambda>f. f\<lparr>lf_slot := None, lf_used := False\<rparr>) v"
    using t Some by (auto simp: sys_close_def Let_def v_def u_def)
  have "lx_ok_on ?A t" unfolding e by (rule lx_ok_outside [OF _ v]) simp
  then have "lx_ok_on (insert fd ?A) t" by (rule lx_ok_insert) (simp_all add: e clash_def)
  then show ?thesis using fd_split [of fd] Some by (simp add: fd_get_Some)
qed (use ok t in \<open>simp add: sys_close_def\<close>)

lemma read_bytes_ok: "lx_ok s \<Longrightarrow> read_bytes fd count s = (r, b, t) \<Longrightarrow> lx_ok t"
  by (auto simp: read_bytes_def Let_def intro!: lx_ok_pos split: if_splits)

lemma sys_read_ok:
  assumes ok: "lx_ok s" and t: "sys_read fd count s = (r, b, t)"
  shows "lx_ok t"
proof (cases "fd = 0 \<and> \<not> (lf_used (lfd s 0) \<and> lf_path (lfd s 0) \<noteq> [] \<and> \<not> lf_dir (lfd s 0))")
  case True
  then have "lfd t = lfd s" "slot_used t = slot_used s" "lfs t = lfs s" "lx_wild t = lx_wild s"
    using t by (auto simp: sys_read_def read_tty_def Let_def split: if_splits list.splits option.splits)
  then show ?thesis using lx_ok_cong [OF ok, of t] ok by (simp add: lx_ok_on_def)
next
  case tty: False
  show ?thesis
  proof (cases "fd_get fd s")
    case None
    then show ?thesis using t tty ok by (simp add: sys_read_def split: if_splits)
  next
    case (Some f)
    then have f: "fd \<in> {3..<6}" "lf_used (lfd s fd)" "f = lfd s fd" by (simp_all only: fd_get_Some)
    show ?thesis
    proof (cases "lf_zero f \<and> \<not> lf_dir f")
      case z: True
      have nw: "\<not> lf_writable (lfd s fd)" using lx_okD(1) [OF ok f(1,2)] z f(3) by (auto simp: fd_ok_def)
      obtain d n u where d: "fs_file_data_ptr (Some (lf_path f)) (lfs s) = (d, n, u)" by (metis prod_cases3)
      have u: "fs_ok u" using read_only_errno [OF d] tabs_eqD(1) [of u "lfs s"] lx_ok_fs [OF ok] by simp
      have s: "lx_ok (on_fd fd g (s\<lparr>lfs := u\<rparr>))"
        if "\<And>f. lf_used (g f) = lf_used f \<and> lf_slot (g f) = lf_slot f \<and> lf_path (g f) = lf_path f \<and> lf_dir (g f) = lf_dir f \<and> lf_writable (g f) = lf_writable f
          \<and> lf_zero (g f) = lf_zero f \<and> lf_cap (g f) = lf_cap f" for g
        by (rule lx_ok_pos [OF lx_ok_set_fs [OF ok u]]) (use that nw z f in simp_all)
      show ?thesis
      proof (cases d)
        case None
        then show ?thesis using t tty Some z d lx_ok_set_fs [OF ok u] s [of "\<lambda>f. f\<lparr>lf_len := 0\<rparr>"]
          by (auto simp: sys_read_def Let_def split: if_splits)
      next
        case (Some q)
        have "read_bytes fd count (on_fd fd (\<lambda>f. f\<lparr>lf_data := Pool q, lf_len := the n\<rparr>) (s\<lparr>lfs := u\<rparr>)) = (r, b, t)"
          using t tty \<open>fd_get fd s = Some f\<close> z d Some by (simp add: sys_read_def split: if_splits)
        then show ?thesis using read_bytes_ok s [of "\<lambda>f. f\<lparr>lf_data := Pool q, lf_len := the n\<rparr>"] by simp
      qed
    next
      case False
      then show ?thesis using t tty Some ok read_bytes_ok [OF ok] by (auto simp: sys_read_def split: if_splits)
    qed
  qed
qed

subsection \<open>Writing\<close>

text \<open>What a write at \<open>pos\<close> makes of the contents \<open>c\<close>: a gap is filled with zeros.\<close>

definition overlay :: "nat \<Rightarrow> bytes \<Rightarrow> bytes \<Rightarrow> bytes" where
  "overlay pos d c = take pos c @ replicate (pos - length c) NUL @ d @ drop (pos + length d) c"

definition staged :: "lx \<Rightarrow> nat \<Rightarrow> bytes" where
  "staged s fd = ptr_read (lf_data (lfd s fd)) 0 (lf_len (lfd s fd)) s"

lemma length_get_at [simp]: "length (get_at a n m) = n"
  by (simp add: get_at_def)

lemma nth_get_at [simp]: "i < n \<Longrightarrow> get_at a n m ! i = m (a + i)"
  by (simp add: get_at_def)

lemma length_overlay [simp]: "length (overlay pos d c) = max (length c) (pos + length d)"
  by (simp add: overlay_def)

lemma nth_overlay_pos:
  "i < length (overlay pos d c) \<Longrightarrow>
     overlay pos d c ! i = (if i < pos then if i < length c then c ! i else NUL else if i < pos + length d then d ! (i - pos) else c ! i)"
  by (auto simp: overlay_def nth_append min_def not_less)

lemma put_at_nil [simp]: "put_at a [] m = m"
  by (auto simp: put_at_def fun_eq_iff)

lemma put_at_apply: "put_at a d m i = (if a \<le> i \<and> i < a + length d then d ! (i - a) else m i)"
  by (simp add: put_at_def)

lemma get_put_overlay:
  "get_at b (max (max len pos) (pos + length d)) (put_at (b + pos) d (put_at (b + len) (replicate (pos - len) NUL) m)) = overlay pos d (get_at b len m)"
  by (rule nth_equalityI) (auto simp: nth_overlay_pos put_at_apply)

lemma get_put_other:
  "k < 2 \<Longrightarrow> k' < 2 \<Longrightarrow> k \<noteq> k' \<Longrightarrow> off + length d \<le> SLOT_BYTES \<Longrightarrow> n \<le> SLOT_BYTES \<Longrightarrow>
     get_at (k' * SLOT_BYTES) n (put_at (k * SLOT_BYTES + off) d m) = get_at (k' * SLOT_BYTES) n m"
  by (rule nth_equalityI) (auto simp: put_at_apply less_2_cases_iff)

lemma sys_write_cases:
  fixes d :: bytes
  assumes ok: "lx_ok s" and f: "fd_get fd s = Some f" "lf_writable f" "\<not> lf_dir f" and k: "lf_slot f = Some k"
  defines "pos \<equiv> if lf_append f then lf_len f else lf_pos f"
  defines "e \<equiv> take (SLOT_BYTES - pos) d"
  shows "SLOT_BYTES < pos \<Longrightarrow> sys_write fd d s = (ENOSPC, s)"
    "pos \<le> SLOT_BYTES \<Longrightarrow> sys_write fd d s = (int (length e), s\<lparr>
       lfd := (lfd s)(fd := f\<lparr>lf_pos := pos + length e, lf_len := max (max (lf_len f) pos) (pos + length e), lf_dirty := True\<rparr>),
       scratch := put_at (k * SLOT_BYTES + pos) e (put_at (k * SLOT_BYTES + lf_len f) (replicate (pos - lf_len f) NUL) (scratch s))\<rparr>)"
proof -
  have i: "fd \<in> {3..<6}" "lf_used (lfd s fd)" "f = lfd s fd" using f(1) by (simp_all only: fd_get_Some)
  have fk: "k < 2" "lf_data f = Scratch k" "lf_cap f = SLOT_BYTES" "lf_len f \<le> SLOT_BYTES"
    using fd_okD [OF ok f] k by auto
  have nw: "\<not> lx_wild s" using ok by (simp add: lx_ok_on_def)
  have fd: "fd \<noteq> 1 \<and> fd \<noteq> 2" using i(1) by auto
  define s1 where "s1 = (if lf_append f then on_fd fd (\<lambda>f. f\<lparr>lf_pos := lf_len f\<rparr>) s else s)"
  have s1: "lfd s1 fd = f\<lparr>lf_pos := pos\<rparr>" "scratch s1 = scratch s" "lfs s1 = lfs s" "lx_wild s1 = lx_wild s"
    "s1 = s\<lparr>lfd := (lfd s)(fd := f\<lparr>lf_pos := pos\<rparr>)\<rparr>"
    using i by (auto simp: s1_def pos_def on_fd_def)
  have w: "sys_write fd d s =
    (if lf_len f < pos
     then if SLOT_BYTES < pos then (ENOSPC, s1)
          else put_bytes fd d (on_fd fd (\<lambda>f. f\<lparr>lf_len := lf_pos f\<rparr>) (ptr_write (Scratch k) (lf_len f) (replicate (pos - lf_len f) NUL) s1))
     else put_bytes fd d s1)"
    using f fd fk s1(1) by (simp add: sys_write_def Let_def flip: s1_def)
  show "sys_write fd d s = (ENOSPC, s)" if "SLOT_BYTES < pos"
    using that w fk(4) i s1(5) by (auto simp: pos_def split: if_splits)
  assume p: "pos \<le> SLOT_BYTES"
  have r: "u32 (4294967296 + SLOT_BYTES - pos) = SLOT_BYTES - pos"
    using p mod_add_self1 [of 4294967296 "SLOT_BYTES - pos"] by (simp add: u32_def)
  have e: "take (min (length d) (SLOT_BYTES - pos)) d = e" "min (length d) (SLOT_BYTES - pos) = length e" "length e \<le> SLOT_BYTES - pos"
    by (auto simp: e_def min_def)
  have pb: "put_bytes fd d u = (int (length e), u\<lparr>lfd := (lfd u)(fd := (lfd u fd)\<lparr>lf_pos := pos + length e, lf_len := max (lf_len (lfd u fd)) (pos + length e), lf_dirty := True\<rparr>),
      scratch := put_at (k * SLOT_BYTES + pos) e (scratch u)\<rparr>)"
    if "lf_data (lfd u fd) = Scratch k" "lf_cap (lfd u fd) = SLOT_BYTES" "lf_pos (lfd u fd) = pos" "\<not> lx_wild u" for u
    using that r e fk(1) p by (auto simp: put_bytes_def Let_def on_fd_def ptr_write_def less_2_cases_iff fun_eq_iff)
  show "sys_write fd d s = (int (length e), s\<lparr>
       lfd := (lfd s)(fd := f\<lparr>lf_pos := pos + length e, lf_len := max (max (lf_len f) pos) (pos + length e), lf_dirty := True\<rparr>),
       scratch := put_at (k * SLOT_BYTES + pos) e (put_at (k * SLOT_BYTES + lf_len f) (replicate (pos - lf_len f) NUL) (scratch s))\<rparr>)"
  proof (cases "lf_len f < pos")
    case True
    let ?u = "on_fd fd (\<lambda>f. f\<lparr>lf_len := lf_pos f\<rparr>) (ptr_write (Scratch k) (lf_len f) (replicate (pos - lf_len f) NUL) s1)"
    have "\<not> lx_wild ?u" using fk(1) p True nw by (simp add: s1)
    then have "put_bytes fd d ?u = (int (length e), ?u\<lparr>lfd := (lfd ?u)(fd := (lfd ?u fd)\<lparr>lf_pos := pos + length e, lf_len := max (lf_len (lfd ?u fd)) (pos + length e), lf_dirty := True\<rparr>),
        scratch := put_at (k * SLOT_BYTES + pos) e (scratch ?u)\<rparr>)"
      by (intro pb) (simp_all add: s1 fk)
    moreover have "ptr_write (Scratch k) (lf_len f) (replicate (pos - lf_len f) NUL) s1 =
        s1\<lparr>scratch := put_at (k * SLOT_BYTES + lf_len f) (replicate (pos - lf_len f) NUL) (scratch s)\<rparr>"
      using fk(1) p True nw by (auto simp: ptr_write_def s1 less_2_cases_iff)
    ultimately show ?thesis using w True p by (simp add: on_fd_def s1(5) max_def)
  next
    case False
    then have "sys_write fd d s = put_bytes fd d s1" using w by simp
    then show ?thesis using pb [of s1] False nw by (simp add: s1(1-4) fk) (simp add: s1(5) max_def)
  qed
qed

lemma sys_write_refines:
  fixes d :: bytes
  assumes ok: "lx_ok s" and f: "fd_get fd s = Some f" "lf_writable f" "\<not> lf_dir f"
  defines "pos \<equiv> if lf_append f then lf_len f else lf_pos f"
  assumes p: "pos \<le> SLOT_BYTES" and t: "sys_write fd d s = (r, t)"
  defines "e \<equiv> take (SLOT_BYTES - pos) d"
  shows "r = int (length e)" "staged t fd = overlay pos e (staged s fd)" "lx_ok t" "lfs t = lfs s"
    "fd_get fd t = Some (f\<lparr>lf_pos := pos + length e, lf_len := max (max (lf_len f) pos) (pos + length e), lf_dirty := True\<rparr>)"
    "\<And>j g. j \<noteq> fd \<Longrightarrow> fd_get j s = Some g \<Longrightarrow> fd_get j t = Some g"
    "\<And>j g. fd_get j s = Some g \<Longrightarrow> lf_writable g \<Longrightarrow> \<not> lf_dir g \<Longrightarrow> lf_path g \<noteq> lf_path f \<Longrightarrow> staged t j = staged s j"
proof -
  have i: "fd \<in> {3..<6}" "lf_used (lfd s fd)" "f = lfd s fd" using f(1) by (simp_all only: fd_get_Some)
  obtain k where k: "k < 2" "lf_slot f = Some k" "lf_data f = Scratch k" "lf_len f \<le> SLOT_BYTES" using fd_okD [OF ok f] by metis
  let ?f = "f\<lparr>lf_pos := pos + length e, lf_len := max (max (lf_len f) pos) (pos + length e), lf_dirty := True\<rparr>"
  let ?m = "put_at (k * SLOT_BYTES + pos) e (put_at (k * SLOT_BYTES + lf_len f) (replicate (pos - lf_len f) NUL) (scratch s))"
  have w: "r = int (length e)" "t = s\<lparr>lfd := (lfd s)(fd := ?f), scratch := ?m\<rparr>"
    using sys_write_cases(2) [OF ok f k(2), of d, folded pos_def, OF p] t by (simp_all flip: e_def)
  show "r = int (length e)" by (rule w)
  show "staged t fd = overlay pos e (staged s fd)"
    using get_put_overlay [of "k * SLOT_BYTES" "lf_len f" pos e "scratch s"] k i(3) by (simp add: staged_def w(2) ptr_read_def)
  have le: "pos + length e \<le> SLOT_BYTES" using p by (simp add: e_def)
  have "lx_ok (on_fd fd (\<lambda>_. ?f) s)"
    by (rule lx_ok_update [OF ok i(1)]) (use i k p le in \<open>auto simp: fd_ok_def split: if_splits\<close>)
  then show "lx_ok t" by (rule lx_ok_cong) (use ok in \<open>simp_all add: w(2) on_fd_def lx_ok_on_def\<close>)
  show "lfs t = lfs s" by (simp add: w(2))
  show "fd_get fd t = Some ?f" using i f(1) by (simp add: fd_get_def w(2) split: if_splits)
  show "fd_get j t = Some g" if "j \<noteq> fd" "fd_get j s = Some g" for j g
    using that by (simp add: fd_get_def w(2) split: if_splits)
  show "staged t j = staged s j" if g: "fd_get j s = Some g" "lf_writable g" "\<not> lf_dir g" "lf_path g \<noteq> lf_path f" for j g
  proof -
    have j: "j \<in> {3..<6}" "lf_used (lfd s j)" "g = lfd s j" using g(1) by (simp_all only: fd_get_Some)
    obtain l where l: "l < 2" "lf_slot g = Some l" "lf_data g = Scratch l" "lf_len g \<le> SLOT_BYTES" using fd_okD [OF ok g(1-3)] by metis
    have "l \<noteq> k" using lx_okD(2) [OF ok j(1) i(1)] i j l k g by (auto simp: clash_def)
    moreover have "j \<noteq> fd" using g i j by auto
    ultimately show ?thesis
      using get_put_other [of k l pos e "lf_len g"] get_put_other [of k l "lf_len f" "replicate (pos - lf_len f) NUL" "lf_len g"] k l le p j(3)
      by (auto simp: staged_def w(2) ptr_read_def)
  qed
qed

lemma sys_write_ok:
  assumes ok: "lx_ok s" and t: "sys_write fd d s = (r, t)"
  shows "lx_ok t \<and> lfs t = lfs s"
proof (cases "\<exists>f. fd_get fd s = Some f \<and> lf_writable f \<and> \<not> lf_dir f")
  case True
  then obtain f where f: "fd_get fd s = Some f" "lf_writable f" "\<not> lf_dir f" by blast
  obtain k where "lf_slot f = Some k" using fd_okD [OF ok f] by metis
  note w = sys_write_cases(1) [OF ok f this, of d]
  show ?thesis
  proof (cases "(if lf_append f then lf_len f else lf_pos f) \<le> SLOT_BYTES")
    case True
    then show ?thesis using sys_write_refines(3,4) [OF ok f _ t] by blast
  next
    case False
    then show ?thesis using w t ok by (auto simp: not_le)
  qed
next
  case False
  then have "t = s \<or> t = s\<lparr>console := console s @ d\<rparr>"
    using t by (auto simp: sys_write_def split: if_splits option.splits)
  then show ?thesis using ok lx_ok_cong [OF ok, of t] by (auto simp: lx_ok_on_def)
qed

lemma writev_ok: "lx_ok s \<Longrightarrow> writev_loop fd bs n s = (r, t) \<Longrightarrow> lx_ok t \<and> lfs t = lfs s"
proof (induction bs arbitrary: s n)
  case (Cons b bs)
  obtain w u where w: "sys_write fd b s = (w, u)" by fastforce
  note u = sys_write_ok [OF Cons.prems(1) w]
  then show ?case using Cons.IH [of u] Cons.prems(2) w by (auto split: if_splits)
qed simp

lemma readv_ok: "lx_ok s \<Longrightarrow> readv_loop fd ns n out s = (r, b, t) \<Longrightarrow> lx_ok t"
proof (induction ns arbitrary: s n out)
  case (Cons k ns)
  obtain w d u where w: "sys_read fd k s = (w, d, u)" by (metis prod_cases3)
  note u = sys_read_ok [OF Cons.prems(1) w]
  then show ?case using Cons.IH [of u] Cons.prems(2) w by (auto split: if_splits)
qed simp

subsection \<open>Duplicates, seeking, truncation\<close>

lemma lx_ok_copy:
  assumes ok: "lx_ok s" and a: "a \<in> {3..<6}" "lf_used (lfd s a)" and n: "n \<noteq> a"
  shows "lx_ok (on_fd n (\<lambda>_. lfd s a) s)"
proof (cases "n \<in> {3..<6}")
  case True
  let ?A = "{3..<6} - {n}" and ?t = "on_fd n (\<lambda>_. lfd s a) s"
  have "lx_ok_on ?A ?t" using lx_ok_subset [OF ok, of ?A] by (intro lx_ok_outside) auto
  then have "lx_ok_on (insert n ?A) ?t"
    by (rule lx_ok_insert) (use lx_okD [OF ok a(1)] a(2) in auto)
  then show ?thesis using fd_split [OF True] by simp
qed (use ok lx_ok_outside in blast)

lemma sys_dup_ok:
  assumes ok: "lx_ok s" and t: "sys_dup fd s = (r, t)"
  shows "lx_ok t \<and> lfs t = lfs s"
proof (cases "fd_get fd s = None \<or> free_fd s = None")
  case True
  then show ?thesis using t ok by (auto simp: sys_dup_def split: option.splits)
next
  case False
  then obtain f n where f: "fd_get fd s = Some f" "free_fd s = Some n" by auto
  have i: "fd \<in> {3..<6}" "lf_used (lfd s fd)" "f = lfd s fd" using f(1) by (simp_all only: fd_get_Some)
  have "n \<noteq> fd" using free_fd_Some [OF f(2)] i by auto
  then show ?thesis using lx_ok_copy [OF ok i(1,2)] t f i(3) by (auto simp: sys_dup_def)
qed

lemma sys_dup2_ok:
  assumes ok: "lx_ok s" and t: "sys_dup2 a n s = (r, t)"
  shows "lx_ok t"
proof (cases "fd_get a s = None \<or> n \<ge> 6 \<or> n = a")
  case True
  then show ?thesis using t ok by (auto simp: sys_dup2_def split: option.splits if_splits)
next
  case False
  then obtain f where f: "fd_get a s = Some f" by auto
  have i: "a \<in> {3..<6}" "lf_used (lfd s a)" using f by (simp_all only: fd_get_Some)
  define u where "u = (if lf_used (lfd s n) then fd_flush n s else s)"
  have u: "lx_ok u" "lfd u a = lfd s a" using ok fd_flush_ok False by (auto simp: u_def fd_flush_frame)
  have "(lfd s a)\<lparr>lf_used := True\<rparr> = lfd s a" using i(2) by (cases "lfd s a") simp
  then have "t = on_fd n (\<lambda>_. lfd u a) u" using t False f u(2) by (simp add: sys_dup2_def Let_def u_def split: if_splits)
  then show ?thesis using lx_ok_copy [OF u(1) i(1), of n] i(2) u(2) False by simp
qed

lemma seek_ok:
  assumes ok: "lx_ok s"
  shows "sys_lseek fd off wh s = (r, t) \<Longrightarrow> lx_ok t \<and> lfs t = lfs s"
    "sys_llseek fd hi lo wh s = (r, np, t) \<Longrightarrow> lx_ok t \<and> lfs t = lfs s"
    "sys_getdents64 fd n s = (r, b, t) \<Longrightarrow> lx_ok t \<and> lfs t = lfs s"
  using ok by (auto simp: sys_lseek_def sys_llseek_def sys_getdents64_def Let_def
      intro!: lx_ok_pos split: if_splits option.splits prod.splits)

lemma sys_ftruncate_ok:
  assumes ok: "lx_ok s" and n: "n \<le> SLOT_BYTES" "\<And>f. fd_get fd s = Some f \<Longrightarrow> lf_writable f" and t: "sys_ftruncate fd n s = (r, t)"
  shows "lx_ok t \<and> lfs t = lfs s"
proof (cases "\<exists>f. fd_get fd s = Some f \<and> \<not> lf_dir f")
  case True
  then obtain f where f: "fd_get fd s = Some f" "\<not> lf_dir f" by blast
  have i: "fd \<in> {3..<6}" "lf_used (lfd s fd)" "f = lfd s fd" using f(1) by (simp_all only: fd_get_Some)
  obtain k where k: "k < 2" "lf_data f = Scratch k" "lf_len f \<le> SLOT_BYTES" using fd_okD [OF ok f(1) n(2) [OF f(1)] f(2)] by metis
  define u where "u = (if n < lf_len f then ptr_write (Scratch k) n (replicate (lf_len f - n) NUL) s else s)"
  have u: "lfd u = lfd s" "lfs u = lfs s" "lx_wild u = lx_wild s" "slot_used u = slot_used s" using k by (simp_all add: u_def)
  then have "lx_ok u" using lx_ok_cong [OF ok, of u] ok by (simp add: lx_ok_on_def)
  then have "lx_ok (on_fd fd (\<lambda>f. f\<lparr>lf_len := n, lf_pos := min (lf_pos f) n, lf_dirty := True\<rparr>) u)"
    by (rule lx_ok_pos) (use n in simp_all)
  then show ?thesis using t f k n(1) u(2) by (auto simp: sys_ftruncate_def u_def Let_def split: if_splits)
qed (use t ok in \<open>auto simp: sys_ftruncate_def split: option.splits\<close>)

section \<open>What the calls do to the filesystem\<close>

text \<open>A relation between filesystems that the filesystem operations of the calls respect.\<close>

locale fs_steps =
  fixes R :: "fs \<Rightarrow> fs \<Rightarrow> bool"
  assumes st_same: "tabs t = tabs s \<Longrightarrow> fs_cur_uid t = fs_cur_uid s \<Longrightarrow> R s t"
    and st_trans: "R s t \<Longrightarrow> R t u \<Longrightarrow> R s u"
    and st_write: "fs_ok s \<Longrightarrow> R s (snd (fs_write_file path data n s))"
    and st_create: "fs_ok s \<Longrightarrow> R s (snd (fs_create_file path s))"
    and st_delete: "fs_ok s \<Longrightarrow> R s (snd (fs_delete_file path s))"
    and st_append: "fs_ok s \<Longrightarrow> n \<le> 65536 \<Longrightarrow> R s (snd (fs_append_file path data n s))"
begin

lemma st_refl: "R s s"
  by (rule st_same) simp_all

lemma st_flush: "fs_ok (lfs s) \<Longrightarrow> R (lfs s) (lfs (fd_flush i s))"
  by (simp add: fd_flush_def Let_def st_write st_refl)

lemma flush_list:
  "lx_ok s \<Longrightarrow> R (lfs s) (lfs (foldl (\<lambda>s i. if lf_used (lfd s i) then fd_flush i s else s) s is))"
proof (induction "is" arbitrary: s)
  case (Cons i "is")
  let ?u = "if lf_used (lfd s i) then fd_flush i s else s"
  have "lx_ok ?u" using Cons.prems by (simp add: fd_flush_ok)
  moreover have "R (lfs s) (lfs ?u)" using st_flush [OF lx_ok_fs [OF Cons.prems]] st_refl by simp
  ultimately show ?case using st_trans [OF _ Cons.IH] by (simp only: foldl_Cons)
qed (simp add: st_refl)

lemma st_close: "lx_ok s \<Longrightarrow> R (lfs s) (lfs (snd (sys_close fd s)))"
  using st_flush [OF lx_ok_fs] st_refl by (simp add: sys_close_def Let_def split: option.split)

lemma st_dup2: "lx_ok s \<Longrightarrow> R (lfs s) (lfs (snd (sys_dup2 a n s)))"
  using st_flush [OF lx_ok_fs] st_refl by (simp add: sys_dup2_def Let_def split: option.split)

lemma st_read: "sys_read fd n s = (r, b, t) \<Longrightarrow> R (lfs s) (lfs t)"
proof -
  have "R (lfs s) u" if "fs_file_data_ptr p (lfs s) = (d, k, u)" for p d k u using st_same read_only_errno [OF that] by simp
  moreover assume "sys_read fd n s = (r, b, t)"
  ultimately show ?thesis using st_refl
    by (auto simp: sys_read_def read_tty_def read_bytes_def Let_def split: if_splits option.splits list.splits prod.splits)
qed

lemma st_readv: "readv_loop fd ns n out s = (r, b, t) \<Longrightarrow> R (lfs s) (lfs t)"
proof (induction ns arbitrary: s n out)
  case (Cons k ns)
  obtain w d u where w: "sys_read fd k s = (w, d, u)" by (metis prod_cases3)
  then show ?case using Cons.IH [of _ _ u] Cons.prems st_read [OF w] by (auto split: if_splits intro: st_trans)
qed (simp add: st_refl)

lemma st_opens:
  assumes ok: "lx_ok s" and fit: "\<And>p. bit flags 0 \<or> bit flags 1 \<Longrightarrow> lxnorm path (lfs s) = Some p \<Longrightarrow> fits_slot p (lfs s)"
    and r: "sys_open path flags s = (r, t)"
  shows "R (lfs s) (lfs t)"
  using ok r
proof (cases rule: sys_open_cases)
  case (started i p s')
  note fs = lx_ok_fs [OF ok]
  have l: "R (lfs s) u" if "fs_list_directory (Some p) True (lfs s) = (rc, b, u)" for rc b u
    using st_same fs_list_directory_frame [OF that] by simp
  have c: "R (lfs s) u" if "fs_create_file (Some p) (lfs s) = (rc, u)" for rc u using st_create [OF fs, of "Some p"] that by simp
  have d: "R (lfs s) u" if "fs_file_data_ptr (Some p) (lfs s) = (a, b, u)" for a b u using st_same read_only_errno [OF that] by simp
  have g: "R (lfs s) u" if "fs_read_file (Some p) True LX_FILE_MAX (lfs s) = (rc, b, u)" for rc b u
    using st_same fs_read_file_frame [OF fs _ that] by simp
  consider "open_dir i p s' = (r, t)" | "open_new i p flags s' = (r, t)" | "open_file i p flags s' = (r, t)"
    using started(12) by (auto simp: open_at_def split: if_splits)
  then show ?thesis
  proof cases
    case 1
    then show ?thesis using l started(2) by (auto simp: open_dir_def open_fail_def Let_def split: prod.splits if_splits)
  next
    case 2
    then show ?thesis using c st_refl started(2) by (auto simp: open_new_def open_fail_def Let_def split: prod.splits if_splits)
  next
    case 3
    show ?thesis
    proof (cases "lf_writable (lfd s' i)")
      case False
      then show ?thesis using 3 d started(2) by (auto simp: open_file_def open_fail_def open_modes_eq Let_def split: prod.splits if_splits)
    next
      case True
      then obtain k where "lf_data (lfd s' i) = Scratch k" using fd_openingD(7) [OF started(1)] by blast
      then show ?thesis using 3 True g started(2)
        by (auto simp: open_file_def open_fail_def open_modes_eq Let_def split: prod.splits if_splits)
    qed
  qed
qed (simp add: st_refl)

lemma st_unlink: "lx_ok s \<Longrightarrow> R (lfs s) (lfs (snd (sys_unlink p s)))"
  using st_delete [OF lx_ok_fs, of s "lxnorm p (lfs s)"] st_refl by (auto simp: sys_unlink_def Let_def split: prod.split)

end

subsection \<open>Renaming\<close>

lemma length_pool_read [simp]: "length (pool_read p n P) = n"
  by (simp add: pool_read_def)

lemma fs_read_file_range_frame:
  assumes "fs_read_file_range path off dst cap s = (rc, b, t)"
  shows "tabs t = tabs s \<and> fs_cur_uid t = fs_cur_uid s" "b = Some c \<Longrightarrow> length c \<le> cap"
  using assms by (auto simp: fs_read_file_range_def fdata_read_def Let_def split: if_splits option.splits)

lemma fs_get_file_size_frame:
  "fs_get_file_size path s = (n, t) \<Longrightarrow> tabs t = tabs s \<and> fs_cur_uid t = fs_cur_uid s"
  by (auto simp: fs_get_file_size_def Let_def split: if_splits option.splits)

lemma append_chunk_keeps: "fs_ok s \<Longrightarrow> n \<le> 65536 \<Longrightarrow> fs_ok (snd (fs_append_file path data n s))"
  by (rule fs_append_file_keeps) (simp_all add: MAX_FILE_DATA_def)

context fs_steps begin

lemma st_rename_copy:
  assumes "fs_ok t"
  shows "R t (snd (rename_copy p q n off t)) \<and> fs_ok (snd (rename_copy p q n off t))"
  using assms
proof (induction p q n off t rule: rename_copy.induct)
  case (1 p q n off t)
  show ?case
  proof (cases "off < n")
    case False
    then show ?thesis using 1(2) st_delete fs_delete_file_keeps by (subst (1 2) rename_copy.simps) simp
  next
    case True
    obtain rc b u where r: "fs_read_file_range p off True (min (n - off) 65536) t = (rc, b, u)" by (metis prod_cases3)
    define c where "c = (case b of Some c \<Rightarrow> c | None \<Rightarrow> [])"
    obtain rc' v where a: "fs_append_file q (Some c) (length c) u = (rc', v)" by fastforce
    have u: "R t u" "fs_ok u" using st_same fs_read_file_range_frame(1) [OF r] tabs_eqD(1) [of u t] 1(2) by auto
    have "length c \<le> 65536" using fs_read_file_range_frame(2) [OF r] by (auto simp: c_def split: option.splits)
    then have v: "R u v" "fs_ok v" using st_append [OF u(2), of "length c" q "Some c"] append_chunk_keeps [OF u(2), of "length c" q "Some c"] a by simp_all
    have e: "rename_copy p q n off t =
      (if rc \<noteq> 0 \<or> c = [] then (- 1, snd (fs_delete_file q u))
       else if rc' \<noteq> 0 then (- 1, snd (fs_delete_file q v)) else rename_copy p q n (off + length c) v)"
      using True r a by (subst rename_copy.simps) (simp add: Let_def flip: c_def)
    have ih: "R v (snd (rename_copy p q n (off + length c) v)) \<and> fs_ok (snd (rename_copy p q n (off + length c) v))"
      if "\<not> (rc \<noteq> 0 \<or> c = [])" "\<not> rc' \<noteq> 0"
      using 1(1) [OF True r [symmetric] refl c_def that(1) a [symmetric] that(2) v(2)] .
    show ?thesis
      unfolding e using ih v u st_trans [OF u(1)] st_trans [OF v(1)] st_delete [OF u(2), of q] st_delete [OF v(2), of q] fs_delete_file_keeps [OF u(2), of q]
        fs_delete_file_keeps [OF v(2), of q] by auto
  qed
qed

lemma st_rename: "lx_ok s \<Longrightarrow> sys_rename p q s = (r, t) \<Longrightarrow> R (lfs s) (lfs t)"
proof -
  assume ok: "lx_ok s" and r: "sys_rename p q s = (r, t)"
  let ?o = "map_option (\<lambda>p. take 255 (cstr p)) (lxnorm p (lfs s))" and ?n = "map_option (\<lambda>p. take 255 (cstr p)) (lxnorm q (lfs s))"
  obtain k u where u: "fs_get_file_size ?o (lfs s) = (k, u)" by fastforce
  obtain rc v where v: "fs_create_file ?n u = (rc, v)" by fastforce
  have 1: "R (lfs s) u" "fs_ok u" using st_same fs_get_file_size_frame [OF u] tabs_eqD(1) [of u "lfs s"] lx_ok_fs [OF ok] by auto
  have 2: "R (lfs s) v" "fs_ok v" using st_trans [OF 1(1)] st_create [OF 1(2), of ?n] fs_create_file_keeps [OF 1(2), of ?n] v by simp_all
  have 3: "R (lfs s) (snd (rename_copy ?o ?n k 0 v))" using st_trans [OF 2(1)] st_rename_copy [OF 2(2)] by blast
  consider "t = s" | "lfs t = v" | "lfs t = snd (rename_copy ?o ?n k 0 v)"
    using r u v by (auto simp: sys_rename_def Let_def split: if_splits prod.splits)
  then show ?thesis using st_refl 2(1) 3 by cases simp_all
qed

end

subsection \<open>Every call\<close>

text \<open>The calls whose data stays inside the staging slots: files opened for writing are smaller than a slot, and
  \<^verbatim>\<open>ftruncate\<close> is used on descriptors that write and within a slot. The invariant needs these conditions, the code
  does not check them.\<close>

fun call_fits :: "lx_call \<Rightarrow> lx \<Rightarrow> bool" where
  "call_fits (Open p flags) s =
     (bit flags 0 \<or> bit flags 1 \<longrightarrow> (case lxnorm p (lfs s) of None \<Rightarrow> True | Some q \<Rightarrow> fits_slot q (lfs s)))"
| "call_fits (Creat p) s = (case lxnorm p (lfs s) of None \<Rightarrow> True | Some q \<Rightarrow> fits_slot q (lfs s))"
| "call_fits (Ftruncate fd n) s = (n \<le> SLOT_BYTES \<and> (case fd_get fd s of None \<Rightarrow> True | Some f \<Rightarrow> lf_writable f))"
| "call_fits _ s = True"

fun on_files :: "lx_call \<Rightarrow> bool" where
  "on_files (Chdir p) = False"
| "on_files (Chmod p m) = False"
| "on_files (Mkdir p) = False"
| "on_files (Rmdir p) = False"
| "on_files _ = True"

context fs_steps begin

lemma st_call:
  assumes ok: "lx_ok s" and c: "call_fits c s" "on_files c" and r: "linux_syscall c s = (r, b, t)"
  shows "R (lfs s) (lfs t)"
proof (cases c)
  case (Open p flags)
  then show ?thesis using st_opens [OF ok, of flags p] c r by (cases "sys_open p flags s") (auto split: option.splits)
next
  case (Creat p)
  then show ?thesis using st_opens [OF ok, of 577 p] c r by (cases "sys_open p 577 s") (auto split: option.splits)
next
  case (Read fd n)
  then show ?thesis using st_read r by simp
next
  case (Readv fd ns)
  then show ?thesis using st_readv r by simp
next
  case (Getcwd n)
  then show ?thesis using st_refl r by (auto split: prod.splits)
next
  case (Write fd d)
  then show ?thesis using sys_write_ok [OF ok, of fd d] r st_refl by (cases "sys_write fd d s") auto
next
  case (Writev fd iov)
  then show ?thesis using writev_ok [OF ok, of fd iov 0] r st_refl by (cases "writev_loop fd iov 0 s") (auto simp: sys_writev_def)
next
  case (Lseek fd off wh)
  then show ?thesis using seek_ok(1) [OF ok, of fd off wh] r st_refl by (cases "sys_lseek fd off wh s") auto
next
  case (Llseek fd hi lo wh)
  then show ?thesis using seek_ok(2) [OF ok, of fd hi lo wh] r st_refl by (cases "sys_llseek fd hi lo wh s") auto
next
  case (Getdents64 fd n)
  then show ?thesis using seek_ok(3) [OF ok, of fd n] r st_refl by auto
next
  case (Ftruncate fd n)
  then show ?thesis using sys_ftruncate_ok [OF ok, of n fd] c r st_refl by (cases "sys_ftruncate fd n s") (auto split: option.splits)
next
  case (Dup fd)
  then show ?thesis using sys_dup_ok [OF ok, of fd] r st_refl by (cases "sys_dup fd s") auto
next
  case (Rename p q)
  then show ?thesis using st_rename [OF ok, of p q] r by (cases "sys_rename p q s") auto
next
  case (Exit n)
  then show ?thesis using flush_list [OF ok, of "[0..<6]"] r by (auto simp: fd_flush_all_def)
qed (use st_refl st_close [OF ok] st_dup2 [OF ok] st_unlink [OF ok] r c in \<open>auto split: prod.splits\<close>)

end

interpretation keeps: fs_steps "\<lambda>s t. fs_ok s \<longrightarrow> fs_ok t"
  by unfold_locales (auto simp: fs_keeps append_chunk_keeps dest: tabs_eqD(1))

lemma syscall_ok:
  assumes ok: "lx_ok s" and c: "call_fits c s" and r: "linux_syscall c s = (r, b, t)"
  shows "lx_ok t"
proof (cases c)
  case (Open p flags)
  then show ?thesis using sys_open_ok [OF ok, of p flags] c r by (cases "sys_open p flags s") (auto split: option.splits)
next
  case (Creat p)
  then show ?thesis using sys_open_ok [OF ok, of p 577] c r by (cases "sys_open p 577 s") (auto split: option.splits)
next
  case (Close fd)
  then show ?thesis using sys_close_ok [OF ok, of fd] r by (cases "sys_close fd s") auto
next
  case (Read fd n)
  then show ?thesis using sys_read_ok [OF ok] r by simp
next
  case (Readv fd ns)
  then show ?thesis using readv_ok [OF ok] r by simp
next
  case (Getcwd n)
  then show ?thesis using ok r by (auto split: prod.splits)
next
  case (Write fd d)
  then show ?thesis using sys_write_ok [OF ok, of fd d] r by (cases "sys_write fd d s") auto
next
  case (Writev fd iov)
  then show ?thesis using writev_ok [OF ok, of fd iov 0] r by (cases "writev_loop fd iov 0 s") (auto simp: sys_writev_def)
next
  case (Lseek fd off wh)
  then show ?thesis using seek_ok(1) [OF ok, of fd off wh] r by (cases "sys_lseek fd off wh s") auto
next
  case (Llseek fd hi lo wh)
  then show ?thesis using seek_ok(2) [OF ok, of fd hi lo wh] r by (cases "sys_llseek fd hi lo wh s") auto
next
  case (Getdents64 fd n)
  then show ?thesis using seek_ok(3) [OF ok, of fd n] r by auto
next
  case (Ftruncate fd n)
  then show ?thesis using sys_ftruncate_ok [OF ok, of n fd] c r by (cases "sys_ftruncate fd n s") (auto split: option.splits)
next
  case (Dup fd)
  then show ?thesis using sys_dup_ok [OF ok, of fd] r by (cases "sys_dup fd s") auto
next
  case (Dup2 x y)
  then show ?thesis using sys_dup2_ok [OF ok, of x y] r by (cases "sys_dup2 x y s") auto
next
  case (Unlink p)
  then show ?thesis using keeps.st_unlink [OF ok, of p] lx_ok_fs [OF ok] r lx_ok_set_fs [OF ok] ok
    by (auto simp: sys_unlink_def Let_def split: if_splits prod.splits)
next
  case (Rename p q)
  then have t: "fs_ok (lfs t)" "t = s\<lparr>lfs := lfs t\<rparr>" using keeps.st_rename [OF ok, of p q r] lx_ok_fs [OF ok] r
    by (auto simp: sys_rename_def Let_def split: if_splits prod.splits)
  show ?thesis by (subst t(2)) (rule lx_ok_set_fs [OF ok t(1)])
next
  case (Exit n)
  then show ?thesis using fd_flush_all_ok [OF ok] r by auto
qed (use ok r lx_ok_set_fs [OF ok] fs_keeps lx_ok_fs [OF ok] in \<open>auto simp: fs_result_def split: prod.splits\<close>)

end
