(* ===== verification/LinuxProps.thy ===== *)
theory LinuxProps
  imports LinuxInv
begin

section \<open>What Linux programs can do to files\<close>

text \<open>
  The properties of the file system calls: the invariant in every run, what a write does, that data written and closed is
  what a later program reads, and which files a program can change. Where the code deviates from what it means to do
  there is a theorem that says how: the meaning of O_EXCL, \<^verbatim>\<open>ftruncate\<close> on a file that may only be read, redirected
  standard descriptors and directory entries that do not fit the buffer.
\<close>

subsection \<open>Runs\<close>

inductive lx_run :: "lx \<Rightarrow> lx \<Rightarrow> bool" for s where
  lx_start: "lx_run s s"
| lx_step: "lx_run s t \<Longrightarrow> call_fits c t \<Longrightarrow> linux_syscall c t = (r, b, u) \<Longrightarrow> lx_run s u"

lemma lx_run_ok: "lx_run s t \<Longrightarrow> lx_ok s \<Longrightarrow> lx_ok t"
  by (induction rule: lx_run.induct) (auto intro: syscall_ok)

lemma start_fds_ok: "fs_ok (lfs s) \<Longrightarrow> \<not> lx_wild s \<Longrightarrow> lx_ok (start_fds s)"
  by (auto simp: lx_ok_on_def start_fds_def clash_def zero_file_def)

subsection \<open>Permissions\<close>

text \<open>The files a user may change: those they may write, those in a directory they may write to, and their own.\<close>

definition may_change :: "fs \<Rightarrow> bytes \<Rightarrow> bool" where
  "may_change s p \<longleftrightarrow> parent_writable s p \<or>
     (case fs_files s p of None \<Rightarrow> False | Some (b, u, m) \<Rightarrow> perm_allows s m u PERM_W \<or> fs_cur_uid s = u \<or> fs_cur_uid s = 0)"

definition permitted :: "fs \<Rightarrow> fs \<Rightarrow> bool" where
  "permitted s t \<longleftrightarrow> fs_cur_uid t = fs_cur_uid s \<and> fs_dirs t = fs_dirs s \<and> (\<forall>p. fs_files t p \<noteq> fs_files s p \<longrightarrow> may_change s p)"

lemma may_change_cong:
  assumes "fs_cur_uid t = fs_cur_uid s" "fs_dirs t = fs_dirs s" "fs_files t p = fs_files s p"
  shows "may_change t p = may_change s p"
  using assms by (simp add: may_change_def parent_writable_def perm_allows_def split: option.split)

lemma permitted_trans: "permitted s t \<Longrightarrow> permitted t u \<Longrightarrow> permitted s u"
  unfolding permitted_def using may_change_cong by metis

lemma permitted_upd:
  "fs_cur_uid t = fs_cur_uid s \<Longrightarrow> fs_dirs t = fs_dirs s \<Longrightarrow> fs_files t = (fs_files s)(p := x) \<Longrightarrow> may_change s p \<Longrightarrow> permitted s t"
  by (auto simp: permitted_def)

lemma permitted_same:
  "fs_cur_uid t = fs_cur_uid s \<Longrightarrow> fs_dirs t = fs_dirs s \<Longrightarrow> fs_files t = fs_files s \<Longrightarrow> permitted s t"
  by (simp add: permitted_def)

lemma may_write_change: "may_write s path \<Longrightarrow> may_change s (abs_path (cwd s) path)"
  by (auto simp: may_write_def may_create_def may_change_def Let_def split: option.splits)

lemma permitted_write: "fs_ok s \<Longrightarrow> permitted s (snd (fs_write_file path data n s))"
proof (cases path; cases data)
  fix p d assume ok: "fs_ok s" and a: "path = Some p" "data = Some d"
  obtain rc t where r: "fs_write_file path data n s = (rc, t)" by fastforce
  show ?thesis
  proof (cases "rc = 0")
    case True
    then show ?thesis using fs_write_file_ok [OF ok, of p d n t] r a may_write_change by (auto intro: permitted_upd)
  next
    case False
    then show ?thesis using fs_write_file_fail [OF ok, of p d n rc t] r a may_write_change
      by (auto intro: permitted_upd permitted_same)
  qed
qed (auto simp: fs_write_file_def Let_def errno_frame intro!: permitted_same)

lemma permitted_create: "fs_ok s \<Longrightarrow> permitted s (snd (fs_create_file path s))"
proof (cases path)
  case (Some p)
  assume ok: "fs_ok s"
  obtain rc t where r: "fs_create_file path s = (rc, t)" by fastforce
  note C = fs_create_file_law [OF ok r [unfolded Some]]
  show ?thesis
  proof (cases "rc = 0 \<and> fs_files s (abs_path (cwd s) p) = None")
    case True
    then show ?thesis using C r by (auto simp: may_create_def may_change_def Let_def intro!: permitted_upd)
  next
    case False
    then have "tabs t = tabs s" using C(6) by blast
    then show ?thesis using tabs_eqD(4,5) [of t s] C(4) r by (auto intro!: permitted_same)
  qed
qed (auto simp: fs_create_file_def Let_def errno_frame intro!: permitted_same)


lemma permitted_delete: "fs_ok s \<Longrightarrow> permitted s (snd (fs_delete_file path s))"
proof -
  assume ok: "fs_ok s"
  obtain rc t where r: "fs_delete_file path s = (rc, t)" by fastforce
  show ?thesis
  proof (cases "rc = 0 \<and> path \<noteq> None")
    case True
    then show ?thesis using fs_delete_file_ok [OF ok, of "the path" t] r by (auto simp: may_change_def intro!: permitted_upd)
  next
    case False
    then have "tabs t = tabs s" "fs_cur_uid t = fs_cur_uid s" using fs_delete_file_fail [OF r] r by (auto simp: fs_delete_file_def Let_def)
    then show ?thesis using tabs_eqD(4,5) [of t s] r by (auto intro!: permitted_same)
  qed
qed

lemma permitted_append: "fs_ok s \<Longrightarrow> n \<le> 65536 \<Longrightarrow> permitted s (snd (fs_append_file path data n s))"
proof (cases path; cases data)
  fix p d assume ok: "fs_ok s" and n: "n \<le> 65536" and a: "path = Some p" "data = Some d"
  obtain rc t where r: "fs_append_file path data n s = (rc, t)" by fastforce
  show ?thesis
  proof (cases "rc = 0")
    case True
    then show ?thesis using fs_append_file_ok [OF ok, of n p d t] n r a may_write_change
      by (auto simp: MAX_FILE_DATA_def intro!: permitted_upd)
  next
    case False
    then show ?thesis using fs_append_file_fail [OF ok, of p data n rc t] r a
      by (auto simp: may_create_def may_change_def Let_def intro: permitted_upd permitted_same)
  qed
qed (auto simp: fs_append_file_def Let_def errno_frame intro!: permitted_same)

interpretation permits: fs_steps permitted
  by unfold_locales
    (auto intro: permitted_trans permitted_same permitted_write permitted_create permitted_delete permitted_append dest: tabs_eqD(4,5))

lemma chmod_changes:
  assumes "fs_files (snd (fs_chmod path mode s)) p \<noteq> fs_files s p"
  shows "may_change s p"
proof -
  have c: "fs_files (fs_commit_change t) p = fs_files t p" for t by (simp add: tabs_eqD(4) [OF tabs_frame(1)])
  have d: "fs_files (s\<lparr>dmode := m\<rparr>) = fs_files s" for m by (rule fs_files_cong) simp_all
  let ?full = "abs_path (cwd s) (the path)"
  obtain f where f: "file_index s ?full = Some f" "fs_cur_uid s = 0 \<or> fs_cur_uid s = fowner s f"
    "fs_files (s\<lparr>fmode := (fmode s)(f := mode AND 511)\<rparr>) p \<noteq> fs_files s p"
    using assms by (auto simp: fs_chmod_def Let_def c d split: if_splits option.splits)
  have e: "file_index (s\<lparr>fmode := m\<rparr>) q = file_index s q" "file_bytes (s\<lparr>fmode := m\<rparr>) i = file_bytes s i" for m q i
    by (simp_all add: file_index_def file_bytes_def cong: option.case_cong)
  have "file_index s p = Some f" "is_cstring p"
    using f(3) by (cases "file_index s p"; auto simp: fs_files_def e split: if_splits)+
  then show ?thesis using f(2) fs_files_index [of s p f] by (auto simp: may_change_def)
qed

lemma make_directory_files:
  assumes "fs_ok s" "fs_create_directory path s = (rc, t)"
  shows "fs_files t = fs_files s"
proof (cases "rc = 0")
  case True
  then obtain p where "path = Some p" using assms(2) by (cases path) (auto simp: fs_create_directory_def Let_def)
  then show ?thesis using fs_create_directory_ok [OF assms(1), of p t] assms(2) True by simp
qed (use fs_create_directory_fail [OF assms(2)] tabs_eqD(4) [of t s] in simp)

lemma remove_directory_files:
  assumes "fs_ok s" "fs_delete_directory path s = (rc, t)"
  shows "fs_files t = fs_files s"
proof (cases "rc = 0")
  case True
  then obtain p where "path = Some p" using assms(2) by (cases path) (auto simp: fs_delete_directory_def Let_def)
  then show ?thesis using fs_delete_directory_ok [OF assms(1), of p t] assms(2) True by simp
qed (use fs_delete_directory_fail [OF assms(2)] tabs_eqD(4) [of t s] in simp)

subsection \<open>Properties: invariant and permissions\<close>



subsection \<open>Writing a file and reading it back\<close>

lemma lxnorm_length: "lxnorm path s = Some p \<Longrightarrow> chr_at p 0 \<noteq> NUL \<Longrightarrow> take 255 p = p"
  by (auto simp: lxnorm_def fs_get_current_path_def split: option.splits if_splits)

text \<open>The descriptor that creating or truncating a file returns.\<close>

lemma creat_fd:
  assumes ok: "lx_ok s" and c: "sys_open (Some path) 577 s = (r, t)" "0 \<le> r" and p: "lxnorm (Some path) (lfs s) = Some p"
    and fit: "fits_slot p (lfs s)" and nd: "\<not> fs_directory_exists (lfs s) (Some p)"
  obtains f where "fd_get (nat r) t = Some f" "lf_writable f" "\<not> lf_dir f" "lf_len f = 0" "lf_pos f = 0" "\<not> lf_append f" "lf_dirty f" "lf_path f = p"
    "lx_ok t" "fs_cur_uid (lfs t) = fs_cur_uid (lfs s)" "cwd (lfs t) = cwd (lfs s)"
proof -
  have b: "bit (577 :: nat) 0" "bit (577 :: nat) 6" "\<not> bit (577 :: nat) 7" "bit (577 :: nat) 9" "\<not> bit (577 :: nat) 10"
    by (simp_all add: bit_nat_def)
  have t: "lx_ok t" by (rule sys_open_ok [OF ok c(1)]) (use p fit in simp)
  show ?thesis
    using ok c(1)
  proof (cases rule: sys_open_cases)
    case (started i q s')
    have q: "q = p" "take 255 p = p" using started(3,4) p lxnorm_length by auto
    have i: "i \<in> {3..<6}" "\<not> lf_dir (lfd s' i)" "lf_used (lfd s' i)" "lf_writable (lfd s' i)" using fd_openingD [OF started(1)] started(5) b by auto
    obtain k where k: "lf_data (lfd s' i) = Scratch k" using fd_openingD(7) [OF started(1) i(4)] by blast
    have r: "int i = r \<Longrightarrow> nat r = i" by auto
    show ?thesis
    proof (cases "fs_file_exists (lfs s) (Some p)")
      case False
      obtain cr u where u: "fs_create_file (Some p) (lfs s) = (cr, u)" by fastforce
      note C = fs_create_file_law(3,4) [OF lx_ok_fs [OF ok] u]
      have "cr = 0" using started(12) q nd started(2) False u b c(2) by (auto simp: open_at_def open_new_def open_fail_def Let_def split: if_splits)
      then have e: "r = int i" "t = on_fd i (\<lambda>f. f\<lparr>lf_path := p, lf_len := 0, lf_dirty := True\<rparr>) (s'\<lparr>lfs := u\<rparr>)"
        using started(12) q nd started(2) False u b by (simp_all add: open_at_def open_new_def Let_def)
      show ?thesis
        by (rule that [of "lfd t i"]) (use e i started(8,9) t C in \<open>simp_all add: fd_get_def\<close>)
    next
      case True
      obtain rc b' u where u: "fs_read_file (Some p) True LX_FILE_MAX (lfs s) = (rc, b', u)" by (metis prod_cases3)
      obtain cc where cc: "b' = Some cc" "length cc < SLOT_BYTES" "tabs u = tabs (lfs s)" "fs_cur_uid u = fs_cur_uid (lfs s)"
        using stage_file [OF lx_ok_fs [OF ok] fit u] by metis
      have cap: "lf_cap (lfd s' i) = SLOT_BYTES" using fd_openingD(7) [OF started(1) i(4)] by auto
      have rc: "rc = 0"
        using started(12) q nd started(2) True u cc(1) i(4) k c(2) by (auto simp: open_at_def open_file_def open_fail_def Let_def split: if_splits)
      have e: "r = int i" "t = on_fd i (\<lambda>f. f\<lparr>lf_path := p, lf_len := 0, lf_dirty := True\<rparr>)
          (on_fd i (\<lambda>f. f\<lparr>lf_len := length cc\<rparr>) (ptr_write (Scratch k) 0 (cc @ [NUL]) (s'\<lparr>lfs := u\<rparr>)))"
        using started(12) q nd started(2) True u cc(1,2) i(4) k b rc cap started(9)
        by (auto simp: open_at_def open_file_def open_modes_eq Let_def on_fd_def fun_eq_iff)
      show ?thesis
        by (rule that [of "lfd t i"]) (use e i started(8,9) t cc tabs_eqD(6) [OF cc(3)] in \<open>simp_all add: fd_get_def\<close>)
    qed
  qed (use c(2) in simp)
qed

primrec write_all :: "nat \<Rightarrow> bytes list \<Rightarrow> lx \<Rightarrow> lx" where
  "write_all fd [] s = s"
| "write_all fd (d # ds) s = write_all fd ds (snd (sys_write fd d s))"

lemma overlay_end [simp]: "overlay (length c) d c = c @ d"
  by (simp add: overlay_def)

lemma length_staged:
  assumes "lx_ok s" "fd_get fd s = Some f" "lf_writable f" "\<not> lf_dir f"
  shows "length (staged s fd) = lf_len f"
proof -
  have i: "f = lfd s fd" using assms(2) by (simp add: fd_get_def split: if_splits)
  obtain k where "lf_data f = Scratch k" using fd_okD [OF assms] by metis
  then show ?thesis by (simp add: staged_def ptr_read_def i)
qed

lemma write_all_stages:
  assumes "lx_ok s" "fd_get fd s = Some f" "lf_writable f" "\<not> lf_dir f" "\<not> lf_append f" "lf_pos f = lf_len f"
    "lf_len f + length (concat ds) \<le> SLOT_BYTES" "lf_dirty f"
  shows "\<exists>g. lx_ok (write_all fd ds s) \<and> lfs (write_all fd ds s) = lfs s \<and> staged (write_all fd ds s) fd = staged s fd @ concat ds
    \<and> fd_get fd (write_all fd ds s) = Some g \<and> lf_path g = lf_path f \<and> lf_writable g \<and> \<not> lf_dir g \<and> lf_dirty g \<and> lf_len g = lf_len f + length (concat ds)"
  using assms
proof (induction ds arbitrary: s f)
  case (Cons d ds)
  obtain r t where t: "sys_write fd d s = (r, t)" by fastforce
  have le: "(if lf_append f then lf_len f else lf_pos f) \<le> SLOT_BYTES" using Cons.prems(5-7) by simp
  note W = sys_write_refines [OF Cons.prems(1-4) le t]
  let ?f = "f\<lparr>lf_pos := lf_len f + length d, lf_len := lf_len f + length d, lf_dirty := True\<rparr>"
  note n = length_staged [OF Cons.prems(1-4)]
  have s: "staged t fd = staged s fd @ d" using W(2) Cons.prems(5-7) n overlay_end [of "staged s fd" d] by simp
  have f: "fd_get fd t = Some ?f" using W(5) Cons.prems(5-7) by simp
  have "\<exists>g. lx_ok (write_all fd ds t) \<and> lfs (write_all fd ds t) = lfs t \<and> staged (write_all fd ds t) fd = staged t fd @ concat ds
    \<and> fd_get fd (write_all fd ds t) = Some g \<and> lf_path g = lf_path ?f \<and> lf_writable g \<and> \<not> lf_dir g \<and> lf_dirty g \<and> lf_len g = lf_len ?f + length (concat ds)"
    using Cons.prems by (intro Cons.IH [OF W(3) f]) simp_all
  then show ?case using t s W(4) by (simp add: add.assoc)
qed auto

lemma close_writes:
  assumes ok: "lx_ok s" and f: "fd_get fd s = Some f" "lf_writable f" "\<not> lf_dir f" "lf_dirty f"
  shows "lfs (snd (sys_close fd s)) = snd (fs_write_file (Some (lf_path f)) (Some (staged s fd)) (lf_len f) (lfs s))"
proof -
  have i: "fd \<in> {3..<6}" "lf_used (lfd s fd)" "f = lfd s fd" using f(1) by (simp_all only: fd_get_Some)
  obtain k where k: "lf_data f = Scratch k" "\<not> lf_zero f" using fd_okD [OF ok f(1-3)] by metis
  then show ?thesis using f i by (simp add: sys_close_def fd_flush_def staged_def Let_def)
qed

text \<open>The descriptor of a file opened for reading, and what it delivers.\<close>

lemma open_ro:
  assumes ok: "lx_ok s" and c: "sys_open (Some path) 0 s = (r, t)" "0 \<le> r" and p: "lxnorm (Some path) (lfs s) = Some p"
    and nd: "\<not> fs_directory_exists (lfs s) (Some p)" and fl: "fs_files (lfs s) (abs_path (cwd (lfs s)) p) = Some (b, u, m)"
  obtains f j where "fd_get (nat r) t = Some f" "\<not> lf_dir f" "lf_zero f" "lf_path f = p" "lf_pos f = 0" "lfs t = (lfs s)\<lparr>fs_errno := 0\<rparr>"
    "file_index (lfs s) (abs_path (cwd (lfs s)) p) = Some j" "b = file_bytes (lfs s) j" "\<not> null_or_empty (Some p)"
    "lf_data f = (case fdata (lfs s) j of None \<Rightarrow> Null | Some q \<Rightarrow> Pool q)" "lf_len f = nat (fsize (lfs s) j)"
    "perm_allows (lfs s) (fmode (lfs s) j) (fowner (lfs s) j) PERM_R"
  using ok c(1)
proof (cases rule: sys_open_cases)
  case (started i q s')
  have q: "q = p" "take 255 p = p" using started(3,4) p lxnorm_length by auto
  have i: "i \<in> {3..<6}" "\<not> lf_dir (lfd s' i)" "lf_used (lfd s' i)" "\<not> lf_writable (lfd s' i)" using fd_openingD [OF started(1)] started(5) by auto
  obtain j where j: "file_index (lfs s) (abs_path (cwd (lfs s)) p) = Some j" "b = file_bytes (lfs s) j"
    using fl by (auto simp: fs_files_def split: if_splits)
  have ne: "\<not> null_or_empty (Some p)" using started(4) q by (simp add: null_or_empty_def)
  then have ex: "fs_file_exists (lfs s) (Some p)" using j(1) by (simp add: fs_file_exists_def)
  obtain d sz v where v: "fs_file_data_ptr (Some p) (lfs s) = (d, sz, v)" by (metis prod_cases3)
  let ?v = "(lfs s)\<lparr>fs_errno := 0\<rparr>"
  have ptr: "fs_file_data_ptr (Some p) (lfs s) =
      (if perm_allows (lfs s) (fmode (lfs s) j) (fowner (lfs s) j) PERM_R then (fdata (lfs s) j, Some (nat (fsize (lfs s) j)), ?v)
       else (None, None, fs_deny ?v))"
    using ne j(1) by (auto simp: fs_file_data_ptr_def errno_frame Let_def)
  have nden: "\<not> (d = None \<and> fs_errno v = 13)"
    using started(12) q nd ex started(2) i(4) v c(2) by (auto simp: open_at_def open_file_def open_fail_def Let_def split: if_splits)
  then have pr: "perm_allows (lfs s) (fmode (lfs s) j) (fowner (lfs s) j) PERM_R" using ptr v by (auto split: if_splits)
  then have dv: "d = fdata (lfs s) j" "sz = Some (nat (fsize (lfs s) j))" "v = ?v" using ptr v by auto
  have e: "nat r = i" "lfs t = ?v" "fd_get i t = Some (lfd t i)" "lf_dir (lfd t i) = False" "lf_zero (lfd t i)" "lf_path (lfd t i) = p" "lf_pos (lfd t i) = 0"
    "lf_data (lfd t i) = (case d of None \<Rightarrow> Null | Some q \<Rightarrow> Pool q)" "lf_len (lfd t i) = the sz"
    using started(12) q nd ex started(2) i v nden dv(2,3) started(8)
    by (auto simp: open_at_def open_file_def open_modes_eq Let_def fd_get_def)
  show ?thesis by (rule that [of "lfd t i" j]) (use e j ne dv pr in simp_all)
qed (use c(2) in simp)

lemma open_read:
  assumes ok: "lx_ok s" and c: "sys_open (Some path) 0 s = (r, t)" "0 \<le> r" and p: "lxnorm (Some path) (lfs s) = Some p"
    and nd: "\<not> fs_directory_exists (lfs s) (Some p)" and fl: "fs_files (lfs s) (abs_path (cwd (lfs s)) p) = Some (b, u, m)"
  shows "fst (sys_read (nat r) n t) = int (min n (length b)) \<and> fst (snd (sys_read (nat r) n t)) = take n b"
proof -
  let ?v = "(lfs s)\<lparr>fs_errno := 0\<rparr>"
  obtain f j where f: "fd_get (nat r) t = Some f" "\<not> lf_dir f" "lf_zero f" "lf_path f = p" "lf_pos f = 0" "lfs t = ?v"
    and j: "file_index (lfs s) (abs_path (cwd (lfs s)) p) = Some j" "b = file_bytes (lfs s) j" "\<not> null_or_empty (Some p)"
    and pr: "perm_allows (lfs s) (fmode (lfs s) j) (fowner (lfs s) j) PERM_R"
    using open_ro [OF assms] by metis
  have i: "nat r \<in> {3..<6}" "f = lfd t (nat r)" using f(1) by (simp_all only: fd_get_Some)
  have "fs_file_data_ptr (Some p) ?v = (fdata (lfs s) j, Some (nat (fsize (lfs s) j)), ?v)"
    using j pr by (auto simp: fs_file_data_ptr_def errno_frame Let_def)
  then have r: "sys_read (nat r) n t = (case fdata (lfs s) j of None \<Rightarrow> (0, [], on_fd (nat r) (\<lambda>f. f\<lparr>lf_len := 0\<rparr>) (t\<lparr>lfs := ?v\<rparr>))
      | Some q \<Rightarrow> read_bytes (nat r) n (on_fd (nat r) (\<lambda>f. f\<lparr>lf_data := Pool q, lf_len := nat (fsize (lfs s) j)\<rparr>) (t\<lparr>lfs := ?v\<rparr>)))"
    using f i(1) by (auto simp: sys_read_def Let_def split: option.split)
  show ?thesis
  proof (cases "fdata (lfs s) j")
    case None
    then show ?thesis using r j(2) by (simp add: file_bytes_def)
  next
    case (Some x)
    have b: "b = pool_read x (nat (fsize (lfs s) j)) (fs_pool (lfs s))" using Some j(2) by (simp add: file_bytes_def)
    have "pool_read x (min n (length b)) (fs_pool (lfs s)) = take n b"
      using pool_read_take [of n "length b" x "fs_pool (lfs s)"] b by (cases "n \<le> length b") simp_all
    moreover have "pool_read x 0 P = []" for P using length_pool_read [of x 0 P] by (simp only: length_0_conv)
    ultimately show ?thesis using r Some f(5) i(2) b by (auto simp: read_bytes_def ptr_read_def Let_def min_def)
  qed
qed

lemma norm_frame:
  assumes "cwd t = cwd s" "fs_dirs t = fs_dirs s"
  shows "lxnorm path t = lxnorm path s" "fs_directory_exists t q = fs_directory_exists s q"
proof -
  show "lxnorm path t = lxnorm path s" using assms(1) by (simp add: lxnorm_def fs_get_current_path_def split: option.split)
  have "dir_index t p = None \<longleftrightarrow> dir_index s p = None" if "is_cstring p" for p
    using fs_dirs_None_iff [OF that, of s] fs_dirs_None_iff [OF that, of t] assms(2) by simp
  then show "fs_directory_exists t q = fs_directory_exists s q" using assms(1) by (simp add: fs_directory_exists_def abs_path_ok)
qed

subsection \<open>Properties: writing and reading\<close>

text \<open>C39. A write does to the staged contents of a descriptor what POSIX asks for: the bytes replace those at the
  position (the end, for appending descriptors), a gap before them is filled with zeros, the position moves behind them;
  neither the filesystem nor the staged contents of any other file change.\<close>

theorem sys_write_posix:
  assumes "lx_run (start_fds s0) s" "fs_ok (lfs s0)" "\<not> lx_wild s0"
    and f: "fd_get fd s = Some f" "lf_writable f" "\<not> lf_dir f"
    and p: "pos = (if lf_append f then lf_len f else lf_pos f)" "pos + length d \<le> SLOT_BYTES" and t: "sys_write fd d s = (r, t)"
  shows "r = int (length d) \<and> staged t fd = overlay pos d (staged s fd) \<and> lfs t = lfs s
    \<and> (\<exists>g. fd_get fd t = Some g \<and> lf_pos g = pos + length d \<and> lf_path g = lf_path f \<and> lf_dirty g)
    \<and> (\<forall>j g. fd_get j s = Some g \<and> lf_writable g \<and> \<not> lf_dir g \<and> lf_path g \<noteq> lf_path f \<longrightarrow> staged t j = staged s j)"
proof -
  have ok: "lx_ok s" using lx_run_ok [OF assms(1) start_fds_ok [OF assms(2,3)]] .
  have le: "(if lf_append f then lf_len f else lf_pos f) \<le> SLOT_BYTES" using p by simp
  note W = sys_write_refines [OF ok f le t, folded p(1)]
  have "take (SLOT_BYTES - pos) d = d" using p(2) by simp
  then show ?thesis using W by auto
qed

text \<open>C11. What a program writes to a created or truncated file, in any number of pieces, is in the file when the descriptor is
  closed and the write-back succeeds, and a descriptor opened for reading then delivers it; other files keep the
  contents they had.\<close>

theorem linux_file_roundtrip:
  assumes "lx_run (start_fds s0) s" "fs_ok (lfs s0)" "\<not> lx_wild s0"
    and p: "lxnorm (Some path) (lfs s) = Some p" "fits_slot p (lfs s)" "\<not> fs_directory_exists (lfs s) (Some p)"
    and c: "linux_syscall (Creat (Some path)) s = (r, b, s1)" "0 \<le> r"
    and d: "length (concat ds) \<le> SLOT_BYTES"
    and w: "fst (fs_write_file (Some p) (Some (concat ds)) (length (concat ds)) (lfs s1)) = 0"
    and cl: "sys_close (nat r) (write_all (nat r) ds s1) = (0, s2)"
  shows "fs_files (lfs s2) = (fs_files (lfs s1))(abs_path (cwd (lfs s)) p \<mapsto> (concat ds, write_meta (lfs s1) (abs_path (cwd (lfs s)) p)))
    \<and> (\<forall>r' s3 n. sys_open (Some path) 0 s2 = (r', s3) \<and> 0 \<le> r' \<longrightarrow>
         fst (sys_read (nat r') n s3) = int (min n (length (concat ds))) \<and> fst (snd (sys_read (nat r') n s3)) = take n (concat ds))"
proof -
  have ok: "lx_ok s" using lx_run_ok [OF assms(1) start_fds_ok [OF assms(2,3)]] .
  have o: "sys_open (Some path) 577 s = (r, s1)" using c(1) by (cases "sys_open (Some path) 577 s") simp
  obtain f where f: "fd_get (nat r) s1 = Some f" "lf_writable f" "\<not> lf_dir f" "lf_len f = 0" "lf_pos f = 0" "\<not> lf_append f" "lf_dirty f" "lf_path f = p"
    "lx_ok s1" "cwd (lfs s1) = cwd (lfs s)"
    using creat_fd [OF ok o c(2) p] by metis
  have dirs: "fs_dirs (lfs s1) = fs_dirs (lfs s)" using permits.st_opens [OF ok _ o] p(1,2) by (auto simp: permitted_def)
  let ?t = "write_all (nat r) ds s1" and ?full = "abs_path (cwd (lfs s)) p"
  have z: "staged s1 (nat r) = []" using length_staged [OF f(9,1-3)] f(4) by simp
  obtain g where g: "lx_ok ?t" "lfs ?t = lfs s1" "staged ?t (nat r) = concat ds" "fd_get (nat r) ?t = Some g" "lf_path g = p" "lf_writable g" "\<not> lf_dir g"
    "lf_dirty g" "lf_len g = length (concat ds)"
    using write_all_stages [OF f(9,1-3,6)] f(4,5,7,8) d z by auto
  have l2: "lfs s2 = snd (fs_write_file (Some p) (Some (concat ds)) (length (concat ds)) (lfs s1))"
    using close_writes [OF g(1,4,6,7,8)] cl g(2,3,5,9) by simp
  have wr: "fs_write_file (Some p) (Some (concat ds)) (length (concat ds)) (lfs s1) = (0, lfs s2)" using w l2 by (simp add: prod_eq_iff)
  note W = fs_write_file_ok [OF lx_ok_fs [OF f(9)] wr]
  have ok2: "lx_ok s2" using sys_close_ok [OF g(1) cl] .
  have fl: "fs_files (lfs s2) ?full = Some (concat ds, write_meta (lfs s1) ?full)" using W f(10) by simp
  have "fst (sys_read (nat r') n s3) = int (min n (length (concat ds))) \<and> fst (snd (sys_read (nat r') n s3)) = take n (concat ds)"
    if "sys_open (Some path) 0 s2 = (r', s3)" "0 \<le> r'" for r' s3 n
  proof (rule open_read [OF ok2 that])
    show "lxnorm (Some path) (lfs s2) = Some p" "\<not> fs_directory_exists (lfs s2) (Some p)" using norm_frame [of "lfs s2" "lfs s"] W f(10) dirs p by simp_all
    show "fs_files (lfs s2) (abs_path (cwd (lfs s2)) p) = Some (concat ds, fst (write_meta (lfs s1) ?full), snd (write_meta (lfs s1) ?full))"
      using fl W f(10) by simp
  qed
  then show ?thesis using W f(10) by auto
qed

subsection \<open>Properties: errors of open\<close>

text \<open>C40. The result of \<^verbatim>\<open>open\<close> on a path that is not a directory, when a descriptor and, for writing, a slot are free. For a
  missing file: ENOENT without O_CREAT, EEXIST when O_EXCL is given too, otherwise what creating the file gives. An
  existing file needs the right to read, also for writing, and is opened whatever O_EXCL says: the flag has the opposite
  of its meaning.\<close>

theorem open_error_codes:
  assumes "lx_run (start_fds s0) s" "fs_ok (lfs s0)" "\<not> lx_wild s0"
    and p: "lxnorm (Some path) (lfs s) = Some p" "chr_at p 0 \<noteq> NUL" "\<not> fs_directory_exists (lfs s) (Some p)"
    and fr: "free_fd s = Some fd" "bit flags 0 \<or> bit flags 1 \<Longrightarrow> (\<exists>k<2. \<not> slot_used s k) \<and> fits_slot p (lfs s)"
  shows "fst (sys_open (Some path) flags s) =
    (case fs_files (lfs s) (abs_path (cwd (lfs s)) p) of
       None \<Rightarrow> if \<not> bit flags 6 then ENOENT else if bit flags 7 then EEXIST
               else (let c = fst (fs_create_file (Some p) (lfs s)) in if c = 0 then int fd else if c = - 2 then EACCES else ENOENT)
     | Some (b, u, m) \<Rightarrow> if perm_allows (lfs s) m u PERM_R then int fd else EACCES)"
proof -
  have ok: "lx_ok s" using lx_run_ok [OF assms(1) start_fds_ok [OF assms(2,3)]] .
  obtain r t where o: "sys_open (Some path) flags s = (r, t)" by fastforce
  let ?full = "abs_path (cwd (lfs s)) p"
  have np: "chr_at path 0 \<noteq> NUL" using p(1,2) by (auto simp: lxnorm_def)
  have full: "is_cstring ?full" by (simp add: abs_path_ok)
  show ?thesis
    using ok o
  proof (cases rule: sys_open_cases)
    case none
    then show ?thesis using np p fr by (auto simp: null_or_empty_def)
  next
    case (started i q s')
    have q: "q = p" "i = fd" using started(3,13) p fr by auto
    have ne: "\<not> null_or_empty (Some p)" using p(2) by (simp add: null_or_empty_def)
    have at: "open_at fd p flags s' = (r, t)" "lfs s' = lfs s" "fd_opening fd s'" using started(1,2,12) q by simp_all
    show ?thesis
    proof (cases "file_index (lfs s) ?full")
      case None
      then have "open_new fd p flags s' = (r, t)" using at p(3) ne by (simp add: open_at_def fs_file_exists_def)
      then have "r = (if \<not> bit flags 6 then ENOENT else if bit flags 7 then EEXIST
          else (let c = fst (fs_create_file (Some p) (lfs s)) in if c = 0 then int fd else if c = - 2 then EACCES else ENOENT))"
        using at(2) by (auto simp: open_new_def open_fail_def Let_def split: if_splits prod.splits)
      moreover have "fs_files (lfs s) ?full = None" using None full by (simp add: fs_files_None_iff)
      ultimately show ?thesis using o by simp
    next
      case (Some j)
      note fl = fs_files_index [OF Some full]
      have e: "open_file fd p flags s' = (r, t)" using at p(3) ne Some by (simp add: open_at_def fs_file_exists_def)
      have "r = (if perm_allows (lfs s) (fmode (lfs s) j) (fowner (lfs s) j) PERM_R then int fd else EACCES)"
      proof (cases "lf_writable (lfd s' fd)")
        case False
        show ?thesis
          using e False at(2) ne Some by (auto simp: open_file_def fs_file_data_ptr_def open_fail_def open_modes_eq errno_frame Let_def split: if_splits)
      next
        case True
        then obtain k where k: "lf_data (lfd s' fd) = Scratch k" "lf_cap (lfd s' fd) = SLOT_BYTES" using fd_openingD(7) [OF at(3)] by auto
        have fit: "fits_slot p (lfs s)" using fr(2) started(5) True q by auto
        obtain rc b v where v: "fs_read_file (Some p) True LX_FILE_MAX (lfs s) = (rc, b, v)" by (metis prod_cases3)
        obtain c where c: "b = Some c" "length c < SLOT_BYTES" using stage_file [OF lx_ok_fs [OF ok] fit v] by metis
        have "rc = 0 \<longleftrightarrow> perm_allows (lfs s) (fmode (lfs s) j) (fowner (lfs s) j) PERM_R"
          using v fl lx_ok_fs [OF ok] by (auto simp: fs_read_file_law split: if_splits)
        then show ?thesis using e True v c k at(2) by (auto simp: open_file_def open_fail_def open_modes_eq Let_def split: if_splits)
      qed
      then show ?thesis using o fl by simp
    qed
  qed
qed

subsection \<open>Where the code deviates\<close>

text \<open>\<^verbatim>\<open>ftruncate\<close> does not ask whether the descriptor writes: on a file opened for reading it clears the bytes behind
  the new length in the file itself, whatever the mode of the file says about writing.\<close>

theorem ftruncate_ignores_mode:
  assumes ok: "lx_ok s" and c: "sys_open (Some path) 0 s = (r, t)" "0 \<le> r" and p: "lxnorm (Some path) (lfs s) = Some p"
    and nd: "\<not> fs_directory_exists (lfs s) (Some p)" and fl: "fs_files (lfs s) (abs_path (cwd (lfs s)) p) = Some (b, u, m)"
    and n: "n < length b"
  shows "fs_files (lfs (snd (sys_ftruncate (nat r) n t))) (abs_path (cwd (lfs s)) p) = Some (take n b @ replicate (length b - n) NUL, u, m)"
proof -
  let ?full = "abs_path (cwd (lfs s)) p" and ?v = "(lfs s)\<lparr>fs_errno := 0\<rparr>"
  obtain f j where f: "fd_get (nat r) t = Some f" "\<not> lf_dir f" "lfs t = ?v" "lf_data f = (case fdata (lfs s) j of None \<Rightarrow> Null | Some q \<Rightarrow> Pool q)"
      "lf_len f = nat (fsize (lfs s) j)"
    and j: "file_index (lfs s) ?full = Some j" "b = file_bytes (lfs s) j"
    using open_ro [OF ok c p nd fl] by metis
  obtain q where q: "fdata (lfs s) j = Some q" using j(2) n by (cases "fdata (lfs s) j") (auto simp: file_bytes_def)
  have b: "b = pool_read q (nat (fsize (lfs s) j)) (fs_pool (lfs s))" using j(2) q by (simp add: file_bytes_def)
  let ?P = "pool_write (q + n) (replicate (length b - n) NUL) (fs_pool (lfs s))"
  have sz: "length b = nat (fsize (lfs s) j)" using b by simp
  have "j < MAX_F" using file_index_used [OF j(1)] by simp
  then have "slot_data_ok (lfs s) j" using lx_ok_fs [OF ok] data_okD(2) by (auto simp: fs_ok_def)
  then have "fsize (lfs s) j < int MAX_FILE_DATA" using q by (auto simp: slot_data_ok_def)
  then have e: "lfs (snd (sys_ftruncate (nat r) n t)) = ?v\<lparr>fs_pool := ?P\<rparr>"
    using f q n sz by (simp add: sys_ftruncate_def ptr_write_def Let_def MAX_FILE_DATA_def)
  have "pool_read q (length b) ?P = take n b @ replicate (length b - n) NUL"
    using n by (intro nth_equalityI) (auto simp: pool_read_def pool_write_def pool.put_run_get nth_append b)
  moreover have "file_index (?v\<lparr>fs_pool := ?P\<rparr>) ?full = Some j" using j(1) by (simp add: file_index_def)
  moreover have "u = fowner (lfs s) j" "m = fmode (lfs s) j" using fl fs_files_index [OF j(1)] by (simp_all add: abs_path_ok)
  ultimately show ?thesis unfolding e using q sz fs_files_index [of "?v\<lparr>fs_pool := ?P\<rparr>" ?full j] by (simp add: abs_path_ok file_bytes_def)
qed

text \<open>A standard descriptor that was redirected to a file cannot be written any more.\<close>

theorem redirected_write_fails:
  assumes "fd_get fd s = Some f" "lf_writable f" "lf_path f \<noteq> []" "sys_dup2 fd 1 s = (r, t)"
  shows "r = 1 \<and> sys_write 1 d t = (EBADF, t)"
proof -
  have i: "fd \<in> {3..<6}" "lf_used (lfd s fd)" "f = lfd s fd" using assms(1) by (simp_all only: fd_get_Some)
  then have "lfd (if lf_used (lfd s 1) then fd_flush 1 s else s) fd = f" by (simp add: fd_flush_frame)
  then have "r = 1" "lfd t 1 = f\<lparr>lf_used := True\<rparr>" using assms(1,4) i by (auto simp: sys_dup2_def Let_def split: if_splits)
  then show ?thesis using assms(2,3) by (simp add: sys_write_def fd_get_def)
qed

text \<open>An entry that does not fit the buffer of \<^verbatim>\<open>getdents64\<close> is lost: the position is already behind it.\<close>

theorem getdents_loses_entry:
  "dirents (''a'' @ [NEWLINE] @ ''b'' @ [NEWLINE]) 32 0 0 = (dirent 24 24 False ''a'', 4)"
  by (simp add: dirents.simps round_up_def align_down_def Let_def)

subsection \<open>A program\<close>

text \<open>A program on a new filesystem that creates the file \<^verbatim>\<open>/a\<close>.\<close>

definition new_lx :: lx where
  "new_lx = \<lparr>lfs = fresh_fs, lfd = (\<lambda>_. zero_file), scratch = (\<lambda>_. NUL), slot_used = (\<lambda>_. False), dir_list = (\<lambda>_. NUL),
     lx_stdin = [], lx_kbd = [], console = [], lx_wild = False\<rparr>"

definition a_lx :: lx where
  "a_lx = snd (sys_open (Some ''/a'') 577 (start_fds new_lx))"

lemma new_lx_ok: "fs_ok (lfs new_lx)" "\<not> lx_wild new_lx" "lfs (start_fds new_lx) = fresh_fs"
  by (simp_all add: new_lx_def start_fds_def fresh_fs_ok)

lemma norm_a: "lxnorm (Some ''/a'') s = Some ''/a''"
  by (simp add: lxnorm_def chr_at_def cstr_def)

lemma fresh_a: "\<not> fs_directory_exists fresh_fs (Some ''/a'')" "\<not> fs_file_exists fresh_fs (Some ''/a'')" "fits_slot ''/a'' fresh_fs"
proof -
  have c: "is_cstring ''/a''" by (simp add: is_cstring_def)
  have "dir_index fresh_fs ''/a'' = None" "file_index fresh_fs ''/a'' = None"
    using fs_dirs_None_iff [OF c, of fresh_fs] fs_files_None_iff [OF c, of fresh_fs] by (simp_all add: fresh_fs_ok)
  then show "\<not> fs_directory_exists fresh_fs (Some ''/a'')" "\<not> fs_file_exists fresh_fs (Some ''/a'')"
    by (simp_all add: fs_directory_exists_def fs_file_exists_def fresh_parent strcmp_safe_iff)
  show "fits_slot ''/a'' fresh_fs" by (simp add: fits_slot_def fresh_fs_ok)
qed

lemma free_start: "free_fd (start_fds s) = Some 3" "\<not> slot_used (start_fds s) k"
  by (simp_all add: free_fd_def start_fds_def)

lemma create_a: "fst (fs_create_file (Some ''/a'') fresh_fs) = 0"
  by (rule fs_create_file_succeeds) (simp_all add: fresh_may_create fresh_free_slot)

lemma claim_start: "slot_claim (on_fd 3 g (start_fds s)) = (Some 0, (on_fd 3 g (start_fds s))\<lparr>slot_used := (\<lambda>_. False)(0 := True)\<rparr>)"
proof -
  have "[0..<2] = [0, Suc 0]" by (simp add: upt_rec)
  then show ?thesis by (simp add: slot_claim_def on_fd_def start_fds_def)
qed

lemma open_a: "sys_open (Some ''/a'') 577 (start_fds new_lx) = (3, a_lx)" "lfs a_lx = snd (fs_create_file (Some ''/a'') fresh_fs)"
proof -
  have b: "bit (577 :: nat) 0" "bit (577 :: nat) 6" "\<not> bit (577 :: nat) 7" by (simp_all add: bit_nat_def)
  have "fst (sys_open (Some ''/a'') 577 (start_fds new_lx)) = 3 \<and> lfs a_lx = snd (fs_create_file (Some ''/a'') fresh_fs)"
    using b create_a fresh_a free_start [of new_lx] norm_a [of fresh_fs]
    by (cases "fs_create_file (Some ''/a'') fresh_fs")
      (simp add: a_lx_def sys_open_def claim_start open_at_def open_new_def new_lx_ok Let_def null_or_empty_def chr_at_def)
  then show "sys_open (Some ''/a'') 577 (start_fds new_lx) = (3, a_lx)" "lfs a_lx = snd (fs_create_file (Some ''/a'') fresh_fs)"
    by (simp_all add: a_lx_def prod_eq_iff)
qed

lemma creat_a: "linux_syscall (Creat (Some ''/a'')) (start_fds new_lx) = (3, [], a_lx)" "call_fits (Creat (Some ''/a'')) (start_fds new_lx)"
  using open_a fresh_a by (simp_all add: norm_a new_lx_ok)

lemma run_a: "lx_run (start_fds new_lx) a_lx"
  using lx_step [OF lx_start creat_a(2,1)] .

lemma a_fs: "fs_ok (lfs a_lx)" "fs_files (lfs a_lx) = [''/a'' \<mapsto> ([], 0, 420)]" "cwd (lfs a_lx) = cwd fresh_fs" "fs_cur_uid (lfs a_lx) = 0"
  "fs_pool (lfs a_lx) = fs_pool fresh_fs"
proof -
  have r: "fs_create_file (Some ''/a'') fresh_fs = (0, lfs a_lx)" using create_a open_a(2) by (simp add: prod_eq_iff)
  note C = fs_create_file_law [OF fresh_fs_ok(1) r]
  show "fs_ok (lfs a_lx)" "cwd (lfs a_lx) = cwd fresh_fs" "fs_cur_uid (lfs a_lx) = 0" using C by (simp_all add: fresh_fs_ok)
  show "fs_files (lfs a_lx) = [''/a'' \<mapsto> ([], 0, 420)]" using C(7) by (simp add: fresh_fs_ok fresh_parent)
  show "fs_pool (lfs a_lx) = fs_pool fresh_fs" using create_keeps_pool [OF r] .
qed

lemma a_fd:
  obtains f where "fd_get 3 a_lx = Some f" "lf_writable f" "\<not> lf_dir f" "lf_len f = 0" "lf_pos f = 0" "\<not> lf_append f" "lf_dirty f" "lx_ok a_lx"
  using creat_fd [OF start_fds_ok [OF new_lx_ok(1,2)] open_a(1)] fresh_a by (simp add: norm_a new_lx_ok) (metis nat_numeral)

lemma write_a: "fst (fs_write_file (Some ''/a'') (Some ''hello'') 5 (lfs a_lx)) = 0"
proof (rule fs_write_file_succeeds_aux [OF a_fs(1)])
  show "may_write (lfs a_lx) ''/a''" by (simp add: may_write_def a_fs fresh_parent perm_allows_def)
  show "5 = (0 :: nat) \<or> has_room (lfs a_lx) (5 + 1)" using fresh_room [of 6] by (simp add: has_room_def a_fs(5))
qed (simp_all add: a_fs fresh_parent MAX_FILE_DATA_def)



theorem sys_write_posix_witness: "\<exists>t. sys_write 3 ''hi'' a_lx = (2, t) \<and> staged t 3 = ''hi'' \<and> lfs t = lfs a_lx"
proof -
  obtain f where f: "fd_get 3 a_lx = Some f" "lf_writable f" "\<not> lf_dir f" "lf_len f = 0" "lf_pos f = 0" "\<not> lf_append f" "lx_ok a_lx" by (rule a_fd)
  obtain r t where t: "sys_write 3 ''hi'' a_lx = (r, t)" by fastforce
  have "staged a_lx 3 = []" using length_staged [OF f(7,1-3)] f(4) by simp
  then show ?thesis using sys_write_posix [OF run_a new_lx_ok(1,2) f(1-3) refl _ t] f(4-6) t by (simp add: overlay_def)
qed

theorem linux_file_roundtrip_witness:
  "\<exists>s2. sys_close 3 (write_all 3 [''he'', ''llo''] a_lx) = (0, s2) \<and> fs_files (lfs s2) ''/a'' = Some (''hello'', 0, 420)"
proof -
  obtain f where f: "fd_get 3 a_lx = Some f" "lf_writable f" "\<not> lf_dir f" "lf_len f = 0" "lf_pos f = 0" "\<not> lf_append f" "lf_dirty f" "lx_ok a_lx" by (rule a_fd)
  have "\<exists>g. fd_get 3 (write_all 3 [''he'', ''llo''] a_lx) = Some g"
    using write_all_stages [OF f(8,1-3,6), of "[''he'', ''llo'']"] f(4,5,7) by auto
  then obtain s2 where c: "sys_close (nat 3) (write_all (nat 3) [''he'', ''llo''] a_lx) = (0, s2)" by (auto simp: sys_close_def Let_def)
  have w: "fst (fs_write_file (Some ''/a'') (Some ''hello'') (Suc (Suc (Suc (Suc (Suc 0))))) (lfs a_lx)) = 0"
    using write_a by (simp add: eval_nat_numeral)
  show ?thesis
    using linux_file_roundtrip [OF lx_start new_lx_ok(1,2) norm_a _ _ creat_a(1) _ _ _ c] w fresh_a c
    by (auto simp: new_lx_ok fresh_parent write_meta_def a_fs)
qed

theorem open_error_codes_witness: "fst (sys_open (Some ''/a'') 192 (start_fds new_lx)) = - 17"
proof -
  have "bit (192 :: nat) 6" "bit (192 :: nat) 7" "\<not> bit (192 :: nat) 0" "\<not> bit (192 :: nat) 1" by (simp_all add: bit_nat_def)
  then show ?thesis
    using open_error_codes [OF lx_start new_lx_ok(1,2) norm_a _ _ free_start(1), of 192] fresh_a
    by (simp add: new_lx_ok fresh_fs_ok fresh_parent chr_at_def)
qed

end
