(* ===== verification/Spec2Isabelle.thy ===== *)
theory Spec2Isabelle
  imports Utf8 FsReach FsSerial CString AccountCmds Store ShellExec BootMem ElfLoad
    NetProps NetServices NetHttp LinuxProps
begin

text \<open>
  \<^bold>\<open>TanjaOS: a verification library of the kernel's core\<close>

  TanjaOS is a 32-bit x86 kernel with a RAM filesystem that is saved to a reserved region of the disk, user accounts,
  a login, a shell that runs programs and scripts from the filesystem, and a polled network stack. The library models the C code that keeps
  state and decides what a user may do, and proves what makes it correct.

  \<^bold>\<open>How the parts interact.\<close> The boot loader starts \<^verbatim>\<open>kernel_main\<close> (src/kernel/kernel.c). It divides the RAM between
  the file pool, the malloc arena and the programs, lets \<^verbatim>\<open>store_init\<close> (src/kernel/store.c) find the region on the
  disk and load the saved image into the filesystem (src/fs/fs.c) and the account tables, registers the built-in
  commands, asks for missing passwords and then repeats login and shell. The shell expands variables and wildcards,
  runs a built-in command or loads a file (src/kernel/exec.c). Commands change the filesystem and the account
  tables, and each change is saved through the store. The network stack (src/kernel/net.c) runs when the keyboard loop
  or one of its own waits polls it; programs reach it through the name resolver, ping and the HTTP client. Linux programs reach the filesystem through
  system calls on file descriptors (src/kernel/linux.c), which stage what is written in two slots of 2 MiB.

  \<^bold>\<open>Theories and sources.\<close>
  \<^item> \<open>Prelude\<close>: bytes, C strings, 32-bit numbers with wrap-around, little-endian words in memory.
  \<^item> \<open>Allocator\<close>: the interface of a memory allocator as the locale \<open>block_allocator\<close>; the lemmas of its clients are
    proved once and hold for both allocators of the kernel by interpretation.
  \<^item> \<open>Utf8\<close>: src/include/utf8.h. \<open>CString\<close>: the string and memory routines of src/kernel/kernel.c.
  \<^item> \<open>FsPath\<close>, \<open>FsPool\<close>, \<open>FsState\<close>, \<open>FsOps\<close>, \<open>FsSerial\<close>: the definitions of src/fs/fs.c, in the order of the code: paths,
    the data pool (first interpretation of the allocator), the tables, one definition per \<^verbatim>\<open>fs_\<close> function, and the
    image that is saved. \<open>FsInv\<close> has the invariant \<open>fs_ok\<close> and the abstract maps \<open>fs_files\<close> and \<open>fs_dirs\<close>, \<open>FsLaws\<close> and
    \<open>FsDirs\<close> what each operation does to them, \<open>FsProps\<close> the properties of writing, reading and permissions,
    \<open>FsReach\<close> the step relation over all operations and its reachable states.
  \<^item> \<open>KHeap\<close>: malloc, free, calloc and realloc of src/kernel/libc.c on the bytes of the block headers (second
    interpretation of the allocator).
  \<^item> \<open>BootMem\<close>: the boot allocator, the sizes of the pools and the memory map (src/kernel/kernel.c) and the layout of
    the program regions (\<^verbatim>\<open>linux_set_layout\<close>, src/kernel/linux.c).
  \<^item> \<open>Accounts\<close>: the user and group tables of src/kernel/kernel.c and their saved form. \<open>AccountCmds\<close>: sessions,
    \<^verbatim>\<open>login_prompt\<close>, \<^verbatim>\<open>sudo\<close>, \<^verbatim>\<open>su\<close>, \<^verbatim>\<open>passwd\<close>, the account, group, \<^verbatim>\<open>chmod\<close> and \<^verbatim>\<open>chown\<close> commands.
  \<^item> \<open>Store\<close>: src/kernel/store.c: the header on the disk, the buffered streams, saving, loading and the placement of
    the region. A drive is a content and a function that tells which requests fail.
  \<^item> \<open>ShellWords\<close>: shell variables, wildcards and their expansion. \<open>ShellExec\<close>: the command table,
    \<^verbatim>\<open>execute_command\<close>, src/kernel/exec.c, the first-boot dialogue and the shell loop.
  \<^item> \<open>ProgramEnv\<close>: the argument vector, exit handlers and \<^verbatim>\<open>exit\<close> (src/kernel/libc.c, src/kernel/libc2.c). \<open>ElfLoad\<close>:
    \<^verbatim>\<open>elf_run\<close> of src/kernel/elf.c: header checks, placement of the sections, symbols, relocations, the entry point and the
    run. The addresses of the kernel's export table and the effect of machine code are parameters.
  \<^item> \<open>NetWire\<close>, \<open>NetStack\<close>, \<open>NetServices\<close>, \<open>NetHttp\<close>: the definitions of src/kernel/net.c, in the order of the code: numbers,
    checksums and addresses; ARP, Ethernet, IPv4, ICMP, UDP and the TCP client; DHCP, DNS, ping and the poll of the idle
    loop; the URLs and chunked bodies of HTTP. \<open>NetTcp\<close> has the locale \<open>tcp_frames\<close>, which says when a property of the
    connection survives everything the stack does, and its interpretations for the byte stream and for the segment
    size; \<open>NetProps\<close> the properties of TCP.
  \<^item> \<open>LinuxFd\<close>: the file descriptors of Linux programs and the system calls on files and directories of
    src/kernel/linux.c, one definition per \<^verbatim>\<open>sys_\<close> function and the dispatch \<open>linux_syscall\<close>. \<open>LinuxInv\<close> has the invariant
    \<open>lx_ok\<close> of the descriptors and the locale \<open>fs_steps\<close>: a relation between filesystems that every operation the calls
    use respects holds across each call. It is interpreted for the filesystem invariant there and for the permissions in
    \<open>LinuxProps\<close>, which has the properties of whole runs.

  \<^bold>\<open>State.\<close> Global C variables are the fields of records: \<open>fstab\<close> and \<open>fs\<close> (tables, pool, current user, error number),
  \<open>config_t\<close> and \<open>accounts\<close>, \<open>store\<close>, \<open>sess\<close> and its extension \<open>shell_state\<close>, \<open>heap\<close>, \<open>bootmem\<close>, \<open>program_env\<close> and
  its extension \<open>elf_state\<close>, \<open>net\<close> with the connection \<open>tcb\<close>, \<open>lx\<close> with its descriptors \<open>lfile\<close>. The card and the clock of the network stack are sequences in
  \<open>net\<close>: the frames that arrive, the results of sending, the length of each sleep. Operations pass the state
  explicitly and return it with the C result code. Fixed arrays are functions from indices or lists of their length, a
  null pointer is \<^term>\<open>None\<close> or address 0. Text that is printed is appended to \<open>out\<close>, lines typed are read from \<open>kbd\<close>.

  \<^bold>\<open>What the lemmas show.\<close> Invariants over all reachable states (filesystem, accounts, both allocators); refinement of
  the byte-level allocators to first fit on lists of blocks and of the tables to maps; round trips of the saved
  images, alone and through the disk across a reboot; functional correctness and failure behaviour of the file and
  account operations; who may log in, change accounts, use \<^verbatim>\<open>sudo\<close> or execute a file; equivalence of the path
  resolution, the UTF-8 decoder, \<^verbatim>\<open>memmove\<close>, the wildcard matcher and the expansion of variables with reference
  definitions; where the loader puts the sections of a program and what it relocates; the order and completeness of the
  bytes received over TCP on any network, the form of the segments sent, and the reading of DHCP, DNS and chunked
  replies; that Linux programs keep the filesystem well formed, change only files their user may change and read back what was
  written; bounds of buffers, images and memory regions; and, where the code does not do what it means to,
  theorems that say exactly when it fails.

  \<^bold>\<open>Bounds and fuel.\<close> Loops that always end are total functions with their measures. Counters bound the others: the
  attempts of dialogues (\<^term>\<open>None\<close> when they are used up; the theorems say which answers make them return), the
  recursion of \<open>fs_delete_directory_recursive\<close> (the depth of the tree suffices), the streams of \<open>Store\<close> (\<^term>\<open>None\<close>
  marks the hang that a failing drive causes), the nesting of \<^verbatim>\<open>execute_command\<close> (flag \<open>too_deep\<close>; no depth suffices for
  a variable that names itself), the walk over the heap's list (flag \<open>heap_stuck\<close>, never set on a well-formed
  heap, whose list is shorter than the arena) and the scan of the memory map (one step per entry suffices).
  In the loader, the loop that does not end for sizes close to 4 GiB is the error \<open>Hangs\<close>, the splitting of arguments
  is \<^term>\<open>None\<close> where it makes no progress, and the exit handlers are counted (more than their number suffices when
  they register no others). In the network stack a counter bounds how deep polls nest and the field \<open>max_naps\<close> the sleeps of
  one wait, \<open>net_stuck\<close> records that one was used up; the properties hold for every value of both. \<open>tcp_send\<close> is
  \<^term>\<open>None\<close> when its counter is used up; one round per byte suffices exactly when the segment size is positive.
  The calls of Linux programs are total; runs are restricted by \<open>call_fits\<close> to files below the 2 MiB of a staging slot and
  to \<^verbatim>\<open>ftruncate\<close> on descriptors that write, because outside of that the code leaves its slot or changes the pool
  behind the filesystem's back, as \<open>ftruncate_ignores_mode\<close> shows.

  \<^bold>\<open>Not modelled.\<close> Device drivers, interrupts, assembly and the screen, which are register protocols; the
  network cards (what they send and receive is a sequence), TLS, the HTTP requests themselves and the choice of the card; the loader \<^verbatim>\<open>linux_run\<close> (which loader
  does what is a parameter of \<open>ShellExec\<close> on which its theorems put no condition) and the system calls of Linux programs
  for memory, file status, time and threads; stdio and maths of the C library; the user programs in src/bin; vendored code
  (src/tools, src/ports). Concurrency does not arise: the modelled code runs with one thread of control.
\<close>

end
